(* ===== verification/Prelude.thy ===== *)
theory Prelude
  imports Main "HOL-Library.Word"
begin

text \<open>
  Shared vocabulary of the development: the machine integer types, the result type of
  Rust code that may panic, the build configuration the source is compiled under, and the
  generic facts on results and words that the component theories use.
\<close>

unbundle bit_operations_syntax

section \<open>Machine integers\<close>

type_synonym u8 = "8 word"
type_synonym u16 = "16 word"
type_synonym u32 = "32 word"
type_synonym u64 = "64 word"

section \<open>Faults and results\<close>

text \<open>
  Every way a modelled function can fail to return: the panics of the source (each with a
  constructor that says which check fired), a failed \<open>debug_assert!\<close>, an arithmetic
  overflow (a panic in builds with overflow checks), and an access that is undefined
  behaviour (an unchecked index out of range, \<open>unreachable_unchecked\<close>).
\<close>

datatype fault =
    IllegalInstruction
  | UnknownInstruction
  | UnknownOpcode
  | UnsupportedRotate
  | UnalignedJump
  | UnalignedAccess
  | RomWrite
  | AssertFailed
  | DebugAssertFailed
  | ArithOverflow
  | IndexOutOfBounds
  | OracleEmpty
  | MarkerInReplay
  | UndefinedBehaviour

type_synonym 'a res = "fault + 'a"

definition bindR :: "'a res \<Rightarrow> ('a \<Rightarrow> 'b res) \<Rightarrow> 'b res" where
  "bindR m f = (case m of Inl e \<Rightarrow> Inl e | Inr x \<Rightarrow> f x)"

text \<open>\<open>guardR c e m\<close>: the check \<open>c\<close> (an \<open>assert!\<close> or a guarded \<open>panic!\<close>) before \<open>m\<close>.\<close>

definition guardR :: "bool \<Rightarrow> fault \<Rightarrow> 'a res \<Rightarrow> 'a res" where
  "guardR c e m = (if c then m else Inl e)"

text \<open>
  \<open>debug_assert!\<close> is compiled in only when \<open>debug_assertions\<close> is on: the first argument.
\<close>

definition debug_assert :: "bool \<Rightarrow> bool \<Rightarrow> 'a res \<Rightarrow> 'a res" where
  "debug_assert dbg c m = (if dbg \<and> \<not> c then Inl DebugAssertFailed else m)"

text \<open>
  Rust's \<open>+\<close> and \<open>-\<close> on unsigned integers: a panic where overflow checks are compiled in
  (they are on exactly when \<open>debug_assertions\<close> is, the default of both cargo profiles),
  wrap-around otherwise.
\<close>

definition checked_add :: "bool \<Rightarrow> 'w::len word \<Rightarrow> 'w word \<Rightarrow> 'w word res" where
  "checked_add dbg a b =
     (if dbg \<and> 2 ^ LENGTH('w) \<le> unat a + unat b then Inl ArithOverflow else Inr (a + b))"

definition checked_sub :: "bool \<Rightarrow> 'w::len word \<Rightarrow> 'w word \<Rightarrow> 'w word res" where
  "checked_sub dbg a b =
     (if dbg \<and> unat a < unat b then Inl ArithOverflow else Inr (a - b))"

text \<open>Subtraction of \<open>usize\<close> values held as natural numbers below \<open>2 ^ 64\<close>.\<close>

definition usize_sub :: "bool \<Rightarrow> nat \<Rightarrow> nat \<Rightarrow> nat res" where
  "usize_sub dbg a b =
     (if b \<le> a then Inr (a - b) else if dbg then Inl ArithOverflow else Inr (a + 2 ^ 64 - b))"

text \<open>A loop \<open>for x in xs\<close> whose body threads a state and may fail.\<close>

fun foldR :: "('a \<Rightarrow> 's \<Rightarrow> 's res) \<Rightarrow> 'a list \<Rightarrow> 's \<Rightarrow> 's res" where
  "foldR f [] s = Inr s"
| "foldR f (x # xs) s = bindR (f x s) (foldR f xs)"

named_theorems res_simps "inversion of computations that return"

lemma bindR_Inr [simp]: "bindR (Inr x) f = f x"
  by (simp add: bindR_def)

lemma bindR_Inl [simp]: "bindR (Inl e) f = Inl e"
  by (simp add: bindR_def)

lemma bindR_assoc: "bindR (bindR m f) g = bindR m (\<lambda>x. bindR (f x) g)"
  by (cases m) simp_all

lemma bindR_eq_Inr [res_simps]:
  "bindR m f = Inr y \<longleftrightarrow> (\<exists>x. m = Inr x \<and> f x = Inr y)"
  by (cases m) simp_all

lemma bindR_cong [fundef_cong]:
  "m = m' \<Longrightarrow> (\<And>x. m' = Inr x \<Longrightarrow> f x = f' x) \<Longrightarrow> bindR m f = bindR m' f'"
  by (cases m) auto

lemma guardR_eq_Inr [res_simps]: "guardR c e m = Inr y \<longleftrightarrow> c \<and> m = Inr y"
  by (simp add: guardR_def)

lemma guardR_True [simp]: "guardR True e m = m"
  by (simp add: guardR_def)

lemma guardR_False [simp]: "guardR False e m = Inl e"
  by (simp add: guardR_def)

lemma debug_assert_eq_Inr [res_simps]:
  "debug_assert dbg c m = Inr y \<longleftrightarrow> (dbg \<longrightarrow> c) \<and> m = Inr y"
  by (simp add: debug_assert_def)

lemma debug_assert_True [simp]: "debug_assert dbg True m = m"
  by (simp add: debug_assert_def)

lemma debug_assert_release [simp]: "debug_assert False c m = m"
  by (simp add: debug_assert_def)

lemma checked_add_eq_Inr [res_simps]:
  fixes a b :: "'w::len word"
  shows "checked_add dbg a b = Inr c \<longleftrightarrow>
           (dbg \<longrightarrow> unat a + unat b < 2 ^ LENGTH('w)) \<and> c = a + b"
  by (auto simp: checked_add_def)

lemma checked_sub_eq_Inr [res_simps]:
  "checked_sub dbg a b = Inr c \<longleftrightarrow> (dbg \<longrightarrow> unat b \<le> unat a) \<and> c = a - b"
  by (auto simp: checked_sub_def)

lemma foldR_append: "foldR f (xs @ ys) s = bindR (foldR f xs s) (foldR f ys)"
proof (induction xs arbitrary: s)
  case (Cons a xs)
  then show ?case by (cases "f a s") simp_all
qed simp

text \<open>A property that every iteration keeps is kept by the loop.\<close>

lemma foldR_invariant:
  assumes "foldR f xs s = Inr t" and "P s"
    and "\<And>x s t. x \<in> set xs \<Longrightarrow> P s \<Longrightarrow> f x s = Inr t \<Longrightarrow> P t"
  shows "P t"
  using assms by (induction xs arbitrary: s) (auto simp: res_simps)

section \<open>The build configuration\<close>

text \<open>
  \<open>debug_assertions\<close>: whether debug assertions and overflow checks are compiled in.
  \<open>fuzzing_support\<close>: the cargo feature of \<open>riscv_transpiler\<close> that turns decoder panics
  into illegal instructions. \<open>rom_bits\<close>: the const generic
  \<open>ROM_BOUND_SECOND_WORD_BITS\<close> of the RAM types.
\<close>

record cfg =
  debug_assertions :: bool
  fuzzing_support :: bool
  rom_bits :: nat

section \<open>Words bit by bit\<close>

lemma bit_beyond: "LENGTH('w) \<le> n \<Longrightarrow> bit (w :: 'w::len word) n = False"
  using bit_imp_le_length [of w n] by auto

text \<open>Equality of 32-bit words, as 32 comparisons that the simplifier evaluates.\<close>

lemma u32_eqI:
  fixes a b :: u32
  assumes
    "bit a 0 = bit b 0" "bit a 1 = bit b 1" "bit a 2 = bit b 2" "bit a 3 = bit b 3"
    "bit a 4 = bit b 4" "bit a 5 = bit b 5" "bit a 6 = bit b 6" "bit a 7 = bit b 7"
    "bit a 8 = bit b 8" "bit a 9 = bit b 9" "bit a 10 = bit b 10" "bit a 11 = bit b 11"
    "bit a 12 = bit b 12" "bit a 13 = bit b 13" "bit a 14 = bit b 14" "bit a 15 = bit b 15"
    "bit a 16 = bit b 16" "bit a 17 = bit b 17" "bit a 18 = bit b 18" "bit a 19 = bit b 19"
    "bit a 20 = bit b 20" "bit a 21 = bit b 21" "bit a 22 = bit b 22" "bit a 23 = bit b 23"
    "bit a 24 = bit b 24" "bit a 25 = bit b 25" "bit a 26 = bit b 26" "bit a 27 = bit b 27"
    "bit a 28 = bit b 28" "bit a 29 = bit b 29" "bit a 30 = bit b 30" "bit a 31 = bit b 31"
  shows "a = b"
proof (rule bit_word_eqI)
  fix n assume "n < LENGTH(32)"
  then have "n \<in> set [0..<32]" by simp
  also have "[0..<32] = [0, 1, 2, 3, 4, 5, 6, 7, 8, 9, 10, 11, 12, 13, 14, 15, 16, 17, 18, 19,
      20, 21, 22, 23, 24, 25, 26, 27, 28, 29, 30, 31]"
    by (simp add: upt_rec)
  finally show "bit a n = bit b n" using assms by auto
qed

lemma bit_twice: "bit (2 * x :: 'w::len word) n \<longleftrightarrow> 0 < n \<and> n < LENGTH('w) \<and> bit x (n - 1)"
  by (cases n) (auto simp: bit_simps dest: bit_imp_le_length)

lemmas u32_bits = bit_twice bit_beyond bit_and_iff bit_or_iff bit_not_iff bit_push_bit_iff
  bit_drop_bit_eq bit_take_bit_iff bit_signed_take_bit_iff bit_unsigned_iff bit_signed_iff

lemma unat_ucast_up:
  "LENGTH('a) \<le> LENGTH('b) \<Longrightarrow> unat (ucast (w :: 'a::len word) :: 'b::len word) = unat w"
  by (simp add: unsigned_ucast_eq take_bit_nat_eq_self_iff less_le_trans [OF unsigned_less])

lemma ucast_eq_0_iff:
  "LENGTH('a) \<le> LENGTH('b) \<Longrightarrow> (ucast (w :: 'a::len word) :: 'b::len word) = 0 \<longleftrightarrow> w = 0"
  by (metis unat_ucast_up unat_eq_zero)

lemma unat_take_bit: "unat (take_bit n w) = unat w mod 2 ^ n"
  unfolding unsigned_take_bit_eq by (rule take_bit_eq_mod)

lemma unat_drop_bit: "unat (drop_bit n w) = unat w div 2 ^ n"
  unfolding unsigned_drop_bit_eq
  by (subst take_bit_nat_eq_self) (simp_all add: unsigned_less drop_bit_eq_div)

lemma unat_ucast: "unat (ucast (w :: 'a::len word) :: 'b::len word) = unat w mod 2 ^ LENGTH('b)"
  by (simp only: unsigned_ucast_eq take_bit_eq_mod)

lemma and_low_bits: "w AND (2 ^ n - 1) = take_bit n (w :: 'w::len word)"
  by (simp only: take_bit_eq_mask mask_eq_exp_minus_1)

section \<open>Counting bits\<close>

definition count_ones :: "u32 \<Rightarrow> nat" where
  "count_ones w = length (filter (bit w) [0..<32])"

definition trailing_zeros :: "u32 \<Rightarrow> nat" where
  "trailing_zeros w = length (takeWhile (\<lambda>i. \<not> bit w i) [0..<32])"

lemma bit_one_shifted [simp]: "k < 32 \<Longrightarrow> bit ((2 :: u32) ^ k) i \<longleftrightarrow> i = k"
  by (auto simp: bit_simps)

lemma filter_eq_single: "distinct xs \<Longrightarrow> k \<in> set xs \<Longrightarrow> filter (\<lambda>i. i = k) xs = [k]"
  by (induction xs) (auto simp: filter_empty_conv)

lemma count_ones_one_shifted:
  assumes "k < 32"
  shows "count_ones (push_bit k 1) = 1"
proof -
  have "filter (bit (push_bit k (1 :: u32))) [0..<32] = filter (\<lambda>i. i = k) [0..<32]"
    by (rule filter_cong) (simp_all add: bit_one_shifted assms)
  then show ?thesis using assms by (simp only: count_ones_def filter_eq_single) (simp add: filter_eq_single)
qed

lemma trailing_zeros_one_shifted:
  assumes "k < 32"
  shows "trailing_zeros (push_bit k 1) = k"
proof -
  have "[0..<32] = [0..<k] @ k # [Suc k..<32]"
    using upt_add_eq_append [of 0 k "32 - k"] assms upt_conv_Cons [of k 32] by simp
  then have "takeWhile (\<lambda>i. \<not> bit (push_bit k (1 :: u32)) i) [0..<32] = [0..<k]"
    using assms by (simp only: takeWhile_append) (simp add: bit_one_shifted)
  then show ?thesis by (simp add: trailing_zeros_def)
qed

end
