(* ===== verification/Constants.thy ===== *)
theory Constants
  imports Prelude
begin

text \<open>
  The constants of \<open>common_constants\<close> that the transpiler, its replayer and the tracing
  data share, and the opcode constants of the decoder
  (\<open>riscv_transpiler/src/ir/instructions.rs\<close>). The collection \<open>code_consts\<close> unfolds them.
\<close>

named_theorems code_consts "the numeric constants of the source"

section \<open>Timestamps\<close>

definition INITIAL_TIMESTAMP :: u64 where [code_consts]: "INITIAL_TIMESTAMP = 4"
definition TIMESTAMP_STEP :: u64 where [code_consts]: "TIMESTAMP_STEP = 4"
definition NUM_TIMESTAMP_DATA_LIMBS :: nat where [code_consts]: "NUM_TIMESTAMP_DATA_LIMBS = 3"
definition TIMESTAMP_COLUMNS_NUM_BITS :: nat where [code_consts]: "TIMESTAMP_COLUMNS_NUM_BITS = 19"
definition TOTAL_TIMESTAMP_BITS :: nat where
  [code_consts]: "TOTAL_TIMESTAMP_BITS = TIMESTAMP_COLUMNS_NUM_BITS * 2"
definition MAX_INITIAL_TIMESTAMP :: u64 where
  [code_consts]: "MAX_INITIAL_TIMESTAMP = 2 ^ TOTAL_TIMESTAMP_BITS - TIMESTAMP_STEP * 2"

section \<open>Circuit families\<close>

definition ADD_SUB_LUI_AUIPC_MOP_CIRCUIT_FAMILY_IDX :: nat where
  [code_consts]: "ADD_SUB_LUI_AUIPC_MOP_CIRCUIT_FAMILY_IDX = 1"
definition JUMP_BRANCH_SLT_CIRCUIT_FAMILY_IDX :: nat where
  [code_consts]: "JUMP_BRANCH_SLT_CIRCUIT_FAMILY_IDX = 2"
definition SHIFT_BINARY_CSR_CIRCUIT_FAMILY_IDX :: nat where
  [code_consts]: "SHIFT_BINARY_CSR_CIRCUIT_FAMILY_IDX = 3"
definition MUL_DIV_CIRCUIT_FAMILY_IDX :: nat where
  [code_consts]: "MUL_DIV_CIRCUIT_FAMILY_IDX = 4"
definition LOAD_STORE_WORD_ONLY_CIRCUIT_FAMILY_IDX :: nat where
  [code_consts]: "LOAD_STORE_WORD_ONLY_CIRCUIT_FAMILY_IDX = 16"
definition LOAD_STORE_SUBWORD_ONLY_CIRCUIT_FAMILY_IDX :: nat where
  [code_consts]: "LOAD_STORE_SUBWORD_ONLY_CIRCUIT_FAMILY_IDX = 17"
definition REDUCED_MACHINE_CIRCUIT_FAMILY_IDX :: nat where
  [code_consts]: "REDUCED_MACHINE_CIRCUIT_FAMILY_IDX = 128"

section \<open>CSR numbers\<close>

definition NON_DETERMINISM_CSR :: u32 where [code_consts]: "NON_DETERMINISM_CSR = 0x7c0"
definition BLAKE2S_DELEGATION_CSR_REGISTER :: u32 where
  [code_consts]: "BLAKE2S_DELEGATION_CSR_REGISTER = NON_DETERMINISM_CSR + 7"
definition BIGINT_OPS_WITH_CONTROL_CSR_REGISTER :: u32 where
  [code_consts]: "BIGINT_OPS_WITH_CONTROL_CSR_REGISTER = NON_DETERMINISM_CSR + 10"
definition KECCAK_SPECIAL5_CSR_REGISTER :: u32 where
  [code_consts]: "KECCAK_SPECIAL5_CSR_REGISTER = NON_DETERMINISM_CSR + 11"
definition TRANSPILER_MARKER_CSR :: u32 where [code_consts]: "TRANSPILER_MARKER_CSR = 0x7ff"
definition CYCLE_CSR_INDEX :: u32 where [code_consts]: "CYCLE_CSR_INDEX = 3072"
definition NUM_DELEGATION_CALLS_FOR_KECCAK_F1600 :: nat where
  [code_consts]: "NUM_DELEGATION_CALLS_FOR_KECCAK_F1600 = 649"

section \<open>Control bits of the big-integer delegation\<close>

definition ADD_OP_BIT_IDX :: nat where [code_consts]: "ADD_OP_BIT_IDX = 0"
definition SUB_OP_BIT_IDX :: nat where [code_consts]: "SUB_OP_BIT_IDX = 1"
definition SUB_AND_NEGATE_OP_BIT_IDX :: nat where [code_consts]: "SUB_AND_NEGATE_OP_BIT_IDX = 2"
definition MUL_LOW_OP_BIT_IDX :: nat where [code_consts]: "MUL_LOW_OP_BIT_IDX = 3"
definition MUL_HIGH_OP_BIT_IDX :: nat where [code_consts]: "MUL_HIGH_OP_BIT_IDX = 4"
definition EQ_OP_BIT_IDX :: nat where [code_consts]: "EQ_OP_BIT_IDX = 5"
definition CARRY_BIT_IDX :: nat where [code_consts]: "CARRY_BIT_IDX = 6"
definition MEMCOPY_BIT_IDX :: nat where [code_consts]: "MEMCOPY_BIT_IDX = 7"

section \<open>The read-only memory region\<close>

definition ROM_BYTE_SIZE_LOG2 :: nat where [code_consts]: "ROM_BYTE_SIZE_LOG2 = 22"
definition ROM_BYTE_SIZE :: nat where [code_consts]: "ROM_BYTE_SIZE = 2 ^ ROM_BYTE_SIZE_LOG2"
definition ROM_SECOND_WORD_BITS :: nat where [code_consts]: "ROM_SECOND_WORD_BITS = ROM_BYTE_SIZE_LOG2 - 16"
definition ROM_WORD_SIZE :: nat where [code_consts]: "ROM_WORD_SIZE = ROM_BYTE_SIZE div 4"

section \<open>Opcodes and function codes\<close>

definition OP_IMM_SUBMASK :: u8 where [code_consts]: "OP_IMM_SUBMASK = 0b0010011"
definition OP_SUBMASK :: u8 where [code_consts]: "OP_SUBMASK = 0b0110011"
definition OPCODE_LUI :: u8 where [code_consts]: "OPCODE_LUI = 0b0110111"
definition OPCODE_AUIPC :: u8 where [code_consts]: "OPCODE_AUIPC = 0b0010111"
definition OPCODE_JAL :: u8 where [code_consts]: "OPCODE_JAL = 0b1101111"
definition OPCODE_JALR :: u8 where [code_consts]: "OPCODE_JALR = 0b1100111"
definition OPCODE_BRANCH :: u8 where [code_consts]: "OPCODE_BRANCH = 0b1100011"
definition OPCODE_LOAD :: u8 where [code_consts]: "OPCODE_LOAD = 0b0000011"
definition OPCODE_STORE :: u8 where [code_consts]: "OPCODE_STORE = 0b0100011"
definition OPCODE_SYSTEM :: u8 where [code_consts]: "OPCODE_SYSTEM = 0b1110011"

definition GROUP_IMM_ADD :: u8 where [code_consts]: "GROUP_IMM_ADD = 0b000"
definition GROUP_IMM_SLL :: u8 where [code_consts]: "GROUP_IMM_SLL = 0b001"
definition GROUP_IMM_SLT :: u8 where [code_consts]: "GROUP_IMM_SLT = 0b010"
definition GROUP_IMM_SLTU :: u8 where [code_consts]: "GROUP_IMM_SLTU = 0b011"
definition GROUP_IMM_XOR :: u8 where [code_consts]: "GROUP_IMM_XOR = 0b100"
definition GROUP_IMM_SRL :: u8 where [code_consts]: "GROUP_IMM_SRL = 0b101"
definition GROUP_IMM_SRA :: u8 where [code_consts]: "GROUP_IMM_SRA = 0b101"
definition GROUP_IMM_OR :: u8 where [code_consts]: "GROUP_IMM_OR = 0b110"
definition GROUP_IMM_AND :: u8 where [code_consts]: "GROUP_IMM_AND = 0b111"

definition SUB_FUNCT7 :: u8 where [code_consts]: "SUB_FUNCT7 = 0b0100000"
definition SLL_FUNCT7 :: u8 where [code_consts]: "SLL_FUNCT7 = 0"
definition SRL_FUNCT7 :: u8 where [code_consts]: "SRL_FUNCT7 = 0"
definition SRA_FUNCT7 :: u8 where [code_consts]: "SRA_FUNCT7 = 0b0100000"
definition ROT_FUNCT7 :: u8 where [code_consts]: "ROT_FUNCT7 = 0b0110000"
definition M_EXT_FUNCT7 :: u8 where [code_consts]: "M_EXT_FUNCT7 = 0b0000001"

end
