(* ===== verification/Decode.thy ===== *)
theory Decode
  imports Constants
begin

text \<open>
  The instruction decoder of \<open>riscv_transpiler/src/ir\<close>: the field and immediate extraction
  of \<open>decode.rs\<close> and \<open>encoding_types.rs\<close>, the decoded form \<open>Instruction\<close> of
  \<open>instr_stream.rs\<close>, and \<open>preprocess_bytecode\<close> of \<open>mod.rs\<close>, one definition per opcode
  class of its \<open>match\<close>, composed by \<open>decode_at\<close> (one iteration of the \<open>while\<close> loop) and
  \<open>preprocess_loop\<close> (the loop).
\<close>

section \<open>Bit fields\<close>

definition funct3_bits :: "u32 \<Rightarrow> u8" where
  "funct3_bits src = ucast (drop_bit 12 src AND 0b111)"

definition funct7_bits :: "u32 \<Rightarrow> u8" where
  "funct7_bits src = ucast (drop_bit 25 src AND 0b1111111)"

definition get_opcode_bits :: "u32 \<Rightarrow> u8" where
  "get_opcode_bits src = ucast (src AND 0b01111111)"

definition get_rd_bits :: "u32 \<Rightarrow> u8" where
  "get_rd_bits src = ucast (drop_bit 7 src AND 0b00011111)"

definition get_formal_rs1_bits :: "u32 \<Rightarrow> u8" where
  "get_formal_rs1_bits src = ucast (drop_bit 15 src AND 0b00011111)"

definition get_formal_rs2_bits :: "u32 \<Rightarrow> u8" where
  "get_formal_rs2_bits src = ucast (drop_bit 20 src AND 0b00011111)"

definition sign_extend :: "u32 \<Rightarrow> nat \<Rightarrow> u32" where
  "sign_extend dst total_bits =
     (if dst AND push_bit (total_bits - 1) 1 \<noteq> 0
      then dst OR NOT (push_bit total_bits 1 - 1)
      else dst)"

definition get_bits_and_align_right :: "u32 \<Rightarrow> nat \<Rightarrow> nat \<Rightarrow> u32" where
  "get_bits_and_align_right src from_bit num_bits =
     (let m = push_bit from_bit (push_bit num_bits 1 - 1)
      in drop_bit from_bit (src AND m))"

definition get_bits_and_shift_right :: "u32 \<Rightarrow> nat \<Rightarrow> nat \<Rightarrow> nat \<Rightarrow> u32" where
  "get_bits_and_shift_right src from_bit num_bits shift =
     (let m = push_bit from_bit (push_bit num_bits 1 - 1)
      in drop_bit shift (src AND m))"

definition get_bits_and_shift_left :: "u32 \<Rightarrow> nat \<Rightarrow> nat \<Rightarrow> nat \<Rightarrow> u32" where
  "get_bits_and_shift_left src from_bit num_bits shift =
     (let m = push_bit from_bit (push_bit num_bits 1 - 1)
      in push_bit shift (src AND m))"

section \<open>Immediates of the instruction formats\<close>

definition UTypeOpcode_imm :: "u32 \<Rightarrow> u32" where
  "UTypeOpcode_imm src = get_bits_and_shift_right src 12 20 0"

definition JTypeOpcode_imm :: "u32 \<Rightarrow> u32" where
  "JTypeOpcode_imm src =
     get_bits_and_shift_right src 21 10 (21 - 1)
     OR get_bits_and_shift_right src 20 1 (20 - 11)
     OR get_bits_and_shift_right src 12 8 0
     OR get_bits_and_shift_right src 31 1 (31 - 20)"

definition BTypeOpcode_imm :: "u32 \<Rightarrow> u32" where
  "BTypeOpcode_imm src =
     get_bits_and_shift_right src 8 4 (8 - 1)
     OR get_bits_and_shift_right src 25 6 (25 - 5)
     OR get_bits_and_shift_left src 7 1 (11 - 7)
     OR get_bits_and_shift_right src 31 1 (31 - 12)"

definition ITypeOpcode_imm :: "u32 \<Rightarrow> u32" where
  "ITypeOpcode_imm src = get_bits_and_align_right src 20 12"

definition STypeOpcode_imm :: "u32 \<Rightarrow> u32" where
  "STypeOpcode_imm src =
     get_bits_and_align_right src 7 5 OR get_bits_and_shift_right src 25 7 (25 - 5)"

section \<open>Decoded instructions\<close>

datatype delegation_type = Blake | BigInt | Keccak

fun delegation_type_as_u32 :: "delegation_type \<Rightarrow> u32" where
  "delegation_type_as_u32 Blake = 0"
| "delegation_type_as_u32 BigInt = 1"
| "delegation_type_as_u32 Keccak = 2"

datatype instruction_name =
    Illegal
  | Lui | Auipc | Jal | Jalr
  | Addi | Slli | Srli | Srai | Slti | Sltiu | Xori | Ori | Andi
  | Mul | Mulh | Mulhsu | Mulhu | Div | Divu | Rem | Remu
  | Add | Sub | Sll | Rol | Srl | Sra | Ror | Slt | Sltu | Xor | Or | And
  | Branch
  | Lhu | Lbu | Lw | Lh | Lb | Sb | Sh | Sw
  | ZimopAdd | ZimopSub | ZimopMul
  | ZicsrDelegation | ZicsrMarkerCsr | ZicsrNonDeterminismRead | ZicsrNonDeterminismWrite
  | FormalEnd

record instruction =
  name :: instruction_name
  rs1 :: u8
  rs2 :: u8
  rd :: u8
  imm :: u32

definition from_imm ::
  "instruction_name \<Rightarrow> u8 \<Rightarrow> u8 \<Rightarrow> u8 \<Rightarrow> u32 \<Rightarrow> instruction" where
  "from_imm n a b d i = \<lparr> name = n, rs1 = a, rs2 = b, rd = d, imm = i \<rparr>"

definition illegal_instr :: instruction where
  "illegal_instr = from_imm Illegal 0 0 0 0"

section \<open>Decoder configurations\<close>

record decoding_options =
  SUPPORT_SUBWORD_MEM_ACCESS :: bool
  SUPPORT_MUL_DIV :: bool
  SUPPORT_SIGNED_MUL_DIV :: bool
  SUPPORT_MOP :: bool

definition FullMachineDecoderConfig :: decoding_options where
  "FullMachineDecoderConfig =
     \<lparr> SUPPORT_SUBWORD_MEM_ACCESS = True, SUPPORT_MUL_DIV = True,
       SUPPORT_SIGNED_MUL_DIV = True, SUPPORT_MOP = False \<rparr>"

definition FullUnsignedMachineDecoderConfig :: decoding_options where
  "FullUnsignedMachineDecoderConfig =
     \<lparr> SUPPORT_SUBWORD_MEM_ACCESS = True, SUPPORT_MUL_DIV = True,
       SUPPORT_SIGNED_MUL_DIV = False, SUPPORT_MOP = False \<rparr>"

definition ReducedMachineDecoderConfig :: decoding_options where
  "ReducedMachineDecoderConfig =
     \<lparr> SUPPORT_SUBWORD_MEM_ACCESS = False, SUPPORT_MUL_DIV = False,
       SUPPORT_SIGNED_MUL_DIV = False, SUPPORT_MOP = True \<rparr>"

definition DebugReducedMachineDecoderConfig :: decoding_options where
  "DebugReducedMachineDecoderConfig =
     \<lparr> SUPPORT_SUBWORD_MEM_ACCESS = True, SUPPORT_MUL_DIV = False,
       SUPPORT_SIGNED_MUL_DIV = False, SUPPORT_MOP = True \<rparr>"

text \<open>
  \<open>panic_or_illegal!\<close>: an illegal instruction when the feature \<open>fuzzing-support\<close> is on,
  a panic otherwise.
\<close>

definition panic_or_illegal :: "cfg \<Rightarrow> instruction res" where
  "panic_or_illegal c = (if fuzzing_support c then Inr illegal_instr else Inl UnknownOpcode)"

definition when_supported :: "bool \<Rightarrow> instruction \<Rightarrow> instruction" where
  "when_supported b ins = (if b then ins else illegal_instr)"

section \<open>The opcode classes\<close>

definition decode_branch :: "cfg \<Rightarrow> u32 \<Rightarrow> instruction res" where
  "decode_branch c opcode =
     (let i = sign_extend (BTypeOpcode_imm opcode) 13; funct3 = funct3_bits opcode in
      if funct3 \<in> {0, 1, 4, 5, 6, 7}
      then Inr (from_imm Branch (get_formal_rs1_bits opcode) (get_formal_rs2_bits opcode) funct3 i)
      else panic_or_illegal c)"

definition decode_op_imm :: "cfg \<Rightarrow> u32 \<Rightarrow> instruction res" where
  "decode_op_imm c opcode =
     (let i = sign_extend (ITypeOpcode_imm opcode) 12;
          d = get_rd_bits opcode;
          formal_rs1 = get_formal_rs1_bits opcode;
          funct3 = funct3_bits opcode;
          funct7 = funct7_bits opcode in
      if funct3 = GROUP_IMM_ADD then Inr (from_imm Addi formal_rs1 0 d i)
      else if funct3 = GROUP_IMM_SLL \<and> funct7 = SLL_FUNCT7
        then Inr (from_imm Slli formal_rs1 0 d (i AND 0x1f))
      else if funct3 = GROUP_IMM_SRL \<and> funct7 = SRL_FUNCT7
        then Inr (from_imm Srli formal_rs1 0 d (i AND 0x1f))
      else if funct3 = GROUP_IMM_SRA \<and> funct7 = SRA_FUNCT7
        then Inr (from_imm Srai formal_rs1 0 d (i AND 0x1f))
      else if funct3 = 0b101 \<and> funct7 = ROT_FUNCT7 then Inl UnsupportedRotate
      else if funct3 = GROUP_IMM_SLT then Inr (from_imm Slti formal_rs1 0 d i)
      else if funct3 = GROUP_IMM_SLTU then Inr (from_imm Sltiu formal_rs1 0 d i)
      else if funct3 = GROUP_IMM_XOR then Inr (from_imm Xori formal_rs1 0 d i)
      else if funct3 = GROUP_IMM_OR then Inr (from_imm Ori formal_rs1 0 d i)
      else if funct3 = GROUP_IMM_AND then Inr (from_imm Andi formal_rs1 0 d i)
      else panic_or_illegal c)"

text \<open>
  The two halves of \<open>OP_SUBMASK\<close>: the multiplication extension, whose last arm is
  unreachable for a three-bit \<open>funct3\<close>, and the basic set.
\<close>

definition decode_mul_ext :: "decoding_options \<Rightarrow> u32 \<Rightarrow> instruction res" where
  "decode_mul_ext opt opcode =
     (let d = get_rd_bits opcode;
          formal_rs1 = get_formal_rs1_bits opcode;
          formal_rs2 = get_formal_rs2_bits opcode;
          funct3 = funct3_bits opcode;
          md = SUPPORT_MUL_DIV opt;
          signed = SUPPORT_MUL_DIV opt \<and> SUPPORT_SIGNED_MUL_DIV opt in
      if funct3 = 0b000 then Inr (when_supported md (from_imm Mul formal_rs1 formal_rs2 d 0))
      else if funct3 = 0b001 then Inr (when_supported signed (from_imm Mulh formal_rs1 formal_rs2 d 0))
      else if funct3 = 0b010 then Inr (when_supported signed (from_imm Mulhsu formal_rs1 formal_rs2 d 0))
      else if funct3 = 0b011 then Inr (when_supported md (from_imm Mulhu formal_rs1 formal_rs2 d 0))
      else if funct3 = 0b100 then Inr (when_supported signed (from_imm Div formal_rs1 formal_rs2 d 0))
      else if funct3 = 0b101 then Inr (when_supported md (from_imm Divu formal_rs1 formal_rs2 d 0))
      else if funct3 = 0b110 then Inr (when_supported signed (from_imm Rem formal_rs1 formal_rs2 d 0))
      else if funct3 = 0b111 then Inr (when_supported md (from_imm Remu formal_rs1 formal_rs2 d 0))
      else Inl AssertFailed)"

definition decode_op_basic :: "cfg \<Rightarrow> u32 \<Rightarrow> instruction res" where
  "decode_op_basic c opcode =
     (let d = get_rd_bits opcode;
          formal_rs1 = get_formal_rs1_bits opcode;
          formal_rs2 = get_formal_rs2_bits opcode;
          funct3 = funct3_bits opcode;
          funct7 = funct7_bits opcode in
      if funct3 = 0b000 \<and> funct7 = 0 then Inr (from_imm Add formal_rs1 formal_rs2 d 0)
      else if funct3 = 0b000 \<and> funct7 = SUB_FUNCT7 then Inr (from_imm Sub formal_rs1 formal_rs2 d 0)
      else if funct3 = 0b001 \<and> funct7 = SLL_FUNCT7 then Inr (from_imm Sll formal_rs1 formal_rs2 d 0)
      else if funct3 = 0b001 \<and> funct7 = ROT_FUNCT7 then Inl UnsupportedRotate
      else if funct3 = 0b101 \<and> funct7 = SRL_FUNCT7 then Inr (from_imm Srl formal_rs1 formal_rs2 d 0)
      else if funct3 = 0b101 \<and> funct7 = SRA_FUNCT7 then Inr (from_imm Sra formal_rs1 formal_rs2 d 0)
      else if funct3 = 0b101 \<and> funct7 = ROT_FUNCT7 then Inl UnsupportedRotate
      else if funct3 = 0b010 then Inr (from_imm Slt formal_rs1 formal_rs2 d 0)
      else if funct3 = 0b011 then Inr (from_imm Sltu formal_rs1 formal_rs2 d 0)
      else if funct3 = 0b100 then Inr (from_imm Xor formal_rs1 formal_rs2 d 0)
      else if funct3 = 0b110 then Inr (from_imm Or formal_rs1 formal_rs2 d 0)
      else if funct3 = 0b111 then Inr (from_imm And formal_rs1 formal_rs2 d 0)
      else panic_or_illegal c)"

definition decode_load :: "cfg \<Rightarrow> decoding_options \<Rightarrow> u32 \<Rightarrow> instruction res" where
  "decode_load c opt opcode =
     (let i = sign_extend (ITypeOpcode_imm opcode) 12;
          d = get_rd_bits opcode;
          formal_rs1 = get_formal_rs1_bits opcode;
          funct3 = funct3_bits opcode;
          sub = SUPPORT_SUBWORD_MEM_ACCESS opt in
      if funct3 = 0 then Inr (when_supported sub (from_imm Lb formal_rs1 0 d i))
      else if funct3 = 1 then Inr (when_supported sub (from_imm Lh formal_rs1 0 d i))
      else if funct3 = 2 then Inr (from_imm Lw formal_rs1 0 d i)
      else if funct3 = 4 then Inr (when_supported sub (from_imm Lbu formal_rs1 0 d i))
      else if funct3 = 5 then Inr (when_supported sub (from_imm Lhu formal_rs1 0 d i))
      else panic_or_illegal c)"

definition decode_store :: "cfg \<Rightarrow> decoding_options \<Rightarrow> u32 \<Rightarrow> instruction res" where
  "decode_store c opt opcode =
     (let i = sign_extend (STypeOpcode_imm opcode) 12;
          formal_rs1 = get_formal_rs1_bits opcode;
          formal_rs2 = get_formal_rs2_bits opcode;
          funct3 = funct3_bits opcode;
          sub = SUPPORT_SUBWORD_MEM_ACCESS opt in
      if funct3 = 0 then Inr (when_supported sub (from_imm Sb formal_rs1 formal_rs2 0 i))
      else if funct3 = 1 then Inr (when_supported sub (from_imm Sh formal_rs1 formal_rs2 0 i))
      else if funct3 = 2 then Inr (from_imm Sw formal_rs1 formal_rs2 0 i)
      else panic_or_illegal c)"

text \<open>The modular operations of Zimop. The number of the operation is computed as the code does.\<close>

definition mop_number :: "u8 \<Rightarrow> u8" where
  "mop_number funct7 = drop_bit 1 (funct7 AND 0b110) OR drop_bit 5 (funct7 AND 0b100000)"

definition decode_mop :: "cfg \<Rightarrow> decoding_options \<Rightarrow> u32 \<Rightarrow> instruction res" where
  "decode_mop c opt opcode =
     (let d = get_rd_bits opcode;
          formal_rs1 = get_formal_rs1_bits opcode;
          formal_rs2 = get_formal_rs2_bits opcode;
          funct7 = funct7_bits opcode;
          mop = SUPPORT_MOP opt in
      if funct7 AND 0b1000001 = 0b1000001 then
        (if mop_number funct7 = 0 then Inr (when_supported mop (from_imm ZimopAdd formal_rs1 formal_rs2 d 0))
         else if mop_number funct7 = 1 then Inr (when_supported mop (from_imm ZimopSub formal_rs1 formal_rs2 d 0))
         else if mop_number funct7 = 2 then Inr (when_supported mop (from_imm ZimopMul formal_rs1 formal_rs2 d 0))
         else panic_or_illegal c)
      else panic_or_illegal c)"

text \<open>
  The look-ahead of the two fused delegations: the smallest \<open>j \<le> n\<close> (from \<open>j\<close> on) with
  \<open>bytecode[i + j] \<noteq> opcode\<close>, 0 when there is none. Indexing past the end of the
  bytecode panics.
\<close>

function count_calls :: "u32 list \<Rightarrow> nat \<Rightarrow> u32 \<Rightarrow> nat \<Rightarrow> nat \<Rightarrow> nat res" where
  "count_calls bytecode i opcode j n =
     (if n < j then Inr 0
      else if length bytecode \<le> i + j then Inl IndexOutOfBounds
      else if bytecode ! (i + j) = opcode then count_calls bytecode i opcode (j + 1) n
      else Inr j)"
  by pat_completeness auto
termination by (relation "measure (\<lambda>(_, _, _, j, n). Suc n - j)") auto

declare count_calls.simps [simp del]

text \<open>
  An iteration of the loop either stores one instruction and goes on to the next word, or
  (the fused delegations) stores one instruction and skips the whole run of calls: the
  result is the instruction and the number of words consumed. \<open>csr_step\<close> is the
  \<open>match csr_number\<close>: its \<open>Inl\<close> is the value of the match, its \<open>Inr\<close> the short-cut
  that leaves the iteration.
\<close>

definition delegation_instr :: "delegation_type \<Rightarrow> instruction" where
  "delegation_instr d = from_imm ZicsrDelegation 0 0 0 (delegation_type_as_u32 d)"

definition csr_step ::
  "cfg \<Rightarrow> u32 list \<Rightarrow> nat \<Rightarrow> u32 \<Rightarrow> (instruction + instruction \<times> nat) res" where
  "csr_step c bytecode i opcode =
     (let csr_number = ITypeOpcode_imm opcode;
          d = get_rd_bits opcode;
          formal_rs1 = get_formal_rs1_bits opcode in
      if csr_number = NON_DETERMINISM_CSR then
        guardR (formal_rs1 = 0 \<or> d = 0) AssertFailed
          (if formal_rs1 = 0 then Inr (Inl (from_imm ZicsrNonDeterminismRead 0 0 d 0))
           else guardR (d = 0) AssertFailed
                  (Inr (Inl (from_imm ZicsrNonDeterminismWrite formal_rs1 0 0 0))))
      else if csr_number = BLAKE2S_DELEGATION_CSR_REGISTER then
        guardR (formal_rs1 = 0) AssertFailed (guardR (d = 0) AssertFailed
          (bindR (count_calls bytecode i opcode 1 10) (\<lambda>num_calls.
             guardR (num_calls = 7 \<or> num_calls = 10) AssertFailed
               (Inr (Inr (delegation_instr Blake, num_calls))))))
      else if csr_number = BIGINT_OPS_WITH_CONTROL_CSR_REGISTER then
        guardR (formal_rs1 = 0) AssertFailed (guardR (d = 0) AssertFailed
          (Inr (Inl (delegation_instr BigInt))))
      else if csr_number = KECCAK_SPECIAL5_CSR_REGISTER then
        guardR (formal_rs1 = 0) AssertFailed (guardR (d = 0) AssertFailed
          (bindR (count_calls bytecode i opcode 1 NUM_DELEGATION_CALLS_FOR_KECCAK_F1600) (\<lambda>num_calls.
             guardR (num_calls = NUM_DELEGATION_CALLS_FOR_KECCAK_F1600) AssertFailed
               (Inr (Inr (delegation_instr Keccak, num_calls))))))
      else if csr_number = TRANSPILER_MARKER_CSR then
        guardR (d = 0) AssertFailed (guardR (formal_rs1 = 0) AssertFailed
          (Inr (Inl (from_imm ZicsrMarkerCsr formal_rs1 0 0 0))))
      else if csr_number = CYCLE_CSR_INDEX then Inr (Inl illegal_instr)
      else bindR (panic_or_illegal c) (\<lambda>ins. Inr (Inl ins)))"

definition one_word :: "instruction res \<Rightarrow> (instruction \<times> nat) res" where
  "one_word m = bindR m (\<lambda>ins. Inr (ins, 1))"

definition decode_system ::
  "cfg \<Rightarrow> decoding_options \<Rightarrow> u32 list \<Rightarrow> nat \<Rightarrow> u32 \<Rightarrow> (instruction \<times> nat) res" where
  "decode_system c opt bytecode i opcode =
     (let funct3 = funct3_bits opcode in
      if funct3 = 0b100 then one_word (decode_mop c opt opcode)
      else if funct3 AND 0x3 \<noteq> 0 then
        bindR (csr_step c bytecode i opcode) (\<lambda>r.
          case r of
            Inr run \<Rightarrow> Inr run
          | Inl ins \<Rightarrow> one_word (if funct3 \<noteq> 0b001 then panic_or_illegal c else Inr ins))
      else one_word (panic_or_illegal c))"

section \<open>The decoder\<close>

text \<open>One iteration of the loop at word \<open>i\<close>: the instruction stored there and the words consumed.\<close>

definition decode_at ::
  "cfg \<Rightarrow> decoding_options \<Rightarrow> u32 list \<Rightarrow> nat \<Rightarrow> (instruction \<times> nat) res" where
  "decode_at c opt bytecode i =
     (let opcode = bytecode ! i;
          d = get_rd_bits opcode;
          formal_rs1 = get_formal_rs1_bits opcode;
          op = get_opcode_bits opcode in
      if op = OPCODE_LUI then Inr (from_imm Lui 0 0 d (UTypeOpcode_imm opcode), 1)
      else if op = OPCODE_AUIPC then Inr (from_imm Auipc 0 0 d (UTypeOpcode_imm opcode), 1)
      else if op = OPCODE_JAL then
        Inr (from_imm Jal 0 0 d (sign_extend (JTypeOpcode_imm opcode) 21), 1)
      else if op = OPCODE_JALR then
        Inr (from_imm Jalr formal_rs1 0 d (sign_extend (ITypeOpcode_imm opcode) 12), 1)
      else if op = OPCODE_BRANCH then one_word (decode_branch c opcode)
      else if op = OP_IMM_SUBMASK then one_word (decode_op_imm c opcode)
      else if op = OP_SUBMASK then
        one_word (if funct7_bits opcode = M_EXT_FUNCT7 then decode_mul_ext opt opcode
                  else decode_op_basic c opcode)
      else if op = OPCODE_LOAD then one_word (decode_load c opt opcode)
      else if op = OPCODE_STORE then one_word (decode_store c opt opcode)
      else if op = OPCODE_SYSTEM then decode_system c opt bytecode i opcode
      else Inr (illegal_instr, 1))"

lemma count_calls_le: "count_calls bytecode i opcode j n = Inr k \<Longrightarrow> k \<le> n"
  by (induction bytecode i opcode j n rule: count_calls.induct)
     (subst (asm) (2) count_calls.simps, auto split: if_splits)

lemma one_word_eq_Inr [res_simps]: "one_word m = Inr r \<longleftrightarrow> snd r = 1 \<and> m = Inr (fst r)"
  by (cases r) (auto simp: one_word_def res_simps)

lemma csr_step_run:
  "csr_step c bytecode i opcode = Inr (Inr (ins, n)) \<Longrightarrow> n = 7 \<or> n = 10 \<or> n = 649"
  by (auto simp: csr_step_def Let_def res_simps NUM_DELEGATION_CALLS_FOR_KECCAK_F1600_def
           split: if_splits)

lemma decode_system_cases:
  assumes "decode_system c opt bytecode i opcode = Inr (ins, n)"
  obtains (mop) "n = 1" "decode_mop c opt opcode = Inr ins"
    | (unknown) "n = 1" "panic_or_illegal c = Inr ins"
    | (csr) "n = 1" "csr_step c bytecode i opcode = Inr (Inl ins)"
    | (run) "csr_step c bytecode i opcode = Inr (Inr (ins, n))"
proof (cases "csr_step c bytecode i opcode")
  case (Inl e)
  with assms show thesis
    by (auto simp: decode_system_def Let_def res_simps split: if_splits intro: mop unknown)
next
  case (Inr r)
  with assms show thesis
    by (cases r) (auto simp: decode_system_def Let_def res_simps split: if_splits
                       intro: mop unknown csr run)
qed

lemma decode_system_advance:
  "decode_system c opt bytecode i opcode = Inr (ins, n) \<Longrightarrow> n \<in> {1, 7, 10, 649}"
  by (erule decode_system_cases) (auto dest: csr_step_run)

lemma decode_at_advance: "decode_at c opt bytecode i = Inr (ins, n) \<Longrightarrow> n \<in> {1, 7, 10, 649}"
  by (auto simp: decode_at_def Let_def res_simps dest: decode_system_advance split: if_splits)

text \<open>The loop: \<open>i\<close> and the vector of instructions are its mutable variables.\<close>

function preprocess_loop ::
  "cfg \<Rightarrow> decoding_options \<Rightarrow> u32 list \<Rightarrow> nat \<Rightarrow> instruction list \<Rightarrow> instruction list res" where
  "preprocess_loop c opt bytecode i instructions =
     (if i < length bytecode then
        bindR (decode_at c opt bytecode i) (\<lambda>r.
          preprocess_loop c opt bytecode (i + snd r) (instructions[i := fst r]))
      else Inr instructions)"
  by pat_completeness auto
termination
  by (relation "measure (\<lambda>(_, _, bytecode, i, _). length bytecode - i)")
     (auto dest!: decode_at_advance)

declare preprocess_loop.simps [simp del]

definition preprocess_bytecode ::
  "cfg \<Rightarrow> decoding_options \<Rightarrow> u32 list \<Rightarrow> instruction list res" where
  "preprocess_bytecode c opt bytecode =
     preprocess_loop c opt bytecode 0 (replicate (length bytecode) illegal_instr)"

end
