(* ===== verification/Encoding.thy ===== *)
theory Encoding
  imports Decode
begin

text \<open>
  The RISC-V instruction formats as the ISA manual draws them: the abstract syntax
  \<open>rv_instr\<close> of the instructions the machine supports, \<open>encode\<close> into 32-bit words, and
  \<open>lower\<close>, the decoded instruction each one stands for under a decoder configuration. The
  lemmas show that the field and immediate extraction of the decoder inverts the encoding.
\<close>

section \<open>Abstract syntax\<close>

type_synonym reg = "5 word"

datatype branch_cond = BEQ | BNE | BLT | BGE | BLTU | BGEU
datatype load_op = LB | LH | LW | LBU | LHU
datatype store_op = SB | SH | SW
datatype imm_op = ADDI | SLTI | SLTIU | XORI | ORI | ANDI
datatype shift_op = SLLI | SRLI | SRAI
datatype reg_op =
    R_ADD | R_SUB | R_SLL | R_SLT | R_SLTU | R_XOR | R_SRL | R_SRA | R_OR | R_AND
  | R_MUL | R_MULH | R_MULHSU | R_MULHU | R_DIV | R_DIVU | R_REM | R_REMU
datatype mop_op = MOP_ADD | MOP_SUB | MOP_MUL

text \<open>
  Offsets of jumps and branches are given as the encoded field: half the byte offset.
\<close>

datatype rv_instr =
    LUI reg "20 word"
  | AUIPC reg "20 word"
  | JAL reg "20 word"
  | JALR reg reg "12 word"
  | BRANCH branch_cond reg reg "12 word"
  | LOAD load_op reg reg "12 word"
  | STORE store_op reg reg "12 word"
  | OP_IMM imm_op reg reg "12 word"
  | SHIFT_IMM shift_op reg reg "5 word"
  | OP_REG reg_op reg reg reg
  | MOP_RR mop_op reg reg reg
  | CSRRW_ND reg reg
  | CSRRW_BIGINT
  | CSRRW_MARKER
  | UNIMP

section \<open>Formats\<close>

definition r_type :: "7 word \<Rightarrow> reg \<Rightarrow> reg \<Rightarrow> 3 word \<Rightarrow> reg \<Rightarrow> 7 word \<Rightarrow> u32" where
  "r_type f7 rs2' rs1' f3 rd' op =
     push_bit 25 (ucast f7) OR push_bit 20 (ucast rs2') OR push_bit 15 (ucast rs1')
     OR push_bit 12 (ucast f3) OR push_bit 7 (ucast rd') OR ucast op"

definition i_type :: "12 word \<Rightarrow> reg \<Rightarrow> 3 word \<Rightarrow> reg \<Rightarrow> 7 word \<Rightarrow> u32" where
  "i_type i rs1' f3 rd' op =
     push_bit 20 (ucast i) OR push_bit 15 (ucast rs1')
     OR push_bit 12 (ucast f3) OR push_bit 7 (ucast rd') OR ucast op"

definition s_type :: "12 word \<Rightarrow> reg \<Rightarrow> reg \<Rightarrow> 3 word \<Rightarrow> 7 word \<Rightarrow> u32" where
  "s_type i rs2' rs1' f3 op =
     r_type (ucast (drop_bit 5 i)) rs2' rs1' f3 (ucast i) op"

text \<open>Bits 12 and 10 to 5 of the offset above, bits 4 to 1 and 11 below.\<close>

definition b_type :: "12 word \<Rightarrow> reg \<Rightarrow> reg \<Rightarrow> 3 word \<Rightarrow> 7 word \<Rightarrow> u32" where
  "b_type i rs2' rs1' f3 op =
     push_bit 31 (ucast (drop_bit 11 i)) OR push_bit 25 (take_bit 6 (ucast (drop_bit 4 i)))
     OR push_bit 20 (ucast rs2') OR push_bit 15 (ucast rs1') OR push_bit 12 (ucast f3)
     OR push_bit 8 (take_bit 4 (ucast i)) OR push_bit 7 (ucast (take_bit 1 (drop_bit 10 i)))
     OR ucast op"

definition u_type :: "20 word \<Rightarrow> reg \<Rightarrow> 7 word \<Rightarrow> u32" where
  "u_type i rd' op = push_bit 12 (ucast i) OR push_bit 7 (ucast rd') OR ucast op"

text \<open>Bit 20 of the offset, bits 10 to 1, bit 11, bits 19 to 12.\<close>

definition j_type :: "20 word \<Rightarrow> reg \<Rightarrow> 7 word \<Rightarrow> u32" where
  "j_type i rd' op =
     push_bit 31 (ucast (drop_bit 19 i)) OR push_bit 21 (take_bit 10 (ucast i))
     OR push_bit 20 (ucast (take_bit 1 (drop_bit 10 i)))
     OR push_bit 12 (take_bit 8 (ucast (drop_bit 11 i)))
     OR push_bit 7 (ucast rd') OR ucast op"

section \<open>Reading the formats back\<close>

lemma masks:
  "(7 :: u32) = mask 3" "(31 :: u32) = mask 5" "(127 :: u32) = mask 7"
  by (simp_all add: mask_eq_exp_minus_1)

lemma field_mask: "push_bit n (push_bit m 1 - 1) = push_bit n (mask m :: u32)"
  by (simp add: mask_eq_exp_minus_1 push_bit_eq_mult)

lemmas format_defs = r_type_def i_type_def s_type_def b_type_def u_type_def j_type_def
lemmas field_defs = funct3_bits_def funct7_bits_def get_opcode_bits_def get_rd_bits_def
  get_formal_rs1_bits_def get_formal_rs2_bits_def masks
lemma bit_align_right:
  "from_bit + num_bits \<le> 32 \<Longrightarrow>
     bit (get_bits_and_align_right src from_bit num_bits) n \<longleftrightarrow>
       n < num_bits \<and> bit src (from_bit + n)"
  unfolding get_bits_and_align_right_def Let_def field_mask
  by (auto simp add: bit_simps dest: bit_imp_le_length)

lemma bit_shift_right:
  "from_bit + num_bits \<le> 32 \<Longrightarrow>
     bit (get_bits_and_shift_right src from_bit num_bits shift) n \<longleftrightarrow>
       from_bit \<le> shift + n \<and> shift + n < from_bit + num_bits \<and> bit src (shift + n)"
  unfolding get_bits_and_shift_right_def Let_def field_mask
  by (auto simp add: bit_simps dest: bit_imp_le_length)

lemma bit_shift_left:
  "from_bit + num_bits \<le> 32 \<Longrightarrow>
     bit (get_bits_and_shift_left src from_bit num_bits shift) n \<longleftrightarrow>
       n < 32 \<and> shift \<le> n \<and> from_bit \<le> n - shift \<and> n - shift < from_bit + num_bits
       \<and> bit src (n - shift)"
  unfolding get_bits_and_shift_left_def Let_def field_mask
  by (auto simp add: bit_simps dest: bit_imp_le_length)

lemmas imm_defs = UTypeOpcode_imm_def JTypeOpcode_imm_def BTypeOpcode_imm_def
  ITypeOpcode_imm_def STypeOpcode_imm_def
lemmas imm_bits = imm_defs bit_align_right bit_shift_right bit_shift_left

lemma opcode_of_format:
  "get_opcode_bits (r_type f7 b a f3 d op) = ucast op"
  "get_opcode_bits (i_type i a f3 d op) = ucast op"
  "get_opcode_bits (s_type i b a f3 op) = ucast op"
  "get_opcode_bits (b_type i b a f3 op) = ucast op"
  "get_opcode_bits (u_type j d op) = ucast op"
  "get_opcode_bits (j_type j d op) = ucast op"
  by (rule bit_word_eqI; auto simp: format_defs field_defs bit_simps dest: bit_imp_le_length)+

lemma rd_of_format:
  "get_rd_bits (r_type f7 b a f3 d op) = ucast d"
  "get_rd_bits (i_type i a f3 d op) = ucast d"
  "get_rd_bits (u_type j d op) = ucast d"
  "get_rd_bits (j_type j d op) = ucast d"
  by (rule bit_word_eqI; auto simp: format_defs field_defs bit_simps dest: bit_imp_le_length)+

lemma rs1_of_format:
  "get_formal_rs1_bits (r_type f7 b a f3 d op) = ucast a"
  "get_formal_rs1_bits (i_type i a f3 d op) = ucast a"
  "get_formal_rs1_bits (s_type i b a f3 op) = ucast a"
  "get_formal_rs1_bits (b_type i b a f3 op) = ucast a"
  by (rule bit_word_eqI; auto simp: format_defs field_defs bit_simps dest: bit_imp_le_length)+

lemma rs2_of_format:
  "get_formal_rs2_bits (r_type f7 b a f3 d op) = ucast b"
  "get_formal_rs2_bits (s_type i b a f3 op) = ucast b"
  "get_formal_rs2_bits (b_type i b a f3 op) = ucast b"
  by (rule bit_word_eqI; auto simp: format_defs field_defs bit_simps dest: bit_imp_le_length)+

lemma funct3_of_format:
  "funct3_bits (r_type f7 b a f3 d op) = ucast f3"
  "funct3_bits (i_type i a f3 d op) = ucast f3"
  "funct3_bits (s_type i b a f3 op) = ucast f3"
  "funct3_bits (b_type i b a f3 op) = ucast f3"
  by (rule bit_word_eqI; auto simp: format_defs field_defs bit_simps dest: bit_imp_le_length)+

lemma funct7_of_format:
  "funct7_bits (r_type f7 b a f3 d op) = ucast f7"
  "funct7_bits (i_type i a f3 d op) = ucast (drop_bit 5 i)"
  by (rule bit_word_eqI; auto simp: format_defs field_defs bit_simps dest: bit_imp_le_length)+

section \<open>Immediates\<close>

text \<open>The branch-free reading of \<open>sign_extend\<close>: the low bits read as a signed number.\<close>

lemma sign_extend_eq:
  assumes "take_bit (Suc n) x = x"
  shows "sign_extend x (Suc n) = signed_take_bit n x"
proof -
  have above: "bit x m \<longleftrightarrow> m \<le> n \<and> bit x m" for m
    using arg_cong [OF assms, of "\<lambda>y. bit y m"] by (simp add: bit_simps less_Suc_eq_le)
  have 1: "x AND push_bit n 1 \<noteq> 0 \<longleftrightarrow> bit x n"
    by (simp add: and_exp_eq_0_iff_not_bit push_bit_eq_mult)
  have 2: "NOT (push_bit (Suc n) 1 - 1) = (NOT (mask (Suc n)) :: u32)"
    by (simp add: mask_eq_exp_minus_1 push_bit_eq_mult)
  have "bit (sign_extend x (Suc n)) m = bit (signed_take_bit n x) m" if "m < 32" for m
    unfolding sign_extend_def diff_Suc_1 2 1
    using that above [of m] by (auto simp: u32_bits bit_mask_iff min_def not_less not_less_eq_eq le_antisym)
  then show ?thesis by (intro bit_word_eqI) simp
qed

lemma I_imm_of_format:
  "ITypeOpcode_imm (i_type i a f3 d op) = ucast i"
  by (rule u32_eqI; simp add: imm_bits format_defs u32_bits)

lemma S_imm_of_format:
  "STypeOpcode_imm (s_type i b a f3 op) = ucast i"
  by (rule u32_eqI; simp add: imm_bits format_defs u32_bits)

lemma U_imm_of_format:
  "UTypeOpcode_imm (u_type j d op) = push_bit 12 (ucast j)"
  by (rule u32_eqI; simp add: imm_bits format_defs u32_bits)

lemma B_imm_of_format:
  "BTypeOpcode_imm (b_type i b a f3 op) = 2 * ucast i"
  by (rule u32_eqI; simp add: imm_bits format_defs u32_bits bit_iff_odd_drop_bit [of i 10])

lemma J_imm_of_format:
  "JTypeOpcode_imm (j_type j d op) = 2 * ucast j"
  by (rule u32_eqI; simp add: imm_bits format_defs u32_bits bit_iff_odd_drop_bit [of j 10])

lemma sign_extend_imm12: "sign_extend (ucast (i :: 12 word)) 12 = scast i"
proof -
  have "sign_extend (ucast i) (Suc 11) = signed_take_bit 11 (ucast i)"
    by (rule sign_extend_eq) (rule u32_eqI; simp add: u32_bits)
  also have "\<dots> = scast i"
    by (rule u32_eqI; simp add: u32_bits)
  finally show ?thesis by simp
qed

lemma sign_extend_branch_offset:
  "sign_extend (2 * ucast (i :: 12 word)) 13 = 2 * scast i"
proof -
  have "sign_extend (2 * ucast i) (Suc 12) = signed_take_bit 12 (2 * ucast i)"
    by (rule sign_extend_eq) (rule u32_eqI; simp add: u32_bits)
  also have "\<dots> = 2 * scast i"
    by (rule u32_eqI; simp add: u32_bits)
  finally show ?thesis by simp
qed

lemma sign_extend_jump_offset:
  "sign_extend (2 * ucast (j :: 20 word)) 21 = 2 * scast j"
proof -
  have "sign_extend (2 * ucast j) (Suc 20) = signed_take_bit 20 (2 * ucast j)"
    by (rule sign_extend_eq) (rule u32_eqI; simp add: u32_bits)
  also have "\<dots> = 2 * scast j"
    by (rule u32_eqI; simp add: u32_bits)
  finally show ?thesis by simp
qed

section \<open>Encoding\<close>

fun branch_funct3 :: "branch_cond \<Rightarrow> 3 word" where
  "branch_funct3 BEQ = 0" | "branch_funct3 BNE = 1" | "branch_funct3 BLT = 4"
| "branch_funct3 BGE = 5" | "branch_funct3 BLTU = 6" | "branch_funct3 BGEU = 7"

fun load_funct3 :: "load_op \<Rightarrow> 3 word" where
  "load_funct3 LB = 0" | "load_funct3 LH = 1" | "load_funct3 LW = 2"
| "load_funct3 LBU = 4" | "load_funct3 LHU = 5"

fun store_funct3 :: "store_op \<Rightarrow> 3 word" where
  "store_funct3 SB = 0" | "store_funct3 SH = 1" | "store_funct3 SW = 2"

fun imm_funct3 :: "imm_op \<Rightarrow> 3 word" where
  "imm_funct3 ADDI = 0" | "imm_funct3 SLTI = 2" | "imm_funct3 SLTIU = 3"
| "imm_funct3 XORI = 4" | "imm_funct3 ORI = 6" | "imm_funct3 ANDI = 7"

fun shift_functs :: "shift_op \<Rightarrow> 7 word \<times> 3 word" where
  "shift_functs SLLI = (0, 1)" | "shift_functs SRLI = (0, 5)" | "shift_functs SRAI = (0x20, 5)"

fun reg_functs :: "reg_op \<Rightarrow> 7 word \<times> 3 word" where
  "reg_functs R_ADD = (0, 0)" | "reg_functs R_SUB = (0x20, 0)" | "reg_functs R_SLL = (0, 1)"
| "reg_functs R_SLT = (0, 2)" | "reg_functs R_SLTU = (0, 3)" | "reg_functs R_XOR = (0, 4)"
| "reg_functs R_SRL = (0, 5)" | "reg_functs R_SRA = (0x20, 5)" | "reg_functs R_OR = (0, 6)"
| "reg_functs R_AND = (0, 7)"
| "reg_functs R_MUL = (1, 0)" | "reg_functs R_MULH = (1, 1)" | "reg_functs R_MULHSU = (1, 2)"
| "reg_functs R_MULHU = (1, 3)" | "reg_functs R_DIV = (1, 4)" | "reg_functs R_DIVU = (1, 5)"
| "reg_functs R_REM = (1, 6)" | "reg_functs R_REMU = (1, 7)"

text \<open>The two-operand may-be-operations \<open>mop.rr.0\<close>, \<open>mop.rr.1\<close> and \<open>mop.rr.2\<close>.\<close>

fun mop_funct7 :: "mop_op \<Rightarrow> 7 word" where
  "mop_funct7 MOP_ADD = 0b1000001" | "mop_funct7 MOP_SUB = 0b1000011"
| "mop_funct7 MOP_MUL = 0b1000101"

definition csrrw :: "12 word \<Rightarrow> reg \<Rightarrow> reg \<Rightarrow> u32" where
  "csrrw csr d s = i_type csr s 1 d 0b1110011"

fun encode :: "rv_instr \<Rightarrow> u32" where
  "encode (LUI d j) = u_type j d 0b0110111"
| "encode (AUIPC d j) = u_type j d 0b0010111"
| "encode (JAL d j) = j_type j d 0b1101111"
| "encode (JALR d s i) = i_type i s 0 d 0b1100111"
| "encode (BRANCH bc s t i) = b_type i t s (branch_funct3 bc) 0b1100011"
| "encode (LOAD op d s i) = i_type i s (load_funct3 op) d 0b0000011"
| "encode (STORE op s t i) = s_type i t s (store_funct3 op) 0b0100011"
| "encode (OP_IMM op d s i) = i_type i s (imm_funct3 op) d 0b0010011"
| "encode (SHIFT_IMM op d s sh) = r_type (fst (shift_functs op)) sh s (snd (shift_functs op)) d 0b0010011"
| "encode (OP_REG op d s t) = r_type (fst (reg_functs op)) t s (snd (reg_functs op)) d 0b0110011"
| "encode (MOP_RR op d s t) = r_type (mop_funct7 op) t s 4 d 0b1110011"
| "encode (CSRRW_ND d s) = csrrw 0x7c0 d s"
| "encode CSRRW_BIGINT = csrrw 0x7ca 0 0"
| "encode CSRRW_MARKER = csrrw 0x7ff 0 0"
| "encode UNIMP = csrrw 0xc00 0 0"

section \<open>The decoded instruction of each\<close>

fun load_name :: "load_op \<Rightarrow> instruction_name" where
  "load_name LB = Lb" | "load_name LH = Lh" | "load_name LW = Lw"
| "load_name LBU = Lbu" | "load_name LHU = Lhu"

fun store_name :: "store_op \<Rightarrow> instruction_name" where
  "store_name SB = Sb" | "store_name SH = Sh" | "store_name SW = Sw"

fun imm_name :: "imm_op \<Rightarrow> instruction_name" where
  "imm_name ADDI = Addi" | "imm_name SLTI = Slti" | "imm_name SLTIU = Sltiu"
| "imm_name XORI = Xori" | "imm_name ORI = Ori" | "imm_name ANDI = Andi"

fun shift_name :: "shift_op \<Rightarrow> instruction_name" where
  "shift_name SLLI = Slli" | "shift_name SRLI = Srli" | "shift_name SRAI = Srai"

fun reg_name :: "reg_op \<Rightarrow> instruction_name" where
  "reg_name R_ADD = Add" | "reg_name R_SUB = Sub" | "reg_name R_SLL = Sll"
| "reg_name R_SLT = Slt" | "reg_name R_SLTU = Sltu" | "reg_name R_XOR = Xor"
| "reg_name R_SRL = Srl" | "reg_name R_SRA = Sra" | "reg_name R_OR = Or" | "reg_name R_AND = And"
| "reg_name R_MUL = Mul" | "reg_name R_MULH = Mulh" | "reg_name R_MULHSU = Mulhsu"
| "reg_name R_MULHU = Mulhu" | "reg_name R_DIV = Div" | "reg_name R_DIVU = Divu"
| "reg_name R_REM = Rem" | "reg_name R_REMU = Remu"

fun mop_name :: "mop_op \<Rightarrow> instruction_name" where
  "mop_name MOP_ADD = ZimopAdd" | "mop_name MOP_SUB = ZimopSub" | "mop_name MOP_MUL = ZimopMul"

text \<open>Whether a configuration supports an operation; what it does not support is illegal.\<close>

fun load_supported :: "decoding_options \<Rightarrow> load_op \<Rightarrow> bool" where
  "load_supported opt LW = True"
| "load_supported opt _ = SUPPORT_SUBWORD_MEM_ACCESS opt"

fun store_supported :: "decoding_options \<Rightarrow> store_op \<Rightarrow> bool" where
  "store_supported opt SW = True"
| "store_supported opt _ = SUPPORT_SUBWORD_MEM_ACCESS opt"

definition reg_supported :: "decoding_options \<Rightarrow> reg_op \<Rightarrow> bool" where
  "reg_supported opt op =
     (if op \<in> {R_MUL, R_MULHU, R_DIVU, R_REMU} then SUPPORT_MUL_DIV opt
      else if op \<in> {R_MULH, R_MULHSU, R_DIV, R_REM}
        then SUPPORT_MUL_DIV opt \<and> SUPPORT_SIGNED_MUL_DIV opt
      else True)"

fun lower :: "decoding_options \<Rightarrow> rv_instr \<Rightarrow> instruction res" where
  "lower opt (LUI d j) = Inr (from_imm Lui 0 0 (ucast d) (push_bit 12 (ucast j)))"
| "lower opt (AUIPC d j) = Inr (from_imm Auipc 0 0 (ucast d) (push_bit 12 (ucast j)))"
| "lower opt (JAL d j) = Inr (from_imm Jal 0 0 (ucast d) (2 * scast j))"
| "lower opt (JALR d s i) = Inr (from_imm Jalr (ucast s) 0 (ucast d) (scast i))"
| "lower opt (BRANCH bc s t i) =
     Inr (from_imm Branch (ucast s) (ucast t) (ucast (branch_funct3 bc)) (2 * scast i))"
| "lower opt (LOAD op d s i) =
     Inr (when_supported (load_supported opt op)
            (from_imm (load_name op) (ucast s) 0 (ucast d) (scast i)))"
| "lower opt (STORE op s t i) =
     Inr (when_supported (store_supported opt op)
            (from_imm (store_name op) (ucast s) (ucast t) 0 (scast i)))"
| "lower opt (OP_IMM op d s i) = Inr (from_imm (imm_name op) (ucast s) 0 (ucast d) (scast i))"
| "lower opt (SHIFT_IMM op d s sh) =
     Inr (from_imm (shift_name op) (ucast s) 0 (ucast d) (ucast sh))"
| "lower opt (OP_REG op d s t) =
     Inr (when_supported (reg_supported opt op)
            (from_imm (reg_name op) (ucast s) (ucast t) (ucast d) 0))"
| "lower opt (MOP_RR op d s t) =
     Inr (when_supported (SUPPORT_MOP opt)
            (from_imm (mop_name op) (ucast s) (ucast t) (ucast d) 0))"
| "lower opt (CSRRW_ND d s) =
     (if s = 0 then Inr (from_imm ZicsrNonDeterminismRead 0 0 (ucast d) 0)
      else if d = 0 then Inr (from_imm ZicsrNonDeterminismWrite (ucast s) 0 0 0)
      else Inl AssertFailed)"
| "lower opt CSRRW_BIGINT = Inr (delegation_instr BigInt)"
| "lower opt CSRRW_MARKER = Inr (from_imm ZicsrMarkerCsr 0 0 0 0)"
| "lower opt UNIMP = Inr illegal_instr"

section \<open>The decoder inverts the encoding\<close>

lemmas of_format = opcode_of_format rd_of_format rs1_of_format rs2_of_format funct3_of_format
  funct7_of_format I_imm_of_format S_imm_of_format U_imm_of_format B_imm_of_format
  J_imm_of_format sign_extend_imm12 sign_extend_branch_offset sign_extend_jump_offset

lemma ucast_reg_eq_0 [simp]: "ucast (d :: 5 word) = (0 :: 8 word) \<longleftrightarrow> d = 0"
  by (rule ucast_eq_0_iff) simp

lemma shift_imm_as_r_type:
  "ITypeOpcode_imm (r_type f7 sh s f3 d op) AND 0x1f = ucast sh"
  by (rule u32_eqI; simp add: imm_bits format_defs u32_bits masks bit_mask_iff)

lemma sign_extend_and_31: "sign_extend x 12 AND 0x1f = x AND 0x1f"
proof -
  have "NOT (push_bit 12 1 - 1) AND 0x1f = (0 :: u32)" by simp
  then show ?thesis by (simp add: sign_extend_def bit.conj_disj_distrib2)
qed

lemmas decode_defs = decode_at_def decode_branch_def decode_op_imm_def decode_mul_ext_def
  decode_op_basic_def decode_load_def decode_store_def decode_mop_def mop_number_def
  decode_system_def csr_step_def csrrw_def Let_def

lemma decode_encode:
  "decode_at c opt (pre @ encode a # post) (length pre) = one_word (lower opt a)"
proof (cases a)
  case (BRANCH bc s t i)
  then show ?thesis by (cases bc) (simp_all add: decode_defs code_consts of_format one_word_def)
next
  case (LOAD op d s i)
  then show ?thesis
    by (cases op) (simp_all add: decode_defs code_consts of_format one_word_def when_supported_def)
next
  case (STORE op d s i)
  then show ?thesis
    by (cases op) (simp_all add: decode_defs code_consts of_format one_word_def when_supported_def)
next
  case (OP_IMM op d s i)
  then show ?thesis by (cases op) (simp_all add: decode_defs code_consts of_format one_word_def)
next
  case (SHIFT_IMM op d s sh)
  have "sign_extend (ITypeOpcode_imm (encode a)) 12 AND 0x1f = ucast sh"
    using SHIFT_IMM by (simp add: sign_extend_and_31 shift_imm_as_r_type)
  then show ?thesis using SHIFT_IMM
    by (cases op) (simp_all add: decode_defs code_consts of_format one_word_def)
next
  case (OP_REG op d s t)
  then show ?thesis
    by (cases op) (simp_all add: decode_defs code_consts of_format one_word_def
                     when_supported_def reg_supported_def)
next
  case (MOP_RR op d s t)
  then show ?thesis by (cases op) (simp_all add: decode_defs code_consts of_format one_word_def)
next
  case (CSRRW_ND d s)
  then show ?thesis by (simp add: decode_defs code_consts of_format one_word_def)
qed (simp_all add: decode_defs code_consts of_format one_word_def)

section \<open>Assembly programs and their decoded layout\<close>

text \<open>
  A program as the assembler emits it: plain instructions, and the uninterrupted runs of
  identical CSR writes by which the guest calls the Blake2s delegation (10 rounds, or 7 in
  the reduced form) and the Keccak permutation (649 calls).
\<close>

datatype asm_item = I rv_instr | BLAKE_RUN bool | KECCAK_RUN

fun asm_words :: "asm_item \<Rightarrow> u32 list" where
  "asm_words (I a) = [encode a]"
| "asm_words (BLAKE_RUN full) = replicate (if full then 10 else 7) (csrrw 0x7c7 0 0)"
| "asm_words KECCAK_RUN = replicate 649 (csrrw 0x7cb 0 0)"

definition assemble :: "asm_item list \<Rightarrow> u32 list" where
  "assemble p = concat (map asm_words p)"

text \<open>
  A run becomes one delegation instruction at its first word; the other words of the run
  are never reached and hold illegal instructions.
\<close>

fun layout_item :: "decoding_options \<Rightarrow> asm_item \<Rightarrow> instruction list res" where
  "layout_item opt (I a) = bindR (lower opt a) (\<lambda>ins. Inr [ins])"
| "layout_item opt (BLAKE_RUN full) =
     Inr (delegation_instr Blake # replicate (if full then 9 else 6) illegal_instr)"
| "layout_item opt KECCAK_RUN = Inr (delegation_instr Keccak # replicate 648 illegal_instr)"

fun layout :: "decoding_options \<Rightarrow> asm_item list \<Rightarrow> instruction list res" where
  "layout opt [] = Inr []"
| "layout opt (x # xs) =
     bindR (layout_item opt x) (\<lambda>ins. bindR (layout opt xs) (\<lambda>rest. Inr (ins @ rest)))"

text \<open>
  The decoder finds the end of a run by the first word that differs, so a run is followed by
  something, and a Blake run not by a Blake run, nor a Keccak run by a Keccak run.
\<close>

fun same_run :: "asm_item \<Rightarrow> asm_item \<Rightarrow> bool" where
  "same_run (BLAKE_RUN _) (BLAKE_RUN _) = True"
| "same_run KECCAK_RUN KECCAK_RUN = True"
| "same_run _ _ = False"

fun is_run :: "asm_item \<Rightarrow> bool" where
  "is_run (I _) = False"
| "is_run _ = True"

fun runs_separated :: "asm_item list \<Rightarrow> bool" where
  "runs_separated [] = True"
| "runs_separated [x] = (\<not> is_run x)"
| "runs_separated (x # y # ys) = (\<not> same_run x y \<and> runs_separated (y # ys))"

lemma decode_run_word:
  "decode_at c opt (pre @ csrrw 0x7c7 0 0 # post) (length pre) =
     bindR (count_calls (pre @ csrrw 0x7c7 0 0 # post) (length pre) (csrrw 0x7c7 0 0) 1 10)
       (\<lambda>n. guardR (n = 7 \<or> n = 10) AssertFailed (Inr (delegation_instr Blake, n)))"
  "decode_at c opt (pre @ csrrw 0x7cb 0 0 # post) (length pre) =
     bindR (count_calls (pre @ csrrw 0x7cb 0 0 # post) (length pre) (csrrw 0x7cb 0 0) 1 649)
       (\<lambda>n. guardR (n = 649) AssertFailed (Inr (delegation_instr Keccak, n)))"
  by (simp_all add: decode_defs code_consts of_format bindR_def guardR_def split: sum.split)

lemma lower_error: "lower opt a \<noteq> Inl IndexOutOfBounds"
  by (cases "(opt, a)" rule: lower.cases) auto

lemma encode_not_run: "encode a \<noteq> csrrw 0x7c7 0 0" "encode a \<noteq> csrrw 0x7cb 0 0"
proof -
  have alone: "decode_at c opt [w] 0 = Inl IndexOutOfBounds"
    if "w = csrrw 0x7c7 0 0 \<or> w = csrrw 0x7cb 0 0" for c opt w
    using that decode_run_word [of c opt "[]" "[]"] by (auto simp: count_calls.simps)
  have "decode_at c opt [encode a] 0 \<noteq> Inl IndexOutOfBounds" for c opt
    using decode_encode [of c opt "[]" a "[]"] lower_error [of opt a]
    by (cases "lower opt a") (auto simp: one_word_def)
  then show "encode a \<noteq> csrrw 0x7c7 0 0" "encode a \<noteq> csrrw 0x7cb 0 0"
    using alone by metis+
qed

lemma run_words_differ: "csrrw 0x7c7 0 0 \<noteq> csrrw 0x7cb 0 0"
proof -
  have "ITypeOpcode_imm (csrrw 0x7c7 0 0) \<noteq> ITypeOpcode_imm (csrrw 0x7cb 0 0)"
    by (simp add: csrrw_def I_imm_of_format)
  then show ?thesis by metis
qed

lemma count_calls_run:
  assumes "x \<noteq> w" and "n \<le> m" and "j \<le> n" and "0 < j"
  shows "count_calls (pre @ replicate n w @ x # post) (length pre) w j m = Inr n"
  using \<open>j \<le> n\<close> \<open>0 < j\<close>
proof (induction "n - j" arbitrary: j)
  case 0
  then show ?case using assms by (subst count_calls.simps) (simp add: nth_append)
next
  case (Suc k)
  then show ?case using assms by (subst count_calls.simps) (simp add: nth_append)
qed

lemma assemble_simps [simp]:
  "assemble [] = []" "assemble (x # xs) = asm_words x @ assemble xs"
  by (simp_all add: assemble_def)

text \<open>The word that ends a run.\<close>

lemma after_run:
  assumes "runs_separated (x # xs)" and "is_run x"
  obtains y ys v vs where "xs = y # ys" "assemble xs = v # vs" "v \<noteq> hd (asm_words x)"
    "runs_separated xs"
proof -
  from assms obtain y ys where xs: "xs = y # ys" by (cases xs) auto
  show thesis
    using assms xs that encode_not_run run_words_differ
    by (cases x; cases y) (fastforce simp: replicate_Suc numeral_eq_Suc)+
qed

lemma decode_item:
  assumes "runs_separated (x # xs)"
  shows "decode_at c opt (pre @ assemble (x # xs)) (length pre) =
    bindR (layout_item opt x) (\<lambda>ins. Inr (hd ins, length ins))"
proof (cases x)
  case (I a)
  then show ?thesis
    using decode_encode [of c opt pre a "assemble xs"] by (simp add: one_word_def bindR_def split: sum.split)
next
  case (BLAKE_RUN full)
  from assms obtain v vs where v: "assemble xs = v # vs" "v \<noteq> csrrw 0x7c7 0 0"
    by (rule after_run) (auto simp: BLAKE_RUN)
  define n where "n = (if full then 10 else 7 :: nat)"
  have w: "assemble (x # xs) = csrrw 0x7c7 0 0 # replicate (n - 1) (csrrw 0x7c7 0 0) @ v # vs"
    using v BLAKE_RUN by (simp add: n_def numeral_eq_Suc)
  have "count_calls (pre @ assemble (x # xs)) (length pre) (csrrw 0x7c7 0 0) 1 10 = Inr n"
    using count_calls_run [OF v(2), of n 10 1 pre vs] v BLAKE_RUN by (auto simp: n_def)
  then show ?thesis
    using BLAKE_RUN unfolding w by (auto simp: decode_run_word n_def)
next
  case KECCAK_RUN
  from assms obtain v vs where v: "assemble xs = v # vs" "v \<noteq> csrrw 0x7cb 0 0"
    by (rule after_run) (auto simp: KECCAK_RUN)
  have w: "assemble (x # xs) = csrrw 0x7cb 0 0 # replicate 648 (csrrw 0x7cb 0 0) @ v # vs"
    using v KECCAK_RUN by (simp flip: replicate_Suc add: append_Cons [symmetric] del: append_Cons)
  have "count_calls (pre @ assemble (x # xs)) (length pre) (csrrw 0x7cb 0 0) 1 649 = Inr 649"
    using count_calls_run [OF v(2), of 649 649 1 pre vs] v KECCAK_RUN by simp
  then show ?thesis
    using KECCAK_RUN unfolding w by (simp add: decode_run_word)
qed

lemma layout_item_shape:
  assumes "layout_item opt x = Inr ins"
  shows "ins = hd ins # replicate (length ins - 1) illegal_instr" "length ins = length (asm_words x)"
  using assms by (cases x; auto simp: res_simps split: if_splits)+

lemma preprocess_layout:
  assumes "runs_separated p" and "length ready = length pre"
  shows "preprocess_loop c opt (pre @ assemble p) (length pre)
           (ready @ replicate (length (assemble p)) illegal_instr) =
         bindR (layout opt p) (\<lambda>rest. Inr (ready @ rest))"
  using assms
proof (induction p arbitrary: pre ready)
  case Nil
  then show ?case by (subst preprocess_loop.simps) simp
next
  case (Cons x xs)
  have ne: "asm_words x \<noteq> []" by (cases x) auto
  have dec: "decode_at c opt (pre @ assemble (x # xs)) (length pre) =
      bindR (layout_item opt x) (\<lambda>ins. Inr (hd ins, length ins))"
    using decode_item [OF Cons.prems(1)] .
  show ?case
  proof (cases "layout_item opt x")
    case (Inl e)
    then show ?thesis using ne dec by (subst preprocess_loop.simps) simp
  next
    case (Inr ins)
    note shape = layout_item_shape [OF Inr]
    have sep: "runs_separated xs" using Cons.prems(1) by (cases xs) auto
    have upd: "(ready @ replicate (length (assemble (x # xs))) illegal_instr)[length pre := hd ins]
        = (ready @ ins) @ replicate (length (assemble xs)) illegal_instr"
    proof -
      have "replicate (length (assemble (x # xs))) illegal_instr =
          illegal_instr # replicate (length ins - 1) illegal_instr
            @ replicate (length (assemble xs)) illegal_instr"
        using shape(2) ne by (simp add: replicate_add flip: replicate_Suc)
      then show ?thesis
        using Cons.prems(2) shape(1) by (simp add: list_update_append del: assemble_simps)
    qed
    have "preprocess_loop c opt (pre @ assemble (x # xs)) (length pre)
           (ready @ replicate (length (assemble (x # xs))) illegal_instr) =
        preprocess_loop c opt ((pre @ asm_words x) @ assemble xs) (length (pre @ asm_words x))
           ((ready @ ins) @ replicate (length (assemble xs)) illegal_instr)"
      using ne dec Inr shape(2) upd by (subst preprocess_loop.simps) simp
    also have "\<dots> = bindR (layout opt xs) (\<lambda>rest. Inr ((ready @ ins) @ rest))"
      using sep Cons.prems(2) shape(2) by (intro Cons.IH) simp_all
    finally show ?thesis using Inr by (simp add: bindR_assoc)
  qed
qed

end
