(* ===== verification/Decode_Props.thy ===== *)
theory Decode_Props
  imports Encoding
begin

text \<open>
  What the decoder guarantees of any bytecode it accepts, well-formed or not: every decoded
  instruction has register indices of the register file, an immediate of its format, and a
  name the decoder configuration supports. Then the properties of the decoder.
\<close>

section \<open>Well-formed decoded instructions\<close>

text \<open>The names a configuration lets through.\<close>

fun name_supported :: "decoding_options \<Rightarrow> instruction_name \<Rightarrow> bool" where
  "name_supported opt n =
     (if n \<in> {Mul, Mulhu, Divu, Remu} then SUPPORT_MUL_DIV opt
      else if n \<in> {Mulh, Mulhsu, Div, Rem} then SUPPORT_MUL_DIV opt \<and> SUPPORT_SIGNED_MUL_DIV opt
      else if n \<in> {ZimopAdd, ZimopSub, ZimopMul} then SUPPORT_MOP opt
      else if n \<in> {Lb, Lbu, Lh, Lhu, Sb, Sh} then SUPPORT_SUBWORD_MEM_ACCESS opt
      else n \<notin> {Rol, Ror, FormalEnd})"

declare name_supported.simps [simp del]

definition instr_ok :: "decoding_options \<Rightarrow> instruction \<Rightarrow> bool" where
  "instr_ok opt ins \<longleftrightarrow>
     unat (rs1 ins) < 32 \<and> unat (rs2 ins) < 32 \<and> unat (rd ins) < 32 \<and>
     name_supported opt (name ins) \<and>
     (name ins = Branch \<longrightarrow> rd ins \<in> {0, 1, 4, 5, 6, 7}) \<and>
     (name ins \<in> {Slli, Srli, Srai} \<longrightarrow> unat (imm ins) < 32) \<and>
     (name ins = ZicsrDelegation \<longrightarrow> imm ins \<in> {0, 1, 2}) \<and>
     (name ins = ZicsrNonDeterminismWrite \<longrightarrow> rd ins = 0)"

lemma unat_and_31: "unat (ucast (x AND 31 :: u32) :: u8) < 32" "unat (x AND 31 :: u32) < 32"
proof -
  have "unat (take_bit 5 x) < 32" by (simp add: unsigned_take_bit_eq del: take_bit_of_nat)
      (simp add: take_bit_eq_mod)
  then show "unat (x AND 31 :: u32) < 32" by (simp add: take_bit_eq_mask masks del: take_bit_word_numeral)
  moreover have "unat (ucast y :: u8) \<le> unat y" for y :: u32
    by (simp add: unsigned_ucast_eq take_bit_eq_mod)
  ultimately show "unat (ucast (x AND 31 :: u32) :: u8) < 32"
    by (meson le_less_trans)
qed

lemma register_bits_bound:
  "unat (get_rd_bits w) < 32" "unat (get_formal_rs1_bits w) < 32" "unat (get_formal_rs2_bits w) < 32"
  by (simp_all add: get_rd_bits_def get_formal_rs1_bits_def get_formal_rs2_bits_def unat_and_31)

lemma funct3_bits_bound: "unat (funct3_bits w) < 32"
proof -
  have "(drop_bit 12 w AND 0b111) = (drop_bit 12 w AND 0b111) AND 31"
    by (simp add: and.assoc)
  then show ?thesis unfolding funct3_bits_def by (metis unat_and_31(1))
qed

lemma illegal_ok [simp]: "instr_ok opt illegal_instr"
  by (simp add: instr_ok_def illegal_instr_def from_imm_def name_supported.simps)

text \<open>The results of the opcode classes: every instruction returned is well-formed.\<close>

definition result_ok :: "decoding_options \<Rightarrow> instruction res \<Rightarrow> bool" where
  "result_ok opt m \<longleftrightarrow> (\<forall>ins. m = Inr ins \<longrightarrow> instr_ok opt ins)"

lemma result_ok_if: "(b \<Longrightarrow> result_ok opt x) \<Longrightarrow> result_ok opt y \<Longrightarrow> result_ok opt (if b then x else y)"
  by simp

lemma result_ok_Inl: "result_ok opt (Inl e)"
  by (simp add: result_ok_def)

lemma result_ok_panic: "result_ok opt (panic_or_illegal c)"
  by (simp add: result_ok_def panic_or_illegal_def)

lemma result_ok_instr:
  assumes "unat a < 32" "unat b < 32" "unat d < 32" "name_supported opt n"
    and "n = Branch \<Longrightarrow> d \<in> {0, 1, 4, 5, 6, 7}"
    and "n \<in> {Slli, Srli, Srai} \<Longrightarrow> unat i < 32" and "n = ZicsrDelegation \<Longrightarrow> i \<in> {0, 1, 2}"
    and "n = ZicsrNonDeterminismWrite \<Longrightarrow> d = 0"
  shows "result_ok opt (Inr (from_imm n a b d i))"
  using assms by (simp add: result_ok_def instr_ok_def from_imm_def)

lemma result_ok_supported:
  assumes "s \<Longrightarrow> name_supported opt n" and "unat a < 32" "unat b < 32" "unat d < 32"
    and "n \<notin> {Branch, Slli, Srli, Srai, ZicsrDelegation, ZicsrNonDeterminismWrite}"
  shows "result_ok opt (Inr (when_supported s (from_imm n a b d i)))"
  using assms by (auto simp add: result_ok_def instr_ok_def from_imm_def when_supported_def illegal_instr_def
      name_supported.simps)

lemmas result_ok_rules = result_ok_panic result_ok_Inl result_ok_instr result_ok_supported result_ok_if

lemma opcode_classes_ok:
  "result_ok opt (decode_branch c w)" "result_ok opt (decode_op_imm c w)"
  "result_ok opt (decode_mul_ext opt w)" "result_ok opt (decode_op_basic c w)"
  "result_ok opt (decode_load c opt w)" "result_ok opt (decode_store c opt w)"
  "result_ok opt (decode_mop c opt w)"
  unfolding decode_branch_def decode_op_imm_def decode_mul_ext_def decode_op_basic_def
    decode_load_def decode_store_def decode_mop_def Let_def
  by (intro result_ok_rules;
      simp add: register_bits_bound funct3_bits_bound unat_and_31 name_supported.simps)+

lemma csr_step_ok:
  "csr_step c bytecode i w = Inr (Inl ins) \<Longrightarrow> instr_ok opt ins"
  "csr_step c bytecode i w = Inr (Inr (ins, n)) \<Longrightarrow> instr_ok opt ins"
proof -
  have ok: "instr_ok opt (delegation_instr d)" for d
    by (cases d) (simp_all add: delegation_instr_def instr_ok_def from_imm_def name_supported.simps)
  have names: "instr_ok opt (from_imm n a 0 d 0)"
    if "unat a < 32" "unat d < 32"
      "n \<in> {ZicsrNonDeterminismRead, ZicsrNonDeterminismWrite, ZicsrMarkerCsr}"
      "n = ZicsrNonDeterminismWrite \<longrightarrow> d = 0" for n a d
    using that by (auto simp: instr_ok_def from_imm_def name_supported.simps)
  show "csr_step c bytecode i w = Inr (Inl ins) \<Longrightarrow> instr_ok opt ins"
    by (auto simp: csr_step_def Let_def res_simps ok names register_bits_bound panic_or_illegal_def
             split: if_splits)
  show "csr_step c bytecode i w = Inr (Inr (ins, n)) \<Longrightarrow> instr_ok opt ins"
    by (auto simp: csr_step_def Let_def res_simps ok split: if_splits)
qed

lemma one_word_ok: "result_ok opt m \<Longrightarrow> one_word m = Inr (ins, n) \<Longrightarrow> instr_ok opt ins"
  by (auto simp: res_simps result_ok_def)

lemma decode_system_ok:
  assumes "decode_system c opt bytecode i w = Inr (ins, n)"
  shows "instr_ok opt ins"
  using assms
proof (cases rule: decode_system_cases)
  case mop
  then show ?thesis using opcode_classes_ok(7) by (auto simp: result_ok_def)
next
  case unknown
  then show ?thesis using result_ok_panic by (auto simp: result_ok_def)
qed (auto intro: csr_step_ok)

lemma from_imm_ok:
  "unat a < 32 \<Longrightarrow> unat d < 32 \<Longrightarrow> n \<in> {Lui, Auipc, Jal, Jalr} \<Longrightarrow> instr_ok opt (from_imm n a 0 d i)"
  by (auto simp: instr_ok_def from_imm_def name_supported.simps)

lemma decode_at_ok:
  assumes "decode_at c opt bytecode i = Inr (ins, n)"
  shows "instr_ok opt ins"
  using assms
  by (auto simp: decode_at_def Let_def from_imm_ok register_bits_bound
           intro: one_word_ok [OF opcode_classes_ok(1)] one_word_ok [OF opcode_classes_ok(2)]
             one_word_ok [OF opcode_classes_ok(3)] one_word_ok [OF opcode_classes_ok(4)]
             one_word_ok [OF opcode_classes_ok(5)] one_word_ok [OF opcode_classes_ok(6)]
             decode_system_ok split: if_splits)

lemma preprocess_loop_ok:
  assumes "preprocess_loop c opt bytecode i instructions = Inr result"
    and "\<forall>ins \<in> set instructions. instr_ok opt ins"
  shows "length result = length instructions \<and> (\<forall>ins \<in> set result. instr_ok opt ins)"
  using assms
proof (induction c opt bytecode i instructions arbitrary: result rule: preprocess_loop.induct)
  case (1 c opt bytecode i instructions)
  show ?case
  proof (cases "i < length bytecode")
    case True
    with "1.prems"(1) obtain r where r: "decode_at c opt bytecode i = Inr r"
      and loop: "preprocess_loop c opt bytecode (i + snd r) (instructions[i := fst r]) = Inr result"
      by (subst (asm) preprocess_loop.simps) (auto simp: res_simps)
    have "instr_ok opt (fst r)" using r by (cases r) (auto dest: decode_at_ok)
    then have "\<forall>ins \<in> set (instructions[i := fst r]). instr_ok opt ins"
      using "1.prems"(2) set_update_subset_insert by fastforce
    from "1.IH" [OF True r loop this] show ?thesis by simp
  next
    case False
    with "1.prems" show ?thesis by (subst (asm) preprocess_loop.simps) auto
  qed
qed

section \<open>Properties\<close>

text \<open>
  C7. The decoder inverts the assembler on whole programs: the bytecode of an assembled
  program decodes, word for word, to the program's layout, where every instruction of the
  ISA becomes its decoded form (immediates sign-extended, unsupported ones illegal) and a run
  of Blake2s or Keccak calls becomes one delegation followed by never-executed fillers.
\<close>

theorem preprocess_assembled:
  assumes "runs_separated p"
  shows "preprocess_bytecode c opt (assemble p) = layout opt p"
  using preprocess_layout [OF assms, of "[]" "[]" c opt]
  by (cases "layout opt p") (simp_all add: preprocess_bytecode_def)

theorem preprocess_assembled_witness:
  "preprocess_bytecode \<lparr> debug_assertions = True, fuzzing_support = False, rom_bits = 6 \<rparr>
     ReducedMachineDecoderConfig
     (assemble [I (JAL 1 0xfffff), BLAKE_RUN False, I (OP_REG R_MUL 3 4 5)]) =
   Inr ([from_imm Jal 0 0 1 (- 2), delegation_instr Blake] @ replicate 6 illegal_instr
        @ [illegal_instr])"
proof -
  let ?p = "[I (JAL 1 0xfffff), BLAKE_RUN False, I (OP_REG R_MUL 3 4 5)]"
  have "preprocess_bytecode \<lparr> debug_assertions = True, fuzzing_support = False, rom_bits = 6 \<rparr>
     ReducedMachineDecoderConfig (assemble ?p) =
      layout ReducedMachineDecoderConfig ?p"
    by (rule preprocess_assembled) simp
  also have "\<dots> = Inr ([from_imm Jal 0 0 1 (- 2), delegation_instr Blake]
      @ replicate 6 illegal_instr @ [illegal_instr])"
    by (simp add: when_supported_def reg_supported_def ReducedMachineDecoderConfig_def)
  finally show ?thesis .
qed

text \<open>
  C35. Any bytecode the decoder accepts, whatever it contains, gives one instruction per word,
  each of them well-formed: register indices below 32, shift amounts below 32, a branch
  condition among the six, a known delegation, no destination in a write to the non-determinism
  source, and only names that the decoder configuration supports.
\<close>

theorem preprocess_well_formed:
  assumes "preprocess_bytecode c opt bytecode = Inr instructions"
  shows "length instructions = length bytecode \<and> (\<forall>ins \<in> set instructions. instr_ok opt ins)"
  using preprocess_loop_ok [OF assms [unfolded preprocess_bytecode_def]] by simp

theorem preprocess_well_formed_witness:
  "instr_ok FullMachineDecoderConfig (from_imm Addi 2 0 1 5)"
proof -
  have "preprocess_bytecode \<lparr> debug_assertions = True, fuzzing_support = False, rom_bits = 6 \<rparr>
          FullMachineDecoderConfig [0x00510093] = Inr [from_imm Addi 2 0 1 5]"
    by code_simp
  from preprocess_well_formed [OF this] show ?thesis by simp
qed

text \<open>
  C40. The Zimop numbering drops the weight of the top bit: the may-be-operation
  \<open>mop.rr.4\<close> is not rejected but decoded as \<open>mop.rr.1\<close>, the modular subtraction.
\<close>

theorem mop_rr_4_decodes_as_sub:
  "decode_at c ReducedMachineDecoderConfig [r_type 0b1100001 t s 4 d 0b1110011] 0 =
   decode_at c ReducedMachineDecoderConfig [encode (MOP_RR MOP_SUB d s t)] 0"
  by (simp add: decode_defs code_consts of_format one_word_def)

end
