(* ===== verification/Machine.thy ===== *)
theory Machine
  imports Decode
begin

text \<open>
  The machine state of \<open>riscv_transpiler/src/vm/mod.rs\<close>, the register accesses of
  \<open>vm/instructions/mod.rs\<close>, and the \<open>Counters\<close> trait with its three implementations
  (\<open>vm/replay_snapshotter.rs\<close>).

  The register file \<open>[Register; 32]\<close> is a total function with the bound of the array as a
  guard: \<open>get_unchecked_mut\<close> out of range is undefined behaviour. Counters (\<open>usize\<close>) are
  natural numbers.
\<close>

section \<open>The Counters trait\<close>

record 'c counter_ops =
  bump_bigint :: "nat \<Rightarrow> 'c \<Rightarrow> 'c"
  bump_blake2_round_function :: "nat \<Rightarrow> 'c \<Rightarrow> 'c"
  bump_keccak_special5 :: "nat \<Rightarrow> 'c \<Rightarrow> 'c"
  log_circuit_family :: "nat \<Rightarrow> 'c \<Rightarrow> 'c res"
  log_multiple_circuit_family_calls :: "nat \<Rightarrow> nat \<Rightarrow> 'c \<Rightarrow> 'c res"
  get_calls_to_circuit_family :: "nat \<Rightarrow> 'c \<Rightarrow> nat res"

record DelegationsCounters =
  dc_non_determinism_reads :: nat
  dc_blake_calls :: nat
  dc_bigint_calls :: nat
  dc_keccak_calls :: nat

definition DelegationsCounters_ops :: "DelegationsCounters counter_ops" where
  "DelegationsCounters_ops =
     \<lparr> bump_bigint = (\<lambda>by c. c \<lparr> dc_bigint_calls := dc_bigint_calls c + by \<rparr>),
       bump_blake2_round_function = (\<lambda>by c. c \<lparr> dc_blake_calls := dc_blake_calls c + by \<rparr>),
       bump_keccak_special5 = (\<lambda>by c. c \<lparr> dc_keccak_calls := dc_keccak_calls c + by \<rparr>),
       log_circuit_family = (\<lambda>family c. Inr c),
       log_multiple_circuit_family_calls = (\<lambda>family num_calls c. Inr c),
       get_calls_to_circuit_family = (\<lambda>family c. Inr 0) \<rparr>"

record DelegationsAndFamiliesCounters =
  add_sub_family :: nat
  binary_shift_csr_family :: nat
  slt_branch_family :: nat
  mul_div_family :: nat
  word_size_mem_family :: nat
  subword_size_mem_family :: nat
  fc_blake_calls :: nat
  fc_bigint_calls :: nat
  fc_keccak_calls :: nat

definition families_log_multiple ::
  "nat \<Rightarrow> nat \<Rightarrow> DelegationsAndFamiliesCounters \<Rightarrow> DelegationsAndFamiliesCounters res" where
  "families_log_multiple family num_calls c =
     (if family = ADD_SUB_LUI_AUIPC_MOP_CIRCUIT_FAMILY_IDX
        then Inr (c \<lparr> add_sub_family := add_sub_family c + num_calls \<rparr>)
      else if family = JUMP_BRANCH_SLT_CIRCUIT_FAMILY_IDX
        then Inr (c \<lparr> slt_branch_family := slt_branch_family c + num_calls \<rparr>)
      else if family = SHIFT_BINARY_CSR_CIRCUIT_FAMILY_IDX
        then Inr (c \<lparr> binary_shift_csr_family := binary_shift_csr_family c + num_calls \<rparr>)
      else if family = MUL_DIV_CIRCUIT_FAMILY_IDX
        then Inr (c \<lparr> mul_div_family := mul_div_family c + num_calls \<rparr>)
      else if family = LOAD_STORE_WORD_ONLY_CIRCUIT_FAMILY_IDX
        then Inr (c \<lparr> word_size_mem_family := word_size_mem_family c + num_calls \<rparr>)
      else if family = LOAD_STORE_SUBWORD_ONLY_CIRCUIT_FAMILY_IDX
        then Inr (c \<lparr> subword_size_mem_family := subword_size_mem_family c + num_calls \<rparr>)
      else Inl UndefinedBehaviour)"

definition families_get_calls :: "nat \<Rightarrow> DelegationsAndFamiliesCounters \<Rightarrow> nat res" where
  "families_get_calls family c =
     (if family = ADD_SUB_LUI_AUIPC_MOP_CIRCUIT_FAMILY_IDX then Inr (add_sub_family c)
      else if family = JUMP_BRANCH_SLT_CIRCUIT_FAMILY_IDX then Inr (slt_branch_family c)
      else if family = SHIFT_BINARY_CSR_CIRCUIT_FAMILY_IDX then Inr (binary_shift_csr_family c)
      else if family = MUL_DIV_CIRCUIT_FAMILY_IDX then Inr (mul_div_family c)
      else if family = LOAD_STORE_WORD_ONLY_CIRCUIT_FAMILY_IDX then Inr (word_size_mem_family c)
      else if family = LOAD_STORE_SUBWORD_ONLY_CIRCUIT_FAMILY_IDX then Inr (subword_size_mem_family c)
      else Inl UndefinedBehaviour)"

definition DelegationsAndFamiliesCounters_ops :: "DelegationsAndFamiliesCounters counter_ops" where
  "DelegationsAndFamiliesCounters_ops =
     \<lparr> bump_bigint = (\<lambda>by c. c \<lparr> fc_bigint_calls := fc_bigint_calls c + by \<rparr>),
       bump_blake2_round_function = (\<lambda>by c. c \<lparr> fc_blake_calls := fc_blake_calls c + by \<rparr>),
       bump_keccak_special5 = (\<lambda>by c. c \<lparr> fc_keccak_calls := fc_keccak_calls c + by \<rparr>),
       log_circuit_family = (\<lambda>family. families_log_multiple family 1),
       log_multiple_circuit_family_calls = families_log_multiple,
       get_calls_to_circuit_family = families_get_calls \<rparr>"

record DelegationsAndUnifiedCounters =
  uc_non_determinism_reads :: nat
  uc_blake_calls :: nat
  uc_bigint_calls :: nat
  uc_keccak_calls :: nat
  cycles :: nat

definition unified_log_multiple ::
  "nat \<Rightarrow> nat \<Rightarrow> DelegationsAndUnifiedCounters \<Rightarrow> DelegationsAndUnifiedCounters res" where
  "unified_log_multiple family num_calls c =
     (if family \<in> {ADD_SUB_LUI_AUIPC_MOP_CIRCUIT_FAMILY_IDX, JUMP_BRANCH_SLT_CIRCUIT_FAMILY_IDX,
          SHIFT_BINARY_CSR_CIRCUIT_FAMILY_IDX, MUL_DIV_CIRCUIT_FAMILY_IDX,
          LOAD_STORE_WORD_ONLY_CIRCUIT_FAMILY_IDX, LOAD_STORE_SUBWORD_ONLY_CIRCUIT_FAMILY_IDX}
      then Inr (c \<lparr> cycles := cycles c + num_calls \<rparr>)
      else Inl UndefinedBehaviour)"

definition unified_get_calls :: "nat \<Rightarrow> DelegationsAndUnifiedCounters \<Rightarrow> nat res" where
  "unified_get_calls family c =
     (if family = REDUCED_MACHINE_CIRCUIT_FAMILY_IDX then Inr (cycles c) else Inl AssertFailed)"

definition DelegationsAndUnifiedCounters_ops :: "DelegationsAndUnifiedCounters counter_ops" where
  "DelegationsAndUnifiedCounters_ops =
     \<lparr> bump_bigint = (\<lambda>by c. c \<lparr> uc_bigint_calls := uc_bigint_calls c + by \<rparr>),
       bump_blake2_round_function = (\<lambda>by c. c \<lparr> uc_blake_calls := uc_blake_calls c + by \<rparr>),
       bump_keccak_special5 = (\<lambda>by c. c \<lparr> uc_keccak_calls := uc_keccak_calls c + by \<rparr>),
       log_circuit_family = (\<lambda>family. unified_log_multiple family 1),
       log_multiple_circuit_family_calls = unified_log_multiple,
       get_calls_to_circuit_family = unified_get_calls \<rparr>"

section \<open>Registers and state\<close>

record register =
  reg_timestamp :: u64
  reg_value :: u32

record 'c state =
  registers :: "nat \<Rightarrow> register"
  timestamp :: u64
  pc :: u32
  counters :: 'c

definition initial_with_counters :: "'c \<Rightarrow> 'c state" where
  "initial_with_counters cs =
     \<lparr> registers = (\<lambda>_. \<lparr> reg_timestamp = 0, reg_value = 0 \<rparr>),
       timestamp = INITIAL_TIMESTAMP, pc = 0, counters = cs \<rparr>"

text \<open>
  Storing timestamp \<open>t\<close> and value \<open>v\<close> in register \<open>i\<close>, and the check every access makes:
  the bound of the unchecked index, then the debug assertion that time moves forward.
\<close>

definition set_register :: "nat \<Rightarrow> u64 \<Rightarrow> u32 \<Rightarrow> 'c state \<Rightarrow> 'c state" where
  "set_register i t v s =
     s \<lparr> registers := (registers s)(i := \<lparr> reg_timestamp = t, reg_value = v \<rparr>) \<rparr>"

definition register_access :: "cfg \<Rightarrow> u64 \<Rightarrow> nat \<Rightarrow> 'c state \<Rightarrow> 'a res \<Rightarrow> 'a res" where
  "register_access c offset i s k =
     guardR (i < 32) UndefinedBehaviour
       (debug_assert (debug_assertions c)
          (reg_timestamp (registers s i) < (timestamp s OR offset)) k)"

definition touch_x0 :: "cfg \<Rightarrow> u64 \<Rightarrow> 'c state \<Rightarrow> 'c state res" where
  "touch_x0 c offset s =
     register_access c offset 0 s
       (Inr (set_register 0 (timestamp s OR offset) (reg_value (registers s 0)) s))"

definition read_register :: "cfg \<Rightarrow> u64 \<Rightarrow> u8 \<Rightarrow> 'c state \<Rightarrow> (u32 \<times> 'c state) res" where
  "read_register c offset reg_idx s =
     (let i = unat reg_idx; v = reg_value (registers s i) in
      register_access c offset i s (Inr (v, set_register i (timestamp s OR offset) v s)))"

text \<open>\<open>write_register\<close> also zeroes the caller's value for \<open>x0\<close>: it returns the value stored.\<close>

definition write_register ::
  "cfg \<Rightarrow> u64 \<Rightarrow> u8 \<Rightarrow> u32 \<Rightarrow> 'c state \<Rightarrow> (u32 \<times> 'c state) res" where
  "write_register c offset reg_idx v s =
     (let i = unat reg_idx; v = (if reg_idx = 0 then 0 else v) in
      register_access c offset i s (Inr (v, set_register i (timestamp s OR offset) v s)))"

definition default_increase_pc :: "'c state \<Rightarrow> 'c state" where
  "default_increase_pc s = s \<lparr> pc := pc s + 4 \<rparr>"

definition increment_family_counter :: "'c counter_ops \<Rightarrow> nat \<Rightarrow> 'c state \<Rightarrow> 'c state res" where
  "increment_family_counter C family s =
     bindR (log_circuit_family C family (counters s)) (\<lambda>cs. Inr (s \<lparr> counters := cs \<rparr>))"

definition increment_family_counter_by ::
  "'c counter_ops \<Rightarrow> nat \<Rightarrow> nat \<Rightarrow> 'c state \<Rightarrow> 'c state res" where
  "increment_family_counter_by C family by' s =
     bindR (log_multiple_circuit_family_calls C family by' (counters s))
       (\<lambda>cs. Inr (s \<lparr> counters := cs \<rparr>))"

definition illegal :: "'a \<Rightarrow> 'b res" where
  "illegal s = Inl IllegalInstruction"

section \<open>The contract of the counters\<close>

text \<open>
  The families the handlers log are known to the implementation (the
  \<open>unreachable_unchecked\<close> of the last branch is not reached), and logging \<open>n\<close> calls adds
  \<open>n\<close> to the total.
\<close>

definition handler_families :: "nat set" where
  "handler_families =
     {ADD_SUB_LUI_AUIPC_MOP_CIRCUIT_FAMILY_IDX, JUMP_BRANCH_SLT_CIRCUIT_FAMILY_IDX,
      SHIFT_BINARY_CSR_CIRCUIT_FAMILY_IDX, MUL_DIV_CIRCUIT_FAMILY_IDX,
      LOAD_STORE_WORD_ONLY_CIRCUIT_FAMILY_IDX, LOAD_STORE_SUBWORD_ONLY_CIRCUIT_FAMILY_IDX}"

locale counting =
  fixes C :: "'c counter_ops" and total :: "'c \<Rightarrow> nat"
  assumes log_one: "log_circuit_family C f = log_multiple_circuit_family_calls C f 1"
    and log_known: "f \<in> handler_families \<Longrightarrow>
          \<exists>cs'. log_multiple_circuit_family_calls C f n cs = Inr cs' \<and> total cs' = total cs + n"
    and bump_total: "total (bump_bigint C n cs) = total cs"
      "total (bump_blake2_round_function C n cs) = total cs"
      "total (bump_keccak_special5 C n cs) = total cs"
begin

lemma increment_family_counter_total:
  assumes "increment_family_counter C f s = Inr s'" and "f \<in> handler_families"
  shows "total (counters s') = total (counters s) + 1"
proof -
  from assms(1) obtain cs' where l: "log_multiple_circuit_family_calls C f 1 (counters s) = Inr cs'"
    and s': "s' = s \<lparr> counters := cs' \<rparr>"
    by (auto simp: increment_family_counter_def log_one res_simps)
  with log_known [OF assms(2), of 1 "counters s"] show ?thesis by auto
qed

lemma increment_family_counter_returns:
  "f \<in> handler_families \<Longrightarrow> \<exists>cs. increment_family_counter C f s = Inr (s \<lparr> counters := cs \<rparr>)"
  using log_known [of f 1 "counters s"] by (auto simp: increment_family_counter_def log_one)

end

definition families_total :: "DelegationsAndFamiliesCounters \<Rightarrow> nat" where
  "families_total cs = add_sub_family cs + binary_shift_csr_family cs + slt_branch_family cs
     + mul_div_family cs + word_size_mem_family cs + subword_size_mem_family cs"

interpretation families: counting DelegationsAndFamiliesCounters_ops families_total
  by unfold_locales
    (auto simp: DelegationsAndFamiliesCounters_ops_def families_log_multiple_def
       handler_families_def families_total_def)

interpretation unified: counting DelegationsAndUnifiedCounters_ops cycles
  by unfold_locales
    (auto simp: DelegationsAndUnifiedCounters_ops_def unified_log_multiple_def
       handler_families_def)

end
