(* ===== verification/Ram.thy ===== *)
theory Ram
  imports Machine
begin

text \<open>
  Memory: the traits \<open>RamPeek\<close> and \<open>RAM\<close> of \<open>vm/mod.rs\<close> as a record of operations, and
  \<open>RamWithRomRegion\<close> (\<open>vm/ram_with_rom_region.rs\<close>), a vector of words each with the
  timestamp of its last access, whose low part is read-only. The contract \<open>ram_contract\<close> says
  what the instruction handlers rely on.
\<close>

section \<open>The RAM trait\<close>

text \<open>
  \<open>mask_read_for_witness\<close> changes its two arguments in place: it returns the new address
  and value.
\<close>

record 'm ram_ops =
  replay_stub :: bool
  peek_word :: "u32 \<Rightarrow> 'm \<Rightarrow> u32 res"
  read_word :: "u32 \<Rightarrow> u64 \<Rightarrow> 'm \<Rightarrow> ((u64 \<times> u32) \<times> 'm) res"
  mask_read_for_witness :: "u32 \<Rightarrow> u32 \<Rightarrow> 'm \<Rightarrow> (u32 \<times> u32) res"
  write_word :: "u32 \<Rightarrow> u32 \<Rightarrow> u64 \<Rightarrow> 'm \<Rightarrow> ((u64 \<times> u32) \<times> 'm) res"
  skip_if_replaying :: "nat \<Rightarrow> 'm \<Rightarrow> 'm res"

section \<open>RamWithRomRegion\<close>

text \<open>The vector \<open>backing\<close>: its slots and its length.\<close>

record rom_ram =
  backing :: "nat \<Rightarrow> register"
  backing_len :: nat

definition is_power_of_two :: "nat \<Rightarrow> bool" where
  "is_power_of_two n \<longleftrightarrow> n \<in> set (map (\<lambda>k. 2 ^ k) [0..<64])"

text \<open>
  The constructor: a zeroed vector whose first words get the program
  (\<open>zip\<close> stops at the shorter of the two).
\<close>

definition rom_bytes :: "cfg \<Rightarrow> nat" where
  "rom_bytes c = 2 ^ (16 + rom_bits c)"

definition from_rom_content :: "cfg \<Rightarrow> u32 list \<Rightarrow> nat \<Rightarrow> rom_ram res" where
  "from_rom_content c content total_size_bytes =
     guardR (is_power_of_two total_size_bytes) AssertFailed
     (guardR (rom_bytes c < total_size_bytes) AssertFailed
     (guardR (length content \<le> rom_bytes c div 4) AssertFailed
       (let ram_words = total_size_bytes div 4 in
        Inr \<lparr> backing = (\<lambda>i. if i < length content \<and> i < ram_words
                            then \<lparr> reg_timestamp = 0, reg_value = content ! i \<rparr>
                            else \<lparr> reg_timestamp = 0, reg_value = 0 \<rparr>),
              backing_len = ram_words \<rparr>)))"

definition word_idx :: "u32 \<Rightarrow> nat" where
  "word_idx address = unat (address div 4)"

text \<open>The checks of every access: two debug assertions, then the unchecked index.\<close>

definition slot_access :: "cfg \<Rightarrow> u32 \<Rightarrow> rom_ram \<Rightarrow> 'a res \<Rightarrow> 'a res" where
  "slot_access c address m k =
     debug_assert (debug_assertions c) (address mod 4 = 0)
     (debug_assert (debug_assertions c) (word_idx address < backing_len m)
     (guardR (word_idx address < backing_len m) UndefinedBehaviour k))"

definition rom_peek_word :: "cfg \<Rightarrow> u32 \<Rightarrow> rom_ram \<Rightarrow> u32 res" where
  "rom_peek_word c address m =
     slot_access c address m (Inr (reg_value (backing m (word_idx address))))"

definition rom_read_word :: "cfg \<Rightarrow> u32 \<Rightarrow> u64 \<Rightarrow> rom_ram \<Rightarrow> ((u64 \<times> u32) \<times> rom_ram) res" where
  "rom_read_word c address ts m =
     slot_access c address m
       (let i = word_idx address;
            v = reg_value (backing m i);
            read_timestamp = reg_timestamp (backing m i);
            m' = m \<lparr> backing := (backing m)(i := \<lparr> reg_timestamp = ts OR 1, reg_value = v \<rparr>) \<rparr> in
        debug_assert (debug_assertions c) (read_timestamp < (ts OR 1))
          (Inr ((read_timestamp, v), m')))"

text \<open>The range check of a write comes after the bound assertion and before the index.\<close>

definition rom_write_word ::
  "cfg \<Rightarrow> u32 \<Rightarrow> u32 \<Rightarrow> u64 \<Rightarrow> rom_ram \<Rightarrow> ((u64 \<times> u32) \<times> rom_ram) res" where
  "rom_write_word c address word ts m =
     debug_assert (debug_assertions c) (address mod 4 = 0)
     (debug_assert (debug_assertions c) (word_idx address < backing_len m)
     (guardR (\<not> word_idx address < rom_bytes c div 4) RomWrite
     (guardR (word_idx address < backing_len m) UndefinedBehaviour
       (let i = word_idx address;
            old_value = reg_value (backing m i);
            read_timestamp = reg_timestamp (backing m i);
            m' = m \<lparr> backing := (backing m)(i := \<lparr> reg_timestamp = ts OR 2, reg_value = word \<rparr>) \<rparr> in
        debug_assert (debug_assertions c) (read_timestamp < (ts OR 2))
          (Inr ((read_timestamp, old_value), m'))))))"

definition rom_ram_ops :: "cfg \<Rightarrow> rom_ram ram_ops" where
  "rom_ram_ops c =
     \<lparr> replay_stub = False,
       peek_word = rom_peek_word c,
       read_word = rom_read_word c,
       mask_read_for_witness = (\<lambda>address v m. Inr (address, v)),
       write_word = rom_write_word c,
       skip_if_replaying = (\<lambda>n m. Inl AssertFailed) \<rparr>"

section \<open>The contract of a memory\<close>

text \<open>
  \<open>content\<close> and \<open>stamp\<close> give each word's value and last access, \<open>mapped\<close> the words that
  exist and \<open>writable\<close> those that may be written. Every access that returns does what it
  says (the first three laws, whatever the build), and an aligned access at a fresh
  timestamp to a word that admits it returns (the other three).
\<close>

locale ram_contract =
  fixes R :: "'m ram_ops"
    and content :: "'m \<Rightarrow> nat \<Rightarrow> u32" and stamp :: "'m \<Rightarrow> nat \<Rightarrow> u64"
    and mapped :: "'m \<Rightarrow> nat set" and writable :: "'m \<Rightarrow> nat set"
  assumes peek_returns: "peek_word R a m = Inr v \<Longrightarrow>
      word_idx a \<in> mapped m \<and> v = content m (word_idx a)"
    and read_returns: "read_word R a t m = Inr ((rt, v), m') \<Longrightarrow>
      word_idx a \<in> mapped m \<and> v = content m (word_idx a) \<and> rt = stamp m (word_idx a) \<and>
      content m' = content m \<and> stamp m' = (stamp m)(word_idx a := t OR 1) \<and>
      mapped m' = mapped m \<and> writable m' = writable m"
    and write_returns: "write_word R a w t m = Inr ((rt, v), m') \<Longrightarrow>
      word_idx a \<in> mapped m \<and> word_idx a \<in> writable m \<and>
      v = content m (word_idx a) \<and> rt = stamp m (word_idx a) \<and>
      content m' = (content m)(word_idx a := w) \<and> stamp m' = (stamp m)(word_idx a := t OR 2) \<and>
      mapped m' = mapped m \<and> writable m' = writable m"
    and peek_total: "a mod 4 = 0 \<Longrightarrow> word_idx a \<in> mapped m \<Longrightarrow> \<exists>v. peek_word R a m = Inr v"
    and read_total: "a mod 4 = 0 \<Longrightarrow> word_idx a \<in> mapped m \<Longrightarrow> stamp m (word_idx a) < (t OR 1) \<Longrightarrow>
      \<exists>r. read_word R a t m = Inr r"
    and write_total: "a mod 4 = 0 \<Longrightarrow> word_idx a \<in> mapped m \<inter> writable m \<Longrightarrow>
      stamp m (word_idx a) < (t OR 2) \<Longrightarrow> \<exists>r. write_word R a w t m = Inr r"
begin

lemma peek_eq:
  "a mod 4 = 0 \<Longrightarrow> word_idx a \<in> mapped m \<Longrightarrow> peek_word R a m = Inr (content m (word_idx a))"
  using peek_total peek_returns by metis

lemma read_eq:
  assumes "a mod 4 = 0" "word_idx a \<in> mapped m" "stamp m (word_idx a) < (t OR 1)"
  obtains m' where "read_word R a t m = Inr ((stamp m (word_idx a), content m (word_idx a)), m')"
    "content m' = content m" "stamp m' = (stamp m)(word_idx a := t OR 1)"
    "mapped m' = mapped m" "writable m' = writable m"
  using read_total [OF assms] read_returns by (metis surj_pair)

lemma write_eq:
  assumes "a mod 4 = 0" "word_idx a \<in> mapped m \<inter> writable m" "stamp m (word_idx a) < (t OR 2)"
  obtains m' where "write_word R a w t m = Inr ((stamp m (word_idx a), content m (word_idx a)), m')"
    "content m' = (content m)(word_idx a := w)" "stamp m' = (stamp m)(word_idx a := t OR 2)"
    "mapped m' = mapped m" "writable m' = writable m"
  using write_total [OF assms, of w] write_returns by (metis surj_pair)

text \<open>Words that may not be written keep their value through any access.\<close>

lemma read_keeps: "read_word R a t m = Inr (r, m') \<Longrightarrow> content m' i = content m i"
  by (cases r) (simp add: read_returns)

lemma write_keeps:
  "write_word R a w t m = Inr (r, m') \<Longrightarrow> i \<notin> writable m \<or> i \<noteq> word_idx a \<Longrightarrow> content m' i = content m i"
  by (cases r) (use write_returns in fastforce)

end

definition rom_content :: "rom_ram \<Rightarrow> nat \<Rightarrow> u32" where
  "rom_content m i = reg_value (backing m i)"

definition rom_stamp :: "rom_ram \<Rightarrow> nat \<Rightarrow> u64" where
  "rom_stamp m i = reg_timestamp (backing m i)"

lemmas rom_defs = rom_peek_word_def rom_read_word_def rom_write_word_def slot_access_def Let_def

interpretation rom: ram_contract "rom_ram_ops c" rom_content rom_stamp
  "\<lambda>m. {..<backing_len m}" "\<lambda>m. {rom_bytes c div 4..}" for c
  by unfold_locales
    (auto simp: rom_ram_ops_def rom_defs rom_content_def rom_stamp_def res_simps fun_eq_iff)

end
