(* ===== verification/Snapshot.thy ===== *)
theory Snapshot
  imports Ram
begin

text \<open>
  The log of memory accesses and its snapshots (\<open>vm/replay_snapshotter.rs\<close>): the
  \<open>ReplayBuffer\<close> trait with its two implementations (a \<open>Vec\<close> of a fixed capacity and the
  chunked \<open>SpecBiVec\<close>), the \<open>Snapshotter\<close> trait of \<open>vm/mod.rs\<close>, and
  \<open>SimpleSnapshotter\<close>, which appends one entry per access and cuts the log into snapshots.
\<close>

section \<open>Replay buffers\<close>

text \<open>
  \<open>make_range\<close> takes the start and the end of the range and gives the slices that cover it.
\<close>

record ('a, 'b) buffer_ops =
  new_with_snapshots_bound :: "nat \<Rightarrow> 'b res"
  push_within_capacity_unchecked :: "'a \<Rightarrow> 'b \<Rightarrow> 'b res"
  make_range :: "nat \<Rightarrow> nat \<Rightarrow> 'b \<Rightarrow> 'a list list res"
  buffer_len :: "'b \<Rightarrow> nat"

text \<open>A vector with its capacity: pushing beyond it is undefined behaviour.\<close>

record 'a vec =
  vec_items :: "'a list"
  vec_capacity :: nat

definition vec_push :: "'a \<Rightarrow> 'a vec \<Rightarrow> 'a vec res" where
  "vec_push x b =
     guardR (length (vec_items b) < vec_capacity b) UndefinedBehaviour
       (Inr (b \<lparr> vec_items := vec_items b @ [x] \<rparr>))"

text \<open>Slicing \<open>[s..e]\<close> of a slice panics when the range is reversed or runs out of the slice.\<close>

definition slice :: "nat \<Rightarrow> nat \<Rightarrow> 'a list \<Rightarrow> 'a list res" where
  "slice s e xs = guardR (s \<le> e \<and> e \<le> length xs) IndexOutOfBounds (Inr (take (e - s) (drop s xs)))"

definition vec_make_range :: "nat \<Rightarrow> nat \<Rightarrow> 'a vec \<Rightarrow> 'a list list res" where
  "vec_make_range s e b = bindR (slice s e (vec_items b)) (\<lambda>x. Inr [x])"

definition vec_buffer_ops :: "('a, 'a vec) buffer_ops" where
  "vec_buffer_ops =
     \<lparr> new_with_snapshots_bound = (\<lambda>bound. Inr \<lparr> vec_items = [], vec_capacity = bound \<rparr>),
       push_within_capacity_unchecked = vec_push,
       make_range = vec_make_range,
       buffer_len = (\<lambda>b. length (vec_items b)) \<rparr>"

section \<open>SpecBiVec\<close>

text \<open>
  \<open>outer\<close> vectors of \<open>inner\<close> items (the const generics \<open>O\<close> and \<open>I\<close>), allocated one after the other. \<open>buffers\<close> lists all of them.
\<close>

record 'a spec_bi_vec =
  current :: nat
  total_len :: nat
  buffers :: "'a vec list"

definition SpecBiVec_new :: "nat \<Rightarrow> nat \<Rightarrow> 'a spec_bi_vec res" where
  "SpecBiVec_new inner outer =
     guardR (0 < outer) AssertFailed (guardR (0 < inner) AssertFailed (guardR (outer * inner \<le> 2 ^ 36) AssertFailed
       (Inr \<lparr> current = 0, total_len = 0,
              buffers = (replicate outer \<lparr> vec_items = [], vec_capacity = 0 \<rparr>)
                          [0 := \<lparr> vec_items = [], vec_capacity = inner \<rparr>] \<rparr>)))"

definition push_unchecked_impl :: "nat \<Rightarrow> nat \<Rightarrow> 'a \<Rightarrow> 'a spec_bi_vec \<Rightarrow> 'a spec_bi_vec res" where
  "push_unchecked_impl inner outer x b =
     guardR (current b < outer) UndefinedBehaviour
       (let dst = buffers b ! current b in
        bindR
          (if length (vec_items dst) = inner then
             bindR (vec_push x \<lparr> vec_items = [], vec_capacity = inner \<rparr>) (\<lambda>next.
               guardR (current b + 1 < outer) IndexOutOfBounds
                 (Inr (b \<lparr> current := current b + 1,
                           buffers := (buffers b)[current b + 1 := next] \<rparr>)))
           else
             bindR (vec_push x dst) (\<lambda>dst'. Inr (b \<lparr> buffers := (buffers b)[current b := dst'] \<rparr>)))
          (\<lambda>b. Inr (b \<lparr> total_len := total_len b + 1 \<rparr>)))"

text \<open>
  The loop of \<open>make_range_impl\<close> from chunk \<open>i\<close> to the last chunk \<open>e_o\<close>: \<open>buffers[i]\<close> panics
  when there is no chunk \<open>i\<close>.
\<close>

function make_range_loop ::
  "'a vec list \<Rightarrow> nat \<Rightarrow> nat \<Rightarrow> nat \<Rightarrow> nat \<Rightarrow> 'a list list \<Rightarrow> 'a list list res" where
  "make_range_loop bufs i e_o e_i inner_offset result =
     (if e_o < i then Inr result
      else if i = e_o then
        (if e_i \<noteq> 0 then
           guardR (i < length bufs) IndexOutOfBounds
             (bindR (slice inner_offset e_i (vec_items (bufs ! i))) (\<lambda>x.
                make_range_loop bufs (i + 1) e_o e_i inner_offset (result @ [x])))
         else make_range_loop bufs (i + 1) e_o e_i inner_offset result)
      else
        guardR (i < length bufs) IndexOutOfBounds
          (bindR (slice inner_offset (length (vec_items (bufs ! i))) (vec_items (bufs ! i))) (\<lambda>x.
             make_range_loop bufs (i + 1) e_o e_i 0 (result @ [x]))))"
  by pat_completeness auto
termination by (relation "measure (\<lambda>(_, i, e_o, _). Suc e_o - i)") auto

declare make_range_loop.simps [simp del]

definition make_range_impl :: "nat \<Rightarrow> nat \<Rightarrow> nat \<Rightarrow> 'a spec_bi_vec \<Rightarrow> 'a list list res" where
  "make_range_impl inner s e b =
     guardR (e \<le> total_len b) AssertFailed
       (let s_o = s div inner; s_i = s mod inner; e_o = e div inner; e_i = e mod inner in
        make_range_loop (buffers b) s_o e_o e_i s_i [])"

definition spec_buffer_ops :: "nat \<Rightarrow> nat \<Rightarrow> ('a, 'a spec_bi_vec) buffer_ops" where
  "spec_buffer_ops inner outer =
     \<lparr> new_with_snapshots_bound = (\<lambda>bound. guardR (bound \<le> inner * outer) AssertFailed (SpecBiVec_new inner outer)),
       push_within_capacity_unchecked = push_unchecked_impl inner outer,
       make_range = make_range_impl inner,
       buffer_len = total_len \<rparr>"

section \<open>The contract of a replay buffer\<close>

text \<open>
  A buffer is a list that grows at its end: \<open>items\<close> is that list, \<open>ok\<close> the representation
  invariant. The slices of a range, put together, are that range of the list.
\<close>

locale replay_buffer =
  fixes B :: "('a, 'b) buffer_ops" and items :: "'b \<Rightarrow> 'a list" and ok :: "'b \<Rightarrow> bool"
  assumes new_ok: "new_with_snapshots_bound B n = Inr b \<Longrightarrow> ok b \<and> items b = []"
    and push_ok: "push_within_capacity_unchecked B x b = Inr b' \<Longrightarrow> ok b \<Longrightarrow>
          ok b' \<and> items b' = items b @ [x]"
    and len_ok: "ok b \<Longrightarrow> buffer_len B b = length (items b)"
    and range_ok: "ok b \<Longrightarrow> s \<le> e \<Longrightarrow> e \<le> length (items b) \<Longrightarrow>
          \<exists>r. make_range B s e b = Inr r \<and> concat r = take (e - s) (drop s (items b))"
begin

lemma range_all:
  "ok b \<Longrightarrow> \<exists>r. make_range B 0 (buffer_len B b) b = Inr r \<and> concat r = items b"
  using range_ok [of b 0 "length (items b)"] by (simp add: len_ok)

lemma range_split:
  assumes "ok b" "s \<le> m" "m \<le> e" "e \<le> length (items b)"
    and "make_range B s m b = Inr r1" "make_range B m e b = Inr r2"
  shows "\<exists>r. make_range B s e b = Inr r \<and> concat r = concat (r1 @ r2)"
proof -
  have "take (e - s) (drop s (items b)) = take (m - s) (drop s (items b)) @ take (e - m) (drop m (items b))"
    using assms(2-4) take_add [of "m - s" "e - m" "drop s (items b)"] by simp
  moreover have "concat r1 = take (m - s) (drop s (items b))"
    using range_ok [OF assms(1,2)] assms by fastforce
  moreover have "concat r2 = take (e - m) (drop m (items b))"
    using range_ok [OF assms(1,3,4)] assms by fastforce
  moreover obtain r where "make_range B s e b = Inr r" "concat r = take (e - s) (drop s (items b))"
    using range_ok [of b s e] assms by force
  ultimately show ?thesis by auto
qed

end

interpretation vec: replay_buffer vec_buffer_ops vec_items "\<lambda>_. True"
  by unfold_locales
    (auto simp: vec_buffer_ops_def vec_push_def vec_make_range_def slice_def res_simps)

text \<open>
  \<open>SpecBiVec\<close>: full chunks, then the current one, then the empty ones.
\<close>

definition spec_items :: "'a spec_bi_vec \<Rightarrow> 'a list" where
  "spec_items b = concat (map vec_items (buffers b))"

definition spec_ok :: "nat \<Rightarrow> nat \<Rightarrow> 'a spec_bi_vec \<Rightarrow> bool" where
  "spec_ok inner outer b \<longleftrightarrow>
     0 < inner \<and> length (buffers b) = outer \<and> current b < outer \<and>
     (\<forall>k < current b. length (vec_items (buffers b ! k)) = inner) \<and>
     length (vec_items (buffers b ! current b)) \<le> inner \<and>
     vec_capacity (buffers b ! current b) = inner \<and>
     (\<forall>k < outer. current b < k \<longrightarrow> vec_items (buffers b ! k) = []) \<and>
     total_len b = current b * inner + length (vec_items (buffers b ! current b))"

text \<open>Dropping whole chunks of a chunked list.\<close>

lemma drop_chunks:
  assumes "\<forall>k < n. length (xss ! k) = w" and "n \<le> length xss"
  shows "drop (n * w) (concat xss) = concat (drop n xss)"
  using assms
proof (induction n arbitrary: xss)
  case (Suc n)
  then obtain x ys where xss: "xss = x # ys" by (cases xss) auto
  with Suc.prems have "length x = w" and "\<forall>k < n. length (ys ! k) = w" "n \<le> length ys" by auto
  with Suc.IH [of ys] xss show ?case by simp
qed simp

lemma spec_items_drop:
  assumes "spec_ok inner outer b" and "k \<le> current b"
  shows "drop (k * inner) (spec_items b) = concat (drop k (map vec_items (buffers b)))"
  unfolding spec_items_def using assms by (intro drop_chunks) (auto simp: spec_ok_def)

lemma concat_empty: "(\<forall>k < length xss. xss ! k = []) \<Longrightarrow> concat xss = []"
  by (simp add: in_set_conv_nth) (metis in_set_conv_nth)

lemma spec_items_split:
  assumes "spec_ok inner outer b"
  shows "spec_items b =
    concat (take (current b) (map vec_items (buffers b))) @ vec_items (buffers b ! current b)"
proof -
  let ?L = "map vec_items (buffers b)"
  have "?L = take (current b) ?L @ ?L ! current b # drop (Suc (current b)) ?L"
    using assms by (intro id_take_nth_drop) (simp add: spec_ok_def)
  moreover have "concat (drop (Suc (current b)) ?L) = []"
    by (rule concat_empty) (use assms in \<open>auto simp: spec_ok_def\<close>)
  ultimately have "concat ?L = concat (take (current b) ?L) @ ?L ! current b"
    by (metis append_Nil2 concat.simps(2) concat_append)
  then show ?thesis using assms by (simp add: spec_items_def spec_ok_def)
qed

lemma length_chunks:
  assumes "\<forall>k < length xss. length (xss ! k) = w"
  shows "length (concat xss) = length xss * w"
  using drop_chunks [of "length xss" xss w] assms
  by (induction xss) (fastforce simp: nth_Cons split: nat.splits)+

lemma spec_length:
  assumes "spec_ok inner outer b"
  shows "length (spec_items b) = total_len b"
proof -
  have "length (concat (take (current b) (map vec_items (buffers b)))) = current b * inner"
    using assms by (subst length_chunks [where w = inner]) (auto simp: spec_ok_def)
  with assms show ?thesis by (simp add: spec_items_split [OF assms]) (simp add: spec_ok_def)
qed

lemma spec_new_ok:
  "SpecBiVec_new inner outer = Inr b \<Longrightarrow> spec_ok inner outer b \<and> spec_items b = []"
  by (auto simp: SpecBiVec_new_def res_simps spec_ok_def spec_items_def nth_list_update
        in_set_conv_nth split: if_splits)

lemma spec_push_ok:
  assumes push: "push_unchecked_impl inner outer x b = Inr b'" and ok: "spec_ok inner outer b"
  shows "spec_ok inner outer b' \<and> spec_items b' = spec_items b @ [x]"
proof -
  let ?c = "current b" and ?d = "buffers b ! current b"
  have bounds: "?c < outer" "length (buffers b) = outer" using ok by (auto simp: spec_ok_def)
  show ?thesis
  proof (cases "length (vec_items ?d) = inner")
    case True
    then have b': "b' = b \<lparr> current := Suc ?c, total_len := Suc (total_len b),
        buffers := (buffers b)[Suc ?c := \<lparr> vec_items = [x], vec_capacity = inner \<rparr>] \<rparr>"
      and room: "Suc ?c < outer"
      using push by (auto simp: push_unchecked_impl_def Let_def res_simps vec_push_def)
    have ok': "spec_ok inner outer b'"
      using ok room True unfolding b' spec_ok_def
      by (auto simp: nth_list_update less_Suc_eq)
    have "take (Suc ?c) (map vec_items (buffers b)) = take ?c (map vec_items (buffers b)) @ [vec_items ?d]"
      using bounds by (simp add: take_Suc_conv_app_nth)
    then show ?thesis
      using ok' spec_items_split [OF ok'] spec_items_split [OF ok] room bounds
      by (simp add: b' map_update)
  next
    case False
    then have b': "b' = b \<lparr> total_len := Suc (total_len b),
        buffers := (buffers b)[?c := ?d \<lparr> vec_items := vec_items ?d @ [x] \<rparr>] \<rparr>"
      using push by (auto simp: push_unchecked_impl_def Let_def res_simps vec_push_def)
    have ok': "spec_ok inner outer b'"
      using ok False unfolding b' spec_ok_def by (auto simp: nth_list_update)
    show ?thesis
      using ok' spec_items_split [OF ok'] spec_items_split [OF ok] bounds
      by (simp add: b' map_update)
  qed
qed

lemma make_range_loop_last:
  "make_range_loop bufs e_o e_o e_i inner_offset result =
     (if e_i \<noteq> 0 then guardR (e_o < length bufs) IndexOutOfBounds
        (bindR (slice inner_offset e_i (vec_items (bufs ! e_o))) (\<lambda>x. Inr (result @ [x])))
      else Inr result)"
proof -
  have stop: "make_range_loop bufs (Suc e_o) e_o e inner_offset r = Inr r" for e r
    by (subst make_range_loop.simps) simp
  show ?thesis by (subst make_range_loop.simps) (simp add: stop)
qed

text \<open>From chunk \<open>i\<close> on, the loop yields the items from \<open>i * inner + offset\<close> to the end of the range.\<close>

lemma make_range_loop_ok:
  assumes ok: "spec_ok inner outer b" and "i \<le> e_o" and "e_i < inner" and "offset \<le> inner"
    and "i * inner + offset \<le> e_o * inner + e_i"
    and "e_o * inner + e_i \<le> length (spec_items b)"
  shows "\<exists>r. make_range_loop (buffers b) i e_o e_i offset result = Inr (result @ r) \<and>
    concat r = take (e_o * inner + e_i - (i * inner + offset)) (drop (i * inner + offset) (spec_items b))"
  using assms(2-)
proof (induction "e_o - i" arbitrary: i offset result)
  case 0
  then have i: "i = e_o" and off: "offset \<le> e_i" by auto
  show ?case
  proof (cases "e_i = 0")
    case True
    then show ?thesis using i off by (simp add: make_range_loop_last)
  next
    case False
    have len: "length (spec_items b) \<le> current b * inner + inner"
      using ok spec_length [OF ok] by (simp add: spec_ok_def)
    then have "e_o * inner < (current b + 1) * inner" using "0.prems"(5) False by simp
    then have ec: "e_o \<le> current b" by (simp only: mult_less_cancel2) simp
    have drop_eo: "drop (e_o * inner) (spec_items b) =
        vec_items (buffers b ! e_o) @ concat (drop (Suc e_o) (map vec_items (buffers b)))"
      using spec_items_drop [OF ok ec] ec ok by (simp add: spec_ok_def flip: Cons_nth_drop_Suc)
    have e_len: "e_i \<le> length (vec_items (buffers b ! e_o))"
      using ok ec "0.prems"(2,5) spec_length [OF ok]
      by (cases "e_o = current b") (auto simp: spec_ok_def)
    have "take (e_i - offset) (drop offset (drop (e_o * inner) (spec_items b))) =
        take (e_i - offset) (drop offset (vec_items (buffers b ! e_o)))"
      unfolding drop_eo using e_len off by simp
    then show ?thesis
      using False i off ec e_len ok
      by (auto simp: make_range_loop_last slice_def spec_ok_def add.commute)
  qed
next
  case (Suc n)
  then have lt: "i < e_o" by simp
  have "Suc i * inner \<le> e_o * inner" using lt by (intro mult_le_mono1) simp
  then have total: "Suc i * inner \<le> total_len b" using Suc.prems(5) spec_length [OF ok] by simp
  then have ic: "i \<le> current b"
  proof -
    have "total_len b \<le> Suc (current b) * inner"
      using ok by (auto simp: spec_ok_def)
    with total have "Suc i * inner \<le> Suc (current b) * inner" by (rule le_trans)
    moreover have "0 < inner" using ok by (simp add: spec_ok_def)
    ultimately show ?thesis by (simp only: mult_le_cancel2) simp
  qed
  have full: "length (vec_items (buffers b ! i)) = inner"
    using ok ic total by (cases "i = current b") (auto simp: spec_ok_def)
  have drop_i: "drop (i * inner) (spec_items b) = vec_items (buffers b ! i) @ drop (Suc i * inner) (spec_items b)"
  proof -
    have "drop (i * inner) (spec_items b) =
        vec_items (buffers b ! i) @ concat (drop (Suc i) (map vec_items (buffers b)))"
      using spec_items_drop [OF ok ic] ic ok by (simp add: spec_ok_def flip: Cons_nth_drop_Suc)
    moreover have "drop (Suc i * inner) (spec_items b) = drop inner (drop (i * inner) (spec_items b))"
      by (simp add: add.commute)
    ultimately show ?thesis using full by simp
  qed
  have n: "n = e_o - Suc i" using Suc.hyps(2) by simp
  from Suc.hyps(1) [OF n, of 0 "result @ [drop offset (vec_items (buffers b ! i))]"]
    Suc.prems lt \<open>Suc i * inner \<le> e_o * inner\<close>
  obtain r where r: "make_range_loop (buffers b) (Suc i) e_o e_i 0
        (result @ [drop offset (vec_items (buffers b ! i))]) =
        Inr (result @ drop offset (vec_items (buffers b ! i)) # r)"
    and cr: "concat r = take (e_o * inner + e_i - Suc i * inner) (drop (Suc i * inner) (spec_items b))"
    by auto
  have "make_range_loop (buffers b) i e_o e_i offset result =
      Inr (result @ drop offset (vec_items (buffers b ! i)) # r)"
    using lt r full ok ic Suc.prems(3)
    by (subst make_range_loop.simps) (simp add: slice_def spec_ok_def)
  moreover have "take (e_o * inner + e_i - (i * inner + offset)) (drop (i * inner + offset) (spec_items b)) =
      drop offset (vec_items (buffers b ! i)) @ concat r"
  proof -
    have "drop (i * inner + offset) (spec_items b) = drop offset (drop (i * inner) (spec_items b))"
      by (simp add: add.commute)
    also have "\<dots> = drop offset (vec_items (buffers b ! i)) @ drop (Suc i * inner) (spec_items b)"
      unfolding drop_i using full Suc.prems(3) by simp
    finally show ?thesis
      using full Suc.prems(3) \<open>Suc i * inner \<le> e_o * inner\<close> by (simp add: cr add.commute)
  qed
  ultimately show ?case by auto
qed

lemma spec_range_ok:
  assumes "spec_ok inner outer b" and "s \<le> e" and "e \<le> length (spec_items b)"
  shows "\<exists>r. make_range_impl inner s e b = Inr r \<and> concat r = take (e - s) (drop s (spec_items b))"
  using make_range_loop_ok [OF assms(1), of "s div inner" "e div inner" "e mod inner" "s mod inner" "[]"]
    assms spec_length [OF assms(1)]
  by (auto simp: make_range_impl_def div_le_mono spec_ok_def less_imp_le)

interpretation spec: replay_buffer "spec_buffer_ops inner outer" spec_items "spec_ok inner outer"
  for inner outer
  by unfold_locales
    (auto simp: spec_buffer_ops_def res_simps spec_length spec_new_ok
          intro: spec_range_ok dest: spec_push_ok)

section \<open>The Snapshotter trait and SimpleSnapshotter\<close>

record ('c, 's) snapshotter_ops =
  take_snapshot_if_needed :: "'c state \<Rightarrow> 's \<Rightarrow> (bool \<times> 's) res"
  take_final_snapshot :: "'c state \<Rightarrow> 's \<Rightarrow> 's res"
  append_arbitrary_value :: "u32 \<Rightarrow> 's \<Rightarrow> 's res"
  append_memory_read :: "u32 \<Rightarrow> u32 \<Rightarrow> u64 \<Rightarrow> u64 \<Rightarrow> 's \<Rightarrow> 's res"

text \<open>The snapshotter \<open>()\<close> keeps nothing.\<close>

definition unit_snapshotter_ops :: "('c, unit) snapshotter_ops" where
  "unit_snapshotter_ops =
     \<lparr> take_snapshot_if_needed = (\<lambda>s u. Inr (False, u)),
       take_final_snapshot = (\<lambda>s u. Inr u),
       append_arbitrary_value = (\<lambda>v u. Inr u),
       append_memory_read = (\<lambda>address v rt wt u. Inr u) \<rparr>"

text \<open>A log entry: the value read, and the low and high half of the timestamp it had.\<close>

type_synonym log_entry = "u32 \<times> u32 \<times> u32"

record 'c simple_snapshot =
  snap_state :: "'c state"
  reads_start :: nat
  reads_end :: nat

record ('c, 'b) simple_snapshotter =
  reads_offset :: nat
  snapshots :: "'c simple_snapshot list"
  reads_buffer :: 'b
  initial_snapshot :: "'c simple_snapshot"

definition TRACE_CHUNK_LEN :: nat where
  [code_consts]: "TRACE_CHUNK_LEN = 2 ^ 20"

definition MAX_TRACE_CHUNK_LEN :: nat where
  [code_consts]: "MAX_TRACE_CHUNK_LEN = TRACE_CHUNK_LEN + max (max (24 + 16) (31 * 2)) (8 + 8 + 1)"

definition new_with_cycle_limit ::
  "(log_entry, 'b) buffer_ops \<Rightarrow> nat \<Rightarrow> 'c state \<Rightarrow> ('c, 'b) simple_snapshotter res" where
  "new_with_cycle_limit MB limit initial_state =
     bindR (new_with_snapshots_bound MB limit) (\<lambda>b.
       Inr \<lparr> reads_offset = 0, snapshots = [], reads_buffer = b,
             initial_snapshot = \<lparr> snap_state = initial_state, reads_start = 0, reads_end = 0 \<rparr> \<rparr>)"

definition snapshot_impl ::
  "(log_entry, 'b) buffer_ops \<Rightarrow> 'c state \<Rightarrow> ('c, 'b) simple_snapshotter \<Rightarrow> ('c, 'b) simple_snapshotter" where
  "snapshot_impl MB st sn =
     (let len = buffer_len MB (reads_buffer sn);
          new_snapshot = \<lparr> snap_state = st, reads_start = reads_offset sn, reads_end = len \<rparr> in
      sn \<lparr> reads_offset := len, snapshots := snapshots sn @ [new_snapshot] \<rparr>)"

definition simple_take_snapshot_if_needed ::
  "cfg \<Rightarrow> (log_entry, 'b) buffer_ops \<Rightarrow> 'c state \<Rightarrow> ('c, 'b) simple_snapshotter \<Rightarrow>
   (bool \<times> ('c, 'b) simple_snapshotter) res" where
  "simple_take_snapshot_if_needed c MB st sn =
     bindR (usize_sub (debug_assertions c) (buffer_len MB (reads_buffer sn)) (reads_offset sn))
       (\<lambda>n.
          if TRACE_CHUNK_LEN \<le> n then
            debug_assert (debug_assertions c) (n \<le> MAX_TRACE_CHUNK_LEN)
              (Inr (False, snapshot_impl MB st sn))
          else Inr (False, sn))"

definition simple_append_arbitrary_value ::
  "(log_entry, 'b) buffer_ops \<Rightarrow> u32 \<Rightarrow> ('c, 'b) simple_snapshotter \<Rightarrow> ('c, 'b) simple_snapshotter res" where
  "simple_append_arbitrary_value MB v sn =
     bindR (push_within_capacity_unchecked MB (v, 0, 0) (reads_buffer sn))
       (\<lambda>b. Inr (sn \<lparr> reads_buffer := b \<rparr>))"

definition simple_append_memory_read ::
  "(log_entry, 'b) buffer_ops \<Rightarrow> u32 \<Rightarrow> u32 \<Rightarrow> u64 \<Rightarrow> u64 \<Rightarrow>
   ('c, 'b) simple_snapshotter \<Rightarrow> ('c, 'b) simple_snapshotter res" where
  "simple_append_memory_read MB address read_value read_timestamp write_timestamp sn =
     bindR (push_within_capacity_unchecked MB
              (read_value, ucast read_timestamp, ucast (drop_bit 32 read_timestamp)) (reads_buffer sn))
       (\<lambda>b. Inr (sn \<lparr> reads_buffer := b \<rparr>))"

definition simple_snapshotter_ops ::
  "cfg \<Rightarrow> (log_entry, 'b) buffer_ops \<Rightarrow> ('c, ('c, 'b) simple_snapshotter) snapshotter_ops" where
  "simple_snapshotter_ops c MB =
     \<lparr> take_snapshot_if_needed = simple_take_snapshot_if_needed c MB,
       take_final_snapshot = (\<lambda>s sn. Inr (snapshot_impl MB s sn)),
       append_arbitrary_value = simple_append_arbitrary_value MB,
       append_memory_read = simple_append_memory_read MB \<rparr>"

section \<open>The contract of a snapshotter\<close>

text \<open>
  \<open>log\<close> is the log taken so far. Each append adds one entry; taking a snapshot adds none.
  A timestamp is stored as its two halves.
\<close>

definition timestamp_halves :: "u64 \<Rightarrow> u32 \<times> u32" where
  "timestamp_halves t = (ucast t, ucast (drop_bit 32 t))"

locale snapshotter =
  fixes S :: "('c, 's) snapshotter_ops" and log :: "'s \<Rightarrow> log_entry list" and ok :: "'s \<Rightarrow> bool"
  assumes arbitrary_log: "append_arbitrary_value S v s = Inr s' \<Longrightarrow> ok s \<Longrightarrow>
        ok s' \<and> log s' = log s @ [(v, 0, 0)]"
    and memory_log: "append_memory_read S a v rt wt s = Inr s' \<Longrightarrow> ok s \<Longrightarrow>
        ok s' \<and> log s' = log s @ [(v, timestamp_halves rt)]"
    and needed_log: "take_snapshot_if_needed S st s = Inr (b, s') \<Longrightarrow> ok s \<Longrightarrow> ok s' \<and> log s' = log s"
    and final_log: "take_final_snapshot S st s = Inr s' \<Longrightarrow> ok s \<Longrightarrow> ok s' \<and> log s' = log s"

text \<open>
  The snapshots cut the log into consecutive pieces: each starts where the previous one ends,
  the first at 0, and the offset of the next one is the end of the last.
\<close>

fun consecutive :: "nat \<Rightarrow> 'c simple_snapshot list \<Rightarrow> nat \<Rightarrow> bool" where
  "consecutive start [] end' = (start = end')"
| "consecutive start (x # xs) end' =
     (reads_start x = start \<and> start \<le> reads_end x \<and> consecutive (reads_end x) xs end')"

lemma consecutive_snoc:
  "consecutive start (xs @ [x]) end' \<longleftrightarrow>
     consecutive start xs (reads_start x) \<and> reads_start x \<le> reads_end x \<and> reads_end x = end'"
  by (induction xs arbitrary: start) auto

lemma consecutive_le: "consecutive start xs end' \<Longrightarrow> start \<le> end'"
  by (induction xs arbitrary: start) (auto intro: le_trans)

text \<open>Buffers of log entries, and the snapshotter they carry.\<close>

locale replay_log = replay_buffer B items ok
  for B :: "(log_entry, 'b) buffer_ops" and items ok
begin

definition partitioned :: "('c, 'b) simple_snapshotter \<Rightarrow> bool" where
  "partitioned sn \<longleftrightarrow>
     ok (reads_buffer sn) \<and> consecutive 0 (snapshots sn) (reads_offset sn) \<and>
     reads_offset sn \<le> length (items (reads_buffer sn))"

definition taken_log :: "('c, 'b) simple_snapshotter \<Rightarrow> log_entry list" where
  "taken_log sn = items (reads_buffer sn)"

lemma new_partitioned:
  "new_with_cycle_limit B n st = Inr sn \<Longrightarrow> partitioned sn \<and> taken_log sn = []"
  by (auto simp: new_with_cycle_limit_def res_simps partitioned_def taken_log_def dest: new_ok)

lemma snapshot_impl_partitioned:
  "partitioned sn \<Longrightarrow>
     partitioned (snapshot_impl B st sn) \<and> taken_log (snapshot_impl B st sn) = taken_log sn"
  by (simp add: partitioned_def taken_log_def snapshot_impl_def Let_def len_ok consecutive_snoc)

lemma append_partitioned:
  assumes "push_within_capacity_unchecked B e (reads_buffer sn) = Inr b" and "partitioned sn"
  shows "partitioned (sn \<lparr> reads_buffer := b \<rparr>)" "items b = taken_log sn @ [e]"
  using push_ok [OF assms(1)] assms(2) by (auto simp: partitioned_def taken_log_def)

text \<open>The log is its snapshots in order and the entries since the last one.\<close>

lemma partition_of_log:
  assumes "partitioned sn"
  shows "concat (map (\<lambda>x. take (reads_end x - reads_start x) (drop (reads_start x) (taken_log sn)))
           (snapshots sn)) = take (reads_offset sn) (taken_log sn)"
proof -
  have *: "consecutive s xs e \<Longrightarrow> e \<le> length log \<Longrightarrow>
      concat (map (\<lambda>x. take (reads_end x - reads_start x) (drop (reads_start x) log)) xs) =
      take (e - s) (drop s log)" for s xs e and log :: "log_entry list"
  proof (induction xs arbitrary: s)
    case (Cons x xs)
    then have "reads_end x \<le> e" "s \<le> reads_end x" by (auto dest: consecutive_le)
    then have "take (e - s) (drop s log) =
        take (reads_end x - s) (drop s log) @ take (e - reads_end x) (drop (reads_end x) log)"
      using take_add [of "reads_end x - s" "e - reads_end x" "drop s log"] by simp
    with Cons show ?case by simp
  qed simp
  from assms show ?thesis
    using * [of 0 "snapshots sn" "reads_offset sn" "taken_log sn"]
    by (simp add: partitioned_def taken_log_def)
qed

end

sublocale replay_log \<subseteq> snap: snapshotter "simple_snapshotter_ops c B" taken_log partitioned for c
proof unfold_locales
  fix v s s' assume "append_arbitrary_value (simple_snapshotter_ops c B) v s = Inr s'" "partitioned s"
  then show "partitioned s' \<and> taken_log s' = taken_log s @ [(v, 0, 0)]"
    using append_partitioned
    by (auto simp: simple_snapshotter_ops_def simple_append_arbitrary_value_def res_simps taken_log_def)
next
  fix a v rt wt s s'
  assume "append_memory_read (simple_snapshotter_ops c B) a v rt wt s = Inr s'" "partitioned s"
  then show "partitioned s' \<and> taken_log s' = taken_log s @ [(v, timestamp_halves rt)]"
    using append_partitioned
    by (auto simp: simple_snapshotter_ops_def simple_append_memory_read_def res_simps taken_log_def
          timestamp_halves_def)
next
  fix st s b s'
  assume "take_snapshot_if_needed (simple_snapshotter_ops c B) st s = Inr (b, s')" "partitioned s"
  then show "partitioned s' \<and> taken_log s' = taken_log s"
    using snapshot_impl_partitioned
    by (auto simp: simple_snapshotter_ops_def simple_take_snapshot_if_needed_def res_simps split: if_splits)
next
  fix st s s'
  assume "take_final_snapshot (simple_snapshotter_ops c B) st s = Inr s'" "partitioned s"
  then show "partitioned s' \<and> taken_log s' = taken_log s"
    using snapshot_impl_partitioned by (auto simp: simple_snapshotter_ops_def)
qed

interpretation vec_log: replay_log vec_buffer_ops vec_items "\<lambda>_. True"
  by unfold_locales

interpretation spec_log: replay_log "spec_buffer_ops inner outer" spec_items "spec_ok inner outer"
  for inner outer
  by unfold_locales

end
