(* ===== verification/Mersenne31.thy ===== *)
theory Mersenne31
  imports Prelude
begin

text \<open>
  The base field of the prover, integers modulo \<open>p = 2 ^ 31 - 1\<close> (\<open>field/src/base.rs\<close> and
  the portable operations of \<open>field/src/ops.rs\<close>). An element is held as a \<open>u32\<close> of at most 31
  bits, so that zero has two representations, \<open>0\<close> and \<open>p\<close>. \<open>fv\<close> is the residue an element
  stands for; every operation is shown to keep the representation and to compute the
  operation of its name on residues.

  The source is compiled here without the features \<open>use_division\<close> and \<open>modular_ops\<close> (they
  are for the simulated machine). The increments and decrements of the operations do not
  overflow on representations, so they are written with the plain word operations.
\<close>

type_synonym m31 = u32

definition ORDER :: u32 where
  "ORDER = 2 ^ 31 - 1"

definition MSBITMASK :: u32 where
  "MSBITMASK = 2 ^ 31"

section \<open>Operations\<close>

definition add_mod :: "u32 \<Rightarrow> u32 \<Rightarrow> u32" where
  "add_mod a b =
     (let sum = a + b; msb = sum AND 2 ^ 31; sum = sum XOR msb in
      sum + (if msb \<noteq> 0 then 1 else 0))"

definition sub_mod :: "u32 \<Rightarrow> u32 \<Rightarrow> u32" where
  "sub_mod a b =
     (let sum = a - b; msb = sum AND 2 ^ 31; sum = sum XOR msb in
      sum - (if msb \<noteq> 0 then 1 else 0))"

definition mul_mod :: "u32 \<Rightarrow> u32 \<Rightarrow> u32" where
  "mul_mod a b =
     (let product = (ucast a :: u64) * ucast b;
          product_low = (ucast product :: u32) AND (2 ^ 31 - 1);
          product_high = ucast (drop_bit 31 product) in
      add_mod product_low product_high)"

text \<open>\<open>a * b + c\<close> with a single reduction.\<close>

definition fma_mod :: "u32 \<Rightarrow> u32 \<Rightarrow> u32 \<Rightarrow> u32" where
  "fma_mod a b c =
     (let product = (ucast a :: u64) * ucast b + ucast c;
          product_low = (ucast product :: u32) AND (2 ^ 31 - 1);
          product_high = ucast (drop_bit 31 product) in
      add_mod product_low product_high)"

text \<open>\<open>Mersenne31Field::new\<close> checks the representation in debug builds.\<close>

definition m31_new :: "cfg \<Rightarrow> u32 \<Rightarrow> m31 res" where
  "m31_new c v = debug_assert (debug_assertions c) (drop_bit 31 v = 0) (Inr v)"

definition to_reduced_u32 :: "m31 \<Rightarrow> u32" where
  "to_reduced_u32 x = (if x = ORDER then 0 else x)"

definition from_nonreduced_u32 :: "cfg \<Rightarrow> u32 \<Rightarrow> m31 res" where
  "from_nonreduced_u32 c v =
     (let v = (if ORDER \<le> v then v - ORDER else v);
          v = (if ORDER \<le> v then v - ORDER else v) in
      m31_new c v)"

definition mul_2exp_u64 :: "cfg \<Rightarrow> m31 \<Rightarrow> u64 \<Rightarrow> m31 res" where
  "mul_2exp_u64 c x exp =
     (let e = unat (exp mod 31);
          left = push_bit e x AND (2 ^ 31 - 1);
          right = drop_bit (31 - e) x in
      m31_new c (left OR right))"

definition div_2exp_u64 :: "cfg \<Rightarrow> m31 \<Rightarrow> u64 \<Rightarrow> m31 res" where
  "div_2exp_u64 c x exp =
     (let e = unat (exp mod 31);
          left = drop_bit e x;
          right = push_bit (31 - e) x AND (2 ^ 31 - 1) in
      m31_new c (left OR right))"

definition from_negative_u64_with_reduction :: "cfg \<Rightarrow> u64 \<Rightarrow> m31 res" where
  "from_negative_u64_with_reduction c x =
     (let x_low = (ucast x :: u32) AND (2 ^ 31 - 1);
          x_high = (ucast (drop_bit 31 x) :: u32) AND (2 ^ 31 - 1);
          x_sign = ucast (drop_bit 63 x) :: u32 in
      bindR (checked_sub (debug_assertions c) (x_low + x_high) x_sign) (\<lambda>res_wrapped.
        let msb = res_wrapped AND 2 ^ 31;
            sum = res_wrapped XOR msb;
            res = sum + (if msb \<noteq> 0 then 1 else 0);
            res = (if ORDER \<le> res then res - ORDER else res) in
        Inr res))"

definition from_u62 :: "u64 \<Rightarrow> m31" where
  "from_u62 x =
     (let product_low = (ucast x :: u32) AND (2 ^ 31 - 1);
          product_high = ucast (drop_bit 31 x) in
      add_mod product_low product_high)"

definition m31_is_zero :: "m31 \<Rightarrow> bool" where
  "m31_is_zero x \<longleftrightarrow> x = 0 \<or> x = ORDER"

definition m31_is_one :: "m31 \<Rightarrow> bool" where
  "m31_is_one x \<longleftrightarrow> x = 1"

text \<open>\<open>PartialEq\<close> compares reduced values.\<close>

definition m31_eq :: "m31 \<Rightarrow> m31 \<Rightarrow> bool" where
  "m31_eq x y \<longleftrightarrow> to_reduced_u32 x = to_reduced_u32 y"

definition m31_square :: "m31 \<Rightarrow> m31" where
  "m31_square x = mul_mod x x"

fun exp_power_of_2 :: "m31 \<Rightarrow> nat \<Rightarrow> m31" where
  "exp_power_of_2 x 0 = x"
| "exp_power_of_2 x (Suc n) = exp_power_of_2 (m31_square x) n"

text \<open>The addition chain for the exponent \<open>p - 2\<close>, the variables named by its bits.\<close>

definition m31_inverse :: "m31 \<Rightarrow> m31 option" where
  "m31_inverse x =
     (if m31_is_zero x then None
      else
        let p101 = mul_mod (exp_power_of_2 x 2) x;
            p1111 = mul_mod (m31_square p101) p101;
            p11111111 = mul_mod (exp_power_of_2 p1111 4) p1111;
            p111111110000 = exp_power_of_2 p11111111 4;
            p111111111111 = mul_mod p111111110000 p1111;
            p1111111111111111 = mul_mod (exp_power_of_2 p111111110000 4) p11111111;
            p1111111111111111111111111111 =
              mul_mod (exp_power_of_2 p1111111111111111 12) p111111111111;
            p1111111111111111111111111111101 =
              mul_mod (exp_power_of_2 p1111111111111111111111111111 3) p101 in
        Some p1111111111111111111111111111101)"

definition m31_sqrt :: "m31 \<Rightarrow> m31 option" where
  "m31_sqrt x =
     (let candidate = exp_power_of_2 x 29; t = m31_square candidate in
      if m31_eq t x then Some candidate else None)"

definition m31_negate :: "m31 \<Rightarrow> m31" where
  "m31_negate x = ORDER - x"

definition m31_double :: "m31 \<Rightarrow> m31" where
  "m31_double x =
     (let sum = push_bit 1 x; msb = sum AND MSBITMASK; sum = sum XOR msb in
      sum + (if msb \<noteq> 0 then 1 else 0))"

text \<open>\<open>fused_mul_add_assign\<close> and \<open>add_assign_product\<close>: the element is the first argument.\<close>

definition m31_fused_mul_add :: "m31 \<Rightarrow> m31 \<Rightarrow> m31 \<Rightarrow> m31" where
  "m31_fused_mul_add x a b = fma_mod x a b"

definition m31_add_product :: "m31 \<Rightarrow> m31 \<Rightarrow> m31 \<Rightarrow> m31" where
  "m31_add_product x a b = fma_mod a b x"

text \<open>The default \<open>pow\<close> of the trait \<open>Field\<close>: square and multiply over the bits of the exponent.\<close>

function m31_pow_loop :: "m31 \<Rightarrow> m31 \<Rightarrow> u32 \<Rightarrow> m31" where
  "m31_pow_loop base result exp =
     (if 0 < exp then
        m31_pow_loop (m31_square base) (if exp mod 2 = 1 then mul_mod result base else result)
          (drop_bit 1 exp)
      else result)"
  by pat_completeness auto
termination
proof (relation "measure (\<lambda>(_, _, e). unat e)", simp)
  fix base result and exp :: u32
  assume "0 < exp"
  then have "unat (drop_bit 1 exp) < unat exp"
    by (simp add: unat_gt_0 word_neq_0_conv drop_bit_eq_div unat_div)
  then show "((m31_square base, if exp mod 2 = 1 then mul_mod result base else result, drop_bit 1 exp),
      base, result, exp) \<in> measure (\<lambda>(_, _, e). unat e)"
    by simp
qed

declare m31_pow_loop.simps [simp del]

definition m31_pow :: "m31 \<Rightarrow> u32 \<Rightarrow> m31" where
  "m31_pow x exp = m31_pow_loop x 1 exp"

definition m31_from_u64 :: "u64 \<Rightarrow> m31 option" where
  "m31_from_u64 v = (if ORDER \<le> (ucast v :: u32) then None else Some (ucast v))"

definition m31_from_u64_with_reduction :: "u64 \<Rightarrow> m31" where
  "m31_from_u64_with_reduction v = ucast (v mod ucast ORDER)"

definition m31_as_boolean :: "cfg \<Rightarrow> m31 \<Rightarrow> bool res" where
  "m31_as_boolean c x =
     (let as_uint = to_reduced_u32 x in
      debug_assert (debug_assertions c) (as_uint = 0 \<or> as_uint = 1) (Inr (x = 1)))"

section \<open>Residues\<close>

abbreviation P :: nat where
  "P \<equiv> 2147483647"

definition valid :: "m31 \<Rightarrow> bool" where
  "valid x \<longleftrightarrow> unat x \<le> P"

definition fv :: "m31 \<Rightarrow> nat" where
  "fv x = unat x mod P"

lemma unat_ORDER: "unat ORDER = P"
  by (simp add: ORDER_def)

text \<open>The folding step all reductions share: bit 31 comes back as a one.\<close>

definition fold31 :: "u32 \<Rightarrow> u32" where
  "fold31 s = (s XOR (s AND 2 ^ 31)) + (if s AND 2 ^ 31 \<noteq> 0 then 1 else 0)"

lemma unat_fold31: "unat (fold31 s) = unat s mod 2 ^ 31 + unat s div 2 ^ 31"
proof -
  have top: "s AND 2 ^ 31 \<noteq> 0 \<longleftrightarrow> bit s 31"
    by (simp only: and_exp_eq_0_iff_not_bit not_not)
  have low: "s XOR (s AND 2 ^ 31) = take_bit 31 s"
    by (rule bit_word_eqI) (auto simp: bit_simps less_Suc_eq numeral_eq_Suc)
  have div: "unat s div 2 ^ 31 = (if bit s 31 then 1 else 0)"
  proof -
    have "unat s < 2 ^ 32" using unsigned_less [of s] by simp
    then have "unat s div 2 ^ 31 < 2" by simp
    moreover have "bit s 31 \<longleftrightarrow> odd (unat s div 2 ^ 31)"
    proof -
      have "bit s 31 \<longleftrightarrow> bit (unat s) 31" by (simp add: bit_unsigned_iff)
      then show ?thesis by (simp only: bit_iff_odd [of "unat s"])
    qed
    ultimately show ?thesis by (cases "unat s div 2 ^ 31") (auto simp: less_Suc_eq)
  qed
  show ?thesis
    unfolding fold31_def low top div
    by (simp add: unat_word_ariths unat_take_bit del: take_bit_of_nat)
qed

text \<open>The fold is exact arithmetic modulo \<open>p\<close>, as \<open>2 ^ 31 = p + 1\<close>.\<close>

lemma fold_mod: "(r + q) mod P = (q * 2 ^ 31 + r) mod P"
proof -
  have "q * 2 ^ 31 + r = (r + q) + q * P" by simp
  then show ?thesis by (simp only: mod_mult_self1)
qed

lemma fold31_residue:
  assumes "unat s \<le> 2 * P"
  shows "valid (fold31 s)" "fv (fold31 s) = unat s mod P"
proof -
  define q r where qr: "q = unat s div 2 ^ 31" "r = unat s mod 2 ^ 31"
  have s: "unat s = q * 2 ^ 31 + r" unfolding qr by simp
  have r: "r < 2 ^ 31" unfolding qr by simp
  have fold: "unat (fold31 s) = r + q" by (simp only: unat_fold31 qr)
  have "r + q \<le> P" using s r assms by (cases q) simp_all
  then show "valid (fold31 s)" by (simp only: valid_def fold)
  show "fv (fold31 s) = unat s mod P"
    unfolding fv_def fold s by (rule fold_mod)
qed

lemma add_mod_fold: "add_mod a b = fold31 (a + b)"
  by (simp add: add_mod_def fold31_def Let_def)

lemma unat_add_valid: "valid a \<Longrightarrow> valid b \<Longrightarrow> unat (a + b) = unat a + unat b"
  by (simp add: valid_def unat_word_ariths)

lemma add_mod_residue:
  assumes "valid a" "valid b"
  shows "valid (add_mod a b)" "fv (add_mod a b) = (fv a + fv b) mod P"
proof -
  have "unat (a + b) \<le> 2 * P" using assms by (simp add: unat_add_valid) (simp add: valid_def)
  from fold31_residue [OF this] assms
  show "valid (add_mod a b)" "fv (add_mod a b) = (fv a + fv b) mod P"
    by (simp_all add: add_mod_fold unat_add_valid fv_def mod_add_eq)
qed

text \<open>The two halves of a product (or of any number below \<open>2 ^ 62\<close>) added modulo \<open>p\<close>.\<close>

lemma low31: "unat ((ucast x :: u32) AND (2 ^ 31 - 1)) = unat (x :: u64) mod 2 ^ 31"
  unfolding and_low_bits unat_take_bit unat_ucast
  by (rule mod_mod_cancel) (simp add: le_imp_power_dvd)

lemma high31:
  assumes "unat (x :: u64) < 2 ^ 62"
  shows "unat (ucast (drop_bit 31 x) :: u32) = unat x div 2 ^ 31"
proof -
  have "unat x div 2 ^ 31 < 2 ^ LENGTH(32)" using assms by simp
  then show ?thesis unfolding unat_ucast unat_drop_bit by (rule mod_less)
qed

lemma reduce62:
  assumes "unat (x :: u64) < 2 ^ 62"
  defines "low \<equiv> (ucast x :: u32) AND (2 ^ 31 - 1)" and "high \<equiv> ucast (drop_bit 31 x) :: u32"
  shows "valid (add_mod low high)" "fv (add_mod low high) = unat x mod P"
proof -
  define q r where qr: "q = unat x div 2 ^ 31" "r = unat x mod 2 ^ 31"
  have x: "unat x = q * 2 ^ 31 + r" unfolding qr by simp
  have lh: "unat low = r" "unat high = q"
    using assms(1) by (simp_all only: low_def high_def low31 high31 qr)
  have "r < 2 ^ 31" "q < 2 ^ 31" using assms(1) by (simp_all add: qr)
  then have v: "valid low" "valid high" by (simp_all add: valid_def lh)
  show "valid (add_mod low high)" using v by (rule add_mod_residue)
  have "fv (add_mod low high) = (r + q) mod P"
    using add_mod_residue(2) [OF v] by (simp only: fv_def lh mod_add_eq)
  also have "\<dots> = unat x mod P" unfolding x by (rule fold_mod)
  finally show "fv (add_mod low high) = unat x mod P" .
qed

lemma valid_product: "valid a \<Longrightarrow> valid b \<Longrightarrow> unat a * unat b \<le> P * P"
  unfolding valid_def by (rule mult_le_mono)

lemma unat_fma:
  assumes "valid a" "valid b" "valid c"
  shows "unat ((ucast a :: u64) * ucast b + ucast c) = unat a * unat b + unat c"
    "unat a * unat b + unat c < 2 ^ 62"
proof -
  have c: "unat c \<le> P" using assms by (simp add: valid_def)
  show "unat a * unat b + unat c < 2 ^ 62"
    using valid_product [OF assms(1,2)] c by simp
  then show "unat ((ucast a :: u64) * ucast b + ucast c) = unat a * unat b + unat c"
    by (simp add: unat_word_ariths unat_ucast_up mod_less)
qed

lemma mod_fma: "((a mod p) * (b mod p) + c mod p) mod p = (a * b + c) mod (p :: nat)"
  by (metis mod_add_eq mod_mult_eq mod_mod_trivial)

lemma fma_mod_residue:
  assumes "valid a" "valid b" "valid c"
  shows "valid (fma_mod a b c)" "fv (fma_mod a b c) = (fv a * fv b + fv c) mod P"
proof -
  let ?x = "(ucast a :: u64) * ucast b + ucast c"
  have x: "unat ?x = unat a * unat b + unat c" "unat ?x < 2 ^ 62"
    using unat_fma [OF assms] by (simp_all only:)
  show "valid (fma_mod a b c)" using reduce62(1) [OF x(2)] by (simp only: fma_mod_def Let_def)
  show "fv (fma_mod a b c) = (fv a * fv b + fv c) mod P"
    using reduce62(2) [OF x(2)] unfolding fma_mod_def Let_def x(1)
    by (simp only: fv_def mod_fma)
qed

lemma mul_mod_fma: "mul_mod a b = fma_mod a b 0"
  by (simp add: mul_mod_def fma_mod_def)

lemma valid_0 [simp]: "valid 0" "fv 0 = 0" and valid_1 [simp]: "valid 1" "fv 1 = 1"
  by (simp_all add: valid_def fv_def)

lemma mul_mod_residue:
  "valid a \<Longrightarrow> valid b \<Longrightarrow> valid (mul_mod a b)"
  "valid a \<Longrightarrow> valid b \<Longrightarrow> fv (mul_mod a b) = fv a * fv b mod P"
  by (simp_all add: mul_mod_fma fma_mod_residue)

lemma fv_less: "fv x < P"
  by (simp add: fv_def)

lemma fv_mod [simp]: "fv x mod P = fv x"
  by (simp add: fv_def)

lemma unat_diff_valid:
  "valid a \<Longrightarrow> valid b \<Longrightarrow> b \<le> a \<Longrightarrow> unat (a - b) = unat a - unat b"
  by (simp add: unat_sub)

lemma sub_mod_fold:
  "sub_mod a b = ((a - b) XOR ((a - b) AND 2 ^ 31)) - (if (a - b) AND 2 ^ 31 \<noteq> 0 then 1 else 0)"
  by (simp add: sub_mod_def Let_def)

text \<open>Clearing bit 31.\<close>

lemma clear_top: "s XOR (s AND 2 ^ 31) = take_bit 31 (s :: u32)"
  by (rule bit_word_eqI) (auto simp: bit_simps less_Suc_eq numeral_eq_Suc)

lemma top_bit: "(s :: u32) AND 2 ^ 31 \<noteq> 0 \<longleftrightarrow> 2 ^ 31 \<le> unat s"
proof -
  have lt: "unat s < 2 ^ 32" using unsigned_less [of s] by simp
  have "s AND 2 ^ 31 \<noteq> 0 \<longleftrightarrow> bit s 31" by (simp only: and_exp_eq_0_iff_not_bit not_not)
  also have "\<dots> \<longleftrightarrow> bit (unat s) 31" by (simp add: bit_unsigned_iff)
  also have "\<dots> \<longleftrightarrow> odd (unat s div 2 ^ 31)" by (simp only: bit_iff_odd)
  also have "\<dots> \<longleftrightarrow> 2 ^ 31 \<le> unat s"
  proof -
    have "unat s div 2 ^ 31 < 2" using lt by simp
    moreover have "2 ^ 31 \<le> unat s \<longleftrightarrow> 0 < unat s div 2 ^ 31" by (simp add: div_greater_zero_iff)
    ultimately show ?thesis by (cases "unat s div 2 ^ 31") (auto simp: less_Suc_eq)
  qed
  finally show ?thesis .
qed

lemma sub_mod_residue:
  assumes "valid a" "valid b"
  shows "valid (sub_mod a b)" "fv (sub_mod a b) = (fv a + (P - fv b)) mod P"
proof -
  have ab: "unat a \<le> P" "unat b \<le> P" using assms by (simp_all add: valid_def)
  have val: "unat (sub_mod a b) = (if unat b \<le> unat a then unat a - unat b else P - (unat b - unat a))"
  proof (cases "unat b \<le> unat a")
    case True
    then have d: "unat (a - b) = unat a - unat b" by (simp add: unat_sub word_le_nat_alt)
    then have "\<not> 2 ^ 31 \<le> unat (a - b)" "unat (a - b) < 2 ^ 31" using ab by simp_all
    then show ?thesis
      using True d unfolding sub_mod_fold clear_top top_bit by (simp add: unat_take_bit del: take_bit_of_nat)
  next
    case False
    have d: "unat (a - b) = 2 ^ 32 - (unat b - unat a)"
      using False by (simp add: unat_sub_if')
    then have top: "2 ^ 31 \<le> unat (a - b)" using ab False by simp
    have low: "unat (take_bit 31 (a - b)) = 2 ^ 31 - (unat b - unat a)"
      unfolding unat_take_bit d using ab False
      by (simp add: mod_if)
    then have "1 \<le> take_bit 31 (a - b)" using ab False by (simp add: word_le_nat_alt)
    then show ?thesis
      using top low False ab unfolding sub_mod_fold clear_top top_bit
      by (simp add: unat_sub)
  qed
  show "valid (sub_mod a b)" using ab by (auto simp add: valid_def val)
  have b: "P - fv b = P - unat b \<or> (unat b = P \<and> fv b = 0)"
    using ab by (cases "unat b = P") (simp_all add: fv_def)
  have "fv (sub_mod a b) = (unat a + (P - unat b)) mod P"
  proof (cases "unat b \<le> unat a")
    case True
    then have "unat a + (P - unat b) = (unat a - unat b) + P" using ab by simp
    with True show ?thesis by (simp only: fv_def val if_True mod_add_self2)
  next
    case False
    then have "unat a + (P - unat b) = P - (unat b - unat a)" using ab by simp
    with False show ?thesis by (simp only: fv_def val if_False)
  qed
  also have "\<dots> = (fv a + (P - unat b)) mod P" by (simp only: fv_def mod_add_left_eq)
  also have "\<dots> = (fv a + (P - fv b)) mod P" using b by auto
  finally show "fv (sub_mod a b) = (fv a + (P - fv b)) mod P" .
qed

lemma negate_residue:
  assumes "valid a"
  shows "valid (m31_negate a)" "fv (m31_negate a) = (P - fv a) mod P"
proof -
  have a: "unat a \<le> P" using assms by (simp add: valid_def)
  then have v: "unat (m31_negate a) = P - unat a"
    by (simp add: m31_negate_def unat_sub word_le_nat_alt unat_ORDER)
  then show "valid (m31_negate a)" by (simp add: valid_def)
  show "fv (m31_negate a) = (P - fv a) mod P"
    using a v by (cases "unat a = P") (simp_all add: fv_def)
qed

lemma double_residue:
  assumes "valid a"
  shows "valid (m31_double a)" "fv (m31_double a) = 2 * fv a mod P"
proof -
  have d: "push_bit 1 a = a + a" by (simp add: push_bit_eq_mult)
  have "m31_double a = add_mod a a"
    unfolding m31_double_def add_mod_def d by (simp add: MSBITMASK_def)
  with add_mod_residue [OF assms assms]
  show "valid (m31_double a)" "fv (m31_double a) = 2 * fv a mod P"
    by (simp_all add: mult_2)
qed

lemma square_residue:
  assumes "valid a"
  shows "valid (m31_square a)" "fv (m31_square a) = (fv a)\<^sup>2 mod P"
  using mul_mod_residue [OF assms assms] by (simp_all add: m31_square_def power2_eq_square)

lemma exp_power_of_2_residue:
  assumes "valid a"
  shows "valid (exp_power_of_2 a n)" "fv (exp_power_of_2 a n) = fv a ^ 2 ^ n mod P"
proof -
  have "valid (exp_power_of_2 a n) \<and> fv (exp_power_of_2 a n) = fv a ^ 2 ^ n mod P"
    using assms
  proof (induction n arbitrary: a)
    case (Suc n)
    have "fv (m31_square a) ^ 2 ^ n mod P = ((fv a)\<^sup>2) ^ 2 ^ n mod P"
      using square_residue(2) [OF Suc.prems] by (simp add: power_mod)
    also have "((fv a)\<^sup>2) ^ 2 ^ n = fv a ^ 2 ^ Suc n"
      by (simp add: power_mult [symmetric])
    finally show ?case
      using Suc.IH [OF square_residue(1) [OF Suc.prems]] by simp
  qed simp
  then show "valid (exp_power_of_2 a n)" "fv (exp_power_of_2 a n) = fv a ^ 2 ^ n mod P" by simp_all
qed

lemma to_reduced_residue:
  assumes "valid a"
  shows "unat (to_reduced_u32 a) = fv a"
proof (cases "a = ORDER")
  case False
  then have "unat a \<noteq> P" using unat_ORDER by (metis unsigned_word_eqI)
  with assms False show ?thesis by (simp add: to_reduced_u32_def fv_def valid_def)
qed (simp add: to_reduced_u32_def fv_def unat_ORDER)

lemma m31_eq_iff: "valid a \<Longrightarrow> valid b \<Longrightarrow> m31_eq a b \<longleftrightarrow> fv a = fv b"
  by (metis m31_eq_def to_reduced_residue unsigned_word_eqI)

lemma is_zero_iff: "valid a \<Longrightarrow> m31_is_zero a \<longleftrightarrow> fv a = 0"
  unfolding m31_is_zero_def
  by (metis to_reduced_residue to_reduced_u32_def unat_eq_zero)

lemma m31_new_valid: "m31_new c v = Inr x \<longleftrightarrow> x = v \<and> (debug_assertions c \<longrightarrow> valid v)"
proof -
  have "drop_bit 31 v = 0 \<longleftrightarrow> unat v div 2 ^ 31 = 0"
    unfolding unat_drop_bit [symmetric] by (simp only: unat_eq_zero)
  also have "\<dots> \<longleftrightarrow> valid v" by (auto simp: valid_def div_eq_0_iff)
  finally show ?thesis by (auto simp: m31_new_def res_simps)
qed

text \<open>Any \<open>u32\<close> is reduced by at most two subtractions, and in full.\<close>

lemma from_nonreduced_residue:
  obtains x where "from_nonreduced_u32 c v = Inr x" "valid x" "unat x = unat v mod P"
proof -
  let ?s = "\<lambda>v. if ORDER \<le> v then v - ORDER else v"
  have step: "unat (?s v) = (if P \<le> unat v then unat v - P else unat v)" for v
    by (simp add: unat_sub unat_ORDER word_le_nat_alt)
  have "unat v < 2 ^ 32" using unsigned_less [of v] by simp
  then have two: "unat (?s (?s v)) = unat v mod P"
    unfolding step by (simp add: mod_if)
  have "valid (?s (?s v))" unfolding valid_def two by simp
  moreover have "from_nonreduced_u32 c v = m31_new c (?s (?s v))"
    by (simp add: from_nonreduced_u32_def Let_def)
  ultimately show thesis using that two by (metis m31_new_valid)
qed

end
