(* ===== verification/Bigint.thy ===== *)
theory Bigint
  imports Constants
begin

text \<open>
  The arithmetic of the 256-bit delegation (\<open>bigint_impl\<close> of
  \<open>vm/delegations/bigint.rs\<close>). The number type and its arithmetic come from the crate
  \<open>ruint\<close>, which is not part of the repository: its four operations are a parameter, and the
  locale \<open>ruint\<close> states what its documentation says of them. A \<open>U256\<close> is its four limbs,
  the least significant first.
\<close>

section \<open>Numbers as limbs\<close>

fun limbs_value :: "u64 list \<Rightarrow> nat" where
  "limbs_value [] = 0"
| "limbs_value (l # ls) = unat l + 2 ^ 64 * limbs_value ls"

fun limbs_of :: "nat \<Rightarrow> nat \<Rightarrow> u64 list" where
  "limbs_of 0 x = []"
| "limbs_of (Suc n) x = word_of_nat x # limbs_of n (x div 2 ^ 64)"

lemma length_limbs_of [simp]: "length (limbs_of n x) = n"
  by (induction n arbitrary: x) simp_all

lemma limbs_value_of: "limbs_value (limbs_of n x) = x mod 2 ^ (64 * n)"
proof (induction n arbitrary: x)
  case (Suc n)
  have "x mod 2 ^ (64 * Suc n) = 2 ^ 64 * (x div 2 ^ 64 mod 2 ^ (64 * n)) + x mod 2 ^ 64"
    using mod_mult2_eq [of x "2 ^ 64" "2 ^ (64 * n)"] by (simp only: power_add mult_Suc_right)
  moreover have "unat (word_of_nat x :: u64) = x mod 2 ^ 64" by (simp add: unat_of_nat)
  ultimately show ?case by (simp only: limbs_of.simps limbs_value.simps Suc.IH)
qed simp

lemma limbs_value_bound: "limbs_value ls < 2 ^ (64 * length ls)"
proof (induction ls)
  case (Cons l ls)
  have l: "unat l < 2 ^ 64" using unsigned_less [of l, where ?'a = nat] by simp
  have "2 ^ (64 * length (l # ls)) = (2 ^ 64 :: nat) * 2 ^ (64 * length ls)"
    by (simp add: power_add)
  moreover have "limbs_value ls + 1 \<le> 2 ^ (64 * length ls)" using Cons by simp
  then have "2 ^ 64 * (limbs_value ls + 1) \<le> 2 ^ 64 * 2 ^ (64 * length ls)" by (rule mult_le_mono2)
  ultimately show ?case using l by (simp only: limbs_value.simps distrib_left)
qed simp

lemma limbs_of_value: "length ls = n \<Longrightarrow> limbs_of n (limbs_value ls) = ls"
proof (induction n arbitrary: ls)
  case (Suc n)
  then obtain l ls' where ls: "ls = l # ls'" "length ls' = n" by (cases ls) auto
  have l: "unat l < 2 ^ 64" using unsigned_less [of l, where ?'a = nat] by simp
  have m: "limbs_value ls mod 2 ^ 64 = unat l" "limbs_value ls div 2 ^ 64 = limbs_value ls'"
    using l by (simp_all add: ls)
  have "(word_of_nat (limbs_value ls) :: u64) = word_of_nat (limbs_value ls mod 2 ^ 64)"
    by (simp add: word_of_nat_eq_iff take_bit_eq_mod)
  then show ?case using m Suc.IH [OF ls(2)] by (simp add: ls)
qed simp

lemma limbs_value_inj: "length a = length b \<Longrightarrow> limbs_value a = limbs_value b \<Longrightarrow> a = b"
  using limbs_of_value by metis

section \<open>The operations of ruint\<close>

record ruint_ops =
  carrying_add_n :: "u64 list \<Rightarrow> u64 list \<Rightarrow> bool \<Rightarrow> u64 list \<times> bool"
  borrowing_sub_n :: "u64 list \<Rightarrow> u64 list \<Rightarrow> bool \<Rightarrow> u64 list \<times> bool"
  overflowing_mul :: "u64 list \<Rightarrow> u64 list \<Rightarrow> u64 list \<times> bool"
  widening_mul :: "u64 list \<Rightarrow> u64 list \<Rightarrow> u64 list"

definition two256 :: nat where
  "two256 = 2 ^ 256"

text \<open>
  The documented behaviour: addition and subtraction in place with the carry or borrow in and
  out, multiplication modulo \<open>2 ^ 256\<close> with an overflow flag, and the full 512-bit product.
\<close>

locale ruint =
  fixes U :: ruint_ops
  assumes carrying_add: "length a = 4 \<Longrightarrow> length b = 4 \<Longrightarrow>
      length (fst (carrying_add_n U a b c)) = 4 \<and>
      limbs_value (fst (carrying_add_n U a b c)) = (limbs_value a + limbs_value b + of_bool c) mod two256 \<and>
      snd (carrying_add_n U a b c) = (two256 \<le> limbs_value a + limbs_value b + of_bool c)"
    and borrowing_sub: "length a = 4 \<Longrightarrow> length b = 4 \<Longrightarrow>
      length (fst (borrowing_sub_n U a b c)) = 4 \<and>
      limbs_value (fst (borrowing_sub_n U a b c)) =
        (limbs_value a + two256 - limbs_value b - of_bool c) mod two256 \<and>
      snd (borrowing_sub_n U a b c) = (limbs_value a < limbs_value b + of_bool c)"
    and overflowing_mul: "length a = 4 \<Longrightarrow> length b = 4 \<Longrightarrow>
      length (fst (overflowing_mul U a b)) = 4 \<and>
      limbs_value (fst (overflowing_mul U a b)) = (limbs_value a * limbs_value b) mod two256 \<and>
      snd (overflowing_mul U a b) = (two256 \<le> limbs_value a * limbs_value b)"
    and widening_mul: "length a = 4 \<Longrightarrow> length b = 4 \<Longrightarrow>
      length (widening_mul U a b) = 8 \<and>
      limbs_value (widening_mul U a b) = limbs_value a * limbs_value b"

section \<open>bigint_impl\<close>

text \<open>The carry propagation of a copy with carry: a loop over the limbs.\<close>

fun propagate_carry :: "u64 list \<Rightarrow> bool \<Rightarrow> u64 list \<times> bool" where
  "propagate_carry [] of' = ([], of')"
| "propagate_carry (dst # ls) of' =
     (let t = dst + of_bool of'; new_of = 2 ^ 64 \<le> unat dst + of_bool of';
          (rest, of'') = propagate_carry ls new_of in (t # rest, of''))"

definition BIGINT_NUM_CONTROL_BITS :: nat where
  [code_consts]: "BIGINT_NUM_CONTROL_BITS = 8"

definition bigint_impl :: "ruint_ops \<Rightarrow> u64 list \<Rightarrow> u64 list \<Rightarrow> u32 \<Rightarrow> (u64 list \<times> bool) res" where
  "bigint_impl U a b x12 =
     (let control_mask = x12; op = (\<lambda>i. control_mask AND push_bit i 1 \<noteq> 0) in
      guardR (control_mask < push_bit BIGINT_NUM_CONTROL_BITS 1) AssertFailed
      (guardR (count_ones (control_mask AND NOT (push_bit CARRY_BIT_IDX 1)) = 1) AssertFailed
       (let carry_bit = op CARRY_BIT_IDX; carry_or_borrow = carry_bit in
        if op ADD_OP_BIT_IDX then Inr (carrying_add_n U a b carry_or_borrow)
        else if op SUB_OP_BIT_IDX then Inr (borrowing_sub_n U a b carry_or_borrow)
        else if op SUB_AND_NEGATE_OP_BIT_IDX then Inr (borrowing_sub_n U b a carry_or_borrow)
        else if op MUL_LOW_OP_BIT_IDX then Inr (overflowing_mul U a b)
        else if op MUL_HIGH_OP_BIT_IDX then Inr (take 4 (drop 4 (widening_mul U a b)), False)
        else if op EQ_OP_BIT_IDX then Inr (a, a = b)
        else if op MEMCOPY_BIT_IDX then
          (if carry_bit then Inr (propagate_carry b carry_or_borrow) else Inr (b, False))
        else Inl UnknownInstruction)))"

section \<open>Correctness\<close>

text \<open>
  The control words that are accepted have exactly one operation bit (bit 6 is the carry);
  and what each asks for, on numbers.
\<close>

definition bigint_control_ok :: "u32 \<Rightarrow> bool" where
  "bigint_control_ok x12 \<longleftrightarrow> x12 < 256 \<and> length (filter (bit x12) [0, 1, 2, 3, 4, 5, 7]) = 1"

definition bigint_spec :: "u32 \<Rightarrow> nat \<Rightarrow> nat \<Rightarrow> nat \<times> bool" where
  "bigint_spec x12 a b =
     (let c = of_bool (bit x12 6) in
      if bit x12 0 then ((a + b + c) mod two256, two256 \<le> a + b + c)
      else if bit x12 1 then ((a + two256 - b - c) mod two256, a < b + c)
      else if bit x12 2 then ((b + two256 - a - c) mod two256, b < a + c)
      else if bit x12 3 then (a * b mod two256, two256 \<le> a * b)
      else if bit x12 4 then (a * b div two256, False)
      else if bit x12 5 then (a, a = b)
      else ((b + c) mod two256, two256 \<le> b + c))"

definition ruint_model :: ruint_ops where
  "ruint_model =
     \<lparr> carrying_add_n = (\<lambda>a b c. let x = limbs_value a + limbs_value b + of_bool c in
         (limbs_of 4 x, two256 \<le> x)),
       borrowing_sub_n = (\<lambda>a b c. (limbs_of 4 (limbs_value a + two256 - limbs_value b - of_bool c),
         limbs_value a < limbs_value b + of_bool c)),
       overflowing_mul = (\<lambda>a b. let x = limbs_value a * limbs_value b in (limbs_of 4 x, two256 \<le> x)),
       widening_mul = (\<lambda>a b. limbs_of 8 (limbs_value a * limbs_value b)) \<rparr>"

lemma limbs_value_4: "length a = 4 \<Longrightarrow> limbs_value a < two256"
  using limbs_value_bound [of a] by (simp add: two256_def)

lemma limbs_value_of_4 [simp]: "limbs_value (limbs_of 4 x) = x mod two256"
  by (simp add: limbs_value_of two256_def)

interpretation ruint_model: ruint ruint_model
proof unfold_locales
  fix a b :: "u64 list"
  assume len: "length a = 4" "length b = 4"
  show "length (widening_mul ruint_model a b) = 8 \<and>
      limbs_value (widening_mul ruint_model a b) = limbs_value a * limbs_value b"
  proof -
    have "limbs_value a * limbs_value b < two256 * two256"
      using limbs_value_4 len by (intro mult_strict_mono') auto
    then show ?thesis by (simp add: ruint_model_def limbs_value_of two256_def)
  qed
qed (simp_all add: ruint_model_def Let_def)

lemma propagate_carry_value:
  "propagate_carry b c = (r, of') \<Longrightarrow> length r = length b \<and>
     limbs_value b + of_bool c = limbs_value r + of_bool of' * 2 ^ (64 * length b)"
proof (induction b arbitrary: c r)
  case (Cons l ls)
  let ?new = "2 ^ 64 \<le> unat l + of_bool c"
  obtain r' where r': "propagate_carry ls ?new = (r', of')" "r = (l + of_bool c) # r'"
    using Cons.prems by (auto simp: Let_def split: prod.splits)
  have l: "unat l < 2 ^ 64" using unsigned_less [of l, where ?'a = nat] by simp
  have t: "unat (l + of_bool c) + 2 ^ 64 * of_bool ?new = unat l + of_bool c"
    using l by (cases "c \<and> unat l = 2 ^ 64 - 1") (auto simp: unat_word_ariths)
  have p: "(2::nat) ^ (64 * length (l # ls)) = 2 ^ 64 * 2 ^ (64 * length ls)"
    by (simp add: power_add)
  have "limbs_value (l # ls) + of_bool c =
      unat (l + of_bool c) + 2 ^ 64 * (limbs_value ls + of_bool ?new)"
    using t by (simp only: limbs_value.simps distrib_left)
  also have "\<dots> = limbs_value r + of_bool of' * 2 ^ (64 * length (l # ls))"
    unfolding conjunct2 [OF Cons.IH [OF r'(1)]] p r'(2) limbs_value.simps distrib_left
    by (simp only: ac_simps)
  finally show ?case using Cons.IH [OF r'(1)] r'(2) by simp
qed auto

lemma and_push_bit_one: "(w::u32) AND push_bit i 1 \<noteq> 0 \<longleftrightarrow> bit w i"
  by (rule bit_iff_and_push_bit_not_eq_0 [symmetric])

lemma control_checks:
  "x12 < push_bit BIGINT_NUM_CONTROL_BITS 1 \<and>
   count_ones (x12 AND NOT (push_bit CARRY_BIT_IDX 1)) = 1 \<longleftrightarrow> bigint_control_ok x12"
proof (cases "x12 < 256")
  case True
  then have "unat (take_bit 8 x12) = unat x12" by (simp add: word_less_nat_alt unat_take_bit)
  then have low: "x12 = take_bit 8 x12" by (simp only: word_unat_eq_iff)
  have high: "\<not> bit x12 i" if "8 \<le> i" for i
    using that by (subst low) (simp add: bit_simps)
  have "[0..<32] = [0, 1, 2, 3, 4, 5, 6, 7] @ [8..<32]"
    using upt_add_eq_append [of 0 8 24] by (simp add: upt_rec eval_nat_numeral del: append.simps)
  moreover have "filter (bit (x12 AND NOT (push_bit CARRY_BIT_IDX 1))) [8..<32] = []"
    by (simp add: filter_empty_conv bit_simps high)
  ultimately have "filter (bit (x12 AND NOT (push_bit CARRY_BIT_IDX 1))) [0..<32] =
      filter (bit x12) [0, 1, 2, 3, 4, 5, 7]"
    by (simp add: bit_simps code_consts)
  then show ?thesis using True by (simp only: count_ones_def bigint_control_ok_def) (simp add: code_consts)
qed (simp add: bigint_control_ok_def code_consts)


lemma control_some_bit:
  "bigint_control_ok x12 \<Longrightarrow>
     bit x12 0 \<or> bit x12 1 \<or> bit x12 2 \<or> bit x12 3 \<or> bit x12 4 \<or> bit x12 5 \<or> bit x12 7"
  by (rule ccontr) (simp add: bigint_control_ok_def)

lemma limbs_value_append:
  "limbs_value (a @ b) = limbs_value a + 2 ^ (64 * length a) * limbs_value b"
proof (induction a)
  case (Cons l ls)
  have "(2::nat) ^ (64 * length (l # ls)) = 2 ^ 64 * 2 ^ (64 * length ls)" by (simp add: power_add)
  then show ?case
    using Cons by (simp only: append.simps limbs_value.simps distrib_left ac_simps)
qed simp

lemma limbs_high:
  assumes "length l = 8"
  shows "limbs_value (take 4 (drop 4 l)) = limbs_value l div two256"
proof -
  have "limbs_value (take 4 l @ drop 4 l) = limbs_value (take 4 l) + two256 * limbs_value (drop 4 l)"
    unfolding limbs_value_append two256_def using assms by simp
  moreover have "limbs_value (take 4 l) < two256" using assms by (intro limbs_value_4) simp
  ultimately show ?thesis using assms by (simp only: append_take_drop_id) (simp add: two256_def)
qed

lemma propagate_carry_4:
  assumes "length b = 4"
  shows "length (fst (propagate_carry b True)) = 4 \<and>
    limbs_value (fst (propagate_carry b True)) = (limbs_value b + 1) mod two256 \<and>
    snd (propagate_carry b True) = (two256 \<le> limbs_value b + 1)"
proof -
  obtain r c where p: "propagate_carry b True = (r, c)" by (cases "propagate_carry b True")
  note v = propagate_carry_value [OF p]
  have "limbs_value r < two256" using v assms by (intro limbs_value_4) simp
  moreover have "limbs_value b + 1 = limbs_value r + of_bool c * two256"
    using v assms by (simp add: two256_def)
  ultimately show ?thesis using p v assms by (cases c) simp_all
qed

context ruint
begin

text \<open>Every accepted control word computes what it asks for; every other one fails.\<close>

lemma bigint_impl_spec:
  assumes len: "length a = 4" "length b = 4" and ok: "bigint_control_ok x12"
  shows "\<exists>r of'. bigint_impl U a b x12 = Inr (r, of') \<and> length r = 4 \<and>
           (limbs_value r, of') = bigint_spec x12 (limbs_value a) (limbs_value b)"
proof -
  note a = limbs_value_4 [OF len(1)] and b = limbs_value_4 [OF len(2)]
  have impl: "bigint_impl U a b x12 =
      (let c = bit x12 6 in
       if bit x12 0 then Inr (carrying_add_n U a b c)
       else if bit x12 1 then Inr (borrowing_sub_n U a b c)
       else if bit x12 2 then Inr (borrowing_sub_n U b a c)
       else if bit x12 3 then Inr (overflowing_mul U a b)
       else if bit x12 4 then Inr (take 4 (drop 4 (widening_mul U a b)), False)
       else if bit x12 5 then Inr (a, a = b)
       else if c then Inr (propagate_carry b c) else Inr (b, False))"
    using ok control_checks [of x12] control_some_bit [OF ok]
    unfolding bigint_impl_def Let_def and_push_bit_one
    by (auto simp: code_consts)
  have high: "limbs_value (take 4 (drop 4 (widening_mul U a b))) = limbs_value a * limbs_value b div two256"
    using limbs_high [of "widening_mul U a b"] widening_mul [OF len] by simp
  have copy: "length (fst (propagate_carry b True)) = 4"
    "limbs_value (fst (propagate_carry b True)) = (limbs_value b + 1) mod two256"
    "snd (propagate_carry b True) = (two256 \<le> limbs_value b + 1)"
    using propagate_carry_4 [OF len(2)] by simp_all
  have eq: "(a = b) = (limbs_value a = limbs_value b)" using limbs_value_inj [of a b] len by auto
  have res: "(\<exists>r of'. Inr p = Inr (r, of') \<and> length r = 4 \<and> (limbs_value r, of') = q) \<longleftrightarrow>
      length (fst p) = 4 \<and> limbs_value (fst p) = fst q \<and> snd p = snd q" for p and q :: "nat \<times> bool"
    by (cases p; cases q) auto
  show ?thesis
    unfolding impl Let_def bigint_spec_def if_distrib [of Inr, symmetric] res
    using carrying_add [OF len] borrowing_sub [OF len] borrowing_sub [OF len(2,1)]
      overflowing_mul [OF len] widening_mul [OF len] high copy len a b eq
    by (simp add: mod_less)
qed

lemma bigint_impl_eq:
  assumes "length a = 4" "length b = 4"
  shows "bigint_impl U a b x12 =
    (if bigint_control_ok x12 then
       (let (v, of') = bigint_spec x12 (limbs_value a) (limbs_value b) in Inr (limbs_of 4 v, of'))
     else Inl AssertFailed)"
proof (cases "bigint_control_ok x12")
  case True
  from bigint_impl_spec [OF assms True] obtain r of' where
    r: "bigint_impl U a b x12 = Inr (r, of')" "length r = 4"
    "bigint_spec x12 (limbs_value a) (limbs_value b) = (limbs_value r, of')" by metis
  with True show ?thesis by (simp add: limbs_of_value)
next
  case False
  then show ?thesis using control_checks [of x12]
    by (auto simp: bigint_impl_def Let_def guardR_def)
qed

end

text \<open>
  C11. The 256-bit delegation computes what its control word asks for: with one operation bit
  set, the sum, difference, reversed difference, low or high half of the product, comparison
  or copy of the two numbers, with its carry, borrow or overflow flag; with any other control
  word it panics. The crate \<open>ruint\<close> is assumed to do what its documentation says.
\<close>

theorem bigint_impl_correct:
  assumes "ruint U" and "length a = 4" and "length b = 4"
  shows "bigint_impl U a b x12 =
    (if bigint_control_ok x12 then
       (let (v, of') = bigint_spec x12 (limbs_value a) (limbs_value b) in Inr (limbs_of 4 v, of'))
     else Inl AssertFailed)"
  using assms(2,3) by (rule ruint.bigint_impl_eq [OF assms(1)])

theorem bigint_impl_correct_witness:
  "bigint_impl ruint_model [5, 0, 0, 1] [7, 0, 0, 1] 66 = Inr (limbs_of 4 (two256 - 3), True)"
proof -
  have "bigint_control_ok 66" by code_simp
  then show ?thesis
    using bigint_impl_correct [OF ruint_model.ruint_axioms, of "[5, 0, 0, 1]" "[7, 0, 0, 1]" 66]
    by (simp add: bigint_spec_def two256_def)
qed

end
