(* ===== verification/VmInstr.thy ===== *)
theory VmInstr
  imports Snapshot Mersenne31 Bigint
begin

text \<open>
  The instruction handlers of the machine (\<open>vm/instructions/*/mod.rs\<close>). A handler that
  touches registers only is a function of the machine state; one that reads or writes memory
  or the non-determinism source works on the \<open>world\<close>, the record of the mutable references
  the Rust handler gets. A \<open>panic!\<close> is a fault; the execution observer \<open>()\<close> does nothing and
  is not modelled.
\<close>

section \<open>The environment of a run\<close>

text \<open>
  The trait \<open>NonDeterminismCSRSource\<close>: a write may peek into memory, through the function
  passed first.
\<close>

record 'n nd_ops =
  source_read :: "'n \<Rightarrow> (u32 \<times> 'n) res"
  source_write :: "(u32 \<Rightarrow> u32 res) \<Rightarrow> u32 \<Rightarrow> 'n \<Rightarrow> 'n res"

text \<open>The source \<open>()\<close> answers 0 and ignores writes.\<close>

definition unit_nd_ops :: "unit nd_ops" where
  "unit_nd_ops = \<lparr> source_read = (\<lambda>u. Inr (0, u)), source_write = (\<lambda>peek v u. Inr u) \<rparr>"

text \<open>
  The generic parameters of \<open>VM::run_step\<close> (counters \<open>C\<close>, memory \<open>R\<close>, snapshotter \<open>S\<close>,
  source \<open>ND\<close>) and the crate \<open>ruint\<close>, and its mutable arguments.
\<close>

record ('c, 'm, 's, 'n) vm_env =
  vm_cfg :: cfg
  vm_counters :: "'c counter_ops"
  vm_ram :: "'m ram_ops"
  vm_snap :: "('c, 's) snapshotter_ops"
  vm_nd :: "'n nd_ops"
  vm_ruint :: ruint_ops

record ('c, 'm, 's, 'n) world =
  st :: "'c state"
  ram :: 'm
  snap :: 's
  nd :: 'n

section \<open>Operations on two operands\<close>

text \<open>
  The block \<open>if USE_IMM\<close> the handlers with an immediate form share: the immediate, with a
  touch of \<open>x0\<close> in the place of the second read, or the second register.
\<close>

definition second_operand ::
  "cfg \<Rightarrow> bool \<Rightarrow> instruction \<Rightarrow> 'c state \<Rightarrow> (u32 \<times> 'c state) res" where
  "second_operand c use_imm instr s =
     (if use_imm then bindR (touch_x0 c 1 s) (\<lambda>s. Inr (imm instr, s))
      else read_register c 1 (rs2 instr) s)"

definition add_op :: "cfg \<Rightarrow> 'c counter_ops \<Rightarrow> bool \<Rightarrow> instruction \<Rightarrow> 'c state \<Rightarrow> 'c state res" where
  "add_op c C use_imm instr s =
     bindR (read_register c 0 (rs1 instr) s) (\<lambda>(rs1_value, s).
     bindR (second_operand c use_imm instr s) (\<lambda>(rs2_value, s).
     let v = (rs1_value + rs2_value) in
     bindR (write_register c 2 (rd instr) v s) (\<lambda>(_, s).
     increment_family_counter C ADD_SUB_LUI_AUIPC_MOP_CIRCUIT_FAMILY_IDX (default_increase_pc s))))"

definition and_op :: "cfg \<Rightarrow> 'c counter_ops \<Rightarrow> bool \<Rightarrow> instruction \<Rightarrow> 'c state \<Rightarrow> 'c state res" where
  "and_op c C use_imm instr s =
     bindR (read_register c 0 (rs1 instr) s) (\<lambda>(rs1_value, s).
     bindR (second_operand c use_imm instr s) (\<lambda>(rs2_value, s).
     let v = (rs1_value AND rs2_value) in
     bindR (write_register c 2 (rd instr) v s) (\<lambda>(_, s).
     increment_family_counter C SHIFT_BINARY_CSR_CIRCUIT_FAMILY_IDX (default_increase_pc s))))"

definition or_op :: "cfg \<Rightarrow> 'c counter_ops \<Rightarrow> bool \<Rightarrow> instruction \<Rightarrow> 'c state \<Rightarrow> 'c state res" where
  "or_op c C use_imm instr s =
     bindR (read_register c 0 (rs1 instr) s) (\<lambda>(rs1_value, s).
     bindR (second_operand c use_imm instr s) (\<lambda>(rs2_value, s).
     let v = (rs1_value OR rs2_value) in
     bindR (write_register c 2 (rd instr) v s) (\<lambda>(_, s).
     increment_family_counter C SHIFT_BINARY_CSR_CIRCUIT_FAMILY_IDX (default_increase_pc s))))"

definition xor_op :: "cfg \<Rightarrow> 'c counter_ops \<Rightarrow> bool \<Rightarrow> instruction \<Rightarrow> 'c state \<Rightarrow> 'c state res" where
  "xor_op c C use_imm instr s =
     bindR (read_register c 0 (rs1 instr) s) (\<lambda>(rs1_value, s).
     bindR (second_operand c use_imm instr s) (\<lambda>(rs2_value, s).
     let v = (rs1_value XOR rs2_value) in
     bindR (write_register c 2 (rd instr) v s) (\<lambda>(_, s).
     increment_family_counter C SHIFT_BINARY_CSR_CIRCUIT_FAMILY_IDX (default_increase_pc s))))"

definition sll :: "cfg \<Rightarrow> 'c counter_ops \<Rightarrow> bool \<Rightarrow> instruction \<Rightarrow> 'c state \<Rightarrow> 'c state res" where
  "sll c C use_imm instr s =
     bindR (read_register c 0 (rs1 instr) s) (\<lambda>(rs1_value, s).
     bindR (second_operand c use_imm instr s) (\<lambda>(rs2_value, s).
     let v = (push_bit (unat rs2_value mod 32) rs1_value) in
     bindR (write_register c 2 (rd instr) v s) (\<lambda>(_, s).
     increment_family_counter C SHIFT_BINARY_CSR_CIRCUIT_FAMILY_IDX (default_increase_pc s))))"

definition srl :: "cfg \<Rightarrow> 'c counter_ops \<Rightarrow> bool \<Rightarrow> instruction \<Rightarrow> 'c state \<Rightarrow> 'c state res" where
  "srl c C use_imm instr s =
     bindR (read_register c 0 (rs1 instr) s) (\<lambda>(rs1_value, s).
     bindR (second_operand c use_imm instr s) (\<lambda>(rs2_value, s).
     let v = (drop_bit (unat rs2_value mod 32) rs1_value) in
     bindR (write_register c 2 (rd instr) v s) (\<lambda>(_, s).
     increment_family_counter C SHIFT_BINARY_CSR_CIRCUIT_FAMILY_IDX (default_increase_pc s))))"

definition sra :: "cfg \<Rightarrow> 'c counter_ops \<Rightarrow> bool \<Rightarrow> instruction \<Rightarrow> 'c state \<Rightarrow> 'c state res" where
  "sra c C use_imm instr s =
     bindR (read_register c 0 (rs1 instr) s) (\<lambda>(rs1_value, s).
     bindR (second_operand c use_imm instr s) (\<lambda>(rs2_value, s).
     let v = (signed_drop_bit (unat rs2_value mod 32) rs1_value) in
     bindR (write_register c 2 (rd instr) v s) (\<lambda>(_, s).
     increment_family_counter C SHIFT_BINARY_CSR_CIRCUIT_FAMILY_IDX (default_increase_pc s))))"

definition slt :: "cfg \<Rightarrow> 'c counter_ops \<Rightarrow> bool \<Rightarrow> instruction \<Rightarrow> 'c state \<Rightarrow> 'c state res" where
  "slt c C use_imm instr s =
     bindR (read_register c 0 (rs1 instr) s) (\<lambda>(rs1_value, s).
     bindR (second_operand c use_imm instr s) (\<lambda>(rs2_value, s).
     let v = (if sint rs1_value < sint rs2_value then 1 else 0) in
     bindR (write_register c 2 (rd instr) v s) (\<lambda>(_, s).
     increment_family_counter C JUMP_BRANCH_SLT_CIRCUIT_FAMILY_IDX (default_increase_pc s))))"

definition sltu :: "cfg \<Rightarrow> 'c counter_ops \<Rightarrow> bool \<Rightarrow> instruction \<Rightarrow> 'c state \<Rightarrow> 'c state res" where
  "sltu c C use_imm instr s =
     bindR (read_register c 0 (rs1 instr) s) (\<lambda>(rs1_value, s).
     bindR (second_operand c use_imm instr s) (\<lambda>(rs2_value, s).
     let v = (if rs1_value < rs2_value then 1 else 0) in
     bindR (write_register c 2 (rd instr) v s) (\<lambda>(_, s).
     increment_family_counter C JUMP_BRANCH_SLT_CIRCUIT_FAMILY_IDX (default_increase_pc s))))"

definition sub_op :: "cfg \<Rightarrow> 'c counter_ops \<Rightarrow> instruction \<Rightarrow> 'c state \<Rightarrow> 'c state res" where
  "sub_op c C instr s =
     bindR (read_register c 0 (rs1 instr) s) (\<lambda>(rs1_value, s).
     bindR (read_register c 1 (rs2 instr) s) (\<lambda>(rs2_value, s).
     let v = (rs1_value - rs2_value) in
     bindR (write_register c 2 (rd instr) v s) (\<lambda>(_, s).
     increment_family_counter C ADD_SUB_LUI_AUIPC_MOP_CIRCUIT_FAMILY_IDX (default_increase_pc s))))"

definition mul :: "cfg \<Rightarrow> 'c counter_ops \<Rightarrow> instruction \<Rightarrow> 'c state \<Rightarrow> 'c state res" where
  "mul c C instr s =
     bindR (read_register c 0 (rs1 instr) s) (\<lambda>(rs1_value, s).
     bindR (read_register c 1 (rs2 instr) s) (\<lambda>(rs2_value, s).
     let v = (rs1_value * rs2_value) in
     bindR (write_register c 2 (rd instr) v s) (\<lambda>(_, s).
     increment_family_counter C MUL_DIV_CIRCUIT_FAMILY_IDX (default_increase_pc s))))"

definition mulhu :: "cfg \<Rightarrow> 'c counter_ops \<Rightarrow> instruction \<Rightarrow> 'c state \<Rightarrow> 'c state res" where
  "mulhu c C instr s =
     bindR (read_register c 0 (rs1 instr) s) (\<lambda>(rs1_value, s).
     bindR (read_register c 1 (rs2 instr) s) (\<lambda>(rs2_value, s).
     let v = (ucast (drop_bit 32 ((ucast rs1_value :: u64) * ucast rs2_value))) in
     bindR (write_register c 2 (rd instr) v s) (\<lambda>(_, s).
     increment_family_counter C MUL_DIV_CIRCUIT_FAMILY_IDX (default_increase_pc s))))"

definition divu :: "cfg \<Rightarrow> 'c counter_ops \<Rightarrow> instruction \<Rightarrow> 'c state \<Rightarrow> 'c state res" where
  "divu c C instr s =
     bindR (read_register c 0 (rs1 instr) s) (\<lambda>(rs1_value, s).
     bindR (read_register c 1 (rs2 instr) s) (\<lambda>(rs2_value, s).
     let v = (if rs2_value = 0 then 0xffffffff else rs1_value div rs2_value) in
     bindR (write_register c 2 (rd instr) v s) (\<lambda>(_, s).
     increment_family_counter C MUL_DIV_CIRCUIT_FAMILY_IDX (default_increase_pc s))))"

definition remu :: "cfg \<Rightarrow> 'c counter_ops \<Rightarrow> instruction \<Rightarrow> 'c state \<Rightarrow> 'c state res" where
  "remu c C instr s =
     bindR (read_register c 0 (rs1 instr) s) (\<lambda>(rs1_value, s).
     bindR (read_register c 1 (rs2 instr) s) (\<lambda>(rs2_value, s).
     let v = (if rs2_value = 0 then rs1_value else rs1_value mod rs2_value) in
     bindR (write_register c 2 (rd instr) v s) (\<lambda>(_, s).
     increment_family_counter C MUL_DIV_CIRCUIT_FAMILY_IDX (default_increase_pc s))))"

text \<open>
  The modular operations reduce their operands (any \<open>u32\<close>) into the field, operate, and
  write the canonical representation.
\<close>

definition mop_addmod :: "cfg \<Rightarrow> 'c counter_ops \<Rightarrow> instruction \<Rightarrow> 'c state \<Rightarrow> 'c state res" where
  "mop_addmod c C instr s =
     bindR (read_register c 0 (rs1 instr) s) (\<lambda>(rs1_value, s).
     bindR (read_register c 1 (rs2 instr) s) (\<lambda>(rs2_value, s).
     bindR (from_nonreduced_u32 c rs1_value) (\<lambda>operand_1.
     bindR (from_nonreduced_u32 c rs2_value) (\<lambda>operand_2.
     let v = to_reduced_u32 (add_mod operand_1 operand_2) in
     bindR (write_register c 2 (rd instr) v s) (\<lambda>(_, s).
     increment_family_counter C ADD_SUB_LUI_AUIPC_MOP_CIRCUIT_FAMILY_IDX (default_increase_pc s))))))"

definition mop_submod :: "cfg \<Rightarrow> 'c counter_ops \<Rightarrow> instruction \<Rightarrow> 'c state \<Rightarrow> 'c state res" where
  "mop_submod c C instr s =
     bindR (read_register c 0 (rs1 instr) s) (\<lambda>(rs1_value, s).
     bindR (read_register c 1 (rs2 instr) s) (\<lambda>(rs2_value, s).
     bindR (from_nonreduced_u32 c rs1_value) (\<lambda>operand_1.
     bindR (from_nonreduced_u32 c rs2_value) (\<lambda>operand_2.
     let v = to_reduced_u32 (sub_mod operand_1 operand_2) in
     bindR (write_register c 2 (rd instr) v s) (\<lambda>(_, s).
     increment_family_counter C ADD_SUB_LUI_AUIPC_MOP_CIRCUIT_FAMILY_IDX (default_increase_pc s))))))"

definition mop_mulmod :: "cfg \<Rightarrow> 'c counter_ops \<Rightarrow> instruction \<Rightarrow> 'c state \<Rightarrow> 'c state res" where
  "mop_mulmod c C instr s =
     bindR (read_register c 0 (rs1 instr) s) (\<lambda>(rs1_value, s).
     bindR (read_register c 1 (rs2 instr) s) (\<lambda>(rs2_value, s).
     bindR (from_nonreduced_u32 c rs1_value) (\<lambda>operand_1.
     bindR (from_nonreduced_u32 c rs2_value) (\<lambda>operand_2.
     let v = to_reduced_u32 (mul_mod operand_1 operand_2) in
     bindR (write_register c 2 (rd instr) v s) (\<lambda>(_, s).
     increment_family_counter C ADD_SUB_LUI_AUIPC_MOP_CIRCUIT_FAMILY_IDX (default_increase_pc s))))))"

section \<open>Upper immediates and jumps\<close>

definition lui :: "cfg \<Rightarrow> 'c counter_ops \<Rightarrow> instruction \<Rightarrow> 'c state \<Rightarrow> 'c state res" where
  "lui c C instr s =
     debug_assert (debug_assertions c) (rs1 instr = 0)
     (debug_assert (debug_assertions c) (rs2 instr = 0)
     (bindR (touch_x0 c 1 s) (\<lambda>s.
      let v = imm instr in
      bindR (write_register c 2 (rd instr) v s) (\<lambda>(_, s).
      increment_family_counter C ADD_SUB_LUI_AUIPC_MOP_CIRCUIT_FAMILY_IDX (default_increase_pc s)))))"

definition auipc :: "cfg \<Rightarrow> 'c counter_ops \<Rightarrow> instruction \<Rightarrow> 'c state \<Rightarrow> 'c state res" where
  "auipc c C instr s =
     debug_assert (debug_assertions c) (rs1 instr = 0)
     (debug_assert (debug_assertions c) (rs2 instr = 0)
     (bindR (touch_x0 c 1 s) (\<lambda>s.
      let v = pc s + imm instr in
      bindR (write_register c 2 (rd instr) v s) (\<lambda>(_, s).
      increment_family_counter C ADD_SUB_LUI_AUIPC_MOP_CIRCUIT_FAMILY_IDX (default_increase_pc s)))))"

definition jal :: "cfg \<Rightarrow> 'c counter_ops \<Rightarrow> instruction \<Rightarrow> 'c state \<Rightarrow> 'c state res" where
  "jal c C instr s =
     debug_assert (debug_assertions c) (rs1 instr = 0)
     (debug_assert (debug_assertions c) (rs2 instr = 0)
     (bindR (touch_x0 c 1 s) (\<lambda>s.
      let v = pc s + 4; jump_address = pc s + imm instr in
      guardR (jump_address AND 0x3 = 0) UnalignedJump
      (let s = s \<lparr> pc := jump_address \<rparr> in
       bindR (write_register c 2 (rd instr) v s) (\<lambda>(_, s).
       increment_family_counter C JUMP_BRANCH_SLT_CIRCUIT_FAMILY_IDX s)))))"

definition jalr :: "cfg \<Rightarrow> 'c counter_ops \<Rightarrow> instruction \<Rightarrow> 'c state \<Rightarrow> 'c state res" where
  "jalr c C instr s =
     debug_assert (debug_assertions c) (rs2 instr = 0)
     (bindR (read_register c 0 (rs1 instr) s) (\<lambda>(rs1_value, s).
      bindR (touch_x0 c 1 s) (\<lambda>s.
      let v = pc s + 4; jump_address = (rs1_value + imm instr) AND NOT 0x1 in
      guardR (jump_address AND 0x3 = 0) UnalignedJump
      (let s = s \<lparr> pc := jump_address \<rparr> in
       bindR (write_register c 2 (rd instr) v s) (\<lambda>(_, s).
       increment_family_counter C JUMP_BRANCH_SLT_CIRCUIT_FAMILY_IDX s)))))"

text \<open>
  The branch condition travels in \<open>rd\<close>; its lowest bit negates. The last arm of the
  \<open>match\<close> is \<open>unreachable_unchecked\<close>.
\<close>

definition branch_condition :: "u8 \<Rightarrow> u32 \<Rightarrow> u32 \<Rightarrow> bool res" where
  "branch_condition funct3 rs1_value rs2_value =
     (let negate = 0 < funct3 AND 0b001; k = funct3 AND 0b110 in
      bindR (if k = 0b000 then Inr (rs1_value = rs2_value)
             else if k = 0b100 then Inr (sint rs1_value < sint rs2_value)
             else if k = 0b110 then Inr (rs1_value < rs2_value)
             else Inl UndefinedBehaviour)
        (\<lambda>should_jump. Inr (if negate then \<not> should_jump else should_jump)))"

definition branch :: "cfg \<Rightarrow> 'c counter_ops \<Rightarrow> instruction \<Rightarrow> 'c state \<Rightarrow> 'c state res" where
  "branch c C instr s =
     bindR (read_register c 0 (rs1 instr) s) (\<lambda>(rs1_value, s).
     bindR (read_register c 1 (rs2 instr) s) (\<lambda>(rs2_value, s).
     let jump_address = pc s + imm instr in
     bindR (branch_condition (rd instr) rs1_value rs2_value) (\<lambda>should_jump.
     bindR (if should_jump
            then guardR (jump_address AND 0x3 = 0) UnalignedJump (Inr (s \<lparr> pc := jump_address \<rparr>))
            else Inr (default_increase_pc s)) (\<lambda>s.
     bindR (write_register c 2 0 0 s) (\<lambda>(_, s).
     increment_family_counter C JUMP_BRANCH_SLT_CIRCUIT_FAMILY_IDX s)))))"

end
