(* ===== verification/VmMemory.thy ===== *)
theory VmMemory
  imports VmInstr
begin

text \<open>
  The handlers that touch memory or the non-determinism source
  (\<open>vm/instructions/memory/mod.rs\<close> and \<open>vm/instructions/zicsr/mod.rs\<close>): every access to
  memory is appended to the log with the value and timestamp found there.
\<close>

section \<open>Words\<close>

definition sw ::
  "('c, 'm, 's, 'n) vm_env \<Rightarrow> instruction \<Rightarrow> ('c, 'm, 's, 'n) world \<Rightarrow> ('c, 'm, 's, 'n) world res" where
  "sw E instr w =
     (let c = vm_cfg E in
      bindR (read_register c 0 (rs1 instr) (st w)) (\<lambda>(rs1_value, s).
      bindR (read_register c 1 (rs2 instr) s) (\<lambda>(rs2_value, s).
      let address = rs1_value + imm instr in
      guardR (address mod 4 = 0) UnalignedAccess
      (bindR (write_word (vm_ram E) address rs2_value (timestamp s OR 2) (ram w))
         (\<lambda>((read_timestamp, old_value), m).
       bindR (append_memory_read (vm_snap E) address old_value read_timestamp (timestamp s OR 2) (snap w)) (\<lambda>sn.
       bindR (increment_family_counter (vm_counters E) LOAD_STORE_WORD_ONLY_CIRCUIT_FAMILY_IDX
                (default_increase_pc s)) (\<lambda>s.
       Inr (w \<lparr> st := s, ram := m, snap := sn \<rparr>))))))))"

definition lw ::
  "('c, 'm, 's, 'n) vm_env \<Rightarrow> instruction \<Rightarrow> ('c, 'm, 's, 'n) world \<Rightarrow> ('c, 'm, 's, 'n) world res" where
  "lw E instr w =
     (let c = vm_cfg E in
      bindR (read_register c 0 (rs1 instr) (st w)) (\<lambda>(rs1_value, s).
      let address = rs1_value + imm instr in
      guardR (address mod 4 = 0) UnalignedAccess
      (bindR (read_word (vm_ram E) address (timestamp s OR 1) (ram w))
         (\<lambda>((read_timestamp, old_value), m).
       bindR (write_register c 2 (rd instr) old_value s) (\<lambda>(_, s).
       bindR (append_memory_read (vm_snap E) address old_value read_timestamp (timestamp s OR 1) (snap w)) (\<lambda>sn.
       bindR (increment_family_counter (vm_counters E) LOAD_STORE_WORD_ONLY_CIRCUIT_FAMILY_IDX
                (default_increase_pc s)) (\<lambda>s.
       Inr (w \<lparr> st := s, ram := m, snap := sn \<rparr>))))))))"

section \<open>Parts of words\<close>

text \<open>
  The word a sub-word store writes: the value shifted to its place, over the bytes of the
  existing word that the mask keeps. The masks are the arms of the \<open>match address % 4\<close>,
  whose last one is \<open>unreachable_unchecked\<close>.
\<close>

definition sh_mask :: "u32 \<Rightarrow> u32 res" where
  "sh_mask address =
     (if address mod 4 = 0 then Inr 0xffff0000
      else if address mod 4 = 2 then Inr 0x0000ffff
      else Inl UndefinedBehaviour)"

definition sb_mask :: "u32 \<Rightarrow> u32 res" where
  "sb_mask address =
     (if address mod 4 = 0 then Inr 0xffffff00
      else if address mod 4 = 1 then Inr 0xffff00ff
      else if address mod 4 = 2 then Inr 0xff00ffff
      else if address mod 4 = 3 then Inr 0x00ffffff
      else Inl UndefinedBehaviour)"

definition merge_subword :: "u32 \<Rightarrow> u32 \<Rightarrow> u32 \<Rightarrow> u32 \<Rightarrow> u32" where
  "merge_subword address v existing_value m =
     push_bit (unat ((address mod 4) * 8)) v OR (existing_value AND m)"

definition sh ::
  "('c, 'm, 's, 'n) vm_env \<Rightarrow> instruction \<Rightarrow> ('c, 'm, 's, 'n) world \<Rightarrow> ('c, 'm, 's, 'n) world res" where
  "sh E instr w =
     (let c = vm_cfg E in
      bindR (read_register c 0 (rs1 instr) (st w)) (\<lambda>(rs1_value, s).
      bindR (read_register c 1 (rs2 instr) s) (\<lambda>(rs2_value, s).
      let address = rs1_value + imm instr in
      guardR (address mod 2 = 0) UnalignedAccess
      (let aligned_address = address AND NOT 3; v = rs2_value AND 0x0000ffff in
       bindR (peek_word (vm_ram E) aligned_address (ram w)) (\<lambda>existing_value.
       bindR (sh_mask address) (\<lambda>mask'.
       let new_value = merge_subword address v existing_value mask' in
       bindR (write_word (vm_ram E) aligned_address new_value (timestamp s OR 2) (ram w))
         (\<lambda>((read_timestamp, old_value), m).
       bindR (append_memory_read (vm_snap E) aligned_address old_value read_timestamp
                (timestamp s OR 2) (snap w)) (\<lambda>sn.
       bindR (increment_family_counter (vm_counters E) LOAD_STORE_SUBWORD_ONLY_CIRCUIT_FAMILY_IDX
                (default_increase_pc s)) (\<lambda>s.
       Inr (w \<lparr> st := s, ram := m, snap := sn \<rparr>))))))))))"

definition sb ::
  "('c, 'm, 's, 'n) vm_env \<Rightarrow> instruction \<Rightarrow> ('c, 'm, 's, 'n) world \<Rightarrow> ('c, 'm, 's, 'n) world res" where
  "sb E instr w =
     (let c = vm_cfg E in
      bindR (read_register c 0 (rs1 instr) (st w)) (\<lambda>(rs1_value, s).
      bindR (read_register c 1 (rs2 instr) s) (\<lambda>(rs2_value, s).
      let address = rs1_value + imm instr;
          aligned_address = address AND NOT 3; v = rs2_value AND 0x000000ff in
       bindR (peek_word (vm_ram E) aligned_address (ram w)) (\<lambda>existing_value.
       bindR (sb_mask address) (\<lambda>mask'.
       let new_value = merge_subword address v existing_value mask' in
       bindR (write_word (vm_ram E) aligned_address new_value (timestamp s OR 2) (ram w))
         (\<lambda>((read_timestamp, old_value), m).
       bindR (append_memory_read (vm_snap E) aligned_address old_value read_timestamp
                (timestamp s OR 2) (snap w)) (\<lambda>sn.
       bindR (increment_family_counter (vm_counters E) LOAD_STORE_SUBWORD_ONLY_CIRCUIT_FAMILY_IDX
                (default_increase_pc s)) (\<lambda>s.
       Inr (w \<lparr> st := s, ram := m, snap := sn \<rparr>)))))))))"

text \<open>The casts of a sub-word load: shift down, then truncate and extend.\<close>

definition halfword_of :: "bool \<Rightarrow> u32 \<Rightarrow> u32 \<Rightarrow> u32" where
  "halfword_of sign address old_value =
     (let v = drop_bit (unat ((address mod 4) * 8)) old_value in
      if sign then scast (ucast v :: u16) else ucast (ucast v :: u16))"

definition byte_of :: "bool \<Rightarrow> u32 \<Rightarrow> u32 \<Rightarrow> u32" where
  "byte_of sign address old_value =
     (let v = drop_bit (unat ((address mod 4) * 8)) old_value in
      if sign then scast (ucast v :: u8) else ucast (ucast v :: u8))"

definition lh ::
  "('c, 'm, 's, 'n) vm_env \<Rightarrow> bool \<Rightarrow> instruction \<Rightarrow>
   ('c, 'm, 's, 'n) world \<Rightarrow> ('c, 'm, 's, 'n) world res" where
  "lh E sign instr w =
     (let c = vm_cfg E in
      bindR (read_register c 0 (rs1 instr) (st w)) (\<lambda>(rs1_value, s).
      let address = rs1_value + imm instr in
      guardR (address mod 2 = 0) UnalignedAccess
      (let aligned_address = address AND NOT 3 in
       bindR (read_word (vm_ram E) aligned_address (timestamp s OR 1) (ram w))
         (\<lambda>((read_timestamp, old_value), m).
       bindR (write_register c 2 (rd instr) (halfword_of sign address old_value) s) (\<lambda>(_, s).
       bindR (append_memory_read (vm_snap E) aligned_address old_value read_timestamp
                (timestamp s OR 1) (snap w)) (\<lambda>sn.
       bindR (increment_family_counter (vm_counters E) LOAD_STORE_SUBWORD_ONLY_CIRCUIT_FAMILY_IDX
                (default_increase_pc s)) (\<lambda>s.
       Inr (w \<lparr> st := s, ram := m, snap := sn \<rparr>))))))))"

definition lb ::
  "('c, 'm, 's, 'n) vm_env \<Rightarrow> bool \<Rightarrow> instruction \<Rightarrow>
   ('c, 'm, 's, 'n) world \<Rightarrow> ('c, 'm, 's, 'n) world res" where
  "lb E sign instr w =
     (let c = vm_cfg E in
      bindR (read_register c 0 (rs1 instr) (st w)) (\<lambda>(rs1_value, s).
      let address = rs1_value + imm instr; aligned_address = address AND NOT 3 in
       bindR (read_word (vm_ram E) aligned_address (timestamp s OR 1) (ram w))
         (\<lambda>((read_timestamp, old_value), m).
       bindR (write_register c 2 (rd instr) (byte_of sign address old_value) s) (\<lambda>(_, s).
       bindR (append_memory_read (vm_snap E) aligned_address old_value read_timestamp
                (timestamp s OR 1) (snap w)) (\<lambda>sn.
       bindR (increment_family_counter (vm_counters E) LOAD_STORE_SUBWORD_ONLY_CIRCUIT_FAMILY_IDX
                (default_increase_pc s)) (\<lambda>s.
       Inr (w \<lparr> st := s, ram := m, snap := sn \<rparr>)))))))"

section \<open>Control and status registers\<close>

definition marker :: "cfg \<Rightarrow> 'c counter_ops \<Rightarrow> instruction \<Rightarrow> 'c state \<Rightarrow> 'c state res" where
  "marker c C instr s =
     bindR (read_register c 0 (rs1 instr) s) (\<lambda>(_, s).
     bindR (touch_x0 c 1 s) (\<lambda>s.
     bindR (write_register c 2 (rd instr) 0 s) (\<lambda>(_, s).
     increment_family_counter C SHIFT_BINARY_CSR_CIRCUIT_FAMILY_IDX (default_increase_pc s))))"

definition nd_read ::
  "('c, 'm, 's, 'n) vm_env \<Rightarrow> instruction \<Rightarrow> ('c, 'm, 's, 'n) world \<Rightarrow> ('c, 'm, 's, 'n) world res" where
  "nd_read E instr w =
     (let c = vm_cfg E in
      debug_assert (debug_assertions c) (rs1 instr = 0)
      (debug_assert (debug_assertions c) (rs2 instr = 0)
      (bindR (touch_x0 c 1 (st w)) (\<lambda>s.
       bindR (source_read (vm_nd E) (nd w)) (\<lambda>(v, n).
       bindR (append_arbitrary_value (vm_snap E) v (snap w)) (\<lambda>sn.
       bindR (write_register c 2 (rd instr) v s) (\<lambda>(_, s).
       bindR (increment_family_counter (vm_counters E) SHIFT_BINARY_CSR_CIRCUIT_FAMILY_IDX
                (default_increase_pc s)) (\<lambda>s.
       Inr (w \<lparr> st := s, snap := sn, nd := n \<rparr>)))))))))"

definition nd_write ::
  "('c, 'm, 's, 'n) vm_env \<Rightarrow> instruction \<Rightarrow> ('c, 'm, 's, 'n) world \<Rightarrow> ('c, 'm, 's, 'n) world res" where
  "nd_write E instr w =
     (let c = vm_cfg E in
      bindR (read_register c 0 (rs1 instr) (st w)) (\<lambda>(rs1_value, s).
      bindR (touch_x0 c 1 s) (\<lambda>s.
      bindR (source_write (vm_nd E) (\<lambda>a. peek_word (vm_ram E) a (ram w)) rs1_value (nd w)) (\<lambda>n.
      bindR (write_register c 2 (rd instr) 0 s) (\<lambda>(_, s).
      bindR (increment_family_counter (vm_counters E) SHIFT_BINARY_CSR_CIRCUIT_FAMILY_IDX
               (default_increase_pc s)) (\<lambda>s.
      Inr (w \<lparr> st := s, nd := n \<rparr>)))))))"

end
