(* ===== verification/Mersenne_Group.thy ===== *)
theory Mersenne_Group
  imports Mersenne31
begin

text \<open>
  The multiplicative group modulo \<open>p = 2 ^ 31 - 1\<close>: 7 is a primitive root, so every non-zero
  residue \<open>a\<close> satisfies \<open>a ^ (p - 1) = 1\<close>. This is what makes the addition chain of
  \<open>Mersenne31Field::inverse\<close>, a power \<open>p - 2\<close>, the inverse. The argument needs no theory of
  primes: the powers of an element of order \<open>p - 1\<close> are \<open>p - 1\<close> distinct residues, that is
  all of them.
\<close>

section \<open>An element of full order\<close>

lemma power_one_mod: "(a :: nat) ^ m mod p = 1 \<Longrightarrow> a ^ (m * k) mod p = 1 mod p"
  by (metis power_mod power_mult power_one)

lemma power_gcd_one:
  assumes "(g :: nat) ^ a mod p = 1" "g ^ b mod p = 1" "0 < a" "1 < p"
  shows "g ^ gcd a b mod p = 1"
proof -
  obtain x y where "a * x = b * y + gcd a b" using bezout_nat [of a b] assms(3) by auto
  then have "g ^ (a * x) = g ^ (b * y) * g ^ gcd a b" by (simp add: power_add)
  then have "g ^ (a * x) mod p = (g ^ (b * y) mod p) * g ^ gcd a b mod p"
    by (simp add: mod_mult_left_eq)
  moreover have "g ^ (a * x) mod p = 1" "g ^ (b * y) mod p = 1"
    using assms power_one_mod by (metis mod_less)+
  ultimately show ?thesis by simp
qed

text \<open>
  A number without divisors up to its square root is coprime to what it does not divide.
\<close>

definition small_prime :: "nat \<Rightarrow> bool" where
  "small_prime q \<longleftrightarrow> 1 < q \<and> q < 361 \<and> list_all (\<lambda>d. d * d \<le> q \<longrightarrow> q mod d \<noteq> 0) [2..<19]"

lemma coprime_small:
  assumes "small_prime q" and "\<not> q dvd (k :: nat)"
  shows "coprime k q"
proof (rule ccontr)
  assume "\<not> coprime k q"
  define d where "d = gcd k q"
  obtain e where e: "q = d * e" unfolding d_def by (metis dvdE gcd_dvd2)
  have q: "1 < q" "q < 361" using assms(1) by (simp_all add: small_prime_def)
  have d1: "d \<noteq> 1" using \<open>\<not> coprime k q\<close> by (simp add: d_def coprime_iff_gcd_eq_1)
  have "e \<noteq> 1" using assms(2) e by (metis d_def gcd_dvd1 mult.right_neutral)
  moreover have "d \<noteq> 0" "e \<noteq> 0" using e q by (auto intro: Nat.gr0I)
  ultimately have de: "2 \<le> d" "2 \<le> e" using d1 by auto
  define f where "f = min d e"
  have f: "2 \<le> f" using de by (simp add: f_def)
  moreover have ff: "f * f \<le> q" unfolding e f_def by (rule mult_le_mono) simp_all
  moreover have "q mod f = 0" by (simp add: f_def min_def e)
  moreover have "f < 19"
  proof (rule ccontr)
    assume "\<not> f < 19"
    then have "19 * 19 \<le> f * f" by (intro mult_le_mono) simp_all
    with ff q show False by simp
  qed
  ultimately have f19: "f \<in> set [2..<19]" and "q mod f = 0"
    by (simp_all only: set_upt atLeastLessThan_iff)
  have "\<forall>i \<in> set [2..<19]. i * i \<le> q \<longrightarrow> q mod i \<noteq> 0"
    using assms(1) unfolding small_prime_def list_all_iff by (elim conjE)
  from bspec [OF this f19] show False using ff \<open>q mod f = 0\<close> by simp
qed

lemma divisor_shares_factor:
  assumes "list_all small_prime qs"
    and "k dvd prod_list qs" and "k \<noteq> (1 :: nat)"
  shows "\<exists>q \<in> set qs. q dvd k"
proof (rule ccontr)
  assume "\<not> ?thesis"
  with assms(1) have "coprime k (prod_list qs)"
  proof (induction qs)
    case (Cons q qs)
    then show ?case by (auto intro: coprime_small)
  qed simp
  with assms(2) have "k dvd 1" by (metis coprime_common_divisor dvd_refl)
  with assms(3) show False by simp
qed

lemma order_full:
  assumes qs: "list_all small_prime qs"
    and N: "N = prod_list qs" "1 < p"
    and full: "(g :: nat) ^ N mod p = 1"
    and primitive: "list_all (\<lambda>q. g ^ (N div q) mod p \<noteq> 1) qs"
    and d: "0 < d" "d < N"
  shows "g ^ d mod p \<noteq> 1"
proof
  assume one: "g ^ d mod p = 1"
  define e where "e = gcd d N"
  have e1: "g ^ e mod p = 1" unfolding e_def by (rule power_gcd_one [OF one full d(1) N(2)])
  have "e \<le> d" using d(1) by (simp add: e_def)
  obtain k where k: "N = e * k" unfolding e_def by (metis dvdE gcd_dvd2)
  with \<open>e \<le> d\<close> d have "k \<noteq> 1" by auto
  moreover have "k dvd prod_list qs" using N(1) k by (metis dvd_triv_right)
  ultimately obtain q where q: "q \<in> set qs" "q dvd k" using divisor_shares_factor [OF qs] by blast
  then obtain j where "k = q * j" by (metis dvdE)
  then have "N div q = e * j" using k q(1) qs by (auto simp: list_all_iff small_prime_def)
  then have "g ^ (N div q) mod p = 1" using power_one_mod [OF e1, of j] N(2) by simp
  with primitive q(1) show False by (auto simp: list_all_iff)
qed

text \<open>An element of order \<open>p - 1\<close> generates all non-zero residues, so all have that exponent.\<close>

lemma fermat_of_full_order:
  assumes full: "(g :: nat) ^ N mod p = 1" and N: "p = Suc N" "1 < N"
    and order: "\<And>d. 0 < d \<Longrightarrow> d < N \<Longrightarrow> g ^ d mod p \<noteq> 1"
    and a: "0 < a" "a < p"
  shows "a ^ N mod p = 1"
proof -
  let ?f = "\<lambda>i. g ^ i mod p"
  have unit: "g ^ (N - i) * g ^ i mod p = 1" if "i < N" for i
    using full that by (simp flip: power_add)
  have nonzero: "?f i \<noteq> 0" if "i < N" for i
    using unit [OF that] by (metis mod_mult_right_eq mult_0_right mod_0 zero_neq_one)
  have no_collision: False if "i < j" "j < N" "?f i = ?f j" for i j
  proof -
    have "g ^ (N - i) * g ^ j = g ^ N * g ^ (j - i)" using that by (simp flip: power_add)
    then have "g ^ (N - i) * g ^ j mod p = g ^ (j - i) mod p"
      using full by (metis mod_mult_left_eq mult_1)
    moreover have "g ^ (N - i) * g ^ j mod p = g ^ (N - i) * g ^ i mod p"
      using that(3) by (metis mod_mult_right_eq)
    ultimately have "g ^ (j - i) mod p = 1" using unit that by simp
    then show False using order [of "j - i"] that by (simp add: less_imp_diff_less)
  qed
  have "inj_on ?f {..<N}"
    by (rule inj_onI) (metis lessThan_iff linorder_neqE_nat no_collision)
  then have "card (?f ` {..<N}) = N" by (simp add: card_image)
  moreover have "?f ` {..<N} \<subseteq> {1..N}"
    using nonzero N by (auto simp: Suc_le_eq less_Suc_eq_le [symmetric])
  ultimately have "?f ` {..<N} = {1..N}" by (intro card_subset_eq) auto
  moreover have "a \<in> {1..N}" using a N by simp
  ultimately have "a \<in> ?f ` {..<N}" by (simp only:)
  then obtain i where "a = g ^ i mod p" by auto
  then have "a ^ N mod p = (g ^ N) ^ i mod p"
    by (metis mult.commute power_mod power_mult)
  also have "\<dots> = (g ^ N mod p) ^ i mod p" by (simp only: power_mod)
  also have "\<dots> = 1" using full N by simp
  finally show ?thesis .
qed

section \<open>The Mersenne prime\<close>

text \<open>Powers modulo \<open>p\<close> by squaring along the binary digits of the exponent.\<close>

fun powm :: "nat \<Rightarrow> num \<Rightarrow> nat" where
  "powm x num.One = x mod P"
| "powm x (num.Bit0 n) = (let y = powm x n in y * y mod P)"
| "powm x (num.Bit1 n) = (let y = powm x n in y * y mod P * x mod P)"

lemma square_mod: "(a mod p) * (a mod p) mod p = a * a mod (p :: nat)"
  "(a mod p) * (a mod p) mod p * x mod p = a * a * x mod (p :: nat)"
  by (simp_all add: mod_simps)

lemma powm_eq: "x ^ numeral n mod P = powm x n"
proof (induction n)
  case (Bit0 n)
  have "x ^ numeral (num.Bit0 n) = x ^ numeral n * x ^ numeral n"
    by (simp only: numeral_Bit0 power_add)
  then show ?case by (simp only: powm.simps Let_def Bit0 [symmetric] square_mod)
next
  case (Bit1 n)
  have "x ^ numeral (num.Bit1 n) = x ^ numeral n * x ^ numeral n * x"
    by (simp only: numeral_Bit1 power_add power_one_right)
  then show ?case unfolding powm.simps Let_def Bit1 [symmetric] square_mod(2) by (rule arg_cong)
qed simp

definition group_factors :: "nat list" where
  "group_factors = [2, 3, 3, 7, 11, 31, 151, 331]"

lemma group_factors_prime:
  "list_all small_prime group_factors"
  by (simp add: group_factors_def small_prime_def upt_rec)

lemma cofactors:
  "2147483646 div 2 = (1073741823 :: nat)" "2147483646 div 3 = (715827882 :: nat)"
  "2147483646 div 7 = (306783378 :: nat)" "2147483646 div 11 = (195225786 :: nat)"
  "2147483646 div 31 = (69273666 :: nat)" "2147483646 div 151 = (14221746 :: nat)"
  "2147483646 div 331 = (6487866 :: nat)"
  by simp_all

lemma seven_full: "7 ^ 2147483646 mod P = (1 :: nat)"
  unfolding powm_eq by simp

lemma seven_primitive: "list_all (\<lambda>q. 7 ^ (2147483646 div q) mod P \<noteq> 1) group_factors"
  unfolding group_factors_def list.pred_inject cofactors powm_eq by simp

lemma group_order: "2147483646 = prod_list group_factors"
  by (simp add: group_factors_def)

lemma seven_order: "0 < d \<Longrightarrow> d < 2147483646 \<Longrightarrow> 7 ^ d mod P \<noteq> 1"
  by (rule order_full [OF group_factors_prime group_order _ seven_full seven_primitive]) simp_all

lemma mersenne_fermat: "0 < a \<Longrightarrow> a < P \<Longrightarrow> a ^ 2147483646 mod P = 1"
  by (rule fermat_of_full_order [OF seven_full _ _ seven_order]) simp_all

text \<open>Every non-zero residue has an inverse, so there are no zero divisors.\<close>

lemma mersenne_inverse:
  assumes "0 < a" "a < P"
  shows "a * a ^ 2147483645 mod P = 1"
proof -
  have "a * a ^ 2147483645 = a ^ 2147483646"
    using power_Suc [of a 2147483645] by (simp only: Suc_numeral) simp
  with mersenne_fermat [OF assms] show ?thesis by (simp only:)
qed

lemma mersenne_no_zero_divisors:
  assumes "a < P" "a * b mod P = 0"
  shows "a = 0 \<or> b mod P = 0"
proof (cases "a = 0")
  case False
  define c where "c = a ^ 2147483645"
  have inv: "a * c mod P = 1" unfolding c_def using False assms by (intro mersenne_inverse) simp_all
  have "(a * c mod P) * b mod P = (a * b mod P) * c mod P"
    by (simp only: mod_mult_left_eq) (simp only: ac_simps)
  then have "b mod P = 0" unfolding inv assms(2) by simp
  then show ?thesis by simp
qed simp

section \<open>The inverse, powers and square roots\<close>

text \<open>\<open>pw x e y\<close>: \<open>y\<close> is the power \<open>e\<close> of \<open>x\<close>.\<close>

definition pw :: "m31 \<Rightarrow> nat \<Rightarrow> m31 \<Rightarrow> bool" where
  "pw x e y \<longleftrightarrow> valid y \<and> fv y = fv x ^ e mod P"

lemma pw_self: "valid x \<Longrightarrow> pw x 1 x"
  by (simp add: pw_def)

lemma pw_mul: "pw x e y \<Longrightarrow> pw x f z \<Longrightarrow> pw x (e + f) (mul_mod y z)"
  by (simp add: pw_def mul_mod_residue power_add mod_mult_eq)

lemma pw_exp: "pw x e y \<Longrightarrow> pw x (e * 2 ^ n) (exp_power_of_2 y n)"
  by (simp add: pw_def exp_power_of_2_residue power_mod power_mult)

lemma pw_square: "pw x e y \<Longrightarrow> pw x (e * 2) (m31_square y)"
  using pw_mul [of x e y e y] by (simp add: m31_square_def mult_2_right)

lemma inverse_power:
  assumes "valid x" "\<not> m31_is_zero x"
  obtains y where "m31_inverse x = Some y" "pw x 2147483645 y"
proof -
  define p5 where "p5 = mul_mod (exp_power_of_2 x 2) x"
  define p15 where "p15 = mul_mod (m31_square p5) p5"
  define p255 where "p255 = mul_mod (exp_power_of_2 p15 4) p15"
  define q where "q = exp_power_of_2 p255 4"
  define p4095 where "p4095 = mul_mod q p15"
  define p65535 where "p65535 = mul_mod (exp_power_of_2 q 4) p255"
  define p28 where "p28 = mul_mod (exp_power_of_2 p65535 12) p4095"
  define p31 where "p31 = mul_mod (exp_power_of_2 p28 3) p5"
  have 5: "pw x 5 p5"
    using pw_mul [OF pw_exp [OF pw_self [OF assms(1)], of 2] pw_self [OF assms(1)]] by (simp add: p5_def)
  have 15: "pw x 15 p15" using pw_mul [OF pw_square [OF 5] 5] by (simp add: p15_def)
  have 255: "pw x 255 p255" using pw_mul [OF pw_exp [OF 15, of 4] 15] by (simp add: p255_def)
  have 4080: "pw x 4080 q" using pw_exp [OF 255, of 4] by (simp add: q_def)
  have 4095: "pw x 4095 p4095" using pw_mul [OF 4080 15] by (simp add: p4095_def)
  have 65535: "pw x 65535 p65535"
    using pw_mul [OF pw_exp [OF 4080, of 4] 255] by (simp add: p65535_def)
  have 28: "pw x 268435455 p28"
    using pw_mul [OF pw_exp [OF 65535, of 12] 4095] by (simp add: p28_def)
  have "pw x 2147483645 p31" using pw_mul [OF pw_exp [OF 28, of 3] 5] by (simp add: p31_def)
  moreover have "m31_inverse x = Some p31"
    using assms(2) unfolding m31_inverse_def Let_def p31_def p28_def p65535_def p4095_def q_def
      p255_def p15_def p5_def by (simp only: if_False)
  ultimately show thesis using that by blast
qed

lemma inverse_residue:
  assumes "valid x" "fv x \<noteq> 0"
  obtains y where "m31_inverse x = Some y" "valid y" "fv x * fv y mod P = 1"
proof -
  have "\<not> m31_is_zero x" using assms by (simp add: is_zero_iff)
  with assms(1) obtain y where y: "m31_inverse x = Some y" "pw x 2147483645 y"
    by (rule inverse_power)
  then have fy: "valid y" "fv y = fv x ^ 2147483645 mod P" by (simp_all only: pw_def)
  have "fv x * fv y mod P = fv x * fv x ^ 2147483645 mod P"
    unfolding fy(2) by (rule mod_mult_right_eq)
  also have "\<dots> = 1" using assms(2) fv_less by (intro mersenne_inverse) simp_all
  finally show thesis using that y(1) fy(1) by blast
qed

lemma mod_mult_power: "(a mod p) * (b mod p) ^ n mod p = a * b ^ n mod (p :: nat)"
  by (metis mod_mult_cong mod_mod_trivial power_mod)

lemma pow_loop_residue:
  assumes "valid base" "valid acc"
  shows "valid (m31_pow_loop base acc e)"
    "fv (m31_pow_loop base acc e) = fv acc * fv base ^ unat e mod P"
proof -
  have "valid (m31_pow_loop base acc e) \<and>
      fv (m31_pow_loop base acc e) = fv acc * fv base ^ unat e mod P"
    using assms
  proof (induction base acc e rule: m31_pow_loop.induct)
    case (1 base acc e)
    show ?case
    proof (cases "0 < e")
      case True
      define acc' where "acc' = (if e mod 2 = 1 then mul_mod acc base else acc)"
      have acc': "valid acc'" "fv acc' = fv acc * fv base ^ (unat e mod 2) mod P"
      proof -
        have bit: "e mod 2 = 1 \<longleftrightarrow> unat e mod 2 = 1"
        proof -
          have "unat (e mod 2) = unat e mod 2" by (simp add: unat_mod)
          then show ?thesis by (metis unat_1 unsigned_word_eqI)
        qed
        have cases: "unat e mod 2 = 0 \<or> unat e mod 2 = 1" by auto
        show "valid acc'" using "1.prems" by (simp add: acc'_def mul_mod_residue)
        show "fv acc' = fv acc * fv base ^ (unat e mod 2) mod P"
          using cases "1.prems" unfolding acc'_def bit by (auto simp: mul_mod_residue)
      qed
      have half: "unat (drop_bit 1 e) = unat e div 2" by (simp only: unat_drop_bit power_one_right)
      have ih: "valid (m31_pow_loop (m31_square base) acc' (drop_bit 1 e)) \<and>
          fv (m31_pow_loop (m31_square base) acc' (drop_bit 1 e)) =
            fv acc' * fv (m31_square base) ^ (unat e div 2) mod P"
        using "1.IH" [OF True] square_residue(1) [OF "1.prems"(1)] acc'(1)
        unfolding acc'_def half by simp
      have "fv acc' * fv (m31_square base) ^ (unat e div 2) mod P =
          fv acc * fv base ^ (unat e mod 2) * ((fv base)\<^sup>2) ^ (unat e div 2) mod P"
        unfolding acc'(2) square_residue(2) [OF "1.prems"(1)] by (rule mod_mult_power)
      also have "fv acc * fv base ^ (unat e mod 2) * ((fv base)\<^sup>2) ^ (unat e div 2) =
          fv acc * fv base ^ (unat e)"
        by (simp flip: power_mult power_add)
      finally show ?thesis
        using ih True unfolding acc'_def by (subst (1 2) m31_pow_loop.simps) simp
    next
      case False
      then have "e = 0" by (simp add: word_gt_0)
      then show ?thesis using "1.prems" by (subst (1 2) m31_pow_loop.simps) simp
    qed
  qed
  then show "valid (m31_pow_loop base acc e)"
    "fv (m31_pow_loop base acc e) = fv acc * fv base ^ unat e mod P" by simp_all
qed

lemma pow_residue:
  "valid x \<Longrightarrow> valid (m31_pow x e)" "valid x \<Longrightarrow> fv (m31_pow x e) = fv x ^ unat e mod P"
  by (simp_all add: m31_pow_def pow_loop_residue)

text \<open>
  The square root returned squares to the element, and every square has one: the candidate
  is the power \<open>2 ^ 29 = (p + 1) / 4\<close>.
\<close>

lemma sqrt_sound:
  assumes "valid x" "m31_sqrt x = Some y"
  shows "valid y" "(fv y)\<^sup>2 mod P = fv x"
proof -
  define c where "c = exp_power_of_2 x 29"
  have v: "valid c" using exp_power_of_2_residue(1) [OF assms(1)] by (simp add: c_def)
  have y: "y = c" "m31_eq (m31_square c) x"
    using assms(2) by (simp_all add: m31_sqrt_def Let_def c_def split: if_splits)
  show "valid y" using v y(1) by simp
  show "(fv y)\<^sup>2 mod P = fv x"
    using y m31_eq_iff [OF square_residue(1) [OF v] assms(1)] square_residue(2) [OF v] by simp
qed

lemma double_fermat: "a < P \<Longrightarrow> a ^ 2147483648 mod P = a * a mod P"
proof (cases "a = 0")
  case False
  assume "a < P"
  have "a ^ 2147483648 = a ^ 2147483646 * (a * a)"
    using power_add [of a 2147483646 2] by (simp only: numeral_plus_numeral power2_eq_square) simp
  then have "a ^ 2147483648 mod P = (a ^ 2147483646 mod P) * (a * a) mod P"
    by (simp only: mod_mult_left_eq)
  then show ?thesis using mersenne_fermat [of a] False \<open>a < P\<close> by simp
qed simp

lemma sqrt_complete:
  assumes "valid x" "valid r" "(fv r)\<^sup>2 mod P = fv x"
  shows "\<exists>y. m31_sqrt x = Some y"
proof -
  define c where "c = exp_power_of_2 x 29"
  have v: "valid c" and c: "fv c = fv x ^ 2 ^ 29 mod P"
    using exp_power_of_2_residue [OF assms(1)] by (simp_all only: c_def)
  have "fv (m31_square c) = (fv c)\<^sup>2 mod P" using square_residue(2) [OF v] .
  also have "\<dots> = (fv x ^ 2 ^ 29)\<^sup>2 mod P" unfolding c by (rule power_mod)
  also have "\<dots> = fv x ^ 2 ^ 30 mod P"
    unfolding power_mult [symmetric] power_Suc2 [symmetric] by simp
  also have "\<dots> = ((fv r)\<^sup>2) ^ 2 ^ 30 mod P" unfolding assms(3) [symmetric] by (rule power_mod)
  also have "\<dots> = fv r ^ 2147483648 mod P" unfolding power_mult [symmetric] by simp
  also have "\<dots> = (fv r)\<^sup>2 mod P" using double_fermat [OF fv_less] by (simp only: power2_eq_square)
  finally have "m31_eq (m31_square c) x"
    using m31_eq_iff [OF square_residue(1) [OF v] assms(1)] assms(3) by (simp only:)
  then show ?thesis by (simp add: m31_sqrt_def Let_def c_def)
qed

end
