(* ===== verification/Field_Props.thy ===== *)
theory Field_Props
  imports Mersenne_Group
begin

text \<open>
  What the operations of \<open>Mersenne31Field\<close> compute: arithmetic modulo the prime
  \<open>P = 2 ^ 31 - 1\<close> on representations that may also hold \<open>P\<close> itself for zero (\<open>valid\<close>
  states the bound, \<open>fv\<close> is the residue). Multiplication and division by powers of two are
  rotations of 31 bits.
\<close>

section \<open>Rotations of 31 bits\<close>

lemma word_of_nat_shift: "unat (push_bit e (x :: u32)) = unat x * 2 ^ e mod 2 ^ 32"
  by (simp only: unsigned_push_bit_eq) (simp add: take_bit_eq_mod push_bit_eq_mult)

lemma or_disjoint:
  assumes "unat (a :: u32) mod 2 ^ e = 0" and "unat b < 2 ^ e" and "unat a + unat b < 2 ^ 32"
  shows "unat (a OR b) = unat a + unat b"
proof -
  have "\<not> bit a n \<or> \<not> bit b n" for n
  proof (cases "n < e")
    case True
    have "take_bit e (unat a) = 0" using assms(1) by (simp only: take_bit_eq_mod)
    then have "\<not> bit (unat a) n" using True by (metis bit_take_bit_iff bit_0_eq bot_apply bot_bool_def)
    then show ?thesis by (simp add: bit_unsigned_iff bit_imp_le_length)
  next
    case False
    have "take_bit e (unat b) = unat b" using assms(2) by (rule take_bit_nat_eq_self)
    then have "\<not> bit (unat b) n" using False by (metis bit_take_bit_iff)
    then show ?thesis by (simp add: bit_unsigned_iff bit_imp_le_length)
  qed
  then have "a + b = a OR b" by (rule disjunctive_add)
  then show ?thesis using assms(3) by (simp add: unat_word_ariths flip: \<open>a + b = a OR b\<close>)
qed

lemma multiple_below:
  assumes "(d :: nat) dvd a" "d dvd n" "a < n"
  shows "a + d \<le> n"
proof -
  obtain k m where k: "a = d * k" and m: "n = d * m" using assms by (auto simp: dvd_def)
  then have "d * (k + 1) \<le> d * m" using assms(3) by (intro mult_le_mono2) simp
  then show ?thesis by (simp add: k m)
qed

lemma rotate31:
  assumes x: "valid x" and e: "e \<le> 31"
  defines "y \<equiv> (push_bit e x AND (2 ^ 31 - 1)) OR drop_bit (31 - e) x"
  shows "valid y" "fv y = fv x * 2 ^ e mod P"
proof -
  let ?m = "unat x * 2 ^ e"
  have x31: "unat x < 2 ^ 31" using x by (simp add: valid_def)
  have p31: "(2::nat) ^ 31 = 2 ^ (31 - e) * 2 ^ e" using e by (simp flip: power_add)
  have low: "unat (push_bit e x AND (2 ^ 31 - 1)) = ?m mod 2 ^ 31"
    unfolding and_low_bits unat_take_bit word_of_nat_shift
    by (rule mod_mod_cancel) (simp add: le_imp_power_dvd)
  have high: "unat (drop_bit (31 - e) x) = ?m div 2 ^ 31"
    unfolding unat_drop_bit p31 by (rule div_mult_mult2 [symmetric]) simp
  have "unat x div 2 ^ (31 - e) < 2 ^ e"
    using x31 unfolding p31 by (simp add: less_mult_imp_div_less mult.commute)
  then have small: "unat (drop_bit (31 - e) x) < 2 ^ e" by (simp only: unat_drop_bit)
  have mult: "?m mod 2 ^ 31 mod 2 ^ e = 0"
    unfolding p31 by (simp add: mod_mult_mult2)
  have "?m mod 2 ^ 31 + 2 ^ e \<le> 2 ^ 31"
  proof (rule multiple_below)
    show "2 ^ e dvd ?m mod 2 ^ 31" using mult by (simp only: mod_eq_0_iff_dvd)
    show "(2 :: nat) ^ e dvd 2 ^ 31" using e by (rule le_imp_power_dvd)
  qed simp
  then have sum: "?m mod 2 ^ 31 + ?m div 2 ^ 31 \<le> P" using small high by simp
  then have y: "unat y = ?m mod 2 ^ 31 + ?m div 2 ^ 31"
    unfolding y_def using or_disjoint [of "push_bit e x AND (2 ^ 31 - 1)" e "drop_bit (31 - e) x"] low high small mult sum
    by simp
  have "unat y mod P = (?m div 2 ^ 31 * 2 ^ 31 + ?m mod 2 ^ 31) mod P" unfolding y by (rule fold_mod)
  also have "\<dots> = ?m mod P" by (simp only: div_mult_mod_eq)
  also have "\<dots> = fv x * 2 ^ e mod P" unfolding fv_def by (simp only: mod_mult_left_eq)
  finally show "fv y = fv x * 2 ^ e mod P" by (simp only: fv_def)
  show "valid y" using sum y by (simp add: valid_def)
qed

text \<open>Exponents of two count modulo 31.\<close>

lemma two_power_cycle: "(2 :: nat) ^ n mod P = 2 ^ (n mod 31) mod P"
proof -
  have one: "(2 :: nat) ^ 31 mod P = 1" by simp
  have "(2 :: nat) ^ n = 2 ^ (31 * (n div 31)) * 2 ^ (n mod 31)"
    by (simp only: power_add [symmetric]) simp
  then have "(2 :: nat) ^ n mod P = (2 ^ (31 * (n div 31)) mod P) * 2 ^ (n mod 31) mod P"
    by (simp only: mod_mult_left_eq)
  then show ?thesis using power_one_mod [OF one, of "n div 31"] by simp
qed

lemma mod_31_bound: "unat ((e :: u64) mod 31) = unat e mod 31" "unat ((e :: u64) mod 31) \<le> 31"
  by (simp_all add: unat_mod less_imp_le)

lemma mod_mult_cong_right: "b mod p = c mod p \<Longrightarrow> a * b mod p = a * c mod (p :: nat)"
  by (metis mod_mult_right_eq)

lemma mod_mult_shift: "(a * b mod p) * c mod p = a * (b * c) mod (p :: nat)"
  by (simp only: mod_mult_left_eq mult.assoc)

section \<open>The operations\<close>

lemma sub_back: "a < P \<Longrightarrow> b < P \<Longrightarrow> ((a + (P - b)) mod P + b) mod P = a"
proof -
  assume ab: "a < P" "b < P"
  have "((a + (P - b)) mod P + b) mod P = (a + (P - b) + b) mod P" by (rule mod_add_left_eq)
  also have "a + (P - b) + b = a + P" using ab by linarith
  finally show ?thesis using ab by simp
qed

text \<open>
  C14. Every ring operation of the field returns a valid representation of the result modulo
  the prime: addition, subtraction, multiplication, negation, doubling, squaring and the fused
  multiply-add, on any valid representations, zero in both its forms included.
\<close>

theorem field_ops_correct:
  assumes "valid a" and "valid b" and "valid d"
  shows "valid (add_mod a b) \<and> fv (add_mod a b) = (fv a + fv b) mod P \<and>
    valid (sub_mod a b) \<and> (fv (sub_mod a b) + fv b) mod P = fv a \<and>
    valid (mul_mod a b) \<and> fv (mul_mod a b) = fv a * fv b mod P \<and>
    valid (m31_fused_mul_add a b d) \<and> fv (m31_fused_mul_add a b d) = (fv a * fv b + fv d) mod P \<and>
    valid (m31_negate a) \<and> (fv (m31_negate a) + fv a) mod P = 0 \<and>
    valid (m31_double a) \<and> fv (m31_double a) = 2 * fv a mod P"
  using add_mod_residue [OF assms(1,2)] sub_mod_residue [OF assms(1,2)] mul_mod_residue [OF assms(1,2)]
    fma_mod_residue [OF assms] negate_residue [OF assms(1)] double_residue [OF assms(1)]
    sub_back [of "fv a" "fv b"] sub_back [of 0 "fv a"] fv_less [of a] fv_less [of b]
  by (simp add: m31_fused_mul_add_def)

theorem field_ops_correct_witness:
  "valid (add_mod 2147483646 2147483647) \<and>
     fv (add_mod 2147483646 2147483647) = (fv 2147483646 + fv 2147483647) mod P"
proof -
  have "valid 2147483646" "valid 2147483647" "valid 5" by (simp_all add: valid_def)
  from field_ops_correct [OF this] show ?thesis by blast
qed

text \<open>
  C12. \<open>inverse\<close> returns nothing exactly for zero, and otherwise an element whose product with
  the argument is one: the addition chain computes the power \<open>P - 2\<close>, and \<open>P\<close> is prime.
\<close>

theorem field_inverse_correct:
  assumes "valid x"
  shows "case m31_inverse x of None \<Rightarrow> fv x = 0 | Some y \<Rightarrow> valid y \<and> fv x * fv y mod P = 1"
proof (cases "fv x = 0")
  case True
  then show ?thesis using assms by (simp add: m31_inverse_def is_zero_iff)
next
  case False
  with assms obtain y where "m31_inverse x = Some y" "valid y" "fv x * fv y mod P = 1"
    by (rule inverse_residue)
  then show ?thesis by simp
qed

theorem field_inverse_correct_witness:
  "case m31_inverse 3 of None \<Rightarrow> fv 3 = 0 | Some y \<Rightarrow> valid y \<and> fv 3 * fv y mod P = 1"
  by (rule field_inverse_correct) (simp add: valid_def)

text \<open>
  C13. \<open>sqrt\<close> returns a root exactly for the squares of the field.
\<close>

theorem field_sqrt_correct:
  assumes "valid x"
  shows "case m31_sqrt x of
           None \<Rightarrow> \<not> (\<exists>r. valid r \<and> (fv r)\<^sup>2 mod P = fv x)
         | Some y \<Rightarrow> valid y \<and> (fv y)\<^sup>2 mod P = fv x"
  using sqrt_sound [OF assms] sqrt_complete [OF assms] by (cases "m31_sqrt x") auto

theorem field_sqrt_correct_witness:
  "case m31_sqrt 4 of
     None \<Rightarrow> \<not> (\<exists>r. valid r \<and> (fv r)\<^sup>2 mod P = fv 4)
   | Some y \<Rightarrow> valid y \<and> (fv y)\<^sup>2 mod P = fv 4"
  by (rule field_sqrt_correct) (simp add: valid_def)

text \<open>
  \<open>mul_2exp_u64\<close> and \<open>div_2exp_u64\<close> multiply and divide by the power of two, whatever the
  exponent, with a rotation; neither panics.
\<close>

lemma field_shifts_correct:
  assumes "valid x"
  shows "(\<exists>y. mul_2exp_u64 c x e = Inr y \<and> valid y \<and> fv y = fv x * 2 ^ unat e mod P) \<and>
    (\<exists>y. div_2exp_u64 c x e = Inr y \<and> valid y \<and> fv y * 2 ^ unat e mod P = fv x)"
proof -
  define k where "k = unat (e mod 31)"
  have k: "k \<le> 31" "k = unat e mod 31" by (simp_all only: k_def mod_31_bound)
  note m = rotate31 [OF assms k(1)]
  note d = rotate31 [OF assms, of "31 - k"]
  let ?m = "(push_bit k x AND (2 ^ 31 - 1)) OR drop_bit (31 - k) x"
  let ?d = "(push_bit (31 - k) x AND (2 ^ 31 - 1)) OR drop_bit k x"
  have mul: "mul_2exp_u64 c x e = Inr ?m"
    unfolding mul_2exp_u64_def Let_def k_def [symmetric] m31_new_valid using m(1) by (simp only: simp_thms)
  have dv: "valid ?d" "fv ?d = fv x * 2 ^ (31 - k) mod P" using d k(1) by simp_all
  have div: "div_2exp_u64 c x e = Inr ?d"
    unfolding div_2exp_u64_def Let_def k_def [symmetric] m31_new_valid using dv(1)
    by (simp only: simp_thms or.commute)
  have cycle: "2 ^ unat e mod P = 2 ^ k mod P" unfolding k(2) by (rule two_power_cycle)
  have "fv ?d * 2 ^ unat e mod P = fv ?d * 2 ^ k mod P" using cycle by (rule mod_mult_cong_right)
  also have "\<dots> = fv x * (2 ^ (31 - k) * 2 ^ k) mod P" unfolding dv(2) by (rule mod_mult_shift)
  also have "(2 :: nat) ^ (31 - k) * 2 ^ k = 2 ^ 31" using k(1) by (simp flip: power_add)
  also have "fv x * 2 ^ 31 mod P = fv x * 1 mod P" by (rule mod_mult_cong_right) simp
  finally have inverse: "fv ?d * 2 ^ unat e mod P = fv x" by simp
  have "fv ?m = fv x * 2 ^ unat e mod P"
    unfolding m(2) using cycle [symmetric] by (rule mod_mult_cong_right)
  then show ?thesis using mul div m(1) dv(1) inverse by blast
qed

text \<open>
  C15. The generic square-and-multiply \<open>pow\<close> terminates for every exponent and computes the
  power.
\<close>

theorem field_pow_correct:
  assumes "valid x"
  shows "valid (m31_pow x e) \<and> fv (m31_pow x e) = fv x ^ unat e mod P"
  using pow_residue [OF assms] by blast

theorem field_pow_correct_witness:
  "valid (m31_pow 3 5) \<and> fv (m31_pow 3 5) = fv 3 ^ unat (5 :: u32) mod P"
  by (rule field_pow_correct) (simp add: valid_def)

end
