(* ===== verification/Blake2.thy ===== *)
theory Blake2
  imports Constants
begin

text \<open>
  The Blake2s arithmetic: the crate \<open>blake2s_u32\<close> (constants of \<open>lib.rs\<close>,
  \<open>mixing_function.rs\<close>, the hasher of \<open>baseline.rs\<close>) and the two versions of the round
  function delegation in \<open>riscv_transpiler/src/vm/delegations/blake2_round_function.rs\<close>: the
  one-round function the circuit runs, and the fused loop the machine runs. The arrays
  \<open>[u32; 8]\<close>, \<open>[u32; 16]\<close>, \<open>[u32; 24]\<close> are lists of those lengths; all their indices are
  constants.
\<close>

section \<open>Constants\<close>

definition BLAKE2S_BLOCK_SIZE_U32_WORDS :: nat where
  [code_consts]: "BLAKE2S_BLOCK_SIZE_U32_WORDS = 16"
definition BLAKE2S_BLOCK_SIZE_BYTES :: nat where
  [code_consts]: "BLAKE2S_BLOCK_SIZE_BYTES = 64"
definition BLAKE2S_STATE_WIDTH_IN_U32_WORDS :: nat where
  [code_consts]: "BLAKE2S_STATE_WIDTH_IN_U32_WORDS = 8"
definition BLAKE2S_MAX_ROUNDS :: nat where
  [code_consts]: "BLAKE2S_MAX_ROUNDS = 10"
definition BLAKE2S_NUM_CONTROL_BITS :: nat where
  [code_consts]: "BLAKE2S_NUM_CONTROL_BITS = 3"
definition TEST_IF_REDUCE_ROUNDS_MASK :: u32 where
  [code_consts]: "TEST_IF_REDUCE_ROUNDS_MASK = 1"
definition TEST_IF_INPUT_IS_RIGHT_NODE_MASK :: u32 where
  [code_consts]: "TEST_IF_INPUT_IS_RIGHT_NODE_MASK = 2"
definition TEST_IF_COMPRESSION_MODE_MASK :: u32 where
  [code_consts]: "TEST_IF_COMPRESSION_MODE_MASK = 4"

definition IV :: "u32 list" where
  "IV = [0x6A09E667, 0xBB67AE85, 0x3C6EF372, 0xA54FF53A,
         0x510E527F, 0x9B05688C, 0x1F83D9AB, 0x5BE0CD19]"

definition IV_0_TWIST :: u32 where
  "IV_0_TWIST = 0x6A09E667 XOR 0x01010000 XOR 32"

definition CONFIGURED_IV :: "u32 list" where
  "CONFIGURED_IV = IV[0 := IV_0_TWIST]"

definition SIGMAS :: "nat list list" where
  "SIGMAS =
    [[0, 1, 2, 3, 4, 5, 6, 7, 8, 9, 10, 11, 12, 13, 14, 15],
     [14, 10, 4, 8, 9, 15, 13, 6, 1, 12, 0, 2, 11, 7, 5, 3],
     [11, 8, 12, 0, 5, 2, 15, 13, 10, 14, 3, 6, 7, 1, 9, 4],
     [7, 9, 3, 1, 13, 12, 11, 14, 2, 6, 5, 10, 4, 0, 15, 8],
     [9, 0, 5, 7, 2, 4, 10, 15, 14, 1, 11, 12, 6, 8, 3, 13],
     [2, 12, 6, 10, 0, 11, 8, 3, 4, 13, 7, 5, 15, 14, 1, 9],
     [12, 5, 1, 15, 14, 13, 4, 10, 0, 7, 6, 3, 9, 2, 8, 11],
     [13, 11, 7, 14, 12, 1, 3, 9, 5, 0, 15, 4, 8, 6, 2, 10],
     [6, 15, 14, 9, 11, 3, 0, 8, 12, 2, 13, 7, 1, 4, 10, 5],
     [10, 2, 8, 4, 7, 6, 1, 5, 15, 11, 9, 14, 3, 12, 13, 0]]"

section \<open>The mixing function\<close>

definition g_function ::
  "u32 list \<Rightarrow> nat \<Rightarrow> nat \<Rightarrow> nat \<Rightarrow> nat \<Rightarrow> u32 \<Rightarrow> u32 \<Rightarrow> u32 list" where
  "g_function v a b c d x y =
     (let v = v[a := v ! a + v ! b + x];
          v = v[d := word_rotr 16 (v ! d XOR v ! a)];
          v = v[c := v ! c + v ! d];
          v = v[b := word_rotr 12 (v ! b XOR v ! c)];
          v = v[a := v ! a + v ! b + y];
          v = v[d := word_rotr 8 (v ! d XOR v ! a)];
          v = v[c := v ! c + v ! d] in
      v[b := word_rotr 7 (v ! b XOR v ! c)])"

definition mixing_function :: "u32 list \<Rightarrow> u32 list \<Rightarrow> nat list \<Rightarrow> u32 list" where
  "mixing_function v message_block sigma =
     (let m = (\<lambda>i. message_block ! (sigma ! i));
          v = g_function v 0 4 8 12 (m 0) (m 1);
          v = g_function v 1 5 9 13 (m 2) (m 3);
          v = g_function v 2 6 10 14 (m 4) (m 5);
          v = g_function v 3 7 11 15 (m 6) (m 7);
          v = g_function v 0 5 10 15 (m 8) (m 9);
          v = g_function v 1 6 11 12 (m 10) (m 11);
          v = g_function v 2 7 8 13 (m 12) (m 13) in
      g_function v 3 4 9 14 (m 14) (m 15))"

definition round_function_reduced_rounds :: "u32 list \<Rightarrow> u32 list \<Rightarrow> u32 list" where
  "round_function_reduced_rounds v message_block =
     foldl (\<lambda>v i. mixing_function v message_block (SIGMAS ! i)) v [0..<7]"

definition round_function_full_rounds :: "u32 list \<Rightarrow> u32 list \<Rightarrow> u32 list" where
  "round_function_full_rounds v message_block =
     foldl (\<lambda>v i. mixing_function v message_block (SIGMAS ! i)) v [0..<10]"

section \<open>The hasher\<close>

record Blake2sState =
  b2_state :: "u32 list"
  input_buffer :: "u32 list"
  b2_t :: u32

definition Blake2sState_new :: Blake2sState where
  "Blake2sState_new = \<lparr> b2_state = CONFIGURED_IV, input_buffer = replicate 16 0, b2_t = 0 \<rparr>"

definition b2_reset :: "Blake2sState \<Rightarrow> Blake2sState" where
  "b2_reset s = s \<lparr> b2_state := CONFIGURED_IV, b2_t := 0 \<rparr>"

text \<open>
  The parts every method shares: the extended state from the chaining value \<open>h\<close>, the byte
  counter \<open>t\<close> and the finalisation word \<open>f\<close>; the choice of the number of rounds; and the
  final exclusive-or of both halves.
\<close>

definition extended_state :: "u32 list \<Rightarrow> u32 \<Rightarrow> u32 \<Rightarrow> u32 list" where
  "extended_state h t f =
     [h ! 0, h ! 1, h ! 2, h ! 3, h ! 4, h ! 5, h ! 6, h ! 7,
      IV ! 0, IV ! 1, IV ! 2, IV ! 3, t XOR IV ! 4, IV ! 5, f XOR IV ! 6, IV ! 7]"

definition run_rounds :: "bool \<Rightarrow> u32 list \<Rightarrow> u32 list \<Rightarrow> u32 list" where
  "run_rounds reduced v message_block =
     (if reduced then round_function_reduced_rounds v message_block
      else round_function_full_rounds v message_block)"

definition xor_halves :: "u32 list \<Rightarrow> u32 list \<Rightarrow> u32 list" where
  "xor_halves h v = map (\<lambda>i. (h ! i XOR v ! i) XOR v ! (i + 8)) [0..<8]"

definition spec_run_single_round_into_destination :: "bool \<Rightarrow> Blake2sState \<Rightarrow> nat \<Rightarrow> u32 list" where
  "spec_run_single_round_into_destination reduced s block_len =
     (let t = word_of_nat (block_len * 4);
          v = run_rounds reduced (extended_state (b2_state s) t 0xffffffff) (input_buffer s) in
      xor_halves CONFIGURED_IV v)"

definition run_round_function_with_byte_len ::
  "cfg \<Rightarrow> bool \<Rightarrow> Blake2sState \<Rightarrow> nat \<Rightarrow> bool \<Rightarrow> Blake2sState res" where
  "run_round_function_with_byte_len c reduced s input_size_bytes last_round =
     bindR (checked_add (debug_assertions c) (b2_t s) (word_of_nat input_size_bytes)) (\<lambda>t.
       let v = run_rounds reduced
                 (extended_state (b2_state s) t (0xffffffff * of_bool last_round)) (input_buffer s) in
       Inr (s \<lparr> b2_t := t, b2_state := xor_halves (b2_state s) v \<rparr>))"

definition run_round_function ::
  "cfg \<Rightarrow> bool \<Rightarrow> Blake2sState \<Rightarrow> nat \<Rightarrow> bool \<Rightarrow> Blake2sState res" where
  "run_round_function c reduced s input_size_words last_round =
     run_round_function_with_byte_len c reduced s (input_size_words * 4) last_round"

definition absorb :: "cfg \<Rightarrow> bool \<Rightarrow> Blake2sState \<Rightarrow> u32 list \<Rightarrow> Blake2sState res" where
  "absorb c reduced s message_block =
     bindR (checked_add (debug_assertions c) (b2_t s) (word_of_nat BLAKE2S_BLOCK_SIZE_BYTES)) (\<lambda>t.
       let v = run_rounds reduced (extended_state (b2_state s) t 0) message_block in
       Inr (s \<lparr> b2_t := t, b2_state := xor_halves (b2_state s) v \<rparr>))"

definition absorb_final_block ::
  "cfg \<Rightarrow> bool \<Rightarrow> Blake2sState \<Rightarrow> u32 list \<Rightarrow> nat \<Rightarrow> (u32 list \<times> Blake2sState) res" where
  "absorb_final_block c reduced s message_block block_len =
     bindR (checked_add (debug_assertions c) (b2_t s) (word_of_nat (block_len * 4))) (\<lambda>t.
       let v = run_rounds reduced (extended_state (b2_state s) t 0xffffffff) message_block in
       Inr (xor_halves (b2_state s) v, s \<lparr> b2_t := t \<rparr>))"

definition compress_two_to_one :: "bool \<Rightarrow> u32 list \<Rightarrow> u32 list" where
  "compress_two_to_one reduced message_block =
     (let v = run_rounds reduced
                (extended_state CONFIGURED_IV (word_of_nat BLAKE2S_BLOCK_SIZE_BYTES) 0xffffffff)
                message_block in
      xor_halves CONFIGURED_IV v)"

section \<open>The control register of the delegation\<close>

text \<open>
  The high half of \<open>x12\<close> holds three mode bits and, above them, a mask with the bit of the
  current round.
\<close>

definition control_bitmask :: "u32 \<Rightarrow> u32" where
  "control_bitmask x12 = drop_bit 16 x12 AND (push_bit BLAKE2S_NUM_CONTROL_BITS 1 - 1)"

definition mode_compression :: "u32 \<Rightarrow> bool" where
  "mode_compression x12 \<longleftrightarrow>
     control_bitmask x12 AND TEST_IF_COMPRESSION_MODE_MASK = TEST_IF_COMPRESSION_MODE_MASK"

definition reduced_rounds :: "u32 \<Rightarrow> bool" where
  "reduced_rounds x12 \<longleftrightarrow>
     control_bitmask x12 AND TEST_IF_REDUCE_ROUNDS_MASK = TEST_IF_REDUCE_ROUNDS_MASK"

definition compression_mode_node_is_right :: "u32 \<Rightarrow> bool" where
  "compression_mode_node_is_right x12 \<longleftrightarrow>
     control_bitmask x12 AND TEST_IF_INPUT_IS_RIGHT_NODE_MASK = TEST_IF_INPUT_IS_RIGHT_NODE_MASK"

definition permutation_bitmask :: "u32 \<Rightarrow> u32" where
  "permutation_bitmask x12 = drop_bit (16 + BLAKE2S_NUM_CONTROL_BITS) x12"

definition round_mask :: u32 where
  "round_mask = push_bit BLAKE2S_MAX_ROUNDS 1 - 1"

definition control_word :: "u32 \<Rightarrow> u32 \<Rightarrow> u32" where
  "control_word control permutation =
     push_bit 16 (control OR push_bit BLAKE2S_NUM_CONTROL_BITS permutation)"

definition num_rounds :: "u32 \<Rightarrow> nat" where
  "num_rounds x12 = (if reduced_rounds x12 then 7 else 10)"

definition final_x12 :: "u32 \<Rightarrow> u32" where
  "final_x12 x12 =
     control_word (control_bitmask x12) (push_bit (if reduced_rounds x12 then 7 else 10) 1 AND round_mask)"

section \<open>The rounds\<close>

text \<open>
  Before the first round the extended state is filled, from the chaining value or, in
  compression mode, from the configured initial value; the compression mode puts the chaining
  value and the first half of the input in the order of the tree.
\<close>

definition start_extended :: "bool \<Rightarrow> u32 list \<Rightarrow> u32 list \<Rightarrow> u32 list" where
  "start_extended compression blake_state ext =
     (if compression then
        (let ext = CONFIGURED_IV @ IV;
             ext = ext[12 := ext ! 12 XOR word_of_nat BLAKE2S_BLOCK_SIZE_BYTES] in
         ext[14 := ext ! 14 XOR 0xffffffff])
      else
        (blake_state @ drop 8 ext)[8 := IV ! 0, 9 := IV ! 1, 10 := IV ! 2, 11 := IV ! 3,
                                   13 := IV ! 5, 15 := IV ! 7])"

definition compression_buffer :: "bool \<Rightarrow> u32 list \<Rightarrow> u32 list \<Rightarrow> u32 list" where
  "compression_buffer is_right blake_state input =
     (if is_right then take 8 input @ blake_state else blake_state @ take 8 input)"

definition one_round :: "u32 \<Rightarrow> u32 list \<Rightarrow> nat \<Rightarrow> bool \<Rightarrow> u32 list \<times> u32 list \<Rightarrow> u32 list \<times> u32 list" where
  "one_round x12 input round last_round = (\<lambda>(blake_state, ext).
     let message = (if mode_compression x12
                    then compression_buffer (compression_mode_node_is_right x12) blake_state input
                    else input);
         ext = mixing_function ext message (SIGMAS ! round) in
     if last_round then
       (let blake_state = (if mode_compression x12 then CONFIGURED_IV else blake_state) in
        (map (\<lambda>i. blake_state ! i XOR (ext ! i XOR ext ! (i + 8))) [0..<8], ext))
     else (blake_state, ext))"

text \<open>The circuit's function: one round, chosen by the mask in \<open>x12\<close>, which it advances.\<close>

definition blake2_round_function_impl ::
  "u32 list \<Rightarrow> u32 list \<Rightarrow> u32 \<Rightarrow> (u32 list \<times> u32) res" where
  "blake2_round_function_impl state_accesses input x12 =
     (let blake_state = take BLAKE2S_STATE_WIDTH_IN_U32_WORDS state_accesses;
          ext = drop BLAKE2S_STATE_WIDTH_IN_U32_WORDS state_accesses;
          permutation = permutation_bitmask x12 in
      guardR (count_ones permutation = 1) AssertFailed
      (let permutation_index = trailing_zeros permutation;
           last_round = (permutation_index = 9 \<or> reduced_rounds x12 \<and> permutation_index = 6);
           updated_x12 = control_word (control_bitmask x12) (push_bit 1 permutation AND round_mask);
           ext = (if permutation_index = 0
                  then start_extended (mode_compression x12) blake_state ext else ext) in
       guardR (permutation_index < length SIGMAS) IndexOutOfBounds
       (let (blake_state, ext) = one_round x12 input permutation_index last_round (blake_state, ext) in
        Inr (blake_state @ ext, updated_x12))))"

text \<open>The machine's loop over all rounds, as a function of the 24 words of the state.\<close>

definition blake2_all_rounds :: "u32 list \<Rightarrow> u32 list \<Rightarrow> u32 \<Rightarrow> u32 list" where
  "blake2_all_rounds blake_state_full input x12 =
     (let blake_state = take BLAKE2S_STATE_WIDTH_IN_U32_WORDS blake_state_full;
          ext = drop BLAKE2S_STATE_WIDTH_IN_U32_WORDS blake_state_full;
          ext = start_extended (mode_compression x12) blake_state ext;
          n = num_rounds x12;
          (blake_state, ext) =
            foldl (\<lambda>p round. one_round x12 input round (round = n - 1) p) (blake_state, ext) [0..<n] in
      blake_state @ ext)"

section \<open>The circuit's rounds are the machine's loop\<close>

lemma control_bitmask_word: "control_bitmask (control_word (control_bitmask x) p) = control_bitmask x"
  by (rule u32_eqI) (simp_all add: control_bitmask_def control_word_def code_consts u32_bits)

lemma round_mask_eq: "round_mask = mask 10"
  by (simp add: round_mask_def code_consts mask_eq_exp_minus_1)

lemma permutation_bitmask_word:
  "k < 10 \<Longrightarrow> permutation_bitmask (control_word (control_bitmask x) (push_bit k 1 AND round_mask)) = push_bit k 1"
  by (rule bit_word_eqI)
    (auto simp: permutation_bitmask_def control_word_def control_bitmask_def round_mask_eq code_consts bit_simps)

text \<open>The modes are read from the control bits only.\<close>

lemma same_control:
  assumes "control_bitmask y = control_bitmask x"
  shows "mode_compression y = mode_compression x" "reduced_rounds y = reduced_rounds x"
    "num_rounds y = num_rounds x" "one_round y = one_round x"
  using assms
  by (simp_all add: mode_compression_def reduced_rounds_def num_rounds_def one_round_def
      compression_mode_node_is_right_def fun_eq_iff)

lemma impl_step:
  assumes "length bs = 8" and "permutation_bitmask x = push_bit k 1" and "k < 10"
  shows "blake2_round_function_impl (bs @ ext) input x =
    (let ext = (if k = 0 then start_extended (mode_compression x) bs ext else ext);
         (bs', ext') = one_round x input k (k = 9 \<or> reduced_rounds x \<and> k = 6) (bs, ext) in
     Inr (bs' @ ext', control_word (control_bitmask x) (push_bit (Suc k) 1 AND round_mask)))"
proof -
  have "count_ones (2 ^ k) = 1" "trailing_zeros (2 ^ k) = k"
    using assms(3) count_ones_one_shifted [of k] trailing_zeros_one_shifted [of k] by simp_all
  then show ?thesis
    using assms by (simp add: blake2_round_function_impl_def Let_def code_consts SIGMAS_def mult.commute)
qed

lemma one_round_length:
  "length (fst p) = 8 \<Longrightarrow> length (fst (one_round x input k b p)) = 8"
  by (cases p) (simp add: one_round_def Let_def)

lemma impl_steps:
  fixes x12 :: u32 and bs ext input :: "u32 list"
  defines "e \<equiv> start_extended (mode_compression x12) bs ext"
    and "body \<equiv> (\<lambda>p round. one_round x12 input round (round = num_rounds x12 - 1) p)"
    and "xk \<equiv> (\<lambda>k. if k = 0 then x12 else control_word (control_bitmask x12) (push_bit k 1 AND round_mask))"
  assumes bs: "length bs = 8" and x: "permutation_bitmask x12 = 1" and k: "k < num_rounds x12"
  shows "foldR (\<lambda>_ (s, x). blake2_round_function_impl s input x) [0..<Suc k] (bs @ ext, x12) =
    (let (bs', ext') = foldl body (bs, e) [0..<Suc k] in Inr (bs' @ ext', xk (Suc k)))
    \<and> length (fst (foldl body (bs, e) [0..<Suc k])) = 8"
  using k
proof (induction k)
  case 0
  have "one_round x12 input 0 (reduced_rounds x12 \<and> (0::nat) = 6) (bs, e) = body (bs, e) 0"
    by (simp add: body_def num_rounds_def)
  moreover have "length (fst (body (bs, e) 0)) = 8" unfolding body_def by (intro one_round_length) (simp add: bs)
  ultimately show ?case
    using impl_step [OF bs, of x12 0 ext input] x
    by (simp add: Let_def xk_def e_def split: prod.split)
next
  case (Suc k)
  then have k: "Suc k < 10" by (simp add: num_rounds_def split: if_splits)
  obtain bs' ext' where p: "foldl body (bs, e) [0..<Suc k] = (bs', ext')" by force
  have len: "length bs' = 8" using Suc p by simp
  have c: "control_bitmask (xk (Suc k)) = control_bitmask x12"
    by (simp only: xk_def control_bitmask_word if_cancel nat.distinct if_False)
  have perm: "permutation_bitmask (xk (Suc k)) = push_bit (Suc k) 1"
    using permutation_bitmask_word [OF k] by (simp only: xk_def nat.distinct if_False)
  have last: "(Suc k = 9 \<or> reduced_rounds x12 \<and> Suc k = 6) = (Suc k = num_rounds x12 - 1)"
    using Suc.prems by (auto simp: num_rounds_def split: if_splits)
  have next_xk: "xk (Suc (Suc k)) = control_word (control_bitmask x12) (push_bit (Suc (Suc k)) 1 AND round_mask)"
    by (simp only: xk_def nat.distinct if_False)
  have step: "blake2_round_function_impl (bs' @ ext') input (xk (Suc k)) =
      (let (bs'', ext'') = body (bs', ext') (Suc k) in Inr (bs'' @ ext'', xk (Suc (Suc k))))"
    using impl_step [OF len perm k, of ext' input] last
    unfolding same_control [OF c] c body_def nat.distinct if_False Let_def last next_xk by simp
  have "length (fst (body (bs', ext') (Suc k))) = 8"
    unfolding body_def by (intro one_round_length) (simp add: len)
  moreover have "foldR (\<lambda>_ (s, x). blake2_round_function_impl s input x) [0..<Suc k] (bs @ ext, x12) =
      Inr (bs' @ ext', xk (Suc k))"
    using Suc.IH Suc.prems p by (simp del: upt_Suc)
  moreover have "[0..<Suc (Suc k)] = [0..<Suc k] @ [Suc k]" by simp
  ultimately show ?case
    unfolding foldR_append foldl_append p by (simp add: step p foldR_append split: prod.split del: upt_Suc)
qed

lemma one_round_calls:
  assumes "length state_accesses = 24" and "permutation_bitmask x12 = 1"
  shows "foldR (\<lambda>_ (s, x). blake2_round_function_impl s input x) [0..<num_rounds x12]
           (state_accesses, x12) =
         Inr (blake2_all_rounds state_accesses input x12, final_x12 x12)"
proof -
  obtain n where n: "num_rounds x12 = Suc n" by (cases "num_rounds x12") (auto simp: num_rounds_def split: if_splits)
  have "take 8 state_accesses @ drop 8 state_accesses = state_accesses" by simp
  moreover have "final_x12 x12 = control_word (control_bitmask x12) (push_bit (Suc n) 1 AND round_mask)"
    by (simp only: final_x12_def n [symmetric] num_rounds_def)
  ultimately show ?thesis
    using impl_steps [where bs = "take 8 state_accesses" and ?x12.0 = x12 and k = n
        and ext = "drop 8 state_accesses" and input = input] assms
    unfolding blake2_all_rounds_def Let_def n
    by (simp add: code_consts split: prod.splits del: upt_Suc push_bit_Suc)
qed

text \<open>
  C9. Running the circuit's one-round function 7 or 10 times, feeding it its own updated
  control register, returns exactly what the machine's fused call computes: the same 24 words
  of state, and the final control register the machine writes without running the rounds.
\<close>

theorem blake2_rounds_fuse:
  assumes "length state_accesses = 24" and "permutation_bitmask x12 = 1"
  shows "foldR (\<lambda>_ (s, x). blake2_round_function_impl s input x) [0..<num_rounds x12]
           (state_accesses, x12) =
         Inr (blake2_all_rounds state_accesses input x12, final_x12 x12)"
  using assms by (rule one_round_calls)

theorem blake2_rounds_fuse_witness:
  "foldR (\<lambda>_ (s, x). blake2_round_function_impl s (replicate 16 1) x) [0..<num_rounds 0x90000]
     (replicate 24 0, 0x90000) =
   Inr (blake2_all_rounds (replicate 24 0) (replicate 16 1) 0x90000, 0x04010000)"
proof -
  have "permutation_bitmask 0x90000 = 1" "final_x12 0x90000 = 0x04010000"
    by (simp_all add: permutation_bitmask_def final_x12_def reduced_rounds_def control_bitmask_def
        control_word_def round_mask_def code_consts)
  then show ?thesis
    using blake2_rounds_fuse [of "replicate 24 0" "0x90000" "replicate 16 1"] by simp
qed

section \<open>The delegation computes the hasher's compression\<close>

lemma start_extended_compression:
  "start_extended True bs ext = extended_state CONFIGURED_IV (word_of_nat BLAKE2S_BLOCK_SIZE_BYTES) 0xffffffff"
  by (simp add: start_extended_def extended_state_def CONFIGURED_IV_def IV_def code_consts)

lemma start_extended_plain:
  assumes "length bs = 8" and "length ext = 16" and "ext ! 12 = t XOR IV ! 4" and "ext ! 14 = f XOR IV ! 6"
  shows "start_extended False bs ext = extended_state bs t f"
proof (rule nth_equalityI)
  fix i assume "i < length (start_extended False bs ext)"
  then have "i < 16" using assms by (simp add: start_extended_def)
  then have "i \<in> {0, 1, 2, 3, 4, 5, 6, 7, 8, 9, 10, 11, 12, 13, 14, 15}"
    by (auto simp: less_Suc_eq numeral_eq_Suc)
  then show "start_extended False bs ext ! i = extended_state bs t f ! i"
    using assms by (auto simp: start_extended_def extended_state_def nth_append)
qed (use assms in \<open>simp add: start_extended_def extended_state_def\<close>)

lemma rounds_before_last:
  "m \<le> n - 1 \<Longrightarrow>
     foldl (\<lambda>p round. one_round x input round (round = n - 1) p) (bs, e) [0..<m] =
     (bs, foldl (\<lambda>v i. mixing_function v
            (if mode_compression x then compression_buffer (compression_mode_node_is_right x) bs input
             else input) (SIGMAS ! i)) e [0..<m])"
  by (induction m) (auto simp: one_round_def Let_def)

lemma all_rounds_state:
  fixes x :: u32 and input st :: "u32 list"
  assumes "length st = 24"
  defines "m \<equiv> if mode_compression x then compression_buffer (compression_mode_node_is_right x) (take 8 st) input
                 else input"
    and "h \<equiv> if mode_compression x then CONFIGURED_IV else take 8 st"
  shows "take 8 (blake2_all_rounds st input x) =
    xor_halves h (run_rounds (reduced_rounds x) (start_extended (mode_compression x) (take 8 st) (drop 8 st)) m)"
proof -
  define e where "e = start_extended (mode_compression x) (take 8 st) (drop 8 st)"
  let ?mix = "foldl (\<lambda>v i. mixing_function v m (SIGMAS ! i)) e"
  obtain n where n: "num_rounds x = Suc n" by (cases "num_rounds x") (auto simp: num_rounds_def split: if_splits)
  have before: "foldl (\<lambda>p round. one_round x input round (round = Suc n - 1) p) (take 8 st, e) [0..<n] =
      (take 8 st, ?mix [0..<n])"
    unfolding m_def by (rule rounds_before_last) simp
  have "take 8 (blake2_all_rounds st input x) = map (\<lambda>i. h ! i XOR (?mix [0..<Suc n] ! i XOR ?mix [0..<Suc n] ! (i + 8))) [0..<8]"
    using before
    by (simp add: blake2_all_rounds_def n Let_def code_consts e_def one_round_def h_def m_def split: prod.split)
  moreover have "run_rounds (reduced_rounds x) e m = ?mix [0..<Suc n]"
    unfolding n [symmetric] num_rounds_def run_rounds_def round_function_reduced_rounds_def
      round_function_full_rounds_def by simp
  ultimately show ?thesis by (simp add: e_def xor_halves_def xor.assoc)
qed

text \<open>
  C10. In compression mode the first eight words of the state after the delegation are
  \<open>compress_two_to_one\<close> of the crate's own hasher, on the two nodes in the order the
  right-node bit asks for.
\<close>

theorem blake2_call_compresses:
  assumes "length st = 24" and "mode_compression x12"
  shows "take 8 (blake2_all_rounds st input x12) =
    compress_two_to_one (reduced_rounds x12)
      (compression_buffer (compression_mode_node_is_right x12) (take 8 st) input)"
  using all_rounds_state [OF assms(1), where x = x12 and input = input] assms(2)
  by (simp add: compress_two_to_one_def start_extended_compression)

theorem blake2_call_compresses_witness:
  "take 8 (blake2_all_rounds (replicate 8 1 @ replicate 16 0) (replicate 16 2) 0xE0000) =
     compress_two_to_one False (replicate 8 2 @ replicate 8 1)"
proof -
  have "mode_compression 0xE0000" "\<not> reduced_rounds 0xE0000" "compression_mode_node_is_right 0xE0000"
    by (simp_all add: mode_compression_def reduced_rounds_def compression_mode_node_is_right_def
        control_bitmask_def code_consts)
  then show ?thesis
    using blake2_call_compresses [where st = "replicate 8 1 @ replicate 16 0"
        and ?x12.0 = "0xE0000" and input = "replicate 16 2"]
    by (simp add: compression_buffer_def)
qed

text \<open>
  Outside compression mode they are the digest \<open>absorb_final_block\<close> returns for the same
  chaining value and block, when words 20 and 22 of the state hold the byte counter and the
  finalisation word the hasher mixes in.
\<close>

lemma blake2_call_absorbs:
  assumes "absorb_final_block c (reduced_rounds x12) h input len = Inr (digest, h')"
    and "\<not> mode_compression x12" and "length st = 24" and "take 8 st = b2_state h"
    and "st ! 20 = b2_t h' XOR IV ! 4" and "st ! 22 = 0xffffffff XOR IV ! 6"
  shows "take 8 (blake2_all_rounds st input x12) = digest"
proof -
  have "length (take 8 st) = 8" using assms(3) by simp
  then have "start_extended False (take 8 st) (drop 8 st) = extended_state (take 8 st) (b2_t h') 0xffffffff"
    using assms by (intro start_extended_plain) simp_all
  then show ?thesis
    using all_rounds_state [OF assms(3), where x = x12 and input = input] assms
    by (auto simp: absorb_final_block_def Let_def res_simps)
qed

end
