(* ===== verification/Keccak.thy ===== *)
theory Keccak
  imports Constants
begin

text \<open>
  The Keccak-f[1600] delegation (\<open>vm/delegations/keccak_special5.rs\<close>): the schedule and
  the arithmetic of the 649 small circuit calls (control word, indices, outputs), and the plain
  permutation \<open>keccak_f1600_impl_ext\<close> that the machine runs in their place. The extended
  state is 31 words: 25 lanes and 6 auxiliary words. The theorem at the end says that both
  compute the same 31 words.
\<close>

section \<open>Control words\<close>

definition PRECOMPILE_IOTA_COLUMNXOR :: u32 where [code_consts]: "PRECOMPILE_IOTA_COLUMNXOR = 0"
definition PRECOMPILE_COLUMNMIX1 :: u32 where [code_consts]: "PRECOMPILE_COLUMNMIX1 = 1"
definition PRECOMPILE_COLUMNMIX2 :: u32 where [code_consts]: "PRECOMPILE_COLUMNMIX2 = 2"
definition PRECOMPILE_THETA :: u32 where [code_consts]: "PRECOMPILE_THETA = 3"
definition PRECOMPILE_RHO :: u32 where [code_consts]: "PRECOMPILE_RHO = 4"
definition PRECOMPILE_CHI1 :: u32 where [code_consts]: "PRECOMPILE_CHI1 = 5"
definition PRECOMPILE_CHI2 :: u32 where [code_consts]: "PRECOMPILE_CHI2 = 6"

definition INITIAL_KECCAK_F1600_CONTROL_VALUE :: u32 where
  [code_consts]: "INITIAL_KECCAK_F1600_CONTROL_VALUE = 0"
definition FINAL_KECCAK_F1600_CONTROL_VALUE :: u32 where
  [code_consts]: "FINAL_KECCAK_F1600_CONTROL_VALUE = 1544"

definition keccak_decode_control :: "cfg \<Rightarrow> u32 \<Rightarrow> (u32 \<times> nat \<times> nat) res" where
  "keccak_decode_control c control =
     (let precompile = control AND 0b111;
          iteration = unat (drop_bit 3 control AND 0b111);
          round = unat (drop_bit 6 control) in
      debug_assert (debug_assertions c)
        (precompile < 7 \<and> iteration < 5 \<and> round < 24 \<or>
         precompile = 0 \<and> iteration < 5 \<and> round \<le> 24)
        (Inr (precompile, iteration, round)))"

definition keccak_bump_control :: "u32 \<Rightarrow> nat \<Rightarrow> nat \<Rightarrow> u32 res" where
  "keccak_bump_control precompile iteration round =
     bindR
       (if precompile \<in> {PRECOMPILE_IOTA_COLUMNXOR, PRECOMPILE_THETA, PRECOMPILE_RHO} then
          Inr (if iteration = 4 then precompile + 1 else precompile, (iteration + 1) mod 5, round)
        else if precompile \<in> {PRECOMPILE_COLUMNMIX1, PRECOMPILE_COLUMNMIX2, PRECOMPILE_CHI1} then
          Inr (precompile + 1, iteration, round)
        else if precompile = PRECOMPILE_CHI2 then
          Inr (if iteration = 4 then PRECOMPILE_IOTA_COLUMNXOR else precompile - 1,
               (iteration + 1) mod 5, if iteration = 4 then round + 1 else round)
        else Inl AssertFailed)
       (\<lambda>(precompile_next, iteration_next, round_next).
          Inr (precompile_next OR push_bit 3 (word_of_nat iteration_next)
               OR push_bit 6 (word_of_nat round_next)))"

section \<open>Indices\<close>

text \<open>
  Where each lane lives at the start of a round: the lanes are never moved, so the
  permutation of the rounds before is applied to the indices.
\<close>

definition PERMUTATIONS_ADJUSTED :: "nat list list" where
  "PERMUTATIONS_ADJUSTED =
    [[0, 1, 2, 3, 4, 5, 6, 7, 8, 9, 10, 11, 12, 13, 14, 15, 16, 17, 18, 19, 20, 21, 22, 23, 24],
     [0, 6, 12, 18, 24, 3, 9, 10, 16, 22, 1, 7, 13, 19, 20, 4, 5, 11, 17, 23, 2, 8, 14, 15, 21],
     [0, 9, 13, 17, 21, 18, 22, 1, 5, 14, 6, 10, 19, 23, 2, 24, 3, 7, 11, 15, 12, 16, 20, 4, 8],
     [0, 22, 19, 11, 8, 17, 14, 6, 3, 20, 9, 1, 23, 15, 12, 21, 18, 10, 7, 4, 13, 5, 2, 24, 16],
     [0, 14, 23, 7, 16, 11, 20, 9, 18, 2, 22, 6, 15, 4, 13, 8, 17, 1, 10, 24, 19, 3, 12, 21, 5],
     [0, 20, 15, 10, 5, 7, 2, 22, 17, 12, 14, 9, 4, 24, 19, 16, 11, 6, 1, 21, 23, 18, 13, 8, 3],
     [0, 2, 4, 1, 3, 10, 12, 14, 11, 13, 20, 22, 24, 21, 23, 5, 7, 9, 6, 8, 15, 17, 19, 16, 18],
     [0, 12, 24, 6, 18, 1, 13, 20, 7, 19, 2, 14, 21, 8, 15, 3, 10, 22, 9, 16, 4, 11, 23, 5, 17],
     [0, 13, 21, 9, 17, 6, 19, 2, 10, 23, 12, 20, 8, 16, 4, 18, 1, 14, 22, 5, 24, 7, 15, 3, 11],
     [0, 19, 8, 22, 11, 9, 23, 12, 1, 15, 13, 2, 16, 5, 24, 17, 6, 20, 14, 3, 21, 10, 4, 18, 7],
     [0, 23, 16, 14, 7, 22, 15, 13, 6, 4, 19, 12, 5, 3, 21, 11, 9, 2, 20, 18, 8, 1, 24, 17, 10],
     [0, 15, 5, 20, 10, 14, 4, 19, 9, 24, 23, 13, 3, 18, 8, 7, 22, 12, 2, 17, 16, 6, 21, 11, 1],
     [0, 4, 3, 2, 1, 20, 24, 23, 22, 21, 15, 19, 18, 17, 16, 10, 14, 13, 12, 11, 5, 9, 8, 7, 6],
     [0, 24, 18, 12, 6, 2, 21, 15, 14, 8, 4, 23, 17, 11, 5, 1, 20, 19, 13, 7, 3, 22, 16, 10, 9],
     [0, 21, 17, 13, 9, 12, 8, 4, 20, 16, 24, 15, 11, 7, 3, 6, 2, 23, 19, 10, 18, 14, 5, 1, 22],
     [0, 8, 11, 19, 22, 13, 16, 24, 2, 5, 21, 4, 7, 10, 18, 9, 12, 15, 23, 1, 17, 20, 3, 6, 14],
     [0, 16, 7, 23, 14, 19, 5, 21, 12, 3, 8, 24, 10, 1, 17, 22, 13, 4, 15, 6, 11, 2, 18, 9, 20],
     [0, 5, 10, 15, 20, 23, 3, 8, 13, 18, 16, 21, 1, 6, 11, 14, 19, 24, 4, 9, 7, 12, 17, 22, 2],
     [0, 3, 1, 4, 2, 15, 18, 16, 19, 17, 5, 8, 6, 9, 7, 20, 23, 21, 24, 22, 10, 13, 11, 14, 12],
     [0, 18, 6, 24, 12, 4, 17, 5, 23, 11, 3, 16, 9, 22, 10, 2, 15, 8, 21, 14, 1, 19, 7, 20, 13],
     [0, 17, 9, 21, 13, 24, 11, 3, 15, 7, 18, 5, 22, 14, 1, 12, 4, 16, 8, 20, 6, 23, 10, 2, 19],
     [0, 11, 22, 8, 19, 21, 7, 18, 4, 10, 17, 3, 14, 20, 6, 13, 24, 5, 16, 2, 9, 15, 1, 12, 23],
     [0, 7, 14, 16, 23, 8, 10, 17, 24, 1, 11, 18, 20, 2, 9, 19, 21, 3, 5, 12, 22, 4, 6, 13, 15],
     [0, 10, 20, 5, 15, 16, 1, 11, 21, 6, 7, 17, 2, 12, 22, 23, 8, 18, 3, 13, 14, 24, 9, 19, 4],
     [0, 1, 2, 3, 4, 5, 6, 7, 8, 9, 10, 11, 12, 13, 14, 15, 16, 17, 18, 19, 20, 21, 22, 23, 24]]"

definition keccak_extract_indices :: "u32 \<Rightarrow> nat \<Rightarrow> nat \<Rightarrow> nat list res" where
  "keccak_extract_indices precompile iteration round =
     (if precompile = PRECOMPILE_IOTA_COLUMNXOR then
        guardR (round < 25) IndexOutOfBounds
        (let p = PERMUTATIONS_ADJUSTED ! round in
         guardR (iteration + 20 < 25) IndexOutOfBounds
         (Inr [p ! iteration, p ! (iteration + 5), p ! (iteration + 10), p ! (iteration + 15),
               p ! (iteration + 20), 25 + iteration]))
      else if precompile = PRECOMPILE_COLUMNMIX1 then Inr [25, 26, 27, 28, 29, 30]
      else if precompile = PRECOMPILE_COLUMNMIX2 then Inr [25, 26, 27, 28, 29, 30]
      else if precompile = PRECOMPILE_THETA then
        guardR (round < 25) IndexOutOfBounds
        (let p = PERMUTATIONS_ADJUSTED ! round in
         guardR (iteration < 5) IndexOutOfBounds
         (let idcol = [29, 25, 26, 27, 28] ! iteration in
          Inr [p ! iteration, p ! (iteration + 5), p ! (iteration + 10), p ! (iteration + 15),
               p ! (iteration + 20), idcol]))
      else if precompile = PRECOMPILE_RHO then
        guardR (round < 25) IndexOutOfBounds
        (let p = PERMUTATIONS_ADJUSTED ! round in
         guardR (iteration + 20 < 25) IndexOutOfBounds
         (Inr [p ! iteration, p ! (iteration + 5), p ! (iteration + 10), p ! (iteration + 15),
               p ! (iteration + 20), 25]))
      else if precompile = PRECOMPILE_CHI1 then
        guardR (round + 1 < 25) IndexOutOfBounds
        (let p = PERMUTATIONS_ADJUSTED ! (round + 1); idx = iteration * 5 in
         guardR (idx + 4 < 25) IndexOutOfBounds
         (Inr [p ! (idx + 1), p ! (idx + 2), p ! (idx + 3), p ! (idx + 4), 25, 26]))
      else if precompile = PRECOMPILE_CHI2 then
        guardR (round + 1 < 25) IndexOutOfBounds
        (let p = PERMUTATIONS_ADJUSTED ! (round + 1); idx = iteration * 5 in
         guardR (idx + 4 < 25) IndexOutOfBounds
         (Inr [p ! idx, p ! (idx + 3), p ! (idx + 4), 25, 26, 27]))
      else Inl AssertFailed)"

section \<open>Outputs\<close>

definition ROUND_CONSTANTS_ADJUSTED :: "u64 list" where
  "ROUND_CONSTANTS_ADJUSTED =
    [0, 1, 32898, 9223372036854808714, 9223372039002292224,
     32907, 2147483649, 9223372039002292353, 9223372036854808585, 138,
     136, 2147516425, 2147483658, 2147516555, 9223372036854775947,
     9223372036854808713, 9223372036854808579, 9223372036854808578, 9223372036854775936, 32778,
     9223372039002259466, 9223372039002292353, 9223372036854808704, 2147483649, 9223372039002292232]"

definition keccak_rho_rotations :: "nat \<Rightarrow> nat list res" where
  "keccak_rho_rotations iteration =
     (if iteration = 0 then Inr [0, 36, 3, 41, 18]
      else if iteration = 1 then Inr [1, 44, 10, 45, 2]
      else if iteration = 2 then Inr [62, 6, 43, 15, 61]
      else if iteration = 3 then Inr [28, 55, 25, 21, 56]
      else if iteration = 4 then Inr [27, 20, 39, 8, 14]
      else Inl AssertFailed)"

definition keccak_compute_outputs :: "u32 \<Rightarrow> nat \<Rightarrow> nat \<Rightarrow> u64 list \<Rightarrow> u64 list res" where
  "keccak_compute_outputs precompile iteration round state_inputs =
     (let i0 = state_inputs ! 0; i1 = state_inputs ! 1; i2 = state_inputs ! 2;
          i3 = state_inputs ! 3; i4 = state_inputs ! 4; i5 = state_inputs ! 5 in
      if precompile = PRECOMPILE_IOTA_COLUMNXOR then
        (let round_if_iter0 = (if iteration = 0 then round else 0) in
         guardR (round_if_iter0 < 25) IndexOutOfBounds
         (let idx0_new = i0 XOR ROUND_CONSTANTS_ADJUSTED ! round_if_iter0 in
          Inr [idx0_new, i1, i2, i3, i4, (((idx0_new XOR i1) XOR i2) XOR i3) XOR i4]))
      else if precompile = PRECOMPILE_COLUMNMIX1 then
        Inr [i0 XOR word_rotl 1 i2, i1, i2 XOR word_rotl 1 i4, i3, i4, word_rotl 1 i0]
      else if precompile = PRECOMPILE_COLUMNMIX2 then
        Inr [i0, i1 XOR word_rotl 1 i3, i2, i3 XOR i5, i4 XOR word_rotl 1 i1, i5]
      else if precompile = PRECOMPILE_THETA then
        Inr [i0 XOR i5, i1 XOR i5, i2 XOR i5, i3 XOR i5, i4 XOR i5, i5]
      else if precompile = PRECOMPILE_RHO then
        bindR (keccak_rho_rotations iteration) (\<lambda>rot.
        Inr [word_rotl (rot ! 0) i0, word_rotl (rot ! 1) i1, word_rotl (rot ! 2) i2,
             word_rotl (rot ! 3) i3, word_rotl (rot ! 4) i4, i5])
      else if precompile = PRECOMPILE_CHI1 then
        Inr [i0 XOR (NOT i1 AND i2), i1 XOR (NOT i2 AND i3), i2, i3, NOT i0 AND i1, i0]
      else if precompile = PRECOMPILE_CHI2 then
        Inr [i0 XOR i3, i1 XOR (NOT i2 AND i0), i2 XOR (NOT i0 AND i4), i3, i4, i5]
      else Inl AssertFailed)"

section \<open>One call of the circuit\<close>

text \<open>
  The loop body the replayer runs 649 times: decode the control word, read the six words it
  selects, write their new values back, and advance the control word.
\<close>

definition write_indices :: "nat list \<Rightarrow> 'a list \<Rightarrow> 'a list \<Rightarrow> 'a list" where
  "write_indices indices outputs s = foldl (\<lambda>s j. s[indices ! j := outputs ! j]) s [0..<6]"

definition keccak_special5_step :: "cfg \<Rightarrow> u32 \<times> u64 list \<Rightarrow> (u32 \<times> u64 list) res" where
  "keccak_special5_step c = (\<lambda>(control, s).
     bindR (keccak_decode_control c control) (\<lambda>(precompile, iteration, round).
     bindR (keccak_bump_control precompile iteration round) (\<lambda>next_control.
     bindR (keccak_extract_indices precompile iteration round) (\<lambda>state_indexes.
     bindR (keccak_compute_outputs precompile iteration round (map (\<lambda>i. s ! i) state_indexes)) (\<lambda>outputs.
     Inr (next_control, write_indices state_indexes outputs s))))))"

text \<open>
  The constant \<open>KECCAK_FINAL_TIMESTAMP_OFFSETS\<close>: for each word, the offset of the last call
  that writes it. Its initialiser is a loop that is evaluated at compile time.
\<close>

definition timestamp_offsets_step :: "cfg \<Rightarrow> nat \<Rightarrow> u32 \<times> u64 list \<Rightarrow> (u32 \<times> u64 list) res" where
  "timestamp_offsets_step c call_round = (\<lambda>(control, result).
     let ts_offset = word_of_nat call_round * TIMESTAMP_STEP in
     bindR (keccak_decode_control c control) (\<lambda>(precompile, iteration, round).
     bindR (keccak_bump_control precompile iteration round) (\<lambda>control_next.
     bindR (keccak_extract_indices precompile iteration round) (\<lambda>state_indexes.
     Inr (control_next, write_indices state_indexes (replicate 6 ts_offset) result)))))"

definition KECCAK_FINAL_TIMESTAMP_OFFSETS :: "cfg \<Rightarrow> u64 list res" where
  "KECCAK_FINAL_TIMESTAMP_OFFSETS c =
     bindR (foldR (timestamp_offsets_step c) [0..<NUM_DELEGATION_CALLS_FOR_KECCAK_F1600]
              (INITIAL_KECCAK_F1600_CONTROL_VALUE, replicate 31 0)) (\<lambda>(control, result).
     guardR (control = FINAL_KECCAK_F1600_CONTROL_VALUE) AssertFailed
     (guardR (\<forall>t \<in> set result. t mod TIMESTAMP_STEP = 0) AssertFailed (Inr result)))"

section \<open>The permutation\<close>

definition RHO :: "nat list" where
  "RHO = [1, 3, 6, 10, 15, 21, 28, 36, 45, 55, 2, 14, 27, 41, 56, 8, 25, 43, 62, 18, 39, 61, 20, 44]"

definition PI_INDICES :: "nat list" where
  "PI_INDICES =
     [10, 7, 11, 17, 18, 3, 5, 16, 8, 21, 24, 4, 15, 23, 19, 13, 12, 2, 20, 14, 22, 9, 6, 1]"

definition RC :: "u64 list" where
  "RC =
    [0x0000000000000001, 0x0000000000008082, 0x800000000000808a, 0x8000000080008000,
     0x000000000000808b, 0x0000000080000001, 0x8000000080008081, 0x8000000000008009,
     0x000000000000008a, 0x0000000000000088, 0x0000000080008009, 0x000000008000000a,
     0x000000008000808b, 0x800000000000008b, 0x8000000000008089, 0x8000000000008003,
     0x8000000000008002, 0x8000000000000080, 0x000000000000800a, 0x800000008000000a,
     0x8000000080008081, 0x8000000000008080, 0x0000000080000001, 0x8000000080008008]"

definition column_parity :: "u64 list \<Rightarrow> u64 list" where
  "column_parity s = map (\<lambda>x. foldl (\<lambda>a y. a XOR s ! (5 * y + x)) 0 [0..<5]) [0..<5]"

definition theta_word :: "u64 list \<Rightarrow> nat \<Rightarrow> u64" where
  "theta_word parity x = parity ! ((x + 4) mod 5) XOR word_rotl 1 (parity ! ((x + 1) mod 5))"

definition theta :: "u64 list \<Rightarrow> u64 list" where
  "theta s =
     (let parity = column_parity s in
      foldl (\<lambda>s x. let t = theta_word parity x in
               foldl (\<lambda>s y. s[5 * y + x := s ! (5 * y + x) XOR t]) s [0..<5]) s [0..<5])"

definition rho_pi :: "u64 list \<Rightarrow> u64 list" where
  "rho_pi s =
     fst (foldl (\<lambda>(s, last) x. (s[PI_INDICES ! x := word_rotl (RHO ! x) last], s ! (PI_INDICES ! x)))
            (s, s ! 1) [0..<24])"

definition chi :: "u64 list \<Rightarrow> u64 list" where
  "chi s =
     foldl (\<lambda>s y_step. let y = 5 * y_step; row = map (\<lambda>x. s ! (y + x)) [0..<5] in
              foldl (\<lambda>s x. s[y + x := row ! x XOR (NOT (row ! ((x + 1) mod 5)) AND row ! ((x + 2) mod 5))])
                s [0..<5]) s [0..<5]"

definition keccak_round :: "nat \<Rightarrow> u64 list \<Rightarrow> u64 list" where
  "keccak_round round s = (let s = chi (rho_pi (theta s)) in s[0 := s ! 0 XOR RC ! round])"

text \<open>The last round also fills the six auxiliary words.\<close>

definition last_theta :: "u64 list \<Rightarrow> u64 list" where
  "last_theta s =
     (let parity = column_parity s in
      foldl (\<lambda>s x. let t = theta_word parity x;
                      s = (if x = 0 then s[29 := t] else s);
                      s = (if x = 3 then s[27 := t] else s);
                      s = (if x = 4 then s[28 := t, 30 := word_rotl 1 (parity ! ((x + 1) mod 5))] else s) in
               foldl (\<lambda>s y. s[5 * y + x := s ! (5 * y + x) XOR t]) s [0..<5]) s [0..<5])"

definition last_round_ext :: "u64 list \<Rightarrow> u64 list" where
  "last_round_ext s =
     (let s = rho_pi (last_theta s);
          s = s[26 := s ! 21];
          s = chi s;
          s = s[0 := s ! 0 XOR RC ! 23] in
      s[25 := s ! 0 XOR s ! 5 XOR s ! 10 XOR s ! 15 XOR s ! 20])"

definition keccak_f1600_impl_ext :: "u64 list \<Rightarrow> u64 list" where
  "keccak_f1600_impl_ext s = last_round_ext (foldl (\<lambda>s round. keccak_round round s) s [0..<23])"

end
