(* ===== verification/Keccak_Equiv.thy ===== *)
theory Keccak_Equiv
  imports Keccak
begin

text \<open>
  The 649 calls of the circuit compute the permutation. Because the lanes never move, the
  state is looked at through the index permutation of the round (\<open>view\<close>); there each call is
  the same in every round, and the calls of a round are theta, rho, pi and chi.
\<close>

section \<open>Control words\<close>

definition ctl :: "u32 \<Rightarrow> nat \<Rightarrow> nat \<Rightarrow> u32" where
  "ctl p i r = p OR push_bit 3 (word_of_nat i) OR push_bit 6 (word_of_nat r)"

lemma small_nat_bit: "bit (n :: nat) j \<Longrightarrow> n < 2 ^ k \<Longrightarrow> j < k"
  using take_bit_nat_eq_self [of n k] bit_take_bit_iff [of k n j] by auto

lemma small_bit: "bit p j \<Longrightarrow> (p :: u32) < 8 \<Longrightarrow> j < 3"
  using small_nat_bit [of "unat p" j 3] by (simp add: word_less_nat_alt bit_unsigned_iff bit_imp_le_length)

lemma unat_small: "n < 2 ^ 20 \<Longrightarrow> unat (word_of_nat n :: u32) = n"
  by (simp add: unat_of_nat)

lemma decode_ctl:
  assumes "p < 8" and "i < 8" and "r < 32"
  shows "ctl p i r AND 0b111 = p" "drop_bit 3 (ctl p i r) AND 0b111 = word_of_nat i"
    "drop_bit 6 (ctl p i r) = word_of_nat r"
proof -
  note b = small_bit [OF _ assms(1)] small_nat_bit [of i _ 3] small_nat_bit [of r _ 5]
  have m: "(0b111 :: u32) = mask 3" by (simp add: mask_eq_exp_minus_1)
  show "ctl p i r AND 0b111 = p" unfolding m ctl_def
    by (rule bit_word_eqI) (use assms in \<open>auto simp: bit_simps not_less dest: b\<close>)
  show "drop_bit 3 (ctl p i r) AND 0b111 = word_of_nat i" unfolding m ctl_def
    by (rule bit_word_eqI) (use assms in \<open>auto simp: bit_simps not_less dest: b\<close>)
  show "drop_bit 6 (ctl p i r) = word_of_nat r" unfolding ctl_def
    by (rule bit_word_eqI) (use assms in \<open>auto simp: bit_simps not_less dest: b\<close>)
qed

definition valid_call :: "u32 \<Rightarrow> nat \<Rightarrow> nat \<Rightarrow> bool" where
  "valid_call p i r \<longleftrightarrow> p < 7 \<and> i < 5 \<and> (r < 24 \<or> p = 0 \<and> r = 24)"

lemma decode_valid:
  assumes "valid_call p i r"
  shows "keccak_decode_control c (ctl p i r) = Inr (p, i, r)"
proof -
  have "p < 8" using assms by (auto simp: valid_call_def intro: less_trans)
  then show ?thesis
    using assms decode_ctl [of p i r] unat_small [of i] unat_small [of r]
    by (auto simp: keccak_decode_control_def valid_call_def Let_def)
qed

section \<open>The state seen through a permutation\<close>

definition view :: "nat list \<Rightarrow> 'a list \<Rightarrow> 'a list" where
  "view q s = map (\<lambda>i. s ! i) q"

definition lanes :: "nat \<Rightarrow> nat list" where
  "lanes r = PERMUTATIONS_ADJUSTED ! r @ [25, 26, 27, 28, 29, 30]"

definition good_lanes :: "nat list \<Rightarrow> bool" where
  "good_lanes q \<longleftrightarrow> length q = 31 \<and> distinct q \<and> list_all (\<lambda>i. i < 31) q"

lemma lanes_all: "list_all (\<lambda>q. good_lanes (q @ [25, 26, 27, 28, 29, 30])) PERMUTATIONS_ADJUSTED"
  unfolding PERMUTATIONS_ADJUSTED_def good_lanes_def by simp

lemma length_PERMUTATIONS: "length PERMUTATIONS_ADJUSTED = 25"
  by (simp add: PERMUTATIONS_ADJUSTED_def)

lemma lanes_ok:
  assumes "r \<le> 24"
  shows "length (lanes r) = 31" "distinct (lanes r)" "\<forall>i \<in> set (lanes r). i < 31"
proof -
  have "good_lanes (lanes r)"
    using lanes_all assms by (simp only: list_all_length length_PERMUTATIONS lanes_def)
  then show "length (lanes r) = 31" "distinct (lanes r)" "\<forall>i \<in> set (lanes r). i < 31"
    by (simp_all add: good_lanes_def list_all_iff)
qed

lemma view_update:
  assumes "distinct q" and "i < length q" and "\<forall>j \<in> set q. j < length s"
  shows "view q (s[q ! i := v]) = (view q s)[i := v]"
  using assms by (intro nth_equalityI) (auto simp: view_def nth_list_update nth_eq_iff_index_eq)

lemma length_updates: "length (foldl (\<lambda>s j. s[f j := g j]) s js) = length s"
  by (induction js rule: rev_induct) simp_all

lemma length_write_indices [simp]: "length (write_indices idx outs s) = length s"
  by (simp add: write_indices_def length_updates del: upt_Suc)

lemma view_write:
  assumes "distinct q" and "\<forall>j \<in> set q. j < length s" and "length idx = 6" and "\<forall>i \<in> set idx. i < length q"
  shows "view q (write_indices (map (\<lambda>i. q ! i) idx) outs s) = write_indices idx outs (view q s)"
proof -
  have "view q (foldl (\<lambda>s j. s[map (\<lambda>i. q ! i) idx ! j := outs ! j]) s js) =
        foldl (\<lambda>s j. s[idx ! j := outs ! j]) (view q s) js" if "\<forall>j \<in> set js. j < 6" for js
    using that assms
  proof (induction js rule: rev_induct)
    case (snoc j js)
    then show ?case by (simp add: view_update length_updates)
  qed simp
  then show ?thesis by (simp add: write_indices_def del: upt_Suc)
qed

section \<open>One call, seen through the permutation\<close>

definition logical_indices :: "u32 \<Rightarrow> nat \<Rightarrow> nat list" where
  "logical_indices p i =
     (if p = 0 then [i, i + 5, i + 10, i + 15, i + 20, 25 + i]
      else if p = 3 then [i, i + 5, i + 10, i + 15, i + 20, [29, 25, 26, 27, 28] ! i]
      else if p = 4 then [i, i + 5, i + 10, i + 15, i + 20, 25]
      else if p = 5 then [i * 5 + 1, i * 5 + 2, i * 5 + 3, i * 5 + 4, 25, 26]
      else if p = 6 then [i * 5, i * 5 + 3, i * 5 + 4, 25, 26, 27]
      else [25, 26, 27, 28, 29, 30])"

definition call_lanes :: "u32 \<Rightarrow> nat \<Rightarrow> nat list" where
  "call_lanes p r = lanes (if p < 5 then r else r + 1)"

definition logical_call :: "nat \<Rightarrow> u64 list \<Rightarrow> u32 \<times> nat \<Rightarrow> u64 list" where
  "logical_call r ls = (\<lambda>(p, i).
     case keccak_compute_outputs p i r (map (\<lambda>j. ls ! j) (logical_indices p i)) of
       Inl _ \<Rightarrow> ls | Inr outs \<Rightarrow> write_indices (logical_indices p i) outs ls)"

lemma small_u32: "(p :: u32) < 7 \<Longrightarrow> p = 0 \<or> p = 1 \<or> p = 2 \<or> p = 3 \<or> p = 4 \<or> p = 5 \<or> p = 6"
proof -
  assume "p < 7"
  then have "unat p < 7" by (simp add: word_less_nat_alt)
  then have "unat p \<in> {0, 1, 2, 3, 4, 5, 6}" by auto
  then show ?thesis by (auto simp: word_unat_eq_iff)
qed

lemma lanes_nth: "r \<le> 24 \<Longrightarrow> j < 25 \<Longrightarrow> lanes r ! j = PERMUTATIONS_ADJUSTED ! r ! j"
  "r \<le> 24 \<Longrightarrow> 25 \<le> j \<Longrightarrow> j < 31 \<Longrightarrow> lanes r ! j = j"
proof -
  assume r: "r \<le> 24"
  have "length (PERMUTATIONS_ADJUSTED ! r) = 25" using lanes_ok(1) [OF r] by (simp add: lanes_def)
  moreover have "[25, 26, 27, 28, 29, 30] ! k = 25 + k" if "k < 6" for k :: nat
    using that by (auto simp: less_Suc_eq numeral_eq_Suc)
  ultimately show "j < 25 \<Longrightarrow> lanes r ! j = PERMUTATIONS_ADJUSTED ! r ! j"
    "25 \<le> j \<Longrightarrow> j < 31 \<Longrightarrow> lanes r ! j = j"
    by (simp_all add: lanes_def nth_append)
qed

lemma valid_cases:
  assumes "valid_call p i r"
  obtains "p = 0" "r \<le> 24" | "p = 1" "r < 24" | "p = 2" "r < 24" | "p = 3" "r < 24"
    | "p = 4" "r < 24" | "p = 5" "r < 24" | "p = 6" "r < 24"
  using assms small_u32 [of p] unfolding valid_call_def by fastforce

lemma iteration_cases:
  assumes "valid_call p i r"
  obtains "i = 0" | "i = 1" | "i = 2" | "i = 3" | "i = 4"
  using assms unfolding valid_call_def by fastforce

lemma indices_length: "length (logical_indices p i) = 6"
  by (simp add: logical_indices_def)

lemma indices_bound:
  assumes "valid_call p i r"
  shows "list_all (\<lambda>j. j < 31) (logical_indices p i)"
  using assms
  by (cases rule: valid_cases; cases rule: iteration_cases) (simp_all add: logical_indices_def)

lemma indices_logical:
  assumes "valid_call p i r"
  shows "keccak_extract_indices p i r = Inr (map (\<lambda>j. call_lanes p r ! j) (logical_indices p i))"
proof -
  have i: "i < 5" using assms by (simp add: valid_call_def)
  have col: "[29, 25, 26, 27, 28] ! i = lanes r ! ([29, 25, 26, 27, 28] ! i)" if "r \<le> 24" for r
    using assms that by (cases rule: iteration_cases) (simp_all add: lanes_nth)
  show ?thesis
    using assms
    by (cases rule: valid_cases)
      (use i in \<open>simp_all add: keccak_extract_indices_def logical_indices_def call_lanes_def code_consts
         lanes_nth Let_def flip: col\<close>)
qed

lemma outputs_ok:
  assumes "valid_call p i r"
  shows "\<exists>outs. keccak_compute_outputs p i r ins = Inr outs"
proof -
  obtain rot where "keccak_rho_rotations i = Inr rot"
    using assms by (cases rule: iteration_cases) (simp_all add: keccak_rho_rotations_def)
  then show ?thesis
    by (cases rule: valid_cases [OF assms]) (simp_all add: keccak_compute_outputs_def code_consts Let_def)
qed

lemma step_view:
  assumes v: "valid_call p i r" and len: "length s = 31" and nx: "keccak_bump_control p i r = Inr w"
  shows "\<exists>s'. keccak_special5_step c (ctl p i r, s) = Inr (w, s') \<and> length s' = 31 \<and>
    view (call_lanes p r) s' = logical_call r (view (call_lanes p r) s) (p, i)"
proof -
  have r: "(if p < 5 then r else r + 1) \<le> 24" using v by (auto simp: valid_call_def)
  note q = lanes_ok [OF r, folded call_lanes_def]
  note idx = indices_logical [OF v] indices_length [of p i] indices_bound [OF v, unfolded list_all_iff]
  let ?idx = "logical_indices p i" and ?q = "call_lanes p r"
  have ins: "map (\<lambda>j. s ! j) (map (\<lambda>j. ?q ! j) ?idx) = map (\<lambda>j. view ?q s ! j) ?idx"
    using idx q by (simp add: view_def)
  obtain outs where o: "keccak_compute_outputs p i r (map (\<lambda>j. view ?q s ! j) ?idx) = Inr outs"
    using outputs_ok [OF v] by blast
  have "view ?q (write_indices (map (\<lambda>j. ?q ! j) ?idx) outs s) = write_indices ?idx outs (view ?q s)"
    using q idx len by (intro view_write) simp_all
  then show ?thesis
    using len idx(1) nx o ins
    by (simp add: keccak_special5_step_def decode_valid [OF v] logical_call_def del: map_map)
qed

section \<open>The calls of a round\<close>

text \<open>Five calls for the column sums, two to mix them, five for theta, five for rho; then ten for chi.\<close>

definition lane_calls :: "(u32 \<times> nat) list" where
  "lane_calls = [(0, 0), (0, 1), (0, 2), (0, 3), (0, 4), (1, 0), (2, 0),
     (3, 0), (3, 1), (3, 2), (3, 3), (3, 4), (4, 0), (4, 1), (4, 2), (4, 3), (4, 4)]"

definition chi_calls :: "(u32 \<times> nat) list" where
  "chi_calls = [(5, 0), (6, 0), (5, 1), (6, 1), (5, 2), (6, 2), (5, 3), (6, 3), (5, 4), (6, 4)]"

text \<open>Each call's control word is the one the call before it left.\<close>

fun chained :: "nat \<Rightarrow> (u32 \<times> nat) list \<Rightarrow> u32 \<Rightarrow> bool" where
  "chained r [] w \<longleftrightarrow> True"
| "chained r [(p, i)] w \<longleftrightarrow> keccak_bump_control p i r = Inr w"
| "chained r ((p, i) # (p', i') # cs) w \<longleftrightarrow>
     keccak_bump_control p i r = Inr (ctl p' i' r) \<and> chained r ((p', i') # cs) w"

lemma run_calls:
  assumes "chained r cs w" and "cs \<noteq> []" and "\<forall>(p, i) \<in> set cs. valid_call p i r \<and> call_lanes p r = q"
    and "length s = 31"
  shows "\<exists>s'. foldR (\<lambda>_. keccak_special5_step c) cs (ctl (fst (hd cs)) (snd (hd cs)) r, s) = Inr (w, s') \<and>
    length s' = 31 \<and> view q s' = foldl (logical_call r) (view q s) cs"
  using assms
proof (induction r cs w arbitrary: s rule: chained.induct)
  case (2 r p i w)
  then show ?case using step_view [of p i r s w c] by auto
next
  case (3 r p i p' i' cs w)
  then obtain s1 where s1: "keccak_special5_step c (ctl p i r, s) = Inr (ctl p' i' r, s1)"
    "length s1 = 31" "view q s1 = logical_call r (view q s) (p, i)"
    using step_view [of p i r s "ctl p' i' r" c] by auto
  have "chained r ((p', i') # cs) w" "\<forall>(p, i) \<in> set ((p', i') # cs). valid_call p i r \<and> call_lanes p r = q"
    using "3.prems" by simp_all
  from "3.IH" [OF this(1) _ this(2) s1(2)] s1 show ?case by simp
qed simp

lemma foldR_const: "length xs = length ys \<Longrightarrow> foldR (\<lambda>_. f) xs = foldR (\<lambda>_. f) ys"
proof (induction xs arbitrary: ys)
  case (Cons x xs)
  then show ?case by (cases ys) (auto intro!: ext)
qed (auto intro!: ext)

lemma lane_calls_chained: "r < 24 \<Longrightarrow> chained r lane_calls (ctl 5 0 r)"
  by (simp add: lane_calls_def keccak_bump_control_def code_consts ctl_def)

lemma chi_calls_chained: "r < 24 \<Longrightarrow> chained r chi_calls (ctl 0 0 (Suc r))"
  by (simp add: chi_calls_def keccak_bump_control_def code_consts ctl_def)

lemma calls_valid:
  assumes "r < 24"
  shows "\<forall>(p, i) \<in> set lane_calls. valid_call p i r \<and> call_lanes p r = lanes r"
    and "\<forall>(p, i) \<in> set chi_calls. valid_call p i r \<and> call_lanes p r = lanes (Suc r)"
  using assms by (simp_all add: lane_calls_def chi_calls_def valid_call_def call_lanes_def)

section \<open>The calls on an explicit state\<close>

lemma write_indices_six:
  "write_indices [i0, i1, i2, i3, i4, i5] [o0, o1, o2, o3, o4, o5] s =
     s[i0 := o0, i1 := o1, i2 := o2, i3 := o3, i4 := o4, i5 := o5]"
  by (simp add: write_indices_def upt_rec)

lemma iota_call:
  "r < 25 \<Longrightarrow> logical_call r ls (0, i) =
     (let b = ls ! i XOR ROUND_CONSTANTS_ADJUSTED ! (if i = 0 then r else 0) in
      ls[i := b, i + 5 := ls ! (i + 5), i + 10 := ls ! (i + 10), i + 15 := ls ! (i + 15),
         i + 20 := ls ! (i + 20),
         25 + i := (((b XOR ls ! (i + 5)) XOR ls ! (i + 10)) XOR ls ! (i + 15)) XOR ls ! (i + 20)])"
  by (simp add: logical_call_def logical_indices_def keccak_compute_outputs_def code_consts Let_def
      write_indices_six)

lemma mix_call:
  "logical_call r ls (1, i) =
     ls[25 := ls ! 25 XOR word_rotl 1 (ls ! 27), 26 := ls ! 26,
        27 := ls ! 27 XOR word_rotl 1 (ls ! 29), 28 := ls ! 28, 29 := ls ! 29,
        30 := word_rotl 1 (ls ! 25)]"
  "logical_call r ls (2, i) =
     ls[25 := ls ! 25, 26 := ls ! 26 XOR word_rotl 1 (ls ! 28), 27 := ls ! 27,
        28 := ls ! 28 XOR ls ! 30, 29 := ls ! 29 XOR word_rotl 1 (ls ! 26), 30 := ls ! 30]"
  by (simp_all add: logical_call_def logical_indices_def keccak_compute_outputs_def code_consts Let_def
      write_indices_six)

lemma theta_call:
  "logical_call r ls (3, i) =
     (let k = [29, 25, 26, 27, 28] ! i in
      ls[i := ls ! i XOR ls ! k, i + 5 := ls ! (i + 5) XOR ls ! k, i + 10 := ls ! (i + 10) XOR ls ! k,
         i + 15 := ls ! (i + 15) XOR ls ! k, i + 20 := ls ! (i + 20) XOR ls ! k, k := ls ! k])"
  by (simp add: logical_call_def logical_indices_def keccak_compute_outputs_def code_consts Let_def
      write_indices_six)

lemma rho_call:
  "keccak_rho_rotations i = Inr rot \<Longrightarrow> logical_call r ls (4, i) =
     ls[i := word_rotl (rot ! 0) (ls ! i), i + 5 := word_rotl (rot ! 1) (ls ! (i + 5)),
        i + 10 := word_rotl (rot ! 2) (ls ! (i + 10)), i + 15 := word_rotl (rot ! 3) (ls ! (i + 15)),
        i + 20 := word_rotl (rot ! 4) (ls ! (i + 20)), 25 := ls ! 25]"
  by (simp add: logical_call_def logical_indices_def keccak_compute_outputs_def code_consts Let_def
      write_indices_six)

lemma chi_call:
  "logical_call r ls (5, i) =
     ls[i * 5 + 1 := ls ! (i * 5 + 1) XOR (NOT (ls ! (i * 5 + 2)) AND ls ! (i * 5 + 3)),
        i * 5 + 2 := ls ! (i * 5 + 2) XOR (NOT (ls ! (i * 5 + 3)) AND ls ! (i * 5 + 4)),
        i * 5 + 3 := ls ! (i * 5 + 3), i * 5 + 4 := ls ! (i * 5 + 4),
        25 := NOT (ls ! (i * 5 + 1)) AND ls ! (i * 5 + 2), 26 := ls ! (i * 5 + 1)]"
  "logical_call r ls (6, i) =
     ls[i * 5 := ls ! (i * 5) XOR ls ! 25,
        i * 5 + 3 := ls ! (i * 5 + 3) XOR (NOT (ls ! (i * 5 + 4)) AND ls ! (i * 5)),
        i * 5 + 4 := ls ! (i * 5 + 4) XOR (NOT (ls ! (i * 5)) AND ls ! 26),
        25 := ls ! 25, 26 := ls ! 26, 27 := ls ! 27]"
  by (simp_all add: logical_call_def logical_indices_def keccak_compute_outputs_def code_consts Let_def
      write_indices_six)

lemma list_31:
  assumes "length ls = 31"
  shows "ls = [ls ! 0, ls ! 1, ls ! 2, ls ! 3, ls ! 4, ls ! 5, ls ! 6, ls ! 7,
        ls ! 8, ls ! 9, ls ! 10, ls ! 11, ls ! 12, ls ! 13, ls ! 14, ls ! 15,
        ls ! 16, ls ! 17, ls ! 18, ls ! 19, ls ! 20, ls ! 21, ls ! 22, ls ! 23,
        ls ! 24, ls ! 25, ls ! 26, ls ! 27, ls ! 28, ls ! 29, ls ! 30]"
proof -
  have "ls = map (\<lambda>i. ls ! i) [0..<31]" using assms map_nth [of ls] by simp
  then show ?thesis by (simp add: upt_rec eval_nat_numeral)
qed

lemma ROUND_CONSTANTS_ADJUSTED_0: "ROUND_CONSTANTS_ADJUSTED ! 0 = 0"
  by (simp add: ROUND_CONSTANTS_ADJUSTED_def)

text \<open>The column sums, with the constant of the round before.\<close>

lemma sum_calls:
  "foldl (logical_call r) [a0, a1, a2, a3, a4, a5, a6, a7,
        a8, a9, a10, a11, a12, a13, a14, a15,
        a16, a17, a18, a19, a20, a21, a22, a23,
        a24, c0, c1, c2, c3, c4, c5]
     [(0, 0), (0, 1), (0, 2), (0, 3), (0, 4)] =
   (let b = a0 XOR ROUND_CONSTANTS_ADJUSTED ! r in
    [b, a1, a2, a3, a4, a5, a6, a7,
        a8, a9, a10, a11, a12, a13, a14, a15,
        a16, a17, a18, a19, a20, a21, a22, a23,
        a24, ((((b XOR a5) XOR a10) XOR a15) XOR a20), ((((a1 XOR a6) XOR a11) XOR a16) XOR a21), ((((a2 XOR a7) XOR a12) XOR a17) XOR a22), ((((a3 XOR a8) XOR a13) XOR a18) XOR a23), ((((a4 XOR a9) XOR a14) XOR a19) XOR a24), c5])"
  if "r < 25"
  using that by (simp add: iota_call Let_def ROUND_CONSTANTS_ADJUSTED_0)

lemma mix_calls:
  "foldl (logical_call r) [a0, a1, a2, a3, a4, a5, a6, a7,
        a8, a9, a10, a11, a12, a13, a14, a15,
        a16, a17, a18, a19, a20, a21, a22, a23,
        a24, P0, P1, P2, P3, P4, c5] [(1, 0), (2, 0)] =
   [a0, a1, a2, a3, a4, a5, a6, a7,
        a8, a9, a10, a11, a12, a13, a14, a15,
        a16, a17, a18, a19, a20, a21, a22, a23,
        a24, (P0 XOR word_rotl 1 P2), (P1 XOR word_rotl 1 P3), (P2 XOR word_rotl 1 P4), (P3 XOR word_rotl 1 P0), (P4 XOR word_rotl 1 P1), word_rotl 1 P0]"
  by (simp add: mix_call ac_simps)

lemma theta_calls:
  "foldl (logical_call r) [a0, a1, a2, a3, a4, a5, a6, a7,
        a8, a9, a10, a11, a12, a13, a14, a15,
        a16, a17, a18, a19, a20, a21, a22, a23,
        a24, T1, T2, T3, T4, T0, R]
     [(3, 0), (3, 1), (3, 2), (3, 3), (3, 4)] =
   [a0 XOR T0, a1 XOR T1, a2 XOR T2, a3 XOR T3, a4 XOR T4, a5 XOR T0, a6 XOR T1, a7 XOR T2,
        a8 XOR T3, a9 XOR T4, a10 XOR T0, a11 XOR T1, a12 XOR T2, a13 XOR T3, a14 XOR T4, a15 XOR T0,
        a16 XOR T1, a17 XOR T2, a18 XOR T3, a19 XOR T4, a20 XOR T0, a21 XOR T1, a22 XOR T2, a23 XOR T3,
        a24 XOR T4, T1, T2, T3, T4, T0, R]"
  by (simp add: theta_call Let_def)

lemma rho_rotations:
  "keccak_rho_rotations 0 = Inr [0, 36, 3, 41, 18]"
  "keccak_rho_rotations (Suc 0) = Inr [1, 44, 10, 45, 2]"
  "keccak_rho_rotations 2 = Inr [62, 6, 43, 15, 61]"
  "keccak_rho_rotations 3 = Inr [28, 55, 25, 21, 56]"
  "keccak_rho_rotations 4 = Inr [27, 20, 39, 8, 14]"
  by (simp_all add: keccak_rho_rotations_def)

lemma word_rotl_0: "word_rotl 0 (w :: u64) = w"
  by (rule bit_word_eqI) (simp add: bit_word_rotl_iff)

lemma rho_calls:
  "foldl (logical_call r) [a0, a1, a2, a3, a4, a5, a6, a7,
        a8, a9, a10, a11, a12, a13, a14, a15,
        a16, a17, a18, a19, a20, a21, a22, a23,
        a24, c0, c1, c2, c3, c4, c5]
     [(4, 0), (4, 1), (4, 2), (4, 3), (4, 4)] =
   [a0, word_rotl 1 a1, word_rotl 62 a2, word_rotl 28 a3, word_rotl 27 a4,
        word_rotl 36 a5, word_rotl 44 a6, word_rotl 6 a7, word_rotl 55 a8, word_rotl 20 a9,
        word_rotl 3 a10, word_rotl 10 a11, word_rotl 43 a12, word_rotl 25 a13, word_rotl 39 a14,
        word_rotl 41 a15, word_rotl 45 a16, word_rotl 15 a17, word_rotl 21 a18, word_rotl 8 a19,
        word_rotl 18 a20, word_rotl 2 a21, word_rotl 61 a22, word_rotl 56 a23, word_rotl 14 a24,
        c0, c1, c2, c3, c4,
        c5]"
  by (simp add: rho_call [OF rho_rotations(1)] rho_call [OF rho_rotations(2)] rho_call [OF rho_rotations(3)]
      rho_call [OF rho_rotations(4)] rho_call [OF rho_rotations(5)] word_rotl_0)

lemma chi_calls_result:
  "foldl (logical_call r) [a0, a1, a2, a3, a4, a5, a6, a7,
        a8, a9, a10, a11, a12, a13, a14, a15,
        a16, a17, a18, a19, a20, a21, a22, a23,
        a24, c0, c1, c2, c3, c4, c5] chi_calls =
   [a0 XOR (NOT a1 AND a2), a1 XOR (NOT a2 AND a3), a2 XOR (NOT a3 AND a4), a3 XOR (NOT a4 AND a0),
        a4 XOR (NOT a0 AND a1), a5 XOR (NOT a6 AND a7), a6 XOR (NOT a7 AND a8), a7 XOR (NOT a8 AND a9),
        a8 XOR (NOT a9 AND a5), a9 XOR (NOT a5 AND a6), a10 XOR (NOT a11 AND a12), a11 XOR (NOT a12 AND a13),
        a12 XOR (NOT a13 AND a14), a13 XOR (NOT a14 AND a10), a14 XOR (NOT a10 AND a11), a15 XOR (NOT a16 AND a17),
        a16 XOR (NOT a17 AND a18), a17 XOR (NOT a18 AND a19), a18 XOR (NOT a19 AND a15), a19 XOR (NOT a15 AND a16),
        a20 XOR (NOT a21 AND a22), a21 XOR (NOT a22 AND a23), a22 XOR (NOT a23 AND a24), a23 XOR (NOT a24 AND a20),
        a24 XOR (NOT a20 AND a21), NOT a21 AND a22, a21, c2,
        c3, c4, c5]"
  by (simp add: chi_call chi_calls_def)

section \<open>The permutation on an explicit state\<close>

lemma column_parity_explicit:
  "column_parity [a0, a1, a2, a3, a4, a5, a6, a7,
        a8, a9, a10, a11, a12, a13, a14, a15,
        a16, a17, a18, a19, a20, a21, a22, a23,
        a24, c0, c1, c2, c3, c4, c5] =
   [((((a0 XOR a5) XOR a10) XOR a15) XOR a20),
        ((((a1 XOR a6) XOR a11) XOR a16) XOR a21),
        ((((a2 XOR a7) XOR a12) XOR a17) XOR a22),
        ((((a3 XOR a8) XOR a13) XOR a18) XOR a23),
        ((((a4 XOR a9) XOR a14) XOR a19) XOR a24)]"
  by (simp add: column_parity_def upt_rec)

lemma last_theta_explicit:
  assumes "column_parity [a0, a1, a2, a3, a4, a5, a6, a7,
        a8, a9, a10, a11, a12, a13, a14, a15,
        a16, a17, a18, a19, a20, a21, a22, a23,
        a24, c0, c1, c2, c3, c4, c5] = [P0, P1, P2, P3, P4]"
  shows "last_theta [a0, a1, a2, a3, a4, a5, a6, a7,
        a8, a9, a10, a11, a12, a13, a14, a15,
        a16, a17, a18, a19, a20, a21, a22, a23,
        a24, c0, c1, c2, c3, c4, c5] =
   [a0 XOR (P4 XOR word_rotl 1 P1), a1 XOR (P0 XOR word_rotl 1 P2), a2 XOR (P1 XOR word_rotl 1 P3),
        a3 XOR (P2 XOR word_rotl 1 P4), a4 XOR (P3 XOR word_rotl 1 P0), a5 XOR (P4 XOR word_rotl 1 P1),
        a6 XOR (P0 XOR word_rotl 1 P2), a7 XOR (P1 XOR word_rotl 1 P3), a8 XOR (P2 XOR word_rotl 1 P4),
        a9 XOR (P3 XOR word_rotl 1 P0), a10 XOR (P4 XOR word_rotl 1 P1), a11 XOR (P0 XOR word_rotl 1 P2),
        a12 XOR (P1 XOR word_rotl 1 P3), a13 XOR (P2 XOR word_rotl 1 P4), a14 XOR (P3 XOR word_rotl 1 P0),
        a15 XOR (P4 XOR word_rotl 1 P1), a16 XOR (P0 XOR word_rotl 1 P2), a17 XOR (P1 XOR word_rotl 1 P3),
        a18 XOR (P2 XOR word_rotl 1 P4), a19 XOR (P3 XOR word_rotl 1 P0), a20 XOR (P4 XOR word_rotl 1 P1),
        a21 XOR (P0 XOR word_rotl 1 P2), a22 XOR (P1 XOR word_rotl 1 P3), a23 XOR (P2 XOR word_rotl 1 P4),
        a24 XOR (P3 XOR word_rotl 1 P0), c0, c1,
        (P2 XOR word_rotl 1 P4), (P3 XOR word_rotl 1 P0), (P4 XOR word_rotl 1 P1),
        word_rotl 1 P0]"
  unfolding last_theta_def Let_def assms theta_word_def by (simp add: upt_rec)

lemma theta_explicit:
  assumes "column_parity [a0, a1, a2, a3, a4, a5, a6, a7,
        a8, a9, a10, a11, a12, a13, a14, a15,
        a16, a17, a18, a19, a20, a21, a22, a23,
        a24, c0, c1, c2, c3, c4, c5] = [P0, P1, P2, P3, P4]"
  shows "theta [a0, a1, a2, a3, a4, a5, a6, a7,
        a8, a9, a10, a11, a12, a13, a14, a15,
        a16, a17, a18, a19, a20, a21, a22, a23,
        a24, c0, c1, c2, c3, c4, c5] =
   [a0 XOR (P4 XOR word_rotl 1 P1), a1 XOR (P0 XOR word_rotl 1 P2), a2 XOR (P1 XOR word_rotl 1 P3),
        a3 XOR (P2 XOR word_rotl 1 P4), a4 XOR (P3 XOR word_rotl 1 P0), a5 XOR (P4 XOR word_rotl 1 P1),
        a6 XOR (P0 XOR word_rotl 1 P2), a7 XOR (P1 XOR word_rotl 1 P3), a8 XOR (P2 XOR word_rotl 1 P4),
        a9 XOR (P3 XOR word_rotl 1 P0), a10 XOR (P4 XOR word_rotl 1 P1), a11 XOR (P0 XOR word_rotl 1 P2),
        a12 XOR (P1 XOR word_rotl 1 P3), a13 XOR (P2 XOR word_rotl 1 P4), a14 XOR (P3 XOR word_rotl 1 P0),
        a15 XOR (P4 XOR word_rotl 1 P1), a16 XOR (P0 XOR word_rotl 1 P2), a17 XOR (P1 XOR word_rotl 1 P3),
        a18 XOR (P2 XOR word_rotl 1 P4), a19 XOR (P3 XOR word_rotl 1 P0), a20 XOR (P4 XOR word_rotl 1 P1),
        a21 XOR (P0 XOR word_rotl 1 P2), a22 XOR (P1 XOR word_rotl 1 P3), a23 XOR (P2 XOR word_rotl 1 P4),
        a24 XOR (P3 XOR word_rotl 1 P0), c0, c1,
        c2, c3, c4,
        c5]"
  unfolding theta_def Let_def assms theta_word_def by (simp add: upt_rec)

lemma rho_pi_explicit:
  "rho_pi [a0, a1, a2, a3, a4, a5, a6, a7,
        a8, a9, a10, a11, a12, a13, a14, a15,
        a16, a17, a18, a19, a20, a21, a22, a23,
        a24, c0, c1, c2, c3, c4, c5] =
   [a0, word_rotl 44 a6, word_rotl 43 a12, word_rotl 21 a18, word_rotl 14 a24,
        word_rotl 28 a3, word_rotl 20 a9, word_rotl 3 a10, word_rotl 45 a16, word_rotl 61 a22,
        word_rotl 1 a1, word_rotl 6 a7, word_rotl 25 a13, word_rotl 8 a19, word_rotl 18 a20,
        word_rotl 27 a4, word_rotl 36 a5, word_rotl 10 a11, word_rotl 15 a17, word_rotl 56 a23,
        word_rotl 62 a2, word_rotl 55 a8, word_rotl 39 a14, word_rotl 41 a15, word_rotl 2 a21,
        c0, c1, c2, c3, c4,
        c5]"
  by (simp add: rho_pi_def PI_INDICES_def RHO_def upt_rec)

lemma chi_explicit:
  "chi [a0, a1, a2, a3, a4, a5, a6, a7,
        a8, a9, a10, a11, a12, a13, a14, a15,
        a16, a17, a18, a19, a20, a21, a22, a23,
        a24, c0, c1, c2, c3, c4, c5] =
   [a0 XOR (NOT a1 AND a2), a1 XOR (NOT a2 AND a3), a2 XOR (NOT a3 AND a4), a3 XOR (NOT a4 AND a0),
        a4 XOR (NOT a0 AND a1), a5 XOR (NOT a6 AND a7), a6 XOR (NOT a7 AND a8), a7 XOR (NOT a8 AND a9),
        a8 XOR (NOT a9 AND a5), a9 XOR (NOT a5 AND a6), a10 XOR (NOT a11 AND a12), a11 XOR (NOT a12 AND a13),
        a12 XOR (NOT a13 AND a14), a13 XOR (NOT a14 AND a10), a14 XOR (NOT a10 AND a11), a15 XOR (NOT a16 AND a17),
        a16 XOR (NOT a17 AND a18), a17 XOR (NOT a18 AND a19), a18 XOR (NOT a19 AND a15), a19 XOR (NOT a15 AND a16),
        a20 XOR (NOT a21 AND a22), a21 XOR (NOT a22 AND a23), a22 XOR (NOT a23 AND a24), a23 XOR (NOT a24 AND a20),
        a24 XOR (NOT a20 AND a21), c0, c1, c2,
        c3, c4, c5]"
  by (simp add: chi_def Let_def upt_rec)

section \<open>A round\<close>

lemma lanes_step: "r < 24 \<Longrightarrow> lanes (Suc r) = map (\<lambda>i. lanes r ! i) (lanes 1)"
proof -
  assume r: "r < 24"
  have *: "list_all2 (\<lambda>p q. q = map (\<lambda>i. p ! i) (PERMUTATIONS_ADJUSTED ! 1))
      (butlast PERMUTATIONS_ADJUSTED) (tl PERMUTATIONS_ADJUSTED)"
    by (simp add: PERMUTATIONS_ADJUSTED_def)
  have step: "PERMUTATIONS_ADJUSTED ! Suc r = map (\<lambda>i. PERMUTATIONS_ADJUSTED ! r ! i) (PERMUTATIONS_ADJUSTED ! 1)"
    using list_all2_nthD [OF *, of r] r
    by (simp add: length_PERMUTATIONS nth_butlast nth_tl)
  have bound: "list_all (\<lambda>j. j < 25) (PERMUTATIONS_ADJUSTED ! 1)"
    by (simp add: PERMUTATIONS_ADJUSTED_def)
  have "map (\<lambda>i. PERMUTATIONS_ADJUSTED ! r ! i) (PERMUTATIONS_ADJUSTED ! 1) =
      map (\<lambda>i. lanes r ! i) (PERMUTATIONS_ADJUSTED ! 1)"
    by (rule map_cong) (use bound r lanes_nth(1) [of r] in \<open>simp_all add: list_all_iff\<close>)
  then show ?thesis
    using r step lanes_nth(2) [of r] by (simp only: lanes_def [of "Suc r"] lanes_def [of 1] map_append) simp
qed

lemma view_step:
  assumes "r < 24"
  shows "view (lanes (Suc r)) s = view (lanes 1) (view (lanes r) s)"
proof -
  have "\<forall>i \<in> set (lanes 1). i < length (lanes r)" using lanes_ok [of 1] lanes_ok [of r] assms by simp
  then show ?thesis by (simp add: view_def lanes_step [OF assms])
qed

definition logical_round :: "nat \<Rightarrow> u64 list \<Rightarrow> u64 list" where
  "logical_round r ls =
     foldl (logical_call r) (view (lanes 1) (foldl (logical_call r) ls lane_calls)) chi_calls"

definition round_ext :: "u64 list \<Rightarrow> u64 list" where
  "round_ext b = (let u = rho_pi (last_theta b) in
     (chi (u[26 := u ! 21]))[25 := NOT (u ! 21) AND u ! 22])"

lemma logical_round_explicit:
  assumes "r < 25"
  shows "logical_round r [a0, a1, a2, a3, a4, a5, a6, a7,
        a8, a9, a10, a11, a12, a13, a14, a15,
        a16, a17, a18, a19, a20, a21, a22, a23,
        a24, c0, c1, c2, c3, c4, c5] = round_ext ([a0, a1, a2, a3, a4, a5, a6, a7,
        a8, a9, a10, a11, a12, a13, a14, a15,
        a16, a17, a18, a19, a20, a21, a22, a23,
        a24, c0, c1, c2, c3, c4, c5][0 := a0 XOR ROUND_CONSTANTS_ADJUSTED ! r])"
proof -
  define b where "b = a0 XOR ROUND_CONSTANTS_ADJUSTED ! r"
  let ?b = "[b, a1, a2, a3, a4, a5, a6, a7,
        a8, a9, a10, a11, a12, a13, a14, a15,
        a16, a17, a18, a19, a20, a21, a22, a23,
        a24, c0, c1, c2, c3, c4, c5]"
  obtain P0 P1 P2 P3 P4 where P: "column_parity ?b = [P0, P1, P2, P3, P4]"
    by (simp add: column_parity_explicit)
  have sum: "foldl (logical_call r) [a0, a1, a2, a3, a4, a5, a6, a7,
        a8, a9, a10, a11, a12, a13, a14, a15,
        a16, a17, a18, a19, a20, a21, a22, a23,
        a24, c0, c1, c2, c3, c4, c5]
      [(0, 0), (0, 1), (0, 2), (0, 3), (0, 4)] = take 25 ?b @ [P0, P1, P2, P3, P4, c5]"
    using P sum_calls [OF assms, of a0 a1 a2 a3 a4 a5 a6 a7 a8 a9 a10 a11 a12 a13 a14 a15 a16 a17 a18 a19 a20 a21 a22 a23 a24 c0 c1 c2 c3 c4 c5] by (simp add: column_parity_explicit b_def)
  have take_25: "take 25 ?b = [b, a1, a2, a3, a4, a5, a6, a7, a8, a9, a10, a11, a12,
        a13, a14, a15, a16, a17, a18, a19, a20, a21, a22, a23, a24]" by simp
  have calls: "lane_calls = [(0, 0), (0, 1), (0, 2), (0, 3), (0, 4)] @ [(1, 0), (2, 0)] @
      [(3, 0), (3, 1), (3, 2), (3, 3), (3, 4)] @ [(4, 0), (4, 1), (4, 2), (4, 3), (4, 4)]"
    by (simp add: lane_calls_def)
  have "logical_round r [a0, a1, a2, a3, a4, a5, a6, a7,
        a8, a9, a10, a11, a12, a13, a14, a15,
        a16, a17, a18, a19, a20, a21, a22, a23,
        a24, c0, c1, c2, c3, c4, c5] = round_ext ?b"
    unfolding logical_round_def calls foldl_append sum
    unfolding take_25 append.simps mix_calls theta_calls rho_calls
    by (simp add: view_def lanes_def PERMUTATIONS_ADJUSTED_def
        chi_calls_result round_ext_def Let_def last_theta_explicit [OF P] rho_pi_explicit chi_explicit)
  then show ?thesis by (simp add: b_def)
qed

lemma logical_round_eq:
  assumes "length ls = 31" and "r < 25"
  shows "logical_round r ls = round_ext (ls[0 := ls ! 0 XOR ROUND_CONSTANTS_ADJUSTED ! r])"
  using logical_round_explicit [OF assms(2), of
    "ls ! 0" "ls ! 1" "ls ! 2" "ls ! 3" "ls ! 4" "ls ! 5" "ls ! 6" "ls ! 7"
    "ls ! 8" "ls ! 9" "ls ! 10" "ls ! 11" "ls ! 12" "ls ! 13" "ls ! 14" "ls ! 15"
    "ls ! 16" "ls ! 17" "ls ! 18" "ls ! 19" "ls ! 20" "ls ! 21" "ls ! 22" "ls ! 23"
    "ls ! 24" "ls ! 25" "ls ! 26" "ls ! 27" "ls ! 28" "ls ! 29" "ls ! 30"]
  by (simp only: list_31 [OF assms(1), symmetric])

section \<open>All rounds\<close>

lemma rounds_agree_explicit:
  "take 25 (round_ext [a0, a1, a2, a3, a4, a5, a6, a7,
        a8, a9, a10, a11, a12, a13, a14, a15,
        a16, a17, a18, a19, a20, a21, a22, a23,
        a24, c0, c1, c2, c3, c4, c5]) = take 25 (chi (rho_pi (theta [a0, a1, a2, a3, a4, a5, a6, a7,
        a8, a9, a10, a11, a12, a13, a14, a15,
        a16, a17, a18, a19, a20, a21, a22, a23,
        a24, d0, d1, d2, d3, d4, d5])))"
proof -
  obtain P0 P1 P2 P3 P4 where
    P: "column_parity [a0, a1, a2, a3, a4, a5, a6, a7,
        a8, a9, a10, a11, a12, a13, a14, a15,
        a16, a17, a18, a19, a20, a21, a22, a23,
        a24, c0, c1, c2, c3, c4, c5] = [P0, P1, P2, P3, P4]"
    by (simp add: column_parity_explicit)
  then have Q: "column_parity [a0, a1, a2, a3, a4, a5, a6, a7,
        a8, a9, a10, a11, a12, a13, a14, a15,
        a16, a17, a18, a19, a20, a21, a22, a23,
        a24, d0, d1, d2, d3, d4, d5] = [P0, P1, P2, P3, P4]"
    by (simp add: column_parity_explicit)
  show ?thesis
    unfolding round_ext_def Let_def last_theta_explicit [OF P] theta_explicit [OF Q] rho_pi_explicit
    by (simp add: chi_explicit)
qed

lemma last_agree_explicit:
  "logical_call 24 (round_ext [a0, a1, a2, a3, a4, a5, a6, a7,
        a8, a9, a10, a11, a12, a13, a14, a15,
        a16, a17, a18, a19, a20, a21, a22, a23,
        a24, c0, c1, c2, c3, c4, c5]) (0, 0) = last_round_ext [a0, a1, a2, a3, a4, a5, a6, a7,
        a8, a9, a10, a11, a12, a13, a14, a15,
        a16, a17, a18, a19, a20, a21, a22, a23,
        a24, d0, d1, d2, d3, d4, d5]"
proof -
  obtain P0 P1 P2 P3 P4 where
    P: "column_parity [a0, a1, a2, a3, a4, a5, a6, a7,
        a8, a9, a10, a11, a12, a13, a14, a15,
        a16, a17, a18, a19, a20, a21, a22, a23,
        a24, c0, c1, c2, c3, c4, c5] = [P0, P1, P2, P3, P4]"
    by (simp add: column_parity_explicit)
  then have Q: "column_parity [a0, a1, a2, a3, a4, a5, a6, a7,
        a8, a9, a10, a11, a12, a13, a14, a15,
        a16, a17, a18, a19, a20, a21, a22, a23,
        a24, d0, d1, d2, d3, d4, d5] = [P0, P1, P2, P3, P4]"
    by (simp add: column_parity_explicit)
  have rc: "ROUND_CONSTANTS_ADJUSTED ! 24 = RC ! 23"
    by (simp add: ROUND_CONSTANTS_ADJUSTED_def RC_def)
  show ?thesis
    unfolding round_ext_def last_round_ext_def Let_def last_theta_explicit [OF P]
      last_theta_explicit [OF Q] rho_pi_explicit
    by (simp add: chi_explicit iota_call Let_def rc xor.assoc)
qed

lemma same_lanes:
  assumes "length b = 31" and "length s = 31" and "take 25 b = take 25 s"
  shows "take 25 (round_ext b) = take 25 (chi (rho_pi (theta s)))"
    and "logical_call 24 (round_ext b) (0, 0) = last_round_ext s"
proof -
  have eq: "b ! k = s ! k" if "k < 25" for k
    using assms(3) that by (metis nth_take)
  have b: "b = [s ! 0, s ! 1, s ! 2, s ! 3, s ! 4, s ! 5, s ! 6, s ! 7,
        s ! 8, s ! 9, s ! 10, s ! 11, s ! 12, s ! 13, s ! 14, s ! 15,
        s ! 16, s ! 17, s ! 18, s ! 19, s ! 20, s ! 21, s ! 22, s ! 23,
        s ! 24, b ! 25, b ! 26, b ! 27, b ! 28, b ! 29, b ! 30]"
    by (rule trans [OF list_31 [OF assms(1)]]) (simp add: eq)
  have s: "s = [s ! 0, s ! 1, s ! 2, s ! 3, s ! 4, s ! 5, s ! 6, s ! 7,
        s ! 8, s ! 9, s ! 10, s ! 11, s ! 12, s ! 13, s ! 14, s ! 15,
        s ! 16, s ! 17, s ! 18, s ! 19, s ! 20, s ! 21, s ! 22, s ! 23,
        s ! 24, s ! 25, s ! 26, s ! 27, s ! 28, s ! 29, s ! 30]" by (rule list_31 [OF assms(2)])
  show "take 25 (round_ext b) = take 25 (chi (rho_pi (theta s)))"
    by (subst b, subst s) (rule rounds_agree_explicit)
  show "logical_call 24 (round_ext b) (0, 0) = last_round_ext s"
    by (subst b, subst s) (rule last_agree_explicit)
qed

lemma run_round:
  assumes "r < 24" and "length s = 31"
  shows "\<exists>s'. foldR (\<lambda>_. keccak_special5_step c) [0..<27] (ctl 0 0 r, s) = Inr (ctl 0 0 (Suc r), s') \<and>
    length s' = 31 \<and> view (lanes (Suc r)) s' = logical_round r (view (lanes r) s)"
proof -
  have hds: "fst (hd lane_calls) = 0" "snd (hd lane_calls) = 0" "fst (hd chi_calls) = 5"
    "snd (hd chi_calls) = 0" "lane_calls \<noteq> []" "chi_calls \<noteq> []"
    by (simp_all add: lane_calls_def chi_calls_def)
  obtain s1 where s1: "foldR (\<lambda>_. keccak_special5_step c) lane_calls (ctl 0 0 r, s) = Inr (ctl 5 0 r, s1)"
    "length s1 = 31" "view (lanes r) s1 = foldl (logical_call r) (view (lanes r) s) lane_calls"
    using run_calls [OF lane_calls_chained [OF assms(1)] hds(5) calls_valid(1) [OF assms(1)] assms(2), of c] hds
    by auto
  obtain s2 where s2: "foldR (\<lambda>_. keccak_special5_step c) chi_calls (ctl 5 0 r, s1) = Inr (ctl 0 0 (Suc r), s2)"
    "length s2 = 31" "view (lanes (Suc r)) s2 = foldl (logical_call r) (view (lanes (Suc r)) s1) chi_calls"
    using run_calls [OF chi_calls_chained [OF assms(1)] hds(6) calls_valid(2) [OF assms(1)] s1(2), of c] hds
    by auto
  have "foldR (\<lambda>_. keccak_special5_step c) [0..<27] = foldR (\<lambda>_. keccak_special5_step c) (lane_calls @ chi_calls)"
    by (rule foldR_const) (simp add: lane_calls_def chi_calls_def)
  then show ?thesis
    using s1 s2 by (simp add: foldR_append logical_round_def view_step [OF assms(1)] del: upt_Suc)
qed

text \<open>The lanes after \<open>r\<close> rounds, before the constant of the last of them is added.\<close>

definition lanes_agree :: "nat \<Rightarrow> u64 list \<Rightarrow> u64 list \<Rightarrow> bool" where
  "lanes_agree r t s \<longleftrightarrow> length t = 31 \<and> length s = 31 \<and>
     (let v = view (lanes r) t in
      take 25 (v[0 := v ! 0 XOR ROUND_CONSTANTS_ADJUSTED ! r]) = take 25 s)"

lemma length_folds:
  "length (theta s) = length s" "length (rho_pi s) = length s" "length (chi s) = length s"
proof -
  have inner: "length (foldl (\<lambda>s y. s[f y := g s y]) s ys) = length s" for f ys
    and g :: "u64 list \<Rightarrow> nat \<Rightarrow> u64" and s :: "u64 list"
    by (induction ys arbitrary: s) simp_all
  have outer: "(\<And>s x. length (h s x) = length s) \<Longrightarrow> length (foldl h s xs) = length s"
    for h :: "u64 list \<Rightarrow> nat \<Rightarrow> u64 list" and s xs
    by (induction xs arbitrary: s) simp_all
  show "length (theta s) = length s"
    unfolding theta_def Let_def by (rule outer) (rule inner)
  show "length (chi s) = length s"
    unfolding chi_def Let_def by (rule outer) (rule inner)
  have "length (fst (foldl (\<lambda>(s, last) x. (s[f x := g x last], s ! f x)) p xs)) = length (fst p)"
    for f xs and g :: "nat \<Rightarrow> u64 \<Rightarrow> u64" and p
    by (induction xs arbitrary: p) (auto split: prod.splits)
  from this [of _ "\<lambda>x last. word_rotl (RHO ! x) last"]
  show "length (rho_pi s) = length s" unfolding rho_pi_def by simp
qed

lemma view_length: "length (view q s) = length q"
  by (simp add: view_def)

lemma agree_round:
  assumes r: "r < 24" and a: "lanes_agree r t s"
    and t': "view (lanes (Suc r)) t' = logical_round r (view (lanes r) t)" "length t' = 31"
  shows "lanes_agree (Suc r) t' (keccak_round r s)"
proof -
  let ?v = "view (lanes r) t"
  let ?b = "?v[0 := ?v ! 0 XOR ROUND_CONSTANTS_ADJUSTED ! r]"
  let ?u = "chi (rho_pi (theta s))"
  have len: "length ?b = 31" "length s = 31" "length ?u = 31"
    using a r lanes_ok(1) [of r] by (simp_all add: lanes_agree_def view_length length_folds)
  have v': "view (lanes (Suc r)) t' = round_ext ?b"
    using t' logical_round_eq [of ?v r] len r by simp
  have eq: "take 25 (round_ext ?b) = take 25 ?u"
    using a len by (intro same_lanes(1)) (simp_all add: lanes_agree_def Let_def)
  have l': "length (round_ext ?b) = 31"
    using v' lanes_ok(1) [of "Suc r"] r by (metis Suc_leI view_length)
  have rc: "ROUND_CONSTANTS_ADJUSTED ! Suc r = RC ! r"
    using r by (simp add: ROUND_CONSTANTS_ADJUSTED_def RC_def)
  have "round_ext ?b ! 0 = ?u ! 0" using arg_cong [OF eq, of "\<lambda>l. l ! 0"] by simp
  then have "take 25 ((round_ext ?b)[0 := round_ext ?b ! 0 XOR RC ! r]) = take 25 (?u[0 := ?u ! 0 XOR RC ! r])"
    using eq by (simp add: take_update_swap)
  then show ?thesis
    using t'(2) len by (simp add: lanes_agree_def Let_def v' rc keccak_round_def)
qed

lemma run_rounds_agree:
  assumes "length s = 31" and "r \<le> 24"
  shows "\<exists>t. foldR (\<lambda>_. keccak_special5_step c) [0..<27 * r] (0, s) = Inr (ctl 0 0 r, t) \<and>
    length t = 31 \<and> lanes_agree r t (foldl (\<lambda>s round. keccak_round round s) s [0..<r])"
  using assms(2)
proof (induction r)
  case 0
  have id: "view (lanes 0) s = s"
    using list_31 [OF assms(1)] by (simp add: view_def lanes_def PERMUTATIONS_ADJUSTED_def)
  then show ?case
    using assms(1) by (simp add: ctl_def lanes_agree_def ROUND_CONSTANTS_ADJUSTED_0)
next
  case (Suc r)
  then obtain t where t: "foldR (\<lambda>_. keccak_special5_step c) [0..<27 * r] (0, s) = Inr (ctl 0 0 r, t)"
    "length t = 31" "lanes_agree r t (foldl (\<lambda>s round. keccak_round round s) s [0..<r])" by auto
  obtain t' where t': "foldR (\<lambda>_. keccak_special5_step c) [0..<27] (ctl 0 0 r, t) = Inr (ctl 0 0 (Suc r), t')"
    "length t' = 31" "view (lanes (Suc r)) t' = logical_round r (view (lanes r) t)"
    using run_round [of r t c] Suc.prems t(2) by auto
  have "foldR (\<lambda>_. keccak_special5_step c) [0..<27 * Suc r] =
      foldR (\<lambda>_. keccak_special5_step c) ([0..<27 * r] @ [0..<27])"
    by (rule foldR_const) simp
  then show ?case
    using t t' agree_round [of r t _ t'] Suc.prems by (simp add: foldR_append)
qed

lemma keccak_calls_return:
  assumes "length s = 31"
  shows "foldR (\<lambda>_. keccak_special5_step c) [0..<NUM_DELEGATION_CALLS_FOR_KECCAK_F1600]
           (INITIAL_KECCAK_F1600_CONTROL_VALUE, s) =
         Inr (FINAL_KECCAK_F1600_CONTROL_VALUE, keccak_f1600_impl_ext s)"
proof -
  let ?S = "\<lambda>r. foldl (\<lambda>s round. keccak_round round s) s [0..<r]"
  obtain t where t: "foldR (\<lambda>_. keccak_special5_step c) [0..<27 * 23] (0, s) = Inr (ctl 0 0 23, t)"
    "length t = 31" "lanes_agree 23 t (?S 23)"
    using run_rounds_agree [OF assms, of 23 c] by auto
  obtain t' where t': "foldR (\<lambda>_. keccak_special5_step c) [0..<27] (ctl 0 0 23, t) = Inr (ctl 0 0 24, t')"
    "length t' = 31" "view (lanes 24) t' = logical_round 23 (view (lanes 23) t)"
    using run_round [of 23 t c] t(2) by auto
  let ?v = "view (lanes 23) t"
  let ?b = "?v[0 := ?v ! 0 XOR ROUND_CONSTANTS_ADJUSTED ! 23]"
  have "length ?v = 31" using lanes_ok(1) [of 23] by (simp add: view_length)
  then have v: "view (lanes 24) t' = round_ext ?b" "length ?b = 31"
    using t'(3) logical_round_eq [of ?v 23] by simp_all
  have last: "logical_call 24 (round_ext ?b) (0, 0) = last_round_ext (?S 23)"
    using t(3) v(2) by (intro same_lanes(2)) (simp_all add: lanes_agree_def Let_def)
  have "keccak_bump_control 0 0 24 = Inr 1544"
    by (simp add: keccak_bump_control_def code_consts)
  then obtain t'' where t'': "keccak_special5_step c (ctl 0 0 24, t') = Inr (1544, t'')" "length t'' = 31"
    "view (lanes 24) t'' = logical_call 24 (view (lanes 24) t') (0, 0)"
    using step_view [of 0 0 24 t' 1544 c] t'(2) by (auto simp: valid_call_def call_lanes_def)
  have "view (lanes 24) t'' = t''"
    using list_31 [OF t''(2)] by (simp add: view_def lanes_def PERMUTATIONS_ADJUSTED_def)
  then have result: "t'' = keccak_f1600_impl_ext s"
    using t''(3) v(1) last by (simp add: keccak_f1600_impl_ext_def)
  have "foldR (\<lambda>_. keccak_special5_step c) [0..<649] =
      foldR (\<lambda>_. keccak_special5_step c) ([0..<27 * 23] @ [0..<27] @ [0])"
    by (rule foldR_const) simp
  then show ?thesis
    using t(1) t'(1) t''(1) result by (simp add: foldR_append code_consts)
qed

text \<open>
  C8. The 649 small calls the circuit is asked for, each reading and writing six words chosen
  by the control word and passing the next control word on, compute on every 31-word state
  exactly what the machine computes in one go with \<open>keccak_f1600_impl_ext\<close> (the plain
  Keccak-f[1600] with its auxiliary words), and end with the final control word 1544.
\<close>

theorem keccak_calls_fuse:
  assumes "length s = 31"
  shows "foldR (\<lambda>_. keccak_special5_step c) [0..<NUM_DELEGATION_CALLS_FOR_KECCAK_F1600]
           (INITIAL_KECCAK_F1600_CONTROL_VALUE, s) =
         Inr (FINAL_KECCAK_F1600_CONTROL_VALUE, keccak_f1600_impl_ext s)"
  using assms by (rule keccak_calls_return)

theorem keccak_calls_fuse_witness:
  "foldR (\<lambda>_. keccak_special5_step \<lparr> debug_assertions = True, fuzzing_support = False, rom_bits = 6 \<rparr>)
     [0..<NUM_DELEGATION_CALLS_FOR_KECCAK_F1600] (INITIAL_KECCAK_F1600_CONTROL_VALUE, replicate 31 7) =
   Inr (FINAL_KECCAK_F1600_CONTROL_VALUE, keccak_f1600_impl_ext (replicate 31 7))"
  by (rule keccak_calls_fuse) simp

end
