(* ===== verification/Ensures.thy ===== *)
theory Ensures
  imports Machine Ram
begin

text \<open>
  Partial correctness of computations that may fail: \<open>ensures m Q\<close> says that every value
  \<open>m\<close> returns satisfies \<open>Q\<close>. The rules of the collection \<open>ensures_rules\<close> reduce it to the
  operations a computation is made of; the specifications of the operations join them.
  The second half is the invariant of the machine between two instructions and inside one.
\<close>

section \<open>The logic\<close>

definition ensures :: "'a res \<Rightarrow> ('a \<Rightarrow> bool) \<Rightarrow> bool" where
  "ensures m Q \<longleftrightarrow> (\<forall>x. m = Inr x \<longrightarrow> Q x)"

named_theorems ensures_rules "rules for ensures, by the shape of the computation"

lemma ensuresD: "ensures m Q \<Longrightarrow> m = Inr x \<Longrightarrow> Q x"
  by (simp add: ensures_def)

lemma ensuresI: "(\<And>x. m = Inr x \<Longrightarrow> Q x) \<Longrightarrow> ensures m Q"
  by (simp add: ensures_def)

lemma ensures_mono: "ensures m P \<Longrightarrow> (\<And>x. P x \<Longrightarrow> Q x) \<Longrightarrow> ensures m Q"
  by (simp add: ensures_def)

lemma ensures_bind: "ensures m P \<Longrightarrow> (\<And>x. P x \<Longrightarrow> ensures (f x) Q) \<Longrightarrow> ensures (bindR m f) Q"
  by (auto simp: ensures_def res_simps)

lemma ensures_Inr [ensures_rules]: "Q x \<Longrightarrow> ensures (Inr x) Q"
  by (simp add: ensures_def)

lemma ensures_Inl [ensures_rules]: "ensures (Inl e) Q"
  by (simp add: ensures_def)

lemma ensures_guard [ensures_rules]: "(b \<Longrightarrow> ensures m Q) \<Longrightarrow> ensures (guardR b e m) Q"
  by (simp add: guardR_def ensures_def)

lemma ensures_debug_assert [ensures_rules]: "ensures m Q \<Longrightarrow> ensures (debug_assert dbg b m) Q"
  by (simp add: debug_assert_def ensures_def)

lemma ensures_let [ensures_rules]: "ensures (f x) Q \<Longrightarrow> ensures (Let x f) Q"
  by simp

lemma ensures_prod [ensures_rules]:
  "(\<And>a b. p = (a, b) \<Longrightarrow> ensures (f a b) Q) \<Longrightarrow> ensures (case p of (a, b) \<Rightarrow> f a b) Q"
  by (cases p) simp

lemma ensures_if [ensures_rules]:
  "(b \<Longrightarrow> ensures m Q) \<Longrightarrow> (\<not> b \<Longrightarrow> ensures m' Q) \<Longrightarrow> ensures (if b then m else m') Q"
  by simp

lemma ensures_checked_add:
  "ensures (checked_add dbg a b) (\<lambda>c. c = a + b)"
  by (simp add: ensures_def res_simps)

section \<open>Timestamps within a cycle\<close>

lemma or_le_or3: "k \<in> {0, 1, 2, 3} \<Longrightarrow> t OR k \<le> t OR (3 :: u64)"
proof -
  assume k: "k \<in> {0, 1, 2, 3}"
  then have "t OR 3 = (t OR k) OR 3" by (auto simp: or.assoc)
  also have "t OR k \<le> (t OR k) OR 3" by (simp add: or_greater_eq uint_or word_le_def)
  finally show ?thesis .
qed

text \<open>Multiples of four.\<close>

definition aligned4 :: "'w::len word \<Rightarrow> bool" where
  "aligned4 a \<longleftrightarrow> a AND 3 = 0"

lemma aligned4_iff: "aligned4 a \<longleftrightarrow> a mod 4 = 0"
  using and_low_bits [of a 2] take_bit_eq_mod [of 2 a] by (simp add: aligned4_def)

lemma or3_of_aligned: "aligned4 t \<Longrightarrow> t OR 3 = t + (3 :: u64)"
  using word_plus_and_or [of t 3] by (simp add: aligned4_def)

lemma unat_plus_le:
  fixes t :: "'w::len word"
  assumes "unat t + k < 2 ^ LENGTH('w)"
  shows "unat (t + word_of_nat k) = unat t + k"
proof -
  have "unat (word_of_nat k :: 'w word) = k" using assms by (simp add: unat_of_nat)
  then show ?thesis using assms by (simp add: unat_word_ariths)
qed

lemma or3_less_tick:
  fixes t :: u64
  assumes "aligned4 t" and "unat t + 4 < 2 ^ 64"
  shows "t OR 3 < t + 4"
  using unat_plus_le [of t 3] unat_plus_le [of t 4] assms
  by (simp add: or3_of_aligned word_less_nat_alt)

lemma aligned4_unat:
  "aligned4 (t :: u64) \<longleftrightarrow> unat t mod 4 = 0" "aligned4 (a :: u32) \<longleftrightarrow> unat a mod 4 = 0"
  using unat_mod [of t 4] unat_mod [of a 4] unat_eq_zero [of "t mod 4"] unat_eq_zero [of "a mod 4"]
  by (simp_all add: aligned4_iff)

lemma aligned4_add:
  "aligned4 t \<Longrightarrow> aligned4 u \<Longrightarrow> aligned4 (t + u :: u64)"
  "aligned4 a \<Longrightarrow> aligned4 b \<Longrightarrow> aligned4 (a + b :: u32)"
proof -
  have *: "(2 ^ 64 :: nat) = 4 * 2 ^ 62" "(2 ^ 32 :: nat) = 4 * 2 ^ 30" by simp_all
  show "aligned4 t \<Longrightarrow> aligned4 u \<Longrightarrow> aligned4 (t + u)"
    "aligned4 a \<Longrightarrow> aligned4 b \<Longrightarrow> aligned4 (a + b)"
    unfolding aligned4_unat
    by (simp_all only: unat_word_ariths len_of_numeral_defs * flip: dvd_eq_mod_eq_0)
      (simp_all add: dvd_mod)
qed

lemma aligned4_mult4: "aligned4 (u * 4 :: u64)" "aligned4 (4 :: u32)" "aligned4 (4 :: u64)"
  "aligned4 (word_of_nat (4 * n) :: u32)"
proof -
  have *: "(2 ^ 64 :: nat) = 4 * 2 ^ 62" "(2 ^ 32 :: nat) = 4 * 2 ^ 30" by simp_all
  show "aligned4 (u * 4)"
    unfolding aligned4_unat by (simp add: unat_word_ariths * mod_mod_cancel)
  show "aligned4 (word_of_nat (4 * n) :: u32)"
    unfolding aligned4_unat by (simp only: unat_of_nat len_of_numeral_defs *) (simp add: mod_mod_cancel)
qed (simp_all add: aligned4_def)

end
