(* ===== verification/VmDelegations.thy ===== *)
theory VmDelegations
  imports VmMemory Blake2 Keccak
begin

text \<open>
  The delegation calls of the machine: \<open>bigint_call\<close>, \<open>blake2_round_function_call\<close> and
  \<open>keccak_special5_call\<close> of \<open>vm/delegations/*.rs\<close>, with the loops that move words between
  memory and the arithmetic. Every address is advanced after every access, the last one
  included, and a \<open>u32\<close> addition panics on overflow in a debug build.
\<close>

section \<open>Loops over memory\<close>

fun peek_words :: "cfg \<Rightarrow> 'm ram_ops \<Rightarrow> nat \<Rightarrow> u32 \<Rightarrow> 'm \<Rightarrow> u32 list res" where
  "peek_words c R 0 addr m = Inr []"
| "peek_words c R (Suc n) addr m =
     bindR (peek_word R addr m) (\<lambda>v.
     bindR (checked_add (debug_assertions c) addr 4) (\<lambda>addr.
     bindR (peek_words c R n addr m) (\<lambda>vs. Inr (v # vs))))"

fun read_words ::
  "('c, 'm, 's, 'n) vm_env \<Rightarrow> nat \<Rightarrow> u32 \<Rightarrow> u64 \<Rightarrow> 'm \<Rightarrow> 's \<Rightarrow> (u32 list \<times> 'm \<times> 's) res" where
  "read_words E 0 addr ts m sn = Inr ([], m, sn)"
| "read_words E (Suc n) addr ts m sn =
     bindR (read_word (vm_ram E) addr ts m) (\<lambda>((read_ts, v), m).
     bindR (append_memory_read (vm_snap E) addr v read_ts ts sn) (\<lambda>sn.
     bindR (checked_add (debug_assertions (vm_cfg E)) addr 4) (\<lambda>addr.
     bindR (read_words E n addr ts m sn) (\<lambda>(vs, m, sn). Inr (v # vs, m, sn)))))"

fun write_back_words ::
  "('c, 'm, 's, 'n) vm_env \<Rightarrow> u32 list \<Rightarrow> u32 \<Rightarrow> u64 \<Rightarrow> 'm \<Rightarrow> 's \<Rightarrow> (u32 \<times> 'm \<times> 's) res" where
  "write_back_words E [] addr ts m sn = Inr (addr, m, sn)"
| "write_back_words E (v # vs) addr ts m sn =
     bindR (write_word (vm_ram E) addr v ts m) (\<lambda>((read_ts, old_value), m).
     bindR (append_memory_read (vm_snap E) addr old_value read_ts ts sn) (\<lambda>sn.
     bindR (checked_add (debug_assertions (vm_cfg E)) addr 4) (\<lambda>addr.
     write_back_words E vs addr ts m sn)))"

text \<open>64-bit words in memory: low half first.\<close>

fun join_words :: "u32 list \<Rightarrow> u64 list" where
  "join_words (low # high # ws) = (push_bit 32 (ucast high) OR ucast low) # join_words ws"
| "join_words ws = []"

definition split_word :: "u64 \<Rightarrow> u32 list" where
  "split_word v = [ucast v, ucast (drop_bit 32 v)]"

section \<open>The 256-bit arithmetic\<close>

definition peek_read_u256 :: "cfg \<Rightarrow> 'm ram_ops \<Rightarrow> u32 \<Rightarrow> 'm \<Rightarrow> u64 list res" where
  "peek_read_u256 c R offset m = bindR (peek_words c R 8 offset m) (\<lambda>ws. Inr (join_words ws))"

definition read_u256 ::
  "('c, 'm, 's, 'n) vm_env \<Rightarrow> u32 \<Rightarrow> u64 \<Rightarrow> 'm \<Rightarrow> 's \<Rightarrow> (u64 list \<times> 'm \<times> 's) res" where
  "read_u256 E offset ts m sn =
     bindR (read_words E 8 offset ts m sn) (\<lambda>(ws, m, sn). Inr (join_words ws, m, sn))"

definition write_back_u256 ::
  "('c, 'm, 's, 'n) vm_env \<Rightarrow> u64 list \<Rightarrow> u32 \<Rightarrow> u64 \<Rightarrow> 'm \<Rightarrow> 's \<Rightarrow> ('m \<times> 's) res" where
  "write_back_u256 E v offset ts m sn =
     bindR (write_back_words E (concat (map split_word v)) offset ts m sn) (\<lambda>(_, m, sn). Inr (m, sn))"

text \<open>A store to the timestamp of one register, which has no assertion.\<close>

definition stamp_register :: "nat \<Rightarrow> u64 \<Rightarrow> 'c state \<Rightarrow> 'c state" where
  "stamp_register i t s = set_register i t (reg_value (registers s i)) s"

definition in_ram :: "u32 \<Rightarrow> bool" where
  "in_ram address \<longleftrightarrow> word_of_nat ROM_BYTE_SIZE \<le> address"

definition bigint_call ::
  "('c, 'm, 's, 'n) vm_env \<Rightarrow> ('c, 'm, 's, 'n) world \<Rightarrow> ('c, 'm, 's, 'n) world res" where
  "bigint_call E w =
     (let c = vm_cfg E; C = vm_counters E; s = st w;
          s = stamp_register 0 (timestamp s OR 2) s in
      bindR (read_register c 3 10 s) (\<lambda>(x10, s).
      bindR (read_register c 3 11 s) (\<lambda>(x11, s).
      let x12 = reg_value (registers s 12) in
      guardR (in_ram x10) AssertFailed
      (guardR (in_ram x11) AssertFailed
      (guardR (x10 \<noteq> x11) AssertFailed
      (guardR (x10 mod 32 = 0) AssertFailed
      (guardR (x11 mod 32 = 0) AssertFailed
      (let write_ts = timestamp s OR 3 in
       bindR (peek_read_u256 c (vm_ram E) x10 (ram w)) (\<lambda>a.
       bindR (read_u256 E x11 write_ts (ram w) (snap w)) (\<lambda>(b, m, sn).
       bindR (bigint_impl (vm_ruint E) a b x12) (\<lambda>(result, of').
       bindR (write_register c 3 12 (of_bool of') s) (\<lambda>(_, s).
       bindR (write_back_u256 E result x10 write_ts m sn) (\<lambda>(m, sn).
       bindR (append_arbitrary_value (vm_snap E) (of_bool of') sn) (\<lambda>sn.
       let s = s \<lparr> counters := bump_bigint C 1 (counters s) \<rparr> in
       bindR (increment_family_counter C SHIFT_BINARY_CSR_CIRCUIT_FAMILY_IDX
                (default_increase_pc s)) (\<lambda>s.
       Inr (w \<lparr> st := s, ram := m, snap := sn \<rparr>))))))))))))))))"

section \<open>Blake2s\<close>

text \<open>
  A batch of \<open>n\<close> circuit calls ends at the timestamp of its last call, and moves the program
  counter and the counters by \<open>n\<close> instructions.
\<close>

definition last_call_timestamp :: "cfg \<Rightarrow> nat \<Rightarrow> u64 \<Rightarrow> u64 res" where
  "last_call_timestamp c n t = checked_add (debug_assertions c) t (word_of_nat (n - 1) * TIMESTAMP_STEP)"

definition blake2_round_function_call ::
  "('c, 'm, 's, 'n) vm_env \<Rightarrow> ('c, 'm, 's, 'n) world \<Rightarrow> ('c, 'm, 's, 'n) world res" where
  "blake2_round_function_call E w =
     (let c = vm_cfg E; C = vm_counters E; s = st w;
          x10 = reg_value (registers s 10);
          x11 = reg_value (registers s 11);
          x12 = reg_value (registers s 12) in
      guardR (in_ram x10) AssertFailed
      (guardR (in_ram x11) AssertFailed
      (guardR (x10 \<noteq> x11) AssertFailed
      (guardR (x10 mod 128 = 0) AssertFailed
      (guardR (x11 mod 64 = 0) AssertFailed
      (guardR (count_ones (permutation_bitmask x12) = 1) AssertFailed
      (guardR (trailing_zeros (permutation_bitmask x12) = 0) AssertFailed
      (let n = num_rounds x12 in
       bindR (last_call_timestamp c n (timestamp s)) (\<lambda>last_ts.
       bindR (checked_add (debug_assertions c) last_ts 3) (\<lambda>reg_ts.
       let s = stamp_register 10 reg_ts s;
           s = stamp_register 11 reg_ts s;
           s = set_register 12 reg_ts (final_x12 x12) s;
           s = stamp_register 0 (last_ts OR 2) s in
       bindR (peek_words c (vm_ram E) 24 x10 (ram w)) (\<lambda>blake_state_full.
       bindR (peek_words c (vm_ram E) 16 x11 (ram w)) (\<lambda>input.
       let output = blake2_all_rounds blake_state_full input x12;
           write_ts = last_ts OR 3 in
       bindR (write_back_words E output x10 write_ts (ram w) (snap w)) (\<lambda>(_, m, sn).
       bindR (read_words E 16 x11 write_ts m sn) (\<lambda>(_, m, sn).
       let s = s \<lparr> timestamp := last_ts,
                   counters := bump_blake2_round_function C n (counters s),
                   pc := pc s + word_of_nat (4 * n) \<rparr> in
       bindR (increment_family_counter_by C SHIFT_BINARY_CSR_CIRCUIT_FAMILY_IDX n s) (\<lambda>s.
       Inr (w \<lparr> st := s, ram := m, snap := sn \<rparr>))))))))))))))))"

section \<open>Keccak\<close>

text \<open>
  The words are written back one by one, each at the timestamp of the last circuit call that
  writes it.
\<close>

fun keccak_write_back ::
  "('c, 'm, 's, 'n) vm_env \<Rightarrow> u64 \<Rightarrow> (u64 \<times> u64) list \<Rightarrow> u32 \<Rightarrow> 'm \<Rightarrow> 's \<Rightarrow> ('m \<times> 's) res" where
  "keccak_write_back E write_ts_base [] addr m sn = Inr (m, sn)"
| "keccak_write_back E write_ts_base ((v, ts_offset) # rest) addr m sn =
     (let c = vm_cfg E in
      bindR (checked_add (debug_assertions c) write_ts_base ts_offset) (\<lambda>write_ts.
      debug_assert (debug_assertions c) (write_ts mod TIMESTAMP_STEP = 3)
      (bindR (write_back_words E (split_word v) addr write_ts m sn) (\<lambda>(addr, m, sn).
       keccak_write_back E write_ts_base rest addr m sn))))"

definition keccak_special5_call ::
  "('c, 'm, 's, 'n) vm_env \<Rightarrow> ('c, 'm, 's, 'n) world \<Rightarrow> ('c, 'm, 's, 'n) world res" where
  "keccak_special5_call E w =
     (let c = vm_cfg E; C = vm_counters E; s = st w; n = NUM_DELEGATION_CALLS_FOR_KECCAK_F1600;
          x10 = reg_value (registers s 10);
          x11 = reg_value (registers s 11) in
      debug_assert (debug_assertions c) (timestamp s mod 4 = 0)
      (guardR (in_ram x11) AssertFailed
      (guardR (x10 < push_bit 11 1) AssertFailed
      (guardR (x11 mod 256 = 0) AssertFailed
      (guardR (x10 = INITIAL_KECCAK_F1600_CONTROL_VALUE) AssertFailed
      (bindR (last_call_timestamp c n (timestamp s)) (\<lambda>last_ts.
       bindR (checked_add (debug_assertions c) last_ts 3) (\<lambda>reg_ts.
       let write_ts_base = timestamp s OR 3;
           s = set_register 10 reg_ts FINAL_KECCAK_F1600_CONTROL_VALUE s;
           s = stamp_register 11 reg_ts s;
           s = stamp_register 0 (last_ts OR 2) s in
       bindR (peek_words c (vm_ram E) 62 x11 (ram w)) (\<lambda>ws.
       bindR (KECCAK_FINAL_TIMESTAMP_OFFSETS c) (\<lambda>offsets.
       let local_state = keccak_f1600_impl_ext (join_words ws) in
       bindR (keccak_write_back E write_ts_base (zip local_state offsets) x11 (ram w) (snap w)) (\<lambda>(m, sn).
       let s = s \<lparr> timestamp := last_ts,
                   counters := bump_keccak_special5 C n (counters s),
                   pc := pc s + word_of_nat (4 * n) \<rparr> in
       bindR (increment_family_counter_by C SHIFT_BINARY_CSR_CIRCUIT_FAMILY_IDX n s) (\<lambda>s.
       Inr (w \<lparr> st := s, ram := m, snap := sn \<rparr>)))))))))))))"

end
