(* ===== verification/VmStep.thy ===== *)
theory VmStep
  imports VmDelegations
begin

text \<open>
  The machine's cycle and its two run loops: \<open>VM::run_step\<close>, \<open>run_basic_unrolled\<close> and
  \<open>run_by_timestamp_bound\<close> of \<open>vm/mod.rs\<close>, with \<open>SimpleTape\<close> (\<open>vm/simple_tape.rs\<close>) as
  the instruction tape and the delegation dispatch of \<open>vm/instructions/zicsr/mod.rs\<close>.
\<close>

section \<open>Fetch and dispatch\<close>

definition read_instruction :: "cfg \<Rightarrow> instruction list \<Rightarrow> u32 \<Rightarrow> instruction res" where
  "read_instruction c tape address =
     (let word = unat (drop_bit 2 address) in
      debug_assert (debug_assertions c) (word < length tape)
      (guardR (word < length tape) UndefinedBehaviour (Inr (tape ! word))))"

definition call_delegation ::
  "('c, 'm, 's, 'n) vm_env \<Rightarrow> instruction \<Rightarrow> ('c, 'm, 's, 'n) world \<Rightarrow> ('c, 'm, 's, 'n) world res" where
  "call_delegation E instr w =
     (let dbg = debug_assertions (vm_cfg E) in
      debug_assert dbg (rs1 instr = 0)
      (debug_assert dbg (rs2 instr = 0)
      (debug_assert dbg (rd instr = 0)
      (if imm instr = delegation_type_as_u32 BigInt then bigint_call E w
       else if imm instr = delegation_type_as_u32 Blake then blake2_round_function_call E w
       else if imm instr = delegation_type_as_u32 Keccak then keccak_special5_call E w
       else Inl UndefinedBehaviour))))"

text \<open>A handler that works on the machine state alone, as a step of the world.\<close>

definition on_state ::
  "('c state \<Rightarrow> 'c state res) \<Rightarrow> ('c, 'm, 's, 'n) world \<Rightarrow> ('c, 'm, 's, 'n) world res" where
  "on_state f w = bindR (f (st w)) (\<lambda>s. Inr (w \<lparr> st := s \<rparr>))"

definition dispatch ::
  "('c, 'm, 's, 'n) vm_env \<Rightarrow> instruction \<Rightarrow> ('c, 'm, 's, 'n) world \<Rightarrow> ('c, 'm, 's, 'n) world res" where
  "dispatch E i w =
     (let c = vm_cfg E; C = vm_counters E in
      case name i of
        Illegal \<Rightarrow> illegal w
      | Lui \<Rightarrow> on_state (lui c C i) w
      | Auipc \<Rightarrow> on_state (auipc c C i) w
      | Jal \<Rightarrow> on_state (jal c C i) w
      | Jalr \<Rightarrow> on_state (jalr c C i) w
      | Slt \<Rightarrow> on_state (slt c C False i) w
      | Slti \<Rightarrow> on_state (slt c C True i) w
      | Sltu \<Rightarrow> on_state (sltu c C False i) w
      | Sltiu \<Rightarrow> on_state (sltu c C True i) w
      | Branch \<Rightarrow> on_state (branch c C i) w
      | Sw \<Rightarrow> sw E i w
      | Lw \<Rightarrow> lw E i w
      | Sh \<Rightarrow> sh E i w
      | Lhu \<Rightarrow> lh E False i w
      | Lh \<Rightarrow> lh E True i w
      | Sb \<Rightarrow> sb E i w
      | Lbu \<Rightarrow> lb E False i w
      | Lb \<Rightarrow> lb E True i w
      | Add \<Rightarrow> on_state (add_op c C False i) w
      | Addi \<Rightarrow> on_state (add_op c C True i) w
      | Sub \<Rightarrow> on_state (sub_op c C i) w
      | Xor \<Rightarrow> on_state (xor_op c C False i) w
      | Xori \<Rightarrow> on_state (xor_op c C True i) w
      | And \<Rightarrow> on_state (and_op c C False i) w
      | Andi \<Rightarrow> on_state (and_op c C True i) w
      | Or \<Rightarrow> on_state (or_op c C False i) w
      | Ori \<Rightarrow> on_state (or_op c C True i) w
      | Sll \<Rightarrow> on_state (sll c C False i) w
      | Slli \<Rightarrow> on_state (sll c C True i) w
      | Srl \<Rightarrow> on_state (srl c C False i) w
      | Srli \<Rightarrow> on_state (srl c C True i) w
      | Sra \<Rightarrow> on_state (sra c C False i) w
      | Srai \<Rightarrow> on_state (sra c C True i) w
      | Mul \<Rightarrow> on_state (mul c C i) w
      | Mulhu \<Rightarrow> on_state (mulhu c C i) w
      | Divu \<Rightarrow> on_state (divu c C i) w
      | Remu \<Rightarrow> on_state (remu c C i) w
      | ZimopAdd \<Rightarrow> on_state (mop_addmod c C i) w
      | ZimopSub \<Rightarrow> on_state (mop_submod c C i) w
      | ZimopMul \<Rightarrow> on_state (mop_mulmod c C i) w
      | ZicsrNonDeterminismRead \<Rightarrow> nd_read E i w
      | ZicsrNonDeterminismWrite \<Rightarrow> nd_write E i w
      | ZicsrMarkerCsr \<Rightarrow> on_state (marker c C i) w
      | ZicsrDelegation \<Rightarrow> call_delegation E i w
      | _ \<Rightarrow> Inl UnknownInstruction)"

definition run_step ::
  "('c, 'm, 's, 'n) vm_env \<Rightarrow> instruction list \<Rightarrow> ('c, 'm, 's, 'n) world \<Rightarrow> ('c, 'm, 's, 'n) world res" where
  "run_step E tape w =
     bindR (read_instruction (vm_cfg E) tape (pc (st w))) (\<lambda>instr.
     debug_assert (debug_assertions (vm_cfg E)) (timestamp (st w) mod TIMESTAMP_STEP = 0)
       (dispatch E instr w))"

section \<open>The run loops\<close>

text \<open>
  The body both loops share: a step, the tick of the clock, and the two reasons to stop (the
  program counter did not move, or the snapshotter asks for it).
\<close>

definition vm_cycle ::
  "('c, 'm, 's, 'n) vm_env \<Rightarrow> instruction list \<Rightarrow> ('c, 'm, 's, 'n) world \<Rightarrow>
   (bool option \<times> ('c, 'm, 's, 'n) world) res" where
  "vm_cycle E tape w =
     bindR (run_step E tape w) (\<lambda>w'.
     bindR (checked_add (debug_assertions (vm_cfg E)) (timestamp (st w')) TIMESTAMP_STEP) (\<lambda>t.
     let s = (st w') \<lparr> timestamp := t \<rparr> in
     if pc s = pc (st w) then
       bindR (take_final_snapshot (vm_snap E) s (snap w')) (\<lambda>sn.
         Inr (Some True, w' \<lparr> st := s, snap := sn \<rparr>))
     else
       bindR (take_snapshot_if_needed (vm_snap E) s (snap w')) (\<lambda>(stop, sn).
         Inr (if stop then Some False else None, w' \<lparr> st := s, snap := sn \<rparr>))))"

fun run_basic_unrolled ::
  "('c, 'm, 's, 'n) vm_env \<Rightarrow> instruction list \<Rightarrow> nat \<Rightarrow> ('c, 'm, 's, 'n) world \<Rightarrow>
   (bool \<times> ('c, 'm, 's, 'n) world) res" where
  "run_basic_unrolled E tape 0 w = Inr (False, w)"
| "run_basic_unrolled E tape (Suc cycle_bound) w =
     bindR (vm_cycle E tape w) (\<lambda>(stop, w').
     case stop of
       Some finished \<Rightarrow> Inr (finished, w')
     | None \<Rightarrow> run_basic_unrolled E tape cycle_bound w')"

text \<open>
  The \<open>while\<close> loop takes a fuel; \<open>None\<close> is running out of it. With the bound as fuel it does
  not, see \<open>VmProps\<close>.
\<close>

fun run_by_timestamp_bound ::
  "nat \<Rightarrow> ('c, 'm, 's, 'n) vm_env \<Rightarrow> instruction list \<Rightarrow> u64 \<Rightarrow> ('c, 'm, 's, 'n) world \<Rightarrow>
   (bool \<times> ('c, 'm, 's, 'n) world) res option" where
  "run_by_timestamp_bound 0 E tape bound w =
     (if timestamp (st w) < bound then None else Some (Inr (False, w)))"
| "run_by_timestamp_bound (Suc fuel) E tape bound w =
     (if timestamp (st w) < bound then
        (case vm_cycle E tape w of
           Inl e \<Rightarrow> Some (Inl e)
         | Inr (Some finished, w') \<Rightarrow> Some (Inr (finished, w'))
         | Inr (None, w') \<Rightarrow> run_by_timestamp_bound fuel E tape bound w')
      else Some (Inr (False, w)))"

end
