(* ===== verification/VmInvariant.thy ===== *)
theory VmInvariant
  imports Ensures VmStep
begin

text \<open>
  The invariant of the machine. Between two instructions (\<open>between\<close>) the clock and the
  program counter are multiples of four, \<open>x0\<close> holds zero, every register and every memory
  word was last accessed before the clock, and the counters of the circuit families add up to
  the cycles the clock has counted. Inside an instruction (\<open>midst\<close>) accesses carry the
  timestamps of the current cycle.
\<close>

section \<open>Registers\<close>

definition midst :: "('c \<Rightarrow> nat) \<Rightarrow> u64 \<Rightarrow> nat \<Rightarrow> 'c state \<Rightarrow> bool" where
  "midst tot t k s \<longleftrightarrow>
     timestamp s = t \<and> tot (counters s) = k \<and> aligned4 (pc s) \<and> reg_value (registers s 0) = 0 \<and>
     (\<forall>i < 32. reg_timestamp (registers s i) \<le> t OR 3)"

definition between :: "('c \<Rightarrow> nat) \<Rightarrow> 'c state \<Rightarrow> bool" where
  "between tot s \<longleftrightarrow>
     aligned4 (timestamp s) \<and> aligned4 (pc s) \<and> reg_value (registers s 0) = 0 \<and>
     unat (timestamp s) = 4 * (tot (counters s) + 1) \<and>
     (\<forall>i < 32. reg_timestamp (registers s i) < timestamp s)"

named_theorems mid_rules "specifications of the operations on the middle of a cycle"

lemma set_register_midst:
  "midst tot t k s \<Longrightarrow> t' \<le> t OR 3 \<Longrightarrow> (i = 0 \<Longrightarrow> v = 0) \<Longrightarrow> midst tot t k (set_register i t' v s)"
  by (auto simp: midst_def set_register_def)

lemma stamp_register_midst [mid_rules]:
  "midst tot t k s \<Longrightarrow> t' \<le> t OR 3 \<Longrightarrow> midst tot t k (stamp_register i t' s)"
  unfolding stamp_register_def by (rule set_register_midst) (auto simp: midst_def)

lemma access_midst:
  assumes "midst tot t k s" and "off \<in> {0, 1, 2, 3}" and "i = 0 \<Longrightarrow> v = 0"
  shows "ensures (register_access c off i s (Inr (v', set_register i (timestamp s OR off) v s)))
           (\<lambda>(v', s'). midst tot t k s')"
proof -
  have "timestamp s OR off \<le> t OR 3" using assms(1,2) or_le_or3 [of off t] by (simp add: midst_def)
  then show ?thesis
    using set_register_midst [OF assms(1)] assms(3)
    by (auto simp: register_access_def intro!: ensures_rules)
qed

lemma bind_touch_x0 [mid_rules]:
  assumes "midst tot t k s" and "off \<in> {0, 1, 2, 3}"
    and f: "\<And>s'. midst tot t k s' \<Longrightarrow> ensures (f s') Q"
  shows "ensures (bindR (touch_x0 c off s) f) Q"
proof (rule ensures_bind [OF _ f])
  have "timestamp s OR off \<le> t OR 3" using assms(1,2) or_le_or3 [of off t] by (simp add: midst_def)
  then show "ensures (touch_x0 c off s) (midst tot t k)"
    using set_register_midst [OF assms(1)] assms(1)
    by (auto simp: touch_x0_def register_access_def midst_def intro!: ensures_rules)
qed

lemma bind_read_register [mid_rules]:
  assumes "midst tot t k s" and "off \<in> {0, 1, 2, 3}"
    and f: "\<And>v s'. midst tot t k s' \<Longrightarrow> ensures (f (v, s')) Q"
  shows "ensures (bindR (read_register c off r s) f) Q"
proof (rule ensures_bind)
  show "ensures (read_register c off r s) (\<lambda>(v, s'). midst tot t k s')"
    unfolding read_register_def Let_def using assms(1,2)
    by (rule access_midst) (use assms(1) in \<open>simp add: midst_def\<close>)
qed (use f in auto)

lemma bind_write_register [mid_rules]:
  assumes "midst tot t k s" and "off \<in> {0, 1, 2, 3}"
    and f: "\<And>v s'. midst tot t k s' \<Longrightarrow> ensures (f (v, s')) Q"
  shows "ensures (bindR (write_register c off r v s) f) Q"
proof (rule ensures_bind)
  show "ensures (write_register c off r v s) (\<lambda>(v', s'). midst tot t k s')"
    unfolding write_register_def Let_def using assms(1,2)
    by (rule access_midst) (simp add: unat_eq_zero)
qed (use f in auto)

lemma bind_second_operand [mid_rules]:
  assumes "midst tot t k s" and f: "\<And>v s'. midst tot t k s' \<Longrightarrow> ensures (f (v, s')) Q"
  shows "ensures (bindR (second_operand c use_imm i s) f) Q"
  unfolding second_operand_def
  by (auto simp: bindR_assoc intro!: f bind_touch_x0 [OF assms(1)] bind_read_register [OF assms(1)])

lemma increase_pc_midst [mid_rules]: "midst tot t k s \<Longrightarrow> midst tot t k (default_increase_pc s)"
  by (auto simp: midst_def default_increase_pc_def intro: aligned4_add aligned4_mult4)

lemma jump_midst [mid_rules]:
  "midst tot t k s \<Longrightarrow> a AND 3 = 0 \<Longrightarrow> midst tot t k (s \<lparr> pc := a \<rparr>)"
  by (auto simp: midst_def aligned4_def)

lemma handler_families_mem [mid_rules]:
  "ADD_SUB_LUI_AUIPC_MOP_CIRCUIT_FAMILY_IDX \<in> handler_families"
  "JUMP_BRANCH_SLT_CIRCUIT_FAMILY_IDX \<in> handler_families"
  "SHIFT_BINARY_CSR_CIRCUIT_FAMILY_IDX \<in> handler_families"
  "MUL_DIV_CIRCUIT_FAMILY_IDX \<in> handler_families"
  "LOAD_STORE_WORD_ONLY_CIRCUIT_FAMILY_IDX \<in> handler_families"
  "LOAD_STORE_SUBWORD_ONLY_CIRCUIT_FAMILY_IDX \<in> handler_families"
  by (simp_all add: handler_families_def)

lemma ensures_case_pair [ensures_rules]: "ensures (f a b) Q \<Longrightarrow> ensures (case (a, b) of (x, y) \<Rightarrow> f x y) Q"
  by simp

text \<open>A computation with a postcondition that is not looked into.\<close>

lemma bind_any: "(\<And>x. ensures (f x) Q) \<Longrightarrow> ensures (bindR m f) Q"
  by (auto simp: ensures_def res_simps)

context counting
begin

lemma family_midst:
  assumes "midst total t k s" and "f \<in> handler_families"
  shows "ensures (increment_family_counter C f s) (midst total t (Suc k))"
proof (rule ensuresI)
  fix s' assume *: "increment_family_counter C f s = Inr s'"
  then obtain cs where "s' = s \<lparr> counters := cs \<rparr>"
    by (auto simp: increment_family_counter_def res_simps)
  then show "midst total t (Suc k) s'"
    using assms increment_family_counter_total [OF * assms(2)] by (auto simp: midst_def)
qed

lemmas steps = ensures_case_pair ensures_guard ensures_debug_assert ensures_let mid_rules family_midst

text \<open>Handlers that work on registers only.\<close>

lemma register_handlers_midst:
  assumes "midst total t k s"
  shows "ensures (add_op c C use_imm i s) (midst total t (Suc k))"
    "ensures (sub_op c C i s) (midst total t (Suc k))"
    "ensures (and_op c C use_imm i s) (midst total t (Suc k))"
    "ensures (or_op c C use_imm i s) (midst total t (Suc k))"
    "ensures (xor_op c C use_imm i s) (midst total t (Suc k))"
    "ensures (sll c C use_imm i s) (midst total t (Suc k))"
    "ensures (srl c C use_imm i s) (midst total t (Suc k))"
    "ensures (sra c C use_imm i s) (midst total t (Suc k))"
    "ensures (slt c C use_imm i s) (midst total t (Suc k))"
    "ensures (sltu c C use_imm i s) (midst total t (Suc k))"
    "ensures (mul c C i s) (midst total t (Suc k))"
    "ensures (mulhu c C i s) (midst total t (Suc k))"
    "ensures (divu c C i s) (midst total t (Suc k))"
    "ensures (remu c C i s) (midst total t (Suc k))"
    "ensures (lui c C i s) (midst total t (Suc k))"
    "ensures (auipc c C i s) (midst total t (Suc k))"
    "ensures (jal c C i s) (midst total t (Suc k))"
    "ensures (jalr c C i s) (midst total t (Suc k))"
    "ensures (marker c C i s) (midst total t (Suc k))"
  unfolding add_op_def sub_op_def and_op_def or_op_def xor_op_def sll_def srl_def sra_def slt_def
    sltu_def mul_def mulhu_def divu_def remu_def lui_def auipc_def jal_def jalr_def marker_def
  by (assumption | rule assms steps | simp)+

lemma mop_midst:
  assumes "midst total t k s"
  shows "ensures (mop_addmod c C i s) (midst total t (Suc k))"
    "ensures (mop_submod c C i s) (midst total t (Suc k))"
    "ensures (mop_mulmod c C i s) (midst total t (Suc k))"
  unfolding mop_addmod_def mop_submod_def mop_mulmod_def
  by (assumption | rule assms steps | (rule bind_any, assumption?) | simp)+

lemma branch_midst:
  assumes "midst total t k s"
  shows "ensures (branch c C i s) (midst total t (Suc k))"
  unfolding branch_def
  apply (assumption | rule assms steps | simp)+
  apply (rule bind_any)
  apply (rule ensures_bind [where P = "midst total t k"])
  apply (rule ensures_if)
  apply (assumption | rule ensures_Inr steps | simp)+
  done

end

section \<open>The timestamps of the Keccak state\<close>

lemma set_write_indices:
  assumes "\<forall>x \<in> set s. good x" and "\<forall>j < 6. good (out ! j)"
  shows "\<forall>x \<in> set (write_indices idx out s). good x"
proof -
  have "\<forall>x \<in> set (foldl (\<lambda>s j. s[idx ! j := out ! j]) s js). good x" if "set js \<subseteq> {..<6}" for js
    using that assms(1)
  proof (induction js arbitrary: s)
    case (Cons j js)
    moreover have "\<forall>x \<in> set (s[idx ! j := out ! j]). good x"
      using Cons.prems assms(2) set_update_subset_insert [of s "idx ! j" "out ! j"] by auto
    ultimately show ?case by simp
  qed simp
  from this [of "[0..<6]"] show ?thesis by (simp add: write_indices_def atLeast0LessThan)
qed

text \<open>Every offset is that of one of the 649 calls.\<close>

lemma final_offsets:
  assumes "KECCAK_FINAL_TIMESTAMP_OFFSETS c = Inr offsets"
  shows "\<forall>x \<in> set offsets. \<exists>n \<le> 648. x = word_of_nat n * 4"
proof -
  let ?P = "\<lambda>x :: u64. \<exists>n \<le> 648. x = word_of_nat n * 4"
  from assms obtain ctl where *: "foldR (timestamp_offsets_step c)
      [0..<NUM_DELEGATION_CALLS_FOR_KECCAK_F1600]
      (INITIAL_KECCAK_F1600_CONTROL_VALUE, replicate 31 0) = Inr (ctl, offsets)"
    by (auto simp: KECCAK_FINAL_TIMESTAMP_OFFSETS_def res_simps)
  have "\<forall>x \<in> set (snd (ctl, offsets)). ?P x"
  proof (rule foldR_invariant [OF *])
    show "\<forall>x \<in> set (snd (INITIAL_KECCAK_F1600_CONTROL_VALUE, replicate 31 0)). ?P x"
      by (auto intro!: exI [of _ 0])
  next
    fix n p q
    assume n: "n \<in> set [0..<NUM_DELEGATION_CALLS_FOR_KECCAK_F1600]" and p: "\<forall>x \<in> set (snd p). ?P x"
      and step: "timestamp_offsets_step c n p = Inr q"
    from n have P: "?P (word_of_nat n * TIMESTAMP_STEP)"
      by (auto simp: code_consts intro!: exI [of _ n])
    from step show "\<forall>x \<in> set (snd q). ?P x"
      using set_write_indices [where good = ?P and s = "snd p"
          and out = "replicate 6 (word_of_nat n * TIMESTAMP_STEP)"] p P
      by (auto simp: timestamp_offsets_step_def Let_def res_simps split: prod.splits)
  qed
  then show ?thesis by simp
qed

section \<open>Memory and log\<close>

locale vm_parts =
  counting "vm_counters E" tot + ram_contract "vm_ram E" content stamp mapped writable +
  snapshotter "vm_snap E" log ok
  for E :: "('c, 'm, 's, 'n) vm_env" and tot content stamp mapped writable log ok
begin

text \<open>
  Memory \<open>m\<close> in the middle of a cycle that began with \<open>m0\<close>: the words that may not be
  written are unchanged, and no access is later than the cycle. The log only grows.
\<close>

definition mem_midst :: "u64 \<Rightarrow> 'm \<Rightarrow> 'm \<Rightarrow> bool" where
  "mem_midst t m0 m \<longleftrightarrow>
     mapped m = mapped m0 \<and> writable m = writable m0 \<and>
     (\<forall>i. i \<notin> writable m0 \<longrightarrow> content m i = content m0 i) \<and>
     (\<forall>i \<in> mapped m0. stamp m i \<le> t OR 3)"

definition logged :: "log_entry list \<Rightarrow> 's \<Rightarrow> bool" where
  "logged l sn \<longleftrightarrow> ok sn \<and> (\<exists>l'. log sn = l @ l')"

lemma stamp_le [mid_rules]:
  assumes "midst tot t k s" and "off \<in> {0, 1, 2, 3}"
  shows "(timestamp s OR off) OR 1 \<le> t OR 3" "(timestamp s OR off) OR 2 \<le> t OR 3"
proof -
  have "t OR off OR 1 \<in> {t OR 1, t OR 3} \<and> t OR off OR 2 \<in> {t OR 2, t OR 3}"
    using assms(2) by (auto simp: or.assoc)
  then show "(timestamp s OR off) OR 1 \<le> t OR 3" "(timestamp s OR off) OR 2 \<le> t OR 3"
    using assms(1) or_le_or3 [of 1 t] or_le_or3 [of 2 t] by (auto simp: midst_def or.assoc)
qed

lemma bind_read_word [mid_rules]:
  assumes "mem_midst t m0 m" and "t' OR 1 \<le> t OR 3"
    and f: "\<And>rt v m'. mem_midst t m0 m' \<Longrightarrow> ensures (f ((rt, v), m')) Q"
  shows "ensures (bindR (read_word (vm_ram E) a t' m) f) Q"
proof (rule ensures_bind)
  show "ensures (read_word (vm_ram E) a t' m) (\<lambda>((rt, v), m'). mem_midst t m0 m')"
    using assms(1,2) by (auto simp: ensures_def mem_midst_def dest!: read_returns)
qed (use f in auto)

lemma bind_write_word [mid_rules]:
  assumes "mem_midst t m0 m" and "t' OR 2 \<le> t OR 3"
    and f: "\<And>rt v m'. mem_midst t m0 m' \<Longrightarrow> ensures (f ((rt, v), m')) Q"
  shows "ensures (bindR (write_word (vm_ram E) a x t' m) f) Q"
proof (rule ensures_bind)
  show "ensures (write_word (vm_ram E) a x t' m) (\<lambda>((rt, v), m'). mem_midst t m0 m')"
    using assms(1,2) by (auto simp: ensures_def mem_midst_def dest!: write_returns)
qed (use f in auto)

lemma bind_append [mid_rules]:
  assumes "logged l sn" and f: "\<And>sn'. logged l sn' \<Longrightarrow> ensures (f sn') Q"
  shows "ensures (bindR (append_memory_read (vm_snap E) a v rt wt sn) f) Q"
    "ensures (bindR (append_arbitrary_value (vm_snap E) v sn) f) Q"
proof -
  have "ensures (append_memory_read (vm_snap E) a v rt wt sn) (logged l)"
    "ensures (append_arbitrary_value (vm_snap E) v sn) (logged l)"
    using assms(1) by (auto simp: ensures_def logged_def dest!: memory_log arbitrary_log)
  then show "ensures (bindR (append_memory_read (vm_snap E) a v rt wt sn) f) Q"
    "ensures (bindR (append_arbitrary_value (vm_snap E) v sn) f) Q"
    using f by (auto elim: ensures_bind)
qed

text \<open>The state after an instruction of \<open>n + 1\<close> cycles.\<close>

definition after :: "u64 \<Rightarrow> nat \<Rightarrow> 'm \<Rightarrow> log_entry list \<Rightarrow> ('c, 'm, 's, 'n) world \<Rightarrow> bool" where
  "after t k m0 l w \<longleftrightarrow> midst tot t k (st w) \<and> mem_midst t m0 (ram w) \<and> logged l (snap w)"

lemma afterI [mid_rules]:
  "midst tot t k (st w) \<Longrightarrow> mem_midst t m0 (ram w) \<Longrightarrow> logged l (snap w) \<Longrightarrow> after t k m0 l w"
  by (simp add: after_def)

lemma bind_family [mid_rules]:
  assumes "midst tot t k s" and "f \<in> handler_families"
    and g: "\<And>s'. midst tot t (Suc k) s' \<Longrightarrow> ensures (g s') Q"
  shows "ensures (bindR (increment_family_counter (vm_counters E) f s) g) Q"
  using family_midst [OF assms(1,2)] g by (rule ensures_bind)

lemmas parts = steps ensures_Inr mid_rules

lemma memory_handlers:
  assumes "midst tot t k (st w)" "mem_midst t m0 (ram w)" "logged l (snap w)"
  shows "ensures (sw E i w) (after t (Suc k) m0 l)"
    "ensures (lw E i w) (after t (Suc k) m0 l)"
    "ensures (sh E i w) (after t (Suc k) m0 l)"
    "ensures (sb E i w) (after t (Suc k) m0 l)"
    "ensures (lh E sign i w) (after t (Suc k) m0 l)"
    "ensures (lb E sign i w) (after t (Suc k) m0 l)"
    "ensures (nd_read E i w) (after t (Suc k) m0 l)"
    "ensures (nd_write E i w) (after t (Suc k) m0 l)"
  unfolding sw_def lw_def sh_def sb_def lh_def lb_def nd_read_def nd_write_def
  by (assumption | rule assms parts | simp only: prod.case world.simps | (simp add: assms; fail)
      | rule ensures_prod bind_any)+

section \<open>Delegations\<close>

lemma later_midst:
  assumes "midst tot t k s" and "t OR 3 \<le> t' OR 3"
  shows "midst tot t' k (s \<lparr> timestamp := t' \<rparr>)"
  using assms by (auto simp: midst_def)

lemma later_mem: "mem_midst t m0 m \<Longrightarrow> t OR 3 \<le> t' OR 3 \<Longrightarrow> mem_midst t' m0 m"
  by (auto simp: mem_midst_def)

text \<open>An access at \<open>t OR 3\<close> is as late as the cycle admits.\<close>

lemma or3_or: "(t OR 3) OR 1 \<le> t OR (3 :: u64)" "(t OR 3) OR 2 \<le> t OR (3 :: u64)"
  by (simp_all add: or.assoc)

lemma read_words_midst:
  assumes "mem_midst t m0 m" and "logged l sn" and "ts OR 1 \<le> t OR 3"
  shows "ensures (read_words E n addr ts m sn) (\<lambda>(vs, m', sn'). mem_midst t m0 m' \<and> logged l sn')"
  using assms(1,2)
proof (induction n arbitrary: addr m sn)
  case 0
  then show ?case by (simp add: ensures_Inr)
next
  case (Suc n)
  show ?case unfolding read_words.simps
    apply (rule bind_read_word [OF Suc.prems(1) assms(3)], simp only: prod.case)
    apply (rule bind_append [OF Suc.prems(2)])
    apply (rule bind_any, rule ensures_bind, rule Suc.IH, assumption, assumption)
    by (auto intro: ensures_Inr)
qed

lemma write_back_words_midst:
  assumes "mem_midst t m0 m" and "logged l sn" and "ts OR 2 \<le> t OR 3"
  shows "ensures (write_back_words E vs addr ts m sn) (\<lambda>(a, m', sn'). mem_midst t m0 m' \<and> logged l sn')"
  using assms(1,2)
proof (induction vs arbitrary: addr m sn)
  case Nil
  then show ?case by (simp add: ensures_Inr)
next
  case (Cons v vs)
  show ?case unfolding write_back_words.simps
    apply (rule bind_write_word [OF Cons.prems(1) assms(3)], simp only: prod.case)
    apply (rule bind_append [OF Cons.prems(2)])
    by (rule bind_any, rule Cons.IH)
qed

lemma bind_read_words [mid_rules]:
  assumes "mem_midst t m0 m" and "logged l sn" and "ts OR 1 \<le> t OR 3"
    and f: "\<And>vs m' sn'. mem_midst t m0 m' \<Longrightarrow> logged l sn' \<Longrightarrow> ensures (f (vs, m', sn')) Q"
  shows "ensures (bindR (read_words E n addr ts m sn) f) Q"
  by (rule ensures_bind [OF read_words_midst [OF assms(1-3)]]) (use f in auto)

lemma bind_write_back_words [mid_rules]:
  assumes "mem_midst t m0 m" and "logged l sn" and "ts OR 2 \<le> t OR 3"
    and f: "\<And>a m' sn'. mem_midst t m0 m' \<Longrightarrow> logged l sn' \<Longrightarrow> ensures (f (a, m', sn')) Q"
  shows "ensures (bindR (write_back_words E vs addr ts m sn) f) Q"
  by (rule ensures_bind [OF write_back_words_midst [OF assms(1-3)]]) (use f in auto)

lemma bind_read_u256 [mid_rules]:
  assumes "mem_midst t m0 m" and "logged l sn" and "ts OR 1 \<le> t OR 3"
    and f: "\<And>vs m' sn'. mem_midst t m0 m' \<Longrightarrow> logged l sn' \<Longrightarrow> ensures (f (vs, m', sn')) Q"
  shows "ensures (bindR (read_u256 E addr ts m sn) f) Q"
  unfolding read_u256_def bindR_assoc using assms by (auto intro: bind_read_words)

lemma bind_write_back_u256 [mid_rules]:
  assumes "mem_midst t m0 m" and "logged l sn" and "ts OR 2 \<le> t OR 3"
    and f: "\<And>m' sn'. mem_midst t m0 m' \<Longrightarrow> logged l sn' \<Longrightarrow> ensures (f (m', sn')) Q"
  shows "ensures (bindR (write_back_u256 E v addr ts m sn) f) Q"
  unfolding write_back_u256_def bindR_assoc using assms by (auto intro: bind_write_back_words)

lemma or3_of_midst [mid_rules]:
  "midst tot t k s \<Longrightarrow> (timestamp s OR 3) OR 1 \<le> t OR 3"
  "midst tot t k s \<Longrightarrow> (timestamp s OR 3) OR 2 \<le> t OR 3"
  by (simp_all add: midst_def or3_or)

lemma bump_midst [mid_rules]:
  "midst tot t k s \<Longrightarrow> midst tot t k (s \<lparr> counters := bump_bigint (vm_counters E) n (counters s) \<rparr>)"
  by (simp add: midst_def bump_total)

lemma bigint_call_midst:
  assumes "midst tot t k (st w)" "mem_midst t m0 (ram w)" "logged l (snap w)"
  shows "ensures (bigint_call E w) (after t (Suc k) m0 l)"
proof -
  have s: "midst tot t k (stamp_register 0 (timestamp (st w) OR 2) (st w))"
    using assms(1) or_le_or3 [of 2 t] by (intro stamp_register_midst) (auto simp: midst_def)
  show ?thesis
    unfolding bigint_call_def Let_def
    by (assumption | rule assms s mid_rules parts | simp only: prod.case world.simps bindR_Inr | (simp add: assms; fail)
        | rule ensures_prod bind_any)+
qed

text \<open>A batch of \<open>n\<close> calls, the last of which happens \<open>4 * (n - 1)\<close> later.\<close>

definition later_call :: "u64 \<Rightarrow> nat \<Rightarrow> u64" where
  "later_call t n = t + word_of_nat n * 4"

lemma later_call_facts:
  assumes "aligned4 t" and "unat t + 4 * n + 4 < 2 ^ 64" and "k \<le> n"
  shows "unat (later_call t n) = unat t + 4 * n" "aligned4 (later_call t n)"
    "later_call t n OR 3 = later_call t n + 3"
    "t OR 3 \<le> later_call t n OR 3" "later_call t k OR 3 \<le> later_call t n OR 3"
    "later_call t n + 4 = t + word_of_nat (4 * (n + 1))"
proof -
  have *: "unat (later_call t j) = unat t + 4 * j" "aligned4 (later_call t j)"
      "unat (later_call t j OR 3) = unat t + 4 * j + 3" if "j \<le> n" for j
  proof -
    have "later_call t j = t + word_of_nat (4 * j)" by (simp add: later_call_def mult.commute)
    then show u: "unat (later_call t j) = unat t + 4 * j"
      using unat_plus_le [of t "4 * j"] assms(2) that by simp
    show a: "aligned4 (later_call t j)"
      using assms(1) by (simp add: later_call_def aligned4_add aligned4_mult4)
    show "unat (later_call t j OR 3) = unat t + 4 * j + 3"
      using unat_plus_le [of "later_call t j" 3] u assms(2) that by (simp add: or3_of_aligned [OF a])
  qed
  show "unat (later_call t n) = unat t + 4 * n" "aligned4 (later_call t n)"
    "later_call t n OR 3 = later_call t n + 3" "later_call t k OR 3 \<le> later_call t n OR 3"
    "t OR 3 \<le> later_call t n OR 3"
    using *(1,2) [of n] or3_of_aligned [of "later_call t n"] *(3) [of n] *(3) [of k] *(3) [of 0] assms(3)
    by (simp_all add: word_le_nat_alt later_call_def)
  show "later_call t n + 4 = t + word_of_nat (4 * (n + 1))"
    by (simp add: later_call_def algebra_simps)
qed

lemma last_call_ensures:
  "ensures (last_call_timestamp c n t) (\<lambda>t'. t' = later_call t (n - 1))"
  by (simp add: last_call_timestamp_def later_call_def code_consts ensures_def res_simps)

lemma family_by_midst:
  assumes "midst tot t k s" and "f \<in> handler_families"
  shows "ensures (increment_family_counter_by (vm_counters E) f n s) (midst tot t (k + n))"
  using assms log_known [OF assms(2), of n "counters s"]
  by (auto simp: increment_family_counter_by_def ensures_def midst_def res_simps)

text \<open>The state a batch leaves, with the registers it stamps at its last call.\<close>

lemma batch_midst:
  assumes s: "midst tot t' k (s \<lparr> timestamp := t' \<rparr>)" and "aligned4 p" and "tot c' = tot (counters s)"
  shows "midst tot t' k (s \<lparr> timestamp := t', counters := c', pc := p \<rparr>)"
  using assms by (auto simp: midst_def)

lemma set_register_later:
  "(set_register i t v s) \<lparr> timestamp := t' \<rparr> = set_register i t v (s \<lparr> timestamp := t' \<rparr>)"
  "(stamp_register i t s) \<lparr> timestamp := t' \<rparr> = stamp_register i t (s \<lparr> timestamp := t' \<rparr>)"
  by (simp_all add: stamp_register_def set_register_def)

lemma register_fields:
  "counters (set_register i t v s) = counters s" "pc (set_register i t v s) = pc s"
  "counters (stamp_register i t s) = counters s" "pc (stamp_register i t s) = pc s"
  by (simp_all add: stamp_register_def set_register_def)

lemma bind_last_call:
  "(\<And>t'. t' = later_call t (n - 1) \<Longrightarrow> ensures (f t') Q) \<Longrightarrow> ensures (bindR (last_call_timestamp c n t) f) Q"
  by (rule ensures_bind [OF last_call_ensures])

lemma bind_add:
  "(\<And>x. x = a + b \<Longrightarrow> ensures (f x) Q) \<Longrightarrow> ensures (bindR (checked_add dbg a b) f) Q"
  by (rule ensures_bind [OF ensures_checked_add])

lemma bind_family_by:
  assumes "midst tot t k s" and "f \<in> handler_families"
    and g: "\<And>s'. midst tot t (k + n) s' \<Longrightarrow> ensures (g s') Q"
  shows "ensures (bindR (increment_family_counter_by (vm_counters E) f n s) g) Q"
  using family_by_midst [OF assms(1,2)] g by (rule ensures_bind)

lemma blake2_call_midst:
  assumes s: "midst tot t k (st w)" and m: "mem_midst t m0 (ram w)" and sn: "logged l (snap w)"
    and t: "aligned4 t" "unat t + 4 * 648 + 4 < 2 ^ 64"
  shows "ensures (blake2_round_function_call E w)
    (\<lambda>w'. \<exists>n \<le> 648. after (later_call t n) (k + n + 1) m0 l w')"
proof -
  define x12 n where "x12 = reg_value (registers (st w) 12)" and "n = num_rounds x12 - 1"
  let ?T = "later_call t n"
  have n: "n \<le> 648" "num_rounds x12 = Suc n" by (simp_all add: n_def num_rounds_def)
  have last: "later_call (timestamp (st w)) (num_rounds x12 - 1) = ?T"
    using s by (simp add: midst_def n_def)
  have bound: "unat t + 4 * n + 4 < 2 ^ 64" using n(1) t(2) by simp
  note T = later_call_facts [OF t(1) bound, of 0]
  have s': "midst tot ?T k ((st w) \<lparr> timestamp := ?T \<rparr>)"
    by (rule later_midst [OF s]) (use T(4) in simp)
  have m': "mem_midst ?T m0 (ram w)" by (rule later_mem [OF m]) (use T(4) in simp)
  have p: "aligned4 (pc (st w) + word_of_nat (4 * num_rounds x12))"
    using s by (simp only: midst_def aligned4_add aligned4_mult4)
  let ?s = "stamp_register 0 (?T OR 2) (set_register 12 (?T + 3) (final_x12 x12)
    (stamp_register 11 (?T + 3) (stamp_register 10 (?T + 3) (st w))))"
  have regs: "midst tot ?T k (?s \<lparr> timestamp := ?T \<rparr>)"
    unfolding set_register_later
    by (intro stamp_register_midst set_register_midst s') (simp_all add: T(3) or_le_or3 flip: T(3))
  have fin: "midst tot ?T k (?s \<lparr> timestamp := ?T,
      counters := bump_blake2_round_function (vm_counters E) (num_rounds x12) (counters ?s),
      pc := pc ?s + word_of_nat (4 * num_rounds x12) \<rparr>)"
    using p by (intro batch_midst regs) (simp_all add: register_fields bump_total)
  show ?thesis
    unfolding blake2_round_function_call_def Let_def x12_def [symmetric]
    apply (rule ensures_guard)+
    apply (rule bind_last_call, hypsubst, unfold last)
    apply (rule bind_add, hypsubst, rule bind_any, rule bind_any)
    apply (rule bind_write_back_words [OF m' sn], rule or3_or)
    apply (simp only: prod.case)
    apply (rule bind_read_words, assumption, assumption, rule or3_or)
    apply (simp only: prod.case)
    apply (rule bind_family_by [where t = ?T and k = k])
    apply (rule fin, rule handler_families_mem)
    apply (rule ensures_Inr)
    apply (rule exI [of _ n])
    using n by (simp add: after_def)
qed

lemma keccak_write_back_midst:
  assumes "mem_midst t' m0 m" and "logged l sn"
    and "\<forall>(v, off) \<in> set vs. \<exists>n \<le> N. off = word_of_nat n * 4"
    and t: "aligned4 t" "unat t + 4 * N + 4 < 2 ^ 64" and t': "t' = later_call t N"
  shows "ensures (keccak_write_back E (t OR 3) vs addr m sn) (\<lambda>(m', sn'). mem_midst t' m0 m' \<and> logged l sn')"
  using assms(1-3)
proof (induction vs arbitrary: addr m sn)
  case Nil
  then show ?case by (simp add: ensures_Inr)
next
  case (Cons p vs)
  obtain v off n where p: "p = (v, off)" "n \<le> N" "off = word_of_nat n * 4"
    using Cons.prems(3) by (cases p) auto
  have "(t OR 3) + off = later_call t n OR 3"
    using later_call_facts(3) [OF t(1), of n 0] t(2) p(2)
    unfolding or3_of_aligned [OF t(1)] by (simp add: later_call_def p(3) algebra_simps)
  also have "\<dots> OR 2 \<le> t' OR 3"
    using later_call_facts(5) [OF t p(2)] by (simp add: t' or.assoc)
  finally have ts: "((t OR 3) + off) OR 2 \<le> t' OR 3" .
  show ?case unfolding p(1) keccak_write_back.simps Let_def
    apply (rule bind_add, hypsubst, rule ensures_debug_assert)
    apply (rule bind_write_back_words [OF Cons.prems(1,2) ts], simp only: prod.case)
    by (rule Cons.IH) (use Cons.prems(3) in auto)
qed

lemma keccak_call_midst:
  assumes s: "midst tot t k (st w)" and m: "mem_midst t m0 (ram w)" and sn: "logged l (snap w)"
    and t: "aligned4 t" "unat t + 4 * 648 + 4 < 2 ^ 64"
  shows "ensures (keccak_special5_call E w) (\<lambda>w'. \<exists>n \<le> 648. after (later_call t n) (k + n + 1) m0 l w')"
proof -
  let ?T = "later_call t 648" and ?N = NUM_DELEGATION_CALLS_FOR_KECCAK_F1600
  have ts: "timestamp (st w) = t" using s by (simp add: midst_def)
  have N: "?N - 1 = 648" "?N = Suc 648" by (simp_all add: code_consts)
  have last: "later_call t (?N - 1) = ?T" by (simp only: N(1))
  note T = later_call_facts [OF t, of 0]
  have s': "midst tot ?T k ((st w) \<lparr> timestamp := ?T \<rparr>)"
    by (rule later_midst [OF s]) (use T(4) in simp)
  have m': "mem_midst ?T m0 (ram w)" by (rule later_mem [OF m]) (use T(4) in simp)
  have p: "aligned4 (pc (st w) + word_of_nat (4 * ?N))"
    using s by (simp only: midst_def aligned4_add aligned4_mult4)
  let ?s = "stamp_register 0 (?T OR 2) (stamp_register 11 (?T + 3)
    (set_register 10 (?T + 3) FINAL_KECCAK_F1600_CONTROL_VALUE (st w)))"
  have regs: "midst tot ?T k (?s \<lparr> timestamp := ?T \<rparr>)"
    unfolding set_register_later
    by (intro stamp_register_midst set_register_midst s') (simp_all add: T(3) or_le_or3 flip: T(3))
  have fin: "midst tot ?T k (?s \<lparr> timestamp := ?T,
      counters := bump_keccak_special5 (vm_counters E) ?N (counters ?s),
      pc := pc ?s + word_of_nat (4 * ?N) \<rparr>)"
    using p by (intro batch_midst regs) (simp_all add: register_fields bump_total)
  have zip: "\<forall>(v, off) \<in> set (zip vs offsets). \<exists>n \<le> 648. off = word_of_nat n * 4"
    if "KECCAK_FINAL_TIMESTAMP_OFFSETS (vm_cfg E) = Inr offsets" for offsets and vs :: "u64 list"
    using final_offsets [OF that] by (auto dest: set_zip_rightD)
  show ?thesis
    unfolding keccak_special5_call_def Let_def ts
    apply (rule ensures_debug_assert, (rule ensures_guard)+)
    apply (rule bind_last_call, hypsubst, unfold last)
    apply (rule bind_add, hypsubst, rule bind_any)
    apply (rule ensures_bind [of _ "\<lambda>offsets. KECCAK_FINAL_TIMESTAMP_OFFSETS (vm_cfg E) = Inr offsets"])
    apply (simp add: ensures_def)
    apply (rule ensures_bind, rule keccak_write_back_midst [OF m' sn zip t refl], assumption)
    apply (rule ensures_prod, simp only: prod.case, erule conjE)
    apply (rule bind_family_by [where t = ?T and k = k])
    apply (rule fin, rule handler_families_mem)
    apply (rule ensures_Inr)
    apply (rule exI [of _ 648])
    by (simp add: after_def N(2) add.commute)
qed

section \<open>Cycles and runs\<close>

lemma one_cycle:
  "ensures r (after t (Suc k) m0 l) \<Longrightarrow>
     ensures r (\<lambda>w'. \<exists>n \<le> 648. after (later_call t n) (k + n + 1) m0 l w')"
  by (erule ensures_mono) (auto simp: later_call_def intro!: exI [of _ 0])

lemma on_state_after:
  "mem_midst t m0 (ram w) \<Longrightarrow> logged l (snap w) \<Longrightarrow> ensures (f (st w)) (midst tot t (Suc k)) \<Longrightarrow>
     ensures (on_state f w) (\<lambda>w'. \<exists>n \<le> 648. after (later_call t n) (k + n + 1) m0 l w')"
  unfolding on_state_def by (rule one_cycle, erule ensures_bind) (simp add: ensures_Inr after_def)

lemma dispatch_midst:
  assumes "midst tot t k (st w)" "mem_midst t m0 (ram w)" "logged l (snap w)"
    and "aligned4 t" "unat t + 4 * 648 + 4 < 2 ^ 64"
  shows "ensures (dispatch E i w) (\<lambda>w'. \<exists>n \<le> 648. after (later_call t n) (k + n + 1) m0 l w')"
proof -
  note on = on_state_after [OF assms(2,3)] and here = assms(1-3)
  note del = bigint_call_midst [OF here] blake2_call_midst [OF assms] keccak_call_midst [OF assms]
  show ?thesis
    unfolding dispatch_def Let_def
    by (cases "name i")
      (auto simp: illegal_def call_delegation_def Let_def simp del: One_nat_def
        intro!: ensures_Inl ensures_debug_assert ensures_if del one_cycle [OF del(1)]
          on register_handlers_midst mop_midst branch_midst memory_handlers [THEN one_cycle] here)
qed

text \<open>
  The invariant between cycles, relative to the memory \<open>m0\<close> and the log \<open>l\<close> of the start.
\<close>

definition world_inv :: "'m \<Rightarrow> log_entry list \<Rightarrow> ('c, 'm, 's, 'n) world \<Rightarrow> bool" where
  "world_inv m0 l w \<longleftrightarrow>
     between tot (st w) \<and> mapped (ram w) = mapped m0 \<and> writable (ram w) = writable m0 \<and>
     (\<forall>i. i \<notin> writable m0 \<longrightarrow> content (ram w) i = content m0 i) \<and>
     (\<forall>i \<in> mapped m0. stamp (ram w) i < timestamp (st w)) \<and> logged l (snap w)"

lemma less_or3: "x < t \<Longrightarrow> x \<le> t OR (3 :: u64)"
  using or_le_or3 [of 0 t] by simp

lemma world_inv_midst:
  assumes "world_inv m0 l w"
  shows "midst tot (timestamp (st w)) (tot (counters (st w))) (st w)"
    "mem_midst (timestamp (st w)) m0 (ram w)" "logged l (snap w)" "aligned4 (timestamp (st w))"
  using assms by (auto simp: world_inv_def midst_def mem_midst_def between_def intro: less_or3)

lemma after_world_inv:
  assumes "after t k m0 l w" and "aligned4 t" "unat t = 4 * k" "unat t + 4 < 2 ^ 64"
  shows "world_inv m0 l (w \<lparr> st := (st w) \<lparr> timestamp := t + 4 \<rparr> \<rparr>)"
  using assms or3_less_tick [OF assms(2,4)] unat_plus_le [of t 4]
  by (auto simp: after_def world_inv_def midst_def mem_midst_def between_def
      intro: aligned4_add aligned4_mult4 le_less_trans)

lemma vm_cycle_inv:
  assumes inv: "world_inv m0 l w" and room: "unat (timestamp (st w)) + 4 * 649 < 2 ^ 64"
  shows "ensures (vm_cycle E tape w) (\<lambda>(stop, w'). world_inv m0 l w' \<and>
     unat (timestamp (st w)) < unat (timestamp (st w')) \<and>
     unat (timestamp (st w')) \<le> unat (timestamp (st w)) + 4 * 649)"
proof -
  let ?t = "timestamp (st w)" and ?k = "tot (counters (st w))"
  note mid = world_inv_midst [OF inv]
  have room': "unat ?t + 4 * 648 + 4 < 2 ^ 64" using room by simp
  have k: "unat ?t = 4 * (?k + 1)" using inv by (simp add: world_inv_def between_def)
  let ?Q = "\<lambda>w'. \<exists>n \<le> 648. after (later_call ?t n) (?k + n + 1) m0 l w'"
  have step: "ensures (run_step E tape w) ?Q"
    unfolding run_step_def
    by (intro bind_any ensures_debug_assert dispatch_midst mid room')
  have tick: "world_inv m0 l (w' \<lparr> st := (st w') \<lparr> timestamp := timestamp (st w') + 4 \<rparr> \<rparr>) \<and>
      unat ?t < unat (timestamp (st w') + 4) \<and> unat (timestamp (st w') + 4) \<le> unat ?t + 4 * 649"
    if Q: "?Q w'" for w'
  proof -
    obtain n where n: "n \<le> 648" "after (later_call ?t n) (?k + n + 1) m0 l w'" using Q by blast
    have b: "unat ?t + 4 * n + 4 < 2 ^ 64" using n(1) room by simp
    note T = later_call_facts [OF mid(4) b, of 0]
    have ts: "timestamp (st w') = later_call ?t n" using n(2) by (simp add: after_def midst_def)
    have "unat (later_call ?t n + 4) = unat ?t + 4 * n + 4"
      using unat_plus_le [of "later_call ?t n" 4] T(1) b by simp
    then show ?thesis
      using after_world_inv [OF n(2) T(2)] T(1) b k n(1) by (simp add: ts)
  qed
  show ?thesis
    unfolding vm_cycle_def
    apply (rule ensures_bind [OF step], rule bind_add, hypsubst)
    subgoal for w'
      using tick [of w'] final_log needed_log
      apply (auto simp: Let_def code_consts ensures_def res_simps world_inv_def logged_def)
      done
    done
qed

text \<open>A run of at most \<open>n\<close> cycles, each of which moves the clock by at most 649 steps.\<close>

lemma run_basic_inv:
  assumes "world_inv m0 l w" and "unat (timestamp (st w)) + 4 * 649 * n < 2 ^ 64"
  shows "ensures (run_basic_unrolled E tape n w) (\<lambda>(finished, w'). world_inv m0 l w' \<and>
     unat (timestamp (st w)) \<le> unat (timestamp (st w')))"
  using assms
proof (induction n arbitrary: w)
  case 0
  then show ?case by (simp add: ensures_Inr)
next
  case (Suc n)
  have room: "unat (timestamp (st w)) + 4 * 649 < 2 ^ 64" using Suc.prems(2) by simp
  show ?case unfolding run_basic_unrolled.simps
  proof (rule ensures_bind [OF vm_cycle_inv [OF Suc.prems(1) room]], clarify)
    fix stop w'
    assume w': "world_inv m0 l w'" "unat (timestamp (st w)) < unat (timestamp (st w'))"
      "unat (timestamp (st w')) \<le> unat (timestamp (st w)) + 4 * 649"
    then have "unat (timestamp (st w')) + 4 * 649 * n < 2 ^ 64" using Suc.prems(2) by simp
    from Suc.IH [OF w'(1) this]
    have "ensures (run_basic_unrolled E tape n w') (\<lambda>(finished, w''). world_inv m0 l w'' \<and>
        unat (timestamp (st w)) \<le> unat (timestamp (st w'')))"
      by (rule ensures_mono) (use w'(2) in auto)
    then show "ensures (case stop of None \<Rightarrow> run_basic_unrolled E tape n w' | Some finished \<Rightarrow> Inr (finished, w'))
       (\<lambda>(finished, w''). world_inv m0 l w'' \<and> unat (timestamp (st w)) \<le> unat (timestamp (st w'')))"
      using w' by (cases stop) (simp_all add: ensures_Inr)
  qed
qed

text \<open>
  The clock bound: the loop stops by itself, and the cycle that passes the bound is the last.
\<close>

lemma run_by_bound_inv:
  assumes "world_inv m0 l w" and "unat bound + 4 * 649 < 2 ^ 64"
  shows "(run_by_timestamp_bound fuel E tape bound w = Some (Inr (finished, w')) \<longrightarrow> world_inv m0 l w') \<and>
    (unat bound \<le> unat (timestamp (st w)) + fuel \<longrightarrow> run_by_timestamp_bound fuel E tape bound w \<noteq> None)"
  using assms(1)
proof (induction fuel arbitrary: w)
  case 0
  then show ?case by (auto simp: word_less_nat_alt)
next
  case (Suc fuel)
  show ?case
  proof (cases "timestamp (st w) < bound")
    case True
    then have room: "unat (timestamp (st w)) + 4 * 649 < 2 ^ 64"
      using assms(2) by (simp add: word_less_nat_alt)
    show ?thesis
    proof (cases "vm_cycle E tape w")
      case (Inr p)
      obtain stop w1 where p: "p = (stop, w1)" by (cases p)
      from ensuresD [OF vm_cycle_inv [OF Suc.prems room] Inr]
      have w1: "world_inv m0 l w1" "unat (timestamp (st w)) < unat (timestamp (st w1))"
        by (simp_all add: p)
      show ?thesis using Suc.IH [OF w1(1)] w1 True by (cases stop) (auto simp: Inr p)
    qed (simp add: True)
  qed (use Suc.prems in auto)
qed

end

end
