(* ===== verification/VmProps.thy ===== *)
theory VmProps
  imports VmInvariant
begin

text \<open>
  The machine as the repository runs it, with the counters of the circuit families, the memory
  with a ROM region and the recording snapshotter: the contracts of \<open>Machine\<close>, \<open>Ram\<close> and
  \<open>Snapshot\<close> hold for these, so that the lemmas of \<open>VmInvariant\<close> do. The non-determinism
  source and the crate \<open>ruint\<close> are arbitrary.
\<close>

section \<open>The machine\<close>

type_synonym counted = DelegationsAndFamiliesCounters
type_synonym recorder = "(counted, log_entry vec) simple_snapshotter"
type_synonym 'n rom_world = "(counted, rom_ram, recorder, 'n) world"

definition rom_machine :: "cfg \<Rightarrow> 'n nd_ops \<Rightarrow> ruint_ops \<Rightarrow> (counted, rom_ram, recorder, 'n) vm_env" where
  "rom_machine c ND U =
     \<lparr> vm_cfg = c, vm_counters = DelegationsAndFamiliesCounters_ops, vm_ram = rom_ram_ops c,
       vm_snap = simple_snapshotter_ops c vec_buffer_ops, vm_nd = ND, vm_ruint = U \<rparr>"

interpretation rom_vm: vm_parts "rom_machine c ND U" families_total rom_content rom_stamp
  "\<lambda>m. {..<backing_len m}" "\<lambda>m. {rom_bytes c div 4..}" vec_log.taken_log vec_log.partitioned
  for c ND U
  unfolding vm_parts_def rom_machine_def vm_env.simps
  by (intro conjI families.counting_axioms rom.ram_contract_axioms vec_log.snap.snapshotter_axioms)

text \<open>
  The invariant, written out: the clock and the program counter are aligned, \<open>x0\<close> holds zero,
  no register or memory word was accessed at or after the clock, the counters of the families
  add up to the cycles on the clock, and the snapshots partition the log.
\<close>

definition machine_inv :: "'n rom_world \<Rightarrow> bool" where
  "machine_inv w \<longleftrightarrow>
     between families_total (st w) \<and>
     (\<forall>i < backing_len (ram w). reg_timestamp (backing (ram w) i) < timestamp (st w)) \<and>
     vec_log.partitioned (snap w)"

text \<open>What a run does not change: the ROM, and the log already written.\<close>

definition keeps_rom_and_log :: "cfg \<Rightarrow> 'n rom_world \<Rightarrow> 'n rom_world \<Rightarrow> bool" where
  "keeps_rom_and_log c w w' \<longleftrightarrow>
     backing_len (ram w') = backing_len (ram w) \<and>
     (\<forall>i < rom_bytes c div 4. reg_value (backing (ram w') i) = reg_value (backing (ram w) i)) \<and>
     (\<exists>l. vec_items (reads_buffer (snap w')) = vec_items (reads_buffer (snap w)) @ l)"

lemma world_inv_self:
  "rom_vm.world_inv c (ram w) (vec_items (reads_buffer (snap w))) w \<longleftrightarrow> machine_inv w"
  by (auto simp: rom_vm.world_inv_def machine_inv_def rom_vm.logged_def vec_log.taken_log_def rom_stamp_def)

lemma world_inv_step:
  "rom_vm.world_inv c (ram w) (vec_items (reads_buffer (snap w))) w' \<longleftrightarrow>
     machine_inv w' \<and> keeps_rom_and_log c w w'"
  by (auto simp: rom_vm.world_inv_def machine_inv_def keeps_rom_and_log_def rom_vm.logged_def
      vec_log.taken_log_def rom_stamp_def rom_content_def not_le)

section \<open>Starting states\<close>

definition DelegationsAndFamiliesCounters_default :: counted where
  "DelegationsAndFamiliesCounters_default =
     \<lparr> add_sub_family = 0, binary_shift_csr_family = 0, slt_branch_family = 0, mul_div_family = 0,
       word_size_mem_family = 0, subword_size_mem_family = 0,
       fc_blake_calls = 0, fc_bigint_calls = 0, fc_keccak_calls = 0 \<rparr>"

text \<open>Power-on: the program in ROM, zeroed registers and memory, an empty log.\<close>

definition power_on ::
  "cfg \<Rightarrow> u32 list \<Rightarrow> nat \<Rightarrow> nat \<Rightarrow> 'n \<Rightarrow> 'n rom_world res" where
  "power_on c program ram_bytes cycle_limit source =
     (let s = initial_with_counters DelegationsAndFamiliesCounters_default in
      bindR (from_rom_content c program ram_bytes) (\<lambda>m.
      bindR (new_with_cycle_limit vec_buffer_ops cycle_limit s) (\<lambda>sn.
      Inr \<lparr> st = s, ram = m, snap = sn, nd = source \<rparr>)))"

lemma power_on_inv:
  assumes "power_on c program ram_bytes limit source = Inr w"
  shows "machine_inv w" "timestamp (st w) = 4"
    "i < length program \<Longrightarrow> length program \<le> rom_bytes c div 4 \<and> reg_value (backing (ram w) i) = program ! i"
proof -
  from assms obtain m sn where
    m: "from_rom_content c program ram_bytes = Inr m" and
    sn: "new_with_cycle_limit vec_buffer_ops limit
      (initial_with_counters DelegationsAndFamiliesCounters_default) = Inr sn" and
    w: "w = \<lparr> st = initial_with_counters DelegationsAndFamiliesCounters_default,
              ram = m, snap = sn, nd = source \<rparr>"
    by (auto simp: power_on_def Let_def res_simps)
  have "vec_log.partitioned sn" using vec_log.new_partitioned [OF sn] by simp
  moreover have "between families_total (st w)"
    by (simp add: w between_def initial_with_counters_def families_total_def code_consts
        DelegationsAndFamiliesCounters_default_def aligned4_def)
  moreover have "\<forall>i. reg_timestamp (backing m i) = 0"
    using m by (auto simp: from_rom_content_def Let_def res_simps)
  ultimately show "machine_inv w" "timestamp (st w) = 4"
    by (simp_all add: machine_inv_def w initial_with_counters_def code_consts)
  have "rom_bytes c div 4 \<le> ram_bytes div 4" if "rom_bytes c < ram_bytes"
    using that by (intro div_le_mono) simp
  then show "i < length program \<Longrightarrow> length program \<le> rom_bytes c div 4 \<and> reg_value (backing (ram w) i) = program ! i"
    using m by (auto simp: from_rom_content_def Let_def res_simps w)
qed

section \<open>A small machine\<close>

text \<open>A jump to itself, in a machine with 128 KB of ROM and as much RAM.\<close>

definition small_cfg :: cfg where
  "small_cfg = \<lparr> debug_assertions = True, fuzzing_support = False, rom_bits = 1 \<rparr>"

definition small_tape :: "instruction list" where
  "small_tape = [from_imm Jal 0 0 0 0]"

definition small_world :: "unit rom_world" where
  "small_world =
     (let s = initial_with_counters DelegationsAndFamiliesCounters_default in
      \<lparr> st = s,
        ram = \<lparr> backing = (\<lambda>i. \<lparr> reg_timestamp = 0, reg_value = if i < 1 then [0x6f] ! i else 0 \<rparr>),
                backing_len = 65536 \<rparr>,
        snap = \<lparr> reads_offset = 0, snapshots = [], reads_buffer = \<lparr> vec_items = [], vec_capacity = 10 \<rparr>,
                 initial_snapshot = \<lparr> snap_state = s, reads_start = 0, reads_end = 0 \<rparr> \<rparr>,
        nd = () \<rparr>)"

lemma small_power_on: "power_on small_cfg [0x6f] 262144 10 () = Inr small_world"
proof -
  have "is_power_of_two 262144"
    unfolding is_power_of_two_def by (simp add: image_iff) (rule bexI [of _ 18], simp_all)
  then show ?thesis
    by (simp add: power_on_def small_world_def from_rom_content_def small_cfg_def rom_bytes_def
        new_with_cycle_limit_def vec_buffer_ops_def Let_def fun_eq_iff)
qed

abbreviation small_machine :: "(counted, rom_ram, recorder, unit) vm_env" where
  "small_machine \<equiv> rom_machine small_cfg unit_nd_ops ruint_model"

lemma small_cycle: "\<exists>w'. vm_cycle small_machine small_tape small_world = Inr (Some True, w')"
  by (simp add: vm_cycle_def run_step_def rom_machine_def small_world_def small_tape_def small_cfg_def
      read_instruction_def dispatch_def from_imm_def on_state_def jal_def touch_x0_def
      write_register_def register_access_def set_register_def initial_with_counters_def
      increment_family_counter_def DelegationsAndFamiliesCounters_ops_def families_log_multiple_def
      simple_snapshotter_ops_def checked_add_def code_consts Let_def)

section \<open>Properties\<close>



text \<open>
  C3. A run from power-on for any number of cycles that fit the clock ends in a state that
  satisfies the invariant, with the program in ROM as it was loaded and the clock at four times
  one more than the number of cycles the family counters have logged.
\<close>

theorem run_from_power_on:
  assumes "power_on c program ram_bytes limit source = Inr w"
    and "4 + 4 * 649 * n < (2 :: nat) ^ 64"
    and "run_basic_unrolled (rom_machine c ND U) tape n w = Inr (finished, w')"
  shows "machine_inv w' \<and>
    unat (timestamp (st w')) = 4 * (families_total (counters (st w')) + 1) \<and>
    map (\<lambda>i. reg_value (backing (ram w') i)) [0..<length program] = program"
proof -
  note w = power_on_inv [OF assms(1)]
  from w(1) have inv: "rom_vm.world_inv c (ram w) (vec_items (reads_buffer (snap w))) w"
    by (simp add: world_inv_self)
  have room: "unat (timestamp (st w)) + 4 * 649 * n < 2 ^ 64" using assms(2) by (simp add: w(2))
  have "machine_inv w' \<and> keeps_rom_and_log c w w'"
    using ensuresD [OF rom_vm.run_basic_inv [OF inv room] assms(3)] by (simp add: world_inv_step)
  moreover from this have "map (\<lambda>i. reg_value (backing (ram w') i)) [0..<length program] = program"
    by (intro nth_equalityI) (use w(3) in \<open>force simp: keeps_rom_and_log_def\<close>)+
  ultimately show ?thesis by (auto simp: machine_inv_def between_def)
qed

theorem run_from_power_on_witness:
  "\<exists>w w'. power_on small_cfg [0x6f] 262144 10 () = Inr w \<and>
     run_basic_unrolled small_machine small_tape 5 w = Inr (True, w') \<and>
     machine_inv w' \<and> reg_value (backing (ram w') 0) = 0x6f"
proof -
  from small_cycle obtain w' where "vm_cycle small_machine small_tape small_world = Inr (Some True, w')" ..
  then have run: "run_basic_unrolled small_machine small_tape 5 small_world = Inr (True, w')"
    by (simp add: numeral_eq_Suc)
  have "machine_inv w' \<and> map (\<lambda>i. reg_value (backing (ram w') i)) [0..<length [0x6f :: u32]] = [0x6f]"
    using run_from_power_on [OF small_power_on _ run] by simp
  with small_power_on run show ?thesis by auto
qed

text \<open>
  C6. The loop with a clock bound terminates: with as many iterations as the clock has left it
  has returned or stopped with a fault, and in a state that satisfies the invariant.
\<close>

theorem run_by_timestamp_bound_terminates:
  assumes "machine_inv w" and "unat bound + 4 * 649 < 2 ^ 64"
    and "unat bound \<le> unat (timestamp (st w)) + fuel"
  shows "case run_by_timestamp_bound fuel (rom_machine c ND U) tape bound w of
      None \<Rightarrow> False
    | Some (Inl e) \<Rightarrow> True
    | Some (Inr (finished, w')) \<Rightarrow> machine_inv w' \<and> keeps_rom_and_log c w w'"
proof -
  from assms(1) have "rom_vm.world_inv c (ram w) (vec_items (reads_buffer (snap w))) w"
    by (simp add: world_inv_self)
  from rom_vm.run_by_bound_inv [OF this assms(2), where fuel = fuel and tape = tape and ND = ND and U = U]
    assms(3) show ?thesis
    by (auto simp: world_inv_step split: option.split sum.split prod.split)
qed

theorem run_by_timestamp_bound_terminates_witness:
  "case run_by_timestamp_bound 96 small_machine small_tape 100 small_world of
      None \<Rightarrow> False
    | Some (Inl e) \<Rightarrow> True
    | Some (Inr (finished, w')) \<Rightarrow> machine_inv w' \<and> keeps_rom_and_log small_cfg small_world w'"
  by (rule run_by_timestamp_bound_terminates) (use power_on_inv(1,2) [OF small_power_on] in simp_all)

end
