(* ===== verification/RvSpec.thy ===== *)
theory RvSpec
  imports Encoding Mersenne31
begin

text \<open>
  The reference semantics of the supported instruction set, as the unprivileged ISA manual
  gives it: registers, a program counter and a byte-addressed little-endian memory. The modular
  may-be-operations are arithmetic modulo the Mersenne prime. An access outside memory, to a
  misaligned address or a store to the ROM, and a jump to a misaligned target, have no
  successor. \<open>VmRefine\<close> proves that the machine implements it.
\<close>

record rv_state =
  rv_regs :: "reg \<Rightarrow> u32"
  rv_pc :: u32
  rv_mem :: "u32 \<Rightarrow> u8"

text \<open>The memory map: bytes below \<open>rom_end\<close> are read-only, bytes below \<open>mem_end\<close> exist.\<close>

record rv_bus =
  rom_end :: nat
  mem_end :: nat

definition reg_write :: "reg \<Rightarrow> u32 \<Rightarrow> rv_state \<Rightarrow> rv_state" where
  "reg_write d v s = (if d = 0 then s else s \<lparr> rv_regs := (rv_regs s)(d := v) \<rparr>)"

definition advance :: "rv_state \<Rightarrow> rv_state" where
  "advance s = s \<lparr> rv_pc := rv_pc s + 4 \<rparr>"

text \<open>A jump that stores the return address.\<close>

definition jump_and_link :: "reg \<Rightarrow> u32 \<Rightarrow> rv_state \<Rightarrow> rv_state option" where
  "jump_and_link d target s =
     (if unat target mod 4 = 0 then Some ((reg_write d (rv_pc s + 4) s) \<lparr> rv_pc := target \<rparr>) else None)"

section \<open>Arithmetic\<close>

fun rv_imm :: "imm_op \<Rightarrow> u32 \<Rightarrow> u32 \<Rightarrow> u32" where
  "rv_imm ADDI a b = a + b"
| "rv_imm SLTI a b = of_bool (sint a < sint b)"
| "rv_imm SLTIU a b = of_bool (unat a < unat b)"
| "rv_imm XORI a b = a XOR b"
| "rv_imm ORI a b = a OR b"
| "rv_imm ANDI a b = a AND b"

fun rv_shift :: "shift_op \<Rightarrow> u32 \<Rightarrow> nat \<Rightarrow> u32" where
  "rv_shift SLLI a n = word_of_nat (unat a * 2 ^ n)"
| "rv_shift SRLI a n = word_of_nat (unat a div 2 ^ n)"
| "rv_shift SRAI a n = word_of_int (sint a div 2 ^ n)"

text \<open>The signed multiplications and divisions are not among the instructions of the machine.\<close>

fun rv_reg :: "reg_op \<Rightarrow> u32 \<Rightarrow> u32 \<Rightarrow> u32 option" where
  "rv_reg R_ADD a b = Some (a + b)"
| "rv_reg R_SUB a b = Some (a - b)"
| "rv_reg R_SLL a b = Some (rv_shift SLLI a (unat b mod 32))"
| "rv_reg R_SLT a b = Some (of_bool (sint a < sint b))"
| "rv_reg R_SLTU a b = Some (of_bool (unat a < unat b))"
| "rv_reg R_XOR a b = Some (a XOR b)"
| "rv_reg R_SRL a b = Some (rv_shift SRLI a (unat b mod 32))"
| "rv_reg R_SRA a b = Some (rv_shift SRAI a (unat b mod 32))"
| "rv_reg R_OR a b = Some (a OR b)"
| "rv_reg R_AND a b = Some (a AND b)"
| "rv_reg R_MUL a b = Some (word_of_nat (unat a * unat b))"
| "rv_reg R_MULHU a b = Some (word_of_nat (unat a * unat b div 2 ^ 32))"
| "rv_reg R_DIVU a b = Some (if unat b = 0 then word_of_nat (2 ^ 32 - 1) else word_of_nat (unat a div unat b))"
| "rv_reg R_REMU a b = Some (if unat b = 0 then a else word_of_nat (unat a mod unat b))"
| "rv_reg _ a b = None"

fun rv_mop :: "mop_op \<Rightarrow> u32 \<Rightarrow> u32 \<Rightarrow> u32" where
  "rv_mop MOP_ADD a b = word_of_nat ((unat a + unat b) mod P)"
| "rv_mop MOP_SUB a b = word_of_int ((int (unat a) - int (unat b)) mod int P)"
| "rv_mop MOP_MUL a b = word_of_nat (unat a * unat b mod P)"

fun rv_branch :: "branch_cond \<Rightarrow> u32 \<Rightarrow> u32 \<Rightarrow> bool" where
  "rv_branch BEQ a b \<longleftrightarrow> a = b"
| "rv_branch BNE a b \<longleftrightarrow> a \<noteq> b"
| "rv_branch BLT a b \<longleftrightarrow> sint a < sint b"
| "rv_branch BGE a b \<longleftrightarrow> sint b \<le> sint a"
| "rv_branch BLTU a b \<longleftrightarrow> unat a < unat b"
| "rv_branch BGEU a b \<longleftrightarrow> unat b \<le> unat a"

section \<open>Memory\<close>

fun rv_width :: "load_op \<Rightarrow> nat" where
  "rv_width LB = 1" | "rv_width LBU = 1" | "rv_width LH = 2" | "rv_width LHU = 2" | "rv_width LW = 4"

fun rv_store_width :: "store_op \<Rightarrow> nat" where
  "rv_store_width SB = 1" | "rv_store_width SH = 2" | "rv_store_width SW = 4"

text \<open>The little-endian value of \<open>n\<close> bytes at an address, and storing one.\<close>

fun bytes_value :: "(u32 \<Rightarrow> u8) \<Rightarrow> u32 \<Rightarrow> nat \<Rightarrow> nat" where
  "bytes_value m a 0 = 0"
| "bytes_value m a (Suc n) = unat (m a) + 256 * bytes_value m (a + 1) n"

fun store_bytes :: "(u32 \<Rightarrow> u8) \<Rightarrow> u32 \<Rightarrow> nat \<Rightarrow> u32 \<Rightarrow> (u32 \<Rightarrow> u8)" where
  "store_bytes m a 0 v = m"
| "store_bytes m a (Suc n) v = store_bytes (m(a := ucast v)) (a + 1) n (drop_bit 8 v)"

fun rv_extend :: "load_op \<Rightarrow> nat \<Rightarrow> u32" where
  "rv_extend LB v = scast (word_of_nat v :: u8)"
| "rv_extend LH v = scast (word_of_nat v :: u16)"
| "rv_extend _ v = word_of_nat v"

definition accessible :: "nat \<Rightarrow> nat \<Rightarrow> u32 \<Rightarrow> nat \<Rightarrow> bool" where
  "accessible low high a n \<longleftrightarrow> unat a mod n = 0 \<and> low \<le> unat a \<and> unat a + n \<le> high"

section \<open>Instructions\<close>

text \<open>Whether the machine has the instruction (the calls out of the machine are not here).\<close>

fun rv_base :: "decoding_options \<Rightarrow> rv_instr \<Rightarrow> bool" where
  "rv_base opt (LOAD op d s i) = load_supported opt op"
| "rv_base opt (STORE op s t i) = store_supported opt op"
| "rv_base opt (OP_REG op d s t) \<longleftrightarrow> reg_supported opt op \<and> op \<notin> {R_MULH, R_MULHSU, R_DIV, R_REM}"
| "rv_base opt (MOP_RR op d s t) = SUPPORT_MOP opt"
| "rv_base opt (CSRRW_ND d s) = False"
| "rv_base opt CSRRW_BIGINT = False"
| "rv_base opt CSRRW_MARKER = False"
| "rv_base opt _ = True"

fun rv_exec :: "rv_bus \<Rightarrow> rv_instr \<Rightarrow> rv_state \<Rightarrow> rv_state option" where
  "rv_exec B (LUI d j) s = Some (advance (reg_write d (push_bit 12 (ucast j)) s))"
| "rv_exec B (AUIPC d j) s = Some (advance (reg_write d (rv_pc s + push_bit 12 (ucast j)) s))"
| "rv_exec B (JAL d j) s = jump_and_link d (rv_pc s + 2 * scast j) s"
| "rv_exec B (JALR d r i) s = jump_and_link d ((rv_regs s r + scast i) AND NOT 1) s"
| "rv_exec B (BRANCH bc r t i) s =
     (if rv_branch bc (rv_regs s r) (rv_regs s t) then
        (let target = rv_pc s + 2 * scast i in
         if unat target mod 4 = 0 then Some (s \<lparr> rv_pc := target \<rparr>) else None)
      else Some (advance s))"
| "rv_exec B (LOAD op d r i) s =
     (let a = rv_regs s r + scast i; n = rv_width op in
      if accessible 0 (mem_end B) a n
      then Some (advance (reg_write d (rv_extend op (bytes_value (rv_mem s) a n)) s)) else None)"
| "rv_exec B (STORE op r t i) s =
     (let a = rv_regs s r + scast i; n = rv_store_width op in
      if accessible (rom_end B) (mem_end B) a n
      then Some (advance (s \<lparr> rv_mem := store_bytes (rv_mem s) a n (rv_regs s t) \<rparr>)) else None)"
| "rv_exec B (OP_IMM op d r i) s = Some (advance (reg_write d (rv_imm op (rv_regs s r) (scast i)) s))"
| "rv_exec B (SHIFT_IMM op d r sh) s = Some (advance (reg_write d (rv_shift op (rv_regs s r) (unat sh)) s))"
| "rv_exec B (OP_REG op d r t) s =
     (case rv_reg op (rv_regs s r) (rv_regs s t) of
        Some v \<Rightarrow> Some (advance (reg_write d v s)) | None \<Rightarrow> None)"
| "rv_exec B (MOP_RR op d r t) s =
     Some (advance (reg_write d (rv_mop op (rv_regs s r) (rv_regs s t)) s))"
| "rv_exec B _ s = None"

text \<open>
  A program runs until its program counter stops moving (the convention for having finished)
  or for a number of cycles.
\<close>

definition rv_fetch :: "rv_instr list \<Rightarrow> rv_state \<Rightarrow> rv_instr option" where
  "rv_fetch p s = (let i = unat (rv_pc s) div 4 in if i < length p then Some (p ! i) else None)"

fun rv_run :: "rv_bus \<Rightarrow> rv_instr list \<Rightarrow> nat \<Rightarrow> rv_state \<Rightarrow> (bool \<times> rv_state) option" where
  "rv_run B p 0 s = Some (False, s)"
| "rv_run B p (Suc n) s =
     (case rv_fetch p s of
        None \<Rightarrow> None
      | Some a \<Rightarrow>
          (case rv_exec B a s of
             None \<Rightarrow> None
           | Some s' \<Rightarrow> if rv_pc s' = rv_pc s then Some (True, s') else rv_run B p n s'))"

end
