(* ===== verification/VmRefine.thy ===== *)
theory VmRefine
  imports VmProps RvSpec
begin

text \<open>
  The machine implements the reference semantics of \<open>RvSpec\<close>: each handler, at a state that
  satisfies the invariant, returns, and with the effect the ISA asks for; or the ISA gives no
  successor and the machine stops with a fault. The first half evaluates the accesses to
  registers within a cycle, the second the parts of words in memory.
\<close>

section \<open>Registers at a stage of the cycle\<close>

text \<open>
  Before an access with offset \<open>off\<close>: no register was accessed at or after it, and the values
  are those of \<open>V\<close>.
\<close>

definition staged :: "u64 \<Rightarrow> (nat \<Rightarrow> u32) \<Rightarrow> u32 \<Rightarrow> 'c state \<Rightarrow> bool" where
  "staged off V p s \<longleftrightarrow>
     aligned4 (timestamp s) \<and> pc s = p \<and>
     (\<forall>i < 32. reg_timestamp (registers s i) < (timestamp s OR off) \<and> reg_value (registers s i) = V i)"

text \<open>What a handler leaves: the values, the program counter, and the clock as it was.\<close>

definition leaves :: "u64 \<Rightarrow> (nat \<Rightarrow> u32) \<Rightarrow> u32 \<Rightarrow> 'c state \<Rightarrow> bool" where
  "leaves t V p s \<longleftrightarrow>
     timestamp s = t \<and> pc s = p \<and> (\<forall>i < 32. reg_value (registers s i) = V i)"

lemma or_offsets:
  fixes t :: u64
  assumes "aligned4 t"
  shows "t OR 0 < t OR 1" "t OR 1 < t OR 2" "t OR 0 < t OR 2"
proof -
  have "t AND 1 = (t AND 3) AND 1" "t AND 2 = (t AND 3) AND 2" by (simp_all add: and.assoc)
  then have "t AND 1 = 0" "t AND 2 = 0" using assms by (simp_all add: aligned4_def)
  then have *: "t OR 1 = t + 1" "t OR 2 = t + 2"
    using word_plus_and_or [of t 1] word_plus_and_or [of t 2] by simp_all
  obtain k where k: "unat t = 4 * k" using assms by (auto simp: aligned4_unat dvd_def simp flip: dvd_eq_mod_eq_0)
  have "4 * k < 4 * 2 ^ 62" using unsigned_less [of t, where ?'a = nat] by (simp add: k)
  then have "unat t + 3 < 2 ^ 64" by (simp add: k)
  then show "t OR 0 < t OR 1" "t OR 1 < t OR 2" "t OR 0 < t OR 2"
    unfolding * using unat_plus_le [of t 1] unat_plus_le [of t 2] by (simp_all add: word_less_nat_alt)
qed

lemma staged_later:
  assumes "staged off V p s" and "(timestamp s OR off) \<le> (timestamp s OR off')"
  shows "staged off' V p s"
  using assms by (auto simp: staged_def intro: less_le_trans)

lemma staged_0_1: "staged 0 V p s \<Longrightarrow> staged 1 V p s"
  using or_offsets(1) [of "timestamp s"] by (auto simp: staged_def intro: less_trans)

lemma staged_1_2: "staged 1 V p s \<Longrightarrow> staged 2 V p s"
  using or_offsets(2) [of "timestamp s"] by (auto simp: staged_def intro: less_trans)

lemma staged_set:
  assumes "staged off V p s" and "(timestamp s OR off) < (timestamp s OR off')"
  shows "staged off' (V(i := v)) p (set_register i (timestamp s OR off) v s)"
  using assms by (auto simp: staged_def set_register_def)

lemma staged_leaves: "staged off V p s \<Longrightarrow> leaves (timestamp s) V p s"
  by (simp add: staged_def leaves_def)

lemma read_staged:
  assumes "staged 0 V p s" and "unat r < 32"
  obtains s' where "read_register c 0 r s = Inr (V (unat r), s')" "staged 1 V p s'" "timestamp s' = timestamp s"
proof
  let ?s' = "set_register (unat r) (timestamp s OR 0) (V (unat r)) s"
  show "read_register c 0 r s = Inr (V (unat r), ?s')"
    using assms by (simp add: read_register_def register_access_def staged_def Let_def)
  show "staged 1 V p ?s'"
    using staged_set [OF assms(1), of 1 "unat r" "V (unat r)"] or_offsets(1) assms
    by (simp add: staged_def)
qed (simp add: set_register_def)

lemma read_staged1:
  assumes "staged 1 V p s" and "unat r < 32"
  obtains s' where "read_register c 1 r s = Inr (V (unat r), s')" "staged 2 V p s'" "timestamp s' = timestamp s"
proof
  let ?s' = "set_register (unat r) (timestamp s OR 1) (V (unat r)) s"
  show "read_register c 1 r s = Inr (V (unat r), ?s')"
    using assms by (simp add: read_register_def register_access_def staged_def Let_def)
  show "staged 2 V p ?s'"
    using staged_set [OF assms(1), of 2 "unat r" "V (unat r)"] or_offsets(2) assms
    by (simp add: staged_def)
qed (simp add: set_register_def)

lemma touch_staged:
  assumes "staged 1 V p s"
  obtains s' where "touch_x0 c 1 s = Inr s'" "staged 2 V p s'" "timestamp s' = timestamp s"
proof
  let ?s' = "set_register 0 (timestamp s OR 1) (V 0) s"
  show "touch_x0 c 1 s = Inr ?s'"
    using assms by (simp add: touch_x0_def register_access_def staged_def)
  show "staged 2 V p ?s'"
    using staged_set [OF assms(1), of 2 0 "V 0"] or_offsets(2) assms by (simp add: staged_def)
qed (simp add: set_register_def)

lemma write_staged:
  assumes "staged 2 V p s" and "unat r < 32"
  obtains v' s' where "write_register c 2 r v s = Inr (v', s')"
    "leaves (timestamp s) (V(unat r := if r = 0 then 0 else v)) p s'"
proof
  let ?v = "if r = 0 then 0 else v"
  let ?s' = "set_register (unat r) (timestamp s OR 2) ?v s"
  show "write_register c 2 r v s = Inr (?v, ?s')"
    using assms by (simp add: write_register_def register_access_def staged_def Let_def)
  show "leaves (timestamp s) (V(unat r := ?v)) p ?s'"
    using assms by (auto simp: leaves_def staged_def set_register_def)
qed

lemma leaves_pc:
  "leaves t V p s \<Longrightarrow> leaves t V (p + 4) (default_increase_pc s)"
  by (simp add: leaves_def default_increase_pc_def)

lemma second_operand_staged:
  assumes "staged 1 V p s" and "unat (rs2 i) < 32"
  obtains s' where "second_operand c use_imm i s = Inr (if use_imm then imm i else V (unat (rs2 i)), s')"
    "staged 2 V p s'" "timestamp s' = timestamp s"
proof (cases use_imm)
  case True
  obtain s' where "touch_x0 c 1 s = Inr s'" "staged 2 V p s'" "timestamp s' = timestamp s"
    by (rule touch_staged [OF assms(1)])
  with True show thesis by (intro that [of s']) (simp_all add: second_operand_def)
next
  case False
  obtain s' where "read_register c 1 (rs2 i) s = Inr (V (unat (rs2 i)), s')" "staged 2 V p s'"
    "timestamp s' = timestamp s"
    by (rule read_staged1 [OF assms])
  with False show thesis by (intro that [of s']) (simp_all add: second_operand_def)
qed

section \<open>Arithmetic handlers\<close>

text \<open>The common shape: two operands, a value computed from them, the write, and the counter.\<close>

definition alu ::
  "cfg \<Rightarrow> 'c counter_ops \<Rightarrow> nat \<Rightarrow> (u32 \<Rightarrow> u32 \<Rightarrow> u32 res) \<Rightarrow> bool \<Rightarrow> instruction \<Rightarrow> 'c state \<Rightarrow> 'c state res" where
  "alu c C family f use_imm i s =
     bindR (read_register c 0 (rs1 i) s) (\<lambda>(a, s).
     bindR (second_operand c use_imm i s) (\<lambda>(b, s).
     bindR (f a b) (\<lambda>v.
     bindR (write_register c 2 (rd i) v s) (\<lambda>(_, s).
     increment_family_counter C family (default_increase_pc s)))))"

text \<open>Word operations as arithmetic.\<close>

lemma shift_left_nat: "push_bit n a = (word_of_nat (unat a * 2 ^ n) :: u32)"
  by (simp add: push_bit_eq_mult)

lemma unat_of_small: "n < 2 ^ 32 \<Longrightarrow> unat (word_of_nat n :: u32) = n"
  by (simp add: unat_of_nat)

lemma unat_less: "unat (a :: u32) < 2 ^ 32"
  using unsigned_less [of a, where ?'a = nat] by simp

lemma shift_right_nat: "drop_bit n a = (word_of_nat (unat a div 2 ^ n) :: u32)"
  unfolding word_unat_eq_iff unat_drop_bit
  by (rule unat_of_small [symmetric]) (rule le_less_trans [OF div_le_dividend unat_less])

lemma shift_right_int: "signed_drop_bit n a = (word_of_int (sint a div 2 ^ n) :: u32)"
proof -
  have "signed_drop_bit n a = word_of_int (sint (signed_drop_bit n a))" by simp
  then show ?thesis by (simp only: sint_signed_drop_bit_eq drop_bit_eq_div)
qed

lemma mulhu_nat:
  fixes a b :: u32
  shows "ucast (drop_bit 32 ((ucast a :: u64) * ucast b)) = (word_of_nat (unat a * unat b div 2 ^ 32) :: u32)"
proof -
  have "unat a * unat b < 2 ^ 32 * 2 ^ 32"
    by (rule mult_strict_mono) (use unat_less [of a] unat_less [of b] in simp_all)
  then have "unat ((ucast a :: u64) * ucast b) = unat a * unat b"
    by (simp add: unat_word_ariths unat_ucast_up mod_less)
  then have "unat (drop_bit 32 ((ucast a :: u64) * ucast b)) = unat a * unat b div 2 ^ 32"
    by (simp add: unat_drop_bit)
  then show ?thesis by (simp add: word_unat_eq_iff unat_ucast unat_of_nat)
qed

lemma all_ones: "word_of_nat (2 ^ 32 - 1) = (0xffffffff :: u32)"
  by simp

lemma div_nat:
  fixes a b :: u32
  shows "a div b = word_of_nat (unat a div unat b)" "a mod b = word_of_nat (unat a mod unat b)"
proof -
  have "unat a div unat b < 2 ^ 32" "unat a mod unat b < 2 ^ 32"
    using unat_less [of a] div_le_dividend [of "unat a" "unat b"] mod_less_eq_dividend [of "unat a" "unat b"]
    by (simp_all only: le_less_trans)
  then show "a div b = word_of_nat (unat a div unat b)" "a mod b = word_of_nat (unat a mod unat b)"
    by (simp_all only: word_unat_eq_iff unat_div unat_mod unat_of_small)
qed

context counting
begin

lemma family_leaves:
  assumes "leaves t V p s" and "f \<in> handler_families"
  obtains s' where "increment_family_counter C f s = Inr s'" "leaves t V p s'"
  using increment_family_counter_returns [OF assms(2), of s] assms(1) that
  by (auto simp: leaves_def)

lemma alu_leaves:
  assumes s: "staged 0 V p s" and r: "unat (rs1 i) < 32" "unat (rs2 i) < 32" "unat (rd i) < 32"
    and fam: "family \<in> handler_families"
    and f: "f (V (unat (rs1 i))) (if use_imm then imm i else V (unat (rs2 i))) = Inr v"
  obtains s' where "alu c C family f use_imm i s = Inr s'"
    "leaves (timestamp s) (V(unat (rd i) := if rd i = 0 then 0 else v)) (p + 4) s'"
proof -
  obtain s1 where 1: "read_register c 0 (rs1 i) s = Inr (V (unat (rs1 i)), s1)" "staged 1 V p s1"
    "timestamp s1 = timestamp s"
    by (rule read_staged [OF s r(1)])
  obtain s2 where 2: "second_operand c use_imm i s1 =
      Inr (if use_imm then imm i else V (unat (rs2 i)), s2)" "staged 2 V p s2" "timestamp s2 = timestamp s1"
    by (rule second_operand_staged [OF 1(2) r(2)])
  obtain v' s3 where 3: "write_register c 2 (rd i) v s2 = Inr (v', s3)"
    "leaves (timestamp s2) (V(unat (rd i) := if rd i = 0 then 0 else v)) p s3"
    by (rule write_staged [OF 2(2) r(3)])
  obtain s4 where 4: "increment_family_counter C family (default_increase_pc s3) = Inr s4"
    "leaves (timestamp s2) (V(unat (rd i) := if rd i = 0 then 0 else v)) (p + 4) s4"
    by (rule family_leaves [OF leaves_pc [OF 3(2)] fam])
  show thesis
    by (rule that [of s4]) (use 1 2 3 4 f in \<open>simp_all add: alu_def\<close>)
qed

lemma handlers_alu:
  "add_op c C use_imm i = alu c C ADD_SUB_LUI_AUIPC_MOP_CIRCUIT_FAMILY_IDX (\<lambda>a b. Inr (a + b)) use_imm i"
  "sub_op c C i = alu c C ADD_SUB_LUI_AUIPC_MOP_CIRCUIT_FAMILY_IDX (\<lambda>a b. Inr (a - b)) False i"
  "and_op c C use_imm i = alu c C SHIFT_BINARY_CSR_CIRCUIT_FAMILY_IDX (\<lambda>a b. Inr (a AND b)) use_imm i"
  "or_op c C use_imm i = alu c C SHIFT_BINARY_CSR_CIRCUIT_FAMILY_IDX (\<lambda>a b. Inr (a OR b)) use_imm i"
  "xor_op c C use_imm i = alu c C SHIFT_BINARY_CSR_CIRCUIT_FAMILY_IDX (\<lambda>a b. Inr (a XOR b)) use_imm i"
  "sll c C use_imm i = alu c C SHIFT_BINARY_CSR_CIRCUIT_FAMILY_IDX
     (\<lambda>a b. Inr (rv_shift SLLI a (unat b mod 32))) use_imm i"
  "srl c C use_imm i = alu c C SHIFT_BINARY_CSR_CIRCUIT_FAMILY_IDX
     (\<lambda>a b. Inr (rv_shift SRLI a (unat b mod 32))) use_imm i"
  "sra c C use_imm i = alu c C SHIFT_BINARY_CSR_CIRCUIT_FAMILY_IDX
     (\<lambda>a b. Inr (rv_shift SRAI a (unat b mod 32))) use_imm i"
  "slt c C use_imm i = alu c C JUMP_BRANCH_SLT_CIRCUIT_FAMILY_IDX
     (\<lambda>a b. Inr (of_bool (sint a < sint b))) use_imm i"
  "sltu c C use_imm i = alu c C JUMP_BRANCH_SLT_CIRCUIT_FAMILY_IDX
     (\<lambda>a b. Inr (of_bool (unat a < unat b))) use_imm i"
  "mul c C i = alu c C MUL_DIV_CIRCUIT_FAMILY_IDX (\<lambda>a b. Inr (word_of_nat (unat a * unat b))) False i"
  "mulhu c C i = alu c C MUL_DIV_CIRCUIT_FAMILY_IDX
     (\<lambda>a b. Inr (word_of_nat (unat a * unat b div 2 ^ 32))) False i"
  "divu c C i = alu c C MUL_DIV_CIRCUIT_FAMILY_IDX
     (\<lambda>a b. Inr (if unat b = 0 then word_of_nat (2 ^ 32 - 1) else word_of_nat (unat a div unat b))) False i"
  "remu c C i = alu c C MUL_DIV_CIRCUIT_FAMILY_IDX
     (\<lambda>a b. Inr (if unat b = 0 then a else word_of_nat (unat a mod unat b))) False i"
  unfolding fun_eq_iff add_op_def sub_op_def and_op_def or_op_def xor_op_def sll_def srl_def
    sra_def slt_def sltu_def mul_def mulhu_def divu_def remu_def alu_def Let_def
    shift_left_nat shift_right_nat shift_right_int mulhu_nat word_less_nat_alt rv_shift.simps
  unfolding div_nat all_ones by (simp_all add: second_operand_def of_bool_def unat_eq_zero)

lemma mops_alu:
  "mop_addmod c C i = alu c C ADD_SUB_LUI_AUIPC_MOP_CIRCUIT_FAMILY_IDX
     (\<lambda>a b. bindR (from_nonreduced_u32 c a) (\<lambda>x. bindR (from_nonreduced_u32 c b) (\<lambda>y.
       Inr (to_reduced_u32 (add_mod x y))))) False i"
  "mop_submod c C i = alu c C ADD_SUB_LUI_AUIPC_MOP_CIRCUIT_FAMILY_IDX
     (\<lambda>a b. bindR (from_nonreduced_u32 c a) (\<lambda>x. bindR (from_nonreduced_u32 c b) (\<lambda>y.
       Inr (to_reduced_u32 (sub_mod x y))))) False i"
  "mop_mulmod c C i = alu c C ADD_SUB_LUI_AUIPC_MOP_CIRCUIT_FAMILY_IDX
     (\<lambda>a b. bindR (from_nonreduced_u32 c a) (\<lambda>x. bindR (from_nonreduced_u32 c b) (\<lambda>y.
       Inr (to_reduced_u32 (mul_mod x y))))) False i"
  by (simp_all add: fun_eq_iff mop_addmod_def mop_submod_def mop_mulmod_def alu_def
      second_operand_def Let_def bindR_assoc)

end

lemma int_sub_mod:
  assumes "0 < p"
  shows "int ((a mod p + (p - b mod p)) mod p) = (int a - int b) mod int p"
proof -
  have "b mod p \<le> p" using assms by (simp add: less_imp_le)
  then have "int ((a mod p + (p - b mod p)) mod p) =
      (int a mod int p + (int p - int b mod int p)) mod int p"
    by (simp add: of_nat_mod of_nat_diff add_diff_eq)
  also have "\<dots> = (int a mod int p - int b mod int p + int p) mod int p" by (simp add: algebra_simps)
  also have "\<dots> = (int a - int b) mod int p" by (simp add: mod_simps)
  finally show ?thesis .
qed

lemma mop_values:
  "bindR (from_nonreduced_u32 c a) (\<lambda>x. bindR (from_nonreduced_u32 c b) (\<lambda>y.
     Inr (to_reduced_u32 (add_mod x y)))) = Inr (rv_mop MOP_ADD a b)" (is ?add)
  "bindR (from_nonreduced_u32 c a) (\<lambda>x. bindR (from_nonreduced_u32 c b) (\<lambda>y.
     Inr (to_reduced_u32 (sub_mod x y)))) = Inr (rv_mop MOP_SUB a b)" (is ?sub)
  "bindR (from_nonreduced_u32 c a) (\<lambda>x. bindR (from_nonreduced_u32 c b) (\<lambda>y.
     Inr (to_reduced_u32 (mul_mod x y)))) = Inr (rv_mop MOP_MUL a b)" (is ?mul)
proof -
  obtain x where x: "from_nonreduced_u32 c a = Inr x" "valid x" "unat x = unat a mod P"
    by (rule from_nonreduced_residue)
  obtain y where y: "from_nonreduced_u32 c b = Inr y" "valid y" "unat y = unat b mod P"
    by (rule from_nonreduced_residue)
  have red: "to_reduced_u32 z = word_of_nat n" if "valid z" "fv z = n" for z n
  proof -
    have "to_reduced_u32 z = word_of_nat (unat (to_reduced_u32 z))" by simp
    then show ?thesis by (simp only: to_reduced_residue [OF that(1)] that(2))
  qed
  show ?add
    using red [OF add_mod_residue(1,2) [OF x(2) y(2)]] by (simp add: x y fv_def mod_add_eq)
  show ?mul
    using red [OF mul_mod_residue [OF x(2) y(2)]] by (simp add: x y fv_def mod_mult_eq)
  have "to_reduced_u32 (sub_mod x y) = word_of_nat ((unat a mod P + (P - unat b mod P)) mod P)"
    by (rule red) (use sub_mod_residue [OF x(2) y(2)] in \<open>simp_all add: x y fv_def\<close>)
  also have "\<dots> = word_of_int (int ((unat a mod P + (P - unat b mod P)) mod P))"
    by (simp only: of_int_of_nat_eq)
  also have "int ((unat a mod P + (P - unat b mod P)) mod P) = (int (unat a) - int (unat b)) mod int P"
    by (rule int_sub_mod) simp
  finally show ?sub by (simp only: x y bindR_Inr rv_mop.simps)
qed

section \<open>Upper immediates, jumps and branches\<close>

lemma staged_pc: "staged off V p s \<Longrightarrow> staged off V q (s \<lparr> pc := q \<rparr>)"
  by (simp add: staged_def)

abbreviation put :: "(nat \<Rightarrow> u32) \<Rightarrow> u8 \<Rightarrow> u32 \<Rightarrow> nat \<Rightarrow> u32" where
  "put V r v \<equiv> V(unat r := if r = 0 then 0 else v)"

context counting
begin

text \<open>The end of a handler that has set the program counter itself.\<close>

lemma write_and_count:
  assumes "staged 2 V p s" and "unat r < 32" and "f \<in> handler_families"
  obtains s' where "bindR (write_register c 2 r v s) (\<lambda>(_, s). increment_family_counter C f s) = Inr s'"
    "leaves (timestamp s) (put V r v) p s'"
proof -
  obtain v' s1 where 1: "write_register c 2 r v s = Inr (v', s1)" "leaves (timestamp s) (put V r v) p s1"
    by (rule write_staged [OF assms(1,2)])
  obtain s2 where "increment_family_counter C f s1 = Inr s2" "leaves (timestamp s) (put V r v) p s2"
    by (rule family_leaves [OF 1(2) assms(3)])
  then show thesis by (intro that [of s2]) (simp_all add: 1)
qed

lemma write_advance_and_count:
  assumes "staged 2 V p s" and "unat r < 32" and "f \<in> handler_families"
  obtains s' where "bindR (write_register c 2 r v s)
      (\<lambda>(_, s). increment_family_counter C f (default_increase_pc s)) = Inr s'"
    "leaves (timestamp s) (put V r v) (p + 4) s'"
proof -
  obtain v' s1 where 1: "write_register c 2 r v s = Inr (v', s1)" "leaves (timestamp s) (put V r v) p s1"
    by (rule write_staged [OF assms(1,2)])
  obtain s2 where "increment_family_counter C f (default_increase_pc s1) = Inr s2"
    "leaves (timestamp s) (put V r v) (p + 4) s2"
    by (rule family_leaves [OF leaves_pc [OF 1(2)] assms(3)])
  then show thesis by (intro that [of s2]) (simp_all add: 1)
qed

lemma upper_leaves:
  assumes s: "staged 0 V p s" and i: "rs1 i = 0" "rs2 i = 0" "unat (rd i) < 32"
  shows "\<exists>s'. lui c C i s = Inr s' \<and> leaves (timestamp s) (put V (rd i) (imm i)) (p + 4) s'"
    "\<exists>s'. auipc c C i s = Inr s' \<and> leaves (timestamp s) (put V (rd i) (p + imm i)) (p + 4) s'"
proof -
  obtain s1 where 1: "touch_x0 c 1 s = Inr s1" "staged 2 V p s1" "timestamp s1 = timestamp s"
    by (rule touch_staged [OF staged_0_1 [OF s]])
  have p: "pc s1 = p" using 1(2) by (simp add: staged_def)
  note w = write_advance_and_count [OF 1(2) i(3) handler_families_mem(1)]
  show "\<exists>s'. lui c C i s = Inr s' \<and> leaves (timestamp s) (put V (rd i) (imm i)) (p + 4) s'"
    by (rule w [of c "imm i"]) (use i 1 in \<open>auto simp: lui_def Let_def\<close>)
  show "\<exists>s'. auipc c C i s = Inr s' \<and> leaves (timestamp s) (put V (rd i) (p + imm i)) (p + 4) s'"
    by (rule w [of c "p + imm i"]) (use i 1 p in \<open>auto simp: auipc_def Let_def\<close>)
qed

lemma jal_leaves:
  assumes s: "staged 0 V p s" and i: "rs1 i = 0" "rs2 i = 0" "unat (rd i) < 32"
  shows "if aligned4 (p + imm i)
    then \<exists>s'. jal c C i s = Inr s' \<and> leaves (timestamp s) (put V (rd i) (p + 4)) (p + imm i) s'
    else jal c C i s = Inl UnalignedJump"
proof -
  obtain s1 where 1: "touch_x0 c 1 s = Inr s1" "staged 2 V p s1" "timestamp s1 = timestamp s"
    by (rule touch_staged [OF staged_0_1 [OF s]])
  have p: "pc s1 = p" using 1(2) by (simp add: staged_def)
  note w = write_and_count [OF staged_pc [OF 1(2)] i(3) handler_families_mem(2)]
  show ?thesis
    by (rule w [of c "p + 4" "p + imm i"])
      (use i 1 p in \<open>auto simp: jal_def Let_def aligned4_def guardR_def\<close>)
qed

lemma jalr_leaves:
  assumes s: "staged 0 V p s" and i: "rs2 i = 0" "unat (rs1 i) < 32" "unat (rd i) < 32"
  shows "let target = (V (unat (rs1 i)) + imm i) AND NOT 1 in
    if aligned4 target
    then \<exists>s'. jalr c C i s = Inr s' \<and> leaves (timestamp s) (put V (rd i) (p + 4)) target s'
    else jalr c C i s = Inl UnalignedJump"
proof -
  let ?target = "(V (unat (rs1 i)) + imm i) AND NOT 1"
  obtain s1 where 1: "read_register c 0 (rs1 i) s = Inr (V (unat (rs1 i)), s1)" "staged 1 V p s1"
    "timestamp s1 = timestamp s"
    by (rule read_staged [OF s i(2)])
  obtain s2 where 2: "touch_x0 c 1 s1 = Inr s2" "staged 2 V p s2" "timestamp s2 = timestamp s1"
    by (rule touch_staged [OF 1(2)])
  have p: "pc s2 = p" using 2(2) by (simp add: staged_def)
  note w = write_and_count [OF staged_pc [OF 2(2)] i(3) handler_families_mem(2)]
  show ?thesis
    by (rule w [of c "p + 4" ?target])
      (use i 1 2 p in \<open>auto simp: jalr_def Let_def aligned4_def guardR_def\<close>)
qed

lemma branch_leaves:
  assumes s: "staged 0 V p s" and i: "unat (rs1 i) < 32" "unat (rs2 i) < 32"
    and "branch_condition (rd i) (V (unat (rs1 i))) (V (unat (rs2 i))) = Inr jump"
    and zero: "V 0 = 0"
  shows "if jump \<and> \<not> aligned4 (p + imm i) then branch c C i s = Inl UnalignedJump
    else \<exists>s'. branch c C i s = Inr s' \<and>
      leaves (timestamp s) V (if jump then p + imm i else p + 4) s'"
proof -
  obtain s1 where 1: "read_register c 0 (rs1 i) s = Inr (V (unat (rs1 i)), s1)" "staged 1 V p s1"
    "timestamp s1 = timestamp s"
    by (rule read_staged [OF s i(1)])
  obtain s2 where 2: "read_register c 1 (rs2 i) s1 = Inr (V (unat (rs2 i)), s2)" "staged 2 V p s2"
    "timestamp s2 = timestamp s1"
    by (rule read_staged1 [OF 1(2) i(2)])
  have p: "pc s2 = p" using 2(2) by (simp add: staged_def)
  have V: "put V 0 0 = V" using zero by (auto simp: fun_eq_iff)
  note w = write_and_count [OF staged_pc [OF 2(2)] _ handler_families_mem(2), of 0 c 0]
  show ?thesis
  proof (cases jump)
    case True
    show ?thesis
      by (rule w [of "p + imm i"])
        (use 1 2 p V assms(4) True in \<open>auto simp: branch_def Let_def aligned4_def guardR_def\<close>)
  next
    case False
    show ?thesis
      by (rule w [of "p + 4"])
        (use 1 2 p V assms(4) False in \<open>auto simp: branch_def Let_def default_increase_pc_def\<close>)
  qed
qed

end

lemma branch_condition_eq:
  "branch_condition (ucast (branch_funct3 bc)) a b = Inr (rv_branch bc a b)"
  by (cases bc) (auto simp: branch_condition_def Let_def word_less_nat_alt)

section \<open>Memory handlers\<close>

lemma aligned_word:
  fixes a :: u32
  shows "(a AND NOT 3) mod 4 = 0" "word_idx (a AND NOT 3) = word_idx a"
proof -
  have "aligned4 (a AND NOT 3)" by (simp add: aligned4_def and.assoc)
  then show "(a AND NOT 3) mod 4 = 0" by (simp add: aligned4_iff)
  have three: "(3 :: u32) = mask 2" by (simp add: mask_eq_exp_minus_1)
  have "drop_bit 2 (a AND NOT 3) = drop_bit 2 a"
    unfolding three by (rule bit_word_eqI) (auto simp: bit_simps simp del: mask_numeral dest: bit_imp_le_length)
  then have "(a AND NOT 3) div 4 = a div 4" by (simp only: drop_bit_eq_div) simp
  then show "word_idx (a AND NOT 3) = word_idx a" by (simp only: word_idx_def)
qed

context vm_parts
begin

definition fresh_mem :: "u64 \<Rightarrow> 'm \<Rightarrow> bool" where
  "fresh_mem t m \<longleftrightarrow> (\<forall>i \<in> mapped m. stamp m i < t)"

definition can_log :: "'s \<Rightarrow> bool" where
  "can_log sn \<longleftrightarrow> (\<forall>a v rt wt. \<exists>sn'. append_memory_read (vm_snap E) a v rt wt sn = Inr sn')"

lemma mem_read:
  assumes "fresh_mem t m" and "a mod 4 = 0"
  shows "if word_idx a \<in> mapped m
    then \<exists>rt m'. read_word (vm_ram E) a (t OR 1) m = Inr ((rt, content m (word_idx a)), m') \<and> content m' = content m
    else \<exists>e. read_word (vm_ram E) a (t OR 1) m = Inl e"
proof (cases "word_idx a \<in> mapped m")
  case True
  then have late: "stamp m (word_idx a) < (t OR 1) OR 1"
    using assms(1) le_word_or2 [of t 1] by (auto simp: fresh_mem_def intro: less_le_trans)
  from True show ?thesis by (auto intro: read_eq [OF assms(2) True late])
next
  case False
  then show ?thesis
    by (cases "read_word (vm_ram E) a (t OR 1) m") (auto dest!: read_returns)
qed

lemma mem_write:
  assumes "fresh_mem t m" and "a mod 4 = 0"
  shows "if word_idx a \<in> mapped m \<inter> writable m
    then \<exists>rt old m'. write_word (vm_ram E) a v (t OR 2) m = Inr ((rt, old), m') \<and>
      content m' = (content m)(word_idx a := v)
    else \<exists>e. write_word (vm_ram E) a v (t OR 2) m = Inl e"
proof (cases "word_idx a \<in> mapped m \<inter> writable m")
  case True
  then have late: "stamp m (word_idx a) < (t OR 2) OR 2"
    using assms(1) le_word_or2 [of t 2] by (auto simp: fresh_mem_def intro: less_le_trans)
  from True show ?thesis by (auto intro: write_eq [OF assms(2) True late, of v])
next
  case False
  then show ?thesis
    by (cases "write_word (vm_ram E) a v (t OR 2) m") (auto dest!: write_returns)
qed

text \<open>What a handler leaves, memory included.\<close>

definition world_leaves :: "u64 \<Rightarrow> (nat \<Rightarrow> u32) \<Rightarrow> u32 \<Rightarrow> (nat \<Rightarrow> u32) \<Rightarrow> ('c, 'm, 's, 'n) world \<Rightarrow> bool" where
  "world_leaves t V p f w \<longleftrightarrow> leaves t V p (st w) \<and> content (ram w) = f"

text \<open>
  The three loads: the check of the address, the word, the part of it, and the bookkeeping.
\<close>

definition load ::
  "nat \<Rightarrow> (u32 \<Rightarrow> bool) \<Rightarrow> (u32 \<Rightarrow> u32 \<Rightarrow> u32) \<Rightarrow> instruction \<Rightarrow> ('c, 'm, 's, 'n) world \<Rightarrow> ('c, 'm, 's, 'n) world res" where
  "load family ok_address part i w =
     bindR (read_register (vm_cfg E) 0 (rs1 i) (st w)) (\<lambda>(rs1_value, s).
     let address = rs1_value + imm i; aligned = address AND NOT 3 in
     guardR (ok_address address) UnalignedAccess
     (bindR (read_word (vm_ram E) aligned (timestamp s OR 1) (ram w)) (\<lambda>((rt, old), m).
      bindR (write_register (vm_cfg E) 2 (rd i) (part address old) s) (\<lambda>(_, s).
      bindR (append_memory_read (vm_snap E) aligned old rt (timestamp s OR 1) (snap w)) (\<lambda>sn.
      bindR (increment_family_counter (vm_counters E) family (default_increase_pc s)) (\<lambda>s.
      Inr (w \<lparr> st := s, ram := m, snap := sn \<rparr>)))))))"

lemma load_leaves:
  fixes i :: instruction
  defines "a s \<equiv> reg_value (registers s (unat (rs1 i))) + imm i"
  assumes s: "staged 0 V p (st w)" and r: "unat (rs1 i) < 32" "unat (rd i) < 32"
    and m: "fresh_mem (timestamp (st w)) (ram w)" and sn: "can_log (snap w)"
    and fam: "family \<in> handler_families"
  shows "if ok_address (V (unat (rs1 i)) + imm i) \<and> word_idx (V (unat (rs1 i)) + imm i) \<in> mapped (ram w)
    then \<exists>w'. load family ok_address part i w = Inr w' \<and>
      world_leaves (timestamp (st w))
        (put V (rd i) (part (V (unat (rs1 i)) + imm i) (content (ram w) (word_idx (V (unat (rs1 i)) + imm i)))))
        (p + 4) (content (ram w)) w'
    else \<exists>e. load family ok_address part i w = Inl e"
proof -
  let ?a = "V (unat (rs1 i)) + imm i" and ?t = "timestamp (st w)"
  obtain s1 where 1: "read_register (vm_cfg E) 0 (rs1 i) (st w) = Inr (V (unat (rs1 i)), s1)"
    "staged 1 V p s1" "timestamp s1 = ?t"
    by (rule read_staged [OF s r(1)])
  note read = mem_read [OF m aligned_word(1) [of ?a], unfolded aligned_word(2)]
  show ?thesis
  proof (cases "ok_address ?a \<and> word_idx ?a \<in> mapped (ram w)")
    case True
    with read obtain rt m' where rd: "read_word (vm_ram E) (?a AND NOT 3) (?t OR 1) (ram w) =
        Inr ((rt, content (ram w) (word_idx ?a)), m')" "content m' = content (ram w)" by auto
    let ?v = "part ?a (content (ram w) (word_idx ?a))"
    obtain v' s2 where 2: "write_register (vm_cfg E) 2 (rd i) ?v s1 = Inr (v', s2)"
      "leaves ?t (put V (rd i) ?v) p s2"
      by (rule write_staged [OF staged_1_2 [OF 1(2)] r(2)]) (simp add: 1(3))
    obtain s3 where 3: "increment_family_counter (vm_counters E) family (default_increase_pc s2) = Inr s3"
      "leaves ?t (put V (rd i) ?v) (p + 4) s3"
      by (rule family_leaves [OF leaves_pc [OF 2(2)] fam])
    have ts: "timestamp s2 = ?t" using 2(2) by (simp add: leaves_def)
    from sn obtain sn' where "append_memory_read (vm_snap E) (?a AND NOT 3)
        (content (ram w) (word_idx ?a)) rt (?t OR 1) (snap w) = Inr sn'"
      unfolding can_log_def by blast
    with True 1 rd 2 3 ts show ?thesis
      by (auto simp: load_def Let_def world_leaves_def)
  next
    case False
    with read 1 show ?thesis by (auto simp: load_def Let_def guardR_def)
  qed
qed

lemma word_address:
  assumes "(a :: u32) mod 4 = 0"
  shows "a AND NOT 3 = a"
proof -
  have "a AND 3 = 0" using assms by (simp flip: aligned4_iff add: aligned4_def)
  moreover have "a = (a AND NOT 3) OR (a AND 3)"
    by (simp flip: bit.conj_disj_distrib)
  ultimately show ?thesis by simp
qed

lemma guardR_cong: "b = b' \<Longrightarrow> (b' \<Longrightarrow> m = m') \<Longrightarrow> guardR b e m = guardR b' e m'"
  by (simp add: guardR_def)

lemma loads:
  "lh E sign i w = load LOAD_STORE_SUBWORD_ONLY_CIRCUIT_FAMILY_IDX (\<lambda>a. a mod 2 = 0) (halfword_of sign) i w"
  "lb E sign i w = load LOAD_STORE_SUBWORD_ONLY_CIRCUIT_FAMILY_IDX (\<lambda>a. True) (byte_of sign) i w"
  "lw E i w = load LOAD_STORE_WORD_ONLY_CIRCUIT_FAMILY_IDX (\<lambda>a. a mod 4 = 0) (\<lambda>_ v. v) i w"
proof -
  show "lw E i w = load LOAD_STORE_WORD_ONLY_CIRCUIT_FAMILY_IDX (\<lambda>a. a mod 4 = 0) (\<lambda>_ v. v) i w"
    unfolding lw_def load_def Let_def
    by (intro bindR_cong refl, clarify, intro guardR_cong refl) (simp only: word_address)
qed (simp_all add: lh_def lb_def load_def Let_def)

text \<open>The three stores: the address, the word to write, the write and the bookkeeping.\<close>

definition store ::
  "nat \<Rightarrow> (u32 \<Rightarrow> bool) \<Rightarrow> ('m \<Rightarrow> u32 \<Rightarrow> u32 \<Rightarrow> u32 res) \<Rightarrow> instruction \<Rightarrow>
   ('c, 'm, 's, 'n) world \<Rightarrow> ('c, 'm, 's, 'n) world res" where
  "store family ok_address new_word i w =
     bindR (read_register (vm_cfg E) 0 (rs1 i) (st w)) (\<lambda>(rs1_value, s).
     bindR (read_register (vm_cfg E) 1 (rs2 i) s) (\<lambda>(rs2_value, s).
     let address = rs1_value + imm i; aligned = address AND NOT 3 in
     guardR (ok_address address) UnalignedAccess
     (bindR (new_word (ram w) address rs2_value) (\<lambda>new_value.
      bindR (write_word (vm_ram E) aligned new_value (timestamp s OR 2) (ram w)) (\<lambda>((rt, old), m).
      bindR (append_memory_read (vm_snap E) aligned old rt (timestamp s OR 2) (snap w)) (\<lambda>sn.
      bindR (increment_family_counter (vm_counters E) family (default_increase_pc s)) (\<lambda>s.
      Inr (w \<lparr> st := s, ram := m, snap := sn \<rparr>))))))))"

lemma store_leaves:
  assumes s: "staged 0 V p (st w)" and r: "unat (rs1 i) < 32" "unat (rs2 i) < 32"
    and m: "fresh_mem (timestamp (st w)) (ram w)" and sn: "can_log (snap w)"
    and fam: "family \<in> handler_families"
    and new: "ok_address (V (unat (rs1 i)) + imm i) \<Longrightarrow> word_idx (V (unat (rs1 i)) + imm i) \<in> mapped (ram w) \<Longrightarrow>
      new_word (ram w) (V (unat (rs1 i)) + imm i) (V (unat (rs2 i))) = Inr v"
  shows "if ok_address (V (unat (rs1 i)) + imm i) \<and>
      word_idx (V (unat (rs1 i)) + imm i) \<in> mapped (ram w) \<inter> writable (ram w)
    then \<exists>w'. store family ok_address new_word i w = Inr w' \<and>
      world_leaves (timestamp (st w)) V (p + 4)
        ((content (ram w))(word_idx (V (unat (rs1 i)) + imm i) := v)) w'
    else \<exists>e. store family ok_address new_word i w = Inl e"
proof -
  let ?a = "V (unat (rs1 i)) + imm i" and ?t = "timestamp (st w)" and ?b = "V (unat (rs2 i))"
  obtain s1 where 1: "read_register (vm_cfg E) 0 (rs1 i) (st w) = Inr (V (unat (rs1 i)), s1)"
    "staged 1 V p s1" "timestamp s1 = ?t"
    by (rule read_staged [OF s r(1)])
  obtain s2 where 2: "read_register (vm_cfg E) 1 (rs2 i) s1 = Inr (?b, s2)"
    "staged 2 V p s2" "timestamp s2 = ?t"
    by (rule read_staged1 [OF 1(2) r(2)]) (simp add: 1(3))
  note wrt = mem_write [OF m aligned_word(1) [of ?a], unfolded aligned_word(2)]
  show ?thesis
  proof (cases "ok_address ?a \<and> word_idx ?a \<in> mapped (ram w) \<inter> writable (ram w)")
    case True
    with wrt [of v] obtain rt old m' where wr: "write_word (vm_ram E) (?a AND NOT 3) v (?t OR 2) (ram w) =
        Inr ((rt, old), m')" "content m' = (content (ram w))(word_idx ?a := v)" by auto
    obtain s3 where 3: "increment_family_counter (vm_counters E) family (default_increase_pc s2) = Inr s3"
      "leaves ?t V (p + 4) s3"
      using leaves_pc [OF staged_leaves [OF 2(2)]] by (rule family_leaves [OF _ fam]) (simp add: 2(3))
    from sn obtain sn' where "append_memory_read (vm_snap E) (?a AND NOT 3) old rt (?t OR 2) (snap w) = Inr sn'"
      unfolding can_log_def by blast
    with True 1 wr 2 3 new show ?thesis by (auto simp: store_def Let_def world_leaves_def)
  next
    case False
    show ?thesis
    proof (cases "ok_address ?a")
      case True
      show ?thesis
      proof (cases "new_word (ram w) ?a ?b")
        case (Inl e)
        with False 1 2 True show ?thesis by (auto simp: store_def Let_def)
      next
        case (Inr v')
        with False wrt [of v'] 1 2 True show ?thesis by (auto simp: store_def Let_def)
      qed
    next
      case nok: False
      with False 1 2 show ?thesis by (auto simp: store_def Let_def)
    qed
  qed
qed

definition merged :: "(u32 \<Rightarrow> u32 res) \<Rightarrow> u32 \<Rightarrow> 'm \<Rightarrow> u32 \<Rightarrow> u32 \<Rightarrow> u32 res" where
  "merged mask_of low m a v =
     bindR (peek_word (vm_ram E) (a AND NOT 3) m) (\<lambda>existing.
     bindR (mask_of a) (\<lambda>mask'. Inr (merge_subword a (v AND low) existing mask')))"

lemma stores:
  "sw E i w = store LOAD_STORE_WORD_ONLY_CIRCUIT_FAMILY_IDX (\<lambda>a. a mod 4 = 0) (\<lambda>_ a v. Inr v) i w"
  "sh E i w = store LOAD_STORE_SUBWORD_ONLY_CIRCUIT_FAMILY_IDX (\<lambda>a. a mod 2 = 0) (merged sh_mask 0xffff) i w"
  "sb E i w = store LOAD_STORE_SUBWORD_ONLY_CIRCUIT_FAMILY_IDX (\<lambda>a. True) (merged sb_mask 0xff) i w"
proof -
  show "sw E i w = store LOAD_STORE_WORD_ONLY_CIRCUIT_FAMILY_IDX (\<lambda>a. a mod 4 = 0) (\<lambda>_ a v. Inr v) i w"
    unfolding sw_def store_def Let_def bindR_Inr
    by (intro bindR_cong refl, clarify, intro bindR_cong refl, clarify, intro guardR_cong refl)
      (simp only: word_address)
qed (simp_all add: sh_def sb_def store_def merged_def Let_def bindR_assoc)

end

end
