(* ===== verification/RvBytes.thy ===== *)
theory RvBytes
  imports VmRefine
begin

text \<open>
  The words of the machine's memory as little-endian bytes: the sub-word loads and stores,
  with their shifts and masks, read and write the bytes of \<open>RvSpec\<close>.
\<close>

definition mem_byte :: "(nat \<Rightarrow> u32) \<Rightarrow> u32 \<Rightarrow> u8" where
  "mem_byte f a = ucast (drop_bit (8 * unat (a mod 4)) (f (word_idx a)))"

lemma u8_eqI:
  fixes a b :: u8
  assumes
    "bit a 0 = bit b 0" "bit a 1 = bit b 1" "bit a 2 = bit b 2" "bit a 3 = bit b 3"
    "bit a 4 = bit b 4" "bit a 5 = bit b 5" "bit a 6 = bit b 6" "bit a 7 = bit b 7"
  shows "a = b"
proof (rule bit_word_eqI)
  fix n assume "n < LENGTH(8)"
  then have "n \<in> set [0, 1, 2, 3, 4, 5, 6, 7]" by auto
  then show "bit a n = bit b n" using assms by auto
qed

section \<open>Addresses\<close>

lemma word_idx_unat: "word_idx a = unat a div 4" "unat (a mod 4) = unat a mod 4"
  by (simp_all add: word_idx_def unat_div unat_mod)

lemma mem_byte_unat: "mem_byte f a = ucast (drop_bit (8 * (unat a mod 4)) (f (unat a div 4)))"
  by (simp add: mem_byte_def word_idx_unat)

lemma mod4_unat: "(a :: u32) mod 4 = 0 \<longleftrightarrow> unat a mod 4 = 0" "(a :: u32) mod 2 = 0 \<longleftrightarrow> unat a mod 2 = 0"
  using unat_mod [of a 4] unat_mod [of a 2] unat_eq_zero [of "a mod 4"] unat_eq_zero [of "a mod 2"]
  by simp_all

text \<open>The bytes that follow within the same word.\<close>

lemma next_byte:
  fixes a :: u32
  assumes "unat a mod 4 + k < 4"
  shows "unat (a + word_of_nat k) = unat a + k" "unat (a + word_of_nat k) div 4 = unat a div 4"
    "unat (a + word_of_nat k) mod 4 = unat a mod 4 + k"
proof -
  define q r where "q = unat a div 4" and "r = unat a mod 4"
  have a: "unat a = 4 * q + r" and r: "r + k < 4" by (simp_all add: q_def r_def assms)
  have "4 * q < 4 * 2 ^ 30" using unat_less [of a] by (simp add: a)
  then have "unat a + k < 2 ^ 32" using r by (simp add: a)
  then show u: "unat (a + word_of_nat k) = unat a + k" using unat_plus_le [of a k] by simp
  have "(4 * q + (r + k)) div 4 = q" "(4 * q + (r + k)) mod 4 = r + k" using r by simp_all
  then show "unat (a + word_of_nat k) div 4 = unat a div 4" "unat (a + word_of_nat k) mod 4 = unat a mod 4 + k"
    unfolding u by (simp_all add: a r_def [symmetric] q_def [symmetric] add.assoc)
qed

lemma same_byte:
  fixes a b :: u32
  assumes "unat a mod 4 + k < 4"
  shows "b = a + word_of_nat k \<longleftrightarrow> unat b div 4 = unat a div 4 \<and> unat b mod 4 = unat a mod 4 + k"
proof -
  have "m = n \<longleftrightarrow> m div 4 = n div 4 \<and> m mod 4 = n mod 4" for m n :: nat
    by (metis div_mult_mod_eq)
  from this [of "unat b" "unat (a + word_of_nat k)"] show ?thesis
    unfolding word_unat_eq_iff [of b] by (simp only: next_byte(2,3) [OF assms])
qed

section \<open>Loads\<close>

lemma byte_nat:
  fixes x :: u32
  shows "unat (ucast (drop_bit k x) :: u8) = unat x div 2 ^ k mod 256"
  by (simp add: unat_ucast unat_drop_bit)

lemma two_bytes: "(n :: nat) mod 256 + 256 * (n div 256 mod 256) = n mod 65536"
  using mod_mult2_eq [of n 256 256] by simp

lemma four_bytes:
  "(n :: nat) mod 256 + 256 * (n div 256 mod 256 + 256 * (n div 65536 mod 256 + 256 * (n div 16777216 mod 256)))
     = n mod 4294967296"
proof -
  have step: "n mod 256 + 256 * (n div 256 mod m) = n mod (256 * m)" for n m :: nat
    using mod_mult2_eq [of n 256 m] by simp
  have d: "n div 65536 = n div 256 div 256" "n div 16777216 = n div 256 div 256 div 256"
    by (simp_all add: div_mult2_eq [symmetric])
  show ?thesis unfolding d step by simp
qed

lemma shift_amount: "unat ((a :: u32) mod 4 * 8) = 8 * (unat a mod 4)"
proof -
  have "unat a mod 4 * 8 < 2 ^ 32" using mod_less_divisor [of 4 "unat a"] by (simp del: mod_less_divisor)
  then show ?thesis by (simp add: unat_word_ariths word_idx_unat mod_less)
qed

text \<open>The byte \<open>k\<close> places above \<open>a\<close>, in terms of the word shifted down to \<open>a\<close>.\<close>

lemma bytes_of_word:
  assumes "unat a mod 4 + k < 4"
  shows "mem_byte f (a + word_of_nat k) = ucast (drop_bit (8 * k) (drop_bit (8 * (unat a mod 4)) (f (word_idx a))))"
  unfolding mem_byte_unat next_byte(2,3) [OF assms] word_idx_unat
  by (simp add: drop_bit_drop_bit algebra_simps)

lemmas bytes_of_word' = bytes_of_word [of _ 0] bytes_of_word [of _ 1] bytes_of_word [of _ 2] bytes_of_word [of _ 3]

lemma load_byte:
  "byte_of False a (f (word_idx a)) = word_of_nat (bytes_value (mem_byte f) a 1)"
  "byte_of True a (f (word_idx a)) = scast (word_of_nat (bytes_value (mem_byte f) a 1) :: u8)"
  by (simp_all only: byte_of_def Let_def shift_amount mem_byte_unat word_idx_unat One_nat_def bytes_value.simps) simp_all

lemma half_value:
  assumes "unat a mod 2 = 0"
  shows "bytes_value (mem_byte f) a 2 = unat (ucast (drop_bit (8 * (unat a mod 4)) (f (word_idx a))) :: u16)"
proof -
  have r: "unat a mod 4 + 1 < 4" using assms mod_less_divisor [of 4 "unat a"] by presburger
  let ?x = "drop_bit (8 * (unat a mod 4)) (f (word_idx a))"
  have "bytes_value (mem_byte f) a 2 = unat (mem_byte f (a + word_of_nat 0)) + 256 * unat (mem_byte f (a + word_of_nat 1))"
    by (simp add: numeral_eq_Suc)
  also have "\<dots> = unat ?x mod 256 + 256 * (unat ?x div 256 mod 256)"
    using r by (simp only: bytes_of_word byte_nat) simp
  finally show ?thesis by (simp add: two_bytes unat_ucast)
qed

lemma load_half:
  assumes "unat a mod 2 = 0"
  shows "halfword_of False a (f (word_idx a)) = word_of_nat (bytes_value (mem_byte f) a 2)"
    "halfword_of True a (f (word_idx a)) = scast (word_of_nat (bytes_value (mem_byte f) a 2) :: u16)"
  unfolding half_value [OF assms] by (simp_all add: halfword_of_def Let_def shift_amount)

lemma load_word:
  assumes "unat a mod 4 = 0"
  shows "f (word_idx a) = word_of_nat (bytes_value (mem_byte f) a 4)"
proof -
  let ?x = "f (word_idx a)"
  have four: "bytes_value m b 4 = bytes_value m b (Suc (Suc (Suc (Suc 0))))" for m b
    by (rule arg_cong [of _ _ "bytes_value m b"]) simp
  have "bytes_value (mem_byte f) a 4 = unat (mem_byte f (a + word_of_nat 0)) + 256 * (unat (mem_byte f (a + word_of_nat 1))
      + 256 * (unat (mem_byte f (a + word_of_nat 2)) + 256 * unat (mem_byte f (a + word_of_nat 3))))"
    unfolding four bytes_value.simps by (simp add: add.assoc)
  also have "\<dots> = unat ?x mod 256 + 256 * (unat ?x div 256 mod 256 +
      256 * (unat ?x div 65536 mod 256 + 256 * (unat ?x div 16777216 mod 256)))"
    using assms by (simp only: bytes_of_word byte_nat) simp
  also have "\<dots> = unat ?x mod 4294967296"
    by (rule four_bytes)
  also have "\<dots> = unat ?x" using unat_less [of ?x] by simp
  finally show ?thesis by simp
qed

section \<open>Stores\<close>

text \<open>Memory with one word replaced differs from the old one in the bytes of that word only.\<close>

lemma mem_byte_update:
  "mem_byte (f(word_idx a := v)) b =
     (if unat b div 4 = unat a div 4 then ucast (drop_bit (8 * (unat b mod 4)) v) else mem_byte f b)"
  by (simp add: mem_byte_unat word_idx_unat)

lemma mod4_cases:
  "unat (b :: u32) mod 4 = 0 \<or> unat b mod 4 = 1 \<or> unat b mod 4 = 2 \<or> unat b mod 4 = 3"
  by linarith

lemma store_word:
  assumes "unat a mod 4 = 0"
  shows "mem_byte (f(word_idx a := v)) = store_bytes (mem_byte f) a 4 v"
proof
  fix b :: u32
  have four: "store_bytes m a 4 v = store_bytes m a (Suc (Suc (Suc (Suc 0)))) v" for m
    by (rule arg_cong [of _ _ "\<lambda>n. store_bytes m a n v"]) simp
  have "b = a \<longleftrightarrow> unat b div 4 = unat a div 4 \<and> unat b mod 4 = 0"
    "b = a + 1 \<longleftrightarrow> unat b div 4 = unat a div 4 \<and> unat b mod 4 = 1"
    "b = a + 2 \<longleftrightarrow> unat b div 4 = unat a div 4 \<and> unat b mod 4 = 2"
    "b = a + 3 \<longleftrightarrow> unat b div 4 = unat a div 4 \<and> unat b mod 4 = 3"
    using same_byte [of a 0 b] same_byte [of a 1 b] same_byte [of a 2 b] same_byte [of a 3 b] assms
    by (simp_all add: numeral_2_eq_2)
  then show "mem_byte (f(word_idx a := v)) b = store_bytes (mem_byte f) a 4 v b"
    unfolding mem_byte_update four store_bytes.simps add.assoc
    using mod4_cases [of b] by (auto simp: drop_bit_drop_bit)
qed

lemma mod4_eq: "(a :: u32) mod 4 = 0 \<longleftrightarrow> unat a mod 4 = 0" "a mod 4 = 1 \<longleftrightarrow> unat a mod 4 = 1"
  "a mod 4 = 2 \<longleftrightarrow> unat a mod 4 = 2" "a mod 4 = 3 \<longleftrightarrow> unat a mod 4 = 3"
  by (simp_all add: word_unat_eq_iff unat_mod)

lemma sb_mask_eq:
  "sb_mask a = Inr ([0xffffff00, 0xffff00ff, 0xff00ffff, 0x00ffffff] ! (unat a mod 4))"
  using mod4_cases [of a] by (auto simp: sb_mask_def mod4_eq numeral_2_eq_2 numeral_3_eq_3)

lemma sh_mask_eq:
  "unat a mod 2 = 0 \<Longrightarrow> sh_mask a = Inr (if unat a mod 4 = 0 then 0xffff0000 else 0x0000ffff)"
  using mod4_cases [of a] by (auto simp: sh_mask_def mod4_eq) presburger+

lemma merged_byte:
  fixes v e :: u32
  assumes "r < 4" and "j < 4"
  shows "ucast (drop_bit (8 * j) (push_bit (8 * r) (v AND 0xff) OR
      (e AND [0xffffff00, 0xffff00ff, 0xff00ffff, 0x00ffffff] ! r))) =
    (if j = r then ucast v else (ucast (drop_bit (8 * j) e) :: u8))"
proof -
  have "r \<in> {0, 1, 2, 3}" "j \<in> {0, 1, 2, 3}" using assms by auto
  then show ?thesis
    by (elim insertE emptyE; simp only: mult_0_right nth_Cons_0 One_nat_def;
        intro u8_eqI; simp add: bit_simps numeral_2_eq_2 numeral_3_eq_3)
qed

lemma merged_half:
  fixes v e :: u32
  assumes "r \<in> {0, 2}" and "j < 4"
  shows "ucast (drop_bit (8 * j) (push_bit (8 * r) (v AND 0xffff) OR
      (e AND (if r = 0 then 0xffff0000 else 0x0000ffff)))) =
    (if j = r then ucast v else if j = r + 1 then ucast (drop_bit 8 v)
     else (ucast (drop_bit (8 * j) e) :: u8))"
proof -
  have "j \<in> {0, 1, 2, 3}" using assms(2) by auto
  with assms(1) show ?thesis
    by (elim insertE emptyE; simp only: mult_0_right One_nat_def;
        intro u8_eqI; simp add: bit_simps numeral_2_eq_2 numeral_3_eq_3)
qed

lemma store_byte:
  assumes "sb_mask a = Inr m"
  shows "mem_byte (f(word_idx a := merge_subword a (v AND 0xff) (f (word_idx a)) m)) = store_bytes (mem_byte f) a 1 v"
proof
  fix b :: u32
  have r: "unat a mod 4 < 4" "unat b mod 4 < 4" by simp_all
  have m: "m = [0xffffff00, 0xffff00ff, 0xff00ffff, 0x00ffffff] ! (unat a mod 4)"
    using assms by (simp add: sb_mask_eq)
  have "b = a \<longleftrightarrow> unat b div 4 = unat a div 4 \<and> unat b mod 4 = unat a mod 4"
    using same_byte [of a 0 b] r by simp
  then show "mem_byte (f(word_idx a := merge_subword a (v AND 0xff) (f (word_idx a)) m)) b = store_bytes (mem_byte f) a 1 v b"
    unfolding mem_byte_update merge_subword_def shift_amount m merged_byte [OF r]
    by (auto simp: mem_byte_unat word_idx_unat)
qed

lemma store_half:
  assumes "unat a mod 2 = 0" and "sh_mask a = Inr m"
  shows "mem_byte (f(word_idx a := merge_subword a (v AND 0xffff) (f (word_idx a)) m)) = store_bytes (mem_byte f) a 2 v"
proof
  fix b :: u32
  have r: "unat a mod 4 \<in> {0, 2}" "unat b mod 4 < 4" using assms(1) mod4_cases [of a] by auto presburger+
  have m: "m = (if unat a mod 4 = 0 then 0xffff0000 else 0x0000ffff)"
    using assms by (simp add: sh_mask_eq)
  have "b = a \<longleftrightarrow> unat b div 4 = unat a div 4 \<and> unat b mod 4 = unat a mod 4"
    "b = a + 1 \<longleftrightarrow> unat b div 4 = unat a div 4 \<and> unat b mod 4 = unat a mod 4 + 1"
    using same_byte [of a 0 b] same_byte [of a 1 b] r by auto
  then show "mem_byte (f(word_idx a := merge_subword a (v AND 0xffff) (f (word_idx a)) m)) b = store_bytes (mem_byte f) a 2 v b"
    unfolding mem_byte_update merge_subword_def shift_amount m merged_half [OF r]
    by (auto simp: mem_byte_unat word_idx_unat numeral_2_eq_2)
qed

end
