(* ===== verification/RvRefine.thy ===== *)
theory RvRefine
  imports RvBytes Decode_Props
begin

text \<open>
  The machine refines the ISA: through the view of its registers, program counter and memory
  that \<open>rv_view\<close> gives, an instruction has exactly the effect \<open>rv_exec\<close> asks for, and a run of
  an assembled program is the run of \<open>rv_run\<close>.
\<close>

section \<open>The view\<close>

definition rv_view :: "'n rom_world \<Rightarrow> rv_state" where
  "rv_view w = \<lparr> rv_regs = (\<lambda>r. reg_value (registers (st w) (unat r))), rv_pc = pc (st w),
     rv_mem = mem_byte (rom_content (ram w)) \<rparr>"

definition rv_bus_of :: "cfg \<Rightarrow> 'n rom_world \<Rightarrow> rv_bus" where
  "rv_bus_of c w = \<lparr> rom_end = rom_bytes c, mem_end = 4 * backing_len (ram w) \<rparr>"

text \<open>Room in the log for \<open>n\<close> more entries, and a current chunk that is not full.\<close>

definition log_room :: "nat \<Rightarrow> 'n rom_world \<Rightarrow> bool" where
  "log_room n w \<longleftrightarrow>
     length (vec_items (reads_buffer (snap w))) + n \<le> vec_capacity (reads_buffer (snap w)) \<and>
     length (vec_items (reads_buffer (snap w))) - reads_offset (snap w) < TRACE_CHUNK_LEN"

lemma unat_reg [simp]: "unat (ucast (r :: reg) :: u8) = unat r" "unat (r :: reg) < 32"
  using unsigned_less [of r, where ?'a = nat] by (simp_all add: unat_ucast_up)

lemma unat_reg_zero [simp]: "unat (r :: reg) = 0 \<longleftrightarrow> r = 0"
  by (rule unat_eq_zero)

text \<open>What the invariant gives an instruction to start from.\<close>

lemma start_of_cycle:
  assumes "machine_inv w" and "log_room 1 w"
  defines "V \<equiv> \<lambda>i. reg_value (registers (st w) i)"
  shows "staged 0 V (pc (st w)) (st w)" "V 0 = 0"
    "rom_vm.fresh_mem (timestamp (st w)) (ram w)"
    "vm_parts.can_log (rom_machine c ND U) (snap w)"
proof -
  show "vm_parts.can_log (rom_machine c ND U) (snap w)"
    using assms(2) unfolding rom_vm.can_log_def
    by (simp add: rom_machine_def simple_snapshotter_ops_def simple_append_memory_read_def
        vec_buffer_ops_def vec_push_def log_room_def)
qed (use assms in \<open>auto simp: machine_inv_def between_def staged_def rom_vm.fresh_mem_def rom_stamp_def\<close>)

lemma reg_write_view:
  assumes "leaves t (put (\<lambda>i. reg_value (registers (st w) i)) (ucast d) v) p (st w')"
    and "reg_value (registers (st w) 0) = 0" and "rom_content (ram w') = f"
  shows "rv_view w' = (reg_write d v (rv_view w)) \<lparr> rv_pc := p, rv_mem := mem_byte f \<rparr>"
proof -
  have "unat r = unat d \<longleftrightarrow> r = d" for r :: reg by (simp add: word_unat_eq_iff)
  then show ?thesis
    using assms(1,2) unfolding assms(3) [symmetric]
    by (auto simp: rv_view_def reg_write_def leaves_def fun_eq_iff)
qed

text \<open>The shapes of the two outcomes, for handlers of the state and of the world.\<close>

definition implements :: "rv_state option \<Rightarrow> 'n rom_world res \<Rightarrow> bool" where
  "implements spec r = (case spec of
     None \<Rightarrow> (\<exists>e. r = Inl e)
   | Some \<sigma> \<Rightarrow> (\<exists>w'. r = Inr w' \<and> rv_view w' = \<sigma>))"

lemma implements_state:
  assumes "\<exists>s'. f (st w) = Inr s' \<and> leaves t (put (\<lambda>i. reg_value (registers (st w) i)) (ucast d) v) p s'"
    and "reg_value (registers (st w) 0) = 0"
  shows "implements (Some ((reg_write d v (rv_view w)) \<lparr> rv_pc := p \<rparr>)) (on_state f w)"
proof -
  from assms(1) obtain s' where s': "f (st w) = Inr s'"
    "leaves t (put (\<lambda>i. reg_value (registers (st w) i)) (ucast d) v) p (st (w \<lparr> st := s' \<rparr>))" by auto
  have "rv_view (w \<lparr> st := s' \<rparr>) = (reg_write d v (rv_view w)) \<lparr> rv_pc := p, rv_mem := mem_byte (rom_content (ram w)) \<rparr>"
    by (rule reg_write_view [OF s'(2) assms(2)]) simp
  then show ?thesis using s'(1)
    by (auto simp: implements_def on_state_def rv_view_def reg_write_def)
qed

lemma implements_fault: "f (st w) = Inl e \<Longrightarrow> implements None (on_state f w)"
  by (simp add: implements_def on_state_def)

lemma advance_reg_write:
  "advance (reg_write d v \<sigma>) = (reg_write d v \<sigma>) \<lparr> rv_pc := rv_pc \<sigma> + 4 \<rparr>"
  by (simp add: advance_def reg_write_def)

lemma view_fields:
  "rv_pc (rv_view w) = pc (st w)" "rv_regs (rv_view w) r = reg_value (registers (st w) (unat r))"
  "rv_mem (rv_view w) = mem_byte (rom_content (ram w))"
  by (simp_all add: rv_view_def)

section \<open>Arithmetic\<close>

lemma implements_alu:
  assumes "machine_inv w" "log_room 1 w" and "family \<in> handler_families"
    and "f (rv_regs (rv_view w) r) (if use_imm then i else rv_regs (rv_view w) q) = Inr v"
  shows "implements (Some (advance (reg_write d v (rv_view w))))
    (on_state (alu c DelegationsAndFamiliesCounters_ops family f use_imm (from_imm n (ucast r) (ucast q) (ucast d) i)) w)"
proof -
  note start = start_of_cycle [OF assms(1,2)]
  obtain s' where s': "alu c DelegationsAndFamiliesCounters_ops family f use_imm (from_imm n (ucast r) (ucast q) (ucast d) i) (st w) = Inr s'"
    "leaves (timestamp (st w)) (put (\<lambda>i. reg_value (registers (st w) i)) (ucast d) v) (pc (st w) + 4) s'"
    by (rule families.alu_leaves [OF start(1), of "from_imm n (ucast r) (ucast q) (ucast d) i" family f use_imm v c])
      (use assms(3,4) in \<open>simp_all add: from_imm_def view_fields split: if_splits\<close>)
  then show ?thesis
    unfolding advance_reg_write view_fields by (intro implements_state exI conjI) (use start in simp_all)
qed

lemma dispatch_rom:
  "dispatch (rom_machine c ND U) (from_imm n a b d i) w =
     dispatch (rom_machine c ND U) \<lparr> name = n, rs1 = a, rs2 = b, rd = d, imm = i \<rparr> w"
  by (simp add: from_imm_def)

lemma rom_machine_fields [simp]:
  "vm_cfg (rom_machine c ND U) = c" "vm_counters (rom_machine c ND U) = DelegationsAndFamiliesCounters_ops"
  by (simp_all add: rom_machine_def)

lemma dispatch_names [simp]: "name (from_imm n a b d i) = n" "rs1 (from_imm n a b d i) = a"
  "rs2 (from_imm n a b d i) = b" "rd (from_imm n a b d i) = d" "imm (from_imm n a b d i) = i"
  by (simp_all add: from_imm_def)

lemmas alu_rules = families.handlers_alu families.mops_alu

text \<open>Instructions with an immediate, and the two-register ones.\<close>

lemma imm_refines:
  assumes "machine_inv w" "log_room 1 w"
  shows "implements (rv_exec B (OP_IMM op d r i) (rv_view w))
    (dispatch (rom_machine c ND U) (from_imm (imm_name op) (ucast r) 0 (ucast d) (scast i)) w)"
  using implements_alu [OF assms handler_families_mem(1), where use_imm = True and q = 0 and i = "scast i"]
    implements_alu [OF assms handler_families_mem(2), where use_imm = True and q = 0 and i = "scast i"]
    implements_alu [OF assms handler_families_mem(3), where use_imm = True and q = 0 and i = "scast i"]
  by (cases op) (simp_all add: dispatch_def Let_def alu_rules)

lemma shift_refines:
  assumes "machine_inv w" "log_room 1 w"
  shows "implements (rv_exec B (SHIFT_IMM op d r k) (rv_view w))
    (dispatch (rom_machine c ND U) (from_imm (shift_name op) (ucast r) 0 (ucast d) (ucast k)) w)"
proof -
  have "unat (ucast k :: u32) mod 32 = unat k" by (simp add: unat_ucast_up)
  then show ?thesis
    using implements_alu [OF assms handler_families_mem(3), where use_imm = True and q = 0 and i = "ucast k"]
    by (cases op) (simp_all add: dispatch_def Let_def alu_rules)
qed

lemma reg_refines:
  assumes "machine_inv w" "log_room 1 w" and "op \<notin> {R_MULH, R_MULHSU, R_DIV, R_REM}"
  shows "implements (rv_exec B (OP_REG op d r q) (rv_view w))
    (dispatch (rom_machine c ND U) (from_imm (reg_name op) (ucast r) (ucast q) (ucast d) 0) w)"
  using implements_alu [OF assms(1,2) handler_families_mem(1), where use_imm = False and q = q and i = 0]
    implements_alu [OF assms(1,2) handler_families_mem(2), where use_imm = False and q = q and i = 0]
    implements_alu [OF assms(1,2) handler_families_mem(3), where use_imm = False and q = q and i = 0]
    implements_alu [OF assms(1,2) handler_families_mem(4), where use_imm = False and q = q and i = 0]
    assms(3)
  by (cases op) (simp_all add: dispatch_def Let_def alu_rules)

lemma mop_refines:
  assumes "machine_inv w" "log_room 1 w"
  shows "implements (rv_exec B (MOP_RR op d r q) (rv_view w))
    (dispatch (rom_machine c ND U) (from_imm (mop_name op) (ucast r) (ucast q) (ucast d) 0) w)"
  using implements_alu [OF assms(1,2) handler_families_mem(1), where use_imm = False and q = q and i = 0]
  by (cases op) (simp_all add: dispatch_def Let_def alu_rules mop_values del: rv_mop.simps)

section \<open>Control flow\<close>

lemma reg_bound: "unat (ucast (r :: reg) :: u8) < 32"
  by simp

lemma upper_refines:
  assumes "machine_inv w" "log_room 1 w"
  shows "implements (rv_exec B (LUI d j) (rv_view w))
      (dispatch (rom_machine c ND U) (from_imm Lui 0 0 (ucast d) (push_bit 12 (ucast j))) w)"
    "implements (rv_exec B (AUIPC d j) (rv_view w))
      (dispatch (rom_machine c ND U) (from_imm Auipc 0 0 (ucast d) (push_bit 12 (ucast j))) w)"
proof -
  note start = start_of_cycle [OF assms]
  note up = families.upper_leaves [OF start(1), of "from_imm n 0 0 (ucast d) (push_bit 12 (ucast j))" c for n,
      unfolded dispatch_names, OF refl refl reg_bound]
  show "implements (rv_exec B (LUI d j) (rv_view w))
      (dispatch (rom_machine c ND U) (from_imm Lui 0 0 (ucast d) (push_bit 12 (ucast j))) w)"
    using implements_state [where w = w and d = d and f = "lui c DelegationsAndFamiliesCounters_ops (from_imm Lui 0 0 (ucast d) (push_bit 12 (ucast j)))", OF up(1) start(2)]
    by (simp add: dispatch_def Let_def advance_reg_write view_fields)
  show "implements (rv_exec B (AUIPC d j) (rv_view w))
      (dispatch (rom_machine c ND U) (from_imm Auipc 0 0 (ucast d) (push_bit 12 (ucast j))) w)"
    using implements_state [where w = w and d = d and f = "auipc c DelegationsAndFamiliesCounters_ops (from_imm Auipc 0 0 (ucast d) (push_bit 12 (ucast j)))", OF up(2) start(2)]
    by (simp add: dispatch_def Let_def advance_reg_write view_fields)
qed

lemma jump_refines:
  assumes "machine_inv w" "log_room 1 w"
  shows "implements (rv_exec B (JAL d j) (rv_view w))
      (dispatch (rom_machine c ND U) (from_imm Jal 0 0 (ucast d) (2 * scast j)) w)"
    "implements (rv_exec B (JALR d r i) (rv_view w))
      (dispatch (rom_machine c ND U) (from_imm Jalr (ucast r) 0 (ucast d) (scast i)) w)"
proof -
  note start = start_of_cycle [OF assms]
  note jal = families.jal_leaves [OF start(1), of "from_imm Jal 0 0 (ucast d) (2 * scast j)" c,
      unfolded dispatch_names, OF refl refl reg_bound]
  show "implements (rv_exec B (JAL d j) (rv_view w))
      (dispatch (rom_machine c ND U) (from_imm Jal 0 0 (ucast d) (2 * scast j)) w)"
  proof (cases "aligned4 (pc (st w) + 2 * scast j)")
    case True
    from implements_state [where w = w and d = d and
        f = "jal c DelegationsAndFamiliesCounters_ops (from_imm Jal 0 0 (ucast d) (2 * scast j))", OF jal [unfolded if_P [OF True]] start(2)] True show ?thesis
      by (simp add: dispatch_def Let_def jump_and_link_def view_fields aligned4_unat)
  next
    case False
    from implements_fault [where w = w and
        f = "jal c DelegationsAndFamiliesCounters_ops (from_imm Jal 0 0 (ucast d) (2 * scast j))", OF jal [unfolded if_not_P [OF False]]] False show ?thesis
      by (simp add: dispatch_def Let_def jump_and_link_def view_fields aligned4_unat)
  qed
  let ?a = "(reg_value (registers (st w) (unat (ucast r :: u8))) + scast i) AND NOT 1"
  note jalr = families.jalr_leaves [OF start(1), of "from_imm Jalr (ucast r) 0 (ucast d) (scast i)" c,
      unfolded dispatch_names Let_def, OF refl reg_bound reg_bound]
  have exec: "rv_exec B (JALR d r i) (rv_view w) = jump_and_link d ?a (rv_view w)"
    by (simp add: view_fields)
  show "implements (rv_exec B (JALR d r i) (rv_view w))
      (dispatch (rom_machine c ND U) (from_imm Jalr (ucast r) 0 (ucast d) (scast i)) w)"
  proof (cases "aligned4 ?a")
    case True
    from implements_state [where w = w and d = d and
        f = "jalr c DelegationsAndFamiliesCounters_ops (from_imm Jalr (ucast r) 0 (ucast d) (scast i))", OF jalr [unfolded if_P [OF True]] start(2)] True show ?thesis
      unfolding exec jump_and_link_def aligned4_unat by (simp add: dispatch_def Let_def view_fields)
  next
    case False
    from implements_fault [where w = w and
        f = "jalr c DelegationsAndFamiliesCounters_ops (from_imm Jalr (ucast r) 0 (ucast d) (scast i))", OF jalr [unfolded if_not_P [OF False]]] False show ?thesis
      unfolding exec jump_and_link_def aligned4_unat by (simp add: dispatch_def Let_def)
  qed
qed

lemma branch_refines:
  assumes "machine_inv w" "log_room 1 w"
  shows "implements (rv_exec B (BRANCH bc r q i) (rv_view w))
      (dispatch (rom_machine c ND U)
        (from_imm Branch (ucast r) (ucast q) (ucast (branch_funct3 bc)) (2 * scast i)) w)"
proof -
  note start = start_of_cycle [OF assms]
  let ?V = "\<lambda>i. reg_value (registers (st w) i)"
  let ?jump = "rv_branch bc (?V (unat r)) (?V (unat q))" and ?a = "pc (st w) + 2 * scast i"
  let ?ins = "from_imm Branch (ucast r) (ucast q) (ucast (branch_funct3 bc)) (2 * scast i)"
  have V: "put ?V (ucast (0 :: reg)) v = ?V" for v using start(2) by (auto simp: fun_eq_iff)
  note br = families.branch_leaves [OF start(1), of ?ins ?jump c,
      unfolded dispatch_names unat_reg, OF unat_reg(2) unat_reg(2) branch_condition_eq start(2)]
  have exec: "rv_exec B (BRANCH bc r q i) (rv_view w) =
      (if ?jump \<and> \<not> aligned4 ?a then None
       else Some ((reg_write 0 0 (rv_view w)) \<lparr> rv_pc := if ?jump then ?a else pc (st w) + 4 \<rparr>))"
    by (simp add: view_fields Let_def aligned4_unat advance_def reg_write_def)
  show ?thesis
  proof (cases "?jump \<and> \<not> aligned4 ?a")
    case True
    from implements_fault [where w = w and f = "branch c DelegationsAndFamiliesCounters_ops ?ins", OF br [unfolded if_P [OF True]]] True show ?thesis
      unfolding exec by (simp add: dispatch_def Let_def)
  next
    case False
    from br [unfolded if_not_P [OF False]]
    have "\<exists>s'. branch c DelegationsAndFamiliesCounters_ops ?ins (st w) = Inr s' \<and>
      leaves (timestamp (st w)) (put ?V (ucast (0 :: reg)) 0) (if ?jump then ?a else pc (st w) + 4) s'"
      unfolding V .
    from implements_state [where w = w and d = 0 and f = "branch c DelegationsAndFamiliesCounters_ops ?ins", OF this start(2)] False show ?thesis
      unfolding exec if_not_P [OF False] by (simp only: dispatch_def dispatch_names Let_def
          instruction_name.case rom_machine_fields)
  qed
qed

section \<open>Loads and stores\<close>

lemma accessible_word:
  assumes "n \<in> {1, 2, 4}" and "unat a mod n = 0"
  shows "unat a + n \<le> 4 * len \<longleftrightarrow> word_idx a < len"
proof -
  define q r where "q = unat a div 4" and "r = unat a mod 4"
  have a: "unat a = 4 * q + r" and r: "r < 4" by (simp_all add: q_def r_def)
  have "r mod n = 0"
    using assms mod_mod_cancel [of n 4 "unat a"] by (auto simp: r_def)
  moreover have "r \<in> {0, 1, 2, 3}" using r by auto
  ultimately have "r + n \<le> 4" using assms(1) by auto
  moreover have "0 < n" using assms(1) by auto
  ultimately have "4 * q + r + n \<le> 4 * len \<longleftrightarrow> q < len" by linarith
  moreover have "word_idx a = q" by (simp only: word_idx_unat(1) q_def)
  ultimately show ?thesis by (simp only: a)
qed

lemma accessible_load:
  "n \<in> {1, 2, 4} \<Longrightarrow> accessible 0 (4 * len) a n \<longleftrightarrow> unat a mod n = 0 \<and> word_idx a \<in> {..<len}"
  using accessible_word [of n a len] by (auto simp: accessible_def)

lemma accessible_store:
  assumes "n \<in> {1, 2, 4}"
  shows "accessible (rom_bytes c) (4 * len) a n \<longleftrightarrow>
     unat a mod n = 0 \<and> word_idx a \<in> {..<len} \<inter> {rom_bytes c div 4..}"
proof -
  have "rom_bytes c = 4 * (rom_bytes c div 4)"
    by (simp add: rom_bytes_def power_add)
  then have "rom_bytes c \<le> unat a \<longleftrightarrow> rom_bytes c div 4 \<le> word_idx a"
    unfolding word_idx_unat by linarith
  then show ?thesis using accessible_word [OF assms, of a len] by (auto simp: accessible_def)
qed

text \<open>From the outcome of a load or store to the view.\<close>

lemma implements_world:
  assumes "if ok then \<exists>w'. r = Inr w' \<and> rom_vm.world_leaves t
        (put (\<lambda>i. reg_value (registers (st w) i)) (ucast d) v) p f w' else \<exists>e. r = Inl e"
    and "reg_value (registers (st w) 0) = 0"
  shows "implements (if ok then Some ((reg_write d v (rv_view w)) \<lparr> rv_pc := p, rv_mem := mem_byte f \<rparr>) else None) r"
proof (cases ok)
  case True
  with assms(1) obtain w' where "r = Inr w'" and w': "leaves t
      (put (\<lambda>i. reg_value (registers (st w) i)) (ucast d) v) p (st w')" "rom_content (ram w') = f"
    unfolding rom_vm.world_leaves_def by auto
  with True reg_write_view [OF w'(1) assms(2) w'(2)] show ?thesis by (simp add: implements_def)
qed (use assms(1) in \<open>simp add: implements_def\<close>)

lemma load_refines:
  assumes "machine_inv w" "log_room 1 w"
  shows "implements (rv_exec (rv_bus_of c w) (LOAD op d r i) (rv_view w))
    (dispatch (rom_machine c ND U) (from_imm (load_name op) (ucast r) 0 (ucast d) (scast i)) w)"
proof -
  note start = start_of_cycle [OF assms]
  define a where "a = reg_value (registers (st w) (unat r)) + scast i"
  let ?ins = "from_imm (load_name op) (ucast r) 0 (ucast d) (scast i)" and ?f = "rom_content (ram w)"
  have n: "rv_width op \<in> {1, 2, 4}" by (cases op) simp_all
  have load: "implements (if ok a \<and> word_idx a \<in> {..<backing_len (ram w)}
      then Some ((reg_write d (part a (?f (word_idx a))) (rv_view w)) \<lparr> rv_pc := pc (st w) + 4, rv_mem := mem_byte ?f \<rparr>)
      else None) (rom_vm.load c ND U family ok part ?ins w)" if "family \<in> handler_families" for family ok part
    using rom_vm.load_leaves [OF start(1), of ?ins, unfolded dispatch_names, OF reg_bound reg_bound
        start(3,4) that, where ok_address = ok and part = part] start(2)
    by (intro implements_world [where t = "timestamp (st w)"]) (simp_all only: a_def unat_reg)
  have view: "(reg_write d v (rv_view w)) \<lparr> rv_pc := pc (st w) + 4, rv_mem := mem_byte ?f \<rparr> =
      advance (reg_write d v (rv_view w))" for v
    by (simp add: advance_def reg_write_def rv_view_def)
  have exec: "rv_exec (rv_bus_of c w) (LOAD op d r i) (rv_view w) =
      (if unat a mod rv_width op = 0 \<and> word_idx a \<in> {..<backing_len (ram w)}
       then Some (advance (reg_write d (rv_extend op (bytes_value (mem_byte ?f) a (rv_width op))) (rv_view w)))
       else None)"
    by (simp add: Let_def view_fields rv_bus_of_def accessible_load [OF n] a_def)
  show ?thesis
    unfolding exec view [symmetric]
    using load [OF handler_families_mem(5), of "\<lambda>a. a mod 4 = 0" "\<lambda>_ v. v"]
      load [OF handler_families_mem(6), of "\<lambda>a. a mod 2 = 0" "halfword_of True"]
      load [OF handler_families_mem(6), of "\<lambda>a. a mod 2 = 0" "halfword_of False"]
      load [OF handler_families_mem(6), of "\<lambda>a. True" "byte_of True"]
      load [OF handler_families_mem(6), of "\<lambda>a. True" "byte_of False"]
    by (cases op)
      (simp_all add: dispatch_def Let_def rom_vm.loads mod4_unat load_byte load_half load_word [of a ?f]
        cong: if_cong)
qed

lemma store_refines:
  assumes "machine_inv w" "log_room 1 w"
  shows "implements (rv_exec (rv_bus_of c w) (STORE op r q i) (rv_view w))
    (dispatch (rom_machine c ND U) (from_imm (store_name op) (ucast r) (ucast q) 0 (scast i)) w)"
proof -
  note start = start_of_cycle [OF assms]
  define a b where "a = reg_value (registers (st w) (unat r)) + scast i"
    and "b = reg_value (registers (st w) (unat q))"
  let ?ins = "from_imm (store_name op) (ucast r) (ucast q) 0 (scast i)" and ?f = "rom_content (ram w)"
  let ?ok = "\<lambda>ok. ok a \<and> word_idx a \<in> {..<backing_len (ram w)} \<inter> {rom_bytes c div 4..}"
  have n: "rv_store_width op \<in> {1, 2, 4}" by (cases op) simp_all
  have V: "put (\<lambda>i. reg_value (registers (st w) i)) (ucast (0 :: reg)) 0 = (\<lambda>i. reg_value (registers (st w) i))"
    using start(2) by (auto simp: fun_eq_iff)
  have store: "implements (if ?ok ok
      then Some ((reg_write 0 0 (rv_view w)) \<lparr> rv_pc := pc (st w) + 4, rv_mem := mem_byte (?f(word_idx a := v)) \<rparr>)
      else None) (rom_vm.store c ND U family ok new_word ?ins w)"
    if "family \<in> handler_families"
      and "ok a \<Longrightarrow> word_idx a \<in> {..<backing_len (ram w)} \<Longrightarrow> new_word (ram w) a b = Inr v" for family ok new_word v
  proof -
    have "if ?ok ok then \<exists>w'. rom_vm.store c ND U family ok new_word ?ins w = Inr w' \<and>
        rom_vm.world_leaves (timestamp (st w)) (\<lambda>i. reg_value (registers (st w) i)) (pc (st w) + 4)
          (?f(word_idx a := v)) w'
      else \<exists>e. rom_vm.store c ND U family ok new_word ?ins w = Inl e"
      unfolding a_def
      by (rule rom_vm.store_leaves [OF start(1), of ?ins, unfolded dispatch_names unat_reg,
            OF unat_reg(2) unat_reg(2) start(3,4) that(1)])
        (use that(2) in \<open>simp only: a_def b_def\<close>)
    then show ?thesis
      by (rule implements_world [where w = w and d = 0 and v = 0, unfolded V, OF _ start(2)])
  qed
  have peek: "peek_word (vm_ram (rom_machine c ND U)) (a AND NOT 3) (ram w) = Inr (?f (word_idx a))"
    if "word_idx a \<in> {..<backing_len (ram w)}"
    using rom_vm.peek_eq [OF aligned_word(1) [of a]] that unfolding aligned_word(2) by simp
  have view: "(reg_write 0 0 (rv_view w)) \<lparr> rv_pc := pc (st w) + 4, rv_mem := m \<rparr> =
      advance ((rv_view w) \<lparr> rv_mem := m \<rparr>)" for m
    by (simp add: advance_def reg_write_def view_fields)
  have exec: "rv_exec (rv_bus_of c w) (STORE op r q i) (rv_view w) =
      (if unat a mod rv_store_width op = 0 \<and> word_idx a \<in> {..<backing_len (ram w)} \<inter> {rom_bytes c div 4..}
       then Some (advance ((rv_view w) \<lparr> rv_mem := store_bytes (mem_byte ?f) a (rv_store_width op) b \<rparr>))
       else None)"
    by (simp add: Let_def view_fields rv_bus_of_def accessible_store [OF n] a_def b_def)
  show ?thesis
  proof (cases op)
    case SW
    show ?thesis
      using store [OF handler_families_mem(5), of "\<lambda>a. a mod 4 = 0" "\<lambda>_ a v. Inr v" b]
      unfolding exec view [symmetric]
      by (simp add: SW dispatch_def Let_def rom_vm.stores mod4_unat store_word cong: if_cong)
  next
    case SH
    have new: "rom_vm.merged TYPE('a) c ND U sh_mask 0xffff (ram w) a b =
        Inr (merge_subword a (b AND 0xffff) (?f (word_idx a)) (if unat a mod 4 = 0 then 0xffff0000 else 0x0000ffff))"
      if "a mod 2 = 0" "word_idx a \<in> {..<backing_len (ram w)}"
      unfolding rom_vm.merged_def peek [OF that(2)] sh_mask_eq [OF that(1) [unfolded mod4_unat]] by simp
    show ?thesis
      using store [where ok = "\<lambda>a. a mod 2 = 0" and new_word = "rom_vm.merged TYPE('a) c ND U sh_mask 0xffff",
          OF handler_families_mem(6) new]
      unfolding exec view [symmetric]
      by (simp add: SH dispatch_def Let_def rom_vm.stores mod4_unat store_half [OF _ sh_mask_eq] cong: if_cong)
  next
    case SB
    have new: "rom_vm.merged TYPE('a) c ND U sb_mask 0xff (ram w) a b =
        Inr (merge_subword a (b AND 0xff) (?f (word_idx a))
          ([0xffffff00, 0xffff00ff, 0xff00ffff, 0x00ffffff] ! (unat a mod 4)))"
      if "word_idx a \<in> {..<backing_len (ram w)}"
      unfolding rom_vm.merged_def peek [OF that] sb_mask_eq by simp
    show ?thesis
      using store [where ok = "\<lambda>a. True" and new_word = "rom_vm.merged TYPE('a) c ND U sb_mask 0xff",
          OF handler_families_mem(6) new]
      unfolding exec view [symmetric]
      by (simp add: SB dispatch_def Let_def rom_vm.stores store_byte [OF sb_mask_eq] cong: if_cong)
  qed
qed

section \<open>A cycle\<close>

lemma dispatch_refines:
  assumes "machine_inv w" "log_room 1 w" and "rv_base opt a" and "lower opt a = Inr ins"
  shows "implements (rv_exec (rv_bus_of c w) a (rv_view w)) (dispatch (rom_machine c ND U) ins w)"
proof (cases a)
  case (OP_REG op d r q)
  with assms(3,4) have "op \<notin> {R_MULH, R_MULHSU, R_DIV, R_REM}"
    and "ins = from_imm (reg_name op) (ucast r) (ucast q) (ucast d) 0"
    by (simp_all add: when_supported_def)
  with reg_refines [OF assms(1,2)] show ?thesis by (simp only: OP_REG) auto
next
  case UNIMP
  with assms(4) show ?thesis
    by (auto simp: implements_def dispatch_def illegal_def illegal_instr_def)
qed (insert assms(3,4), simp_all only: lower.simps rv_base.simps when_supported_def if_True sum.inject,
  (hypsubst, (rule imm_refines [OF assms(1,2)] shift_refines [OF assms(1,2)] mop_refines [OF assms(1,2)]
    upper_refines [OF assms(1,2)] jump_refines [OF assms(1,2)] branch_refines [OF assms(1,2)]
    load_refines [OF assms(1,2)] store_refines [OF assms(1,2)]))+)

end
