(* ===== verification/RvRun.thy ===== *)
theory RvRun
  imports RvRefine
begin

text \<open>
  From instructions to programs: a cycle of the machine is a step of the ISA, and a run of an
  assembled program from power-on is the run of \<open>rv_run\<close>, fault for fault and result for result.
\<close>

section \<open>The log of one instruction\<close>

text \<open>An instruction that is not a delegation appends at most one entry.\<close>

definition one_entry :: "recorder \<Rightarrow> recorder \<Rightarrow> bool" where
  "one_entry sn sn' \<longleftrightarrow>
     reads_offset sn' = reads_offset sn \<and>
     vec_capacity (reads_buffer sn') = vec_capacity (reads_buffer sn) \<and>
     length (vec_items (reads_buffer sn')) \<le> Suc (length (vec_items (reads_buffer sn)))"

lemma one_entry_refl [simp]: "one_entry sn sn"
  by (simp add: one_entry_def)

lemma append_one_entry:
  "ensures (append_memory_read (vm_snap (rom_machine c ND U)) a v rt wt sn) (one_entry sn)"
  "ensures (append_arbitrary_value (vm_snap (rom_machine c ND U)) v sn) (one_entry sn)"
  by (auto simp: ensures_def rom_machine_def simple_snapshotter_ops_def simple_append_memory_read_def
      simple_append_arbitrary_value_def vec_buffer_ops_def vec_push_def one_entry_def res_simps)

lemmas bind_append_one = append_one_entry [THEN ensures_bind]

lemma ensures_prod2:
  "(\<And>x y m. p = ((x, y), m) \<Longrightarrow> ensures (f x y m) Q) \<Longrightarrow> ensures ((\<lambda>((x, y), m). f x y m) p) Q"
  by (cases p) auto

lemma on_state_one_entry: "ensures (on_state f w) (\<lambda>w'. one_entry (snap w) (snap w'))"
  unfolding on_state_def by (rule bind_any) (simp add: ensures_def)

lemma memory_one_entry:
  fixes c ND U
  defines "E \<equiv> rom_machine c ND U"
  shows "ensures (lw E i w) (\<lambda>w'. one_entry (snap w) (snap w'))"
    "ensures (sw E i w) (\<lambda>w'. one_entry (snap w) (snap w'))"
    "ensures (lh E b i w) (\<lambda>w'. one_entry (snap w) (snap w'))"
    "ensures (lb E b i w) (\<lambda>w'. one_entry (snap w) (snap w'))"
    "ensures (sh E i w) (\<lambda>w'. one_entry (snap w) (snap w'))"
    "ensures (sb E i w) (\<lambda>w'. one_entry (snap w) (snap w'))"
    "ensures (nd_read E i w) (\<lambda>w'. one_entry (snap w) (snap w'))"
    "ensures (nd_write E i w) (\<lambda>w'. one_entry (snap w) (snap w'))"
  unfolding E_def lw_def sw_def lh_def lb_def sh_def sb_def nd_read_def nd_write_def Let_def
  by (rule bind_append_one ensures_guard ensures_debug_assert ensures_prod2 ensures_prod bind_any ensures_Inr | simp)+

lemma dispatch_one_entry:
  assumes "name i \<noteq> ZicsrDelegation"
  shows "ensures (dispatch (rom_machine c ND U) i w) (\<lambda>w'. one_entry (snap w) (snap w'))"
  unfolding dispatch_def Let_def
  using assms by (cases "name i") (simp_all add: memory_one_entry on_state_one_entry illegal_def ensures_Inl)

lemma names_not_delegation:
  "load_name l \<noteq> ZicsrDelegation \<and> store_name s \<noteq> ZicsrDelegation \<and> imm_name i \<noteq> ZicsrDelegation \<and>
   shift_name h \<noteq> ZicsrDelegation \<and> reg_name r \<noteq> ZicsrDelegation \<and> mop_name m \<noteq> ZicsrDelegation"
  by (intro conjI)
    ((cases l; simp), (cases s; simp), (cases i; simp), (cases h; simp), (cases r; simp), (cases m; simp))

lemma base_not_delegation:
  "rv_base opt a \<Longrightarrow> lower opt a = Inr ins \<Longrightarrow> name ins \<noteq> ZicsrDelegation"
  using names_not_delegation
  by (cases a) (auto simp: when_supported_def from_imm_def illegal_instr_def)

section \<open>Snapshots between cycles\<close>

lemma snapshot_room:
  assumes "one_entry (snap w) (snap w')" and "log_room (Suc n) w" and "vec_log.partitioned (snap w')"
  obtains sn where
    "take_snapshot_if_needed (vm_snap (rom_machine c ND U)) s (snap w') = Inr (False, sn)"
    "\<And>s'. log_room n (w' \<lparr> st := s', snap := sn \<rparr>)"
proof -
  let ?l = "length (vec_items (reads_buffer (snap w')))" and ?o = "reads_offset (snap w')"
  have bounds: "?l + n \<le> vec_capacity (reads_buffer (snap w'))" "?l - ?o \<le> TRACE_CHUNK_LEN" "?o \<le> ?l"
    using assms by (auto simp: one_entry_def log_room_def vec_log.partitioned_def)
  have chunk: "TRACE_CHUNK_LEN \<le> MAX_TRACE_CHUNK_LEN" "0 < TRACE_CHUNK_LEN"
    by (simp_all add: code_consts)
  show thesis
  proof (cases "TRACE_CHUNK_LEN \<le> ?l - ?o")
    case True
    show thesis
      by (rule that [of "snapshot_impl vec_buffer_ops s (snap w')"])
        (use True bounds chunk in \<open>auto simp: rom_machine_def simple_snapshotter_ops_def
            simple_take_snapshot_if_needed_def usize_sub_def vec_buffer_ops_def snapshot_impl_def
            log_room_def Let_def debug_assert_def\<close>)
  next
    case False
    show thesis
      by (rule that [of "snap w'"])
        (use False bounds in \<open>auto simp: rom_machine_def simple_snapshotter_ops_def
            simple_take_snapshot_if_needed_def usize_sub_def vec_buffer_ops_def log_room_def\<close>)
  qed
qed

lemma final_snapshot:
  obtains sn where "take_final_snapshot (vm_snap (rom_machine c ND U)) s (snap w') = Inr sn"
    "vec_capacity (reads_buffer sn) = vec_capacity (reads_buffer (snap w'))"
  by (simp add: rom_machine_def simple_snapshotter_ops_def snapshot_impl_def Let_def)

section \<open>A cycle\<close>

lemma read_instruction_fetch:
  assumes "length tape = length p"
  shows "rv_fetch p (rv_view w) = None \<Longrightarrow> \<exists>e. read_instruction c tape (pc (st w)) = Inl e"
    "rv_fetch p (rv_view w) = Some a \<Longrightarrow> \<exists>i < length p. a = p ! i \<and> read_instruction c tape (pc (st w)) = Inr (tape ! i)"
  using assms
  by (auto simp: rv_fetch_def read_instruction_def view_fields Let_def unat_drop_bit debug_assert_def
      split: if_splits)

text \<open>What the world of a finished instruction gives the end of the cycle.\<close>

lemma after_dispatch:
  assumes "machine_inv w" and "unat (timestamp (st w)) + 4 * 649 < 2 ^ 64"
    and "dispatch (rom_machine c ND U) i w = Inr w'"
  shows "vec_log.partitioned (snap w')" "unat (timestamp (st w')) + 4 < 2 ^ 64"
proof -
  let ?t = "timestamp (st w)"
  have "rom_vm.world_inv c (ram w) (vec_items (reads_buffer (snap w))) w"
    using assms(1) by (simp add: world_inv_self)
  note mid = rom_vm.world_inv_midst [OF this]
  have "unat ?t + 4 * 648 + 4 < 2 ^ 64" using assms(2) by simp
  from ensuresD [OF rom_vm.dispatch_midst [OF mid this] assms(3)]
  obtain n k where n: "n \<le> 648"
    and after: "rom_vm.after c (rom_vm.later_call ?t n) k (ram w) (vec_items (reads_buffer (snap w))) w'"
    by blast
  from after show "vec_log.partitioned (snap w')"
    by (simp add: rom_vm.after_def rom_vm.logged_def)
  have "unat ?t + 4 * n + 4 < 2 ^ 64" using n assms(2) by simp
  from rom_vm.later_call_facts(1) [OF mid(4) this, of 0] n assms(2) after
  show "unat (timestamp (st w')) + 4 < 2 ^ 64"
    by (simp add: rom_vm.after_def midst_def)
qed

lemma cycle_refines:
  assumes inv: "machine_inv w" and room: "log_room (Suc n) w"
    and clock: "unat (timestamp (st w)) + 4 * 649 < 2 ^ 64"
    and low: "list_all2 (\<lambda>a ins. lower opt a = Inr ins) p tape" and base: "\<forall>a \<in> set p. rv_base opt a"
  shows "case Option.bind (rv_fetch p (rv_view w)) (\<lambda>a. rv_exec (rv_bus_of c w) a (rv_view w)) of
      None \<Rightarrow> \<exists>e. vm_cycle (rom_machine c ND U) tape w = Inl e
    | Some \<sigma> \<Rightarrow> \<exists>w'. vm_cycle (rom_machine c ND U) tape w =
          Inr (if rv_pc \<sigma> = rv_pc (rv_view w) then Some True else None, w') \<and>
        rv_view w' = \<sigma> \<and> (rv_pc \<sigma> \<noteq> rv_pc (rv_view w) \<longrightarrow> log_room n w')"
proof -
  have len: "length tape = length p" using low by (simp add: list_all2_lengthD)
  show ?thesis
  proof (cases "rv_fetch p (rv_view w)")
    case None
    with read_instruction_fetch(1) [OF len, of w c] show ?thesis
      by (auto simp: vm_cycle_def run_step_def)
  next
    case (Some a)
    from read_instruction_fetch(2) [OF len Some, of c] obtain i where i: "i < length p" "a = p ! i"
      and read: "read_instruction c tape (pc (st w)) = Inr (tape ! i)" by blast
    have a: "lower opt a = Inr (tape ! i)" "rv_base opt a"
      using low base i by (auto simp: list_all2_conv_all_nth)
    have room1: "log_room 1 w" using room by (simp add: log_room_def)
    have aligned: "timestamp (st w) mod TIMESTAMP_STEP = 0"
      using inv by (simp add: machine_inv_def between_def aligned4_iff code_consts)
    let ?d = "dispatch (rom_machine c ND U) (tape ! i) w"
    have step: "run_step (rom_machine c ND U) tape w = ?d"
      by (simp add: run_step_def read aligned)
    note imp = dispatch_refines [OF inv room1 a(2,1), of c ND U]
    show ?thesis
    proof (cases "rv_exec (rv_bus_of c w) a (rv_view w)")
      case None
      with imp show ?thesis by (auto simp: Some implements_def vm_cycle_def step)
    next
      case exec: (Some \<sigma>)
      with imp obtain w' where w': "?d = Inr w'" and \<sigma>: "rv_view w' = \<sigma>" by (auto simp: implements_def)
      note after = after_dispatch [OF inv clock w']
      have one: "one_entry (snap w) (snap w')"
        by (rule ensuresD [OF dispatch_one_entry [OF base_not_delegation [OF a(2,1)]] w'])
      let ?s = "(st w') \<lparr> timestamp := timestamp (st w') + 4 \<rparr>"
      have view: "rv_view (w' \<lparr> st := ?s, snap := sn \<rparr>) = \<sigma>" for sn
        using \<sigma> by (simp add: rv_view_def)
      have tick: "checked_add dbg (timestamp (st w')) TIMESTAMP_STEP = Inr (timestamp (st w') + 4)" for dbg
        using after(2) by (simp add: checked_add_def code_consts)
      have pc: "pc (st w') = rv_pc \<sigma>" using \<sigma> by (auto simp: rv_view_def)
      show ?thesis
      proof (cases "rv_pc \<sigma> = rv_pc (rv_view w)")
        case True
        obtain sn where sn: "take_final_snapshot (vm_snap (rom_machine c ND U)) ?s (snap w') = Inr sn"
          by (rule final_snapshot)
        have "vm_cycle (rom_machine c ND U) tape w = Inr (Some True, w' \<lparr> st := ?s, snap := sn \<rparr>)"
          using True sn by (simp add: vm_cycle_def step w' tick pc view_fields Let_def)
        with True view show ?thesis by (auto simp: Some exec)
      next
        case False
        obtain sn where sn: "take_snapshot_if_needed (vm_snap (rom_machine c ND U)) ?s (snap w') = Inr (False, sn)"
          and room': "\<And>s'. log_room n (w' \<lparr> st := s', snap := sn \<rparr>)"
          by (rule snapshot_room [OF one room after(1), of c ND U ?s]) blast
        have "vm_cycle (rom_machine c ND U) tape w = Inr (None, w' \<lparr> st := ?s, snap := sn \<rparr>)"
          using False sn by (simp add: vm_cycle_def step w' tick pc view_fields Let_def)
        with False view room' show ?thesis by (auto simp: Some exec)
      qed
    qed
  qed
qed

section \<open>A run\<close>

lemma run_refines:
  assumes "machine_inv w" "log_room n w" "unat (timestamp (st w)) + 4 * 649 * n < 2 ^ 64"
    and low: "list_all2 (\<lambda>a ins. lower opt a = Inr ins) p tape" and base: "\<forall>a \<in> set p. rv_base opt a"
  shows "case rv_run (rv_bus_of c w) p n (rv_view w) of
      None \<Rightarrow> \<exists>e. run_basic_unrolled (rom_machine c ND U) tape n w = Inl e
    | Some (finished, \<sigma>) \<Rightarrow> \<exists>w'.
        run_basic_unrolled (rom_machine c ND U) tape n w = Inr (finished, w') \<and> rv_view w' = \<sigma>"
  using assms(1-3)
proof (induction n arbitrary: w)
  case 0
  then show ?case by simp
next
  case (Suc n)
  let ?B = "rv_bus_of c w" and ?E = "rom_machine c ND U"
  have clock: "unat (timestamp (st w)) + 4 * 649 < 2 ^ 64" using Suc.prems(3) by simp
  note cyc = cycle_refines [OF Suc.prems(1,2) clock low base, of c ND U]
  have inv: "rom_vm.world_inv c (ram w) (vec_items (reads_buffer (snap w))) w"
    using Suc.prems(1) by (simp add: world_inv_self)
  show ?case
  proof (cases "Option.bind (rv_fetch p (rv_view w)) (\<lambda>a. rv_exec ?B a (rv_view w))")
    case None
    with cyc have "\<exists>e. vm_cycle ?E tape w = Inl e" by simp
    with None show ?thesis by (auto simp: bind_eq_None_conv split: option.splits)
  next
    case (Some \<sigma>)
    then obtain a where a: "rv_fetch p (rv_view w) = Some a" "rv_exec ?B a (rv_view w) = Some \<sigma>"
      by (auto simp: bind_eq_Some_conv)
    from cyc Some obtain w' where
      w': "vm_cycle ?E tape w = Inr (if rv_pc \<sigma> = rv_pc (rv_view w) then Some True else None, w')"
        "rv_view w' = \<sigma>" and room: "rv_pc \<sigma> \<noteq> rv_pc (rv_view w) \<longrightarrow> log_room n w'" by auto
    show ?thesis
    proof (cases "rv_pc \<sigma> = rv_pc (rv_view w)")
      case True
      with a w' show ?thesis by simp
    next
      case False
      from ensuresD [OF rom_vm.vm_cycle_inv [OF inv clock] w'(1)]
      have inv': "machine_inv w'" "keeps_rom_and_log c w w'"
        and t: "unat (timestamp (st w')) \<le> unat (timestamp (st w)) + 4 * 649"
        by (simp_all add: world_inv_step)
      have "unat (timestamp (st w')) + 4 * 649 * n < 2 ^ 64" using t Suc.prems(3) by simp
      note IH = Suc.IH [OF inv'(1) _ this]
      have bus: "rv_bus_of c w' = ?B" using inv'(2) by (simp add: rv_bus_of_def keeps_rom_and_log_def)
      have run: "run_basic_unrolled ?E tape (Suc n) w = run_basic_unrolled ?E tape n w'"
        using w'(1) False by simp
      have spec: "rv_run ?B p (Suc n) (rv_view w) = rv_run ?B p n \<sigma>" using a False by simp
      show ?thesis unfolding run spec using IH room False w'(2) by (simp add: bus)
    qed
  qed
qed

section \<open>Properties\<close>

lemma runs_separated_instrs: "runs_separated (map I p)"
  by (induction p rule: induct_list012) auto

lemma layout_base:
  "\<forall>a \<in> set p. rv_base opt a \<Longrightarrow>
     \<exists>tape. layout opt (map I p) = Inr tape \<and> list_all2 (\<lambda>a ins. lower opt a = Inr ins) p tape"
proof (induction p)
  case (Cons a p)
  then obtain tape where "layout opt (map I p) = Inr tape" "list_all2 (\<lambda>a ins. lower opt a = Inr ins) p tape"
    by auto
  moreover have "\<exists>ins. lower opt a = Inr ins" using Cons.prems by (cases a) auto
  ultimately show ?case by auto
qed simp

text \<open>The ISA state at power-on: the program in memory, everything else zero.\<close>

definition rv_boot :: "u32 list \<Rightarrow> rv_state" where
  "rv_boot program = \<lparr> rv_regs = (\<lambda>_. 0), rv_pc = 0,
     rv_mem = mem_byte (\<lambda>i. if i < length program then program ! i else 0) \<rparr>"

lemma power_on_view:
  assumes "power_on c program ram_bytes limit source = Inr w"
  shows "rv_view w = rv_boot program" "rv_bus_of c w = \<lparr> rom_end = rom_bytes c, mem_end = ram_bytes \<rparr>"
    "n \<le> limit \<Longrightarrow> log_room n w"
proof -
  from assms obtain m sn where
    m: "from_rom_content c program ram_bytes = Inr m" and
    sn: "new_with_cycle_limit vec_buffer_ops limit
      (initial_with_counters DelegationsAndFamiliesCounters_default) = Inr sn" and
    w: "w = \<lparr> st = initial_with_counters DelegationsAndFamiliesCounters_default,
              ram = m, snap = sn, nd = source \<rparr>"
    by (auto simp: power_on_def Let_def res_simps)
  have size: "is_power_of_two ram_bytes" "rom_bytes c < ram_bytes" "length program \<le> rom_bytes c div 4"
    and len: "backing_len m = ram_bytes div 4"
    using m by (auto simp: from_rom_content_def Let_def res_simps)
  have "length program \<le> ram_bytes div 4"
    using size(2,3) div_le_mono [of "rom_bytes c" ram_bytes 4] by linarith
  then have content: "rom_content m = (\<lambda>i. if i < length program then program ! i else 0)"
    using m by (auto simp: from_rom_content_def Let_def res_simps rom_content_def fun_eq_iff)
  show "rv_view w = rv_boot program"
    by (simp add: w rv_view_def rv_boot_def content initial_with_counters_def)
  obtain k where k: "ram_bytes = 2 ^ k" using size(1) by (auto simp: is_power_of_two_def)
  have "(2 :: nat) ^ 2 \<le> rom_bytes c" unfolding rom_bytes_def by (rule power_increasing) simp_all
  then have "(2 :: nat) ^ 2 < 2 ^ k" using size(2) k by simp
  then have "2 < k" by (simp only: power_strict_increasing_iff) 
  then have "4 dvd ram_bytes" unfolding k using le_imp_power_dvd [of 2 k "2 :: nat"] by simp
  then show "rv_bus_of c w = \<lparr> rom_end = rom_bytes c, mem_end = ram_bytes \<rparr>"
    by (simp add: rv_bus_of_def w len)
  show "n \<le> limit \<Longrightarrow> log_room n w"
    using sn by (auto simp: w log_room_def new_with_cycle_limit_def vec_buffer_ops_def code_consts)
qed

lemma small_boots:
  assumes "length program \<le> 32768"
  shows "\<exists>w. power_on small_cfg program 262144 10 () = Inr w"
proof -
  have "is_power_of_two 262144"
    unfolding is_power_of_two_def by (simp add: image_iff) (rule bexI [of _ 18], simp_all)
  then show ?thesis
    using assms by (simp add: power_on_def from_rom_content_def small_cfg_def rom_bytes_def
        new_with_cycle_limit_def vec_buffer_ops_def Let_def)
qed

text \<open>
  C1. The machine implements the ISA. A program of supported instructions, assembled, decoded
  and run from power-on for any number of cycles the log and the clock have room for, does what
  the reference semantics says: it stops with a fault exactly when the ISA has no successor, and
  otherwise returns with the registers, the program counter and the memory of the ISA's run, and
  with the same answer to whether the program has finished.
\<close>

theorem run_refines_isa:
  assumes "\<forall>a \<in> set p. rv_base opt a"
    and "power_on c (assemble (map I p)) ram_bytes limit source = Inr w"
    and "n \<le> limit" and "4 + 4 * 649 * n < (2 :: nat) ^ 64"
  shows "\<exists>tape. preprocess_bytecode c opt (assemble (map I p)) = Inr tape \<and>
    (case rv_run \<lparr> rom_end = rom_bytes c, mem_end = ram_bytes \<rparr> p n (rv_boot (assemble (map I p))) of
       None \<Rightarrow> \<exists>e. run_basic_unrolled (rom_machine c ND U) tape n w = Inl e
     | Some (finished, \<sigma>) \<Rightarrow> \<exists>w'.
         run_basic_unrolled (rom_machine c ND U) tape n w = Inr (finished, w') \<and> rv_view w' = \<sigma>)"
proof -
  from layout_base [OF assms(1)] obtain tape where
    tape: "layout opt (map I p) = Inr tape" "list_all2 (\<lambda>a ins. lower opt a = Inr ins) p tape" by blast
  have "preprocess_bytecode c opt (assemble (map I p)) = Inr tape"
    using preprocess_layout [OF runs_separated_instrs, of "[]" "[]" c opt] tape(1)
    by (simp add: preprocess_bytecode_def)
  moreover note power_on_inv(1,2) [OF assms(2)] and view = power_on_view [OF assms(2)]
  moreover from this have "unat (timestamp (st w)) + 4 * 649 * n < 2 ^ 64" using assms(4) by simp
  ultimately show ?thesis
    using run_refines [OF _ view(3) [OF assms(3)] _ tape(2) assms(1), of c ND U]
    unfolding view(1,2) by blast
qed

theorem run_refines_isa_witness:
  "\<exists>tape w w'. let p = [OP_IMM ADDI 1 0 5, OP_REG R_ADD 2 1 1, JAL 0 0] in
     preprocess_bytecode small_cfg FullUnsignedMachineDecoderConfig (assemble (map I p)) = Inr tape \<and>
     power_on small_cfg (assemble (map I p)) 262144 10 () = Inr w \<and>
     run_basic_unrolled small_machine tape 5 w = Inr (True, w') \<and> rv_regs (rv_view w') 2 = 10"
proof -
  let ?p = "[OP_IMM ADDI 1 0 5, OP_REG R_ADD 2 1 1, JAL 0 0]"
  from small_boots [of "assemble (map I ?p)"] obtain w where
    w: "power_on small_cfg (assemble (map I ?p)) 262144 10 () = Inr w" by auto
  have base: "\<forall>a \<in> set ?p. rv_base FullUnsignedMachineDecoderConfig a"
    by (simp add: reg_supported_def)
  have "rv_run B ?p (Suc (Suc (Suc n))) \<lparr> rv_regs = (\<lambda>_. 0), rv_pc = 0, rv_mem = m \<rparr> =
      Some (True, \<lparr> rv_regs = (\<lambda>_. 0)(1 := 5, 2 := 10), rv_pc = 8, rv_mem = m \<rparr>)" for B n m
    by (simp add: rv_fetch_def advance_def reg_write_def jump_and_link_def Let_def)
  from this [of _ 2] run_refines_isa [OF base w, of 5 unit_nd_ops ruint_model] w show ?thesis
    by (auto simp: rv_boot_def)
qed

end
