(* ===== verification/Witness.thy ===== *)
theory Witness
  imports Machine
begin

text \<open>
  What a replay records for the circuits: the rows of
  \<open>machine_mode_only_unrolled/mod.rs\<close>, the records of the delegations
  (\<open>witness/delegation/mod.rs\<close>, \<open>abstractions/tracer.rs\<close>) and the trait
  \<open>WitnessTracer\<close> with its destination holders (\<open>witness/mod.rs\<close>).
\<close>

section \<open>Timestamps in a row\<close>

text \<open>\<open>TimestampData\<close> of \<open>cs/src/definitions/mod.rs\<close>: three 16-bit limbs, low first.\<close>

type_synonym timestamp_data = "u16 \<times> u16 \<times> u16"

definition from_scalar :: "u64 \<Rightarrow> timestamp_data" where
  "from_scalar ts = (ucast ts, ucast (drop_bit 16 ts), ucast (drop_bit 32 ts))"

fun as_scalar :: "timestamp_data \<Rightarrow> u64" where
  "as_scalar (l0, l1, l2) = ucast l0 OR push_bit 16 (ucast l1) OR push_bit 32 (ucast l2)"

definition TimestampData_EMPTY :: timestamp_data where
  "TimestampData_EMPTY = (0, 0, 0)"

section \<open>Rows\<close>

record NonMemoryOpcodeTracingData =
  n_initial_pc :: u32
  n_rs1_value :: u32
  n_rs2_value :: u32
  n_rd_old_value :: u32
  n_rd_value :: u32
  n_new_pc :: u32
  n_delegation_type :: u16

record LoadOpcodeTracingData =
  l_initial_pc :: u32
  l_rs1_value :: u32
  l_aligned_ram_address :: u32
  l_aligned_ram_read_value :: u32
  l_rd_old_value :: u32
  l_rd_value :: u32

record StoreOpcodeTracingData =
  s_initial_pc :: u32
  s_rs1_value :: u32
  s_aligned_ram_address :: u32
  s_aligned_ram_old_value :: u32
  s_rs2_value :: u32
  s_aligned_ram_write_value :: u32

text \<open>\<open>transmute\<close> between the two, which have the same layout: field by field in order.\<close>

definition store_as_load :: "StoreOpcodeTracingData \<Rightarrow> LoadOpcodeTracingData" where
  "store_as_load d =
     \<lparr> l_initial_pc = s_initial_pc d, l_rs1_value = s_rs1_value d,
       l_aligned_ram_address = s_aligned_ram_address d,
       l_aligned_ram_read_value = s_aligned_ram_old_value d,
       l_rd_old_value = s_rs2_value d, l_rd_value = s_aligned_ram_write_value d \<rparr>"

definition load_as_store :: "LoadOpcodeTracingData \<Rightarrow> StoreOpcodeTracingData" where
  "load_as_store d =
     \<lparr> s_initial_pc = l_initial_pc d, s_rs1_value = l_rs1_value d,
       s_aligned_ram_address = l_aligned_ram_address d,
       s_aligned_ram_old_value = l_aligned_ram_read_value d,
       s_rs2_value = l_rd_old_value d, s_aligned_ram_write_value = l_rd_value d \<rparr>"

definition MEM_LOAD_TRACE_DATA_MARKER :: u16 where
  [code_consts]: "MEM_LOAD_TRACE_DATA_MARKER = 0"

definition MEM_STORE_TRACE_DATA_MARKER :: u16 where
  [code_consts]: "MEM_STORE_TRACE_DATA_MARKER = MEM_LOAD_TRACE_DATA_MARKER + 1"

record NonMemoryOpcodeTracingDataWithTimestamp =
  n_opcode_data :: NonMemoryOpcodeTracingData
  n_rs1_read_timestamp :: timestamp_data
  n_rs2_read_timestamp :: timestamp_data
  n_rd_read_timestamp :: timestamp_data
  n_cycle_timestamp :: timestamp_data

record MemoryOpcodeTracingDataWithTimestamp =
  m_opcode_data :: LoadOpcodeTracingData
  discr :: u16
  m_rs1_read_timestamp :: timestamp_data
  m_rs2_or_ram_read_timestamp :: timestamp_data
  m_rd_or_ram_read_timestamp :: timestamp_data
  m_cycle_timestamp :: timestamp_data

text \<open>
  The accessors of a memory row: a store is read through the other layout, an unknown
  discriminant is \<open>unreachable!()\<close>.
\<close>

definition by_discr :: "MemoryOpcodeTracingDataWithTimestamp \<Rightarrow>
    (StoreOpcodeTracingData \<Rightarrow> 'a res) \<Rightarrow> (LoadOpcodeTracingData \<Rightarrow> 'a res) \<Rightarrow> 'a res" where
  "by_discr r store load =
     (if discr r = MEM_STORE_TRACE_DATA_MARKER then store (load_as_store (m_opcode_data r))
      else if discr r = MEM_LOAD_TRACE_DATA_MARKER then load (m_opcode_data r)
      else Inl AssertFailed)"

definition mem_initial_pc :: "MemoryOpcodeTracingDataWithTimestamp \<Rightarrow> u32 res" where
  "mem_initial_pc r = by_discr r (\<lambda>d. Inr (s_initial_pc d)) (\<lambda>d. Inr (l_initial_pc d))"

definition as_load_data :: "MemoryOpcodeTracingDataWithTimestamp \<Rightarrow> LoadOpcodeTracingData res" where
  "as_load_data r = by_discr r (\<lambda>d. Inl AssertFailed) Inr"

definition as_store_data :: "MemoryOpcodeTracingDataWithTimestamp \<Rightarrow> StoreOpcodeTracingData res" where
  "as_store_data r = by_discr r Inr (\<lambda>d. Inl AssertFailed)"

definition rs2_or_ram_read_value :: "MemoryOpcodeTracingDataWithTimestamp \<Rightarrow> u32 res" where
  "rs2_or_ram_read_value r =
     by_discr r (\<lambda>d. Inr (s_rs2_value d)) (\<lambda>d. Inr (l_aligned_ram_read_value d))"

definition ram_address :: "MemoryOpcodeTracingDataWithTimestamp \<Rightarrow> u32 res" where
  "ram_address r =
     by_discr r (\<lambda>d. Inr (s_aligned_ram_address d)) (\<lambda>d. Inr (l_aligned_ram_address d))"

definition rd_or_ram_read_value :: "MemoryOpcodeTracingDataWithTimestamp \<Rightarrow> u32 res" where
  "rd_or_ram_read_value r =
     by_discr r (\<lambda>_. bindR (as_store_data r) (\<lambda>d. Inr (s_aligned_ram_old_value d)))
       (\<lambda>d. Inr (l_rd_old_value d))"

definition rd_or_ram_write_value :: "MemoryOpcodeTracingDataWithTimestamp \<Rightarrow> u32 res" where
  "rd_or_ram_write_value r =
     by_discr r (\<lambda>_. bindR (as_store_data r) (\<lambda>d. Inr (s_aligned_ram_write_value d)))
       (\<lambda>d. Inr (l_rd_value d))"

datatype UnifiedOpcodeTracingDataWithTimestamp =
    NonMem NonMemoryOpcodeTracingDataWithTimestamp
  | Mem MemoryOpcodeTracingDataWithTimestamp

text \<open>
  The accessors of a unified row. Here a memory row that is not a load is taken for a store, with
  a debug assertion.
\<close>

definition if_load :: "cfg \<Rightarrow> MemoryOpcodeTracingDataWithTimestamp \<Rightarrow> 'a \<Rightarrow> 'a \<Rightarrow> 'a res" where
  "if_load c r load store =
     (if discr r = MEM_LOAD_TRACE_DATA_MARKER then Inr load
      else debug_assert (debug_assertions c) (discr r = MEM_STORE_TRACE_DATA_MARKER) (Inr store))"

fun u_initial_pc :: "UnifiedOpcodeTracingDataWithTimestamp \<Rightarrow> u32" where
  "u_initial_pc (NonMem r) = n_initial_pc (n_opcode_data r)"
| "u_initial_pc (Mem r) = l_initial_pc (m_opcode_data r)"

fun u_final_pc :: "UnifiedOpcodeTracingDataWithTimestamp \<Rightarrow> u32" where
  "u_final_pc (NonMem r) = n_new_pc (n_opcode_data r)"
| "u_final_pc (Mem r) = l_initial_pc (m_opcode_data r) + 4"

fun rs2_is_reg :: "cfg \<Rightarrow> UnifiedOpcodeTracingDataWithTimestamp \<Rightarrow> bool res" where
  "rs2_is_reg c (NonMem r) = Inr True"
| "rs2_is_reg c (Mem r) = if_load c r False True"

fun rd_is_reg :: "cfg \<Rightarrow> UnifiedOpcodeTracingDataWithTimestamp \<Rightarrow> bool res" where
  "rd_is_reg c (NonMem r) = Inr True"
| "rd_is_reg c (Mem r) = if_load c r True False"

fun u_delegation_type :: "UnifiedOpcodeTracingDataWithTimestamp \<Rightarrow> u16" where
  "u_delegation_type (NonMem r) = n_delegation_type (n_opcode_data r)"
| "u_delegation_type (Mem r) = 0"

fun rs1_read_value :: "UnifiedOpcodeTracingDataWithTimestamp \<Rightarrow> u32" where
  "rs1_read_value (NonMem r) = n_rs1_value (n_opcode_data r)"
| "rs1_read_value (Mem r) = l_rs1_value (m_opcode_data r)"

fun rs2_or_mem_load_read_value :: "cfg \<Rightarrow> UnifiedOpcodeTracingDataWithTimestamp \<Rightarrow> u32 res" where
  "rs2_or_mem_load_read_value c (NonMem r) = Inr (n_rs2_value (n_opcode_data r))"
| "rs2_or_mem_load_read_value c (Mem r) =
     if_load c r (l_aligned_ram_read_value (m_opcode_data r)) (s_rs2_value (load_as_store (m_opcode_data r)))"

fun rd_or_mem_store_read_value :: "cfg \<Rightarrow> UnifiedOpcodeTracingDataWithTimestamp \<Rightarrow> u32 res" where
  "rd_or_mem_store_read_value c (NonMem r) = Inr (n_rd_old_value (n_opcode_data r))"
| "rd_or_mem_store_read_value c (Mem r) =
     if_load c r (l_rd_old_value (m_opcode_data r))
       (s_aligned_ram_old_value (load_as_store (m_opcode_data r)))"

fun rd_or_mem_store_write_value :: "cfg \<Rightarrow> UnifiedOpcodeTracingDataWithTimestamp \<Rightarrow> u32 res" where
  "rd_or_mem_store_write_value c (NonMem r) = Inr (n_rd_value (n_opcode_data r))"
| "rd_or_mem_store_write_value c (Mem r) =
     if_load c r (l_rd_value (m_opcode_data r))
       (s_aligned_ram_write_value (load_as_store (m_opcode_data r)))"

fun rs1_read_timestamp :: "UnifiedOpcodeTracingDataWithTimestamp \<Rightarrow> u64" where
  "rs1_read_timestamp (NonMem r) = as_scalar (n_rs1_read_timestamp r)"
| "rs1_read_timestamp (Mem r) = as_scalar (m_rs1_read_timestamp r)"

fun rs2_or_mem_load_read_timestamp :: "UnifiedOpcodeTracingDataWithTimestamp \<Rightarrow> u64" where
  "rs2_or_mem_load_read_timestamp (NonMem r) = as_scalar (n_rs2_read_timestamp r)"
| "rs2_or_mem_load_read_timestamp (Mem r) = as_scalar (m_rs2_or_ram_read_timestamp r)"

fun rd_or_mem_store_read_timestamp :: "UnifiedOpcodeTracingDataWithTimestamp \<Rightarrow> u64" where
  "rd_or_mem_store_read_timestamp (NonMem r) = as_scalar (n_rd_read_timestamp r)"
| "rd_or_mem_store_read_timestamp (Mem r) = as_scalar (m_rd_or_ram_read_timestamp r)"

fun u_cycle_timestamp :: "UnifiedOpcodeTracingDataWithTimestamp \<Rightarrow> u64" where
  "u_cycle_timestamp (NonMem r) = as_scalar (n_cycle_timestamp r)"
| "u_cycle_timestamp (Mem r) = as_scalar (m_cycle_timestamp r)"

section \<open>Records of the delegations\<close>

record RegisterOrIndirectReadData =
  i_read_value :: u32
  i_timestamp :: timestamp_data

record RegisterOrIndirectReadWriteData =
  rw_read_value :: u32
  rw_write_value :: u32
  rw_timestamp :: timestamp_data

text \<open>
  \<open>DelegationWitness\<close>: its four arrays have the lengths of its const generics.
\<close>

record DelegationWitness =
  write_timestamp :: u64
  reg_accesses :: "RegisterOrIndirectReadWriteData list"
  indirect_reads :: "RegisterOrIndirectReadData list"
  indirect_writes :: "RegisterOrIndirectReadWriteData list"
  variables_offsets :: "u16 list"

section \<open>Tracers\<close>

record 't tracer_ops =
  needs_tracing_data_for_circuit_family :: "nat \<Rightarrow> 't \<Rightarrow> bool"
  needs_tracing_data_for_delegation_type :: "u16 \<Rightarrow> 't \<Rightarrow> bool"
  write_non_memory_family_data :: "nat \<Rightarrow> NonMemoryOpcodeTracingDataWithTimestamp \<Rightarrow> 't \<Rightarrow> 't res"
  write_memory_family_data :: "nat \<Rightarrow> MemoryOpcodeTracingDataWithTimestamp \<Rightarrow> 't \<Rightarrow> 't res"
  write_delegation :: "u16 \<Rightarrow> DelegationWitness \<Rightarrow> 't \<Rightarrow> 't res"

text \<open>The tracer \<open>()\<close> asks for everything and drops it.\<close>

definition unit_tracer_ops :: "unit tracer_ops" where
  "unit_tracer_ops =
     \<lparr> needs_tracing_data_for_circuit_family = (\<lambda>family u. True),
       needs_tracing_data_for_delegation_type = (\<lambda>ty u. True),
       write_non_memory_family_data = (\<lambda>family d u. Inr u),
       write_memory_family_data = (\<lambda>family d u. Inr u),
       write_delegation = (\<lambda>ty d u. Inr u) \<rparr>"

text \<open>
  A holder has the slices still to be filled (here their lengths: what they contain is never
  read) and, as a ghost, the elements it has written so far. When there is no slice left it drops
  the element; a write into an empty slice goes out of its bounds.
\<close>

record 'a holder =
  rooms :: "nat list"
  written :: "'a list"

definition holder_write :: "'a \<Rightarrow> 'a holder \<Rightarrow> 'a holder res" where
  "holder_write x h =
     (case rooms h of
        [] \<Rightarrow> Inr h
      | first # rest \<Rightarrow>
          guardR (0 < first) UndefinedBehaviour
            (let first = first - 1 in
             Inr \<lparr> rooms = (if first = 0 then rest else first # rest), written = written h @ [x] \<rparr>))"

definition NonMemDestinationHolder_ops ::
  "nat \<Rightarrow> NonMemoryOpcodeTracingDataWithTimestamp holder tracer_ops" where
  "NonMemDestinationHolder_ops FAMILY =
     \<lparr> needs_tracing_data_for_circuit_family = (\<lambda>family h. family = FAMILY),
       needs_tracing_data_for_delegation_type = (\<lambda>ty h. False),
       write_non_memory_family_data = (\<lambda>family d h. if FAMILY = family then holder_write d h else Inr h),
       write_memory_family_data = (\<lambda>family d h. Inr h),
       write_delegation = (\<lambda>ty d h. Inr h) \<rparr>"

definition MemDestinationHolder_ops ::
  "nat \<Rightarrow> MemoryOpcodeTracingDataWithTimestamp holder tracer_ops" where
  "MemDestinationHolder_ops FAMILY =
     \<lparr> needs_tracing_data_for_circuit_family = (\<lambda>family h. family = FAMILY),
       needs_tracing_data_for_delegation_type = (\<lambda>ty h. False),
       write_non_memory_family_data = (\<lambda>family d h. Inr h),
       write_memory_family_data = (\<lambda>family d h. if FAMILY = family then holder_write d h else Inr h),
       write_delegation = (\<lambda>ty d h. Inr h) \<rparr>"

definition UnifiedDestinationHolder_ops :: "UnifiedOpcodeTracingDataWithTimestamp holder tracer_ops" where
  "UnifiedDestinationHolder_ops =
     \<lparr> needs_tracing_data_for_circuit_family = (\<lambda>family h. True),
       needs_tracing_data_for_delegation_type = (\<lambda>ty h. False),
       write_non_memory_family_data = (\<lambda>family d. holder_write (NonMem d)),
       write_memory_family_data = (\<lambda>family d. holder_write (Mem d)),
       write_delegation = (\<lambda>ty d h. Inr h) \<rparr>"

text \<open>
  The delegation holder compares the sizes of the two records, the third one with itself.
\<close>

definition DelegationDestinationHolder_ops ::
  "cfg \<Rightarrow> u16 \<Rightarrow> nat \<Rightarrow> nat \<Rightarrow> nat \<Rightarrow> nat \<Rightarrow> DelegationWitness holder tracer_ops" where
  "DelegationDestinationHolder_ops c DELEGATION_TYPE REG_ACCESSES INDIRECT_READS INDIRECT_WRITES VARIABLE_OFFSETS =
     \<lparr> needs_tracing_data_for_circuit_family = (\<lambda>family h. False),
       needs_tracing_data_for_delegation_type = (\<lambda>ty h. ty = DELEGATION_TYPE),
       write_non_memory_family_data = (\<lambda>family d h. Inr h),
       write_memory_family_data = (\<lambda>family d h. Inr h),
       write_delegation = (\<lambda>ty d h.
         if DELEGATION_TYPE = ty then
           debug_assert (debug_assertions c) (REG_ACCESSES = length (reg_accesses d))
           (debug_assert (debug_assertions c) (INDIRECT_READS = length (indirect_reads d))
           (debug_assert (debug_assertions c) (INDIRECT_WRITES = INDIRECT_WRITES)
           (debug_assert (debug_assertions c) (VARIABLE_OFFSETS = length (variables_offsets d))
             (holder_write d h))))
         else Inr h) \<rparr>"

text \<open>The sizes of the records of the three delegations, and their holders.\<close>

definition NUM_BIGINT_REGISTER_ACCESSES :: nat where [code_consts]: "NUM_BIGINT_REGISTER_ACCESSES = 3"
definition NUM_BIGINT_VARIABLE_OFFSETS :: nat where [code_consts]: "NUM_BIGINT_VARIABLE_OFFSETS = 0"
definition BIGINT_X10_NUM_WRITES :: nat where [code_consts]: "BIGINT_X10_NUM_WRITES = 8"
definition BIGINT_X11_NUM_READS :: nat where [code_consts]: "BIGINT_X11_NUM_READS = 8"
definition NUM_BLAKE2S_REGISTER_ACCESSES :: nat where [code_consts]: "NUM_BLAKE2S_REGISTER_ACCESSES = 3"
definition NUM_BLAKE2S_VARIABLE_OFFSETS :: nat where [code_consts]: "NUM_BLAKE2S_VARIABLE_OFFSETS = 0"
definition BLAKE2S_X10_NUM_WRITES :: nat where [code_consts]: "BLAKE2S_X10_NUM_WRITES = 8 + 16"
definition BLAKE2S_X11_NUM_READS :: nat where [code_consts]: "BLAKE2S_X11_NUM_READS = 16"
definition NUM_X10_INDIRECT_U64_WORDS :: nat where [code_consts]: "NUM_X10_INDIRECT_U64_WORDS = 6"
definition KECCAK_SPECIAL5_NUM_VARIABLE_OFFSETS :: nat where
  [code_consts]: "KECCAK_SPECIAL5_NUM_VARIABLE_OFFSETS = NUM_X10_INDIRECT_U64_WORDS"
definition NUM_KECCAK_SPECIAL5_REGISTER_ACCESSES :: nat where
  [code_consts]: "NUM_KECCAK_SPECIAL5_REGISTER_ACCESSES = 2"
definition NUM_KECCAK_SPECIAL5_INDIRECT_READS :: nat where
  [code_consts]: "NUM_KECCAK_SPECIAL5_INDIRECT_READS = 0"
definition KECCAK_SPECIAL5_X11_NUM_WRITES :: nat where
  [code_consts]: "KECCAK_SPECIAL5_X11_NUM_WRITES = NUM_X10_INDIRECT_U64_WORDS * 2"

definition BigintDelegationDestinationHolder_ops :: "cfg \<Rightarrow> DelegationWitness holder tracer_ops" where
  "BigintDelegationDestinationHolder_ops c =
     DelegationDestinationHolder_ops c (ucast BIGINT_OPS_WITH_CONTROL_CSR_REGISTER) NUM_BIGINT_REGISTER_ACCESSES
       BIGINT_X11_NUM_READS BIGINT_X10_NUM_WRITES NUM_BIGINT_VARIABLE_OFFSETS"

definition BlakeDelegationDestinationHolder_ops :: "cfg \<Rightarrow> DelegationWitness holder tracer_ops" where
  "BlakeDelegationDestinationHolder_ops c =
     DelegationDestinationHolder_ops c (ucast BLAKE2S_DELEGATION_CSR_REGISTER) NUM_BLAKE2S_REGISTER_ACCESSES
       BLAKE2S_X11_NUM_READS BLAKE2S_X10_NUM_WRITES NUM_BLAKE2S_VARIABLE_OFFSETS"

definition KeccakDelegationDestinationHolder_ops :: "cfg \<Rightarrow> DelegationWitness holder tracer_ops" where
  "KeccakDelegationDestinationHolder_ops c =
     DelegationDestinationHolder_ops c (ucast KECCAK_SPECIAL5_CSR_REGISTER) NUM_KECCAK_SPECIAL5_REGISTER_ACCESSES
       NUM_KECCAK_SPECIAL5_INDIRECT_READS KECCAK_SPECIAL5_X11_NUM_WRITES KECCAK_SPECIAL5_NUM_VARIABLE_OFFSETS"

end
