(* ===== verification/Replay.thy ===== *)
theory Replay
  imports Witness VmMemory
begin

text \<open>
  The replayer (\<open>riscv_transpiler/src/replayer\<close>): it runs the program again from a recorded
  log instead of the memory, and writes one row per cycle to a tracer. Here are the two memories
  that answer from a log, the register accesses that also return the previous timestamp, and
  the handlers of the instructions; \<open>ReplayDelegations\<close> has the delegations and
  \<open>ReplayStep\<close> the loop.
\<close>

section \<open>Memories that answer from a log\<close>

text \<open>
  \<open>ReplayerRam\<close>: the slices of the log still to be read. Every access, a read or a write, takes
  the next entry; a slice that becomes empty is dropped.
\<close>

definition log_timestamp :: "u32 \<times> u32 \<Rightarrow> u64" where
  "log_timestamp p = (case p of (low, high) \<Rightarrow> ucast low OR push_bit 32 (ucast high))"

definition next_slices :: "'a list \<Rightarrow> 'a list list \<Rightarrow> 'a list list" where
  "next_slices next_items rest = (if 0 < length next_items then next_items # rest else rest)"

definition ReplayerRam_peek_word :: "cfg \<Rightarrow> u32 \<Rightarrow> log_entry list list \<Rightarrow> u32 res" where
  "ReplayerRam_peek_word c address ram_log =
     debug_assert (debug_assertions c) (address mod 4 = 0)
     (debug_assert (debug_assertions c) (0 < length ram_log)
      (case ram_log of
         ((v, _) # _) # _ \<Rightarrow> Inr v
       | _ \<Rightarrow> Inl UndefinedBehaviour))"

definition ReplayerRam_access ::
  "cfg \<Rightarrow> u32 \<Rightarrow> u64 \<Rightarrow> log_entry list list \<Rightarrow> ((u64 \<times> u32) \<times> log_entry list list) res" where
  "ReplayerRam_access c address ts ram_log =
     debug_assert (debug_assertions c) (address mod 4 = 0)
     (debug_assert (debug_assertions c) (0 < length ram_log)
      (case ram_log of
         ((v, halves) # next_items) # rest \<Rightarrow>
           (let ram_log = next_slices next_items rest; read_timestamp = log_timestamp halves in
            debug_assert (debug_assertions c) (read_timestamp < ts) (Inr ((read_timestamp, v), ram_log)))
       | _ \<Rightarrow> Inl UndefinedBehaviour))"

definition ReplayerRam_skip_if_replaying :: "cfg \<Rightarrow> nat \<Rightarrow> log_entry list list \<Rightarrow> log_entry list list res" where
  "ReplayerRam_skip_if_replaying c num_snapshots ram_log =
     (case ram_log of
        [] \<Rightarrow> Inl UndefinedBehaviour
      | src # rest \<Rightarrow>
          debug_assert (debug_assertions c) (num_snapshots \<le> length src)
          (guardR (num_snapshots \<le> length src) UndefinedBehaviour
            (Inr (next_slices (drop num_snapshots src) rest))))"

definition mask_rom :: "cfg \<Rightarrow> nat \<Rightarrow> u32 \<Rightarrow> u32 \<Rightarrow> (u32 \<times> u32) res" where
  "mask_rom c rom_end address v =
     debug_assert (debug_assertions c) (address mod 4 = 0)
       (Inr (address, if unat address < rom_end then 0 else v))"

definition ReplayerRam_ops :: "cfg \<Rightarrow> log_entry list list ram_ops" where
  "ReplayerRam_ops c =
     \<lparr> replay_stub = True,
       peek_word = ReplayerRam_peek_word c,
       read_word = ReplayerRam_access c,
       mask_read_for_witness = (\<lambda>address v m. mask_rom c (2 ^ (16 + rom_bits c)) address v),
       write_word = (\<lambda>address word. ReplayerRam_access c address),
       skip_if_replaying = ReplayerRam_skip_if_replaying c \<rparr>"

text \<open>\<open>ReplayerMemChunks\<close> (\<open>jit/structs.rs\<close>): the same over pairs of a slice of values and one of timestamps.\<close>

definition ReplayerMemChunks_peek_word :: "cfg \<Rightarrow> u32 \<Rightarrow> (u32 list \<times> u64 list) list \<Rightarrow> u32 res" where
  "ReplayerMemChunks_peek_word c address chunks =
     debug_assert (debug_assertions c) (address mod 4 = 0)
     (debug_assert (debug_assertions c) (0 < length chunks)
      (case chunks of
         (v # _, _) # _ \<Rightarrow> Inr v
       | _ \<Rightarrow> Inl UndefinedBehaviour))"

definition next_chunks :: "u32 list \<Rightarrow> u64 list \<Rightarrow> (u32 list \<times> u64 list) list \<Rightarrow> (u32 list \<times> u64 list) list" where
  "next_chunks next_values next_timestamps rest =
     (if 0 < length next_values then (next_values, next_timestamps) # rest else rest)"

definition ReplayerMemChunks_access ::
  "cfg \<Rightarrow> u32 \<Rightarrow> u64 \<Rightarrow> (u32 list \<times> u64 list) list \<Rightarrow> ((u64 \<times> u32) \<times> (u32 list \<times> u64 list) list) res" where
  "ReplayerMemChunks_access c address ts chunks =
     debug_assert (debug_assertions c) (address mod 4 = 0)
     (debug_assert (debug_assertions c) (0 < length chunks)
      (case chunks of
         (v # next_values, read_timestamp # next_timestamps) # rest \<Rightarrow>
           debug_assert (debug_assertions c) (read_timestamp < ts)
             (Inr ((read_timestamp, v), next_chunks next_values next_timestamps rest))
       | _ \<Rightarrow> Inl UndefinedBehaviour))"

definition ReplayerMemChunks_skip_if_replaying ::
  "cfg \<Rightarrow> nat \<Rightarrow> (u32 list \<times> u64 list) list \<Rightarrow> (u32 list \<times> u64 list) list res" where
  "ReplayerMemChunks_skip_if_replaying c num_snapshots chunks =
     (case chunks of
        [] \<Rightarrow> Inl UndefinedBehaviour
      | (values, timestamps) # rest \<Rightarrow>
          debug_assert (debug_assertions c) (num_snapshots \<le> length values)
          (debug_assert (debug_assertions c) (num_snapshots \<le> length timestamps)
          (guardR (num_snapshots \<le> length values \<and> num_snapshots \<le> length timestamps) UndefinedBehaviour
            (Inr (next_chunks (drop num_snapshots values) (drop num_snapshots timestamps) rest)))))"

definition ReplayerMemChunks_ops :: "cfg \<Rightarrow> (u32 list \<times> u64 list) list ram_ops" where
  "ReplayerMemChunks_ops c =
     \<lparr> replay_stub = True,
       peek_word = ReplayerMemChunks_peek_word c,
       read_word = ReplayerMemChunks_access c,
       mask_read_for_witness = (\<lambda>address v m. mask_rom c ROM_BYTE_SIZE address v),
       write_word = (\<lambda>address word. ReplayerMemChunks_access c address),
       skip_if_replaying = ReplayerMemChunks_skip_if_replaying c \<rparr>"

section \<open>Registers\<close>

definition read_register_with_ts :: "cfg \<Rightarrow> u64 \<Rightarrow> u8 \<Rightarrow> 'c state \<Rightarrow> (u32 \<times> u64 \<times> 'c state) res" where
  "read_register_with_ts c offset reg_idx s =
     (let i = unat reg_idx; existing_value = reg_value (registers s i); ts = reg_timestamp (registers s i) in
      register_access c offset i s
        (Inr (existing_value, ts, set_register i (timestamp s OR offset) existing_value s)))"

definition touch_x0_with_ts :: "cfg \<Rightarrow> u64 \<Rightarrow> 'c state \<Rightarrow> (u64 \<times> 'c state) res" where
  "touch_x0_with_ts c offset s =
     (let ts = reg_timestamp (registers s 0) in
      register_access c offset 0 s
        (Inr (ts, set_register 0 (timestamp s OR offset) (reg_value (registers s 0)) s)))"

text \<open>The value stored (zero for \<open>x0\<close>), the one it replaces and the previous timestamp.\<close>

definition write_register_with_ts ::
  "cfg \<Rightarrow> u64 \<Rightarrow> u8 \<Rightarrow> u32 \<Rightarrow> 'c state \<Rightarrow> (u32 \<times> u32 \<times> u64 \<times> 'c state) res" where
  "write_register_with_ts c offset reg_idx v s =
     (let v = (if reg_idx = 0 then 0 else v); i = unat reg_idx;
          existing_value = reg_value (registers s i); ts = reg_timestamp (registers s i) in
      register_access c offset i s
        (Inr (v, existing_value, ts, set_register i (timestamp s OR offset) v s)))"

section \<open>Rows\<close>

text \<open>
  The row of an instruction on registers: \<open>(value, timestamp)\<close> of the two reads, \<open>(old value,
  value, timestamp)\<close> of the write, the new program counter and the delegation type.
\<close>

definition register_row ::
  "'c state \<Rightarrow> u32 \<times> u64 \<Rightarrow> u32 \<times> u64 \<Rightarrow> u32 \<times> u32 \<times> u64 \<Rightarrow> u32 \<Rightarrow> u16 \<Rightarrow>
   NonMemoryOpcodeTracingDataWithTimestamp" where
  "register_row s a b d new_pc delegation =
     \<lparr> n_opcode_data =
         \<lparr> n_initial_pc = pc s, n_rs1_value = fst a, n_rs2_value = fst b,
           n_rd_old_value = fst d, n_rd_value = fst (snd d), n_new_pc = new_pc,
           n_delegation_type = delegation \<rparr>,
       n_rs1_read_timestamp = from_scalar (snd a),
       n_rs2_read_timestamp = from_scalar (snd b),
       n_rd_read_timestamp = from_scalar (snd (snd d)),
       n_cycle_timestamp = from_scalar (timestamp s) \<rparr>"

definition trace_non_memory ::
  "'t tracer_ops \<Rightarrow> nat \<Rightarrow> NonMemoryOpcodeTracingDataWithTimestamp \<Rightarrow> 't \<Rightarrow> 't res" where
  "trace_non_memory T family row t =
     (if needs_tracing_data_for_circuit_family T family t
      then write_non_memory_family_data T family row t else Inr t)"

definition trace_memory ::
  "'t tracer_ops \<Rightarrow> nat \<Rightarrow> MemoryOpcodeTracingDataWithTimestamp res \<Rightarrow> 't \<Rightarrow> 't res" where
  "trace_memory T family row t =
     (if needs_tracing_data_for_circuit_family T family t
      then bindR row (\<lambda>row. write_memory_family_data T family row t) else Inr t)"

section \<open>Handlers on registers\<close>

text \<open>
  The block \<open>if USE_IMM\<close>: the value and timestamp for the row, and the operand.
\<close>

definition replay_second_operand ::
  "cfg \<Rightarrow> bool \<Rightarrow> instruction \<Rightarrow> 'c state \<Rightarrow> (u32 \<times> u64 \<times> u32 \<times> 'c state) res" where
  "replay_second_operand c use_imm instr s =
     (if use_imm then bindR (touch_x0_with_ts c 1 s) (\<lambda>(ts, s). Inr (0, ts, imm instr, s))
      else bindR (read_register_with_ts c 1 (rs2 instr) s) (\<lambda>(v, ts, s). Inr (v, ts, v, s)))"

definition replay_add_op ::
  "cfg \<Rightarrow> 't tracer_ops \<Rightarrow> bool \<Rightarrow> instruction \<Rightarrow> 'c state \<Rightarrow> 't \<Rightarrow> ('c state \<times> 't) res" where
  "replay_add_op c T use_imm instr s t =
     bindR (read_register_with_ts c 0 (rs1 instr) s) (\<lambda>(rs1_value, rs1_ts, s).
     bindR (replay_second_operand c use_imm instr s) (\<lambda>(rs2_value, rs2_ts, rs2_value_to_use, s).
     let v = (rs1_value + rs2_value_to_use) in
     bindR (write_register_with_ts c 2 (rd instr) v s) (\<lambda>(v, rd_old_value, rd_ts, s).
     bindR (trace_non_memory T ADD_SUB_LUI_AUIPC_MOP_CIRCUIT_FAMILY_IDX
              (register_row s (rs1_value, rs1_ts) (rs2_value, rs2_ts) (rd_old_value, v, rd_ts) (pc s + 4) 0) t)
       (\<lambda>t. Inr (default_increase_pc s, t)))))"

definition replay_and_op ::
  "cfg \<Rightarrow> 't tracer_ops \<Rightarrow> bool \<Rightarrow> instruction \<Rightarrow> 'c state \<Rightarrow> 't \<Rightarrow> ('c state \<times> 't) res" where
  "replay_and_op c T use_imm instr s t =
     bindR (read_register_with_ts c 0 (rs1 instr) s) (\<lambda>(rs1_value, rs1_ts, s).
     bindR (replay_second_operand c use_imm instr s) (\<lambda>(rs2_value, rs2_ts, rs2_value_to_use, s).
     let v = (rs1_value AND rs2_value_to_use) in
     bindR (write_register_with_ts c 2 (rd instr) v s) (\<lambda>(v, rd_old_value, rd_ts, s).
     bindR (trace_non_memory T SHIFT_BINARY_CSR_CIRCUIT_FAMILY_IDX
              (register_row s (rs1_value, rs1_ts) (rs2_value, rs2_ts) (rd_old_value, v, rd_ts) (pc s + 4) 0) t)
       (\<lambda>t. Inr (default_increase_pc s, t)))))"

definition replay_or_op ::
  "cfg \<Rightarrow> 't tracer_ops \<Rightarrow> bool \<Rightarrow> instruction \<Rightarrow> 'c state \<Rightarrow> 't \<Rightarrow> ('c state \<times> 't) res" where
  "replay_or_op c T use_imm instr s t =
     bindR (read_register_with_ts c 0 (rs1 instr) s) (\<lambda>(rs1_value, rs1_ts, s).
     bindR (replay_second_operand c use_imm instr s) (\<lambda>(rs2_value, rs2_ts, rs2_value_to_use, s).
     let v = (rs1_value OR rs2_value_to_use) in
     bindR (write_register_with_ts c 2 (rd instr) v s) (\<lambda>(v, rd_old_value, rd_ts, s).
     bindR (trace_non_memory T SHIFT_BINARY_CSR_CIRCUIT_FAMILY_IDX
              (register_row s (rs1_value, rs1_ts) (rs2_value, rs2_ts) (rd_old_value, v, rd_ts) (pc s + 4) 0) t)
       (\<lambda>t. Inr (default_increase_pc s, t)))))"

definition replay_xor_op ::
  "cfg \<Rightarrow> 't tracer_ops \<Rightarrow> bool \<Rightarrow> instruction \<Rightarrow> 'c state \<Rightarrow> 't \<Rightarrow> ('c state \<times> 't) res" where
  "replay_xor_op c T use_imm instr s t =
     bindR (read_register_with_ts c 0 (rs1 instr) s) (\<lambda>(rs1_value, rs1_ts, s).
     bindR (replay_second_operand c use_imm instr s) (\<lambda>(rs2_value, rs2_ts, rs2_value_to_use, s).
     let v = (rs1_value XOR rs2_value_to_use) in
     bindR (write_register_with_ts c 2 (rd instr) v s) (\<lambda>(v, rd_old_value, rd_ts, s).
     bindR (trace_non_memory T SHIFT_BINARY_CSR_CIRCUIT_FAMILY_IDX
              (register_row s (rs1_value, rs1_ts) (rs2_value, rs2_ts) (rd_old_value, v, rd_ts) (pc s + 4) 0) t)
       (\<lambda>t. Inr (default_increase_pc s, t)))))"

definition replay_sll ::
  "cfg \<Rightarrow> 't tracer_ops \<Rightarrow> bool \<Rightarrow> instruction \<Rightarrow> 'c state \<Rightarrow> 't \<Rightarrow> ('c state \<times> 't) res" where
  "replay_sll c T use_imm instr s t =
     bindR (read_register_with_ts c 0 (rs1 instr) s) (\<lambda>(rs1_value, rs1_ts, s).
     bindR (replay_second_operand c use_imm instr s) (\<lambda>(rs2_value, rs2_ts, rs2_value_to_use, s).
     let v = (push_bit (unat rs2_value_to_use mod 32) rs1_value) in
     bindR (write_register_with_ts c 2 (rd instr) v s) (\<lambda>(v, rd_old_value, rd_ts, s).
     bindR (trace_non_memory T SHIFT_BINARY_CSR_CIRCUIT_FAMILY_IDX
              (register_row s (rs1_value, rs1_ts) (rs2_value, rs2_ts) (rd_old_value, v, rd_ts) (pc s + 4) 0) t)
       (\<lambda>t. Inr (default_increase_pc s, t)))))"

definition replay_srl ::
  "cfg \<Rightarrow> 't tracer_ops \<Rightarrow> bool \<Rightarrow> instruction \<Rightarrow> 'c state \<Rightarrow> 't \<Rightarrow> ('c state \<times> 't) res" where
  "replay_srl c T use_imm instr s t =
     bindR (read_register_with_ts c 0 (rs1 instr) s) (\<lambda>(rs1_value, rs1_ts, s).
     bindR (replay_second_operand c use_imm instr s) (\<lambda>(rs2_value, rs2_ts, rs2_value_to_use, s).
     let v = (drop_bit (unat rs2_value_to_use mod 32) rs1_value) in
     bindR (write_register_with_ts c 2 (rd instr) v s) (\<lambda>(v, rd_old_value, rd_ts, s).
     bindR (trace_non_memory T SHIFT_BINARY_CSR_CIRCUIT_FAMILY_IDX
              (register_row s (rs1_value, rs1_ts) (rs2_value, rs2_ts) (rd_old_value, v, rd_ts) (pc s + 4) 0) t)
       (\<lambda>t. Inr (default_increase_pc s, t)))))"

definition replay_sra ::
  "cfg \<Rightarrow> 't tracer_ops \<Rightarrow> bool \<Rightarrow> instruction \<Rightarrow> 'c state \<Rightarrow> 't \<Rightarrow> ('c state \<times> 't) res" where
  "replay_sra c T use_imm instr s t =
     bindR (read_register_with_ts c 0 (rs1 instr) s) (\<lambda>(rs1_value, rs1_ts, s).
     bindR (replay_second_operand c use_imm instr s) (\<lambda>(rs2_value, rs2_ts, rs2_value_to_use, s).
     let v = (signed_drop_bit (unat rs2_value_to_use mod 32) rs1_value) in
     bindR (write_register_with_ts c 2 (rd instr) v s) (\<lambda>(v, rd_old_value, rd_ts, s).
     bindR (trace_non_memory T SHIFT_BINARY_CSR_CIRCUIT_FAMILY_IDX
              (register_row s (rs1_value, rs1_ts) (rs2_value, rs2_ts) (rd_old_value, v, rd_ts) (pc s + 4) 0) t)
       (\<lambda>t. Inr (default_increase_pc s, t)))))"

definition replay_slt ::
  "cfg \<Rightarrow> 't tracer_ops \<Rightarrow> bool \<Rightarrow> instruction \<Rightarrow> 'c state \<Rightarrow> 't \<Rightarrow> ('c state \<times> 't) res" where
  "replay_slt c T use_imm instr s t =
     bindR (read_register_with_ts c 0 (rs1 instr) s) (\<lambda>(rs1_value, rs1_ts, s).
     bindR (replay_second_operand c use_imm instr s) (\<lambda>(rs2_value, rs2_ts, rs2_value_to_use, s).
     let v = (if sint rs1_value < sint rs2_value_to_use then 1 else 0) in
     bindR (write_register_with_ts c 2 (rd instr) v s) (\<lambda>(v, rd_old_value, rd_ts, s).
     bindR (trace_non_memory T JUMP_BRANCH_SLT_CIRCUIT_FAMILY_IDX
              (register_row s (rs1_value, rs1_ts) (rs2_value, rs2_ts) (rd_old_value, v, rd_ts) (pc s + 4) 0) t)
       (\<lambda>t. Inr (default_increase_pc s, t)))))"

definition replay_sltu ::
  "cfg \<Rightarrow> 't tracer_ops \<Rightarrow> bool \<Rightarrow> instruction \<Rightarrow> 'c state \<Rightarrow> 't \<Rightarrow> ('c state \<times> 't) res" where
  "replay_sltu c T use_imm instr s t =
     bindR (read_register_with_ts c 0 (rs1 instr) s) (\<lambda>(rs1_value, rs1_ts, s).
     bindR (replay_second_operand c use_imm instr s) (\<lambda>(rs2_value, rs2_ts, rs2_value_to_use, s).
     let v = (if rs1_value < rs2_value_to_use then 1 else 0) in
     bindR (write_register_with_ts c 2 (rd instr) v s) (\<lambda>(v, rd_old_value, rd_ts, s).
     bindR (trace_non_memory T JUMP_BRANCH_SLT_CIRCUIT_FAMILY_IDX
              (register_row s (rs1_value, rs1_ts) (rs2_value, rs2_ts) (rd_old_value, v, rd_ts) (pc s + 4) 0) t)
       (\<lambda>t. Inr (default_increase_pc s, t)))))"

definition replay_sub_op ::
  "cfg \<Rightarrow> 't tracer_ops \<Rightarrow> instruction \<Rightarrow> 'c state \<Rightarrow> 't \<Rightarrow> ('c state \<times> 't) res" where
  "replay_sub_op c T instr s t =
     bindR (read_register_with_ts c 0 (rs1 instr) s) (\<lambda>(rs1_value, rs1_ts, s).
     bindR (read_register_with_ts c 1 (rs2 instr) s) (\<lambda>(rs2_value, rs2_ts, s).
     let v = (rs1_value - rs2_value) in
     bindR (write_register_with_ts c 2 (rd instr) v s) (\<lambda>(v, rd_old_value, rd_ts, s).
     bindR (trace_non_memory T ADD_SUB_LUI_AUIPC_MOP_CIRCUIT_FAMILY_IDX
              (register_row s (rs1_value, rs1_ts) (rs2_value, rs2_ts) (rd_old_value, v, rd_ts) (pc s + 4) 0) t)
       (\<lambda>t. Inr (default_increase_pc s, t)))))"

definition replay_mul ::
  "cfg \<Rightarrow> 't tracer_ops \<Rightarrow> instruction \<Rightarrow> 'c state \<Rightarrow> 't \<Rightarrow> ('c state \<times> 't) res" where
  "replay_mul c T instr s t =
     bindR (read_register_with_ts c 0 (rs1 instr) s) (\<lambda>(rs1_value, rs1_ts, s).
     bindR (read_register_with_ts c 1 (rs2 instr) s) (\<lambda>(rs2_value, rs2_ts, s).
     let v = (rs1_value * rs2_value) in
     bindR (write_register_with_ts c 2 (rd instr) v s) (\<lambda>(v, rd_old_value, rd_ts, s).
     bindR (trace_non_memory T MUL_DIV_CIRCUIT_FAMILY_IDX
              (register_row s (rs1_value, rs1_ts) (rs2_value, rs2_ts) (rd_old_value, v, rd_ts) (pc s + 4) 0) t)
       (\<lambda>t. Inr (default_increase_pc s, t)))))"

definition replay_mulhu ::
  "cfg \<Rightarrow> 't tracer_ops \<Rightarrow> instruction \<Rightarrow> 'c state \<Rightarrow> 't \<Rightarrow> ('c state \<times> 't) res" where
  "replay_mulhu c T instr s t =
     bindR (read_register_with_ts c 0 (rs1 instr) s) (\<lambda>(rs1_value, rs1_ts, s).
     bindR (read_register_with_ts c 1 (rs2 instr) s) (\<lambda>(rs2_value, rs2_ts, s).
     let v = (ucast (drop_bit 32 ((ucast rs1_value :: u64) * ucast rs2_value))) in
     bindR (write_register_with_ts c 2 (rd instr) v s) (\<lambda>(v, rd_old_value, rd_ts, s).
     bindR (trace_non_memory T MUL_DIV_CIRCUIT_FAMILY_IDX
              (register_row s (rs1_value, rs1_ts) (rs2_value, rs2_ts) (rd_old_value, v, rd_ts) (pc s + 4) 0) t)
       (\<lambda>t. Inr (default_increase_pc s, t)))))"

definition replay_divu ::
  "cfg \<Rightarrow> 't tracer_ops \<Rightarrow> instruction \<Rightarrow> 'c state \<Rightarrow> 't \<Rightarrow> ('c state \<times> 't) res" where
  "replay_divu c T instr s t =
     bindR (read_register_with_ts c 0 (rs1 instr) s) (\<lambda>(rs1_value, rs1_ts, s).
     bindR (read_register_with_ts c 1 (rs2 instr) s) (\<lambda>(rs2_value, rs2_ts, s).
     let v = (if rs2_value = 0 then 0xffffffff else rs1_value div rs2_value) in
     bindR (write_register_with_ts c 2 (rd instr) v s) (\<lambda>(v, rd_old_value, rd_ts, s).
     bindR (trace_non_memory T MUL_DIV_CIRCUIT_FAMILY_IDX
              (register_row s (rs1_value, rs1_ts) (rs2_value, rs2_ts) (rd_old_value, v, rd_ts) (pc s + 4) 0) t)
       (\<lambda>t. Inr (default_increase_pc s, t)))))"

definition replay_remu ::
  "cfg \<Rightarrow> 't tracer_ops \<Rightarrow> instruction \<Rightarrow> 'c state \<Rightarrow> 't \<Rightarrow> ('c state \<times> 't) res" where
  "replay_remu c T instr s t =
     bindR (read_register_with_ts c 0 (rs1 instr) s) (\<lambda>(rs1_value, rs1_ts, s).
     bindR (read_register_with_ts c 1 (rs2 instr) s) (\<lambda>(rs2_value, rs2_ts, s).
     let v = (if rs2_value = 0 then rs1_value else rs1_value mod rs2_value) in
     bindR (write_register_with_ts c 2 (rd instr) v s) (\<lambda>(v, rd_old_value, rd_ts, s).
     bindR (trace_non_memory T MUL_DIV_CIRCUIT_FAMILY_IDX
              (register_row s (rs1_value, rs1_ts) (rs2_value, rs2_ts) (rd_old_value, v, rd_ts) (pc s + 4) 0) t)
       (\<lambda>t. Inr (default_increase_pc s, t)))))"

definition replay_mop_addmod ::
  "cfg \<Rightarrow> 't tracer_ops \<Rightarrow> instruction \<Rightarrow> 'c state \<Rightarrow> 't \<Rightarrow> ('c state \<times> 't) res" where
  "replay_mop_addmod c T instr s t =
     bindR (read_register_with_ts c 0 (rs1 instr) s) (\<lambda>(rs1_value, rs1_ts, s).
     bindR (read_register_with_ts c 1 (rs2 instr) s) (\<lambda>(rs2_value, rs2_ts, s).
     bindR (from_nonreduced_u32 c rs1_value) (\<lambda>operand_1.
     bindR (from_nonreduced_u32 c rs2_value) (\<lambda>operand_2.
     let v = to_reduced_u32 (add_mod operand_1 operand_2) in
     bindR (write_register_with_ts c 2 (rd instr) v s) (\<lambda>(v, rd_old_value, rd_ts, s).
     bindR (trace_non_memory T ADD_SUB_LUI_AUIPC_MOP_CIRCUIT_FAMILY_IDX
              (register_row s (rs1_value, rs1_ts) (rs2_value, rs2_ts) (rd_old_value, v, rd_ts) (pc s + 4) 0) t)
       (\<lambda>t. Inr (default_increase_pc s, t)))))))"

definition replay_mop_submod ::
  "cfg \<Rightarrow> 't tracer_ops \<Rightarrow> instruction \<Rightarrow> 'c state \<Rightarrow> 't \<Rightarrow> ('c state \<times> 't) res" where
  "replay_mop_submod c T instr s t =
     bindR (read_register_with_ts c 0 (rs1 instr) s) (\<lambda>(rs1_value, rs1_ts, s).
     bindR (read_register_with_ts c 1 (rs2 instr) s) (\<lambda>(rs2_value, rs2_ts, s).
     bindR (from_nonreduced_u32 c rs1_value) (\<lambda>operand_1.
     bindR (from_nonreduced_u32 c rs2_value) (\<lambda>operand_2.
     let v = to_reduced_u32 (sub_mod operand_1 operand_2) in
     bindR (write_register_with_ts c 2 (rd instr) v s) (\<lambda>(v, rd_old_value, rd_ts, s).
     bindR (trace_non_memory T ADD_SUB_LUI_AUIPC_MOP_CIRCUIT_FAMILY_IDX
              (register_row s (rs1_value, rs1_ts) (rs2_value, rs2_ts) (rd_old_value, v, rd_ts) (pc s + 4) 0) t)
       (\<lambda>t. Inr (default_increase_pc s, t)))))))"

definition replay_mop_mulmod ::
  "cfg \<Rightarrow> 't tracer_ops \<Rightarrow> instruction \<Rightarrow> 'c state \<Rightarrow> 't \<Rightarrow> ('c state \<times> 't) res" where
  "replay_mop_mulmod c T instr s t =
     bindR (read_register_with_ts c 0 (rs1 instr) s) (\<lambda>(rs1_value, rs1_ts, s).
     bindR (read_register_with_ts c 1 (rs2 instr) s) (\<lambda>(rs2_value, rs2_ts, s).
     bindR (from_nonreduced_u32 c rs1_value) (\<lambda>operand_1.
     bindR (from_nonreduced_u32 c rs2_value) (\<lambda>operand_2.
     let v = to_reduced_u32 (mul_mod operand_1 operand_2) in
     bindR (write_register_with_ts c 2 (rd instr) v s) (\<lambda>(v, rd_old_value, rd_ts, s).
     bindR (trace_non_memory T ADD_SUB_LUI_AUIPC_MOP_CIRCUIT_FAMILY_IDX
              (register_row s (rs1_value, rs1_ts) (rs2_value, rs2_ts) (rd_old_value, v, rd_ts) (pc s + 4) 0) t)
       (\<lambda>t. Inr (default_increase_pc s, t)))))))"

definition replay_lui ::
  "cfg \<Rightarrow> 't tracer_ops \<Rightarrow> instruction \<Rightarrow> 'c state \<Rightarrow> 't \<Rightarrow> ('c state \<times> 't) res" where
  "replay_lui c T instr s t =
     debug_assert (debug_assertions c) (rs1 instr = 0)
     (debug_assert (debug_assertions c) (rs2 instr = 0)
     (bindR (touch_x0_with_ts c 0 s) (\<lambda>(rs1_ts, s).
      bindR (touch_x0_with_ts c 1 s) (\<lambda>(rs2_ts, s).
      let v = imm instr in
      bindR (write_register_with_ts c 2 (rd instr) v s) (\<lambda>(v, rd_old_value, rd_ts, s).
      bindR (trace_non_memory T ADD_SUB_LUI_AUIPC_MOP_CIRCUIT_FAMILY_IDX
               (register_row s (0, rs1_ts) (0, rs2_ts) (rd_old_value, v, rd_ts) (pc s + 4) 0) t)
        (\<lambda>t. Inr (default_increase_pc s, t)))))))"

definition replay_auipc ::
  "cfg \<Rightarrow> 't tracer_ops \<Rightarrow> instruction \<Rightarrow> 'c state \<Rightarrow> 't \<Rightarrow> ('c state \<times> 't) res" where
  "replay_auipc c T instr s t =
     debug_assert (debug_assertions c) (rs1 instr = 0)
     (debug_assert (debug_assertions c) (rs2 instr = 0)
     (bindR (touch_x0_with_ts c 0 s) (\<lambda>(rs1_ts, s).
      bindR (touch_x0_with_ts c 1 s) (\<lambda>(rs2_ts, s).
      let v = pc s + imm instr in
      bindR (write_register_with_ts c 2 (rd instr) v s) (\<lambda>(v, rd_old_value, rd_ts, s).
      bindR (trace_non_memory T ADD_SUB_LUI_AUIPC_MOP_CIRCUIT_FAMILY_IDX
               (register_row s (0, rs1_ts) (0, rs2_ts) (rd_old_value, v, rd_ts) (pc s + 4) 0) t)
        (\<lambda>t. Inr (default_increase_pc s, t)))))))"

definition replay_jal ::
  "cfg \<Rightarrow> 't tracer_ops \<Rightarrow> instruction \<Rightarrow> 'c state \<Rightarrow> 't \<Rightarrow> ('c state \<times> 't) res" where
  "replay_jal c T instr s t =
     bindR (touch_x0_with_ts c 0 s) (\<lambda>(rs1_ts, s).
     bindR (touch_x0_with_ts c 1 s) (\<lambda>(rs2_ts, s).
     let v = pc s + 4 in
     bindR (write_register_with_ts c 2 (rd instr) v s) (\<lambda>(v, rd_old_value, rd_ts, s).
     let jump_address = pc s + imm instr in
     bindR (trace_non_memory T JUMP_BRANCH_SLT_CIRCUIT_FAMILY_IDX
              (register_row s (0, rs1_ts) (0, rs2_ts) (rd_old_value, v, rd_ts) jump_address 0) t)
       (\<lambda>t. Inr (s \<lparr> pc := jump_address \<rparr>, t)))))"

definition replay_jalr ::
  "cfg \<Rightarrow> 't tracer_ops \<Rightarrow> instruction \<Rightarrow> 'c state \<Rightarrow> 't \<Rightarrow> ('c state \<times> 't) res" where
  "replay_jalr c T instr s t =
     bindR (read_register_with_ts c 0 (rs1 instr) s) (\<lambda>(rs1_value, rs1_ts, s).
     bindR (touch_x0_with_ts c 1 s) (\<lambda>(rs2_ts, s).
     let v = pc s + 4 in
     bindR (write_register_with_ts c 2 (rd instr) v s) (\<lambda>(v, rd_old_value, rd_ts, s).
     let jump_address = (rs1_value + imm instr) AND NOT 0x1 in
     bindR (trace_non_memory T JUMP_BRANCH_SLT_CIRCUIT_FAMILY_IDX
              (register_row s (rs1_value, rs1_ts) (0, rs2_ts) (rd_old_value, v, rd_ts) jump_address 0) t)
       (\<lambda>t. Inr (s \<lparr> pc := jump_address \<rparr>, t)))))"

definition replay_branch ::
  "cfg \<Rightarrow> 't tracer_ops \<Rightarrow> instruction \<Rightarrow> 'c state \<Rightarrow> 't \<Rightarrow> ('c state \<times> 't) res" where
  "replay_branch c T instr s t =
     bindR (read_register_with_ts c 0 (rs1 instr) s) (\<lambda>(rs1_value, rs1_ts, s).
     bindR (read_register_with_ts c 1 (rs2 instr) s) (\<lambda>(rs2_value, rs2_ts, s).
     bindR (write_register_with_ts c 2 0 0 s) (\<lambda>(_, rd_old_value, rd_ts, s).
     let jump_address = pc s + imm instr in
     bindR (branch_condition (rd instr) rs1_value rs2_value) (\<lambda>should_jump.
     let jump_address = (if should_jump then jump_address else pc s + 4) in
     bindR (trace_non_memory T JUMP_BRANCH_SLT_CIRCUIT_FAMILY_IDX
              (register_row s (rs1_value, rs1_ts) (rs2_value, rs2_ts) (rd_old_value, 0, rd_ts) jump_address 0) t)
       (\<lambda>t. Inr (s \<lparr> pc := jump_address \<rparr>, t))))))"

section \<open>Handlers on memory\<close>

text \<open>The parameters of a replay, and the mutable references it has.\<close>

record ('m, 't, 'n) replay_env =
  rp_cfg :: cfg
  rp_ram :: "'m ram_ops"
  rp_tracer :: "'t tracer_ops"
  rp_nd :: "'n nd_ops"
  rp_ruint :: ruint_ops

record ('c, 'm, 't, 'n) replay_world =
  r_st :: "'c state"
  r_ram :: 'm
  r_tracer :: 't
  r_nd :: 'n

text \<open>
  The rows of a store and of a load; a load from the ROM is recorded with the masked value.
\<close>

definition store_row ::
  "'c state \<Rightarrow> u32 \<times> u64 \<Rightarrow> u32 \<times> u64 \<Rightarrow> u32 \<Rightarrow> u32 \<times> u32 \<times> u64 \<Rightarrow> MemoryOpcodeTracingDataWithTimestamp" where
  "store_row s a b address d =
     \<lparr> m_opcode_data = store_as_load
         \<lparr> s_initial_pc = pc s, s_rs1_value = fst a, s_aligned_ram_address = address,
           s_aligned_ram_old_value = fst d, s_rs2_value = fst b, s_aligned_ram_write_value = fst (snd d) \<rparr>,
       discr = MEM_STORE_TRACE_DATA_MARKER,
       m_rs1_read_timestamp = from_scalar (snd a),
       m_rs2_or_ram_read_timestamp = from_scalar (snd b),
       m_rd_or_ram_read_timestamp = from_scalar (snd (snd d)),
       m_cycle_timestamp = from_scalar (timestamp s) \<rparr>"

definition load_row ::
  "('m, 't, 'n) replay_env \<Rightarrow> 'm \<Rightarrow> 'c state \<Rightarrow> u32 \<times> u64 \<Rightarrow> u32 \<Rightarrow> u32 \<times> u64 \<Rightarrow> u32 \<times> u32 \<times> u64 \<Rightarrow>
   MemoryOpcodeTracingDataWithTimestamp res" where
  "load_row E m s a address b d =
     bindR (mask_read_for_witness (rp_ram E) address (fst b) m) (\<lambda>(address_for_witness, ram_value_after_masking).
     Inr \<lparr> m_opcode_data =
         \<lparr> l_initial_pc = pc s, l_rs1_value = fst a, l_aligned_ram_address = address_for_witness,
           l_aligned_ram_read_value = ram_value_after_masking, l_rd_old_value = fst d, l_rd_value = fst (snd d) \<rparr>,
       discr = MEM_LOAD_TRACE_DATA_MARKER,
       m_rs1_read_timestamp = from_scalar (snd a),
       m_rs2_or_ram_read_timestamp = from_scalar (snd b),
       m_rd_or_ram_read_timestamp = from_scalar (snd (snd d)),
       m_cycle_timestamp = from_scalar (timestamp s) \<rparr>)"

definition replay_sw ::
  "('m, 't, 'n) replay_env \<Rightarrow> instruction \<Rightarrow> ('c, 'm, 't, 'n) replay_world \<Rightarrow> ('c, 'm, 't, 'n) replay_world res" where
  "replay_sw E instr w =
     (let c = rp_cfg E in
      bindR (read_register_with_ts c 0 (rs1 instr) (r_st w)) (\<lambda>(rs1_value, rs1_ts, s).
      bindR (read_register_with_ts c 1 (rs2 instr) s) (\<lambda>(rs2_value, rs2_ts, s).
      let address = rs1_value + imm instr in
      debug_assert (debug_assertions c) (address mod 4 = 0)
      (bindR (write_word (rp_ram E) address rs2_value (timestamp s OR 2) (r_ram w))
         (\<lambda>((ram_timestamp, ram_old_value), m).
       bindR (trace_memory (rp_tracer E) LOAD_STORE_WORD_ONLY_CIRCUIT_FAMILY_IDX
                (Inr (store_row s (rs1_value, rs1_ts) (rs2_value, rs2_ts) address
                        (ram_old_value, rs2_value, ram_timestamp))) (r_tracer w)) (\<lambda>t.
       Inr (w \<lparr> r_st := default_increase_pc s, r_ram := m, r_tracer := t \<rparr>)))))))"

definition replay_lw ::
  "('m, 't, 'n) replay_env \<Rightarrow> instruction \<Rightarrow> ('c, 'm, 't, 'n) replay_world \<Rightarrow> ('c, 'm, 't, 'n) replay_world res" where
  "replay_lw E instr w =
     (let c = rp_cfg E in
      bindR (read_register_with_ts c 0 (rs1 instr) (r_st w)) (\<lambda>(rs1_value, rs1_ts, s).
      let address = rs1_value + imm instr in
      debug_assert (debug_assertions c) (address mod 4 = 0)
      (bindR (read_word (rp_ram E) address (timestamp s OR 1) (r_ram w))
         (\<lambda>((ram_timestamp, ram_old_value), m).
       bindR (write_register_with_ts c 2 (rd instr) ram_old_value s) (\<lambda>(v, rd_old_value, rd_ts, s).
       bindR (trace_memory (rp_tracer E) LOAD_STORE_WORD_ONLY_CIRCUIT_FAMILY_IDX
                (load_row E m s (rs1_value, rs1_ts) address (ram_old_value, ram_timestamp)
                   (rd_old_value, v, rd_ts)) (r_tracer w)) (\<lambda>t.
       Inr (w \<lparr> r_st := default_increase_pc s, r_ram := m, r_tracer := t \<rparr>)))))))"

definition replay_sh ::
  "('m, 't, 'n) replay_env \<Rightarrow> instruction \<Rightarrow> ('c, 'm, 't, 'n) replay_world \<Rightarrow> ('c, 'm, 't, 'n) replay_world res" where
  "replay_sh E instr w =
     (let c = rp_cfg E in
      bindR (read_register_with_ts c 0 (rs1 instr) (r_st w)) (\<lambda>(rs1_value, rs1_ts, s).
      bindR (read_register_with_ts c 1 (rs2 instr) s) (\<lambda>(rs2_value, rs2_ts, s).
      let address = rs1_value + imm instr in
      debug_assert (debug_assertions c) (address mod 2 = 0)
      (let aligned_address = address AND NOT 3; v = rs2_value AND 0x0000ffff in
       bindR (peek_word (rp_ram E) aligned_address (r_ram w)) (\<lambda>existing_value.
       bindR (sh_mask address) (\<lambda>mask'.
       let new_value = merge_subword address v existing_value mask' in
       bindR (write_word (rp_ram E) aligned_address new_value (timestamp s OR 2) (r_ram w))
         (\<lambda>((ram_timestamp, ram_old_value), m).
       bindR (trace_memory (rp_tracer E) LOAD_STORE_SUBWORD_ONLY_CIRCUIT_FAMILY_IDX
                (Inr (store_row s (rs1_value, rs1_ts) (rs2_value, rs2_ts) aligned_address
                        (ram_old_value, new_value, ram_timestamp))) (r_tracer w)) (\<lambda>t.
       Inr (w \<lparr> r_st := default_increase_pc s, r_ram := m, r_tracer := t \<rparr>)))))))))"

definition replay_sb ::
  "('m, 't, 'n) replay_env \<Rightarrow> instruction \<Rightarrow> ('c, 'm, 't, 'n) replay_world \<Rightarrow> ('c, 'm, 't, 'n) replay_world res" where
  "replay_sb E instr w =
     (let c = rp_cfg E in
      bindR (read_register_with_ts c 0 (rs1 instr) (r_st w)) (\<lambda>(rs1_value, rs1_ts, s).
      bindR (read_register_with_ts c 1 (rs2 instr) s) (\<lambda>(rs2_value, rs2_ts, s).
      let address = rs1_value + imm instr;
          aligned_address = address AND NOT 3; v = rs2_value AND 0x000000ff in
       bindR (peek_word (rp_ram E) aligned_address (r_ram w)) (\<lambda>existing_value.
       bindR (sb_mask address) (\<lambda>mask'.
       let new_value = merge_subword address v existing_value mask' in
       bindR (write_word (rp_ram E) aligned_address new_value (timestamp s OR 2) (r_ram w))
         (\<lambda>((ram_timestamp, ram_old_value), m).
       bindR (trace_memory (rp_tracer E) LOAD_STORE_SUBWORD_ONLY_CIRCUIT_FAMILY_IDX
                (Inr (store_row s (rs1_value, rs1_ts) (rs2_value, rs2_ts) aligned_address
                        (ram_old_value, new_value, ram_timestamp))) (r_tracer w)) (\<lambda>t.
       Inr (w \<lparr> r_st := default_increase_pc s, r_ram := m, r_tracer := t \<rparr>))))))))"

definition replay_lh ::
  "('m, 't, 'n) replay_env \<Rightarrow> bool \<Rightarrow> instruction \<Rightarrow>
   ('c, 'm, 't, 'n) replay_world \<Rightarrow> ('c, 'm, 't, 'n) replay_world res" where
  "replay_lh E sign instr w =
     (let c = rp_cfg E in
      bindR (read_register_with_ts c 0 (rs1 instr) (r_st w)) (\<lambda>(rs1_value, rs1_ts, s).
      let address = rs1_value + imm instr in
      debug_assert (debug_assertions c) (address mod 2 = 0)
      (let aligned_address = address AND NOT 3 in
       bindR (read_word (rp_ram E) aligned_address (timestamp s OR 1) (r_ram w))
         (\<lambda>((ram_timestamp, ram_old_value), m).
       bindR (write_register_with_ts c 2 (rd instr) (halfword_of sign address ram_old_value) s)
         (\<lambda>(v, rd_old_value, rd_ts, s).
       bindR (trace_memory (rp_tracer E) LOAD_STORE_SUBWORD_ONLY_CIRCUIT_FAMILY_IDX
                (load_row E m s (rs1_value, rs1_ts) aligned_address (ram_old_value, ram_timestamp)
                   (rd_old_value, v, rd_ts)) (r_tracer w)) (\<lambda>t.
       Inr (w \<lparr> r_st := default_increase_pc s, r_ram := m, r_tracer := t \<rparr>)))))))"

definition replay_lb ::
  "('m, 't, 'n) replay_env \<Rightarrow> bool \<Rightarrow> instruction \<Rightarrow>
   ('c, 'm, 't, 'n) replay_world \<Rightarrow> ('c, 'm, 't, 'n) replay_world res" where
  "replay_lb E sign instr w =
     (let c = rp_cfg E in
      bindR (read_register_with_ts c 0 (rs1 instr) (r_st w)) (\<lambda>(rs1_value, rs1_ts, s).
      let address = rs1_value + imm instr; aligned_address = address AND NOT 3 in
       bindR (read_word (rp_ram E) aligned_address (timestamp s OR 1) (r_ram w))
         (\<lambda>((ram_timestamp, ram_old_value), m).
       bindR (write_register_with_ts c 2 (rd instr) (byte_of sign address ram_old_value) s)
         (\<lambda>(v, rd_old_value, rd_ts, s).
       bindR (trace_memory (rp_tracer E) LOAD_STORE_SUBWORD_ONLY_CIRCUIT_FAMILY_IDX
                (load_row E m s (rs1_value, rs1_ts) aligned_address (ram_old_value, ram_timestamp)
                   (rd_old_value, v, rd_ts)) (r_tracer w)) (\<lambda>t.
       Inr (w \<lparr> r_st := default_increase_pc s, r_ram := m, r_tracer := t \<rparr>))))))"

section \<open>Non-determinism\<close>

text \<open>
  A read of the source is answered from the log too, when the memory replays it; such an entry has
  timestamp zero.
\<close>

definition replay_nd_value ::
  "('m, 't, 'n) replay_env \<Rightarrow> 'm \<Rightarrow> 'n \<Rightarrow> (u32 \<times> 'm \<times> 'n) res" where
  "replay_nd_value E m n =
     (if replay_stub (rp_ram E) then
        bindR (read_word (rp_ram E) (word_of_nat ROM_BYTE_SIZE) INITIAL_TIMESTAMP m) (\<lambda>((ts, v), m).
        guardR (ts = 0) AssertFailed (Inr (v, m, n)))
      else bindR (source_read (rp_nd E) n) (\<lambda>(v, n). Inr (v, m, n)))"

definition replay_nd_read ::
  "('m, 't, 'n) replay_env \<Rightarrow> instruction \<Rightarrow> ('c, 'm, 't, 'n) replay_world \<Rightarrow> ('c, 'm, 't, 'n) replay_world res" where
  "replay_nd_read E instr w =
     (let c = rp_cfg E in
      bindR (touch_x0_with_ts c 0 (r_st w)) (\<lambda>(rs1_ts, s).
      bindR (touch_x0_with_ts c 1 s) (\<lambda>(rs2_ts, s).
      bindR (replay_nd_value E (r_ram w) (r_nd w)) (\<lambda>(v, m, n).
      bindR (write_register_with_ts c 2 (rd instr) v s) (\<lambda>(v, rd_old_value, rd_ts, s).
      bindR (trace_non_memory (rp_tracer E) SHIFT_BINARY_CSR_CIRCUIT_FAMILY_IDX
               (register_row s (0, rs1_ts) (0, rs2_ts) (rd_old_value, v, rd_ts) (pc s + 4)
                  (ucast NON_DETERMINISM_CSR)) (r_tracer w)) (\<lambda>t.
      Inr (w \<lparr> r_st := default_increase_pc s, r_ram := m, r_tracer := t, r_nd := n \<rparr>)))))))"

definition replay_nd_write ::
  "cfg \<Rightarrow> 't tracer_ops \<Rightarrow> instruction \<Rightarrow> 'c state \<Rightarrow> 't \<Rightarrow> ('c state \<times> 't) res" where
  "replay_nd_write c T instr s t =
     bindR (read_register_with_ts c 0 (rs1 instr) s) (\<lambda>(rs1_value, rs1_ts, s).
     bindR (touch_x0_with_ts c 1 s) (\<lambda>(rs2_ts, s).
     bindR (touch_x0_with_ts c 2 s) (\<lambda>(rd_ts, s).
     bindR (trace_non_memory T SHIFT_BINARY_CSR_CIRCUIT_FAMILY_IDX
              (register_row s (rs1_value, rs1_ts) (0, rs2_ts) (0, 0, rd_ts) (pc s + 4)
                 (ucast NON_DETERMINISM_CSR)) t) (\<lambda>t.
     Inr (default_increase_pc s, t)))))"

end
