(* ===== verification/ReplayDelegations.thy ===== *)
theory ReplayDelegations
  imports Replay VmDelegations
begin

text \<open>
  The delegations in a replay (\<open>replayer/delegations/*.rs\<close>): the machine's fused batch is
  unfolded again into the calls of the circuits. Depending on what the tracer asks for, a
  delegation writes one row per cycle, one record per call, both, or skips its part of the log.
\<close>

section \<open>Reading a run of words\<close>

fun replay_words :: "('m, 't, 'n) replay_env \<Rightarrow> nat \<Rightarrow> u32 \<Rightarrow> u64 \<Rightarrow> 'm \<Rightarrow> ((u32 \<times> u64) list \<times> 'm) res" where
  "replay_words E 0 addr ts m = Inr ([], m)"
| "replay_words E (Suc n) addr ts m =
     bindR (read_word (rp_ram E) addr ts m) (\<lambda>((read_ts, v), m).
     bindR (checked_add (debug_assertions (rp_cfg E)) addr 4) (\<lambda>addr.
     bindR (replay_words E n addr ts m) (\<lambda>(vs, m). Inr ((v, read_ts) # vs, m))))"

definition read_data :: "u32 \<times> u64 \<Rightarrow> RegisterOrIndirectReadData" where
  "read_data p = \<lparr> i_read_value = fst p, i_timestamp = from_scalar (snd p) \<rparr>"

definition read_write_data :: "u32 \<times> u64 \<Rightarrow> u32 \<Rightarrow> RegisterOrIndirectReadWriteData" where
  "read_write_data p v =
     \<lparr> rw_read_value = fst p, rw_write_value = v, rw_timestamp = from_scalar (snd p) \<rparr>"

section \<open>The rows of the cycles\<close>

text \<open>
  One cycle of a delegation: only \<open>x0\<close> is accessed, three times; its last two reads are the
  accesses of this cycle.
\<close>

definition delegation_cycle ::
  "'t tracer_ops \<Rightarrow> u32 \<Rightarrow> 'c state \<times> 't \<Rightarrow> ('c state \<times> 't) res" where
  "delegation_cycle T csr = (\<lambda>(s, t).
     let next_pc = pc s + 4;
         x0_timestamp = reg_timestamp (registers s 0);
         s = stamp_register 0 (timestamp s OR 2) s;
         traced_data = register_row s (0, x0_timestamp) (0, timestamp s) (0, 0, timestamp s OR 1)
                         next_pc (ucast csr) in
     bindR (write_non_memory_family_data T SHIFT_BINARY_CSR_CIRCUIT_FAMILY_IDX traced_data t)
       (\<lambda>t. Inr (s \<lparr> pc := next_pc \<rparr>, t)))"

text \<open>\<open>n\<close> of them, with a tick of the clock between two.\<close>

definition delegation_cycles ::
  "cfg \<Rightarrow> 't tracer_ops \<Rightarrow> u32 \<Rightarrow> nat \<Rightarrow> 'c state \<times> 't \<Rightarrow> ('c state \<times> 't) res" where
  "delegation_cycles c T csr n = foldR (\<lambda>call_round p.
     bindR (delegation_cycle T csr p) (\<lambda>(s, t).
     if call_round = n - 1 then Inr (s, t)
     else bindR (checked_add (debug_assertions c) (timestamp s) TIMESTAMP_STEP)
            (\<lambda>ts. Inr (s \<lparr> timestamp := ts \<rparr>, t)))) [0..<n]"

text \<open>The same without rows.\<close>

definition skip_cycles :: "cfg \<Rightarrow> nat \<Rightarrow> 'c state \<Rightarrow> 'c state res" where
  "skip_cycles c n s =
     bindR (last_call_timestamp c n (timestamp s)) (\<lambda>ts.
     Inr (stamp_register 0 (ts OR 2) (s \<lparr> timestamp := ts, pc := pc s + word_of_nat (4 * n) \<rparr>)))"

section \<open>256-bit arithmetic\<close>

text \<open>The registers of a call whose record nobody wants: the result is taken from the log.\<close>

definition replay_bigint_skip ::
  "('m, 't, 'n) replay_env \<Rightarrow> 'c state \<Rightarrow> u32 \<Rightarrow> ('c state) res" where
  "replay_bigint_skip E s expected_of =
     (let c = rp_cfg E in
      bindR (read_register_with_ts c 3 10 s) (\<lambda>(_, _, s).
      bindR (read_register_with_ts c 3 11 s) (\<lambda>(_, _, s).
      bindR (write_register_with_ts c 3 12 expected_of s) (\<lambda>(_, _, _, s). Inr s))))"

definition replay_bigint_flag ::
  "('m, 't, 'n) replay_env \<Rightarrow> u64 \<Rightarrow> 'm \<Rightarrow> (u32 \<times> 'm) res" where
  "replay_bigint_flag E write_ts m =
     bindR (read_word (rp_ram E) 0 write_ts m) (\<lambda>((ts, expected_of), m).
     guardR (ts = 0) AssertFailed (Inr (expected_of, m)))"

definition replay_bigint_call ::
  "('m, 't, 'n) replay_env \<Rightarrow> ('c, 'm, 't, 'n) replay_world \<Rightarrow> ('c, 'm, 't, 'n) replay_world res" where
  "replay_bigint_call E w =
     (let c = rp_cfg E; T = rp_tracer E; R = rp_ram E; csr = BIGINT_OPS_WITH_CONTROL_CSR_REGISTER;
          needs_cycle_data = needs_tracing_data_for_circuit_family T SHIFT_BINARY_CSR_CIRCUIT_FAMILY_IDX (r_tracer w);
          needs_delegation_data = needs_tracing_data_for_delegation_type T (ucast csr) (r_tracer w) in
      if \<not> needs_cycle_data \<and> \<not> needs_delegation_data then
        bindR (skip_if_replaying R 16 (r_ram w)) (\<lambda>m.
        bindR (replay_bigint_flag E (timestamp (r_st w) OR 3) m) (\<lambda>(expected_of, m).
        let s = (r_st w) \<lparr> pc := pc (r_st w) + 4 \<rparr>; s = stamp_register 0 (timestamp s OR 2) s in
        bindR (replay_bigint_skip E s expected_of) (\<lambda>s.
        Inr (w \<lparr> r_st := s, r_ram := m \<rparr>))))
      else
        bindR (if needs_cycle_data then delegation_cycle T csr (r_st w, r_tracer w)
               else Inr (stamp_register 0 (timestamp (r_st w) OR 2) ((r_st w) \<lparr> pc := pc (r_st w) + 4 \<rparr>),
                         r_tracer w)) (\<lambda>(s, t).
        if needs_delegation_data then
          (let write_ts = timestamp s OR 3 in
           bindR (read_register_with_ts c 3 10 s) (\<lambda>(x10, x10_ts, s).
           bindR (read_register_with_ts c 3 11 s) (\<lambda>(x11, x11_ts, s).
           let x12 = reg_value (registers s 12) in
           bindR (replay_words E 8 x11 write_ts (r_ram w)) (\<lambda>(b, m).
           bindR (replay_words E 8 x10 write_ts m) (\<lambda>(a, m).
           bindR (replay_bigint_flag E write_ts m) (\<lambda>(expected_of, m).
           bindR (bigint_impl (rp_ruint E) (join_words (map fst a)) (join_words (map fst b)) x12)
             (\<lambda>(result_value, new_x12).
           guardR (expected_of = of_bool new_x12) AssertFailed
           (bindR (write_register_with_ts c 3 12 (of_bool new_x12) s) (\<lambda>(new_x12, _, x12_ts, s).
            let witness =
              \<lparr> write_timestamp = write_ts,
                reg_accesses = [read_write_data (x10, x10_ts) x10, read_write_data (x11, x11_ts) x11,
                                read_write_data (x12, x12_ts) new_x12],
                indirect_reads = map read_data b,
                indirect_writes = map2 read_write_data a (concat (map split_word result_value)),
                variables_offsets = [] \<rparr> in
            bindR (write_delegation T (ucast csr) witness t) (\<lambda>t.
            Inr (w \<lparr> r_st := s, r_ram := m, r_tracer := t \<rparr>)))))))))))
        else
          bindR (skip_if_replaying R 16 (r_ram w)) (\<lambda>m.
          bindR (replay_bigint_flag E (timestamp s OR 3) m) (\<lambda>(expected_of, m).
          bindR (replay_bigint_skip E s expected_of) (\<lambda>s.
          Inr (w \<lparr> r_st := s, r_ram := m, r_tracer := t \<rparr>))))))"

section \<open>Blake2s\<close>

text \<open>
  One round: the record of the call, with the values before and after it. The timestamps of
  the first round are those found in memory, later rounds read what the one before wrote.
\<close>

type_synonym 't blake_loop = "u64 \<times> u32 \<times> (u64 \<times> u64 \<times> u64) \<times> (u32 list \<times> u32 list) \<times> u64 \<times> 't"

definition replay_blake_round ::
  "('m, 't, 'n) replay_env \<Rightarrow> u32 \<Rightarrow> u32 \<Rightarrow> u32 \<Rightarrow> u64 list \<Rightarrow> (u32 \<times> u64) list \<Rightarrow> nat \<Rightarrow>
   't blake_loop \<Rightarrow> 't blake_loop res" where
  "replay_blake_round E x10 x11 x12 state_timestamps input call_round =
     (\<lambda>(current_timestamp, control_flow_reg, (x10_ts, x11_ts, x12_ts), (blake_state, extended_state),
        previous_round_write_ts, t).
      let last_round = (call_round = num_rounds x12 - 1);
          updated_control_flow = control_word (control_bitmask x12)
            (push_bit 1 (permutation_bitmask control_flow_reg) AND round_mask);
          before = blake_state @ extended_state;
          state_ts = (if call_round = 0 then state_timestamps else replicate 24 previous_round_write_ts);
          input_ts = (if call_round = 0 then map snd input else replicate 16 previous_round_write_ts);
          extended_state = (if call_round = 0 then start_extended (mode_compression x12) blake_state extended_state
                            else extended_state);
          (blake_state, extended_state) =
            one_round x12 (map fst input) call_round last_round (blake_state, extended_state);
          witness =
            \<lparr> write_timestamp = current_timestamp OR 3,
              reg_accesses = [read_write_data (x10, x10_ts) x10, read_write_data (x11, x11_ts) x11,
                              read_write_data (control_flow_reg, x12_ts) updated_control_flow],
              indirect_reads = map read_data (zip (map fst input) input_ts),
              indirect_writes = map2 read_write_data (zip before state_ts) (blake_state @ extended_state),
              variables_offsets = [] \<rparr>;
          write_ts = current_timestamp OR 3 in
      bindR (write_delegation (rp_tracer E) (ucast BLAKE2S_DELEGATION_CSR_REGISTER) witness t) (\<lambda>t.
      bindR (checked_add (debug_assertions (rp_cfg E)) current_timestamp TIMESTAMP_STEP) (\<lambda>current_timestamp.
      Inr (current_timestamp, updated_control_flow, (write_ts, write_ts, write_ts),
           (blake_state, extended_state), write_ts, t))))"

text \<open>\<open>artificial_read_timestamp\<close>: just after the last call of the batch.\<close>

definition artificial_read_timestamp :: "cfg \<Rightarrow> nat \<Rightarrow> u64 \<Rightarrow> u64 res" where
  "artificial_read_timestamp c n timestamp_on_entry =
     bindR (last_call_timestamp c n timestamp_on_entry) (\<lambda>last_ts.
     bindR (checked_add (debug_assertions c) last_ts 3) (\<lambda>upper_bound_read_timestamp.
     checked_add (debug_assertions c) upper_bound_read_timestamp 1))"

definition replay_blake_records ::
  "('m, 't, 'n) replay_env \<Rightarrow> u32 \<Rightarrow> u32 \<Rightarrow> u32 \<Rightarrow> u64 \<Rightarrow> 'c state \<Rightarrow> 'm \<times> 't \<Rightarrow> ('m \<times> 't) res" where
  "replay_blake_records E x10 x11 x12 timestamp_on_entry s = (\<lambda>(m, t).
     let c = rp_cfg E; n = num_rounds x12 in
     bindR (artificial_read_timestamp c n timestamp_on_entry) (\<lambda>read_ts.
     bindR (replay_words E 24 x10 read_ts m) (\<lambda>(state_words, m).
     bindR (replay_words E 16 x11 read_ts m) (\<lambda>(input, m).
     let blake_state_full = map fst state_words in
     bindR (foldR (replay_blake_round E x10 x11 x12 (map snd state_words) input) [0..<n]
              (timestamp_on_entry, x12,
               (reg_timestamp (registers s 10), reg_timestamp (registers s 11), reg_timestamp (registers s 12)),
               (take BLAKE2S_STATE_WIDTH_IN_U32_WORDS blake_state_full,
                drop BLAKE2S_STATE_WIDTH_IN_U32_WORDS blake_state_full), 0, t))
       (\<lambda>(current_timestamp, _, _, _, _, t).
     bindR (checked_sub (debug_assertions c) current_timestamp TIMESTAMP_STEP) (\<lambda>last_ts.
     guardR (last_ts = timestamp s) AssertFailed (Inr (m, t))))))))"

text \<open>The registers after the batch.\<close>

definition replay_blake_registers :: "u32 \<Rightarrow> 'c state \<Rightarrow> 'c state" where
  "replay_blake_registers x12 s =
     (let ts = timestamp s OR 3 in
      set_register 12 ts (final_x12 x12) (stamp_register 11 ts (stamp_register 10 ts s)))"

definition replay_blake2_round_function_call ::
  "('m, 't, 'n) replay_env \<Rightarrow> ('c, 'm, 't, 'n) replay_world \<Rightarrow> ('c, 'm, 't, 'n) replay_world res" where
  "replay_blake2_round_function_call E w =
     (let c = rp_cfg E; T = rp_tracer E; R = rp_ram E; csr = BLAKE2S_DELEGATION_CSR_REGISTER; s = r_st w;
          needs_cycle_data = needs_tracing_data_for_circuit_family T SHIFT_BINARY_CSR_CIRCUIT_FAMILY_IDX (r_tracer w);
          needs_delegation_data = needs_tracing_data_for_delegation_type T (ucast csr) (r_tracer w);
          x10 = reg_value (registers s 10);
          x11 = reg_value (registers s 11);
          x12 = reg_value (registers s 12) in
      guardR (in_ram x10) AssertFailed
      (guardR (in_ram x11) AssertFailed
      (guardR (x10 \<noteq> x11) AssertFailed
      (guardR (x10 mod 128 = 0) AssertFailed
      (guardR (x11 mod 64 = 0) AssertFailed
      (guardR (count_ones (permutation_bitmask x12) = 1) AssertFailed
      (guardR (trailing_zeros (permutation_bitmask x12) = 0) AssertFailed
      (let n = num_rounds x12 in
       if \<not> needs_cycle_data \<and> \<not> needs_delegation_data then
         bindR (skip_if_replaying R (24 + 16) (r_ram w)) (\<lambda>m.
         bindR (skip_cycles c n s) (\<lambda>s.
         Inr (w \<lparr> r_st := replay_blake_registers x12 s, r_ram := m \<rparr>)))
       else
         bindR (if needs_cycle_data then delegation_cycles c T csr n (s, r_tracer w)
                else bindR (skip_cycles c n s) (\<lambda>s. Inr (s, r_tracer w))) (\<lambda>(s, t).
         bindR (if needs_delegation_data
                then replay_blake_records E x10 x11 x12 (timestamp (r_st w)) s (r_ram w, t)
                else bindR (skip_if_replaying R (24 + 16) (r_ram w)) (\<lambda>m. Inr (m, t))) (\<lambda>(m, t).
         Inr (w \<lparr> r_st := replay_blake_registers x12 s, r_ram := m, r_tracer := t \<rparr>)))))))))))"

section \<open>Keccak\<close>

text \<open>One call: the record of the six words it reads and writes, each as two halves.\<close>

type_synonym 't keccak_loop = "u64 \<times> u32 \<times> (u64 \<times> u64) \<times> u64 list \<times> u64 list \<times> 't"

definition replay_keccak_round ::
  "('m, 't, 'n) replay_env \<Rightarrow> u32 \<Rightarrow> nat \<Rightarrow> 't keccak_loop \<Rightarrow> 't keccak_loop res" where
  "replay_keccak_round E x11 call_round =
     (\<lambda>(current_timestamp, control_flow_reg, (x10_ts, x11_ts), local_state, local_state_timestamps, t).
      let c = rp_cfg E; write_ts = current_timestamp OR 3 in
      bindR (keccak_decode_control c control_flow_reg) (\<lambda>(precompile, iteration, round).
      bindR (keccak_bump_control precompile iteration round) (\<lambda>next_control_reg.
      bindR (keccak_extract_indices precompile iteration round) (\<lambda>state_indexes.
      let state_inputs = map (\<lambda>i. local_state ! i) state_indexes;
          read_timestamps = concat (map (\<lambda>i. [local_state_timestamps ! (2 * i), local_state_timestamps ! (2 * i + 1)])
                                      (take 6 state_indexes)) in
      bindR (keccak_compute_outputs precompile iteration round state_inputs) (\<lambda>state_outputs.
      let local_state = write_indices state_indexes state_outputs local_state;
          local_state_timestamps = foldl (\<lambda>l i. l[2 * i := write_ts, 2 * i + 1 := write_ts])
            local_state_timestamps (take 6 state_indexes);
          halves = (\<lambda>vs. concat (map split_word (take 6 vs)));
          witness =
            \<lparr> write_timestamp = write_ts,
              reg_accesses = [read_write_data (control_flow_reg, x10_ts) next_control_reg,
                              read_write_data (x11, x11_ts) x11],
              indirect_reads = [],
              indirect_writes = map2 read_write_data (zip (halves state_inputs) read_timestamps) (halves state_outputs),
              variables_offsets = map word_of_nat (take 6 state_indexes) \<rparr> in
      bindR (write_delegation (rp_tracer E) (ucast KECCAK_SPECIAL5_CSR_REGISTER) witness t) (\<lambda>t.
      bindR (checked_add (debug_assertions c) current_timestamp TIMESTAMP_STEP) (\<lambda>current_timestamp.
      Inr (current_timestamp, next_control_reg, (write_ts, write_ts), local_state, local_state_timestamps, t))))))))"

definition replay_keccak_records ::
  "('m, 't, 'n) replay_env \<Rightarrow> u32 \<Rightarrow> u32 \<Rightarrow> u64 \<Rightarrow> 'c state \<Rightarrow> 'm \<times> 't \<Rightarrow> ('m \<times> 't) res" where
  "replay_keccak_records E x10 x11 timestamp_on_entry s = (\<lambda>(m, t).
     let c = rp_cfg E; n = NUM_DELEGATION_CALLS_FOR_KECCAK_F1600 in
     bindR (artificial_read_timestamp c n timestamp_on_entry) (\<lambda>read_ts.
     bindR (replay_words E 62 x11 read_ts m) (\<lambda>(state_words, m).
     bindR (foldR (replay_keccak_round E x11) [0..<n]
              (timestamp_on_entry, x10, (reg_timestamp (registers s 10), reg_timestamp (registers s 11)),
               join_words (map fst state_words), map snd state_words, t))
       (\<lambda>(current_timestamp, _, _, _, _, t).
     bindR (checked_sub (debug_assertions c) current_timestamp TIMESTAMP_STEP) (\<lambda>last_ts.
     guardR (last_ts = timestamp s) AssertFailed (Inr (m, t)))))))"

definition replay_keccak_registers :: "'c state \<Rightarrow> 'c state" where
  "replay_keccak_registers s =
     (let ts = timestamp s OR 3 in
      stamp_register 11 ts (set_register 10 ts FINAL_KECCAK_F1600_CONTROL_VALUE s))"

definition replay_keccak_special5_call ::
  "('m, 't, 'n) replay_env \<Rightarrow> ('c, 'm, 't, 'n) replay_world \<Rightarrow> ('c, 'm, 't, 'n) replay_world res" where
  "replay_keccak_special5_call E w =
     (let c = rp_cfg E; T = rp_tracer E; R = rp_ram E; csr = KECCAK_SPECIAL5_CSR_REGISTER; s = r_st w;
          n = NUM_DELEGATION_CALLS_FOR_KECCAK_F1600;
          needs_cycle_data = needs_tracing_data_for_circuit_family T SHIFT_BINARY_CSR_CIRCUIT_FAMILY_IDX (r_tracer w);
          needs_delegation_data = needs_tracing_data_for_delegation_type T (ucast csr) (r_tracer w);
          x10 = reg_value (registers s 10);
          x11 = reg_value (registers s 11) in
      debug_assert (debug_assertions c) (timestamp s mod 4 = 0)
      (guardR (in_ram x11) AssertFailed
      (guardR (x10 < push_bit 11 1) AssertFailed
      (guardR (x11 mod 256 = 0) AssertFailed
      (guardR (x10 = INITIAL_KECCAK_F1600_CONTROL_VALUE) AssertFailed
      (if \<not> needs_cycle_data \<and> \<not> needs_delegation_data then
         bindR (skip_if_replaying R (31 * 2) (r_ram w)) (\<lambda>m.
         bindR (skip_cycles c n s) (\<lambda>s.
         Inr (w \<lparr> r_st := replay_keccak_registers s, r_ram := m \<rparr>)))
       else
         bindR (if needs_cycle_data then delegation_cycles c T csr n (s, r_tracer w)
                else bindR (skip_cycles c n s) (\<lambda>s. Inr (s, r_tracer w))) (\<lambda>(s, t).
         bindR (last_call_timestamp c n (timestamp (r_st w))) (\<lambda>last_ts.
         guardR (timestamp s = last_ts) AssertFailed
         (bindR (if needs_delegation_data
                 then replay_keccak_records E x10 x11 (timestamp (r_st w)) s (r_ram w, t)
                 else bindR (skip_if_replaying R (31 * 2) (r_ram w)) (\<lambda>m. Inr (m, t))) (\<lambda>(m, t).
          Inr (w \<lparr> r_st := replay_keccak_registers s, r_ram := m, r_tracer := t \<rparr>)))))))))))"

section \<open>Dispatch\<close>

definition replay_call_delegation ::
  "('m, 't, 'n) replay_env \<Rightarrow> instruction \<Rightarrow> ('c, 'm, 't, 'n) replay_world \<Rightarrow> ('c, 'm, 't, 'n) replay_world res" where
  "replay_call_delegation E instr w =
     (let dbg = debug_assertions (rp_cfg E) in
      debug_assert dbg (rs1 instr = 0)
      (debug_assert dbg (rs2 instr = 0)
      (debug_assert dbg (rd instr = 0)
      (if imm instr = delegation_type_as_u32 BigInt then replay_bigint_call E w
       else if imm instr = delegation_type_as_u32 Blake then replay_blake2_round_function_call E w
       else if imm instr = delegation_type_as_u32 Keccak then replay_keccak_special5_call E w
       else Inl UndefinedBehaviour))))"

end
