(* ===== verification/ReplayStep.thy ===== *)
theory ReplayStep
  imports ReplayDelegations VmStep
begin

text \<open>
  The loop of the replayer (\<open>replayer/mod.rs\<close>): \<open>replay_by_timestamp_bound\<close> runs until the
  clock reaches a bound or the program counter stops moving, \<open>replay_basic_unrolled\<close> computes
  the bound from a number of cycles. A marker panics: a program that contains one must not be
  proved.
\<close>

definition on_tracer ::
  "('c state \<Rightarrow> 't \<Rightarrow> ('c state \<times> 't) res) \<Rightarrow> ('c, 'm, 't, 'n) replay_world \<Rightarrow> ('c, 'm, 't, 'n) replay_world res" where
  "on_tracer f w = bindR (f (r_st w) (r_tracer w)) (\<lambda>(s, t). Inr (w \<lparr> r_st := s, r_tracer := t \<rparr>))"

definition replay_dispatch ::
  "('m, 't, 'n) replay_env \<Rightarrow> instruction \<Rightarrow> ('c, 'm, 't, 'n) replay_world \<Rightarrow> ('c, 'm, 't, 'n) replay_world res" where
  "replay_dispatch E i w =
     (let c = rp_cfg E; T = rp_tracer E in
      case name i of
        Illegal \<Rightarrow> illegal w
      | Lui \<Rightarrow> on_tracer (replay_lui c T i) w
      | Auipc \<Rightarrow> on_tracer (replay_auipc c T i) w
      | Jal \<Rightarrow> on_tracer (replay_jal c T i) w
      | Jalr \<Rightarrow> on_tracer (replay_jalr c T i) w
      | Slt \<Rightarrow> on_tracer (replay_slt c T False i) w
      | Slti \<Rightarrow> on_tracer (replay_slt c T True i) w
      | Sltu \<Rightarrow> on_tracer (replay_sltu c T False i) w
      | Sltiu \<Rightarrow> on_tracer (replay_sltu c T True i) w
      | Branch \<Rightarrow> on_tracer (replay_branch c T i) w
      | Sw \<Rightarrow> replay_sw E i w
      | Lw \<Rightarrow> replay_lw E i w
      | Sh \<Rightarrow> replay_sh E i w
      | Lhu \<Rightarrow> replay_lh E False i w
      | Lh \<Rightarrow> replay_lh E True i w
      | Sb \<Rightarrow> replay_sb E i w
      | Lbu \<Rightarrow> replay_lb E False i w
      | Lb \<Rightarrow> replay_lb E True i w
      | Add \<Rightarrow> on_tracer (replay_add_op c T False i) w
      | Addi \<Rightarrow> on_tracer (replay_add_op c T True i) w
      | Sub \<Rightarrow> on_tracer (replay_sub_op c T i) w
      | Xor \<Rightarrow> on_tracer (replay_xor_op c T False i) w
      | Xori \<Rightarrow> on_tracer (replay_xor_op c T True i) w
      | And \<Rightarrow> on_tracer (replay_and_op c T False i) w
      | Andi \<Rightarrow> on_tracer (replay_and_op c T True i) w
      | Or \<Rightarrow> on_tracer (replay_or_op c T False i) w
      | Ori \<Rightarrow> on_tracer (replay_or_op c T True i) w
      | Sll \<Rightarrow> on_tracer (replay_sll c T False i) w
      | Slli \<Rightarrow> on_tracer (replay_sll c T True i) w
      | Srl \<Rightarrow> on_tracer (replay_srl c T False i) w
      | Srli \<Rightarrow> on_tracer (replay_srl c T True i) w
      | Sra \<Rightarrow> on_tracer (replay_sra c T False i) w
      | Srai \<Rightarrow> on_tracer (replay_sra c T True i) w
      | Mul \<Rightarrow> on_tracer (replay_mul c T i) w
      | Mulhu \<Rightarrow> on_tracer (replay_mulhu c T i) w
      | Divu \<Rightarrow> on_tracer (replay_divu c T i) w
      | Remu \<Rightarrow> on_tracer (replay_remu c T i) w
      | ZimopAdd \<Rightarrow> on_tracer (replay_mop_addmod c T i) w
      | ZimopSub \<Rightarrow> on_tracer (replay_mop_submod c T i) w
      | ZimopMul \<Rightarrow> on_tracer (replay_mop_mulmod c T i) w
      | ZicsrNonDeterminismRead \<Rightarrow> replay_nd_read E i w
      | ZicsrNonDeterminismWrite \<Rightarrow> on_tracer (replay_nd_write c T i) w
      | ZicsrMarkerCsr \<Rightarrow> Inl MarkerInReplay
      | ZicsrDelegation \<Rightarrow> replay_call_delegation E i w
      | _ \<Rightarrow> Inl UnknownInstruction)"

text \<open>One iteration: fetch, handle, tick; the flag says that the program counter did not move.\<close>

definition replay_cycle ::
  "('m, 't, 'n) replay_env \<Rightarrow> instruction list \<Rightarrow> ('c, 'm, 't, 'n) replay_world \<Rightarrow>
   (bool \<times> ('c, 'm, 't, 'n) replay_world) res" where
  "replay_cycle E tape w =
     bindR (read_instruction (rp_cfg E) tape (pc (r_st w))) (\<lambda>instr.
     bindR (replay_dispatch E instr w) (\<lambda>w'.
     bindR (checked_add (debug_assertions (rp_cfg E)) (timestamp (r_st w')) TIMESTAMP_STEP) (\<lambda>t.
     let s = (r_st w') \<lparr> timestamp := t \<rparr> in
     Inr (pc s = pc (r_st w), w' \<lparr> r_st := s \<rparr>))))"

fun replay_by_timestamp_bound ::
  "nat \<Rightarrow> ('m, 't, 'n) replay_env \<Rightarrow> instruction list \<Rightarrow> u64 \<Rightarrow> ('c, 'm, 't, 'n) replay_world \<Rightarrow>
   ('c, 'm, 't, 'n) replay_world res option" where
  "replay_by_timestamp_bound 0 E tape bound w =
     (if timestamp (r_st w) < bound then None else Some (Inr w))"
| "replay_by_timestamp_bound (Suc fuel) E tape bound w =
     (if timestamp (r_st w) < bound then
        (case replay_cycle E tape w of
           Inl e \<Rightarrow> Some (Inl e)
         | Inr (True, w') \<Rightarrow> Some (Inr w')
         | Inr (False, w') \<Rightarrow> replay_by_timestamp_bound fuel E tape bound w')
      else Some (Inr w))"

text \<open>The cycle bound is a \<open>usize\<close> cast to \<open>u64\<close>: the multiplication may overflow.\<close>

definition replay_basic_unrolled ::
  "nat \<Rightarrow> ('m, 't, 'n) replay_env \<Rightarrow> instruction list \<Rightarrow> nat \<Rightarrow> ('c, 'm, 't, 'n) replay_world \<Rightarrow>
   ('c, 'm, 't, 'n) replay_world res option" where
  "replay_basic_unrolled fuel E tape cycle_bound w =
     (if debug_assertions (rp_cfg E) \<and> 2 ^ 64 \<le> unat TIMESTAMP_STEP * cycle_bound then Some (Inl ArithOverflow)
      else case checked_add (debug_assertions (rp_cfg E)) (timestamp (r_st w)) (TIMESTAMP_STEP * word_of_nat cycle_bound) of
        Inl e \<Rightarrow> Some (Inl e)
      | Inr final_ts \<Rightarrow> replay_by_timestamp_bound fuel E tape final_ts w)"

end
