(* ===== verification/ReplayContract.thy ===== *)
theory ReplayContract
  imports ReplayStep
begin

text \<open>
  What the replayer relies on: a memory that answers from a log (\<open>replay_ram\<close>, which
  \<open>ReplayerRam\<close> and \<open>ReplayerMemChunks\<close> satisfy as long as the log is one slice) and a tracer
  that does not fail (\<open>tracing\<close>, which every destination holder satisfies). The events of a
  replay and how they link up are defined here too.
\<close>

section \<open>Computations that return\<close>

definition returns :: "'a res \<Rightarrow> ('a \<Rightarrow> bool) \<Rightarrow> bool" where
  "returns m Q \<longleftrightarrow> (\<exists>x. m = Inr x \<and> Q x)"

lemma returns_Inr [simp]: "returns (Inr x) Q = Q x" "returns (Inl e) Q = False"
  by (simp_all add: returns_def)

lemma returns_bind: "returns m q \<Longrightarrow> (\<And>x. q x \<Longrightarrow> returns (f x) Q) \<Longrightarrow> returns (bindR m f) Q"
  by (auto simp: returns_def)

lemma returns_mono: "returns m q \<Longrightarrow> (\<And>x. q x \<Longrightarrow> Q x) \<Longrightarrow> returns m Q"
  by (auto simp: returns_def)

lemma returnsD: "returns m Q \<Longrightarrow> \<exists>x. m = Inr x \<and> Q x"
  by (simp add: returns_def)

section \<open>Timestamps as halves\<close>

lemma log_timestamp_halves [simp]: "log_timestamp (timestamp_halves t) = t"
  unfolding log_timestamp_def timestamp_halves_def
  by (rule bit_word_eqI) (auto simp: bit_simps)

section \<open>The memory of a replay\<close>

text \<open>
  \<open>flat\<close> is the log still to be read, \<open>ready\<close> says that it is in one slice. Loads below
  \<open>rom_limit\<close> are masked in the rows. The debug assertions are on alignment and on time.
\<close>

locale replay_ram =
  fixes R :: "'m ram_ops" and flat :: "'m \<Rightarrow> log_entry list" and ready :: "'m \<Rightarrow> bool"
    and dbg :: bool and rom_limit :: nat
  assumes stub: "replay_stub R"
    and peek_next: "ready m \<Longrightarrow> flat m = (v, h) # rest \<Longrightarrow> (dbg \<longrightarrow> a mod 4 = 0) \<Longrightarrow> peek_word R a m = Inr v"
    and read_next: "ready m \<Longrightarrow> flat m = (v, h) # rest \<Longrightarrow>
      (dbg \<longrightarrow> a mod 4 = 0 \<and> log_timestamp h < t) \<Longrightarrow>
      returns (read_word R a t m) (\<lambda>(p, m'). p = (log_timestamp h, v) \<and> ready m' \<and> flat m' = rest)"
    and write_next: "ready m \<Longrightarrow> flat m = (v, h) # rest \<Longrightarrow>
      (dbg \<longrightarrow> a mod 4 = 0 \<and> log_timestamp h < t) \<Longrightarrow>
      returns (write_word R a w t m) (\<lambda>(p, m'). p = (log_timestamp h, v) \<and> ready m' \<and> flat m' = rest)"
    and mask_returns: "(dbg \<longrightarrow> a mod 4 = 0) \<Longrightarrow>
      mask_read_for_witness R a v m = Inr (a, if unat a < rom_limit then 0 else v)"
    and skip_next: "ready m \<Longrightarrow> flat m = new @ rest \<Longrightarrow> new \<noteq> [] \<Longrightarrow>
      returns (skip_if_replaying R (length new) m) (\<lambda>m'. ready m' \<and> flat m' = rest)"

text \<open>A log in one slice, or exhausted.\<close>

fun one_slice :: "'a list list \<Rightarrow> bool" where
  "one_slice [] = True"
| "one_slice [src] = (src \<noteq> [])"
| "one_slice _ = False"

lemma one_slice_cases:
  "one_slice m \<Longrightarrow> concat m = x # rest \<Longrightarrow> m = [x # rest]"
  by (cases m rule: one_slice.cases) auto

lemma one_slice_append:
  "one_slice m \<Longrightarrow> concat m = new @ rest \<Longrightarrow> new \<noteq> [] \<Longrightarrow> m = [new @ rest]"
  by (cases m rule: one_slice.cases) auto

lemma one_slice_next: "one_slice (next_slices rest []) \<and> concat (next_slices rest []) = rest"
  by (simp add: next_slices_def)

interpretation replayer_ram: replay_ram "ReplayerRam_ops c" concat one_slice "debug_assertions c"
  "2 ^ (16 + rom_bits c)" for c
proof unfold_locales
  fix m :: "log_entry list list" and v h rest a t w
  assume m: "one_slice m" "concat m = (v, h) # rest"
  note m' = one_slice_cases [OF m(1,2)]
  show "peek_word (ReplayerRam_ops c) a m = Inr v" if "debug_assertions c \<longrightarrow> a mod 4 = 0"
    using that by (auto simp add: ReplayerRam_ops_def ReplayerRam_peek_word_def m' debug_assert_def)
  assume t: "debug_assertions c \<longrightarrow> a mod 4 = 0 \<and> log_timestamp h < t"
  then show "returns (read_word (ReplayerRam_ops c) a t m)
      (\<lambda>(p, m'). p = (log_timestamp h, v) \<and> one_slice m' \<and> concat m' = rest)"
    "returns (write_word (ReplayerRam_ops c) a w t m)
      (\<lambda>(p, m'). p = (log_timestamp h, v) \<and> one_slice m' \<and> concat m' = rest)"
    using one_slice_next [of rest]
    by (auto simp: ReplayerRam_ops_def ReplayerRam_access_def m' debug_assert_def Let_def)
next
  fix m :: "log_entry list list" and new rest
  assume "one_slice m" "concat m = new @ rest" "new \<noteq> []"
  from one_slice_append [OF this] one_slice_next [of rest]
  show "returns (skip_if_replaying (ReplayerRam_ops c) (length new) m) (\<lambda>m'. one_slice m' \<and> concat m' = rest)"
    by (simp add: ReplayerRam_ops_def ReplayerRam_skip_if_replaying_def)
qed (auto simp: ReplayerRam_ops_def mask_rom_def debug_assert_def)

text \<open>The same for values and timestamps apart; a timestamp is read as it is.\<close>

fun one_chunk :: "(u32 list \<times> u64 list) list \<Rightarrow> bool" where
  "one_chunk [] = True"
| "one_chunk [(vs, ts)] = (vs \<noteq> [] \<and> length ts = length vs)"
| "one_chunk _ = False"

definition chunk_log :: "(u32 list \<times> u64 list) list \<Rightarrow> log_entry list" where
  "chunk_log m = concat (map (\<lambda>(vs, ts). zip vs (map timestamp_halves ts)) m)"

lemma timestamp_halves_inj: "timestamp_halves s = timestamp_halves t \<Longrightarrow> s = t"
  by (metis log_timestamp_halves)

lemma one_chunk_cases:
  assumes "one_chunk m" "chunk_log m = (v, h) # rest"
  obtains vs t ts where "m = [(v # vs, t # ts)]" "h = timestamp_halves t" "length ts = length vs"
    "rest = zip vs (map timestamp_halves ts)"
proof (cases m rule: one_chunk.cases)
  case (2 vs ts)
  with assms that show thesis by (cases vs; cases ts) (auto simp: chunk_log_def)
qed (use assms in \<open>auto simp: chunk_log_def\<close>)

lemma one_chunk_next:
  "length ts = length vs \<Longrightarrow>
     one_chunk (next_chunks vs ts []) \<and> chunk_log (next_chunks vs ts []) = zip vs (map timestamp_halves ts)"
  by (simp add: next_chunks_def chunk_log_def)

interpretation replayer_chunks: replay_ram "ReplayerMemChunks_ops c" chunk_log one_chunk "debug_assertions c" ROM_BYTE_SIZE
  for c
proof unfold_locales
  fix m :: "(u32 list \<times> u64 list) list" and v h rest a t w
  assume m: "one_chunk m" "chunk_log m = (v, h) # rest"
  from one_chunk_cases [OF m(1,2)] obtain vs t' ts where
    m': "m = [(v # vs, t' # ts)]" "h = timestamp_halves t'" "length ts = length vs"
    "rest = zip vs (map timestamp_halves ts)" by blast
  show "peek_word (ReplayerMemChunks_ops c) a m = Inr v" if "debug_assertions c \<longrightarrow> a mod 4 = 0"
    using that by (auto simp add: ReplayerMemChunks_ops_def ReplayerMemChunks_peek_word_def m'(1) debug_assert_def)
  assume t: "debug_assertions c \<longrightarrow> a mod 4 = 0 \<and> log_timestamp h < t"
  then show "returns (read_word (ReplayerMemChunks_ops c) a t m)
      (\<lambda>(p, m'). p = (log_timestamp h, v) \<and> one_chunk m' \<and> chunk_log m' = rest)"
    "returns (write_word (ReplayerMemChunks_ops c) a w t m)
      (\<lambda>(p, m'). p = (log_timestamp h, v) \<and> one_chunk m' \<and> chunk_log m' = rest)"
    using one_chunk_next [OF m'(3)]
    by (auto simp: ReplayerMemChunks_ops_def ReplayerMemChunks_access_def m' debug_assert_def Let_def)
next
  fix m :: "(u32 list \<times> u64 list) list" and new rest :: "log_entry list"
  assume m: "one_chunk m" "chunk_log m = new @ rest" "new \<noteq> []"
  then obtain vs ts where vs: "m = [(vs, ts)]" "length ts = length vs"
    by (cases m rule: one_chunk.cases) (auto simp: chunk_log_def)
  have log: "zip vs (map timestamp_halves ts) = new @ rest"
    using m(2) vs(1) by (simp add: chunk_log_def)
  then have len: "length new \<le> length vs" by (metis length_append length_zip length_map vs(2) min.idem le_add1)
  have "zip (drop (length new) vs) (map timestamp_halves (drop (length new) ts)) = rest"
    using arg_cong [OF log, of "drop (length new)"] by (simp add: drop_zip drop_map)
  with len vs one_chunk_next [of "drop (length new) ts" "drop (length new) vs"]
  show "returns (skip_if_replaying (ReplayerMemChunks_ops c) (length new) m) (\<lambda>m'. one_chunk m' \<and> chunk_log m' = rest)"
    by (simp add: ReplayerMemChunks_ops_def ReplayerMemChunks_skip_if_replaying_def)
qed (auto simp: ReplayerMemChunks_ops_def mask_rom_def debug_assert_def)

section \<open>Tracers that do not fail\<close>

text \<open>Writing does not change what a tracer asks for.\<close>

definition same_needs :: "'t tracer_ops \<Rightarrow> 't \<Rightarrow> 't \<Rightarrow> bool" where
  "same_needs T t t' \<longleftrightarrow>
     (\<forall>g. needs_tracing_data_for_circuit_family T g t' = needs_tracing_data_for_circuit_family T g t) \<and>
     (\<forall>ty. needs_tracing_data_for_delegation_type T ty t' = needs_tracing_data_for_delegation_type T ty t)"

text \<open>The sizes a record of each delegation has; other types have none.\<close>

definition shaped :: "u16 \<Rightarrow> DelegationWitness \<Rightarrow> bool" where
  "shaped ty d \<longleftrightarrow>
     (length (reg_accesses d), length (indirect_reads d), length (indirect_writes d), length (variables_offsets d)) =
     (if ty = ucast BIGINT_OPS_WITH_CONTROL_CSR_REGISTER then (3, 8, 8, 0)
      else if ty = ucast BLAKE2S_DELEGATION_CSR_REGISTER then (3, 16, 24, 0)
      else (2, 0, 12, 6))"

locale tracing =
  fixes T :: "'t tracer_ops" and fine :: "'t \<Rightarrow> bool"
  assumes write_row: "fine t \<Longrightarrow>
      returns (write_non_memory_family_data T f r t) (\<lambda>t'. fine t' \<and> same_needs T t t')"
    and write_mem_row: "fine t \<Longrightarrow>
      returns (write_memory_family_data T f mr t) (\<lambda>t'. fine t' \<and> same_needs T t t')"
    and write_record: "fine t \<Longrightarrow> needs_tracing_data_for_delegation_type T dt t \<Longrightarrow> shaped dt d \<Longrightarrow>
      returns (write_delegation T dt d t) (\<lambda>t'. fine t' \<and> same_needs T t t')"

definition slices_open :: "'a holder \<Rightarrow> bool" where
  "slices_open h \<longleftrightarrow> 0 \<notin> set (rooms h)"

lemma holder_write_open: "slices_open h \<Longrightarrow> returns (holder_write x h) slices_open"
  by (cases "rooms h") (auto simp: holder_write_def slices_open_def Let_def)

interpretation unit_tracing: tracing unit_tracer_ops "\<lambda>_. True"
  by unfold_locales (simp_all add: unit_tracer_ops_def same_needs_def)

interpretation non_mem_tracing: tracing "NonMemDestinationHolder_ops FAMILY" slices_open for FAMILY
  by unfold_locales (simp_all add: NonMemDestinationHolder_ops_def holder_write_open same_needs_def)

interpretation mem_tracing: tracing "MemDestinationHolder_ops FAMILY" slices_open for FAMILY
  by unfold_locales (simp_all add: MemDestinationHolder_ops_def holder_write_open same_needs_def)

interpretation unified_tracing: tracing UnifiedDestinationHolder_ops slices_open
  by unfold_locales (simp_all add: UnifiedDestinationHolder_ops_def holder_write_open same_needs_def)

interpretation bigint_tracing: tracing "BigintDelegationDestinationHolder_ops c" slices_open for c
  by unfold_locales
    (auto simp: BigintDelegationDestinationHolder_ops_def DelegationDestinationHolder_ops_def
       holder_write_open same_needs_def shaped_def code_consts)

interpretation blake_tracing: tracing "BlakeDelegationDestinationHolder_ops c" slices_open for c
  by unfold_locales
    (auto simp: BlakeDelegationDestinationHolder_ops_def DelegationDestinationHolder_ops_def
       holder_write_open same_needs_def shaped_def code_consts)

interpretation keccak_tracing: tracing "KeccakDelegationDestinationHolder_ops c" slices_open for c
  by unfold_locales
    (auto simp: KeccakDelegationDestinationHolder_ops_def DelegationDestinationHolder_ops_def
       holder_write_open same_needs_def shaped_def code_consts)

end
