(* ===== verification/Transcript.thy ===== *)
theory Transcript
  imports ReplayContract VmProps
begin

text \<open>
  What a replay leaves behind: a list of events, one row per cycle and one record per delegation
  call, of which a tracer keeps those it asks for. The rows are a transcript of the execution that
  can be checked: \<open>certify\<close> is the memory argument of the circuits on registers, every access
  names the value and the timestamp of the previous access to the same register.
\<close>

section \<open>Events\<close>

datatype trace_event =
    Row nat NonMemoryOpcodeTracingDataWithTimestamp
  | MemRow nat MemoryOpcodeTracingDataWithTimestamp
  | Record u16 DelegationWitness

fun emit :: "'t tracer_ops \<Rightarrow> trace_event \<Rightarrow> 't \<Rightarrow> 't res" where
  "emit T (Row family row) t = trace_non_memory T family row t"
| "emit T (MemRow family row) t = trace_memory T family (Inr row) t"
| "emit T (Record ty d) t =
     (if needs_tracing_data_for_delegation_type T ty t then write_delegation T ty d t else Inr t)"

lemma same_needs_refl [simp]: "same_needs T t t"
  by (simp add: same_needs_def)

lemma same_needs_trans: "same_needs T t t' \<Longrightarrow> same_needs T t' t'' \<Longrightarrow> same_needs T t t''"
  by (simp add: same_needs_def)

fun shaped_event :: "trace_event \<Rightarrow> bool" where
  "shaped_event (Record ty d) = shaped ty d"
| "shaped_event _ = True"

context tracing
begin

lemma emit_returns: "fine t \<Longrightarrow> shaped_event e \<Longrightarrow> \<exists>t'. emit T e t = Inr t' \<and> fine t' \<and> same_needs T t t'"
proof (cases e)
  case (Row f r)
  then show "fine t \<Longrightarrow> shaped_event e \<Longrightarrow> ?thesis"
    using write_row [of t f r] by (auto simp: trace_non_memory_def returns_def same_needs_def)
next
  case (MemRow f r)
  then show "fine t \<Longrightarrow> shaped_event e \<Longrightarrow> ?thesis"
    using write_mem_row [of t f r] by (auto simp: trace_memory_def returns_def same_needs_def)
next
  case (Record ty d)
  then show "fine t \<Longrightarrow> shaped_event e \<Longrightarrow> ?thesis"
    using write_record [of t ty d] by (auto simp: returns_def same_needs_def)
qed

lemma emits_return: "fine t \<Longrightarrow> list_all shaped_event es \<Longrightarrow> \<exists>t'. foldR (emit T) es t = Inr t' \<and> fine t' \<and> same_needs T t t'"
proof (induction es arbitrary: t)
  case (Cons e es)
  obtain t1 where 1: "emit T e t = Inr t1" "fine t1" "same_needs T t t1"
    using emit_returns [of t e] Cons.prems by auto
  obtain t2 where 2: "foldR (emit T) es t1 = Inr t2" "fine t2" "same_needs T t1 t2"
    using Cons.IH [OF 1(2)] Cons.prems by auto
  then show ?case using 1 same_needs_trans by fastforce
qed simp

end

section \<open>The machine state without its counters\<close>

text \<open>A replay does not count calls; its state is that of the machine with other counters.\<close>

definition recount :: "'d \<Rightarrow> 'c state \<Rightarrow> 'd state" where
  "recount k s = \<lparr> registers = registers s, timestamp = timestamp s, pc = pc s, counters = k \<rparr>"

lemma recount_simps [simp]:
  "registers (recount k s) = registers s" "timestamp (recount k s) = timestamp s"
  "pc (recount k s) = pc s" "counters (recount k s) = k"
  "recount k (recount k' s) = recount k s"
  "recount k (s \<lparr> counters := cs \<rparr>) = recount k s"
  by (simp_all add: recount_def)

lemma recount_updates:
  "(recount k s) \<lparr> pc := p \<rparr> = recount k (s \<lparr> pc := p \<rparr>)"
  "(recount k s) \<lparr> timestamp := t \<rparr> = recount k (s \<lparr> timestamp := t \<rparr>)"
  "set_register i t v (recount k s) = recount k (set_register i t v s)"
  "stamp_register i t (recount k s) = recount k (stamp_register i t s)"
  "default_increase_pc (recount k s) = recount k (default_increase_pc s)"
  by (simp_all add: recount_def set_register_def stamp_register_def default_increase_pc_def)

lemma recount_self: "recount (counters s) s = s"
  by (simp add: recount_def)

section \<open>Checking a transcript\<close>

text \<open>
  One access: the register has the recorded value, the recorded timestamp is that of its last
  access, and that access was earlier. \<open>x0\<close> is never given another value than zero.
\<close>

definition check_access ::
  "u64 \<Rightarrow> u8 \<Rightarrow> u32 \<times> timestamp_data \<Rightarrow> u32 \<Rightarrow> unit state \<Rightarrow> unit state res" where
  "check_access t i seen v s =
     (let r = registers s (unat i) in
      guardR (unat i < 32 \<and> reg_value r = fst seen \<and> from_scalar (reg_timestamp r) = snd seen \<and>
              reg_timestamp r < t \<and> (i = 0 \<longrightarrow> v = 0)) AssertFailed
        (Inr (set_register (unat i) t v s)))"

text \<open>
  The registers an instruction names in its three accesses. The immediate forms read \<open>x0\<close> in
  the second one, the branches write it in the third, a delegation cycle accesses it three times.
\<close>

definition operands :: "instruction \<Rightarrow> u8 \<times> u8 \<times> u8" where
  "operands i =
     (if name i \<in> {Addi, Xori, Andi, Ori, Slli, Srli, Srai, Slti, Sltiu, Jalr} then (rs1 i, 0, rd i)
      else if name i \<in> {Lui, Auipc, Jal, ZicsrNonDeterminismRead} then (0, 0, rd i)
      else if name i = Branch then (rs1 i, rs2 i, 0)
      else if name i = ZicsrNonDeterminismWrite then (rs1 i, 0, 0)
      else if name i = ZicsrDelegation then (0, 0, 0)
      else (rs1 i, rs2 i, rd i))"

text \<open>
  A row: it starts at the program counter and the clock of the state, makes its accesses in
  the order of the cycle, and ends at the next program counter, one step of the clock later.
\<close>

definition starts_at :: "u32 \<Rightarrow> timestamp_data \<Rightarrow> unit state \<Rightarrow> bool" where
  "starts_at p t s \<longleftrightarrow> pc s = p \<and> from_scalar (timestamp s) = t"

definition next_cycle :: "u32 \<Rightarrow> 'c state \<Rightarrow> 'c state" where
  "next_cycle p s = s \<lparr> pc := p, timestamp := timestamp s + 4 \<rparr>"

definition check_row :: "u8 \<times> u8 \<times> u8 \<Rightarrow> NonMemoryOpcodeTracingDataWithTimestamp \<Rightarrow> unit state \<Rightarrow> unit state res" where
  "check_row regs r s =
     (let d = n_opcode_data r; t = timestamp s in
      guardR (starts_at (n_initial_pc d) (n_cycle_timestamp r) s) AssertFailed
      (bindR (check_access t (fst regs) (n_rs1_value d, n_rs1_read_timestamp r) (n_rs1_value d) s) (\<lambda>s.
       bindR (check_access (t OR 1) (fst (snd regs)) (n_rs2_value d, n_rs2_read_timestamp r) (n_rs2_value d) s) (\<lambda>s.
       bindR (check_access (t OR 2) (snd (snd regs)) (n_rd_old_value d, n_rd_read_timestamp r) (n_rd_value d) s) (\<lambda>s.
       Inr (next_cycle (n_new_pc d) s))))))"

definition check_load :: "u8 \<times> u8 \<times> u8 \<Rightarrow> MemoryOpcodeTracingDataWithTimestamp \<Rightarrow> unit state \<Rightarrow> unit state res" where
  "check_load regs r s =
     (let d = m_opcode_data r; t = timestamp s in
      guardR (starts_at (l_initial_pc d) (m_cycle_timestamp r) s) AssertFailed
      (bindR (check_access t (fst regs) (l_rs1_value d, m_rs1_read_timestamp r) (l_rs1_value d) s) (\<lambda>s.
       bindR (check_access (t OR 2) (snd (snd regs)) (l_rd_old_value d, m_rd_or_ram_read_timestamp r) (l_rd_value d) s) (\<lambda>s.
       Inr (next_cycle (pc s + 4) s)))))"

definition check_store :: "u8 \<times> u8 \<times> u8 \<Rightarrow> MemoryOpcodeTracingDataWithTimestamp \<Rightarrow> unit state \<Rightarrow> unit state res" where
  "check_store regs r s =
     (let d = load_as_store (m_opcode_data r); t = timestamp s in
      guardR (starts_at (s_initial_pc d) (m_cycle_timestamp r) s) AssertFailed
      (bindR (check_access t (fst regs) (s_rs1_value d, m_rs1_read_timestamp r) (s_rs1_value d) s) (\<lambda>s.
       bindR (check_access (t OR 1) (fst (snd regs)) (s_rs2_value d, m_rs2_or_ram_read_timestamp r) (s_rs2_value d) s) (\<lambda>s.
       Inr (next_cycle (pc s + 4) s)))))"

text \<open>A record: the accesses to the registers of its call, all at the same time.\<close>

definition check_record :: "u16 \<Rightarrow> DelegationWitness \<Rightarrow> unit state \<Rightarrow> unit state res" where
  "check_record ty d s =
     (let regs = (if ty = ucast KECCAK_SPECIAL5_CSR_REGISTER then [10, 11] else [10, 11, 12]) in
      guardR (shaped ty d) AssertFailed
        (foldR (\<lambda>(i, a). check_access (write_timestamp d) i (rw_read_value a, rw_timestamp a) (rw_write_value a))
           (zip regs (reg_accesses d)) s))"

definition is_delegation_row :: "NonMemoryOpcodeTracingDataWithTimestamp \<Rightarrow> bool" where
  "is_delegation_row r \<longleftrightarrow> n_delegation_type (n_opcode_data r) \<in>
     {ucast BIGINT_OPS_WITH_CONTROL_CSR_REGISTER, ucast BLAKE2S_DELEGATION_CSR_REGISTER,
      ucast KECCAK_SPECIAL5_CSR_REGISTER}"

definition fetch :: "instruction list \<Rightarrow> unit state \<Rightarrow> instruction" where
  "fetch tape s = tape ! unat (drop_bit 2 (pc s))"

fun certify :: "instruction list \<Rightarrow> trace_event \<Rightarrow> unit state \<Rightarrow> unit state res" where
  "certify tape (Row family r) s =
     check_row (if is_delegation_row r then (0, 0, 0) else operands (fetch tape s)) r s"
| "certify tape (MemRow family r) s =
     (if discr r = MEM_STORE_TRACE_DATA_MARKER then check_store (operands (fetch tape s)) r s
      else check_load (operands (fetch tape s)) r s)"
| "certify tape (Record ty d) s = check_record ty d s"

definition certified :: "instruction list \<Rightarrow> trace_event list \<Rightarrow> 'c state \<Rightarrow> 'c state \<Rightarrow> bool" where
  "certified tape events s s' \<longleftrightarrow> foldR (certify tape) events (recount () s) = Inr (recount () s')"

lemma certified_Nil: "certified tape [] s s"
  by (simp add: certified_def)

lemma certified_append:
  "certified tape e1 s s1 \<Longrightarrow> certified tape e2 s1 s2 \<Longrightarrow> certified tape (e1 @ e2) s s2"
  by (simp add: certified_def foldR_append)

end
