(* ===== verification/ReplayHandlers.thy ===== *)
theory ReplayHandlers
  imports Transcript VmRefine
begin

text \<open>
  The replay of an instruction on registers does what the machine did: from the same registers it
  reaches the same registers, and the row it writes passes the check. The register accesses come
  first, then the handlers in the groups \<open>VmRefine\<close> has them.
\<close>

section \<open>Accesses\<close>

text \<open>Before an access at offset \<open>off\<close> no register was accessed at or after it.\<close>

definition fresh :: "u64 \<Rightarrow> 'c state \<Rightarrow> bool" where
  "fresh off s \<longleftrightarrow> aligned4 (timestamp s) \<and> reg_value (registers s 0) = 0 \<and>
     (\<forall>i < 32. reg_timestamp (registers s i) < (timestamp s OR off))"

lemma between_fresh: "between tot s \<Longrightarrow> fresh 0 s"
  by (simp add: between_def fresh_def)

lemma fresh_later:
  "fresh 0 s \<Longrightarrow> fresh 1 s" "fresh 1 s \<Longrightarrow> fresh 2 s"
  using or_offsets(1,2) [of "timestamp s"] by (auto simp: fresh_def intro: less_trans)

lemma fresh_set:
  assumes "fresh off s" and "(timestamp s OR off) < (timestamp s OR off')" and "i = 0 \<longrightarrow> v = 0"
  shows "fresh off' (set_register i (timestamp s OR off) v s)"
  using assms by (auto simp: fresh_def set_register_def intro: less_trans)

text \<open>What an access at offset \<open>off\<close> to register \<open>i\<close> leads to, whatever its value becomes.\<close>

definition accessed :: "u64 \<Rightarrow> u8 \<Rightarrow> u32 \<Rightarrow> 'c state \<Rightarrow> 'c state \<Rightarrow> bool" where
  "accessed off i v s s' \<longleftrightarrow>
     timestamp s' = timestamp s \<and> pc s' = pc s \<and> (i = 0 \<longrightarrow> v = 0) \<and>
     (fresh off s \<longrightarrow>
        (\<forall>off'. (timestamp s OR off) < (timestamp s OR off') \<longrightarrow> fresh off' s') \<and>
        check_access (timestamp s OR off) i
          (reg_value (registers s (unat i)), from_scalar (reg_timestamp (registers s (unat i)))) v
          (recount () s) = Inr (recount () s'))"

lemma accessed_set:
  assumes "unat i < 32" and "fresh off s \<Longrightarrow> i = 0 \<Longrightarrow> v = 0" and "i = 0 \<longrightarrow> v = 0"
  shows "accessed off i v s (set_register (unat i) (timestamp s OR off) v s)"
  using assms fresh_set [of off s _ "unat i" v]
  by (auto simp: accessed_def check_access_def Let_def fresh_def recount_updates unat_eq_zero)
    (auto simp: set_register_def)

lemma read_accessed:
  assumes "read_register c off i s = Inr (v, s')" and "fresh off s"
  shows "v = reg_value (registers s (unat i))" "accessed off i v s s'"
  using assms accessed_set [of i off s v]
  by (auto simp: read_register_def register_access_def Let_def res_simps fresh_def)

lemma touch_accessed:
  assumes "touch_x0 c off s = Inr s'" and "fresh off s"
  shows "accessed off 0 0 s s'"
  using assms accessed_set [of 0 off s 0]
  by (auto simp: touch_x0_def register_access_def Let_def res_simps fresh_def)

lemma write_accessed:
  assumes "write_register c off i v s = Inr (v', s')"
  shows "v' = (if i = 0 then 0 else v)" "accessed off i v' s s'"
  using assms accessed_set [of i off s v']
  by (auto simp: write_register_def register_access_def Let_def res_simps)

text \<open>The accesses of the replay, in terms of those of the machine.\<close>

lemma with_ts:
  "read_register_with_ts c off i (recount k s) =
     bindR (read_register c off i s) (\<lambda>(v, s'). Inr (v, reg_timestamp (registers s (unat i)), recount k s'))"
  "touch_x0_with_ts c off (recount k s) =
     bindR (touch_x0 c off s) (\<lambda>s'. Inr (reg_timestamp (registers s 0), recount k s'))"
  "write_register_with_ts c off i v (recount k s) =
     bindR (write_register c off i v s) (\<lambda>(v', s').
       Inr (v', reg_value (registers s (unat i)), reg_timestamp (registers s (unat i)), recount k s'))"
  by (auto simp: read_register_with_ts_def read_register_def touch_x0_with_ts_def touch_x0_def
      write_register_with_ts_def write_register_def register_access_def guardR_def debug_assert_def
      Let_def recount_updates)

lemma replay_second_operand_eq:
  "replay_second_operand c use_imm i (recount k s) =
     bindR (second_operand c use_imm i s) (\<lambda>(v, s').
       Inr (if use_imm then 0 else v, reg_timestamp (registers s (if use_imm then 0 else unat (rs2 i))), v, recount k s'))"
  by (auto simp: replay_second_operand_def second_operand_def with_ts bindR_assoc split_beta
      intro!: bindR_cong)

lemma second_operand_accessed:
  assumes "second_operand c use_imm i s = Inr (v, s')" and "fresh 1 s"
  shows "accessed 1 (if use_imm then 0 else rs2 i) (if use_imm then 0 else v) s s'"
    "\<not> use_imm \<Longrightarrow> v = reg_value (registers s (unat (rs2 i)))"
  using assms read_accessed [of c 1 "rs2 i" s v s'] touch_accessed [of c 1 s]
  by (auto simp: second_operand_def res_simps split: if_splits)

section \<open>Rows\<close>

definition tick :: "'c state \<Rightarrow> 'c state" where
  "tick s = s \<lparr> timestamp := timestamp s + 4 \<rparr>"

lemma next_cycle_tick: "next_cycle p (recount k s) = recount k (tick (s \<lparr> pc := p \<rparr>))"
  by (simp add: next_cycle_def tick_def recount_def)

lemma tick_recount: "tick (recount k s) = recount k (tick s)"
  by (simp add: tick_def recount_def)

text \<open>Three accesses in the order of the cycle, and the row that records them.\<close>

lemma check_register_row:
  assumes s: "fresh 0 s"
    and 1: "accessed 0 a va s s1" "va = reg_value (registers s (unat a))"
    and 2: "accessed 1 b vb s1 s2" "vb = reg_value (registers s1 (unat b))"
    and 3: "accessed 2 d v s2 s3"
    and fin: "recount () s' = recount () (s3 \<lparr> pc := p \<rparr>)"
  shows "check_row (a, b, d)
     (register_row s3 (va, reg_timestamp (registers s (unat a))) (vb, reg_timestamp (registers s1 (unat b)))
        (reg_value (registers s2 (unat d)), v, reg_timestamp (registers s2 (unat d))) p delegation)
     (recount () s) = Inr (recount () (tick s'))"
proof -
  have al: "aligned4 (timestamp s)" using s by (simp add: fresh_def)
  note lt = or_offsets [OF al]
  have t: "timestamp s1 = timestamp s" "timestamp s2 = timestamp s" "timestamp s3 = timestamp s"
    "pc s3 = pc s"
    using 1(1) 2(1) 3 by (auto simp: accessed_def)
  have f1: "fresh 1 s1" using s 1(1) lt(1) by (auto simp: accessed_def)
  then have f2: "fresh 2 s2" using 2(1) lt(2) t(1) by (auto simp: accessed_def)
  have "recount () (tick s') = tick (recount () s')" by (simp add: tick_recount)
  then show ?thesis
    using 1 2 3 s f1 f2
    by (simp add: check_row_def register_row_def starts_at_def accessed_def t next_cycle_tick fin tick_recount)
qed

text \<open>
  What a handler on registers of the replay does, when the machine went from \<open>s\<close> to \<open>s'\<close>: it
  hands one row to the tracer and goes the same way.
\<close>

definition row_step ::
  "u8 \<times> u8 \<times> u8 \<Rightarrow> ('t tracer_ops \<Rightarrow> 'd state \<Rightarrow> 't \<Rightarrow> ('d state \<times> 't) res) \<Rightarrow> 'c state \<Rightarrow> 'c state \<Rightarrow> bool" where
  "row_step regs f s s' \<longleftrightarrow> (\<exists>family row.
     \<not> is_delegation_row row \<and>
     check_row regs row (recount () s) = Inr (recount () (tick s')) \<and>
     (\<forall>T k t. f T (recount k s) t = bindR (trace_non_memory T family row t) (\<lambda>t. Inr (recount k s', t))))"

lemma not_delegation_row:
  "d \<in> {0, ucast NON_DETERMINISM_CSR} \<Longrightarrow> \<not> is_delegation_row (register_row s x y z p d)"
  by (auto simp: is_delegation_row_def register_row_def code_consts)

lemma row_stepI:
  assumes "fresh 0 s"
    and "accessed 0 a va s s1" "va = reg_value (registers s (unat a))"
    and "accessed 1 b vb s1 s2" "vb = reg_value (registers s1 (unat b))"
    and "accessed 2 d v s2 s3"
    and "recount () s' = recount () (s3 \<lparr> pc := p \<rparr>)"
    and f: "\<And>T k t. f T (recount k s) t = bindR (trace_non_memory T family
        (register_row s3 (va, reg_timestamp (registers s (unat a))) (vb, reg_timestamp (registers s1 (unat b)))
           (reg_value (registers s2 (unat d)), v, reg_timestamp (registers s2 (unat d))) p delegation) t)
        (\<lambda>t. Inr (recount k s', t))"
    and del: "delegation \<in> {0, ucast NON_DETERMINISM_CSR}"
  shows "row_step (a, b, d) f s s'"
  unfolding row_step_def using check_register_row [OF assms(1-7)] not_delegation_row [OF del] f by blast

lemma increment_recount:
  "increment_family_counter C f s = Inr s' \<Longrightarrow> recount k s' = recount k s"
  by (auto simp: increment_family_counter_def res_simps)

section \<open>Arithmetic\<close>

definition replay_alu ::
  "cfg \<Rightarrow> 't tracer_ops \<Rightarrow> nat \<Rightarrow> (u32 \<Rightarrow> u32 \<Rightarrow> u32 res) \<Rightarrow> bool \<Rightarrow> instruction \<Rightarrow> 'c state \<Rightarrow> 't \<Rightarrow>
   ('c state \<times> 't) res" where
  "replay_alu c T family f use_imm i s t =
     bindR (read_register_with_ts c 0 (rs1 i) s) (\<lambda>(a, a_ts, s).
     bindR (replay_second_operand c use_imm i s) (\<lambda>(b, b_ts, b_to_use, s).
     bindR (f a b_to_use) (\<lambda>v.
     bindR (write_register_with_ts c 2 (rd i) v s) (\<lambda>(v, old, d_ts, s).
     bindR (trace_non_memory T family (register_row s (a, a_ts) (b, b_ts) (old, v, d_ts) (pc s + 4) 0) t)
       (\<lambda>t. Inr (default_increase_pc s, t))))))"

lemma replay_alu_row_step:
  assumes vm: "alu c C family f use_imm i s = Inr s'" and s: "fresh 0 s"
  shows "row_step (rs1 i, if use_imm then 0 else rs2 i, rd i)
    (\<lambda>T. replay_alu c T family f use_imm i) s s'"
proof -
  from vm obtain a s1 b s2 v v' s3 where
    1: "read_register c 0 (rs1 i) s = Inr (a, s1)" and
    2: "second_operand c use_imm i s1 = Inr (b, s2)" and
    f: "f a b = Inr v" and
    3: "write_register c 2 (rd i) v s2 = Inr (v', s3)" and
    s': "increment_family_counter C family (default_increase_pc s3) = Inr s'"
    by (auto simp: alu_def res_simps)
  note acc1 = read_accessed [OF 1 s]
  have f1: "fresh 1 s1"
    using acc1(2) s or_offsets(1) [of "timestamp s"] by (auto simp: accessed_def fresh_def)
  note acc2 = second_operand_accessed [OF 2 f1]
  note acc3 = write_accessed(2) [OF 3]
  note rec = increment_recount [OF s']
  let ?b = "if use_imm then 0 else b"
  show ?thesis
  proof (rule row_stepI [where va = a and vb = ?b and family = family and delegation = 0 and p = "pc s3 + 4"])
    show "fresh 0 s" "accessed 0 (rs1 i) a s s1" "a = reg_value (registers s (unat (rs1 i)))"
      "accessed 1 (if use_imm then 0 else rs2 i) ?b s1 s2" "accessed 2 (rd i) v' s2 s3"
      by (fact s acc1 acc2 acc3)+
    show "?b = reg_value (registers s1 (unat (if use_imm then 0 else rs2 i)))"
      using acc2(2) f1 by (simp add: fresh_def)
  qed (simp_all add: rec default_increase_pc_def replay_alu_def with_ts 1 replay_second_operand_eq 2 f 3
      recount_updates register_row_def if_distrib [of unat])
qed

text \<open>Both machines use the same operation on the two operands.\<close>

definition same_alu ::
  "cfg \<Rightarrow> 'c counter_ops \<Rightarrow> nat \<Rightarrow> (u32 \<Rightarrow> u32 \<Rightarrow> u32 res) \<Rightarrow> bool \<Rightarrow> instruction \<Rightarrow>
   ('c state \<Rightarrow> 'c state res) \<Rightarrow> ('t tracer_ops \<Rightarrow> 'd state \<Rightarrow> 't \<Rightarrow> ('d state \<times> 't) res) \<Rightarrow> bool" where
  "same_alu c C family f use_imm i h rh \<longleftrightarrow>
     h = alu c C family f use_imm i \<and> rh = (\<lambda>T. replay_alu c T family f use_imm i)"

lemma same_alu_row_step:
  assumes "same_alu c C family f use_imm i h rh" and "fresh 0 s" and "h s = Inr s'"
  shows "row_step (rs1 i, if use_imm then 0 else rs2 i, rd i) rh s s'"
  using assms replay_alu_row_step unfolding same_alu_def by blast

lemma second_operand_register:
  "second_operand c False i s = read_register c 1 (rs2 i) s"
  "replay_second_operand c False i s =
     bindR (read_register_with_ts c 1 (rs2 i) s) (\<lambda>(v, ts, s). Inr (v, ts, v, s))"
  by (simp_all add: second_operand_def replay_second_operand_def)

lemmas same_alu_defs = same_alu_def alu_def replay_alu_def Let_def second_operand_register bindR_assoc

lemma same_alus:
  "same_alu c C ADD_SUB_LUI_AUIPC_MOP_CIRCUIT_FAMILY_IDX (\<lambda>a b. Inr (a + b)) u i
     (add_op c C u i) (\<lambda>T. replay_add_op c T u i)"
  "same_alu c C ADD_SUB_LUI_AUIPC_MOP_CIRCUIT_FAMILY_IDX (\<lambda>a b. Inr (a - b)) False i
     (sub_op c C i) (\<lambda>T. replay_sub_op c T i)"
  "same_alu c C SHIFT_BINARY_CSR_CIRCUIT_FAMILY_IDX (\<lambda>a b. Inr (a AND b)) u i
     (and_op c C u i) (\<lambda>T. replay_and_op c T u i)"
  "same_alu c C SHIFT_BINARY_CSR_CIRCUIT_FAMILY_IDX (\<lambda>a b. Inr (a OR b)) u i
     (or_op c C u i) (\<lambda>T. replay_or_op c T u i)"
  "same_alu c C SHIFT_BINARY_CSR_CIRCUIT_FAMILY_IDX (\<lambda>a b. Inr (a XOR b)) u i
     (xor_op c C u i) (\<lambda>T. replay_xor_op c T u i)"
  "same_alu c C SHIFT_BINARY_CSR_CIRCUIT_FAMILY_IDX (\<lambda>a b. Inr (push_bit (unat b mod 32) a)) u i
     (sll c C u i) (\<lambda>T. replay_sll c T u i)"
  "same_alu c C SHIFT_BINARY_CSR_CIRCUIT_FAMILY_IDX (\<lambda>a b. Inr (drop_bit (unat b mod 32) a)) u i
     (srl c C u i) (\<lambda>T. replay_srl c T u i)"
  "same_alu c C SHIFT_BINARY_CSR_CIRCUIT_FAMILY_IDX (\<lambda>a b. Inr (signed_drop_bit (unat b mod 32) a)) u i
     (sra c C u i) (\<lambda>T. replay_sra c T u i)"
  "same_alu c C JUMP_BRANCH_SLT_CIRCUIT_FAMILY_IDX (\<lambda>a b. Inr (if sint a < sint b then 1 else 0)) u i
     (slt c C u i) (\<lambda>T. replay_slt c T u i)"
  "same_alu c C JUMP_BRANCH_SLT_CIRCUIT_FAMILY_IDX (\<lambda>a b. Inr (if a < b then 1 else 0)) u i
     (sltu c C u i) (\<lambda>T. replay_sltu c T u i)"
  "same_alu c C MUL_DIV_CIRCUIT_FAMILY_IDX (\<lambda>a b. Inr (a * b)) False i
     (mul c C i) (\<lambda>T. replay_mul c T i)"
  "same_alu c C MUL_DIV_CIRCUIT_FAMILY_IDX (\<lambda>a b. Inr (ucast (drop_bit 32 ((ucast a :: u64) * ucast b)))) False i
     (mulhu c C i) (\<lambda>T. replay_mulhu c T i)"
  "same_alu c C MUL_DIV_CIRCUIT_FAMILY_IDX (\<lambda>a b. Inr (if b = 0 then 0xffffffff else a div b)) False i
     (divu c C i) (\<lambda>T. replay_divu c T i)"
  "same_alu c C MUL_DIV_CIRCUIT_FAMILY_IDX (\<lambda>a b. Inr (if b = 0 then a else a mod b)) False i
     (remu c C i) (\<lambda>T. replay_remu c T i)"
  by (simp_all add: same_alu_defs fun_eq_iff case_prod_unfold
      add_op_def replay_add_op_def sub_op_def replay_sub_op_def and_op_def replay_and_op_def or_op_def replay_or_op_def xor_op_def replay_xor_op_def sll_def replay_sll_def srl_def replay_srl_def sra_def replay_sra_def slt_def replay_slt_def sltu_def replay_sltu_def mul_def replay_mul_def mulhu_def replay_mulhu_def divu_def replay_divu_def remu_def replay_remu_def cong: if_cong)

lemma same_mops:
  "same_alu c C ADD_SUB_LUI_AUIPC_MOP_CIRCUIT_FAMILY_IDX
     (\<lambda>a b. bindR (from_nonreduced_u32 c a) (\<lambda>x. bindR (from_nonreduced_u32 c b) (\<lambda>y.
        Inr (to_reduced_u32 (add_mod x y))))) False i (mop_addmod c C i) (\<lambda>T. replay_mop_addmod c T i)"
  "same_alu c C ADD_SUB_LUI_AUIPC_MOP_CIRCUIT_FAMILY_IDX
     (\<lambda>a b. bindR (from_nonreduced_u32 c a) (\<lambda>x. bindR (from_nonreduced_u32 c b) (\<lambda>y.
        Inr (to_reduced_u32 (sub_mod x y))))) False i (mop_submod c C i) (\<lambda>T. replay_mop_submod c T i)"
  "same_alu c C ADD_SUB_LUI_AUIPC_MOP_CIRCUIT_FAMILY_IDX
     (\<lambda>a b. bindR (from_nonreduced_u32 c a) (\<lambda>x. bindR (from_nonreduced_u32 c b) (\<lambda>y.
        Inr (to_reduced_u32 (mul_mod x y))))) False i (mop_mulmod c C i) (\<lambda>T. replay_mop_mulmod c T i)"
  by (simp_all add: same_alu_defs fun_eq_iff case_prod_unfold mop_addmod_def replay_mop_addmod_def
      mop_submod_def replay_mop_submod_def mop_mulmod_def replay_mop_mulmod_def)

lemmas alu_row_steps = same_alus [THEN same_alu_row_step] same_mops [THEN same_alu_row_step]

section \<open>Upper immediates, jumps and branches\<close>

text \<open>The replay touches \<open>x0\<close> twice where the machine does once.\<close>

lemma touch_twice:
  assumes "touch_x0 c 1 s = Inr s'" and "fresh 0 s"
  obtains s1 where "touch_x0 c 0 s = Inr s1" "touch_x0 c 1 s1 = Inr s'"
    "accessed 0 0 0 s s1" "accessed 1 0 0 s1 s'" "fresh 1 s1"
proof -
  let ?s1 = "set_register 0 (timestamp s OR 0) (reg_value (registers s 0)) s"
  have lt: "timestamp s < (timestamp s OR 1)" using or_offsets(1) [of "timestamp s"] assms(2) by (simp add: fresh_def)
  have 0: "touch_x0 c 0 s = Inr ?s1"
    using assms(2) by (simp add: touch_x0_def register_access_def fresh_def)
  have f1: "fresh 1 ?s1"
    using fresh_set [OF assms(2), of 1 0 "reg_value (registers s 0)"] lt assms(2) by (simp add: fresh_def)
  have 1: "touch_x0 c 1 ?s1 = Inr s'"
    using assms(1) f1 lt by (auto simp: touch_x0_def register_access_def res_simps set_register_def fresh_def)
  show thesis
    using that [OF 0 1 touch_accessed [OF 0 assms(2)] touch_accessed [OF 1 f1] f1] .
qed

lemma accessed_fresh:
  "accessed 0 i v s s' \<Longrightarrow> fresh 0 s \<Longrightarrow> fresh 1 s'" "accessed 1 i v s s' \<Longrightarrow> fresh 1 s \<Longrightarrow> fresh 2 s'"
  using or_offsets(1,2) [of "timestamp s"] by (auto simp: accessed_def fresh_def)

lemma accessed_pc: "accessed off i v s s' \<Longrightarrow> pc s' = pc s"
  by (simp add: accessed_def)

lemma write_register_pc:
  "write_register c off i v (s \<lparr> pc := p \<rparr>) =
     bindR (write_register c off i v s) (\<lambda>(v', s'). Inr (v', s' \<lparr> pc := p \<rparr>))"
  by (simp add: write_register_def register_access_def guardR_def debug_assert_def set_register_def Let_def)

lemma upper_row_steps:
  assumes s: "fresh 0 s"
  shows "lui c C i s = Inr s' \<Longrightarrow> row_step (0, 0, rd i) (\<lambda>T. replay_lui c T i) s s'"
    "auipc c C i s = Inr s' \<Longrightarrow> row_step (0, 0, rd i) (\<lambda>T. replay_auipc c T i) s s'"
proof -
  have *: "row_step (0, 0, rd i) f s s'"
    if t: "touch_x0 c 1 s = Inr s2" and w: "write_register c 2 (rd i) v s2 = Inr (v', s3)"
      and s': "increment_family_counter C fam (default_increase_pc s3) = Inr s'"
      and f: "\<And>T k t. f T (recount k s) t =
        bindR (touch_x0_with_ts c 0 (recount k s)) (\<lambda>(rs1_ts, s).
        bindR (touch_x0_with_ts c 1 s) (\<lambda>(rs2_ts, s).
        bindR (write_register_with_ts c 2 (rd i) v s) (\<lambda>(v, old, d_ts, s).
        bindR (trace_non_memory T fam (register_row s (0, rs1_ts) (0, rs2_ts) (old, v, d_ts) (pc s + 4) 0) t)
          (\<lambda>t. Inr (default_increase_pc s, t)))))"
    for f v v' s2 s3 fam
  proof -
    obtain s1 where 1: "touch_x0 c 0 s = Inr s1" "touch_x0 c 1 s1 = Inr s2"
      "accessed 0 0 0 s s1" "accessed 1 0 0 s1 s2" "fresh 1 s1"
      by (rule touch_twice [OF t s])
    note rec = increment_recount [OF s']
    show ?thesis
      by (rule row_stepI [where va = 0 and vb = 0 and delegation = 0 and p = "pc s3 + 4" and family = fam,
            OF s 1(3) _ 1(4) _ write_accessed(2) [OF w]])
        (use s 1(5) in \<open>simp_all add: fresh_def rec f with_ts 1(1,2) w default_increase_pc_def recount_updates Let_def
          register_row_def Let_def\<close>)
  qed
  show "row_step (0, 0, rd i) (\<lambda>T. replay_lui c T i) s s'" if "lui c C i s = Inr s'"
    using that s
    by (auto simp: lui_def Let_def res_simps intro!: *) (auto simp: replay_lui_def fresh_def debug_assert_def)
  show "row_step (0, 0, rd i) (\<lambda>T. replay_auipc c T i) s s'" if "auipc c C i s = Inr s'"
  proof -
    from that obtain s2 v' s3 where a: "debug_assertions c \<longrightarrow> rs1 i = 0" "debug_assertions c \<longrightarrow> rs2 i = 0"
      "touch_x0 c 1 s = Inr s2" "write_register c 2 (rd i) (pc s2 + imm i) s2 = Inr (v', s3)"
      "increment_family_counter C ADD_SUB_LUI_AUIPC_MOP_CIRCUIT_FAMILY_IDX (default_increase_pc s3) = Inr s'"
      by (auto simp: auipc_def Let_def res_simps)
    show ?thesis
    proof (rule * [OF a(3-5)])
      fix T k t
      obtain s1 where "touch_x0 c 0 s = Inr s1" "touch_x0 c 1 s1 = Inr s2"
        by (rule touch_twice [OF a(3) s])
      with a show "replay_auipc c T i (recount k s) t =
        bindR (touch_x0_with_ts c 0 (recount k s)) (\<lambda>(rs1_ts, s).
        bindR (touch_x0_with_ts c 1 s) (\<lambda>(rs2_ts, s).
        bindR (write_register_with_ts c 2 (rd i) (pc s2 + imm i) s) (\<lambda>(v, old, d_ts, s).
        bindR (trace_non_memory T ADD_SUB_LUI_AUIPC_MOP_CIRCUIT_FAMILY_IDX
          (register_row s (0, rs1_ts) (0, rs2_ts) (old, v, d_ts) (pc s + 4) 0) t)
          (\<lambda>t. Inr (default_increase_pc s, t)))))"
        by (auto simp: replay_auipc_def debug_assert_def with_ts)
    qed
  qed
qed

text \<open>The machine moves the program counter before it writes \<open>rd\<close>, the replay after.\<close>

lemma jal_row_step:
  assumes s: "fresh 0 s" and vm: "jal c C i s = Inr s'"
  shows "row_step (0, 0, rd i) (\<lambda>T. replay_jal c T i) s s'"
proof -
  from vm obtain s2 v s3 where t: "touch_x0 c 1 s = Inr s2"
    and w: "write_register c 2 (rd i) (pc s2 + 4) s2 = Inr (v, s3)"
    and s': "increment_family_counter C JUMP_BRANCH_SLT_CIRCUIT_FAMILY_IDX (s3 \<lparr> pc := pc s2 + imm i \<rparr>) = Inr s'"
    by (auto simp: jal_def Let_def res_simps write_register_pc)
  obtain s1 where 1: "touch_x0 c 0 s = Inr s1" "touch_x0 c 1 s1 = Inr s2"
    "accessed 0 0 0 s s1" "accessed 1 0 0 s1 s2" "fresh 1 s1"
    by (rule touch_twice [OF t s])
  note rec = increment_recount [OF s'] and acc = write_accessed(2) [OF w]
  show ?thesis
    by (rule row_stepI [where va = 0 and vb = 0 and delegation = 0 and p = "pc s3 + imm i"
          and family = JUMP_BRANCH_SLT_CIRCUIT_FAMILY_IDX, OF s 1(3) _ 1(4) _ acc])
      (use s 1(5) accessed_pc [OF acc] in \<open>simp_all add: fresh_def rec replay_jal_def with_ts 1(1,2) w recount_updates Let_def
        register_row_def\<close>)
qed

lemma jalr_row_step:
  assumes s: "fresh 0 s" and vm: "jalr c C i s = Inr s'"
  shows "row_step (rs1 i, 0, rd i) (\<lambda>T. replay_jalr c T i) s s'"
proof -
  let ?to = "\<lambda>a. (a + imm i) AND NOT 0x1"
  from vm obtain a s1 s2 v s3 where 1: "read_register c 0 (rs1 i) s = Inr (a, s1)"
    and 2: "touch_x0 c 1 s1 = Inr s2"
    and w: "write_register c 2 (rd i) (pc s2 + 4) s2 = Inr (v, s3)"
    and s': "increment_family_counter C JUMP_BRANCH_SLT_CIRCUIT_FAMILY_IDX (s3 \<lparr> pc := ?to a \<rparr>) = Inr s'"
    by (auto simp: jalr_def Let_def res_simps write_register_pc)
  note acc1 = read_accessed [OF 1 s]
  note f1 = accessed_fresh(1) [OF acc1(2) s]
  note rec = increment_recount [OF s'] and acc2 = touch_accessed [OF 2 f1] and acc = write_accessed(2) [OF w]
  show ?thesis
    by (rule row_stepI [where vb = 0 and delegation = 0 and p = "?to a"
          and family = JUMP_BRANCH_SLT_CIRCUIT_FAMILY_IDX, OF s acc1(2,1) acc2 _ acc])
      (use f1 in \<open>simp_all add: fresh_def rec replay_jalr_def with_ts 1 2 w recount_updates register_row_def Let_def\<close>)
qed

lemma branch_row_step:
  assumes s: "fresh 0 s" and vm: "branch c C i s = Inr s'"
  shows "row_step (rs1 i, rs2 i, 0) (\<lambda>T. replay_branch c T i) s s'"
proof -
  from vm obtain a s1 b s2 jump v s3 p where 1: "read_register c 0 (rs1 i) s = Inr (a, s1)"
    and 2: "read_register c 1 (rs2 i) s1 = Inr (b, s2)"
    and jump: "branch_condition (rd i) a b = Inr jump"
    and w: "write_register c 2 0 0 s2 = Inr (v, s3)"
    and p: "p = (if jump then pc s2 + imm i else pc s2 + 4)"
    and s': "increment_family_counter C JUMP_BRANCH_SLT_CIRCUIT_FAMILY_IDX (s3 \<lparr> pc := p \<rparr>) = Inr s'"
    by (fastforce simp: branch_def Let_def res_simps write_register_pc default_increase_pc_def split: if_splits)
  note acc1 = read_accessed [OF 1 s]
  note f1 = accessed_fresh(1) [OF acc1(2) s]
  note rec = increment_recount [OF s'] and acc2 = read_accessed [OF 2 f1] and acc = write_accessed [OF w]
  show ?thesis
    by (rule row_stepI [where delegation = 0 and p = p
          and family = JUMP_BRANCH_SLT_CIRCUIT_FAMILY_IDX, OF s acc1(2,1) acc2(2,1) acc(2)])
      (use accessed_pc [OF acc(2)] in \<open>simp_all add: rec p replay_branch_def with_ts 1 2 w jump
        acc(1) recount_updates register_row_def Let_def\<close>)
qed

end
