(* ===== verification/ReplayMemory.thy ===== *)
theory ReplayMemory
  imports ReplayHandlers
begin

text \<open>
  The replay of the instructions on memory and on the non-determinism source: what the machine
  appended to the log answers the accesses of the replay. \<open>follows\<close> says what it is for the
  replay to do as the machine did, whatever the memory that holds the log and the tracer are;
  \<open>recording\<close> is what the machine needs for that.
\<close>

section \<open>Following the machine\<close>

definition suits ::
  "cfg \<Rightarrow> ruint_ops \<Rightarrow> nat \<Rightarrow> ('m, 't, 'n) replay_env \<Rightarrow> ('m \<Rightarrow> log_entry list) \<Rightarrow> ('m \<Rightarrow> bool) \<Rightarrow> ('t \<Rightarrow> bool) \<Rightarrow> bool" where
  "suits c U rom_limit E flat ready fine \<longleftrightarrow>
     rp_cfg E = c \<and> rp_ruint E = U \<and> tracing (rp_tracer E) fine \<and>
     replay_ram (rp_ram E) flat ready (debug_assertions c) rom_limit"

definition replay_at :: "'d \<Rightarrow> 'c state \<Rightarrow> 'm \<Rightarrow> 't \<Rightarrow> 'n \<Rightarrow> ('d, 'm, 't, 'n) replay_world" where
  "replay_at k s m t n = \<lparr> r_st = recount k s, r_ram = m, r_tracer = t, r_nd = n \<rparr>"

text \<open>
  From the state \<open>s\<close> and a log that begins with \<open>new\<close>, the step \<open>f\<close> reaches \<open>s'\<close> and the rest
  of the log, and hands the events \<open>evs\<close> to the tracer.
\<close>

definition follows ::
  "cfg \<Rightarrow> ruint_ops \<Rightarrow> nat \<Rightarrow>
   (('m, 't, 'n) replay_env \<Rightarrow> ('d, 'm, 't, 'n) replay_world \<Rightarrow> ('d, 'm, 't, 'n) replay_world res) \<Rightarrow>
   'c state \<Rightarrow> log_entry list \<Rightarrow> trace_event list \<Rightarrow> 'c state \<Rightarrow> bool" where
  "follows c U rom_limit f s new evs s' \<longleftrightarrow>
     (\<forall>E flat ready fine k m t n rest. suits c U rom_limit E flat ready fine \<longrightarrow>
        ready m \<longrightarrow> flat m = new @ rest \<longrightarrow> fine t \<longrightarrow>
        (\<exists>m' t'. f E (replay_at k s m t n) = Inr (replay_at k s' m' t' n) \<and>
           ready m' \<and> flat m' = rest \<and> fine t' \<and> foldR (emit (rp_tracer E)) evs t = Inr t'))"

text \<open>
  What an instruction adds to the log (at most the 62 words of a Keccak state) and to the
  transcript, and its replay.
\<close>

definition reproduced ::
  "cfg \<Rightarrow> ruint_ops \<Rightarrow> nat \<Rightarrow> instruction list \<Rightarrow>
   (('m, 't, 'n) replay_env \<Rightarrow> ('d, 'm, 't, 'n) replay_world \<Rightarrow> ('d, 'm, 't, 'n) replay_world res) \<Rightarrow>
   'c state \<Rightarrow> log_entry list \<Rightarrow> 'c state \<Rightarrow> log_entry list \<Rightarrow> bool" where
  "reproduced c U rom_limit tape f s l s' l' \<longleftrightarrow> (\<exists>new evs. l' = l @ new \<and> length new \<le> 62 \<and> list_all shaped_event evs \<and>
     certified tape evs s (tick s') \<and> follows c U rom_limit f s new evs s')"

lemma row_step_reproduced:
  fixes f :: "'t tracer_ops \<Rightarrow> 'd state \<Rightarrow> 't \<Rightarrow> ('d state \<times> 't) res"
  assumes "row_step (operands (fetch tape (recount () s))) f s s'"
  shows "reproduced c U rom_limit tape (\<lambda>E. on_tracer (f (rp_tracer E))) s l s' l"
proof -
  from assms obtain family row where row: "\<not> is_delegation_row row"
    "check_row (operands (fetch tape (recount () s))) row (recount () s) = Inr (recount () (tick s'))"
    "\<And>T k t. f T (recount k s) t = bindR (trace_non_memory T family row t) (\<lambda>t. Inr (recount k s', t))"
    by (auto simp: row_step_def)
  have "certified tape [Row family row] s (tick s')" using row(1,2) by (simp add: certified_def)
  moreover have "follows c U rom_limit (\<lambda>E. on_tracer (f (rp_tracer E))) s [] [Row family row] s'"
    unfolding follows_def
  proof (intro allI impI)
    fix E :: "('m, 't, 'n) replay_env" and flat ready fine k m t n rest
    assume E: "suits c U rom_limit E flat ready fine" "fine t" "ready m" "flat m = [] @ rest"
    then obtain t' where "trace_non_memory (rp_tracer E) family row t = Inr t'" "fine t'"
      using tracing.emit_returns [of "rp_tracer E" fine t "Row family row"] by (auto simp: suits_def)
    with E show "\<exists>m' t'. on_tracer (f (rp_tracer E)) (replay_at k s m t n) = Inr (replay_at k s' m' t' n) \<and>
        ready m' \<and> flat m' = rest \<and> fine t' \<and> foldR (emit (rp_tracer E)) [Row family row] t = Inr t'"
      by (auto simp: on_tracer_def replay_at_def row(3))
  qed
  ultimately show ?thesis
    unfolding reproduced_def by (intro exI [of _ "[]"] exI [of _ "[Row family row]"]) simp
qed

section \<open>The machine that records\<close>

text \<open>
  What the debug assertions of the memory establish, which are those the replay makes.
\<close>

locale recording = vm_parts E tot content stamp mapped writable log ok
  for E :: "('c, 'm, 's, 'n) vm_env" and tot content stamp mapped writable log ok +
  assumes peek_asserts: "peek_word (vm_ram E) a m = Inr v \<Longrightarrow> debug_assertions (vm_cfg E) \<Longrightarrow> a mod 4 = 0"
    and read_asserts: "read_word (vm_ram E) a t m = Inr ((rt, v), m') \<Longrightarrow> debug_assertions (vm_cfg E) \<Longrightarrow>
      a mod 4 = 0 \<and> rt < (t OR 1)"
    and write_asserts: "write_word (vm_ram E) a x t m = Inr ((rt, v), m') \<Longrightarrow> debug_assertions (vm_cfg E) \<Longrightarrow>
      a mod 4 = 0 \<and> rt < (t OR 2)"

interpretation rom_recording: recording "rom_machine c ND U" families_total rom_content rom_stamp
  "\<lambda>m. {..<backing_len m}" "\<lambda>m. {rom_bytes c div 4..}" vec_log.taken_log vec_log.partitioned
  for c ND U
  by unfold_locales (auto simp: rom_machine_def rom_ram_ops_def rom_defs res_simps)

section \<open>Loads\<close>

text \<open>The row of a load, with the value the mask leaves.\<close>

definition loaded_row ::
  "nat \<Rightarrow> 'c state \<Rightarrow> u32 \<times> u64 \<Rightarrow> u32 \<Rightarrow> u32 \<times> u64 \<Rightarrow> u32 \<times> u32 \<times> u64 \<Rightarrow> MemoryOpcodeTracingDataWithTimestamp" where
  "loaded_row rom_limit s a address b d =
     \<lparr> m_opcode_data =
         \<lparr> l_initial_pc = pc s, l_rs1_value = fst a, l_aligned_ram_address = address,
           l_aligned_ram_read_value = (if unat address < rom_limit then 0 else fst b),
           l_rd_old_value = fst d, l_rd_value = fst (snd d) \<rparr>,
       discr = MEM_LOAD_TRACE_DATA_MARKER,
       m_rs1_read_timestamp = from_scalar (snd a),
       m_rs2_or_ram_read_timestamp = from_scalar (snd b),
       m_rd_or_ram_read_timestamp = from_scalar (snd (snd d)),
       m_cycle_timestamp = from_scalar (timestamp s) \<rparr>"

lemma load_row_eq:
  assumes "replay_ram (rp_ram E) flat ready dbg rom_limit" and "dbg \<longrightarrow> address mod 4 = 0"
  shows "load_row E m (recount k s) a address b d = Inr (loaded_row rom_limit s a address b d)"
  using replay_ram.mask_returns [OF assms] by (simp add: load_row_def loaded_row_def)

lemma check_load_row:
  assumes s: "fresh 0 s"
    and 1: "accessed 0 a va s s1" "va = reg_value (registers s (unat a))"
    and 3: "accessed 2 d v s1 s3"
    and fin: "recount () s' = recount () (s3 \<lparr> pc := pc s3 + 4 \<rparr>)"
  shows "check_load (a, b, d)
     (loaded_row rom_limit s3 (va, reg_timestamp (registers s (unat a))) address x
        (reg_value (registers s1 (unat d)), v, reg_timestamp (registers s1 (unat d))))
     (recount () s) = Inr (recount () (tick s'))"
proof -
  have t: "timestamp s1 = timestamp s" "timestamp s3 = timestamp s" "pc s3 = pc s" "pc s1 = pc s"
    using 1(1) 3 by (auto simp: accessed_def)
  have f1: "fresh 2 s1" using accessed_fresh(1) [OF 1(1) s] by (rule fresh_later)
  have "recount () (tick s') = tick (recount () s')" by (simp add: tick_recount)
  then show ?thesis
    using 1 3 s f1
    by (simp add: check_load_def loaded_row_def starts_at_def accessed_def t next_cycle_tick fin tick_recount)
qed

text \<open>The shape of the three loads: a check and an alignment of the address, a cast of the word.\<close>

definition vm_load where
  "vm_load E family good align cast i w =
     (let c = vm_cfg E in
      bindR (read_register c 0 (rs1 i) (st w)) (\<lambda>(a, s).
      let address = a + imm i in
      guardR (good address) UnalignedAccess
      (bindR (read_word (vm_ram E) (align address) (timestamp s OR 1) (ram w)) (\<lambda>((rt, old), m).
       bindR (write_register c 2 (rd i) (cast address old) s) (\<lambda>(_, s).
       bindR (append_memory_read (vm_snap E) (align address) old rt (timestamp s OR 1) (snap w)) (\<lambda>sn.
       bindR (increment_family_counter (vm_counters E) family (default_increase_pc s)) (\<lambda>s.
       Inr (w \<lparr> st := s, ram := m, snap := sn \<rparr>))))))))"

definition replay_load where
  "replay_load family good align cast i E w =
     (let c = rp_cfg E in
      bindR (read_register_with_ts c 0 (rs1 i) (r_st w)) (\<lambda>(a, a_ts, s).
      let address = a + imm i in
      debug_assert (debug_assertions c) (good address)
      (bindR (read_word (rp_ram E) (align address) (timestamp s OR 1) (r_ram w)) (\<lambda>((rt, old), m).
       bindR (write_register_with_ts c 2 (rd i) (cast address old) s) (\<lambda>(v, rd_old, d_ts, s).
       bindR (trace_memory (rp_tracer E) family
                (load_row E m s (a, a_ts) (align address) (old, rt) (rd_old, v, d_ts)) (r_tracer w)) (\<lambda>t.
       Inr (w \<lparr> r_st := default_increase_pc s, r_ram := m, r_tracer := t \<rparr>)))))))"

lemma load_forms:
  "lw E i w = vm_load E LOAD_STORE_WORD_ONLY_CIRCUIT_FAMILY_IDX (\<lambda>a. a mod 4 = 0) (\<lambda>a. a) (\<lambda>a v. v) i w"
  "lh E sign i w = vm_load E LOAD_STORE_SUBWORD_ONLY_CIRCUIT_FAMILY_IDX (\<lambda>a. a mod 2 = 0) (\<lambda>a. a AND NOT 3)
     (halfword_of sign) i w"
  "lb E sign i w = vm_load E LOAD_STORE_SUBWORD_ONLY_CIRCUIT_FAMILY_IDX (\<lambda>a. True) (\<lambda>a. a AND NOT 3)
     (byte_of sign) i w"
  by (simp_all add: lw_def lh_def lb_def vm_load_def Let_def)

lemma replay_loads:
  "replay_lw E i w = replay_load LOAD_STORE_WORD_ONLY_CIRCUIT_FAMILY_IDX (\<lambda>a. a mod 4 = 0) (\<lambda>a. a) (\<lambda>a v. v) i E w"
  "replay_lh E sign i w = replay_load LOAD_STORE_SUBWORD_ONLY_CIRCUIT_FAMILY_IDX (\<lambda>a. a mod 2 = 0) (\<lambda>a. a AND NOT 3)
     (halfword_of sign) i E w"
  "replay_lb E sign i w = replay_load LOAD_STORE_SUBWORD_ONLY_CIRCUIT_FAMILY_IDX (\<lambda>a. True) (\<lambda>a. a AND NOT 3)
     (byte_of sign) i E w"
  by (simp_all add: replay_lw_def replay_lh_def replay_lb_def replay_load_def Let_def)

lemma or_absorb: "(t OR 1) OR 1 = (t OR 1 :: u64)" "(t OR 2) OR 2 = (t OR 2 :: u64)"
  by (simp_all add: or.assoc)

lemma returns_access:
  "returns r (\<lambda>(p, m'). p = q \<and> ready m' \<and> flat m' = rest) \<Longrightarrow>
     \<exists>m'. r = Inr (q, m') \<and> ready m' \<and> flat m' = rest"
  by (auto simp: returns_def)

context recording
begin

lemma load_reproduced:
  assumes s: "fresh 0 (st w)" and ok: "ok (snap w)"
    and i: "i = fetch tape (recount () (st w))" "operands i = (rs1 i, b', rd i)"
    and vm: "vm_load E family good align cast i w = Inr w'"
  shows "reproduced (vm_cfg E) U rom_limit tape (replay_load family good align cast i)
    (st w) (log (snap w)) (st w') (log (snap w'))"
proof -
  let ?c = "vm_cfg E" and ?s = "st w"
  from vm obtain a s1 rt old m v s3 sn s' where
    1: "read_register ?c 0 (rs1 i) ?s = Inr (a, s1)" and
    good: "good (a + imm i)" and
    rd: "read_word (vm_ram E) (align (a + imm i)) (timestamp s1 OR 1) (ram w) = Inr ((rt, old), m)" and
    3: "write_register ?c 2 (rd i) (cast (a + imm i) old) s1 = Inr (v, s3)" and
    app: "append_memory_read (vm_snap E) (align (a + imm i)) old rt (timestamp s3 OR 1) (snap w) = Inr sn" and
    inc: "increment_family_counter (vm_counters E) family (default_increase_pc s3) = Inr s'" and
    w': "w' = w \<lparr> st := s', ram := m, snap := sn \<rparr>"
    by (auto simp: vm_load_def Let_def res_simps)
  note acc1 = read_accessed [OF 1 s] and acc3 = write_accessed(2) [OF 3] and rec = increment_recount [OF inc]
  have t1: "timestamp s3 = timestamp s1" using acc3 by (simp add: accessed_def)
  let ?row = "loaded_row rom_limit s3 (a, reg_timestamp (registers ?s (unat (rs1 i)))) (align (a + imm i)) (old, rt)
      (reg_value (registers s1 (unat (rd i))), v, reg_timestamp (registers s1 (unat (rd i))))"
  have log: "log (snap w') = log (snap w) @ [(old, timestamp_halves rt)]"
    using memory_log [OF app ok] by (simp add: w')
  have cert: "certified tape [MemRow family ?row] ?s (tick s')"
  proof -
    have "check_load (rs1 i, b', rd i) ?row (recount () ?s) = Inr (recount () (tick s'))"
      by (rule check_load_row [OF s acc1(2,1) acc3]) (simp add: rec default_increase_pc_def)
    moreover have "discr ?row \<noteq> MEM_STORE_TRACE_DATA_MARKER"
      by (simp add: loaded_row_def MEM_STORE_TRACE_DATA_MARKER_def MEM_LOAD_TRACE_DATA_MARKER_def)
    ultimately show ?thesis unfolding certified_def using i by simp
  qed
  have "follows ?c U rom_limit (replay_load family good align cast i) ?s
      [(old, timestamp_halves rt)] [MemRow family ?row] s'"
    unfolding follows_def
  proof (intro allI impI)
    fix E' flat ready fine k m0 t n rest
    assume E': "suits ?c U rom_limit E' flat ready fine" and m0: "ready m0"
      "flat m0 = [(old, timestamp_halves rt)] @ rest" and t: "fine t"
    then have R: "replay_ram (rp_ram E') flat ready (debug_assertions ?c) rom_limit" and c: "rp_cfg E' = ?c"
      by (simp_all add: suits_def)
    have dbg: "debug_assertions ?c \<longrightarrow> align (a + imm i) mod 4 = 0 \<and> log_timestamp (timestamp_halves rt) < timestamp s1 OR 1"
      using read_asserts [OF rd] by (simp add: or_absorb)
    obtain m' where m': "read_word (rp_ram E') (align (a + imm i)) (timestamp s1 OR 1) m0 = Inr ((rt, old), m')"
      "ready m'" "flat m' = rest"
      using returns_access [OF replay_ram.read_next [OF R m0(1) _ dbg]] m0(2) by auto
    obtain t' where t': "trace_memory (rp_tracer E') family (Inr ?row) t = Inr t'" "fine t'"
      using tracing.emit_returns [of "rp_tracer E'" fine t "MemRow family ?row"] E' t by (auto simp: suits_def)
    have "replay_load family good align cast i E' (replay_at k ?s m0 t n) = Inr (replay_at k s' m' t' n)"
      using dbg by (simp add: replay_load_def replay_at_def c with_ts 1 3 good m'(1) load_row_eq [OF R] t'(1) rec recount_updates)
    with m' t' show "\<exists>m' t'. replay_load family good align cast i E' (replay_at k ?s m0 t n) = Inr (replay_at k s' m' t' n) \<and>
        ready m' \<and> flat m' = rest \<and> fine t' \<and> foldR (emit (rp_tracer E')) [MemRow family ?row] t = Inr t'"
      by auto
  qed
  with cert log show ?thesis
    unfolding reproduced_def w' by (intro exI [of _ "[(old, timestamp_halves rt)]"] exI [of _ "[MemRow family ?row]"]) simp
qed

end

section \<open>Stores\<close>

text \<open>
  The shape of the three stores: a sub-word store peeks at the word first and merges the value
  into it.
\<close>

definition new_word :: "bool \<Rightarrow> (u32 \<Rightarrow> u32 \<Rightarrow> u32 \<Rightarrow> u32 res) \<Rightarrow> u32 res \<Rightarrow> u32 \<Rightarrow> u32 \<Rightarrow> u32 res" where
  "new_word sub merge peek address v =
     (if sub then bindR peek (merge address v) else Inr v)"

definition vm_store where
  "vm_store E family good align sub merge i w =
     (let c = vm_cfg E in
      bindR (read_register c 0 (rs1 i) (st w)) (\<lambda>(a, s).
      bindR (read_register c 1 (rs2 i) s) (\<lambda>(b, s).
      let address = a + imm i in
      guardR (good address) UnalignedAccess
      (bindR (new_word sub merge (peek_word (vm_ram E) (align address) (ram w)) address b) (\<lambda>v.
       bindR (write_word (vm_ram E) (align address) v (timestamp s OR 2) (ram w)) (\<lambda>((rt, old), m).
       bindR (append_memory_read (vm_snap E) (align address) old rt (timestamp s OR 2) (snap w)) (\<lambda>sn.
       bindR (increment_family_counter (vm_counters E) family (default_increase_pc s)) (\<lambda>s.
       Inr (w \<lparr> st := s, ram := m, snap := sn \<rparr>)))))))))"

definition replay_store where
  "replay_store family good align sub merge i E w =
     (let c = rp_cfg E in
      bindR (read_register_with_ts c 0 (rs1 i) (r_st w)) (\<lambda>(a, a_ts, s).
      bindR (read_register_with_ts c 1 (rs2 i) s) (\<lambda>(b, b_ts, s).
      let address = a + imm i in
      debug_assert (debug_assertions c) (good address)
      (bindR (new_word sub merge (peek_word (rp_ram E) (align address) (r_ram w)) address b) (\<lambda>v.
       bindR (write_word (rp_ram E) (align address) v (timestamp s OR 2) (r_ram w)) (\<lambda>((rt, old), m).
       bindR (trace_memory (rp_tracer E) family
                (Inr (store_row s (a, a_ts) (b, b_ts) (align address) (old, v, rt))) (r_tracer w)) (\<lambda>t.
       Inr (w \<lparr> r_st := default_increase_pc s, r_ram := m, r_tracer := t \<rparr>))))))))"

definition merge_half :: "u32 \<Rightarrow> u32 \<Rightarrow> u32 \<Rightarrow> u32 res" where
  "merge_half address v old =
     bindR (sh_mask address) (\<lambda>mask'. Inr (merge_subword address (v AND 0x0000ffff) old mask'))"

definition merge_byte :: "u32 \<Rightarrow> u32 \<Rightarrow> u32 \<Rightarrow> u32 res" where
  "merge_byte address v old =
     bindR (sb_mask address) (\<lambda>mask'. Inr (merge_subword address (v AND 0x000000ff) old mask'))"

lemma store_forms:
  "sw E i w = vm_store E LOAD_STORE_WORD_ONLY_CIRCUIT_FAMILY_IDX (\<lambda>a. a mod 4 = 0) (\<lambda>a. a) False merge i w"
  "sh E i w = vm_store E LOAD_STORE_SUBWORD_ONLY_CIRCUIT_FAMILY_IDX (\<lambda>a. a mod 2 = 0) (\<lambda>a. a AND NOT 3)
     True merge_half i w"
  "sb E i w = vm_store E LOAD_STORE_SUBWORD_ONLY_CIRCUIT_FAMILY_IDX (\<lambda>a. True) (\<lambda>a. a AND NOT 3)
     True merge_byte i w"
  by (simp_all add: sw_def sh_def sb_def vm_store_def new_word_def merge_half_def merge_byte_def Let_def
      bindR_assoc case_prod_unfold)

lemma replay_stores:
  "replay_sw E i w = replay_store LOAD_STORE_WORD_ONLY_CIRCUIT_FAMILY_IDX (\<lambda>a. a mod 4 = 0) (\<lambda>a. a) False merge i E w"
  "replay_sh E i w = replay_store LOAD_STORE_SUBWORD_ONLY_CIRCUIT_FAMILY_IDX (\<lambda>a. a mod 2 = 0) (\<lambda>a. a AND NOT 3)
     True merge_half i E w"
  "replay_sb E i w = replay_store LOAD_STORE_SUBWORD_ONLY_CIRCUIT_FAMILY_IDX (\<lambda>a. True) (\<lambda>a. a AND NOT 3)
     True merge_byte i E w"
  by (simp_all add: replay_sw_def replay_sh_def replay_sb_def replay_store_def new_word_def merge_half_def
      merge_byte_def Let_def bindR_assoc case_prod_unfold)

lemma check_store_row:
  assumes s: "fresh 0 s"
    and 1: "accessed 0 a va s s1" "va = reg_value (registers s (unat a))"
    and 2: "accessed 1 b vb s1 s2" "vb = reg_value (registers s1 (unat b))"
    and fin: "recount () s' = recount () (s2 \<lparr> pc := pc s2 + 4 \<rparr>)"
  shows "check_store (a, b, d)
     (store_row s2 (va, reg_timestamp (registers s (unat a))) (vb, reg_timestamp (registers s1 (unat b))) address x)
     (recount () s) = Inr (recount () (tick s'))"
proof -
  have t: "timestamp s1 = timestamp s" "timestamp s2 = timestamp s" "pc s2 = pc s" "pc s1 = pc s"
    using 1(1) 2(1) by (auto simp: accessed_def)
  note f1 = accessed_fresh(1) [OF 1(1) s]
  have "recount () (tick s') = tick (recount () s')" by (simp add: tick_recount)
  then show ?thesis
    using 1 2 s f1
    by (simp add: check_store_def store_row_def store_as_load_def load_as_store_def starts_at_def accessed_def t
        next_cycle_tick fin tick_recount)
qed

context recording
begin

lemma store_reproduced:
  assumes s: "fresh 0 (st w)" and ok: "ok (snap w)"
    and i: "i = fetch tape (recount () (st w))" "operands i = (rs1 i, rs2 i, d')"
    and vm: "vm_store E family good align sub merge i w = Inr w'"
  shows "reproduced (vm_cfg E) U rom_limit tape (replay_store family good align sub merge i)
    (st w) (log (snap w)) (st w') (log (snap w'))"
proof -
  let ?c = "vm_cfg E" and ?s = "st w"
  from vm obtain a s1 b s2 v rt old m sn s' where
    1: "read_register ?c 0 (rs1 i) ?s = Inr (a, s1)" and
    2: "read_register ?c 1 (rs2 i) s1 = Inr (b, s2)" and
    good: "good (a + imm i)" and
    v: "new_word sub merge (peek_word (vm_ram E) (align (a + imm i)) (ram w)) (a + imm i) b = Inr v" and
    wr: "write_word (vm_ram E) (align (a + imm i)) v (timestamp s2 OR 2) (ram w) = Inr ((rt, old), m)" and
    app: "append_memory_read (vm_snap E) (align (a + imm i)) old rt (timestamp s2 OR 2) (snap w) = Inr sn" and
    inc: "increment_family_counter (vm_counters E) family (default_increase_pc s2) = Inr s'" and
    w': "w' = w \<lparr> st := s', ram := m, snap := sn \<rparr>"
    by (auto simp: vm_store_def Let_def res_simps)
  note acc1 = read_accessed [OF 1 s]
  note acc2 = read_accessed [OF 2 accessed_fresh(1) [OF acc1(2) s]]
  note rec = increment_recount [OF inc]
  let ?row = "store_row s2 (a, reg_timestamp (registers ?s (unat (rs1 i))))
      (b, reg_timestamp (registers s1 (unat (rs2 i)))) (align (a + imm i)) (old, v, rt)"
  have log: "log (snap w') = log (snap w) @ [(old, timestamp_halves rt)]"
    using memory_log [OF app ok] by (simp add: w')
  have cert: "certified tape [MemRow family ?row] ?s (tick s')"
  proof -
    have "check_store (rs1 i, rs2 i, d') ?row (recount () ?s) = Inr (recount () (tick s'))"
      by (rule check_store_row [OF s acc1(2,1) acc2(2,1)]) (simp add: rec default_increase_pc_def)
    moreover have "discr ?row = MEM_STORE_TRACE_DATA_MARKER" by (simp add: store_row_def)
    ultimately show ?thesis unfolding certified_def using i by simp
  qed
  have v': "new_word sub merge (Inr old) (a + imm i) b = Inr v"
    using v peek_returns write_returns [OF wr] by (auto simp: new_word_def res_simps split: if_splits)
  have "follows ?c U rom_limit (replay_store family good align sub merge i) ?s
      [(old, timestamp_halves rt)] [MemRow family ?row] s'"
    unfolding follows_def
  proof (intro allI impI)
    fix E' flat ready fine k m0 t n rest
    assume E': "suits ?c U rom_limit E' flat ready fine" and m0: "ready m0"
      "flat m0 = [(old, timestamp_halves rt)] @ rest" and t: "fine t"
    then have R: "replay_ram (rp_ram E') flat ready (debug_assertions ?c) rom_limit" and c: "rp_cfg E' = ?c"
      by (simp_all add: suits_def)
    have dbg: "debug_assertions ?c \<longrightarrow> align (a + imm i) mod 4 = 0 \<and> log_timestamp (timestamp_halves rt) < timestamp s2 OR 2"
      using write_asserts [OF wr] by (simp add: or_absorb)
    have peek: "peek_word (rp_ram E') (align (a + imm i)) m0 = Inr old"
      by (rule replay_ram.peek_next [OF R m0(1)]) (use m0(2) dbg in auto)
    obtain m' where m': "write_word (rp_ram E') (align (a + imm i)) v (timestamp s2 OR 2) m0 = Inr ((rt, old), m')"
      "ready m'" "flat m' = rest"
      using returns_access [OF replay_ram.write_next [OF R m0(1) _ dbg]] m0(2) by auto
    obtain t' where t': "trace_memory (rp_tracer E') family (Inr ?row) t = Inr t'" "fine t'"
      using tracing.emit_returns [of "rp_tracer E'" fine t "MemRow family ?row"] E' t by (auto simp: suits_def)
    have row: "store_row (recount k s2) x y z u = store_row s2 x y z u" for x y z u
      by (simp add: store_row_def)
    have "replay_store family good align sub merge i E' (replay_at k ?s m0 t n) = Inr (replay_at k s' m' t' n)"
      by (simp add: replay_store_def replay_at_def c with_ts 1 2 good peek v' m'(1) row t'(1) rec recount_updates)
    with m' t' show "\<exists>m' t'. replay_store family good align sub merge i E' (replay_at k ?s m0 t n) = Inr (replay_at k s' m' t' n) \<and>
        ready m' \<and> flat m' = rest \<and> fine t' \<and> foldR (emit (rp_tracer E')) [MemRow family ?row] t = Inr t'"
      by auto
  qed
  with cert log show ?thesis
    unfolding reproduced_def w' by (intro exI [of _ "[(old, timestamp_halves rt)]"] exI [of _ "[MemRow family ?row]"]) simp
qed

end

section \<open>Non-determinism\<close>

lemma zero_halves: "log_timestamp (0, 0) = 0"
  by (simp add: log_timestamp_def)

context recording
begin

lemma nd_read_reproduced:
  assumes s: "fresh 0 (st w)" and ok: "ok (snap w)"
    and i: "i = fetch tape (recount () (st w))" "operands i = (0, 0, rd i)"
    and vm: "nd_read E i w = Inr w'"
  shows "reproduced (vm_cfg E) U rom_limit tape (\<lambda>E'. replay_nd_read E' i)
    (st w) (log (snap w)) (st w') (log (snap w'))"
proof -
  let ?c = "vm_cfg E" and ?s = "st w"
  from vm obtain s2 v n0 sn v' s3 s' where
    touch: "touch_x0 ?c 1 ?s = Inr s2" and
    app: "append_arbitrary_value (vm_snap E) v (snap w) = Inr sn" and
    3: "write_register ?c 2 (rd i) v s2 = Inr (v', s3)" and
    inc: "increment_family_counter (vm_counters E) SHIFT_BINARY_CSR_CIRCUIT_FAMILY_IDX (default_increase_pc s3) = Inr s'" and
    w': "w' = w \<lparr> st := s', snap := sn, nd := n0 \<rparr>"
    by (auto simp: nd_read_def Let_def res_simps)
  obtain s1 where 1: "touch_x0 ?c 0 ?s = Inr s1" "touch_x0 ?c 1 s1 = Inr s2"
    "accessed 0 0 0 ?s s1" "accessed 1 0 0 s1 s2" "fresh 1 s1"
    by (rule touch_twice [OF touch s])
  note acc3 = write_accessed(2) [OF 3] and rec = increment_recount [OF inc]
  let ?row = "register_row s3 (0, reg_timestamp (registers ?s (unat (0 :: u8)))) (0, reg_timestamp (registers s1 (unat (0 :: u8))))
      (reg_value (registers s2 (unat (rd i))), v', reg_timestamp (registers s2 (unat (rd i)))) (pc s3 + 4) (ucast NON_DETERMINISM_CSR)"
  let ?ev = "Row SHIFT_BINARY_CSR_CIRCUIT_FAMILY_IDX ?row"
  have log: "log (snap w') = log (snap w) @ [(v, 0, 0)]"
    using arbitrary_log [OF app ok] by (simp add: w')
  have "check_row (0, 0, rd i) ?row (recount () ?s) = Inr (recount () (tick s'))"
    by (rule check_register_row [OF s 1(3) _ 1(4) _ acc3])
      (use s 1(5) in \<open>simp_all add: fresh_def rec default_increase_pc_def\<close>)
  then have cert: "certified tape [?ev] ?s (tick s')"
    unfolding certified_def using i by (simp add: not_delegation_row)
  have "follows ?c U rom_limit (\<lambda>E'. replay_nd_read E' i) ?s [(v, 0, 0)] [?ev] s'"
    unfolding follows_def
  proof (intro allI impI)
    fix E' flat ready fine k m0 t n rest
    assume E': "suits ?c U rom_limit E' flat ready fine" and m0: "ready m0" "flat m0 = [(v, 0, 0)] @ rest" and t: "fine t"
    then have R: "replay_ram (rp_ram E') flat ready (debug_assertions ?c) rom_limit" and c: "rp_cfg E' = ?c"
      by (simp_all add: suits_def)
    obtain m' where m': "read_word (rp_ram E') (word_of_nat ROM_BYTE_SIZE) INITIAL_TIMESTAMP m0 = Inr ((0, v), m')"
      "ready m'" "flat m' = rest"
      using returns_access [OF replay_ram.read_next [OF R m0(1), of v "(0, 0)" rest "word_of_nat ROM_BYTE_SIZE" INITIAL_TIMESTAMP]]
        m0(2) by (auto simp: zero_halves code_consts)
    obtain t' where t': "trace_non_memory (rp_tracer E') SHIFT_BINARY_CSR_CIRCUIT_FAMILY_IDX ?row t = Inr t'" "fine t'"
      using tracing.emit_returns [of "rp_tracer E'" fine t ?ev] E' t by (auto simp: suits_def)
    have row: "register_row (recount k s3) x y z p d = register_row s3 x y z p d" for x y z p d
      by (simp add: register_row_def)
    have "replay_nd_read E' i (replay_at k ?s m0 t n) = Inr (replay_at k s' m' t' n)"
      using t'(1) by (simp add: replay_nd_read_def replay_nd_value_def replay_ram.stub [OF R] replay_at_def c with_ts
        1(1,2) 3 m'(1) row rec recount_updates)
    with m' t' show "\<exists>m' t'. replay_nd_read E' i (replay_at k ?s m0 t n) = Inr (replay_at k s' m' t' n) \<and>
        ready m' \<and> flat m' = rest \<and> fine t' \<and> foldR (emit (rp_tracer E')) [?ev] t = Inr t'"
      by auto
  qed
  with cert log show ?thesis
    unfolding reproduced_def w' by (intro exI [of _ "[(v, 0, 0)]"] exI [of _ "[?ev]"]) simp
qed

text \<open>A write of the source replays if the instruction names no destination.\<close>

lemma nd_write_row_step:
  assumes s: "fresh 0 (st w)" and d: "rd i = 0" and vm: "nd_write E i w = Inr w'"
  shows "row_step (rs1 i, 0, 0) (\<lambda>T. replay_nd_write (vm_cfg E) T i) (st w) (st w') \<and> snap w' = snap w"
proof -
  let ?c = "vm_cfg E" and ?s = "st w"
  from vm obtain a s1 s2 n0 v' s3 s' where
    1: "read_register ?c 0 (rs1 i) ?s = Inr (a, s1)" and
    2: "touch_x0 ?c 1 s1 = Inr s2" and
    3: "write_register ?c 2 0 0 s2 = Inr (v', s3)" and
    inc: "increment_family_counter (vm_counters E) SHIFT_BINARY_CSR_CIRCUIT_FAMILY_IDX (default_increase_pc s3) = Inr s'" and
    w': "w' = w \<lparr> st := s', nd := n0 \<rparr>"
    by (auto simp: nd_write_def Let_def res_simps d)
  note acc1 = read_accessed [OF 1 s]
  note f1 = accessed_fresh(1) [OF acc1(2) s]
  note acc2 = touch_accessed [OF 2 f1] and acc3 = write_accessed [OF 3] and rec = increment_recount [OF inc]
  note f2 = accessed_fresh(2) [OF acc2 f1]
  have touch: "touch_x0 ?c 2 s2 = Inr s3"
    using 3 f2 by (auto simp: write_register_def touch_x0_def register_access_def Let_def res_simps fresh_def)
  have "row_step (rs1 i, 0, 0) (\<lambda>T. replay_nd_write ?c T i) ?s s'"
    by (rule row_stepI [where vb = 0 and delegation = "ucast NON_DETERMINISM_CSR" and p = "pc s3 + 4"
          and family = SHIFT_BINARY_CSR_CIRCUIT_FAMILY_IDX, OF s acc1(2,1) acc2 _ acc3(2)])
      (use f1 f2 in \<open>simp_all add: fresh_def rec acc3(1) default_increase_pc_def replay_nd_write_def with_ts 1 2 touch
        recount_updates register_row_def\<close>)
  then show ?thesis by (simp add: w')
qed

end

end
