(* ===== verification/ReplayLog.thy ===== *)
theory ReplayLog
  imports ReplayMemory
begin

text \<open>
  The parts of the log a delegation appends, and the loops of the replay that read them: a
  segment of the log is a list of values with the timestamps of the accesses before.
\<close>

section \<open>Walking through memory\<close>

primrec addrs :: "nat \<Rightarrow> u32 \<Rightarrow> u32 list" where
  "addrs 0 a = []"
| "addrs (Suc n) a = a # addrs n (a + 4)"

text \<open>What the debug build checks at every step: alignment, and no overflow of the address.\<close>

definition walks :: "bool \<Rightarrow> nat \<Rightarrow> u32 \<Rightarrow> bool" where
  "walks dbg n a \<longleftrightarrow> (dbg \<longrightarrow> (\<forall>x \<in> set (addrs n a). x mod 4 = 0 \<and> unat x + 4 < 2 ^ 32))"

lemma walks_simps [simp]:
  "walks dbg 0 a" "walks dbg (Suc n) a \<longleftrightarrow> (dbg \<longrightarrow> a mod 4 = 0 \<and> unat a + 4 < 2 ^ 32) \<and> walks dbg n (a + 4)"
  unfolding walks_def addrs.simps list.set by blast+

lemma length_addrs [simp]: "length (addrs n a) = n"
  by (induction n arbitrary: a) simp_all

lemma addrs_add: "addrs (m + n) a = addrs m a @ addrs n (a + word_of_nat (4 * m))"
  by (induction m arbitrary: a) (simp_all add: algebra_simps)

lemma walks_add: "walks dbg (m + n) a \<longleftrightarrow> walks dbg m a \<and> walks dbg n (a + word_of_nat (4 * m))"
  by (auto simp: walks_def addrs_add)

lemma addrs_nth: "j < n \<Longrightarrow> addrs n a ! j = a + word_of_nat (4 * j)"
  by (induction n arbitrary: a j) (auto simp: nth_Cons algebra_simps split: nat.splits)

text \<open>In an aligned region the words are distinct.\<close>

lemma region_word_idx:
  fixes a :: u32
  assumes "a mod 32 = 0" "j < 8"
  shows "word_idx (a + word_of_nat (4 * j)) = word_idx a + j"
proof -
  have "unat a mod 32 = 0" using assms(1) unat_mod [of a 32] by simp
  then obtain k where k: "unat a = 32 * k" by (auto simp: dvd_def simp flip: dvd_eq_mod_eq_0)
  have "32 * k < 32 * 2 ^ 27" using unat_less [of a] by (simp add: k)
  then have "unat a + 4 * j < 2 ^ 32" using assms(2) by (simp add: k)
  then have "unat (a + word_of_nat (4 * j)) = unat a + 4 * j" using unat_plus_le [of a "4 * j"] by simp
  then show ?thesis by (simp add: word_idx_def unat_div)
qed

lemma region_distinct:
  fixes a :: u32
  assumes "a mod 32 = 0"
  shows "distinct (map word_idx (addrs 8 a))"
proof -
  have "map word_idx (addrs 8 a) = map (\<lambda>j. word_idx a + j) [0..<8]"
    using region_word_idx [OF assms] by (intro nth_equalityI) (simp_all add: addrs_nth)
  then show ?thesis by (simp add: distinct_map inj_on_def)
qed

section \<open>Segments of the log\<close>

definition segment :: "u32 list \<Rightarrow> u64 list \<Rightarrow> log_entry list" where
  "segment vs rts = zip vs (map timestamp_halves rts)"

lemma segment_simps [simp]:
  "segment [] rts = []" "segment (v # vs) (rt # rts) = (v, timestamp_halves rt) # segment vs rts"
  by (simp_all add: segment_def)

lemma segment_append:
  "length vs = length rts \<Longrightarrow> segment (vs @ vs') (rts @ rts') = segment vs rts @ segment vs' rts'"
  by (simp add: segment_def)

lemma length_segment: "length vs = length rts \<Longrightarrow> length (segment vs rts) = length vs"
  by (simp add: segment_def)

context recording
begin

abbreviation dbg :: bool where "dbg \<equiv> debug_assertions (vm_cfg E)"

lemma peek_words_content:
  "peek_words c (vm_ram E) n a m = Inr vs \<Longrightarrow> vs = map (\<lambda>x. content m (word_idx x)) (addrs n a)"
  by (induction n arbitrary: a vs) (auto simp: res_simps dest: peek_returns)

lemma read_words_log:
  assumes "read_words E n a ts m sn = Inr (vs, m', sn')" and "ok sn"
  shows "content m' = content m \<and> (\<exists>rts. length rts = n \<and> length vs = n \<and> ok sn' \<and>
    log sn' = log sn @ segment vs rts \<and> walks dbg n a \<and> (dbg \<longrightarrow> (\<forall>rt \<in> set rts. rt < (ts OR 1))))"
  using assms
proof (induction n arbitrary: a m sn vs)
  case (Suc n)
  from Suc.prems(1) obtain rt v m1 sn1 ws where 1: "read_word (vm_ram E) a ts m = Inr ((rt, v), m1)"
    "append_memory_read (vm_snap E) a v rt ts sn = Inr sn1" "dbg \<longrightarrow> unat a + 4 < 2 ^ 32"
    "read_words E n (a + 4) ts m1 sn1 = Inr (ws, m', sn')" "vs = v # ws"
    by (auto simp: res_simps)
  note app = memory_log [OF 1(2) Suc.prems(2)]
  from Suc.IH [OF 1(4)] app obtain rts where rts: "content m' = content m1" "length rts = n" "length ws = n" "ok sn'"
    "log sn' = log sn1 @ segment ws rts" "walks dbg n (a + 4)" "dbg \<longrightarrow> (\<forall>rt \<in> set rts. rt < (ts OR 1))" by auto
  show ?case
    using rts app 1 read_returns [OF 1(1)] read_asserts [OF 1(1)] by (intro conjI exI [of _ "rt # rts"]) auto
qed auto

lemma write_back_words_log:
  assumes "write_back_words E vs a ts m sn = Inr (a', m', sn')" and "ok sn"
  shows "\<exists>olds rts. length rts = length vs \<and> length olds = length vs \<and> ok sn' \<and>
    log sn' = log sn @ segment olds rts \<and> walks dbg (length vs) a \<and> (dbg \<longrightarrow> (\<forall>rt \<in> set rts. rt < (ts OR 2))) \<and>
    a' = a + word_of_nat (4 * length vs) \<and>
    (distinct (map word_idx (addrs (length vs) a)) \<longrightarrow> olds = map (\<lambda>x. content m (word_idx x)) (addrs (length vs) a))"
  using assms
proof (induction vs arbitrary: a m sn)
  case (Cons v vs)
  from Cons.prems(1) obtain rt old m1 sn1 where 1: "write_word (vm_ram E) a v ts m = Inr ((rt, old), m1)"
    "append_memory_read (vm_snap E) a old rt ts sn = Inr sn1" "dbg \<longrightarrow> unat a + 4 < 2 ^ 32"
    "write_back_words E vs (a + 4) ts m1 sn1 = Inr (a', m', sn')"
    by (auto simp: res_simps)
  note app = memory_log [OF 1(2) Cons.prems(2)] and w = write_returns [OF 1(1)]
  from Cons.IH [OF 1(4)] app obtain olds rts where rts: "length rts = length vs" "length olds = length vs" "ok sn'"
    "log sn' = log sn1 @ segment olds rts" "walks dbg (length vs) (a + 4)"
    "dbg \<longrightarrow> (\<forall>rt \<in> set rts. rt < (ts OR 2))" "a' = a + 4 + word_of_nat (4 * length vs)"
    "distinct (map word_idx (addrs (length vs) (a + 4))) \<longrightarrow>
      olds = map (\<lambda>x. content m1 (word_idx x)) (addrs (length vs) (a + 4))" by blast
  have "map (\<lambda>x. content m1 (word_idx x)) (addrs (length vs) (a + 4)) =
      map (\<lambda>x. content m (word_idx x)) (addrs (length vs) (a + 4))"
    if "distinct (map word_idx (addrs (length (v # vs)) a))"
    using that w by (intro map_cong) (auto simp: image_iff)
  then show ?case
    using rts app 1 w write_asserts [OF 1(1)]
    by (intro exI [of _ "old # olds"] exI [of _ "rt # rts"]) (auto simp: algebra_simps)
qed auto

end

section \<open>Reading a segment\<close>

lemma replay_words_segment:
  assumes R: "replay_ram (rp_ram E) flat ready (debug_assertions (rp_cfg E)) rom_limit"
    and "length vs = length rts" "ready m" "flat m = segment vs rts @ rest"
    and "walks (debug_assertions (rp_cfg E)) (length vs) a"
    and "debug_assertions (rp_cfg E) \<longrightarrow> (\<forall>rt \<in> set rts. rt < t)"
  shows "\<exists>m'. replay_words E (length vs) a t m = Inr (zip vs rts, m') \<and> ready m' \<and> flat m' = rest"
  using assms(2-)
proof (induction vs rts arbitrary: a m rule: list_induct2)
  case (Cons v vs rt rts)
  obtain m1 where 1: "read_word (rp_ram E) a t m = Inr ((rt, v), m1)" "ready m1" "flat m1 = segment vs rts @ rest"
    using returns_access [OF replay_ram.read_next [OF R Cons.prems(1), of v "timestamp_halves rt" _ a t]] Cons.prems
    by auto
  obtain m' where "replay_words E (length vs) (a + 4) t m1 = Inr (zip vs rts, m')" "ready m'" "flat m' = rest"
    using Cons.IH [OF 1(2,3)] Cons.prems by auto
  with 1 Cons.prems show ?case by (auto simp: checked_add_def)
qed simp

lemma skip_segment:
  assumes R: "replay_ram (rp_ram E) flat ready dbg rom_limit"
    and "ready m" "flat m = new @ rest" "length new = Suc n"
  shows "\<exists>m'. skip_if_replaying (rp_ram E) (Suc n) m = Inr m' \<and> ready m' \<and> flat m' = rest"
proof -
  from assms(4) have "new \<noteq> []" by auto
  from replay_ram.skip_next [OF R assms(2,3) this] show ?thesis by (simp add: returns_def assms(4))
qed

end
