(* ===== verification/ReplayCycles.thy ===== *)
theory ReplayCycles
  imports ReplayLog
begin

text \<open>
  The cycles of a delegation batch: \<open>n\<close> rows that access \<open>x0\<close> only, or their joint effect when
  the tracer does not want the rows. The records of the calls are collected the same way.
\<close>

section \<open>One cycle\<close>

definition cycled :: "'c state \<Rightarrow> 'c state" where
  "cycled s = (stamp_register 0 (timestamp s OR 2) s) \<lparr> pc := pc s + 4 \<rparr>"

definition cycle_row :: "u32 \<Rightarrow> 'c state \<Rightarrow> NonMemoryOpcodeTracingDataWithTimestamp" where
  "cycle_row csr s = register_row s (0, reg_timestamp (registers s 0)) (0, timestamp s) (0, 0, timestamp s OR 1)
     (pc s + 4) (ucast csr)"

definition delegation_csrs :: "u32 set" where
  "delegation_csrs = {BIGINT_OPS_WITH_CONTROL_CSR_REGISTER, BLAKE2S_DELEGATION_CSR_REGISTER, KECCAK_SPECIAL5_CSR_REGISTER}"

lemma delegation_cycle_eq:
  "delegation_cycle T csr (recount k s, t) =
     bindR (write_non_memory_family_data T SHIFT_BINARY_CSR_CIRCUIT_FAMILY_IDX (cycle_row csr s) t)
       (\<lambda>t. Inr (recount k (cycled s), t))"
  by (simp add: delegation_cycle_def Let_def cycle_row_def cycled_def recount_updates)
    (simp add: register_row_def stamp_register_def set_register_def)

lemma is_cycle_row: "csr \<in> delegation_csrs \<Longrightarrow> is_delegation_row (cycle_row csr s)"
  by (auto simp: delegation_csrs_def is_delegation_row_def cycle_row_def register_row_def)

lemma check_cycle_row:
  assumes "fresh 0 s"
  shows "check_row (0, 0, 0) (cycle_row csr s) (recount () s) = Inr (recount () (tick (cycled s)))"
proof -
  have "timestamp s < (timestamp s OR 1)" "(timestamp s OR 1) < (timestamp s OR 2)"
    using or_offsets [of "timestamp s"] assms by (simp_all add: fresh_def)
  with assms show ?thesis
    by (simp add: check_row_def cycle_row_def register_row_def starts_at_def check_access_def fresh_def
        recount_updates next_cycle_tick cycled_def)
      (simp add: set_register_def stamp_register_def next_cycle_def tick_def recount_def Let_def)
qed

lemma unat_or2: "aligned4 t \<Longrightarrow> unat t + 4 < 2 ^ 64 \<Longrightarrow> (t OR 2) < t + (4 :: u64)"
  using or3_less_tick [of t] or_le_or3 [of 2 t] by simp

lemma fresh_next_cycle:
  assumes "fresh 0 s" and "unat (timestamp s) + 4 < 2 ^ 64"
  shows "fresh 0 (tick (cycled s))" "timestamp (tick (cycled s)) = timestamp s + 4"
    "unat (timestamp s + 4) = unat (timestamp s) + 4"
proof -
  show u: "unat (timestamp s + 4) = unat (timestamp s) + 4" using unat_plus_le [of "timestamp s" 4] assms(2) by simp
  have "timestamp s < timestamp s + 4" using u by (simp add: word_less_nat_alt)
  then show "fresh 0 (tick (cycled s))"
    using assms unat_or2 [of "timestamp s"] aligned4_mult4(3) aligned4_add(1) [of "timestamp s" 4]
    by (auto simp: fresh_def tick_def cycled_def stamp_register_def set_register_def intro: less_trans)
  show "timestamp (tick (cycled s)) = timestamp s + 4"
    by (simp add: tick_def cycled_def stamp_register_def set_register_def)
qed

section \<open>Registers at the end of a cycle\<close>

lemma late_accesses:
  assumes "debug_assertions c \<longrightarrow> reg_timestamp (registers s (unat i)) < (timestamp s OR 3)" and "unat i < 32"
  shows "read_register_with_ts c 3 i (recount k s) =
      Inr (reg_value (registers s (unat i)), reg_timestamp (registers s (unat i)),
           recount k (stamp_register (unat i) (timestamp s OR 3) s))"
    "i \<noteq> 0 \<Longrightarrow> write_register_with_ts c 3 i v (recount k s) =
      Inr (v, reg_value (registers s (unat i)), reg_timestamp (registers s (unat i)),
           recount k (set_register (unat i) (timestamp s OR 3) v s))"
  using assms
  by (auto simp: read_register_with_ts_def write_register_with_ts_def register_access_def recount_updates
      stamp_register_def Let_def)

lemma fresh_late:
  assumes "fresh 0 s" and "i < 32"
  shows "reg_timestamp (registers s i) < (timestamp s OR 3)"
  using assms or_le_or3 [of 0 "timestamp s"] by (auto simp: fresh_def intro: less_le_trans)

lemma cycled_fields [simp]:
  "timestamp (cycled s) = timestamp s" "pc (cycled s) = pc s + 4"
  "i \<noteq> 0 \<Longrightarrow> registers (cycled s) i = registers s i"
  by (simp_all add: cycled_def stamp_register_def set_register_def)

lemma stamped_fields [simp]:
  "timestamp (stamp_register i t s) = timestamp s" "timestamp (set_register i t v s) = timestamp s"
  "registers (stamp_register i t s) = (registers s)(i := \<lparr> reg_timestamp = t, reg_value = reg_value (registers s i) \<rparr>)"
  "registers (set_register i t v s) = (registers s)(i := \<lparr> reg_timestamp = t, reg_value = v \<rparr>)"
  by (simp_all add: stamp_register_def set_register_def)

text \<open>Words of 64 bits and their halves.\<close>

lemma length_join_words: "length (join_words ws) = length ws div 2"
  by (induction ws rule: join_words.induct) simp_all

lemma length_split_words [simp]: "length (concat (map split_word vs)) = 2 * length vs"
  by (induction vs) (simp_all add: split_word_def)

section \<open>A batch\<close>

primrec batch_rows :: "u32 \<Rightarrow> nat \<Rightarrow> 'c state \<Rightarrow> NonMemoryOpcodeTracingDataWithTimestamp list" where
  "batch_rows csr 0 s = []"
| "batch_rows csr (Suc n) s = cycle_row csr s # batch_rows csr n (tick (cycled s))"

primrec batch :: "nat \<Rightarrow> 'c state \<Rightarrow> 'c state" where
  "batch 0 s = cycled s"
| "batch (Suc n) s = batch n (tick (cycled s))"

lemma batch_eq:
  "batch n s = stamp_register 0 ((timestamp s + word_of_nat n * 4) OR 2)
     (s \<lparr> timestamp := timestamp s + word_of_nat n * 4, pc := pc s + word_of_nat (4 * (n + 1)) \<rparr>)"
proof (induction n arbitrary: s)
  case 0
  show ?case by (simp add: cycled_def stamp_register_def set_register_def)
next
  case (Suc n)
  show ?case unfolding batch.simps Suc.IH
    by (simp add: tick_def cycled_def stamp_register_def set_register_def algebra_simps)
qed

lemma batch_certified:
  assumes "csr \<in> delegation_csrs" and "fresh 0 s" and "unat (timestamp s) + 4 * n + 4 < 2 ^ 64"
  shows "certified tape (map (Row SHIFT_BINARY_CSR_CIRCUIT_FAMILY_IDX) (batch_rows csr (Suc n) s)) s (tick (batch n s))"
  using assms(2,3)
proof (induction n arbitrary: s)
  case 0
  then show ?case by (simp add: certified_def is_cycle_row [OF assms(1)] check_cycle_row)
next
  case (Suc n)
  then have "unat (timestamp s) + 4 < 2 ^ 64" by simp
  note nxt = fresh_next_cycle [OF Suc.prems(1) this]
  have "unat (timestamp s + 4) + 4 * n + 4 < 2 ^ 64" using Suc.prems(2) nxt(3) by simp
  from Suc.IH [OF nxt(1)] this nxt(2)
  have "certified tape (map (Row SHIFT_BINARY_CSR_CIRCUIT_FAMILY_IDX) (batch_rows csr (Suc n) (tick (cycled s))))
      (tick (cycled s)) (tick (batch n (tick (cycled s))))" by simp
  then show ?case using Suc.prems(1)
    by (simp add: certified_def is_cycle_row [OF assms(1)] check_cycle_row)
qed

lemma delegation_cycles_eq:
  fixes k :: 'd and t :: 't
  assumes "unat (timestamp s) + 4 * n + 4 < 2 ^ 64"
  shows "delegation_cycles c T csr (Suc n) (recount k s, t) =
     bindR (foldR (write_non_memory_family_data T SHIFT_BINARY_CSR_CIRCUIT_FAMILY_IDX) (batch_rows csr (Suc n) s) t)
       (\<lambda>t'. Inr (recount k (batch n s), t'))"
proof -
  let ?W = "write_non_memory_family_data T SHIFT_BINARY_CSR_CIRCUIT_FAMILY_IDX"
  define F where "F = (\<lambda>call_round (p :: 'd state \<times> 't). bindR (delegation_cycle T csr p) (\<lambda>(s, t).
     if call_round = Suc n - 1 then Inr (s, t)
     else bindR (checked_add (debug_assertions c) (timestamp s) TIMESTAMP_STEP)
            (\<lambda>ts. Inr (s \<lparr> timestamp := ts \<rparr>, t))))"
  have "foldR F [i..<Suc n] (recount k s, t) = bindR (foldR ?W (batch_rows csr (Suc j) s) t) (\<lambda>t'. Inr (recount k (batch j s), t'))"
    if "i + j = n" "unat (timestamp s) + 4 * j + 4 < 2 ^ 64" for i j s t
    using that
  proof (induction j arbitrary: i s t)
    case 0
    then have "[i..<Suc n] = [n]" by simp
    then show ?case by (simp add: F_def delegation_cycle_eq bindR_assoc)
  next
    case (Suc j)
    then have i: "i < n" "[i..<Suc n] = i # [Suc i..<Suc n]" by (simp_all add: upt_conv_Cons del: upt_Suc)
    have ts: "timestamp (cycled s) = timestamp s" by (simp add: cycled_def stamp_register_def set_register_def)
    have u: "unat (timestamp s + 4) = unat (timestamp s) + 4"
      using unat_plus_le [of "timestamp s" 4] Suc.prems(2) by simp
    have "F i (recount k s, t) = bindR (?W (cycle_row csr s) t) (\<lambda>t. Inr (recount k (tick (cycled s)), t))" for t
      using i(1) Suc.prems(2)
      by (simp add: F_def delegation_cycle_eq bindR_assoc checked_add_def ts code_consts tick_def recount_updates)
    moreover have "timestamp (tick (cycled s)) = timestamp s + 4" by (simp add: tick_def ts)
    ultimately show ?case
      using Suc.IH [of "Suc i" "tick (cycled s)"] Suc.prems u
      by (simp add: i(2) bindR_assoc del: upt_Suc)
  qed
  from this [of 0 n s t] assms show ?thesis by (simp add: delegation_cycles_def F_def)
qed

lemma skip_cycles_eq:
  assumes "unat (timestamp s) + 4 * n + 4 < 2 ^ 64"
  shows "skip_cycles c (Suc n) (recount k s) = Inr (recount k (batch n s))"
proof -
  have "unat (word_of_nat n * 4 :: u64) = 4 * n"
    using assms by (simp add: unat_word_ariths unat_of_nat mult.commute)
  then have "checked_add (debug_assertions c) (timestamp s) (word_of_nat n * 4) = Inr (timestamp s + word_of_nat n * 4)"
    using assms by (simp add: checked_add_def)
  then show ?thesis
    by (simp add: skip_cycles_def last_call_timestamp_def code_consts batch_eq recount_updates)
qed

section \<open>What the tracer gets\<close>

context tracing
begin

lemma emit_rows:
  assumes "needs_tracing_data_for_circuit_family T f t" and "fine t"
  shows "foldR (write_non_memory_family_data T f) rows t = foldR (emit T) (map (Row f) rows) t"
  using assms
proof (induction rows arbitrary: t)
  case (Cons r rows)
  obtain t' where t': "emit T (Row f r) t = Inr t'" "fine t'" "same_needs T t t'"
    using emit_returns [of t "Row f r"] Cons.prems by auto
  then have "foldR (write_non_memory_family_data T f) rows t' = foldR (emit T) (map (Row f) rows) t'"
    using Cons.IH [of t'] Cons.prems by (simp add: same_needs_def)
  then show ?case using t' Cons.prems by (simp add: trace_non_memory_def)
qed simp

lemma emit_no_rows:
  "\<not> needs_tracing_data_for_circuit_family T f t \<Longrightarrow> foldR (emit T) (map (Row f) rows) t = Inr t"
  by (induction rows) (simp_all add: trace_non_memory_def)

lemma emit_no_records:
  "\<not> needs_tracing_data_for_delegation_type T ty t \<Longrightarrow> foldR (emit T) (map (Record ty) ds) t = Inr t"
  by (induction ds) simp_all

text \<open>The rows of a batch, wanted or not.\<close>

lemma batch_replay:
  assumes "unat (timestamp s) + 4 * n + 4 < 2 ^ 64" and "fine t"
  shows "\<exists>t'. (if needs_tracing_data_for_circuit_family T SHIFT_BINARY_CSR_CIRCUIT_FAMILY_IDX t
        then delegation_cycles c T csr (Suc n) (recount k s, t)
        else bindR (skip_cycles c (Suc n) (recount k s)) (\<lambda>s. Inr (s, t))) = Inr (recount k (batch n s), t') \<and>
      foldR (emit T) (map (Row SHIFT_BINARY_CSR_CIRCUIT_FAMILY_IDX) (batch_rows csr (Suc n) s)) t = Inr t' \<and>
      fine t' \<and> same_needs T t t'"
proof -
  let ?rows = "map (Row SHIFT_BINARY_CSR_CIRCUIT_FAMILY_IDX) (batch_rows csr (Suc n) s)"
  have "list_all shaped_event ?rows" by (simp add: list_all_iff del: batch_rows.simps)
  then obtain t' where "foldR (emit T) ?rows t = Inr t'" "fine t'" "same_needs T t t'"
    using emits_return [OF assms(2)] by blast
  then show ?thesis
    using assms emit_rows [of SHIFT_BINARY_CSR_CIRCUIT_FAMILY_IDX t "batch_rows csr (Suc n) s"]
      emit_no_rows [of SHIFT_BINARY_CSR_CIRCUIT_FAMILY_IDX t "batch_rows csr (Suc n) s"]
    by (auto simp: delegation_cycles_eq skip_cycles_eq simp del: batch_rows.simps)
qed

end

end
