(* ===== verification/ReplayBigint.thy ===== *)
theory ReplayBigint
  imports ReplayCycles Bigint
begin

text \<open>
  The replay of a 256-bit operation: the machine logs the eight words it reads, the eight words
  it overwrites and the flag, and the replay computes the operation again from them.
\<close>

section \<open>What the machine does\<close>

lemma bigint_impl_length:
  assumes "ruint U" "length a = 4" "length b = 4" "bigint_impl U a b x12 = Inr (r, of')"
  shows "length r = 4"
  using assms(4) ruint.bigint_impl_eq [OF assms(1-3)] by (auto split: if_splits prod.splits)

definition bigint_regs :: "bool \<Rightarrow> 'c state \<Rightarrow> 'c state" where
  "bigint_regs of' s =
     (let t = timestamp s OR 3 in
      set_register 12 t (of_bool of') (stamp_register 11 t (stamp_register 10 t (cycled s))))"

context recording
begin

lemma bigint_call_log:
  assumes vm: "bigint_call E w = Inr w'" and ok: "ok (snap w)" and U: "ruint (vm_ruint E)"
  obtains a b rta rtb result of' where
    "length a = 8" "length b = 8" "length rta = 8" "length rtb = 8" "length result = 4"
    "bigint_impl (vm_ruint E) (join_words a) (join_words b) (reg_value (registers (st w) 12)) = Inr (result, of')"
    "log (snap w') = log (snap w) @ segment b rtb @ segment a rta @ [(of_bool of', 0, 0)]"
    "walks dbg 8 (reg_value (registers (st w) 11))" "walks dbg 8 (reg_value (registers (st w) 10))"
    "dbg \<longrightarrow> (\<forall>rt \<in> set (rtb @ rta). rt < (timestamp (st w) OR 3))"
    "recount () (st w') = recount () (bigint_regs of' (st w))"
proof -
  let ?s = "st w"
  let ?x10 = "reg_value (registers ?s 10)" and ?x11 = "reg_value (registers ?s 11)"
  from vm obtain a b m sn result of' addr m' sn1 sn2 s' where
    al: "?x10 mod 32 = 0" and
    a: "peek_words (vm_cfg E) (vm_ram E) 8 ?x10 (ram w) = Inr a" and
    b: "read_words E 8 ?x11 (timestamp ?s OR 3) (ram w) (snap w) = Inr (b, m, sn)" and
    impl: "bigint_impl (vm_ruint E) (join_words a) (join_words b) (reg_value (registers ?s 12)) = Inr (result, of')" and
    wr: "write_back_words E (concat (map split_word result)) ?x10 (timestamp ?s OR 3) m sn = Inr (addr, m', sn1)" and
    app: "append_arbitrary_value (vm_snap E) (of_bool of') sn1 = Inr sn2" and
    inc: "increment_family_counter (vm_counters E) SHIFT_BINARY_CSR_CIRCUIT_FAMILY_IDX
       (default_increase_pc ((set_register 12 (timestamp ?s OR 3) (of_bool of') (stamp_register 11 (timestamp ?s OR 3)
         (stamp_register 10 (timestamp ?s OR 3) (stamp_register 0 (timestamp ?s OR 2) ?s))))
         \<lparr> counters := bump_bigint (vm_counters E) 1 (counters ?s) \<rparr>)) = Inr s'" and
    w': "w' = w \<lparr> st := s', ram := m', snap := sn2 \<rparr>"
    by (auto simp: bigint_call_def Let_def res_simps read_register_def write_register_def register_access_def
        peek_read_u256_def read_u256_def write_back_u256_def stamp_register_def set_register_def)
  have len: "length a = 8" using peek_words_content [OF a] by simp
  from read_words_log [OF b ok] obtain rtb where rtb: "content m = content (ram w)" "length rtb = 8" "length b = 8"
    "ok sn" "log sn = log (snap w) @ segment b rtb" "walks dbg 8 ?x11"
    "dbg \<longrightarrow> (\<forall>rt \<in> set rtb. rt < (timestamp ?s OR 3))" by (auto simp: or.assoc)
  have len4: "length result = 4"
    using bigint_impl_length [OF U _ _ impl] len rtb(3) by (simp add: length_join_words)
  from write_back_words_log [OF wr rtb(4)] obtain olds rta where rta: "length rta = 8" "length olds = 8" "ok sn1"
    "log sn1 = log sn @ segment olds rta" "walks dbg 8 ?x10" "dbg \<longrightarrow> (\<forall>rt \<in> set rta. rt < (timestamp ?s OR 3))"
    "distinct (map word_idx (addrs 8 ?x10)) \<longrightarrow> olds = map (\<lambda>x. content m (word_idx x)) (addrs 8 ?x10)"
    by (auto simp: len4 or.assoc)
  have olds: "olds = a" using rta(7) region_distinct [OF al] peek_words_content [OF a] rtb(1) by simp
  show thesis
  proof (rule that [OF len rtb(3) rta(1) rtb(2) len4 impl _ rtb(6) rta(5)])
    show "log (snap w') = log (snap w) @ segment b rtb @ segment a rta @ [(of_bool of', 0, 0)]"
      using arbitrary_log [OF app rta(3)] rta(4) rtb(5) by (simp add: w' olds)
    show "dbg \<longrightarrow> (\<forall>rt \<in> set (rtb @ rta). rt < (timestamp ?s OR 3))" using rta(6) rtb(7) by auto
    show "recount () (st w') = recount () (bigint_regs of' ?s)"
      using increment_recount [OF inc]
      by (simp add: w' bigint_regs_def Let_def cycled_def default_increase_pc_def)
        (simp add: recount_def set_register_def stamp_register_def)
  qed
qed

end

section \<open>The replay\<close>

definition bigint_csr :: u16 where
  "bigint_csr = ucast BIGINT_OPS_WITH_CONTROL_CSR_REGISTER"

text \<open>The record of a call, from the log and the state on entry.\<close>

definition bigint_record ::
  "'c state \<Rightarrow> u32 list \<Rightarrow> u64 list \<Rightarrow> u32 list \<Rightarrow> u64 list \<Rightarrow> u64 list \<Rightarrow> bool \<Rightarrow> DelegationWitness" where
  "bigint_record s b rtb a rta result of' =
     (let r = registers s; seen = (\<lambda>i. (reg_value (r i), reg_timestamp (r i))) in
      \<lparr> write_timestamp = timestamp s OR 3,
        reg_accesses = [read_write_data (seen 10) (reg_value (r 10)), read_write_data (seen 11) (reg_value (r 11)),
                        read_write_data (seen 12) (of_bool of')],
        indirect_reads = map read_data (zip b rtb),
        indirect_writes = map2 read_write_data (zip a rta) (concat (map split_word result)),
        variables_offsets = [] \<rparr>)"

lemma bigint_record_shaped:
  assumes "length a = 8" "length b = 8" "length rta = 8" "length rtb = 8" "length result = 4"
  shows "shaped bigint_csr (bigint_record s b rtb a rta result of')"
  using assms by (simp add: shaped_def bigint_record_def bigint_csr_def Let_def)

lemma check_bigint_record:
  assumes s: "fresh 0 s" and d: "shaped bigint_csr (bigint_record s b rtb a rta result of')"
  shows "check_record bigint_csr (bigint_record s b rtb a rta result of') (recount () (tick (cycled s))) =
    Inr (recount () (tick (bigint_regs of' s)))"
proof -
  have "bigint_csr \<noteq> ucast KECCAK_SPECIAL5_CSR_REGISTER" by (simp add: bigint_csr_def code_consts)
  then show ?thesis
    using d fresh_late [OF s, of 10] fresh_late [OF s, of 11] fresh_late [OF s, of 12]
    by (simp add: check_record_def Let_def bigint_record_def read_write_data_def check_access_def tick_def recount_updates)
      (simp add: recount_def bigint_regs_def Let_def set_register_def stamp_register_def)
qed

lemma replay_flag:
  assumes "replay_ram (rp_ram E) flat ready dbg rom_limit" and "ready m" "flat m = (v, 0, 0) # rest"
  shows "\<exists>m'. replay_bigint_flag E (t OR 3) m = Inr (v, m') \<and> ready m' \<and> flat m' = rest"
proof -
  have "0 < (t OR 3)" by (simp add: word_gt_0 or_eq_0_iff)
  then show ?thesis
    using returns_access [OF replay_ram.read_next [OF assms, of 0 "t OR 3"]]
    by (auto simp: replay_bigint_flag_def zero_halves)
qed

lemma replay_skip_regs:
  assumes "fresh 0 s"
  shows "replay_bigint_skip E (recount k (cycled s)) (of_bool of') = Inr (recount k (bigint_regs of' s))"
  using fresh_late [OF assms, of 10] fresh_late [OF assms, of 11] fresh_late [OF assms, of 12]
  by (simp add: replay_bigint_skip_def Let_def late_accesses bigint_regs_def)

text \<open>What a delegation does to the state and the tracer, whether its row is wanted or not.\<close>

lemma one_cycle_replay:
  assumes "tracing T fine" and "fine t"
  shows "\<exists>t'. (if needs_tracing_data_for_circuit_family T SHIFT_BINARY_CSR_CIRCUIT_FAMILY_IDX t
      then delegation_cycle T csr (recount k s, t)
      else Inr (stamp_register 0 (timestamp s OR 2) ((recount k s) \<lparr> pc := pc s + 4 \<rparr>), t)) =
        Inr (recount k (cycled s), t') \<and>
      emit T (Row SHIFT_BINARY_CSR_CIRCUIT_FAMILY_IDX (cycle_row csr s)) t = Inr t' \<and> fine t' \<and> same_needs T t t'"
proof -
  have "stamp_register 0 (timestamp s OR 2) ((recount k s) \<lparr> pc := pc s + 4 \<rparr>) = recount k (cycled s)"
    by (simp add: cycled_def recount_def stamp_register_def set_register_def)
  moreover obtain t' where "emit T (Row SHIFT_BINARY_CSR_CIRCUIT_FAMILY_IDX (cycle_row csr s)) t = Inr t'"
    "fine t'" "same_needs T t t'"
    using tracing.emit_returns [OF assms, of "Row SHIFT_BINARY_CSR_CIRCUIT_FAMILY_IDX (cycle_row csr s)"] by auto
  ultimately show ?thesis
    by (auto simp: delegation_cycle_eq trace_non_memory_def split: if_splits)
qed

context recording
begin

lemma bigint_reproduced:
  assumes s: "fresh 0 (st w)" and ok: "ok (snap w)" and U: "ruint (vm_ruint E)"
    and vm: "bigint_call E w = Inr w'"
  shows "reproduced (vm_cfg E) (vm_ruint E) rom_limit tape replay_bigint_call
    (st w) (log (snap w)) (st w') (log (snap w'))"
proof -
  let ?c = "vm_cfg E" and ?U = "vm_ruint E" and ?s = "st w" and ?csr = BIGINT_OPS_WITH_CONTROL_CSR_REGISTER
  let ?fam = SHIFT_BINARY_CSR_CIRCUIT_FAMILY_IDX
  from bigint_call_log [OF vm ok U] obtain a b rta rtb result of' where
    len: "length a = 8" "length b = 8" "length rta = 8" "length rtb = 8" "length result = 4" and
    impl: "bigint_impl ?U (join_words a) (join_words b) (reg_value (registers ?s 12)) = Inr (result, of')" and
    log: "log (snap w') = log (snap w) @ segment b rtb @ segment a rta @ [(of_bool of', 0, 0)]" and
    walk: "walks dbg 8 (reg_value (registers ?s 11))" "walks dbg 8 (reg_value (registers ?s 10))" and
    rts: "dbg \<longrightarrow> (\<forall>rt \<in> set (rtb @ rta). rt < (timestamp ?s OR 3))" and
    fin: "recount () (st w') = recount () (bigint_regs of' ?s)" by metis
  define d where "d = bigint_record ?s b rtb a rta result of'"
  let ?new = "segment b rtb @ segment a rta @ [(of_bool of', 0, 0)]"
  let ?evs = "[Row ?fam (cycle_row ?csr ?s), Record bigint_csr d]"
  have d: "shaped bigint_csr d" unfolding d_def by (rule bigint_record_shaped [OF len])
  have cert: "certified tape ?evs ?s (tick (st w'))"
  proof -
    have "recount () (tick (st w')) = recount () (tick (bigint_regs of' ?s))"
      using fin by (simp add: tick_def recount_def)
    then show ?thesis
      using check_cycle_row [OF s, of ?csr] check_bigint_record [OF s d [unfolded d_def]]
      by (simp add: certified_def is_cycle_row delegation_csrs_def d_def)
  qed
  have "follows ?c ?U rom_limit replay_bigint_call ?s ?new ?evs (st w')"
    unfolding follows_def
  proof (intro allI impI)
    fix E' flat ready fine k m t n rest
    assume E': "suits ?c ?U rom_limit E' flat ready fine" and m: "ready m" "flat m = ?new @ rest" and t: "fine t"
    let ?T = "rp_tracer E'"
    have R: "replay_ram (rp_ram E') flat ready dbg rom_limit" and c: "rp_cfg E' = ?c" "rp_ruint E' = ?U"
      and T: "tracing ?T fine" using E' by (simp_all add: suits_def)
    have st': "recount k (st w') = recount k (bigint_regs of' ?s)"
      using arg_cong [OF fin, of "recount k"] by simp
    show "\<exists>m' t'. replay_bigint_call E' (replay_at k ?s m t n) = Inr (replay_at k (st w') m' t' n) \<and>
        ready m' \<and> flat m' = rest \<and> fine t' \<and> foldR (emit ?T) ?evs t = Inr t'"
    proof -
      obtain t1 where t1: "(if needs_tracing_data_for_circuit_family ?T ?fam t then delegation_cycle ?T ?csr (recount k ?s, t)
          else Inr (stamp_register 0 (timestamp ?s OR 2) ((recount k ?s) \<lparr> pc := pc ?s + 4 \<rparr>), t)) =
            Inr (recount k (cycled ?s), t1)"
        "emit ?T (Row ?fam (cycle_row ?csr ?s)) t = Inr t1" "fine t1" "same_needs ?T t t1"
        using one_cycle_replay [OF T t, where k = k and s = ?s and csr = ?csr] by (elim exE conjE)
      show ?thesis
      proof (cases "needs_tracing_data_for_delegation_type ?T bigint_csr t")
        case True
        obtain t' where t': "write_delegation ?T bigint_csr d t1 = Inr t'" "fine t'"
          using tracing.write_record [OF T t1(3) _ d] True t1(4) by (auto simp: returns_def same_needs_def)
        obtain m1 where m1: "replay_words E' 8 (reg_value (registers ?s 11)) (timestamp ?s OR 3) m = Inr (zip b rtb, m1)"
          "ready m1" "flat m1 = segment a rta @ (of_bool of', 0, 0) # rest"
          using replay_words_segment [of E' flat ready rom_limit b rtb m "segment a rta @ (of_bool of', 0, 0) # rest"
              "reg_value (registers ?s 11)" "timestamp ?s OR 3"] R c len m walk rts by auto
        obtain m2 where m2: "replay_words E' 8 (reg_value (registers ?s 10)) (timestamp ?s OR 3) m1 = Inr (zip a rta, m2)"
          "ready m2" "flat m2 = (of_bool of', 0, 0) # rest"
          using replay_words_segment [of E' flat ready rom_limit a rta m1 "(of_bool of', 0, 0) # rest"
              "reg_value (registers ?s 10)" "timestamp ?s OR 3"] R c len m1 walk rts by auto
        obtain m3 where m3: "replay_bigint_flag E' (timestamp ?s OR 3) m2 = Inr (of_bool of', m3)" "ready m3" "flat m3 = rest"
          using replay_flag [OF R m2(2,3)] by blast
        have "replay_bigint_call E' (replay_at k ?s m t n) = Inr (replay_at k (st w') m3 t' n)"
          using True t1(1) t'(1) fresh_late [OF s, of 10] fresh_late [OF s, of 11] fresh_late [OF s, of 12]
          by (cases "needs_tracing_data_for_circuit_family ?T ?fam t")
            (simp_all add: replay_bigint_call_def replay_at_def c Let_def bigint_csr_def late_accesses m1(1) m2(1) m3(1)
              len impl d_def bigint_record_def st' bigint_regs_def)
        with m3(2,3) t' t1(2,4) True show ?thesis by (auto simp: same_needs_def)
      next
        case False
        obtain m2 where m2: "skip_if_replaying (rp_ram E') 16 m = Inr m2" "ready m2" "flat m2 = (of_bool of', 0, 0) # rest"
          using skip_segment [OF R m(1), of "segment b rtb @ segment a rta" "(of_bool of', 0, 0) # rest" 15] m(2) len
          by (auto simp: length_segment)
        obtain m3 where m3: "replay_bigint_flag E' (timestamp ?s OR 3) m2 = Inr (of_bool of', m3)" "ready m3" "flat m3 = rest"
          using replay_flag [OF R m2(2,3)] by blast
        have "replay_bigint_call E' (replay_at k ?s m t n) = Inr (replay_at k (st w') m3 t1 n)"
          using False t1(1,2)
          by (simp add: replay_bigint_call_def replay_at_def c Let_def bigint_csr_def m2(1) m3(1) st' trace_non_memory_def
              replay_skip_regs [OF s] split: if_splits split del: split_of_bool)
        with m3(2,3) t1(2-) False show ?thesis by (auto simp: same_needs_def)
      qed
    qed
  qed
  with cert d log len show ?thesis
    unfolding reproduced_def by (intro exI [of _ ?new] exI [of _ ?evs]) (simp add: length_segment)
qed

end

end
