(* ===== verification/ReplayBatch.thy ===== *)
theory ReplayBatch
  imports ReplayCycles
begin

text \<open>
  The frame of the two delegations that stand for many calls of their circuit: \<open>n\<close> rows, \<open>n\<close>
  records and the registers at the end. The loop that makes the records is turned into the list
  of its records (\<open>records_loop\<close>), and the frame follows the machine whatever the tracer wants
  (\<open>batch_call_follows\<close>).
\<close>

section \<open>A loop that writes records\<close>

text \<open>The pure part of the loop: \<open>r\<close> rounds from \<open>L\<close>.\<close>

primrec rounds :: "(nat \<Rightarrow> 'l \<Rightarrow> 'l) \<Rightarrow> nat \<Rightarrow> 'l \<Rightarrow> 'l" where
  "rounds step 0 L = L"
| "rounds step (Suc r) L = step r (rounds step r L)"

lemma rounds_invariant:
  assumes "good 0 L" and "\<And>r L. r < n \<Longrightarrow> good r L \<Longrightarrow> good (Suc r) (step r L)" and "r \<le> n"
  shows "good r (rounds step r L)"
  using assms(3) by (induction r) (use assms(1,2) in auto)

lemma records_loop:
  assumes step: "\<And>r L t. r < n \<Longrightarrow> good r L \<Longrightarrow> F r (pack L t) = bindR (W (rec r L) t) (\<lambda>t. Inr (pack (step r L) t))"
    and good: "good 0 L" "\<And>r L. r < n \<Longrightarrow> good r L \<Longrightarrow> good (Suc r) (step r L)"
  shows "foldR F [0..<n] (pack L t) =
    bindR (foldR W (map (\<lambda>r. rec r (rounds step r L)) [0..<n]) t) (\<lambda>t. Inr (pack (rounds step n L) t))"
proof -
  have "foldR F [0..<m] (pack L t) =
      bindR (foldR W (map (\<lambda>r. rec r (rounds step r L)) [0..<m]) t) (\<lambda>t. Inr (pack (rounds step m L) t))"
    if "m \<le> n" for m
    using that
  proof (induction m)
    case (Suc m)
    then have "good m (rounds step m L)" using rounds_invariant [of good L n step m] good by simp
    then have "F m (pack (rounds step m L) t) =
        bindR (W (rec m (rounds step m L)) t) (\<lambda>t. Inr (pack (rounds step (Suc m) L) t))" for t
      using step [of m "rounds step m L" t] Suc.prems by simp
    with Suc show ?case by (simp add: foldR_append bindR_assoc)
  qed simp
  then show ?thesis by simp
qed

lemma certified_records:
  assumes "\<And>r. r < n \<Longrightarrow> certify tape (ev r) (S r) = Inr (S (Suc r))"
  shows "foldR (certify tape) (map ev [0..<n]) (S 0) = Inr (S n)"
proof -
  have "foldR (certify tape) (map ev [0..<m]) (S 0) = Inr (S m)" if "m \<le> n" for m
    using that by (induction m) (simp_all add: foldR_append assms)
  then show ?thesis by simp
qed

section \<open>The frame of a batch\<close>

definition batch_call ::
  "u32 \<Rightarrow> nat \<Rightarrow> nat \<Rightarrow> (('m, 't, 'n) replay_env \<Rightarrow> u64 \<Rightarrow> 'c state \<Rightarrow> 'm \<times> 't \<Rightarrow> ('m \<times> 't) res) \<Rightarrow>
   ('c state \<Rightarrow> 'c state) \<Rightarrow> ('m, 't, 'n) replay_env \<Rightarrow> ('c, 'm, 't, 'n) replay_world \<Rightarrow>
   ('c, 'm, 't, 'n) replay_world res" where
  "batch_call csr n words records regs E w =
     (let c = rp_cfg E; T = rp_tracer E; s = r_st w;
          needs_cycle_data = needs_tracing_data_for_circuit_family T SHIFT_BINARY_CSR_CIRCUIT_FAMILY_IDX (r_tracer w);
          needs_delegation_data = needs_tracing_data_for_delegation_type T (ucast csr) (r_tracer w) in
      if \<not> needs_cycle_data \<and> \<not> needs_delegation_data then
        bindR (skip_if_replaying (rp_ram E) words (r_ram w)) (\<lambda>m.
        bindR (skip_cycles c n s) (\<lambda>s.
        Inr (w \<lparr> r_st := regs s, r_ram := m \<rparr>)))
      else
        bindR (if needs_cycle_data then delegation_cycles c T csr n (s, r_tracer w)
               else bindR (skip_cycles c n s) (\<lambda>s. Inr (s, r_tracer w))) (\<lambda>(s, t).
        bindR (if needs_delegation_data
               then records E (timestamp (r_st w)) s (r_ram w, t)
               else bindR (skip_if_replaying (rp_ram E) words (r_ram w)) (\<lambda>m. Inr (m, t))) (\<lambda>(m, t).
        Inr (w \<lparr> r_st := regs s, r_ram := m, r_tracer := t \<rparr>))))"

context tracing
begin

lemma emit_records:
  assumes "needs_tracing_data_for_delegation_type T ty t" and "fine t" and "list_all (shaped ty) ds"
  shows "foldR (write_delegation T ty) ds t = foldR (emit T) (map (Record ty) ds) t"
  using assms
proof (induction ds arbitrary: t)
  case (Cons d ds)
  obtain t' where t': "emit T (Record ty d) t = Inr t'" "fine t'" "same_needs T t t'"
    using emit_returns [of t "Record ty d"] Cons.prems by auto
  then have "foldR (write_delegation T ty) ds t' = foldR (emit T) (map (Record ty) ds) t'"
    using Cons.IH [of t'] Cons.prems by (simp add: same_needs_def)
  then show ?case using t' Cons.prems by simp
qed simp

end

lemma batch_call_follows:
  assumes E: "suits c U rom_limit E flat ready fine" and m: "ready m" "flat m = new @ rest" and t: "fine t"
    and room: "unat (timestamp s) + 4 * n + 4 < 2 ^ 64"
    and new: "length new = Suc words" and ds: "list_all (shaped (ucast csr)) ds"
    and records: "\<And>t. fine t \<Longrightarrow> needs_tracing_data_for_delegation_type (rp_tracer E) (ucast csr) t \<Longrightarrow>
      \<exists>m'. records E (timestamp s) (recount k (batch n s)) (m, t) =
             bindR (foldR (write_delegation (rp_tracer E) (ucast csr)) ds t) (\<lambda>t. Inr (m', t)) \<and>
           ready m' \<and> flat m' = rest"
    and regs: "regs (recount k (batch n s)) = recount k s'"
  shows "\<exists>m' t'. batch_call csr (Suc n) (Suc words) records regs E (replay_at k s m t source) = Inr (replay_at k s' m' t' source) \<and>
    ready m' \<and> flat m' = rest \<and> fine t' \<and>
    foldR (emit (rp_tracer E)) (map (Row SHIFT_BINARY_CSR_CIRCUIT_FAMILY_IDX) (batch_rows csr (Suc n) s) @
      map (Record (ucast csr)) ds) t = Inr t'"
proof -
  let ?T = "rp_tracer E" and ?fam = SHIFT_BINARY_CSR_CIRCUIT_FAMILY_IDX
  let ?rows = "map (Row ?fam) (batch_rows csr (Suc n) s)"
  have T: "tracing ?T fine" and R: "replay_ram (rp_ram E) flat ready (debug_assertions c) rom_limit"
    and c: "rp_cfg E = c" using E by (simp_all add: suits_def)
  obtain t1 where t1: "(if needs_tracing_data_for_circuit_family ?T ?fam t
      then delegation_cycles c ?T csr (Suc n) (recount k s, t)
      else bindR (skip_cycles c (Suc n) (recount k s)) (\<lambda>s. Inr (s, t))) = Inr (recount k (batch n s), t1)"
    "foldR (emit ?T) ?rows t = Inr t1" "fine t1" "same_needs ?T t t1"
    using tracing.batch_replay [OF T room t, where k = k and csr = csr and c = c] by (elim exE conjE)
  show ?thesis
  proof (cases "needs_tracing_data_for_delegation_type ?T (ucast csr) t")
    case True
    then have needs: "needs_tracing_data_for_delegation_type ?T (ucast csr) t1" using t1(4) by (simp add: same_needs_def)
    obtain m' where m': "records E (timestamp s) (recount k (batch n s)) (m, t1) =
        bindR (foldR (write_delegation ?T (ucast csr)) ds t1) (\<lambda>t. Inr (m', t))" "ready m'" "flat m' = rest"
      using records [OF t1(3) needs] by blast
    obtain t' where t': "foldR (emit ?T) (map (Record (ucast csr)) ds) t1 = Inr t'" "fine t'"
      using tracing.emits_return [OF T t1(3), of "map (Record (ucast csr)) ds"] ds by (auto simp: list_all_iff)
    have "foldR (write_delegation ?T (ucast csr)) ds t1 = Inr t'"
      using tracing.emit_records [OF T needs t1(3) ds] t'(1) by simp
    then have "batch_call csr (Suc n) (Suc words) records regs E (replay_at k s m t source) = Inr (replay_at k s' m' t' source)"
      using t1(1) m'(1) True
      by (cases "needs_tracing_data_for_circuit_family ?T ?fam t") (simp_all add: batch_call_def Let_def replay_at_def c regs)
    with m'(2,3) t' t1(2) show ?thesis by (auto simp: foldR_append simp del: batch_rows.simps)
  next
    case False
    obtain m' where m': "skip_if_replaying (rp_ram E) (Suc words) m = Inr m'" "ready m'" "flat m' = rest"
      using skip_segment [OF R m new] by blast
    have none: "foldR (emit ?T) (map (Record (ucast csr)) ds) t1 = Inr t1"
      using tracing.emit_no_records [OF T, of "ucast csr" t1 ds] False t1(4) by (simp add: same_needs_def)
    have "batch_call csr (Suc n) (Suc words) records regs E (replay_at k s m t source) = Inr (replay_at k s' m' t1 source)"
    proof (cases "needs_tracing_data_for_circuit_family ?T ?fam t")
      case True
      with t1(1) m'(1) False show ?thesis by (simp add: batch_call_def Let_def replay_at_def c regs)
    next
      case skip: False
      then have "t1 = t" "skip_cycles c (Suc n) (recount k s) = Inr (recount k (batch n s))"
        using t1(1) by (auto simp: res_simps)
      with m'(1) False skip show ?thesis by (simp add: batch_call_def Let_def replay_at_def c regs)
    qed
    with m'(2,3) none t1 show ?thesis by (auto simp: foldR_append simp del: batch_rows.simps)
  qed
qed

end
