(* ===== verification/ReplayBlake.thy ===== *)
theory ReplayBlake
  imports ReplayBatch
begin

text \<open>
  The replay of a Blake2s delegation: the machine runs all rounds at once and logs the 24 words
  of the state it overwrites and the 16 words of the block it reads; the replay makes one row
  and one record per round, and each record starts from the words and the control register the
  one before left.
\<close>

section \<open>Sizes\<close>

lemma length_Let: "length e = n \<Longrightarrow> (\<And>v. length v = n \<Longrightarrow> length (f v) = n) \<Longrightarrow> length (Let e f) = n"
  by (simp add: Let_def)

lemma length_g_function [simp]: "length (g_function v a b c d x y) = length v"
  unfolding g_function_def by (rule length_Let, simp only: length_list_update)+ (simp only: length_list_update)

lemma length_mixing_function [simp]: "length (mixing_function v m sigma) = length v"
  unfolding mixing_function_def
  by (subst Let_def) ((rule length_Let, simp only: length_g_function)+, simp only: length_g_function)

lemma length_start_extended:
  "length bs = 8 \<Longrightarrow> length ext = 16 \<Longrightarrow> length (start_extended compression bs ext) = 16"
  by (simp add: start_extended_def CONFIGURED_IV_def IV_def Let_def)

lemma one_round_lengths:
  assumes "one_round x12 input r b (bs, ext) = (bs', ext')" "length bs = 8" "length ext = 16"
  shows "length bs' = 8" "length ext' = 16"
  using assms by (auto simp: one_round_def Let_def split: if_splits)

lemma length_blake2_all_rounds:
  assumes "length words = 24"
  shows "length (blake2_all_rounds words input x12) = 24"
proof -
  have "length (fst (foldl (\<lambda>p round. one_round x12 input round (round = n - 1) p) p rs)) = 8 \<and>
      length (snd (foldl (\<lambda>p round. one_round x12 input round (round = n - 1) p) p rs)) = 16"
    if "length (fst p) = 8" "length (snd p) = 16" for n rs p
    using that
  proof (induction rs arbitrary: p)
    case (Cons r rs)
    obtain bs' ext' where "one_round x12 input r (r = n - 1) p = (bs', ext')" by force
    with one_round_lengths [of x12 input r "r = n - 1" "fst p" "snd p" bs' ext'] Cons show ?case by simp
  qed simp
  from this [where p = "(take 8 words, start_extended (mode_compression x12) (take 8 words) (drop 8 words))"
      and n = "num_rounds x12" and rs = "[0..<num_rounds x12]"]
  show ?thesis
    using assms length_start_extended [of "take 8 words" "drop 8 words"]
    by (auto simp: blake2_all_rounds_def Let_def code_consts split: prod.split)
qed

section \<open>What the machine does\<close>

lemma or3_of_later:
  assumes "aligned4 t" and "unat t + 4 * n + 4 < 2 ^ 64"
  shows "unat (t + word_of_nat n * 4) = unat t + 4 * n" "(t + word_of_nat n * 4) OR 3 = t + word_of_nat n * 4 + (3 :: u64)"
  using rom_vm.later_call_facts(1,3) [OF assms order_refl] by (simp_all add: rom_vm.later_call_def)

lemma batch_fields [simp]:
  "timestamp (batch n s) = timestamp s + word_of_nat n * 4"
  "i \<noteq> 0 \<Longrightarrow> registers (batch n s) i = registers s i"
  by (simp_all add: batch_eq)

context recording
begin

lemma blake_call_log:
  fixes w :: "('c, 'm, 's, 'n) world"
  defines "x10 \<equiv> reg_value (registers (st w) 10)" and "x11 \<equiv> reg_value (registers (st w) 11)"
    and "x12 \<equiv> reg_value (registers (st w) 12)"
  assumes vm: "blake2_round_function_call E w = Inr w'" and ok: "ok (snap w)" and n: "num_rounds x12 = Suc n"
    and s: "fresh 0 (st w)" "unat (timestamp (st w)) + 4 * n + 4 < 2 ^ 64"
  obtains olds rto vs rts where
    "length olds = 24" "length rto = 24" "length vs = 16" "length rts = 16"
    "log (snap w') = log (snap w) @ segment olds rto @ segment vs rts"
    "walks dbg 24 x10" "walks dbg 16 x11"
    "dbg \<longrightarrow> (\<forall>rt \<in> set (rto @ rts). rt < (timestamp (st w) + word_of_nat n * 4 OR 3))"
    "in_ram x10 \<and> in_ram x11 \<and> x10 \<noteq> x11 \<and> x10 mod 128 = 0 \<and> x11 mod 64 = 0 \<and>
     count_ones (permutation_bitmask x12) = 1 \<and> trailing_zeros (permutation_bitmask x12) = 0"
    "recount () (st w') = recount () (replay_blake_registers x12 (batch n (st w)))"
proof -
  let ?t = "timestamp (st w) + word_of_nat n * 4"
  have al: "aligned4 (timestamp (st w))" using s by (simp add: fresh_def)
  note later = or3_of_later [OF al s(2)]
  note vm' = vm [unfolded blake2_round_function_call_def Let_def res_simps last_call_timestamp_def n [unfolded x12_def]
      TIMESTAMP_STEP_def split_paired_Ex prod.case diff_Suc_1]
  from vm' obtain ws input a' m sn vs m' sn' S s' where
    guards: "in_ram x10" "in_ram x11" "x10 \<noteq> x11" "x10 mod 128 = 0" "x11 mod 64 = 0"
      "count_ones (permutation_bitmask x12) = 1" "trailing_zeros (permutation_bitmask x12) = 0" and
    peek: "peek_words (vm_cfg E) (vm_ram E) 24 x10 (ram w) = Inr ws" and
    wr: "write_back_words E (blake2_all_rounds ws input x12) x10 (?t OR 3) (ram w) (snap w) = Inr (a', m, sn)" and
    rd: "read_words E 16 x11 (?t OR 3) m sn = Inr (vs, m', sn')" and
    inc: "increment_family_counter_by (vm_counters E) SHIFT_BINARY_CSR_CIRCUIT_FAMILY_IDX (Suc n) S = Inr s'" and
    S: "recount () S = recount () (stamp_register 0 (?t OR 2) (set_register 12 (?t + 3) (final_x12 x12) (stamp_register 11 (?t + 3)
        (stamp_register 10 (?t + 3) (st w)))) \<lparr> timestamp := ?t, pc := pc (st w) + word_of_nat (4 * Suc n) \<rparr>)" and
    w': "w' = w \<lparr> st := s', ram := m', snap := sn' \<rparr>"
    unfolding x10_def x11_def x12_def
  proof (elim exE conjE, hypsubst, goal_cases)
    case prems: 1
    show ?case
      by (rule prems(1), (fact prems)+) (use prems in \<open>simp_all add: recount_def register_fields\<close>)
  qed
  have len: "length (blake2_all_rounds ws input x12) = 24"
    using peek_words_content [OF peek] by (simp add: length_blake2_all_rounds)
  from write_back_words_log [OF wr ok] obtain olds rto where wb: "length rto = 24" "length olds = 24" "ok sn"
    "log sn = log (snap w) @ segment olds rto" "walks dbg 24 x10" "dbg \<longrightarrow> (\<forall>rt \<in> set rto. rt < (?t OR 3))"
    by (auto simp: len or.assoc)
  from read_words_log [OF rd wb(3)] obtain rts where rts: "length rts = 16" "length vs = 16" "ok sn'"
    "log sn' = log sn @ segment vs rts" "walks dbg 16 x11" "dbg \<longrightarrow> (\<forall>rt \<in> set rts. rt < (?t OR 3))"
    by (auto simp: or.assoc)
  show thesis
  proof (rule that [OF wb(2,1) rts(2,1) _ wb(5) rts(5)])
    show "log (snap w') = log (snap w) @ segment olds rto @ segment vs rts"
      using wb(4) rts(4) by (simp add: w')
    show "dbg \<longrightarrow> (\<forall>rt \<in> set (rto @ rts). rt < ?t OR 3)" using wb(6) rts(6) by auto
    have "recount () s' = recount () S"
      using inc by (auto simp: increment_family_counter_by_def res_simps)
    then show "recount () (st w') = recount () (replay_blake_registers x12 (batch n (st w)))"
      by (simp add: w' S replay_blake_registers_def batch_eq Let_def later(2))
        (simp add: recount_def set_register_def stamp_register_def fun_upd_twist algebra_simps)
  qed (use guards in blast)
qed

end

section \<open>The records\<close>

type_synonym blake_state = "u64 \<times> u32 \<times> (u64 \<times> u64 \<times> u64) \<times> (u32 list \<times> u32 list) \<times> u64"

definition blake_out :: "u32 \<Rightarrow> (u32 \<times> u64) list \<Rightarrow> nat \<Rightarrow> u32 list \<times> u32 list \<Rightarrow> u32 list \<times> u32 list" where
  "blake_out x12 input r = (\<lambda>(bs, ext).
     one_round x12 (map fst input) r (r = num_rounds x12 - 1)
       (bs, if r = 0 then start_extended (mode_compression x12) bs ext else ext))"

lemma blake_out_lengths:
  assumes "length bs = 8" "length ext = 16"
  shows "length (fst (blake_out x12 input r (bs, ext))) = 8" "length (snd (blake_out x12 input r (bs, ext))) = 16"
proof -
  let ?ext = "if r = 0 then start_extended (mode_compression x12) bs ext else ext"
  obtain bs' ext' where out: "one_round x12 (map fst input) r (r = num_rounds x12 - 1) (bs, ?ext) = (bs', ext')" by force
  then show "length (fst (blake_out x12 input r (bs, ext))) = 8" "length (snd (blake_out x12 input r (bs, ext))) = 16"
    using one_round_lengths [OF out] assms length_start_extended [of bs ext]
    unfolding blake_out_def prod.case by auto
qed

definition blake_record ::
  "u32 \<Rightarrow> u32 \<Rightarrow> u32 \<Rightarrow> u64 list \<Rightarrow> (u32 \<times> u64) list \<Rightarrow> nat \<Rightarrow> blake_state \<Rightarrow> DelegationWitness" where
  "blake_record x10 x11 x12 state_timestamps input r =
     (\<lambda>(now, ctl, (x10_ts, x11_ts, x12_ts), (bs, ext), prev).
      let out = blake_out x12 input r (bs, ext) in
      \<lparr> write_timestamp = now OR 3,
        reg_accesses = [read_write_data (x10, x10_ts) x10, read_write_data (x11, x11_ts) x11,
          read_write_data (ctl, x12_ts)
            (control_word (control_bitmask x12) (push_bit 1 (permutation_bitmask ctl) AND round_mask))],
        indirect_reads = map read_data (zip (map fst input) (if r = 0 then map snd input else replicate 16 prev)),
        indirect_writes = map2 read_write_data
          (zip (bs @ ext) (if r = 0 then state_timestamps else replicate 24 prev)) (fst out @ snd out),
        variables_offsets = [] \<rparr>)"

definition blake_step :: "u32 \<Rightarrow> (u32 \<times> u64) list \<Rightarrow> nat \<Rightarrow> blake_state \<Rightarrow> blake_state" where
  "blake_step x12 input r =
     (\<lambda>(now, ctl, regs, words, prev).
      let t = now OR 3 in
      (now + 4, control_word (control_bitmask x12) (push_bit 1 (permutation_bitmask ctl) AND round_mask), (t, t, t),
       blake_out x12 input r words, t))"

definition pack_blake :: "blake_state \<Rightarrow> 't \<Rightarrow> 't blake_loop" where
  "pack_blake L t = (case L of (now, ctl, regs, words, prev) \<Rightarrow> (now, ctl, regs, words, prev, t))"

lemma replay_blake_round_eq:
  assumes "debug_assertions (rp_cfg E) \<longrightarrow> unat (fst L) + 4 < 2 ^ 64"
  shows "replay_blake_round E x10 x11 x12 state_timestamps input r (pack_blake L t) =
    bindR (write_delegation (rp_tracer E) (ucast BLAKE2S_DELEGATION_CSR_REGISTER)
        (blake_record x10 x11 x12 state_timestamps input r L) t)
      (\<lambda>t. Inr (pack_blake (blake_step x12 input r L) t))"
proof -
  obtain now ctl a b d bs ext prev where L: "L = (now, ctl, (a, b, d), (bs, ext), prev)"
    by (metis surj_pair)
  let ?ext = "if r = 0 then start_extended (mode_compression x12) bs ext else ext"
  obtain bs' ext' where out: "one_round x12 (map fst input) r (r = num_rounds x12 - 1) (bs, ?ext) = (bs', ext')" by force
  have "checked_add (debug_assertions (rp_cfg E)) now TIMESTAMP_STEP = Inr (now + 4)"
    using assms by (auto simp: checked_add_def L code_consts)
  then show ?thesis
    unfolding L pack_blake_def blake_record_def blake_step_def blake_out_def replay_blake_round_def Let_def prod.case out by simp
qed

text \<open>The control register before round \<open>r\<close>.\<close>

definition blake_control :: "u32 \<Rightarrow> nat \<Rightarrow> u32" where
  "blake_control x12 r = (if r = 0 then x12 else control_word (control_bitmask x12) (push_bit r 1 AND round_mask))"

lemma one_bit_first:
  assumes "count_ones p = 1" and "trailing_zeros p = 0"
  shows "p = 1"
proof -
  have "filter (bit p) [0..<32] = filter (bit p) (0 # [1..<32])" by (simp add: upt_conv_Cons)
  moreover have "bit p 0"
  proof (rule ccontr)
    assume "\<not> bit p 0"
    then have "takeWhile (\<lambda>i. \<not> bit p i) (0 # [1..<32]) \<noteq> []" by simp
    then show False using assms(2) by (simp add: trailing_zeros_def upt_conv_Cons)
  qed
  ultimately have "filter (bit p) [1..<32] = []" using assms(1) by (simp add: count_ones_def)
  then have "\<not> bit p i" if "0 < i" "i < 32" for i using that by (auto simp: filter_empty_conv)
  with \<open>bit p 0\<close> show ?thesis by (intro bit_word_eqI) (auto simp: bit_1_iff)
qed

lemma blake_control_Suc:
  assumes "permutation_bitmask x12 = 1" and "r < num_rounds x12"
  shows "control_word (control_bitmask x12) (push_bit 1 (permutation_bitmask (blake_control x12 r)) AND round_mask) =
    blake_control x12 (Suc r)"
proof -
  have "r < 10" using assms(2) by (simp add: num_rounds_def split: if_splits)
  then have "permutation_bitmask (blake_control x12 r) = push_bit r 1"
    using permutation_bitmask_word [of r x12] assms(1) by (simp add: blake_control_def)
  then show ?thesis by (simp add: blake_control_def mult.commute)
qed

lemma blake_control_last: "blake_control x12 (num_rounds x12) = final_x12 x12"
  by (simp add: blake_control_def final_x12_def num_rounds_def)

text \<open>The loop before round \<open>r\<close> of a call that began at \<open>t0\<close>.\<close>

definition blake_good :: "u64 \<Rightarrow> u32 \<Rightarrow> nat \<Rightarrow> blake_state \<Rightarrow> bool" where
  "blake_good t0 x12 r = (\<lambda>(now, ctl, (a, b, d), (bs, ext), prev).
     now = t0 + word_of_nat r * 4 \<and> ctl = blake_control x12 r \<and> length bs = 8 \<and> length ext = 16 \<and>
     a < (now OR 3) \<and> b < (now OR 3) \<and> d < (now OR 3) \<and>
     (0 < r \<longrightarrow> (a, b, d) = (let t = t0 + word_of_nat (r - 1) * 4 OR 3 in (t, t, t))))"

lemma later_less:
  assumes "aligned4 t0" and "unat t0 + 4 * Suc r + 4 < 2 ^ 64"
  shows "(t0 + word_of_nat r * 4 OR 3) < (t0 + word_of_nat (Suc r) * 4 OR (3 :: u64))"
proof -
  have r: "unat t0 + 4 * r + 4 < 2 ^ 64" using assms(2) by simp
  have "unat (t0 + word_of_nat r * 4 + 3) = unat t0 + 4 * r + 3"
    using or3_of_later(1) [OF assms(1) r] unat_plus_le [of "t0 + word_of_nat r * 4" 3] r by simp
  moreover have "unat (t0 + word_of_nat (Suc r) * 4 + 3) = unat t0 + 4 * Suc r + 3"
    using or3_of_later(1) [OF assms] unat_plus_le [of "t0 + word_of_nat (Suc r) * 4" 3] assms(2) by simp
  ultimately show ?thesis
    unfolding or3_of_later(2) [OF assms(1) r] or3_of_later(2) [OF assms] word_less_nat_alt by simp
qed

lemma blake_good_step:
  assumes t0: "aligned4 t0" "unat t0 + 4 * num_rounds x12 + 4 < 2 ^ 64"
    and perm: "permutation_bitmask x12 = 1" and r: "r < num_rounds x12" and L: "blake_good t0 x12 r L"
  shows "blake_good t0 x12 (Suc r) (blake_step x12 input r L)"
proof -
  obtain now ctl a b d bs ext prev where L': "L = (now, ctl, (a, b, d), (bs, ext), prev)" by (metis surj_pair)
  obtain bs' ext' where out: "blake_out x12 input r (bs, ext) = (bs', ext')" by force
  have len: "length bs' = 8" "length ext' = 16"
    using blake_out_lengths [of bs ext x12 input r] L by (auto simp: L' blake_good_def out)
  have "unat t0 + 4 * Suc r + 4 < 2 ^ 64" using t0(2) r by simp
  note less = later_less [OF t0(1) this]
  have "t0 + word_of_nat (Suc r) * 4 = now + 4" using L by (simp add: L' blake_good_def algebra_simps)
  with less len L blake_control_Suc [OF perm r] show ?thesis
    by (simp add: L' blake_good_def blake_step_def Let_def out del: of_nat_Suc)
qed

text \<open>The registers as the records leave them.\<close>

definition blake_seen :: "blake_state \<Rightarrow> 'c state \<Rightarrow> 'c state" where
  "blake_seen L s = (case L of (now, ctl, (a, b, d), _) \<Rightarrow>
     set_register 12 d ctl (set_register 11 b (reg_value (registers s 11))
       (set_register 10 a (reg_value (registers s 10)) s)))"

lemma check_blake_record:
  fixes s :: "unit state"
  assumes L: "blake_good t0 x12 r L" and sizes: "length state_timestamps = 24" "length input = 16"
  defines "d \<equiv> blake_record (reg_value (registers s 10)) (reg_value (registers s 11)) x12 state_timestamps input r L"
  shows "shaped (ucast BLAKE2S_DELEGATION_CSR_REGISTER) d"
    "check_record (ucast BLAKE2S_DELEGATION_CSR_REGISTER) d (blake_seen L s) = Inr (blake_seen (blake_step x12 input r L) s)"
proof -
  obtain now ctl a b e bs ext prev where L': "L = (now, ctl, (a, b, e), (bs, ext), prev)" by (metis surj_pair)
  obtain bs' ext' where out: "blake_out x12 input r (bs, ext) = (bs', ext')" by force
  have len: "length bs' = 8" "length ext' = 16"
    using blake_out_lengths [of bs ext x12 input r] L by (auto simp: L' blake_good_def out)
  then show shape: "shaped (ucast BLAKE2S_DELEGATION_CSR_REGISTER) d"
    using L sizes by (simp add: shaped_def d_def blake_record_def L' Let_def out code_consts blake_good_def)
  show "check_record (ucast BLAKE2S_DELEGATION_CSR_REGISTER) d (blake_seen L s) =
      Inr (blake_seen (blake_step x12 input r L) s)"
  proof -
    have "a < (now OR 3)" "b < (now OR 3)" "e < (now OR 3)"
      using L unfolding L' blake_good_def prod.case by blast+
    then show ?thesis
      using shape unfolding d_def
      by (simp add: check_record_def code_consts Let_def)
        (simp add: blake_record_def L' Let_def blake_seen_def blake_step_def check_access_def read_write_data_def
          set_register_def fun_eq_iff)
  qed
qed

text \<open>The loop on entry, and its records.\<close>

definition blake_entry :: "'c state \<Rightarrow> u32 list \<Rightarrow> blake_state" where
  "blake_entry s ws =
     (timestamp s, reg_value (registers s 12),
      (reg_timestamp (registers s 10), reg_timestamp (registers s 11), reg_timestamp (registers s 12)),
      (take 8 ws, drop 8 ws), 0)"

definition blake_records :: "'c state \<Rightarrow> u32 list \<Rightarrow> u64 list \<Rightarrow> (u32 \<times> u64) list \<Rightarrow> nat \<Rightarrow> DelegationWitness list" where
  "blake_records s ws state_timestamps input n =
     (let x = (\<lambda>i. reg_value (registers s i)) in
      map (\<lambda>r. blake_record (x 10) (x 11) (x 12) state_timestamps input r
                 (rounds (blake_step (x 12) input) r (blake_entry s ws))) [0..<n])"

lemma blake_rounds_good:
  fixes s :: "'c state"
  defines "x12 \<equiv> reg_value (registers s 12)"
  assumes s: "fresh 0 s" "unat (timestamp s) + 4 * num_rounds x12 + 4 < 2 ^ 64"
    and perm: "permutation_bitmask x12 = 1" and ws: "length ws = 24" and r: "r \<le> num_rounds x12"
  shows "blake_good (timestamp s) x12 r (rounds (blake_step x12 input) r (blake_entry s ws))"
proof (rule rounds_invariant [where n = "num_rounds x12"])
  show "blake_good (timestamp s) x12 0 (blake_entry s ws)"
    using fresh_late [OF s(1), of 10] fresh_late [OF s(1), of 11] fresh_late [OF s(1), of 12] ws
    by (simp add: blake_good_def blake_entry_def blake_control_def x12_def)
  show "blake_good (timestamp s) x12 (Suc r) (blake_step x12 input r L)"
    if "r < num_rounds x12" "blake_good (timestamp s) x12 r L" for r L
    using s perm that by (intro blake_good_step) (simp_all add: fresh_def)
qed (fact r)

lemma blake_records_checked:
  fixes s :: "'c state"
  defines "x12 \<equiv> reg_value (registers s 12)"
  assumes s: "fresh 0 s" "unat (timestamp s) + 4 * num_rounds x12 + 4 < 2 ^ 64"
    and perm: "permutation_bitmask x12 = 1" and n: "num_rounds x12 = Suc n"
    and sizes: "length ws = 24" "length state_timestamps = 24" "length input = 16"
  shows "list_all (shaped (ucast BLAKE2S_DELEGATION_CSR_REGISTER)) (blake_records s ws state_timestamps input (Suc n))"
    "certified tape (map (Record (ucast BLAKE2S_DELEGATION_CSR_REGISTER)) (blake_records s ws state_timestamps input (Suc n)))
       (tick (batch n s)) (tick (replay_blake_registers x12 (batch n s)))"
proof -
  let ?L = "\<lambda>r. rounds (blake_step x12 input) r (blake_entry s ws)"
  let ?b = "recount () (tick (batch n s))"
  have good: "blake_good (timestamp s) x12 r (?L r)" if "r \<le> Suc n" for r
    using blake_rounds_good [OF s(1) _ _ sizes(1), of r input] s perm that n by (simp add: x12_def)
  have regs: "reg_value (registers ?b 10) = reg_value (registers s 10)"
    "reg_value (registers ?b 11) = reg_value (registers s 11)" by (simp_all add: tick_def)
  show "list_all (shaped (ucast BLAKE2S_DELEGATION_CSR_REGISTER)) (blake_records s ws state_timestamps input (Suc n))"
    using check_blake_record(1) [OF good sizes(2,3), of _ ?b] unfolding regs
    by (auto simp: blake_records_def list_all_iff x12_def simp del: upt_Suc)
  have step: "certify tape (Record (ucast BLAKE2S_DELEGATION_CSR_REGISTER)
        (blake_record (reg_value (registers s 10)) (reg_value (registers s 11)) x12 state_timestamps input r (?L r)))
        (blake_seen (?L r) ?b) = Inr (blake_seen (?L (Suc r)) ?b)" if "r < Suc n" for r
    using check_blake_record(2) [OF good sizes(2,3), of r ?b] that unfolding regs by simp
  have first: "blake_seen (?L 0) ?b = ?b"
    by (simp add: blake_seen_def blake_entry_def x12_def tick_def recount_def set_register_def) (simp add: fun_eq_iff)
  have last: "blake_seen (?L (Suc n)) ?b = recount () (tick (replay_blake_registers x12 (batch n s)))"
    using good [of "Suc n"] blake_control_last [of x12] n
    by (auto simp: blake_seen_def blake_good_def Let_def replay_blake_registers_def tick_def recount_def
        set_register_def stamp_register_def split: prod.splits)
  show "certified tape (map (Record (ucast BLAKE2S_DELEGATION_CSR_REGISTER)) (blake_records s ws state_timestamps input (Suc n)))
       (tick (batch n s)) (tick (replay_blake_registers x12 (batch n s)))"
    using certified_records [of "Suc n" tape "\<lambda>r. Record (ucast BLAKE2S_DELEGATION_CSR_REGISTER)
        (blake_record (reg_value (registers s 10)) (reg_value (registers s 11)) x12 state_timestamps input r (?L r))"
        "\<lambda>r. blake_seen (?L r) ?b"] step
    unfolding certified_def first last by (simp add: blake_records_def Let_def comp_def x12_def del: upt_Suc)
qed

section \<open>The replay\<close>

lemma artificial_timestamp:
  assumes "aligned4 t" and "unat t + 4 * n + 8 < 2 ^ 64"
  shows "artificial_read_timestamp c (Suc n) t = Inr (t + word_of_nat n * 4 + 4)"
    "(t + word_of_nat n * 4 OR 3) < t + word_of_nat n * 4 + (4 :: u64)"
    "last_call_timestamp c (Suc n) t = Inr (t + word_of_nat n * 4)"
proof -
  let ?u = "t + word_of_nat n * 4"
  have n: "unat t + 4 * n + 4 < 2 ^ 64" using assms(2) by simp
  note u = or3_of_later [OF assms(1) n]
  have "unat (word_of_nat n * 4 :: u64) = 4 * n"
    using n by (simp add: unat_word_ariths unat_of_nat mult.commute)
  then show last: "last_call_timestamp c (Suc n) t = Inr ?u"
    using n by (simp add: last_call_timestamp_def checked_add_def code_consts)
  have u3: "unat (?u + 3) = unat t + 4 * n + 3" and u4: "unat (?u + 4) = unat t + 4 * n + 4"
    using unat_plus_le [of ?u 3] unat_plus_le [of ?u 4] u(1) assms(2) by simp_all
  have "checked_add (debug_assertions c) ?u 3 = Inr (?u + 3)" "checked_add (debug_assertions c) (?u + 3) 1 = Inr (?u + 4)"
    using u(1) u3 assms(2) by (simp_all add: checked_add_def)
  then show "artificial_read_timestamp c (Suc n) t = Inr (?u + 4)"
    by (simp add: artificial_read_timestamp_def last)
  show "(?u OR 3) < ?u + 4" unfolding u(2) using u3 u4 by (simp add: word_less_nat_alt)
qed

lemma replay_blake_records_eq:
  fixes s :: "'c state" and k :: 'd
  defines "x10 \<equiv> reg_value (registers s 10)" and "x11 \<equiv> reg_value (registers s 11)"
    and "x12 \<equiv> reg_value (registers s 12)"
  assumes R: "replay_ram (rp_ram E) flat ready (debug_assertions (rp_cfg E)) rom_limit"
    and m: "ready m" "flat m = (segment ws rto @ segment vs rts) @ rest"
    and len: "length ws = 24" "length rto = 24" "length vs = 16" "length rts = 16"
    and walk: "walks (debug_assertions (rp_cfg E)) 24 x10" "walks (debug_assertions (rp_cfg E)) 16 x11"
    and times: "debug_assertions (rp_cfg E) \<longrightarrow> (\<forall>rt \<in> set (rto @ rts). rt < (timestamp s + word_of_nat n * 4 OR 3))"
    and s: "fresh 0 s" "unat (timestamp s) + 4 * num_rounds x12 + 4 < 2 ^ 64"
    and perm: "permutation_bitmask x12 = 1" and n: "num_rounds x12 = Suc n"
  shows "\<exists>m'. replay_blake_records E x10 x11 x12 (timestamp s) (recount k (batch n s)) (m, t) =
      bindR (foldR (write_delegation (rp_tracer E) (ucast BLAKE2S_DELEGATION_CSR_REGISTER))
               (blake_records s ws rto (zip vs rts) (Suc n)) t) (\<lambda>t. Inr (m', t)) \<and>
    ready m' \<and> flat m' = rest"
proof -
  let ?T = "rp_tracer E" and ?csr = "ucast BLAKE2S_DELEGATION_CSR_REGISTER :: u16"
  let ?u = "timestamp s + word_of_nat n * 4"
  let ?L = "\<lambda>r. rounds (blake_step x12 (zip vs rts)) r (blake_entry s ws)"
  have al: "aligned4 (timestamp s)" using s(1) by (simp add: fresh_def)
  have room: "unat (timestamp s) + 4 * n + 8 < 2 ^ 64" using s(2) n by simp
  note art = artificial_timestamp [OF al room]
  have late: "debug_assertions (rp_cfg E) \<longrightarrow> (\<forall>rt \<in> set rto. rt < ?u + 4)"
    "debug_assertions (rp_cfg E) \<longrightarrow> (\<forall>rt \<in> set rts. rt < ?u + 4)"
    using times art(2) by (auto intro: less_trans)
  obtain m1 where m1: "replay_words E 24 x10 (?u + 4) m = Inr (zip ws rto, m1)" "ready m1" "flat m1 = segment vs rts @ rest"
    using replay_words_segment [OF R _ m(1), of ws rto "segment vs rts @ rest" x10 "?u + 4"] m(2) len walk late by auto
  obtain m2 where m2: "replay_words E 16 x11 (?u + 4) m1 = Inr (zip vs rts, m2)" "ready m2" "flat m2 = rest"
    using replay_words_segment [OF R _ m1(2), of vs rts rest x11 "?u + 4"] m1(3) len walk late by auto
  have good: "blake_good (timestamp s) x12 r (?L r)" if "r \<le> Suc n" for r
    using blake_rounds_good [OF s(1) _ _ len(1), of r "zip vs rts"] s perm that n by (simp add: x12_def)
  have "foldR (replay_blake_round E x10 x11 x12 rto (zip vs rts)) [0..<Suc n] (pack_blake (blake_entry s ws) t) =
      bindR (foldR (write_delegation ?T ?csr)
          (map (\<lambda>r. blake_record x10 x11 x12 rto (zip vs rts) r (?L r)) [0..<Suc n]) t)
        (\<lambda>t. Inr (pack_blake (?L (Suc n)) t))"
  proof (rule records_loop [where good = "blake_good (timestamp s) x12"])
    fix r L t assume r: "r < Suc n" and L: "blake_good (timestamp s) x12 r L"
    have "unat (timestamp s) + 4 * r + 4 < 2 ^ 64" using s(2) r n by simp
    with or3_of_later(1) [OF al this] L have "unat (fst L) + 4 < 2 ^ 64"
      by (auto simp: blake_good_def split: prod.splits)
    then show "replay_blake_round E x10 x11 x12 rto (zip vs rts) r (pack_blake L t) =
        bindR (write_delegation ?T ?csr (blake_record x10 x11 x12 rto (zip vs rts) r L) t)
          (\<lambda>t. Inr (pack_blake (blake_step x12 (zip vs rts) r L) t))"
      by (intro replay_blake_round_eq) simp
  next
    show "blake_good (timestamp s) x12 0 (blake_entry s ws)" using good [of 0] by simp
    show "blake_good (timestamp s) x12 (Suc r) (blake_step x12 (zip vs rts) r L)"
      if "r < Suc n" "blake_good (timestamp s) x12 r L" for r L
      using s(2) al perm that n by (intro blake_good_step) simp_all
  qed
  then have loop: "foldR (replay_blake_round E x10 x11 x12 rto (zip vs rts)) [0..<Suc n]
        (timestamp s, x12, (reg_timestamp (registers s 10), reg_timestamp (registers s 11), reg_timestamp (registers s 12)),
         (take 8 ws, drop 8 ws), 0, t) =
      bindR (foldR (write_delegation ?T ?csr) (blake_records s ws rto (zip vs rts) (Suc n)) t)
        (\<lambda>t. Inr (pack_blake (?L (Suc n)) t))"
    by (simp add: pack_blake_def blake_entry_def blake_records_def x10_def x11_def x12_def Let_def del: upt_Suc)
  obtain ctl regs words prev where fin: "?L (Suc n) = (?u + 4, ctl, regs, words, prev)"
    using good [of "Suc n"] by (cases "?L (Suc n)") (auto simp: blake_good_def algebra_simps)
  have "unat (?u + 4) = unat ?u + 4"
    using unat_plus_le [of ?u 4] or3_of_later(1) [OF al, of n] room by simp
  then have "checked_sub (debug_assertions (rp_cfg E)) (?u + 4) TIMESTAMP_STEP = Inr ?u"
    by (simp add: checked_sub_def code_consts)
  then have "replay_blake_records E x10 x11 x12 (timestamp s) (recount k (batch n s)) (m, t) =
      bindR (foldR (write_delegation ?T ?csr) (blake_records s ws rto (zip vs rts) (Suc n)) t) (\<lambda>t. Inr (m2, t))"
    using loop fin
    by (simp add: replay_blake_records_def n art(1) m1(1) m2(1) len code_consts bindR_assoc pack_blake_def Let_def
        del: upt_Suc)
  with m2(2,3) show ?thesis by blast
qed

lemma replay_blake_registers_recount:
  "replay_blake_registers x12 (recount k s) = recount k (replay_blake_registers x12 s)"
  by (simp add: replay_blake_registers_def Let_def recount_updates)

lemma replay_blake_batch:
  assumes "in_ram x10 \<and> in_ram x11 \<and> x10 \<noteq> x11 \<and> x10 mod 128 = 0 \<and> x11 mod 64 = 0 \<and>
      count_ones (permutation_bitmask x12) = 1 \<and> trailing_zeros (permutation_bitmask x12) = 0"
    and "x10 = reg_value (registers (r_st w) 10)" "x11 = reg_value (registers (r_st w) 11)"
    and "x12 = reg_value (registers (r_st w) 12)"
  shows "replay_blake2_round_function_call E w =
    batch_call BLAKE2S_DELEGATION_CSR_REGISTER (num_rounds x12) 40
      (\<lambda>E. replay_blake_records E x10 x11 x12) (replay_blake_registers x12) E w"
  using assms(1) unfolding assms(2-)
  by (simp add: replay_blake2_round_function_call_def batch_call_def Let_def guardR_def cong: if_cong)

context recording
begin

lemma blake_reproduced:
  assumes s: "fresh 0 (st w)" and room: "unat (timestamp (st w)) + 4 * 648 + 4 < 2 ^ 64" and ok: "ok (snap w)"
    and vm: "blake2_round_function_call E w = Inr w'"
  shows "reproduced (vm_cfg E) U rom_limit tape replay_blake2_round_function_call
    (st w) (log (snap w)) (st w') (log (snap w'))"
proof -
  let ?c = "vm_cfg E" and ?s = "st w" and ?csr = BLAKE2S_DELEGATION_CSR_REGISTER
  let ?fam = SHIFT_BINARY_CSR_CIRCUIT_FAMILY_IDX
  define x10 x11 x12 where "x10 = reg_value (registers ?s 10)" and "x11 = reg_value (registers ?s 11)"
    and "x12 = reg_value (registers ?s 12)"
  obtain n where n: "num_rounds x12 = Suc n" "n < 10" by (cases "num_rounds x12") (auto simp: num_rounds_def split: if_splits)
  have room': "unat (timestamp ?s) + 4 * num_rounds x12 + 4 < 2 ^ 64" "unat (timestamp ?s) + 4 * n + 4 < 2 ^ 64"
    using room n by simp_all
  from blake_call_log [OF vm ok n(1) [unfolded x12_def] s room'(2)] obtain ws rto vs rts where
    len: "length ws = 24" "length rto = 24" "length vs = 16" "length rts = 16" and
    log: "log (snap w') = log (snap w) @ segment ws rto @ segment vs rts" and
    walk: "walks dbg 24 x10" "walks dbg 16 x11" and
    times: "dbg \<longrightarrow> (\<forall>rt \<in> set (rto @ rts). rt < (timestamp ?s + word_of_nat n * 4 OR 3))" and
    guards: "in_ram x10 \<and> in_ram x11 \<and> x10 \<noteq> x11 \<and> x10 mod 128 = 0 \<and> x11 mod 64 = 0 \<and>
      count_ones (permutation_bitmask x12) = 1 \<and> trailing_zeros (permutation_bitmask x12) = 0" and
    fin: "recount () (st w') = recount () (replay_blake_registers x12 (batch n ?s))"
    unfolding x10_def x11_def x12_def by metis
  have perm: "permutation_bitmask x12 = 1" using guards by (intro one_bit_first) simp_all
  let ?ds = "blake_records ?s ws rto (zip vs rts) (Suc n)"
  let ?new = "segment ws rto @ segment vs rts"
  let ?evs = "map (Row ?fam) (batch_rows ?csr (Suc n) ?s) @ map (Record (ucast ?csr)) ?ds"
  have ds: "list_all (shaped (ucast ?csr)) ?ds"
    and check: "certified tape (map (Record (ucast ?csr)) ?ds) (tick (batch n ?s)) (tick (replay_blake_registers x12 (batch n ?s)))"
    using blake_records_checked [OF s _ _ _ len(1,2), where n = n and input = "zip vs rts"] room' perm n len by (simp_all add: x12_def)
  have "recount () (tick (st w')) = recount () (tick (replay_blake_registers x12 (batch n ?s)))"
    using fin by (simp add: tick_def recount_def)
  then have "certified tape (map (Record (ucast ?csr)) ?ds) (tick (batch n ?s)) (tick (st w'))"
    using check by (simp add: certified_def)
  with batch_certified [of ?csr ?s n tape] s room' have cert: "certified tape ?evs ?s (tick (st w'))"
    by (auto simp: delegation_csrs_def simp del: batch_rows.simps intro: certified_append)
  have fol: "follows ?c U rom_limit replay_blake2_round_function_call ?s ?new ?evs (st w')"
    unfolding follows_def
  proof (intro allI impI)
    fix E' flat ready fine k m t source rest
    assume E': "suits ?c U rom_limit E' flat ready fine" and m: "ready m" "flat m = ?new @ rest" and t: "fine t"
    have R: "replay_ram (rp_ram E') flat ready dbg rom_limit" and c: "rp_cfg E' = ?c" using E' by (simp_all add: suits_def)
    have regs: "replay_blake_registers x12 (recount k (batch n ?s)) = recount k (st w')"
      using arg_cong [OF fin, of "recount k"] by (simp add: replay_blake_registers_recount)
    have "\<exists>m' t'. batch_call ?csr (Suc n) (Suc 39) (\<lambda>E. replay_blake_records E x10 x11 x12) (replay_blake_registers x12) E'
          (replay_at k ?s m t source) = Inr (replay_at k (st w') m' t' source) \<and>
        ready m' \<and> flat m' = rest \<and> fine t' \<and> foldR (emit (rp_tracer E')) ?evs t = Inr t'"
    proof (rule batch_call_follows [OF E' m t room'(2) _ ds, where regs = "replay_blake_registers x12", OF _ _ regs])
      show "length ?new = Suc 39" using len by (simp add: length_segment)
      show "\<exists>m'. replay_blake_records E' x10 x11 x12 (timestamp ?s) (recount k (batch n ?s)) (m, t) =
          bindR (foldR (write_delegation (rp_tracer E') (ucast ?csr)) ?ds t) (\<lambda>t. Inr (m', t)) \<and> ready m' \<and> flat m' = rest" for t
        using replay_blake_records_eq [where E = E' and flat = flat and ready = ready and m = m and ws = ws and rto = rto
            and vs = vs and rts = rts and rest = rest and s = ?s and n = n and k = k and t = t] R c m len walk times s room' perm n
        by (simp add: x10_def x11_def x12_def)
    qed
    then show "\<exists>m' t'. replay_blake2_round_function_call E' (replay_at k ?s m t source) = Inr (replay_at k (st w') m' t' source) \<and>
        ready m' \<and> flat m' = rest \<and> fine t' \<and> foldR (emit (rp_tracer E')) ?evs t = Inr t'"
      using replay_blake_batch [OF guards, where w = "replay_at k ?s m t source" and E = E'] n
      by (simp add: replay_at_def x10_def x11_def x12_def)
  qed
  have "list_all shaped_event ?evs" using ds by (auto simp: list_all_iff simp del: batch_rows.simps)
  moreover have "length ?new \<le> 62" using len by (simp add: length_segment)
  ultimately show ?thesis using cert log fol unfolding reproduced_def by blast
qed

end

end
