(* ===== verification/ReplayKeccak.thy ===== *)
theory ReplayKeccak
  imports ReplayBlake Keccak_Equiv
begin

text \<open>
  The replay of a Keccak permutation: the machine permutes the state at once and logs the 62
  words it overwrites; the replay makes one row and one record for each of the 649 calls of the
  circuit. That every call succeeds, and that the last one leaves the final control word, is what
  the equivalence of the calls with the fused permutation shows.
\<close>

section \<open>The parts of a call\<close>

definition keccak_parts :: "cfg \<Rightarrow> u32 \<times> u64 list \<Rightarrow> (u32 \<times> nat list \<times> u64 list) res" where
  "keccak_parts c = (\<lambda>(control, s).
     bindR (keccak_decode_control c control) (\<lambda>(precompile, iteration, round).
     bindR (keccak_bump_control precompile iteration round) (\<lambda>next_control.
     bindR (keccak_extract_indices precompile iteration round) (\<lambda>idx.
     bindR (keccak_compute_outputs precompile iteration round (map (\<lambda>i. s ! i) idx)) (\<lambda>outputs.
     Inr (next_control, idx, outputs))))))"

lemma step_parts:
  "keccak_special5_step c (cw, s) =
     bindR (keccak_parts c (cw, s)) (\<lambda>(control, idx, outputs). Inr (control, write_indices idx outputs s))"
  by (simp add: keccak_special5_step_def keccak_parts_def bindR_assoc case_prod_unfold)

lemma parts_lengths:
  assumes "keccak_parts c (cw, s) = Inr (control, idx, outputs)"
  shows "length idx = 6" "length outputs = 6"
proof -
  from assms obtain p i r where "keccak_extract_indices p i r = Inr idx"
    "keccak_compute_outputs p i r (map (\<lambda>i. s ! i) idx) = Inr outputs"
    by (auto simp: keccak_parts_def res_simps)
  then show "length idx = 6" "length outputs = 6"
    by (auto simp: keccak_extract_indices_def keccak_compute_outputs_def Let_def res_simps split: if_splits)
qed

lemma keccak_steps_length:
  assumes "foldR (\<lambda>_. keccak_special5_step c) rs (cw, s) = Inr (cw', s')"
  shows "length s' = length s"
proof -
  have "length (snd (cw', s')) = length s"
    by (rule foldR_invariant [OF assms]) (auto simp: step_parts res_simps)
  then show ?thesis by simp
qed

lemma length_keccak: "length s = 31 \<Longrightarrow> length (keccak_f1600_impl_ext s) = 31"
  using keccak_steps_length [OF keccak_calls_return] by simp

lemma length_final_offsets:
  assumes "KECCAK_FINAL_TIMESTAMP_OFFSETS c = Inr offsets"
  shows "length offsets = 31"
proof -
  from assms obtain cw where *: "foldR (timestamp_offsets_step c)
      [0..<NUM_DELEGATION_CALLS_FOR_KECCAK_F1600]
      (INITIAL_KECCAK_F1600_CONTROL_VALUE, replicate 31 0) = Inr (cw, offsets)"
    by (auto simp: KECCAK_FINAL_TIMESTAMP_OFFSETS_def res_simps)
  have "length (snd (cw, offsets)) = 31"
    by (rule foldR_invariant [OF *]) (auto simp: timestamp_offsets_step_def Let_def res_simps)
  then show ?thesis by simp
qed

text \<open>No call of the batch fails.\<close>

lemma keccak_call_returns:
  assumes "length s = 31" and "r < NUM_DELEGATION_CALLS_FOR_KECCAK_F1600"
    and "foldR (\<lambda>_. keccak_special5_step c) [0..<r] (INITIAL_KECCAK_F1600_CONTROL_VALUE, s) = Inr p"
  shows "\<exists>q. keccak_parts c p = Inr q"
proof -
  have "[0..<NUM_DELEGATION_CALLS_FOR_KECCAK_F1600] =
      [0..<r] @ r # [Suc r..<NUM_DELEGATION_CALLS_FOR_KECCAK_F1600]"
    using assms(2) upt_add_eq_append [of 0 r "NUM_DELEGATION_CALLS_FOR_KECCAK_F1600 - r"]
    by (simp add: upt_conv_Cons)
  then have "\<exists>q. keccak_special5_step c p = Inr q"
    using keccak_calls_return [OF assms(1), of c] assms(3)
    by (auto simp: foldR_append res_simps)
  then show ?thesis by (cases p) (auto simp: step_parts res_simps)
qed

section \<open>What the machine does\<close>

context recording
begin

lemma keccak_write_back_log:
  assumes "keccak_write_back E base vs a m sn = Inr (m', sn')" and "ok sn"
    and "\<forall>(v, off) \<in> set vs. (base + off) OR 2 \<le> T"
  shows "\<exists>olds rts. length olds = 2 * length vs \<and> length rts = 2 * length vs \<and>
    log sn' = log sn @ segment olds rts \<and> walks dbg (2 * length vs) a \<and> (dbg \<longrightarrow> (\<forall>rt \<in> set rts. rt < T))"
  using assms
proof (induction vs arbitrary: a m sn)
  case (Cons p vs)
  obtain v off where p: "p = (v, off)" by (cases p)
  from Cons.prems(1) obtain a1 m1 sn1 where
    1: "write_back_words E (split_word v) a (base + off) m sn = Inr (a1, m1, sn1)" and
    2: "keccak_write_back E base vs a1 m1 sn1 = Inr (m', sn')"
    by (auto simp: p Let_def res_simps)
  have len: "length (split_word v) = 2" by (simp add: split_word_def)
  from write_back_words_log [OF 1 Cons.prems(2)] obtain olds rts where w: "length rts = 2" "length olds = 2" "ok sn1"
    "log sn1 = log sn @ segment olds rts" "walks dbg 2 a" "dbg \<longrightarrow> (\<forall>rt \<in> set rts. rt < ((base + off) OR 2))"
    "a1 = a + word_of_nat (4 * 2)" unfolding len by blast
  have "\<forall>(v, off) \<in> set vs. (base + off) OR 2 \<le> T" and off: "(base + off) OR 2 \<le> T"
    using Cons.prems(3) by (auto simp: p)
  from Cons.IH [OF 2 w(3) this(1)] obtain olds' rts' where
    w': "length olds' = 2 * length vs" "length rts' = 2 * length vs" "log sn' = log sn1 @ segment olds' rts'"
    "walks dbg (2 * length vs) a1" "dbg \<longrightarrow> (\<forall>rt \<in> set rts'. rt < T)" by blast
  have "walks dbg (2 + 2 * length vs) a" using w(5) w'(4) unfolding walks_add w(7) by simp
  then show ?case
    using w w' off by (intro exI [of _ "olds @ olds'"] exI [of _ "rts @ rts'"]) (auto simp: segment_append intro: less_le_trans)
qed simp

lemma keccak_call_log:
  fixes w :: "('c, 'm, 's, 'n) world"
  defines "x10 \<equiv> reg_value (registers (st w) 10)" and "x11 \<equiv> reg_value (registers (st w) 11)"
  assumes vm: "keccak_special5_call E w = Inr w'" and ok: "ok (snap w)"
    and s: "fresh 0 (st w)" "unat (timestamp (st w)) + 4 * 648 + 4 < 2 ^ 64"
  obtains olds rts where
    "length olds = 62" "length rts = 62" "log (snap w') = log (snap w) @ segment olds rts" "walks dbg 62 x11"
    "dbg \<longrightarrow> (\<forall>rt \<in> set rts. rt < (timestamp (st w) + word_of_nat 648 * 4 OR 3))"
    "(dbg \<longrightarrow> timestamp (st w) mod 4 = 0) \<and> in_ram x11 \<and> x10 < push_bit 11 1 \<and> x11 mod 256 = 0 \<and> x10 = INITIAL_KECCAK_F1600_CONTROL_VALUE"
    "recount () (st w') = recount () (replay_keccak_registers (batch 648 (st w)))"
proof -
  let ?t = "timestamp (st w)"
  let ?u = "?t + word_of_nat 648 * 4"
  have al: "aligned4 ?t" using s by (simp add: fresh_def)
  note later = or3_of_later [OF al s(2)]
  have N: "NUM_DELEGATION_CALLS_FOR_KECCAK_F1600 = Suc 648" by (simp add: code_consts)
  note vm' = vm [unfolded keccak_special5_call_def Let_def res_simps last_call_timestamp_def N
      TIMESTAMP_STEP_def split_paired_Ex prod.case diff_Suc_1]
  from vm' obtain ws offsets m' sn' S s' where
    guards: "dbg \<longrightarrow> ?t mod 4 = 0" "in_ram x11" "x10 < push_bit 11 1" "x11 mod 256 = 0"
      "x10 = INITIAL_KECCAK_F1600_CONTROL_VALUE" and
    peek: "peek_words (vm_cfg E) (vm_ram E) 62 x11 (ram w) = Inr ws" and
    offsets: "KECCAK_FINAL_TIMESTAMP_OFFSETS (vm_cfg E) = Inr offsets" and
    wr: "keccak_write_back E (?t OR 3) (zip (keccak_f1600_impl_ext (join_words ws)) offsets) x11 (ram w) (snap w) = Inr (m', sn')" and
    inc: "increment_family_counter_by (vm_counters E) SHIFT_BINARY_CSR_CIRCUIT_FAMILY_IDX (Suc 648) S = Inr s'" and
    S: "recount () S = recount () (stamp_register 0 (?u OR 2) (stamp_register 11 (?u + 3)
        (set_register 10 (?u + 3) FINAL_KECCAK_F1600_CONTROL_VALUE (st w))) \<lparr> timestamp := ?u, pc := pc (st w) + word_of_nat (4 * Suc 648) \<rparr>)" and
    w': "w' = w \<lparr> st := s', ram := m', snap := sn' \<rparr>"
    unfolding x10_def x11_def
  proof (elim exE conjE, hypsubst, goal_cases)
    case prems: 1
    show ?case
      by (rule prems(1), (fact prems)+) (use prems in \<open>simp_all add: recount_def register_fields\<close>)
  qed
  have len: "length (zip (keccak_f1600_impl_ext (join_words ws)) offsets) = 31"
    using peek_words_content [OF peek] length_final_offsets [OF offsets] length_keccak [of "join_words ws"]
    by (simp add: length_join_words)
  have late: "\<forall>(v, off) \<in> set (zip (keccak_f1600_impl_ext (join_words ws)) offsets). ((?t OR 3) + off) OR 2 \<le> (?u OR 3)"
  proof (clarify)
    fix v off assume "(v, off) \<in> set (zip (keccak_f1600_impl_ext (join_words ws)) offsets)"
    then obtain j where j: "j \<le> 648" "off = word_of_nat j * 4"
      using final_offsets [OF offsets] by (auto dest: set_zip_rightD)
    have "(?t OR 3) + off = later_call ?t j OR 3"
      using later_call_facts(3) [OF al, of j 0] s(2) j
      unfolding or3_of_aligned [OF al] by (simp add: later_call_def algebra_simps)
    then show "((?t OR 3) + off) OR 2 \<le> (?u OR 3)"
      using later_call_facts(5) [OF al s(2) j(1)] by (simp add: or.assoc later_call_def)
  qed
  from keccak_write_back_log [OF wr ok late] obtain olds rts where log: "length olds = 62" "length rts = 62"
    "log sn' = log (snap w) @ segment olds rts" "walks dbg 62 x11" "dbg \<longrightarrow> (\<forall>rt \<in> set rts. rt < (?u OR 3))"
    unfolding len by auto
  show thesis
  proof (rule that [OF log(1,2) _ log(4,5)])
    show "log (snap w') = log (snap w) @ segment olds rts" using log(3) by (simp add: w')
    have "recount () s' = recount () S"
      using inc by (auto simp: increment_family_counter_by_def res_simps)
    then show "recount () (st w') = recount () (replay_keccak_registers (batch 648 (st w)))"
      by (simp add: w' S replay_keccak_registers_def batch_eq Let_def later(2) [simplified])
        (simp add: recount_def set_register_def stamp_register_def fun_upd_twist algebra_simps)
  qed (use guards in blast)
qed

end

section \<open>The records\<close>

type_synonym keccak_state = "u64 \<times> u32 \<times> (u64 \<times> u64) \<times> u64 list \<times> u64 list"

definition halves :: "u64 list \<Rightarrow> u32 list" where
  "halves vs = concat (map split_word (take 6 vs))"

lemma length_halves [simp]: "length (halves vs) = 2 * min (length vs) 6"
  unfolding halves_def length_split_words by simp

definition keccak_record :: "cfg \<Rightarrow> u32 \<Rightarrow> keccak_state \<Rightarrow> DelegationWitness" where
  "keccak_record c x11 = (\<lambda>(now, control, (x10_ts, x11_ts), s, stamps).
     let (next_control, idx, outputs) = projr (keccak_parts c (control, s)) in
     \<lparr> write_timestamp = now OR 3,
       reg_accesses = [read_write_data (control, x10_ts) next_control, read_write_data (x11, x11_ts) x11],
       indirect_reads = [],
       indirect_writes = map2 read_write_data
         (zip (halves (map (\<lambda>i. s ! i) idx))
            (concat (map (\<lambda>i. [stamps ! (2 * i), stamps ! (2 * i + 1)]) (take 6 idx))))
         (halves outputs),
       variables_offsets = map word_of_nat (take 6 idx) \<rparr>)"

definition keccak_next :: "cfg \<Rightarrow> keccak_state \<Rightarrow> keccak_state" where
  "keccak_next c = (\<lambda>(now, control, regs, s, stamps).
     let (next_control, idx, outputs) = projr (keccak_parts c (control, s)); t = now OR 3 in
     (now + 4, next_control, (t, t), write_indices idx outputs s,
      foldl (\<lambda>l i. l[2 * i := t, 2 * i + 1 := t]) stamps (take 6 idx)))"

definition pack_keccak :: "keccak_state \<Rightarrow> 't \<Rightarrow> 't keccak_loop" where
  "pack_keccak L t = (case L of (now, control, regs, s, stamps) \<Rightarrow> (now, control, regs, s, stamps, t))"

lemma replay_keccak_round_eq:
  assumes L: "L = (now, control, regs, s, stamps)" and parts: "keccak_parts c (control, s) = Inr q"
    and room: "debug_assertions c \<longrightarrow> unat now + 4 < 2 ^ 64" and c: "rp_cfg E = c"
  shows "replay_keccak_round E x11 r (pack_keccak L t) =
    bindR (write_delegation (rp_tracer E) (ucast KECCAK_SPECIAL5_CSR_REGISTER) (keccak_record c x11 L) t)
      (\<lambda>t. Inr (pack_keccak (keccak_next c L) t))"
proof -
  obtain a b where regs: "regs = (a, b)" by (cases regs)
  obtain next_control idx outputs where q: "q = (next_control, idx, outputs)" by (cases q)
  from parts obtain p i rd where d: "keccak_decode_control c control = Inr (p, i, rd)"
    "keccak_bump_control p i rd = Inr next_control" "keccak_extract_indices p i rd = Inr idx"
    "keccak_compute_outputs p i rd (map (\<lambda>i. s ! i) idx) = Inr outputs"
    by (auto simp: keccak_parts_def res_simps q)
  have "checked_add (debug_assertions c) now TIMESTAMP_STEP = Inr (now + 4)"
    using room by (auto simp: checked_add_def code_consts)
  then show ?thesis
    by (simp add: L regs replay_keccak_round_def pack_keccak_def Let_def c d keccak_record_def keccak_next_def parts q
        halves_def)
qed

text \<open>The loop before call \<open>r\<close> of a batch that began at \<open>t0\<close> on the state \<open>ls\<close>.\<close>

definition keccak_good :: "cfg \<Rightarrow> u64 \<Rightarrow> u64 list \<Rightarrow> nat \<Rightarrow> keccak_state \<Rightarrow> bool" where
  "keccak_good c t0 ls r = (\<lambda>(now, control, (a, b), s, stamps).
     now = t0 + word_of_nat r * 4 \<and> a < (now OR 3) \<and> b < (now OR 3) \<and>
     foldR (\<lambda>_. keccak_special5_step c) [0..<r] (INITIAL_KECCAK_F1600_CONTROL_VALUE, ls) = Inr (control, s) \<and>
     (0 < r \<longrightarrow> (a, b) = (let t = t0 + word_of_nat (r - 1) * 4 OR 3 in (t, t))))"

lemma keccak_good_parts:
  assumes "keccak_good c t0 ls r (now, control, regs, s, stamps)" and "length ls = 31"
    and "r < NUM_DELEGATION_CALLS_FOR_KECCAK_F1600"
  obtains next_control idx outputs where "keccak_parts c (control, s) = Inr (next_control, idx, outputs)"
    "length idx = 6" "length outputs = 6"
proof -
  have "foldR (\<lambda>_. keccak_special5_step c) [0..<r] (INITIAL_KECCAK_F1600_CONTROL_VALUE, ls) = Inr (control, s)"
    using assms(1) by (cases regs) (simp add: keccak_good_def)
  from keccak_call_returns [OF assms(2,3) this] obtain next_control idx outputs where
    "keccak_parts c (control, s) = Inr (next_control, idx, outputs)" by auto
  with parts_lengths [OF this] that show thesis by blast
qed

lemma keccak_good_step:
  assumes t0: "aligned4 t0" "unat t0 + 4 * 649 + 4 < 2 ^ 64" and ls: "length ls = 31"
    and r: "r < NUM_DELEGATION_CALLS_FOR_KECCAK_F1600" and L: "keccak_good c t0 ls r L"
  shows "keccak_good c t0 ls (Suc r) (keccak_next c L)"
proof -
  obtain now control a b s stamps where L': "L = (now, control, (a, b), s, stamps)" by (metis surj_pair)
  obtain next_control idx outputs where q: "keccak_parts c (control, s) = Inr (next_control, idx, outputs)"
    using keccak_good_parts [OF L [unfolded L'] ls r] by blast
  have "unat t0 + 4 * Suc r + 4 < 2 ^ 64" using t0(2) r by (simp add: code_consts)
  note less = later_less [OF t0(1) this]
  have "t0 + word_of_nat (Suc r) * 4 = now + 4" using L by (simp add: L' keccak_good_def algebra_simps)
  with less L q show ?thesis
    by (simp add: L' keccak_good_def keccak_next_def Let_def foldR_append step_parts del: of_nat_Suc)
qed

definition keccak_seen :: "keccak_state \<Rightarrow> 'c state \<Rightarrow> 'c state" where
  "keccak_seen L s = (case L of (now, control, (a, b), _) \<Rightarrow>
     set_register 11 b (reg_value (registers s 11)) (set_register 10 a control s))"

lemma check_keccak_record:
  fixes s :: "unit state"
  assumes L: "keccak_good c t0 ls r L" and ls: "length ls = 31" and r: "r < NUM_DELEGATION_CALLS_FOR_KECCAK_F1600"
  defines "d \<equiv> keccak_record c (reg_value (registers s 11)) L"
  shows "shaped (ucast KECCAK_SPECIAL5_CSR_REGISTER) d"
    "check_record (ucast KECCAK_SPECIAL5_CSR_REGISTER) d (keccak_seen L s) = Inr (keccak_seen (keccak_next c L) s)"
proof -
  obtain now control a b ks stamps where L': "L = (now, control, (a, b), ks, stamps)" by (metis surj_pair)
  obtain next_control idx outputs where q: "keccak_parts c (control, ks) = Inr (next_control, idx, outputs)"
    "length idx = 6" "length outputs = 6"
    using keccak_good_parts [OF L [unfolded L'] ls r] by blast
  have pairs: "length (concat (map (\<lambda>i. [f i, g i]) is)) = 2 * length is" for f g :: "nat \<Rightarrow> u64" and "is"
    by (induction "is") simp_all
  show shape: "shaped (ucast KECCAK_SPECIAL5_CSR_REGISTER) d"
    using q by (simp add: shaped_def d_def keccak_record_def L' code_consts pairs)
  show "check_record (ucast KECCAK_SPECIAL5_CSR_REGISTER) d (keccak_seen L s) = Inr (keccak_seen (keccak_next c L) s)"
  proof -
    have "a < (now OR 3)" "b < (now OR 3)"
      using L unfolding L' keccak_good_def prod.case by blast+
    then show ?thesis
      using shape unfolding d_def
      by (simp add: check_record_def Let_def)
        (simp add: keccak_record_def L' q keccak_seen_def keccak_next_def Let_def check_access_def read_write_data_def
          set_register_def fun_eq_iff)
  qed
qed

definition keccak_entry :: "'c state \<Rightarrow> u32 list \<Rightarrow> u64 list \<Rightarrow> keccak_state" where
  "keccak_entry s ws rts =
     (timestamp s, INITIAL_KECCAK_F1600_CONTROL_VALUE,
      (reg_timestamp (registers s 10), reg_timestamp (registers s 11)), join_words ws, rts)"

definition keccak_records :: "cfg \<Rightarrow> 'c state \<Rightarrow> u32 list \<Rightarrow> u64 list \<Rightarrow> nat \<Rightarrow> DelegationWitness list" where
  "keccak_records c s ws rts n =
     map (\<lambda>r. keccak_record c (reg_value (registers s 11)) (rounds (\<lambda>_. keccak_next c) r (keccak_entry s ws rts))) [0..<n]"

lemma keccak_rounds_good:
  assumes s: "fresh 0 s" "unat (timestamp s) + 4 * 649 + 4 < 2 ^ 64"
    and ws: "length ws = 62" and r: "r \<le> NUM_DELEGATION_CALLS_FOR_KECCAK_F1600"
  shows "keccak_good c (timestamp s) (join_words ws) r (rounds (\<lambda>_. keccak_next c) r (keccak_entry s ws rts))"
proof (rule rounds_invariant [where n = NUM_DELEGATION_CALLS_FOR_KECCAK_F1600])
  show "keccak_good c (timestamp s) (join_words ws) 0 (keccak_entry s ws rts)"
    using fresh_late [OF s(1), of 10] fresh_late [OF s(1), of 11]
    by (simp add: keccak_good_def keccak_entry_def)
  show "keccak_good c (timestamp s) (join_words ws) (Suc r) (keccak_next c L)"
    if "r < NUM_DELEGATION_CALLS_FOR_KECCAK_F1600" "keccak_good c (timestamp s) (join_words ws) r L" for r L
    using s ws that by (intro keccak_good_step) (simp_all add: fresh_def length_join_words)
qed (fact r)

lemma keccak_final:
  assumes s: "fresh 0 s" "unat (timestamp s) + 4 * 649 + 4 < 2 ^ 64" and ws: "length ws = 62"
  obtains ks stamps where
    "rounds (\<lambda>_. keccak_next c) NUM_DELEGATION_CALLS_FOR_KECCAK_F1600 (keccak_entry s ws rts) =
       (let u = timestamp s + word_of_nat 648 * 4 in
        (u + 4, FINAL_KECCAK_F1600_CONTROL_VALUE, (u OR 3, u OR 3), ks, stamps))"
proof -
  let ?N = NUM_DELEGATION_CALLS_FOR_KECCAK_F1600
  have N: "?N = Suc 648" by (simp add: code_consts)
  obtain now control a b ks stamps where
    L: "rounds (\<lambda>_. keccak_next c) ?N (keccak_entry s ws rts) = (now, control, (a, b), ks, stamps)" by (metis surj_pair)
  have good: "keccak_good c (timestamp s) (join_words ws) ?N (now, control, (a, b), ks, stamps)"
    using keccak_rounds_good [OF s ws order_refl, of c rts] by (simp only: L)
  then have "control = FINAL_KECCAK_F1600_CONTROL_VALUE"
    using keccak_calls_return [of "join_words ws" c] ws by (simp add: keccak_good_def length_join_words)
  moreover have "now = timestamp s + word_of_nat 648 * 4 + 4" "a = (timestamp s + word_of_nat 648 * 4 OR 3)" "b = a"
    using good by (simp_all add: keccak_good_def N Let_def)
  ultimately show thesis using that L by (simp add: Let_def)
qed

lemma keccak_records_checked:
  assumes s: "fresh 0 s" "unat (timestamp s) + 4 * 649 + 4 < 2 ^ 64" and ws: "length ws = 62"
    and x10: "reg_value (registers s 10) = INITIAL_KECCAK_F1600_CONTROL_VALUE"
  shows "list_all (shaped (ucast KECCAK_SPECIAL5_CSR_REGISTER))
      (keccak_records c s ws rts NUM_DELEGATION_CALLS_FOR_KECCAK_F1600)"
    "certified tape (map (Record (ucast KECCAK_SPECIAL5_CSR_REGISTER))
      (keccak_records c s ws rts NUM_DELEGATION_CALLS_FOR_KECCAK_F1600))
       (tick (batch 648 s)) (tick (replay_keccak_registers (batch 648 s)))"
proof -
  let ?N = NUM_DELEGATION_CALLS_FOR_KECCAK_F1600 and ?csr = "ucast KECCAK_SPECIAL5_CSR_REGISTER :: u16"
  let ?L = "\<lambda>r. rounds (\<lambda>_. keccak_next c) r (keccak_entry s ws rts)"
  let ?b = "recount () (tick (batch 648 s))"
  have ls: "length (join_words ws) = 31" using ws by (simp add: length_join_words)
  note good = keccak_rounds_good [OF s ws, where c = c and rts = rts]
  have regs: "reg_value (registers ?b 11) = reg_value (registers s 11)" by (simp add: tick_def)
  have check: "shaped ?csr (keccak_record c (reg_value (registers s 11)) (?L r))"
    "check_record ?csr (keccak_record c (reg_value (registers s 11)) (?L r)) (keccak_seen (?L r) ?b) =
      Inr (keccak_seen (?L (Suc r)) ?b)" if "r < ?N" for r
    using check_keccak_record [OF good ls, of r ?b] that unfolding regs by simp_all
  then show "list_all (shaped ?csr) (keccak_records c s ws rts ?N)"
    by (auto simp: keccak_records_def list_all_iff)
  have first: "keccak_seen (?L 0) ?b = ?b"
    by (simp add: keccak_seen_def keccak_entry_def x10 tick_def recount_def set_register_def) (simp add: fun_eq_iff x10)
  obtain ks stamps where fin: "?L ?N = (let u = timestamp s + word_of_nat 648 * 4 in
      (u + 4, FINAL_KECCAK_F1600_CONTROL_VALUE, (u OR 3, u OR 3), ks, stamps))"
    by (rule keccak_final [OF s ws, where c = c and rts = rts])
  have last: "keccak_seen (?L ?N) ?b = recount () (tick (replay_keccak_registers (batch 648 s)))"
    unfolding fin by (simp add: keccak_seen_def Let_def replay_keccak_registers_def tick_def recount_def
        set_register_def stamp_register_def)
  show "certified tape (map (Record ?csr) (keccak_records c s ws rts ?N))
       (tick (batch 648 s)) (tick (replay_keccak_registers (batch 648 s)))"
    using certified_records [of ?N tape "\<lambda>r. Record ?csr (keccak_record c (reg_value (registers s 11)) (?L r))"
        "\<lambda>r. keccak_seen (?L r) ?b"] check(2)
    unfolding certified_def first last by (simp add: keccak_records_def comp_def)
qed

section \<open>The replay\<close>

lemma replay_keccak_records_eq:
  fixes s :: "'c state" and k :: 'd
  defines "x11 \<equiv> reg_value (registers s 11)"
  assumes R: "replay_ram (rp_ram E) flat ready (debug_assertions (rp_cfg E)) rom_limit"
    and m: "ready m" "flat m = segment ws rts @ rest" and len: "length ws = 62" "length rts = 62"
    and walk: "walks (debug_assertions (rp_cfg E)) 62 x11"
    and times: "debug_assertions (rp_cfg E) \<longrightarrow> (\<forall>rt \<in> set rts. rt < (timestamp s + word_of_nat 648 * 4 OR 3))"
    and s: "fresh 0 s" "unat (timestamp s) + 4 * 649 + 4 < 2 ^ 64"
  shows "\<exists>m'. replay_keccak_records E INITIAL_KECCAK_F1600_CONTROL_VALUE x11 (timestamp s) (recount k (batch 648 s)) (m, t) =
      bindR (foldR (write_delegation (rp_tracer E) (ucast KECCAK_SPECIAL5_CSR_REGISTER))
               (keccak_records (rp_cfg E) s ws rts NUM_DELEGATION_CALLS_FOR_KECCAK_F1600) t) (\<lambda>t. Inr (m', t)) \<and>
    ready m' \<and> flat m' = rest"
proof -
  let ?T = "rp_tracer E" and ?csr = "ucast KECCAK_SPECIAL5_CSR_REGISTER :: u16" and ?c = "rp_cfg E"
  let ?u = "timestamp s + word_of_nat 648 * 4" and ?N = NUM_DELEGATION_CALLS_FOR_KECCAK_F1600
  let ?L = "\<lambda>r. rounds (\<lambda>_. keccak_next ?c) r (keccak_entry s ws rts)"
  have N: "?N = Suc 648" by (simp add: code_consts)
  have al: "aligned4 (timestamp s)" using s(1) by (simp add: fresh_def)
  have room: "unat (timestamp s) + 4 * 648 + 8 < 2 ^ 64" using s(2) by simp
  have ls: "length (join_words ws) = 31" using len by (simp add: length_join_words)
  note art = artificial_timestamp [OF al room]
  have late: "debug_assertions ?c \<longrightarrow> (\<forall>rt \<in> set rts. rt < ?u + 4)"
    using times art(2) by (blast intro: less_trans)
  obtain m1 where m1: "replay_words E 62 x11 (?u + 4) m = Inr (zip ws rts, m1)" "ready m1" "flat m1 = rest"
    using replay_words_segment [OF R _ m(1), of ws rts rest x11 "?u + 4"] m(2) len walk late by auto
  have loop: "foldR (replay_keccak_round E x11) [0..<?N] (pack_keccak (keccak_entry s ws rts) t) =
      bindR (foldR (write_delegation ?T ?csr) (map (\<lambda>r. keccak_record ?c x11 (?L r)) [0..<?N]) t)
        (\<lambda>t. Inr (pack_keccak (?L ?N) t))"
  proof (rule records_loop [where good = "keccak_good ?c (timestamp s) (join_words ws)"])
    fix r L t assume r: "r < ?N" and L: "keccak_good ?c (timestamp s) (join_words ws) r L"
    obtain now control regs ks stamps where L': "L = (now, control, regs, ks, stamps)" by (metis surj_pair)
    have "unat (timestamp s) + 4 * r + 4 < 2 ^ 64" using s(2) r by (simp add: code_consts)
    with or3_of_later(1) [OF al this] L have "unat now + 4 < 2 ^ 64"
      by (auto simp: keccak_good_def L' split: prod.splits)
    with keccak_good_parts [OF L [unfolded L'] ls r]
    show "replay_keccak_round E x11 r (pack_keccak L t) =
        bindR (write_delegation ?T ?csr (keccak_record ?c x11 L) t) (\<lambda>t. Inr (pack_keccak (keccak_next ?c L) t))"
      using replay_keccak_round_eq [OF L'] by metis
  next
    show "keccak_good ?c (timestamp s) (join_words ws) 0 (keccak_entry s ws rts)"
      using keccak_rounds_good [OF s len(1), of 0 ?c rts] by simp
    show "keccak_good ?c (timestamp s) (join_words ws) (Suc r) (keccak_next ?c L)"
      if "r < ?N" "keccak_good ?c (timestamp s) (join_words ws) r L" for r L
      by (rule keccak_good_step [OF al s(2) ls that])
  qed
  obtain ks stamps where fin: "?L ?N = (let u = ?u in
      (u + 4, FINAL_KECCAK_F1600_CONTROL_VALUE, (u OR 3, u OR 3), ks, stamps))"
    by (rule keccak_final [OF s len(1), where c = ?c and rts = rts])
  have "unat (?u + 4) = unat ?u + 4"
    using unat_plus_le [of ?u 4] or3_of_later(1) [OF al, of 648] room by simp
  then have sub: "checked_sub (debug_assertions ?c) (?u + 4) TIMESTAMP_STEP = Inr ?u"
    by (simp add: checked_sub_def code_consts)
  have entry: "(timestamp s, INITIAL_KECCAK_F1600_CONTROL_VALUE, (reg_timestamp (registers s 10), reg_timestamp (registers s 11)),
      join_words ws, rts, t) = pack_keccak (keccak_entry s ws rts) t"
    by (simp add: pack_keccak_def keccak_entry_def)
  have pk: "pack_keccak (?L ?N) t = (?u + 4, FINAL_KECCAK_F1600_CONTROL_VALUE, (?u OR 3, ?u OR 3), ks, stamps, t)" for t
    unfolding fin by (simp add: pack_keccak_def Let_def)
  have loop': "foldR (replay_keccak_round E x11) [0..<?N]
      (timestamp s, INITIAL_KECCAK_F1600_CONTROL_VALUE, (reg_timestamp (registers s 10), reg_timestamp (registers s 11)),
       join_words ws, rts, t) =
      bindR (foldR (write_delegation ?T ?csr) (keccak_records ?c s ws rts ?N) t)
        (\<lambda>t. Inr (?u + 4, FINAL_KECCAK_F1600_CONTROL_VALUE, (?u OR 3, ?u OR 3), ks, stamps, t))"
    unfolding entry loop pk unfolding keccak_records_def x11_def ..
  have "replay_keccak_records E INITIAL_KECCAK_F1600_CONTROL_VALUE x11 (timestamp s) (recount k (batch 648 s)) (m, t) =
      bindR (foldR (write_delegation ?T ?csr) (keccak_records ?c s ws rts ?N) t) (\<lambda>t. Inr (m1, t))"
    unfolding replay_keccak_records_def Let_def prod.case art(1) [folded N] bindR_Inr m1(1)
    using sub by (simp add: len loop' bindR_assoc)
  with m1(2,3) show ?thesis by blast
qed

lemma replay_keccak_registers_recount:
  "replay_keccak_registers (recount k s) = recount k (replay_keccak_registers s)"
  by (simp add: replay_keccak_registers_def Let_def recount_updates)

text \<open>The check of the clock in between passes.\<close>

lemma replay_keccak_batch:
  fixes w :: "('d, 'm, 't, 'n) replay_world"
  defines "s \<equiv> r_st w"
  assumes guards: "(debug_assertions (rp_cfg E) \<longrightarrow> timestamp s mod 4 = 0) \<and> in_ram (reg_value (registers s 11)) \<and>
      reg_value (registers s 10) < push_bit 11 1 \<and> reg_value (registers s 11) mod 256 = 0 \<and>
      reg_value (registers s 10) = INITIAL_KECCAK_F1600_CONTROL_VALUE"
    and cycles: "\<exists>t. (if needs_tracing_data_for_circuit_family (rp_tracer E) SHIFT_BINARY_CSR_CIRCUIT_FAMILY_IDX (r_tracer w)
        then delegation_cycles (rp_cfg E) (rp_tracer E) KECCAK_SPECIAL5_CSR_REGISTER (Suc 648) (s, r_tracer w)
        else bindR (skip_cycles (rp_cfg E) (Suc 648) s) (\<lambda>s. Inr (s, r_tracer w))) = Inr (s', t)"
    and last: "last_call_timestamp (rp_cfg E) (Suc 648) (timestamp s) = Inr (timestamp s')"
  shows "replay_keccak_special5_call E w =
    batch_call KECCAK_SPECIAL5_CSR_REGISTER (Suc 648) 62
      (\<lambda>E. replay_keccak_records E INITIAL_KECCAK_F1600_CONTROL_VALUE (reg_value (registers s 11)))
      replay_keccak_registers E w"
proof -
  obtain t where t: "(if needs_tracing_data_for_circuit_family (rp_tracer E) SHIFT_BINARY_CSR_CIRCUIT_FAMILY_IDX (r_tracer w)
        then delegation_cycles (rp_cfg E) (rp_tracer E) KECCAK_SPECIAL5_CSR_REGISTER (Suc 648) (s, r_tracer w)
        else bindR (skip_cycles (rp_cfg E) (Suc 648) s) (\<lambda>s. Inr (s, r_tracer w))) = Inr (s', t)"
    using cycles by blast
  have N: "NUM_DELEGATION_CALLS_FOR_KECCAK_F1600 = Suc 648" "31 * 2 = (62 :: nat)" by (simp_all add: code_consts)
  have pass: "guardR b e m = m" if b for b e and m :: "('d, 'm, 't, 'n) replay_world res"
    using that by simp
  have pass_debug: "debug_assert (debug_assertions (rp_cfg E)) (timestamp s mod 4 = 0) m = m"
    for m :: "('d, 'm, 't, 'n) replay_world res" using guards by (auto simp: debug_assert_def)
  note g = guards [THEN conjunct2]
  note passes = pass [OF g [THEN conjunct1]] pass [OF g [THEN conjunct2, THEN conjunct1]]
    pass [OF g [THEN conjunct2, THEN conjunct2, THEN conjunct1]]
    pass [OF g [THEN conjunct2, THEN conjunct2, THEN conjunct2]] pass [OF refl]
  show ?thesis
    unfolding replay_keccak_special5_call_def batch_call_def Let_def N s_def [symmetric] t last bindR_Inr prod.case
      pass_debug passes using g by simp
qed

context recording
begin

lemma keccak_reproduced:
  assumes s: "fresh 0 (st w)" and room: "unat (timestamp (st w)) + 4 * 649 + 4 < 2 ^ 64" and ok: "ok (snap w)"
    and vm: "keccak_special5_call E w = Inr w'"
  shows "reproduced (vm_cfg E) U rom_limit tape replay_keccak_special5_call
    (st w) (log (snap w)) (st w') (log (snap w'))"
proof -
  let ?c = "vm_cfg E" and ?s = "st w" and ?csr = KECCAK_SPECIAL5_CSR_REGISTER
  let ?fam = SHIFT_BINARY_CSR_CIRCUIT_FAMILY_IDX and ?N = NUM_DELEGATION_CALLS_FOR_KECCAK_F1600
  let ?x11 = "reg_value (registers ?s 11)"
  have N: "?N = Suc 648" by (simp add: code_consts)
  have room': "unat (timestamp ?s) + 4 * 648 + 4 < 2 ^ 64" "unat (timestamp ?s) + 4 * 648 + 8 < 2 ^ 64"
    using room by simp_all
  have al: "aligned4 (timestamp ?s)" using s by (simp add: fresh_def)
  obtain ws rts where len: "length ws = 62" "length rts = 62" and
    log: "log (snap w') = log (snap w) @ segment ws rts" and walk: "walks dbg 62 ?x11" and
    times: "dbg \<longrightarrow> (\<forall>rt \<in> set rts. rt < (timestamp ?s + word_of_nat 648 * 4 OR 3))" and
    guards: "(dbg \<longrightarrow> timestamp ?s mod 4 = 0) \<and> in_ram ?x11 \<and> reg_value (registers ?s 10) < push_bit 11 1 \<and>
      ?x11 mod 256 = 0 \<and> reg_value (registers ?s 10) = INITIAL_KECCAK_F1600_CONTROL_VALUE" and
    fin: "recount () (st w') = recount () (replay_keccak_registers (batch 648 ?s))"
    by (rule keccak_call_log [OF vm ok s room'(1)])
  let ?ds = "keccak_records ?c ?s ws rts ?N" and ?new = "segment ws rts"
  let ?evs = "map (Row ?fam) (batch_rows ?csr (Suc 648) ?s) @ map (Record (ucast ?csr)) ?ds"
  have x10: "reg_value (registers ?s 10) = INITIAL_KECCAK_F1600_CONTROL_VALUE" using guards by blast
  note checked = keccak_records_checked [OF s room len(1) x10, where c = ?c and rts = rts]
  have "recount () (tick (st w')) = recount () (tick (replay_keccak_registers (batch 648 ?s)))"
    using fin by (simp add: tick_def recount_def)
  then have "certified tape (map (Record (ucast ?csr)) ?ds) (tick (batch 648 ?s)) (tick (st w'))"
    using checked(2) by (simp add: certified_def)
  with batch_certified [of ?csr ?s 648 tape] s room' have cert: "certified tape ?evs ?s (tick (st w'))"
    by (auto simp: delegation_csrs_def simp del: batch_rows.simps intro: certified_append)
  have fol: "follows ?c U rom_limit replay_keccak_special5_call ?s ?new ?evs (st w')"
    unfolding follows_def
  proof (intro allI impI)
    fix E' flat ready fine k m t source rest
    assume E': "suits ?c U rom_limit E' flat ready fine" and m: "ready m" "flat m = ?new @ rest" and t: "fine t"
    have R: "replay_ram (rp_ram E') flat ready dbg rom_limit" and c: "rp_cfg E' = ?c" and T: "tracing (rp_tracer E') fine"
      using E' by (simp_all add: suits_def)
    have regs: "replay_keccak_registers (recount k (batch 648 ?s)) = recount k (st w')"
      using arg_cong [OF fin, of "recount k"] by (simp add: replay_keccak_registers_recount)
    have "\<exists>m' t'. batch_call ?csr (Suc 648) (Suc 61)
          (\<lambda>E. replay_keccak_records E INITIAL_KECCAK_F1600_CONTROL_VALUE ?x11) replay_keccak_registers E'
          (replay_at k ?s m t source) = Inr (replay_at k (st w') m' t' source) \<and>
        ready m' \<and> flat m' = rest \<and> fine t' \<and> foldR (emit (rp_tracer E')) ?evs t = Inr t'"
    proof (rule batch_call_follows [OF E' m t room'(1) _ checked(1), where regs = replay_keccak_registers, OF _ _ regs])
      show "length ?new = Suc 61" using len by (simp add: length_segment)
      show "\<exists>m'. replay_keccak_records E' INITIAL_KECCAK_F1600_CONTROL_VALUE ?x11 (timestamp ?s) (recount k (batch 648 ?s)) (m, t) =
          bindR (foldR (write_delegation (rp_tracer E') (ucast ?csr)) ?ds t) (\<lambda>t. Inr (m', t)) \<and> ready m' \<and> flat m' = rest" for t
        using replay_keccak_records_eq [where E = E' and flat = flat and ready = ready and m = m and ws = ws and rts = rts
            and rest = rest and s = ?s and k = k and t = t] R c m len walk times s room by simp
    qed
    moreover have "replay_keccak_special5_call E' (replay_at k ?s m t source) =
      batch_call ?csr (Suc 648) 62 (\<lambda>E. replay_keccak_records E INITIAL_KECCAK_F1600_CONTROL_VALUE ?x11)
        replay_keccak_registers E' (replay_at k ?s m t source)"
    proof -
      have at: "r_st (replay_at k ?s m t source) = recount k ?s" "r_tracer (replay_at k ?s m t source) = t"
        by (simp_all add: replay_at_def)
      have "\<exists>t'. (if needs_tracing_data_for_circuit_family (rp_tracer E') ?fam t
          then delegation_cycles ?c (rp_tracer E') ?csr (Suc 648) (recount k ?s, t)
          else bindR (skip_cycles ?c (Suc 648) (recount k ?s)) (\<lambda>s. Inr (s, t))) = Inr (recount k (batch 648 ?s), t')"
        using tracing.batch_replay [OF T room'(1) t, where k = k and csr = ?csr and c = ?c] by blast
      from replay_keccak_batch [where w = "replay_at k ?s m t source" and E = E', unfolded at c recount_simps, OF guards this]
      show ?thesis using artificial_timestamp(3) [OF al room'(2), of ?c] by simp
    qed
    ultimately show "\<exists>m' t'. replay_keccak_special5_call E' (replay_at k ?s m t source) = Inr (replay_at k (st w') m' t' source) \<and>
        ready m' \<and> flat m' = rest \<and> fine t' \<and> foldR (emit (rp_tracer E')) ?evs t = Inr t'"
      by simp
  qed
  have "list_all shaped_event ?evs" using checked(1) by (auto simp: list_all_iff simp del: batch_rows.simps)
  moreover have "length ?new \<le> 62" using len by (simp add: length_segment)
  ultimately show ?thesis using cert log fol unfolding reproduced_def by blast
qed

end

end
