(* ===== verification/ReplayRun.thy ===== *)
theory ReplayRun
  imports ReplayBigint ReplayKeccak
begin

text \<open>
  The replay of a run: every instruction, every cycle and the loop of the replayer follow the
  machine along the log it left, and the events handed to the tracer pass the check of the
  transcript.
\<close>

section \<open>Instructions\<close>

text \<open>
  What the replayer accepts: no marker (it panics), and no destination in a write to the
  non-determinism source (it takes it to be \<open>x0\<close>); the decoder produces no other write.
\<close>

definition replayable :: "instruction \<Rightarrow> bool" where
  "replayable i \<longleftrightarrow> name i \<noteq> ZicsrMarkerCsr \<and> (name i = ZicsrNonDeterminismWrite \<longrightarrow> rd i = 0)"

lemma reproduced_cong:
  assumes "reproduced c U rom_limit tape g s l s' l'" and "\<And>E w. rp_cfg E = c \<Longrightarrow> f E w = g E w"
  shows "reproduced c U rom_limit tape f s l s' l'"
proof -
  have "follows c U rom_limit g s new evs s' \<Longrightarrow> follows c U rom_limit f s new evs s'" for new evs
    using assms(2) unfolding follows_def suits_def by metis
  with assms(1) show ?thesis unfolding reproduced_def by blast
qed

lemma register_reproduced:
  fixes f :: "'t tracer_ops \<Rightarrow> 'd state \<Rightarrow> 't \<Rightarrow> ('d state \<times> 't) res"
  assumes "on_state h w = Inr w'" and "\<And>s'. h (st w) = Inr s' \<Longrightarrow> row_step (operands (fetch tape (recount () (st w)))) f (st w) s'"
    and "\<And>E w. rp_cfg E = c \<Longrightarrow> F E w = on_tracer (f (rp_tracer E)) w"
  shows "reproduced c U rom_limit tape F (st w) (log (snap w)) (st w') (log (snap w'))"
proof -
  from assms(1) obtain s' where "h (st w) = Inr s'" "w' = w \<lparr> st := s' \<rparr>" by (auto simp: on_state_def res_simps)
  with row_step_reproduced [OF assms(2) [OF this(1)], where l = "log (snap w)"] show ?thesis
    by (intro reproduced_cong [OF _ assms(3)]) auto
qed

text \<open>The handlers on registers, with the operands as the instruction has them.\<close>

lemma alu_operands:
  "same_alu c C family f use_imm i h rh \<Longrightarrow> fresh 0 s \<Longrightarrow> h s = Inr s' \<Longrightarrow>
     regs = (rs1 i, if use_imm then 0 else rs2 i, rd i) \<Longrightarrow> row_step regs rh s s'"
  using same_alu_row_step by blast

lemma other_operands:
  assumes "fresh 0 s"
  shows "lui c C i s = Inr s' \<Longrightarrow> regs = (0, 0, rd i) \<Longrightarrow> row_step regs (\<lambda>T. replay_lui c T i) s s'"
    "auipc c C i s = Inr s' \<Longrightarrow> regs = (0, 0, rd i) \<Longrightarrow> row_step regs (\<lambda>T. replay_auipc c T i) s s'"
    "jal c C i s = Inr s' \<Longrightarrow> regs = (0, 0, rd i) \<Longrightarrow> row_step regs (\<lambda>T. replay_jal c T i) s s'"
    "jalr c C i s = Inr s' \<Longrightarrow> regs = (rs1 i, 0, rd i) \<Longrightarrow> row_step regs (\<lambda>T. replay_jalr c T i) s s'"
    "branch c C i s = Inr s' \<Longrightarrow> regs = (rs1 i, rs2 i, 0) \<Longrightarrow> row_step regs (\<lambda>T. replay_branch c T i) s s'"
  using upper_row_steps [OF assms] jal_row_step [OF assms] jalr_row_step [OF assms] branch_row_step [OF assms] by blast+

lemmas row_rules = same_alus [THEN alu_operands] same_mops [THEN alu_operands] other_operands

context recording
begin

lemma register_dispatch:
  assumes vm: "dispatch E i w = Inr w'" and s: "fresh 0 (st w)" and i: "i = fetch tape (recount () (st w))"
    and n: "name i \<in> {Lui, Auipc, Jal, Jalr, Slt, Slti, Sltu, Sltiu, Branch, Add, Addi, Sub, Xor, Xori, And, Andi, Or, Ori,
      Sll, Slli, Srl, Srli, Sra, Srai, Mul, Mulhu, Divu, Remu, ZimopAdd, ZimopSub, ZimopMul}"
  shows "reproduced (vm_cfg E) U rom_limit tape (\<lambda>E'. replay_dispatch E' i)
    (st w) (log (snap w)) (st w') (log (snap w'))"
  using n
  apply (simp only: insert_iff empty_iff simp_thms)
  apply (elim disjE)
  apply (rule register_reproduced, insert vm, simp add: dispatch_def, rule row_rules, rule s, assumption,
      simp add: operands_def flip: i, simp add: replay_dispatch_def)+
  done

lemma load_dispatch:
  assumes vm: "dispatch E i w = Inr w'" and s: "fresh 0 (st w)" and ok: "ok (snap w)" and i: "i = fetch tape (recount () (st w))"
    and n: "name i \<in> {Lw, Lh, Lhu, Lb, Lbu}"
  shows "reproduced (vm_cfg E) U rom_limit tape (\<lambda>E'. replay_dispatch E' i)
    (st w) (log (snap w)) (st w') (log (snap w'))"
  using n
  apply (simp only: insert_iff empty_iff simp_thms)
  apply (elim disjE)
  apply (rule reproduced_cong, rule load_reproduced [OF s ok i], simp add: operands_def,
      insert vm, simp add: dispatch_def load_forms, simp add: replay_dispatch_def replay_loads)+
  done

lemma store_dispatch:
  assumes vm: "dispatch E i w = Inr w'" and s: "fresh 0 (st w)" and ok: "ok (snap w)" and i: "i = fetch tape (recount () (st w))"
    and n: "name i \<in> {Sw, Sh, Sb}"
  shows "reproduced (vm_cfg E) U rom_limit tape (\<lambda>E'. replay_dispatch E' i)
    (st w) (log (snap w)) (st w') (log (snap w'))"
  using n
  apply (simp only: insert_iff empty_iff simp_thms)
  apply (elim disjE)
  apply (rule reproduced_cong, rule store_reproduced [OF s ok i], simp add: operands_def,
      insert vm, simp add: dispatch_def store_forms(1) [where merge = merge_half] store_forms(2,3),
      simp add: replay_dispatch_def replay_stores(1) [where merge = merge_half] replay_stores(2,3))+
  done

lemma csr_dispatch:
  assumes vm: "dispatch E i w = Inr w'" and s: "fresh 0 (st w)" and ok: "ok (snap w)" and i: "i = fetch tape (recount () (st w))"
    and room: "unat (timestamp (st w)) + 4 * 649 + 4 < 2 ^ 64" and U: "ruint (vm_ruint E)" and rep: "replayable i"
    and n: "name i \<in> {ZicsrNonDeterminismRead, ZicsrNonDeterminismWrite, ZicsrDelegation}"
  shows "reproduced (vm_cfg E) (vm_ruint E) rom_limit tape (\<lambda>E'. replay_dispatch E' i)
    (st w) (log (snap w)) (st w') (log (snap w'))"
proof -
  consider (read) "name i = ZicsrNonDeterminismRead" | (write') "name i = ZicsrNonDeterminismWrite"
    | (delegation) "name i = ZicsrDelegation" using n by auto
  then show ?thesis
  proof cases
    case read
    then have "nd_read E i w = Inr w'" "operands i = (0, 0, rd i)" using vm by (simp_all add: dispatch_def operands_def)
    from nd_read_reproduced [OF s ok i this(2,1)] show ?thesis
      by (rule reproduced_cong) (simp add: replay_dispatch_def read)
  next
    case write'
    then have "nd_write E i w = Inr w'" "rd i = 0" and op: "operands i = (rs1 i, 0, 0)"
      using vm rep by (simp_all add: dispatch_def replayable_def operands_def)
    note step = nd_write_row_step [OF s this(2,1)]
    have "reproduced (vm_cfg E) (vm_ruint E) rom_limit tape (\<lambda>E'. on_tracer (replay_nd_write (vm_cfg E) (rp_tracer E') i))
      (st w) (log (snap w)) (st w') (log (snap w'))"
      unfolding step [THEN conjunct2] by (rule row_step_reproduced) (simp flip: i add: op step [THEN conjunct1])
    then show ?thesis by (rule reproduced_cong) (simp add: replay_dispatch_def write')
  next
    case delegation
    have z: "dbg \<longrightarrow> rs1 i = 0" "dbg \<longrightarrow> rs2 i = 0" "dbg \<longrightarrow> rd i = 0"
      using vm by (auto simp: dispatch_def delegation call_delegation_def Let_def res_simps)
    have eq: "replay_dispatch E' i w = (if imm i = delegation_type_as_u32 BigInt then replay_bigint_call E' w
       else if imm i = delegation_type_as_u32 Blake then replay_blake2_round_function_call E' w
       else if imm i = delegation_type_as_u32 Keccak then replay_keccak_special5_call E' w
       else Inl UndefinedBehaviour)" if "rp_cfg E' = vm_cfg E" for E' w
      using z that by (auto simp: replay_dispatch_def delegation replay_call_delegation_def debug_assert_def)
    consider (bigint) "imm i = delegation_type_as_u32 BigInt" "bigint_call E w = Inr w'"
      | (blake) "imm i = delegation_type_as_u32 Blake" "blake2_round_function_call E w = Inr w'"
      | (keccak) "imm i = delegation_type_as_u32 Keccak" "keccak_special5_call E w = Inr w'"
      using vm by (auto simp: dispatch_def delegation call_delegation_def Let_def res_simps split: if_splits)
    then show ?thesis
    proof cases
      case bigint
      from bigint_reproduced [OF s ok U bigint(2)] show ?thesis
        by (rule reproduced_cong) (simp add: eq bigint(1))
    next
      case blake
      have "unat (timestamp (st w)) + 4 * 648 + 4 < 2 ^ 64" using room by simp
      from blake_reproduced [OF s this ok blake(2)] show ?thesis
        by (rule reproduced_cong) (simp add: eq blake(1))
    next
      case keccak
      from keccak_reproduced [OF s room ok keccak(2)] show ?thesis
        by (rule reproduced_cong) (simp add: eq keccak(1))
    qed
  qed
qed

lemma dispatch_reproduced:
  assumes "dispatch E i w = Inr w'" and "fresh 0 (st w)" and "ok (snap w)" and "i = fetch tape (recount () (st w))"
    and "unat (timestamp (st w)) + 4 * 649 + 4 < 2 ^ 64" and "ruint (vm_ruint E)" and "replayable i"
  shows "reproduced (vm_cfg E) (vm_ruint E) rom_limit tape (\<lambda>E'. replay_dispatch E' i)
    (st w) (log (snap w)) (st w') (log (snap w'))"
proof -
  consider "name i \<in> {Lw, Lh, Lhu, Lb, Lbu}" | "name i \<in> {Sw, Sh, Sb}"
    | "name i \<in> {ZicsrNonDeterminismRead, ZicsrNonDeterminismWrite, ZicsrDelegation}"
    | "name i \<in> {Lui, Auipc, Jal, Jalr, Slt, Slti, Sltu, Sltiu, Branch, Add, Addi, Sub, Xor, Xori, And, Andi, Or, Ori,
        Sll, Slli, Srl, Srli, Sra, Srai, Mul, Mulhu, Divu, Remu, ZimopAdd, ZimopSub, ZimopMul}"
    using assms(1,7) by (cases "name i") (auto simp: dispatch_def replayable_def illegal_def)
  then show ?thesis
    by cases (rule load_dispatch [OF assms(1-4)] store_dispatch [OF assms(1-4)] csr_dispatch [OF assms]
        register_dispatch [OF assms(1,2,4)], assumption)+
qed

end

section \<open>Cycles\<close>

text \<open>A cycle of the replayer, and its loop, follow the machine from \<open>s\<close> to \<open>s'\<close> along \<open>new\<close>.\<close>

definition cycle_follows ::
  "cfg \<Rightarrow> ruint_ops \<Rightarrow> nat \<Rightarrow>
   (('m, 't, 'n) replay_env \<Rightarrow> ('d, 'm, 't, 'n) replay_world \<Rightarrow> (bool \<times> ('d, 'm, 't, 'n) replay_world) res) \<Rightarrow>
   'c state \<Rightarrow> log_entry list \<Rightarrow> trace_event list \<Rightarrow> 'c state \<Rightarrow> bool" where
  "cycle_follows c U rom_limit f s new evs s' \<longleftrightarrow>
     (\<forall>E flat ready fine k m t n rest. suits c U rom_limit E flat ready fine \<longrightarrow>
        ready m \<longrightarrow> flat m = new @ rest \<longrightarrow> fine t \<longrightarrow>
        (\<exists>m' t'. f E (replay_at k s m t n) = Inr (pc s' = pc s, replay_at k s' m' t' n) \<and>
           ready m' \<and> flat m' = rest \<and> fine t' \<and> foldR (emit (rp_tracer E)) evs t = Inr t'))"

definition loop_follows ::
  "cfg \<Rightarrow> ruint_ops \<Rightarrow> nat \<Rightarrow>
   (('m, 't, 'n) replay_env \<Rightarrow> ('d, 'm, 't, 'n) replay_world \<Rightarrow> ('d, 'm, 't, 'n) replay_world res option) \<Rightarrow>
   'c state \<Rightarrow> log_entry list \<Rightarrow> trace_event list \<Rightarrow> 'c state \<Rightarrow> bool" where
  "loop_follows c U rom_limit f s new evs s' \<longleftrightarrow>
     (\<forall>E flat ready fine k m t n rest. suits c U rom_limit E flat ready fine \<longrightarrow>
        ready m \<longrightarrow> flat m = new @ rest \<longrightarrow> fine t \<longrightarrow>
        (\<exists>m' t'. f E (replay_at k s m t n) = Some (Inr (replay_at k s' m' t' n)) \<and>
           ready m' \<and> flat m' = rest \<and> fine t' \<and> foldR (emit (rp_tracer E)) evs t = Inr t'))"

lemma cycle_followsD:
  assumes "cycle_follows c U rom_limit f s new evs s'" and "suits c U rom_limit E flat ready fine"
    and "ready m" "flat m = new @ rest" "fine t"
  obtains m' t' where "f E (replay_at k s m t n) = Inr (pc s' = pc s, replay_at k s' m' t' n)"
    "ready m'" "flat m' = rest" "fine t'" "foldR (emit (rp_tracer E)) evs t = Inr t'"
  using assms unfolding cycle_follows_def by blast

lemma loop_followsD:
  assumes "loop_follows c U rom_limit f s new evs s'" and "suits c U rom_limit E flat ready fine"
    and "ready m" "flat m = new @ rest" "fine t"
  obtains m' t' where "f E (replay_at k s m t n) = Some (Inr (replay_at k s' m' t' n))"
    "ready m'" "flat m' = rest" "fine t'" "foldR (emit (rp_tracer E)) evs t = Inr t'"
  using assms unfolding loop_follows_def by blast

text \<open>The loop when the cycle is the last, and when it is not.\<close>

type_synonym ('d, 'm, 't, 'n) replay_cycles =
  "('m, 't, 'n) replay_env \<Rightarrow> ('d, 'm, 't, 'n) replay_world \<Rightarrow> (bool \<times> ('d, 'm, 't, 'n) replay_world) res"

lemma loop_last:
  assumes "cycle_follows c U rom_limit ((\<lambda>E. replay_cycle E tape) :: ('d, 'm, 't, 'n) replay_cycles) s new evs s'"
    and "timestamp s < timestamp s'"
  shows "loop_follows c U rom_limit
    ((\<lambda>E. replay_by_timestamp_bound (Suc fuel) E tape (timestamp s')) ::
       ('m, 't, 'n) replay_env \<Rightarrow> ('d, 'm, 't, 'n) replay_world \<Rightarrow> _) s new evs s'"
  unfolding loop_follows_def
proof (intro allI impI)
  fix E :: "('m, 't, 'n) replay_env" and flat ready fine m t n rest and k :: 'd
  assume E: "suits c U rom_limit E flat ready fine" "ready m" "flat m = new @ rest" "fine t"
  have stop: "replay_by_timestamp_bound fuel E tape (timestamp s') (replay_at k s' m' t' n) = Some (Inr (replay_at k s' m' t' n))"
    for m' t' by (cases fuel) (simp_all add: replay_at_def)
  from cycle_followsD [OF assms(1) E] obtain m' t' where
    "replay_cycle E tape (replay_at k s m t n) = Inr (pc s' = pc s, replay_at k s' m' t' n)"
    "ready m'" "flat m' = rest" "fine t'" "foldR (emit (rp_tracer E)) evs t = Inr t'" by metis
  then show "\<exists>m' t'. replay_by_timestamp_bound (Suc fuel) E tape (timestamp s') (replay_at k s m t n) =
      Some (Inr (replay_at k s' m' t' n)) \<and> ready m' \<and> flat m' = rest \<and> fine t' \<and> foldR (emit (rp_tracer E)) evs t = Inr t'"
    using assms(2) stop by (cases "pc s' = pc s") (simp_all add: replay_at_def)
qed

lemma loop_next:
  assumes 1: "cycle_follows c U rom_limit ((\<lambda>E. replay_cycle E tape) :: ('d, 'm, 't, 'n) replay_cycles) s new1 evs1 s1"
    and moved: "pc s1 \<noteq> pc s"
    and 2: "loop_follows c U rom_limit
      ((\<lambda>E. replay_by_timestamp_bound fuel E tape bound) ::
         ('m, 't, 'n) replay_env \<Rightarrow> ('d, 'm, 't, 'n) replay_world \<Rightarrow> _) s1 new2 evs2 s'"
    and bound: "timestamp s < bound"
  shows "loop_follows c U rom_limit
    ((\<lambda>E. replay_by_timestamp_bound (Suc fuel) E tape bound) ::
       ('m, 't, 'n) replay_env \<Rightarrow> ('d, 'm, 't, 'n) replay_world \<Rightarrow> _) s (new1 @ new2) (evs1 @ evs2) s'"
  unfolding loop_follows_def
proof (intro allI impI)
  fix E :: "('m, 't, 'n) replay_env" and flat ready fine m t n rest and k :: 'd
  assume E: "suits c U rom_limit E flat ready fine" and m: "ready m" "flat m = (new1 @ new2) @ rest" and t: "fine t"
  from m(2) have "flat m = new1 @ (new2 @ rest)" by simp
  from cycle_followsD [OF 1 E m(1) this t] obtain m1 t1 where
    m1: "replay_cycle E tape (replay_at k s m t n) = Inr (pc s1 = pc s, replay_at k s1 m1 t1 n)"
    "ready m1" "flat m1 = new2 @ rest" "fine t1" "foldR (emit (rp_tracer E)) evs1 t = Inr t1" by metis
  from loop_followsD [OF 2 E m1(2-4)] obtain m' t' where
    "replay_by_timestamp_bound fuel E tape bound (replay_at k s1 m1 t1 n) = Some (Inr (replay_at k s' m' t' n))"
    "ready m'" "flat m' = rest" "fine t'" "foldR (emit (rp_tracer E)) evs2 t1 = Inr t'" by metis
  then show "\<exists>m' t'. replay_by_timestamp_bound (Suc fuel) E tape bound (replay_at k s m t n) =
      Some (Inr (replay_at k s' m' t' n)) \<and> ready m' \<and> flat m' = rest \<and> fine t' \<and>
      foldR (emit (rp_tracer E)) (evs1 @ evs2) t = Inr t'"
    using m1 moved bound by (simp add: foldR_append) (simp add: replay_at_def)
qed

context recording
begin

lemma cycle_reproduced:
  assumes inv: "world_inv m0 l w" and room: "unat (timestamp (st w)) + 4 * 649 + 4 < 2 ^ 64"
    and U: "ruint (vm_ruint E)" and tape: "list_all replayable tape" and vm: "vm_cycle E tape w = Inr (stop, w')"
  shows "\<exists>new evs. log (snap w') = log (snap w) @ new \<and> length new \<le> 62 \<and> list_all shaped_event evs \<and>
    certified tape evs (st w) (st w') \<and> cycle_follows (vm_cfg E) (vm_ruint E) rom_limit
      ((\<lambda>E'. replay_cycle E' tape) :: ('d, 'mm, 'tt, 'nn) replay_cycles) (st w) new evs (st w')"
    "stop = None \<Longrightarrow> pc (st w') \<noteq> pc (st w)"
proof -
  let ?c = "vm_cfg E" and ?s = "st w"
  from vm obtain i w1 sn where
    i: "read_instruction ?c tape (pc ?s) = Inr i" and
    step: "dispatch E i w = Inr w1" and
    add: "checked_add dbg (timestamp (st w1)) TIMESTAMP_STEP = Inr (timestamp (st w1) + 4)" and
    snap: "take_final_snapshot (vm_snap E) (tick (st w1)) (snap w1) = Inr sn \<or>
      (\<exists>b. take_snapshot_if_needed (vm_snap E) (tick (st w1)) (snap w1) = Inr (b, sn))" and
    w': "w' = w1 \<lparr> st := tick (st w1), snap := sn \<rparr>" and
    stop: "stop = None \<longrightarrow> pc (tick (st w1)) \<noteq> pc ?s"
    by (auto simp: vm_cycle_def run_step_def Let_def res_simps tick_def code_consts split: if_splits)
  have fetch: "i = fetch tape (recount () ?s)" "replayable i"
    using i tape by (auto simp: read_instruction_def Let_def fetch_def res_simps list_all_length)
  have s: "fresh 0 ?s" and ok: "ok (snap w)"
    using inv by (auto simp: world_inv_def logged_def intro: between_fresh)
  from dispatch_reproduced [OF step s ok fetch(1) room U fetch(2), where rom_limit = rom_limit] obtain new evs where
    r: "log (snap w1) = log (snap w) @ new" "list_all shaped_event evs" "certified tape evs ?s (tick (st w1))"
      "length new \<le> 62"
      "follows ?c (vm_ruint E) rom_limit
         ((\<lambda>E'. replay_dispatch E' i) :: ('mm, 'tt, 'nn) replay_env \<Rightarrow> ('d, 'mm, 'tt, 'nn) replay_world \<Rightarrow> _)
         ?s new evs (st w1)"
    unfolding reproduced_def by blast
  show "stop = None \<Longrightarrow> pc (st w') \<noteq> pc ?s" using stop w' by simp
  have log: "log (snap w') = log (snap w) @ new"
  proof -
    have "unat (timestamp ?s) + 4 * 648 + 4 < 2 ^ 64" using room by simp
    from ensuresD [OF dispatch_midst [OF world_inv_midst [OF inv] this] step] have "ok (snap w1)"
      by (auto simp: after_def logged_def)
    then show ?thesis using snap r(1) final_log needed_log by (auto simp: w')
  qed
  have "cycle_follows ?c (vm_ruint E) rom_limit
      ((\<lambda>E'. replay_cycle E' tape) :: ('d, 'mm, 'tt, 'nn) replay_cycles) ?s new evs (st w')"
    unfolding cycle_follows_def
  proof (intro allI impI)
    fix E' :: "('mm, 'tt, 'nn) replay_env" and flat ready fine m t n rest and k :: 'd
    assume E': "suits ?c (vm_ruint E) rom_limit E' flat ready fine" "ready m" "flat m = new @ rest" "fine t"
    then have c: "rp_cfg E' = ?c" by (simp add: suits_def)
    obtain m' t' where "replay_dispatch E' i (replay_at k ?s m t n) = Inr (replay_at k (st w1) m' t' n)"
      "ready m'" "flat m' = rest" "fine t'" "foldR (emit (rp_tracer E')) evs t = Inr t'"
      using r(5) E' unfolding follows_def by blast
    then show "\<exists>m' t'. replay_cycle E' tape (replay_at k ?s m t n) = Inr (pc (st w') = pc ?s, replay_at k (st w') m' t' n) \<and>
        ready m' \<and> flat m' = rest \<and> fine t' \<and> foldR (emit (rp_tracer E')) evs t = Inr t'"
      using i add by (auto simp: replay_cycle_def replay_at_def c w' tick_def recount_updates Let_def)
  qed
  with log r(2-4) show "\<exists>new evs. log (snap w') = log (snap w) @ new \<and> length new \<le> 62 \<and> list_all shaped_event evs \<and>
    certified tape evs (st w) (st w') \<and> cycle_follows (vm_cfg E) (vm_ruint E) rom_limit
      ((\<lambda>E'. replay_cycle E' tape) :: ('d, 'mm, 'tt, 'nn) replay_cycles) (st w) new evs (st w')"
    by (auto simp: w')
qed

section \<open>Runs\<close>

lemma run_reproduced:
  assumes "world_inv m0 l w" and "unat (timestamp (st w)) + 4 * 650 * n < 2 ^ 64"
    and "ruint (vm_ruint E)" and "list_all replayable tape" and "run_basic_unrolled E tape n w = Inr (finished, w')"
  shows "\<exists>new evs. log (snap w') = log (snap w) @ new \<and> length new \<le> 62 * n \<and> list_all shaped_event evs \<and>
    certified tape evs (st w) (st w') \<and> loop_follows (vm_cfg E) (vm_ruint E) rom_limit
      ((\<lambda>E'. replay_by_timestamp_bound n E' tape (timestamp (st w'))) ::
         ('mm, 'tt, 'nn) replay_env \<Rightarrow> ('d, 'mm, 'tt, 'nn) replay_world \<Rightarrow> _) (st w) new evs (st w')"
  using assms(1,2,5)
proof (induction n arbitrary: w)
  case 0
  then have "w' = w" by simp
  then show ?case
    by (intro exI [of _ "[]"]) (auto simp: certified_Nil loop_follows_def replay_at_def)
next
  case (Suc n)
  let ?F = "\<lambda>n. (\<lambda>E'. replay_by_timestamp_bound n E' tape (timestamp (st w'))) ::
     ('mm, 'tt, 'nn) replay_env \<Rightarrow> ('d, 'mm, 'tt, 'nn) replay_world \<Rightarrow> _"
  have room: "unat (timestamp (st w)) + 4 * 649 + 4 < 2 ^ 64" "unat (timestamp (st w)) + 4 * 649 < 2 ^ 64"
    using Suc.prems(2) by simp_all
  from Suc.prems(3) obtain stop w1 where cycle: "vm_cycle E tape w = Inr (stop, w1)"
    and rest: "case stop of Some b \<Rightarrow> w1 = w' | None \<Rightarrow> run_basic_unrolled E tape n w1 = Inr (finished, w')"
    by (auto simp: res_simps split: option.splits)
  from ensuresD [OF vm_cycle_inv [OF Suc.prems(1) room(2)] cycle]
  have w1: "world_inv m0 l w1" "unat (timestamp (st w)) < unat (timestamp (st w1))"
    "unat (timestamp (st w1)) \<le> unat (timestamp (st w)) + 4 * 649" by simp_all
  from cycle_reproduced(1) [OF Suc.prems(1) room(1) assms(3,4) cycle, where rom_limit = rom_limit] obtain new1 evs1 where
    1: "log (snap w1) = log (snap w) @ new1" "length new1 \<le> 62" "list_all shaped_event evs1" "certified tape evs1 (st w) (st w1)"
    "cycle_follows (vm_cfg E) (vm_ruint E) rom_limit ((\<lambda>E'. replay_cycle E' tape) :: ('d, 'mm, 'tt, 'nn) replay_cycles)
       (st w) new1 evs1 (st w1)" by blast
  have less: "timestamp (st w) < timestamp (st w1)" using w1(2) by (simp add: word_less_nat_alt)
  show ?case
  proof (cases stop)
    case (Some b)
    with rest have w': "w' = w1" by simp
    show ?thesis using 1 loop_last [OF 1(5) less, where fuel = n] unfolding w'
      by (intro exI [of _ new1] exI [of _ evs1]) (simp del: replay_by_timestamp_bound.simps)
  next
    case None
    then have run: "run_basic_unrolled E tape n w1 = Inr (finished, w')" using rest by simp
    have room': "unat (timestamp (st w1)) + 4 * 650 * n < 2 ^ 64" "unat (timestamp (st w1)) + 4 * 649 * n < 2 ^ 64"
      using w1(3) Suc.prems(2) by simp_all
    from Suc.IH [OF w1(1) room'(1) run] obtain new2 evs2 where
      2: "log (snap w') = log (snap w1) @ new2" "length new2 \<le> 62 * n" "list_all shaped_event evs2" "certified tape evs2 (st w1) (st w')"
      "loop_follows (vm_cfg E) (vm_ruint E) rom_limit (?F n) (st w1) new2 evs2 (st w')" by blast
    have "unat (timestamp (st w1)) \<le> unat (timestamp (st w'))"
      using ensuresD [OF run_basic_inv [OF w1(1) room'(2)] run] by simp
    then have "timestamp (st w) < timestamp (st w')" using w1(2) by (simp add: word_less_nat_alt)
    from loop_next [OF 1(5) cycle_reproduced(2) [OF Suc.prems(1) room(1) assms(3,4) cycle None] 2(5) this]
    have "loop_follows (vm_cfg E) (vm_ruint E) rom_limit (?F (Suc n)) (st w) (new1 @ new2) (evs1 @ evs2) (st w')" .
    moreover have "certified tape (evs1 @ evs2) (st w) (st w')" using 1(4) 2(4) by (rule certified_append)
    moreover have "log (snap w') = log (snap w) @ (new1 @ new2)" "length (new1 @ new2) \<le> 62 * Suc n"
      "list_all shaped_event (evs1 @ evs2)" using 1 2 by simp_all
    ultimately show ?thesis by blast
  qed
qed

end

end
