(* ===== verification/MemoryArgument.thy ===== *)
theory MemoryArgument
  imports Transcript "HOL-Library.Multiset"
begin

text \<open>
  The memory argument of the circuits on the registers, as a statement on the rows alone: the
  cells at the start and all writes are together the same multiset as the cells at the end and
  all reads. A transcript that passes \<open>certify\<close> satisfies it.
\<close>

section \<open>Accesses\<close>

text \<open>A register, the value and time it is read with, the value and time it is written with.\<close>

type_synonym access = "nat \<times> (u32 \<times> timestamp_data) \<times> (u32 \<times> timestamp_data)"

definition stamp_at :: "timestamp_data \<Rightarrow> u64 \<Rightarrow> timestamp_data" where
  "stamp_at t off = from_scalar (as_scalar t OR off)"

definition access_at :: "timestamp_data \<Rightarrow> u64 \<Rightarrow> u8 \<Rightarrow> u32 \<times> timestamp_data \<Rightarrow> u32 \<Rightarrow> access" where
  "access_at t off i seen v = (unat i, seen, v, stamp_at t off)"

definition row_accesses :: "u8 \<times> u8 \<times> u8 \<Rightarrow> NonMemoryOpcodeTracingDataWithTimestamp \<Rightarrow> access list" where
  "row_accesses regs r =
     (let d = n_opcode_data r; t = n_cycle_timestamp r in
      [access_at t 0 (fst regs) (n_rs1_value d, n_rs1_read_timestamp r) (n_rs1_value d),
       access_at t 1 (fst (snd regs)) (n_rs2_value d, n_rs2_read_timestamp r) (n_rs2_value d),
       access_at t 2 (snd (snd regs)) (n_rd_old_value d, n_rd_read_timestamp r) (n_rd_value d)])"

definition load_accesses :: "u8 \<times> u8 \<times> u8 \<Rightarrow> MemoryOpcodeTracingDataWithTimestamp \<Rightarrow> access list" where
  "load_accesses regs r =
     (let d = m_opcode_data r; t = m_cycle_timestamp r in
      [access_at t 0 (fst regs) (l_rs1_value d, m_rs1_read_timestamp r) (l_rs1_value d),
       access_at t 2 (snd (snd regs)) (l_rd_old_value d, m_rd_or_ram_read_timestamp r) (l_rd_value d)])"

definition store_accesses :: "u8 \<times> u8 \<times> u8 \<Rightarrow> MemoryOpcodeTracingDataWithTimestamp \<Rightarrow> access list" where
  "store_accesses regs r =
     (let d = load_as_store (m_opcode_data r); t = m_cycle_timestamp r in
      [access_at t 0 (fst regs) (s_rs1_value d, m_rs1_read_timestamp r) (s_rs1_value d),
       access_at t 1 (fst (snd regs)) (s_rs2_value d, m_rs2_or_ram_read_timestamp r) (s_rs2_value d)])"

definition record_registers :: "u16 \<Rightarrow> u8 list" where
  "record_registers ty = (if ty = ucast KECCAK_SPECIAL5_CSR_REGISTER then [10, 11] else [10, 11, 12])"

definition record_accesses :: "u16 \<Rightarrow> DelegationWitness \<Rightarrow> access list" where
  "record_accesses ty d =
     map (\<lambda>(i, a). (unat i, (rw_read_value a, rw_timestamp a), rw_write_value a, from_scalar (write_timestamp d)))
       (zip (record_registers ty) (reg_accesses d))"

definition instr_at :: "instruction list \<Rightarrow> u32 \<Rightarrow> instruction" where
  "instr_at tape p = tape ! unat (drop_bit 2 p)"

fun accesses :: "instruction list \<Rightarrow> trace_event \<Rightarrow> access list" where
  "accesses tape (Row family r) =
     row_accesses (if is_delegation_row r then (0, 0, 0) else operands (instr_at tape (n_initial_pc (n_opcode_data r)))) r"
| "accesses tape (MemRow family r) =
     (if discr r = MEM_STORE_TRACE_DATA_MARKER
      then store_accesses (operands (instr_at tape (s_initial_pc (load_as_store (m_opcode_data r))))) r
      else load_accesses (operands (instr_at tape (l_initial_pc (m_opcode_data r)))) r)"
| "accesses tape (Record ty d) = record_accesses ty d"

fun is_row :: "trace_event \<Rightarrow> bool" where
  "is_row (Record ty d) = False"
| "is_row _ = True"

section \<open>Balance\<close>

definition cell :: "'c state \<Rightarrow> nat \<Rightarrow> nat \<times> u32 \<times> timestamp_data" where
  "cell s i = (i, reg_value (registers s i), from_scalar (reg_timestamp (registers s i)))"

definition register_cells :: "'c state \<Rightarrow> (nat \<times> u32 \<times> timestamp_data) multiset" where
  "register_cells s = image_mset (cell s) (mset_set {..<32})"

definition reads :: "access list \<Rightarrow> (nat \<times> u32 \<times> timestamp_data) multiset" where
  "reads as = mset (map (\<lambda>(i, r, w). (i, r)) as)"

definition writes :: "access list \<Rightarrow> (nat \<times> u32 \<times> timestamp_data) multiset" where
  "writes as = mset (map (\<lambda>(i, r, w). (i, w)) as)"

definition balanced :: "access list \<Rightarrow> 'c state \<Rightarrow> 'd state \<Rightarrow> bool" where
  "balanced as s s' \<longleftrightarrow> register_cells s + writes as = register_cells s' + reads as"

lemma balanced_Nil: "balanced [] s s"
  by (simp add: balanced_def reads_def writes_def)

lemma balanced_append:
  assumes "balanced a s s1" and "balanced b s1 s2"
  shows "balanced (a @ b) s s2"
proof -
  have "register_cells s + writes a + writes b = register_cells s1 + reads a + writes b"
    using assms(1) by (simp add: balanced_def)
  also have "\<dots> = register_cells s2 + reads b + reads a" using assms(2) by (simp add: balanced_def ac_simps)
  finally show ?thesis by (simp add: balanced_def reads_def writes_def ac_simps)
qed

lemmas balanced_Cons = balanced_append [of "[a]" for a, simplified]

lemma register_cells_same:
  "registers s = registers s' \<Longrightarrow> register_cells s = register_cells s'"
  unfolding register_cells_def by (rule image_mset_cong) (simp add: cell_def)

lemma balanced_end: "balanced as s s1 \<Longrightarrow> registers s2 = registers s1 \<Longrightarrow> balanced as s s2"
  using register_cells_same [of s2 s1] by (simp add: balanced_def)

lemma register_cells_recount [simp]: "register_cells (recount k s) = register_cells s"
  unfolding register_cells_def by (rule image_mset_cong) (simp add: cell_def)

text \<open>One access that passes the check.\<close>

lemma check_access_balanced:
  assumes "check_access t i seen v s = Inr s'"
  shows "balanced [(unat i, seen, v, from_scalar t)] s s'" "timestamp s' = timestamp s" "pc s' = pc s"
proof -
  from assms have i: "unat i < 32" and seen: "cell s (unat i) = (unat i, seen)"
    and s': "s' = set_register (unat i) t v s"
    by (auto simp: check_access_def cell_def Let_def res_simps)
  have "register_cells s'' = add_mset (cell s'' (unat i)) (image_mset (cell s'') (mset_set ({..<32} - {unat i})))"
    for s'' :: "unit state"
    using i mset_set.remove [of "{..<32 :: nat}" "unat i"] by (simp add: register_cells_def)
  moreover have "image_mset (cell s') (mset_set ({..<32} - {unat i})) = image_mset (cell s) (mset_set ({..<32} - {unat i}))"
    by (rule image_mset_cong) (auto simp: s' set_register_def cell_def)
  moreover have "cell s' (unat i) = (unat i, v, from_scalar t)"
    by (simp add: s' set_register_def cell_def)
  ultimately show "balanced [(unat i, seen, v, from_scalar t)] s s'"
    using seen by (simp add: balanced_def reads_def writes_def)
  show "timestamp s' = timestamp s" "pc s' = pc s" by (simp_all add: s' set_register_def)
qed

lemma from_scalar_cong:
  assumes "\<And>n. n < 48 \<Longrightarrow> bit x n = bit y n"
  shows "from_scalar x = from_scalar y"
  using assms by (auto simp: from_scalar_def intro!: bit_word_eqI simp: bit_simps)

lemma bit_clock: "bit (as_scalar (from_scalar t)) n \<longleftrightarrow> n < 48 \<and> bit t n"
  by (cases "n < 16"; cases "n < 32") (auto simp: from_scalar_def bit_simps)

lemma stamp_at_clock: "stamp_at (from_scalar t) off = from_scalar (t OR off)"
  unfolding stamp_at_def by (rule from_scalar_cong) (simp only: bit_or_iff bit_clock, simp)

lemma check_access_at:
  assumes "check_access (timestamp s0 OR off) i seen v s = Inr s'" and "from_scalar (timestamp s0) = t"
  shows "balanced [access_at t off i seen v] s s'" "timestamp s' = timestamp s" "pc s' = pc s"
  using check_access_balanced [OF assms(1)] by (simp_all add: access_at_def flip: assms(2) add: stamp_at_clock)

lemmas check_access_now = check_access_at [where off = 0, simplified]

section \<open>Transcripts\<close>

text \<open>An event that passes the check: its accesses balance, a row takes one step of the clock.\<close>

lemma same_registers [simp]: "balanced as s (next_cycle p s') \<longleftrightarrow> balanced as s s'"
  by (auto intro: balanced_end simp: next_cycle_def)

lemma check_row_balanced:
  assumes "check_row regs r s = Inr s'"
  shows "balanced (row_accesses regs r) s s'" "timestamp s' = timestamp s + 4"
    "pc s = n_initial_pc (n_opcode_data r)"
proof -
  from assms obtain s1 s2 s3 where start: "starts_at (n_initial_pc (n_opcode_data r)) (n_cycle_timestamp r) s"
    and 1: "check_access (timestamp s) (fst regs) (n_rs1_value (n_opcode_data r), n_rs1_read_timestamp r)
      (n_rs1_value (n_opcode_data r)) s = Inr s1"
    and 2: "check_access (timestamp s OR 1) (fst (snd regs)) (n_rs2_value (n_opcode_data r), n_rs2_read_timestamp r)
      (n_rs2_value (n_opcode_data r)) s1 = Inr s2"
    and 3: "check_access (timestamp s OR 2) (snd (snd regs)) (n_rd_old_value (n_opcode_data r), n_rd_read_timestamp r)
      (n_rd_value (n_opcode_data r)) s2 = Inr s3"
    and s': "s' = next_cycle (n_new_pc (n_opcode_data r)) s3"
    by (auto simp: check_row_def Let_def res_simps)
  from start have t: "from_scalar (timestamp s) = n_cycle_timestamp r" by (simp add: starts_at_def)
  note a = check_access_now [OF 1 t] check_access_at [OF 2 t] check_access_at [OF 3 t]
  show "balanced (row_accesses regs r) s s'"
    using balanced_Cons [OF a(1) balanced_Cons [OF a(4) a(7)]] by (simp add: row_accesses_def Let_def s')
  show "timestamp s' = timestamp s + 4" using a by (simp add: s' next_cycle_def)
  show "pc s = n_initial_pc (n_opcode_data r)" using start by (simp add: starts_at_def)
qed

lemma check_load_balanced:
  assumes "check_load regs r s = Inr s'"
  shows "balanced (load_accesses regs r) s s'" "timestamp s' = timestamp s + 4"
    "pc s = l_initial_pc (m_opcode_data r)"
proof -
  from assms obtain s1 s2 where start: "starts_at (l_initial_pc (m_opcode_data r)) (m_cycle_timestamp r) s"
    and 1: "check_access (timestamp s) (fst regs) (l_rs1_value (m_opcode_data r), m_rs1_read_timestamp r)
      (l_rs1_value (m_opcode_data r)) s = Inr s1"
    and 2: "check_access (timestamp s OR 2) (snd (snd regs))
      (l_rd_old_value (m_opcode_data r), m_rd_or_ram_read_timestamp r) (l_rd_value (m_opcode_data r)) s1 = Inr s2"
    and s': "s' = next_cycle (pc s2 + 4) s2"
    by (auto simp: check_load_def Let_def res_simps)
  from start have t: "from_scalar (timestamp s) = m_cycle_timestamp r" by (simp add: starts_at_def)
  note a = check_access_now [OF 1 t] check_access_at [OF 2 t]
  show "balanced (load_accesses regs r) s s'"
    using balanced_Cons [OF a(1) a(4)] by (simp add: load_accesses_def Let_def s')
  show "timestamp s' = timestamp s + 4" using a by (simp add: s' next_cycle_def)
  show "pc s = l_initial_pc (m_opcode_data r)" using start by (simp add: starts_at_def)
qed

lemma check_store_balanced:
  assumes "check_store regs r s = Inr s'"
  shows "balanced (store_accesses regs r) s s'" "timestamp s' = timestamp s + 4"
    "pc s = s_initial_pc (load_as_store (m_opcode_data r))"
proof -
  from assms obtain s1 s2 where
    start: "starts_at (s_initial_pc (load_as_store (m_opcode_data r))) (m_cycle_timestamp r) s"
    and 1: "check_access (timestamp s) (fst regs) (s_rs1_value (load_as_store (m_opcode_data r)), m_rs1_read_timestamp r)
      (s_rs1_value (load_as_store (m_opcode_data r))) s = Inr s1"
    and 2: "check_access (timestamp s OR 1) (fst (snd regs))
      (s_rs2_value (load_as_store (m_opcode_data r)), m_rs2_or_ram_read_timestamp r)
      (s_rs2_value (load_as_store (m_opcode_data r))) s1 = Inr s2"
    and s': "s' = next_cycle (pc s2 + 4) s2"
    by (auto simp: check_store_def Let_def res_simps)
  from start have t: "from_scalar (timestamp s) = m_cycle_timestamp r" by (simp add: starts_at_def)
  note a = check_access_now [OF 1 t] check_access_at [OF 2 t]
  show "balanced (store_accesses regs r) s s'"
    using balanced_Cons [OF a(1) a(4)] by (simp add: store_accesses_def Let_def s')
  show "timestamp s' = timestamp s + 4" using a by (simp add: s' next_cycle_def)
  show "pc s = s_initial_pc (load_as_store (m_opcode_data r))" using start by (simp add: starts_at_def)
qed

lemma check_record_balanced:
  assumes "check_record ty d s = Inr s'"
  shows "balanced (record_accesses ty d) s s' \<and> timestamp s' = timestamp s"
proof -
  let ?f = "\<lambda>(i, a). check_access (write_timestamp d) i (rw_read_value a, rw_timestamp a) (rw_write_value a)"
  let ?g = "\<lambda>(i, a). (unat i, (rw_read_value a, rw_timestamp a), rw_write_value a, from_scalar (write_timestamp d))"
  have "foldR ?f as s = Inr s' \<Longrightarrow> balanced (map ?g as) s s' \<and> timestamp s' = timestamp s" for as
  proof (induction as arbitrary: s)
    case (Cons a as)
    then obtain s1 where 1: "?f a s = Inr s1" "foldR ?f as s1 = Inr s'" by (auto simp: res_simps)
    from check_access_balanced [of "write_timestamp d" "fst a" "(rw_read_value (snd a), rw_timestamp (snd a))"
        "rw_write_value (snd a)" s s1] 1(1)
    have "balanced [?g a] s s1" "timestamp s1 = timestamp s" by (simp_all add: case_prod_unfold)
    with Cons.IH [OF 1(2)] balanced_Cons [of "?g a" s s1 "map ?g as" s'] show ?case by simp
  qed (simp add: balanced_Nil)
  moreover have "foldR ?f (zip (record_registers ty) (reg_accesses d)) s = Inr s'"
    using assms by (simp add: check_record_def record_registers_def res_simps)
  ultimately show ?thesis unfolding record_accesses_def by blast
qed

lemma certify_balanced:
  assumes "certify tape e s = Inr s'"
  shows "balanced (accesses tape e) s s' \<and> timestamp s' = timestamp s + (if is_row e then 4 else 0)"
proof (cases e)
  case (Row f r)
  with assms have c: "check_row (if is_delegation_row r then (0, 0, 0) else operands (fetch tape s)) r s = Inr s'" by simp
  from check_row_balanced [OF this] show ?thesis by (auto simp: Row instr_at_def fetch_def split: if_splits)
next
  case (MemRow f r)
  show ?thesis
  proof (cases "discr r = MEM_STORE_TRACE_DATA_MARKER")
    case True
    with assms have "check_store (operands (fetch tape s)) r s = Inr s'" by (simp add: MemRow)
    from check_store_balanced [OF this] True show ?thesis by (simp add: MemRow instr_at_def fetch_def)
  next
    case False
    with assms have "check_load (operands (fetch tape s)) r s = Inr s'" by (simp add: MemRow)
    from check_load_balanced [OF this] False show ?thesis by (simp add: MemRow instr_at_def fetch_def)
  qed
next
  case (Record ty d)
  with assms check_record_balanced [of ty d s s'] show ?thesis by simp
qed

theorem certified_balanced:
  assumes "certified tape evs s s'"
  shows "balanced (concat (map (accesses tape) evs)) s s'"
    "timestamp s' = timestamp s + 4 * of_nat (length (filter is_row evs))"
proof -
  have "foldR (certify tape) evs a = Inr b \<Longrightarrow> balanced (concat (map (accesses tape) evs)) a b \<and>
      timestamp b = timestamp a + 4 * of_nat (length (filter is_row evs))" for a b
  proof (induction evs arbitrary: a)
    case (Cons e evs)
    then obtain a1 where 1: "certify tape e a = Inr a1" "foldR (certify tape) evs a1 = Inr b" by (auto simp: res_simps)
    from certify_balanced [OF 1(1)] Cons.IH [OF 1(2)] show ?case
      by (auto intro: balanced_append simp: algebra_simps)
  qed (simp add: balanced_Nil)
  from this [OF assms [unfolded certified_def]]
  have "balanced (concat (map (accesses tape) evs)) (recount () s) (recount () s')"
    "timestamp s' = timestamp s + 4 * of_nat (length (filter is_row evs))" by simp_all
  then show "balanced (concat (map (accesses tape) evs)) s s'"
    "timestamp s' = timestamp s + 4 * of_nat (length (filter is_row evs))"
    by (simp_all add: balanced_def)
qed

text \<open>
  Timestamps survive a row: the three limbs keep exactly the low 48 bits of a timestamp, and
  every three limbs are those of the scalar they stand for.
\<close>

lemma timestamp_limbs:
  "as_scalar (from_scalar t) = take_bit 48 t \<and> from_scalar (as_scalar d) = d"
proof
  show "as_scalar (from_scalar t) = take_bit 48 t"
    by (rule bit_word_eqI) (simp only: bit_clock bit_take_bit_iff)
  have "\<not> bit x (16 + n)" "\<not> bit x (32 + n)" for x :: u16 and n
    using bit_imp_le_length [of x "16 + n"] bit_imp_le_length [of x "32 + n"] by auto
  then show "from_scalar (as_scalar d) = d"
    by (cases d) (auto simp: from_scalar_def intro!: bit_word_eqI simp: bit_simps)
qed

end
