(* ===== verification/ReplayProps.thy ===== *)
theory ReplayProps
  imports ReplayRun MemoryArgument Decode_Props
begin

text \<open>
  What the replay of a recorded run guarantees: it retraces the run, the rows and records it
  hands to the tracer satisfy the memory argument, and a destination holder keeps the rows of its
  family. Also: a program the decoder returns can be replayed unless it contains a marker.
\<close>

section \<open>A destination holder\<close>

fun family_rows :: "nat \<Rightarrow> trace_event list \<Rightarrow> NonMemoryOpcodeTracingDataWithTimestamp list" where
  "family_rows F [] = []"
| "family_rows F (Row family r # evs) = (if family = F then r # family_rows F evs else family_rows F evs)"
| "family_rows F (_ # evs) = family_rows F evs"

lemma holder_write_takes:
  assumes "slices_open h"
  obtains h' where "holder_write x h = Inr h'" "slices_open h'"
    "written h' = written h @ take (sum_list (rooms h)) [x]" "sum_list (rooms h') = sum_list (rooms h) - 1"
proof (cases "rooms h")
  case (Cons first rest)
  show ?thesis
    by (rule that [of "\<lparr> rooms = (if first - 1 = 0 then rest else (first - 1) # rest), written = written h @ [x] \<rparr>"])
      (use assms Cons in \<open>auto simp: holder_write_def slices_open_def\<close>)
next
  case Nil
  then show ?thesis by (intro that [of h]) (use assms in \<open>simp_all add: holder_write_def\<close>)
qed

lemma take_one_more: "take n [x] @ take (n - Suc 0) xs = take n (x # xs)"
  by (cases n) simp_all

text \<open>The holder of a family keeps its rows, in order, as long as it has room.\<close>

lemma holder_keeps:
  assumes "slices_open h" and "foldR (emit (NonMemDestinationHolder_ops F)) evs h = Inr h'"
  shows "slices_open h' \<and> written h' = written h @ take (sum_list (rooms h)) (family_rows F evs)"
  using assms
proof (induction evs arbitrary: h)
  case (Cons e evs)
  note ops = NonMemDestinationHolder_ops_def trace_non_memory_def trace_memory_def
  show ?case
  proof (cases "\<exists>r. e = Row F r")
    case True
    then obtain r where e: "e = Row F r" ..
    obtain h1 where h1: "holder_write r h = Inr h1" "slices_open h1"
      "written h1 = written h @ take (sum_list (rooms h)) [r]" "sum_list (rooms h1) = sum_list (rooms h) - 1"
      using holder_write_takes [OF Cons.prems(1)] .
    then have "foldR (emit (NonMemDestinationHolder_ops F)) evs h1 = Inr h'"
      using Cons.prems(2) by (simp add: e ops)
    from Cons.IH [OF h1(2) this] show ?thesis by (simp add: h1 e take_one_more)
  next
    case False
    then have "emit (NonMemDestinationHolder_ops F) e h = Inr h" "family_rows F (e # evs) = family_rows F evs"
      by (cases e; auto simp: ops)+
    with Cons show ?thesis by simp
  qed
qed simp

text \<open>A replay from a log in \<open>ReplayerRam\<close> for the rows of one family.\<close>

definition family_replay ::
  "cfg \<Rightarrow> nat \<Rightarrow> 'n nd_ops \<Rightarrow> ruint_ops \<Rightarrow>
   (log_entry list list, NonMemoryOpcodeTracingDataWithTimestamp holder, 'n) replay_env" where
  "family_replay c F ND U =
     \<lparr> rp_cfg = c, rp_ram = ReplayerRam_ops c, rp_tracer = NonMemDestinationHolder_ops F, rp_nd = ND, rp_ruint = U \<rparr>"

section \<open>Running and replaying\<close>

text \<open>A machine in the invariant, with room on its clock, runs a program the replayer accepts.\<close>

lemma run_followed:
  assumes "machine_inv w" and "unat (timestamp (st w)) + 4 * 650 * n < 2 ^ 64"
    and "ruint U" and "list_all replayable tape"
    and "run_basic_unrolled (rom_machine c ND U) tape n w = Inr (finished, w')"
  shows "\<exists>new evs. vec_items (reads_buffer (snap w')) = vec_items (reads_buffer (snap w)) @ new \<and>
    length new \<le> 62 * n \<and> list_all shaped_event evs \<and> certified tape evs (st w) (st w') \<and>
    loop_follows c U rom_limit
      ((\<lambda>E. replay_by_timestamp_bound n E tape (timestamp (st w'))) ::
         ('m, 't, 'n) replay_env \<Rightarrow> ('d, 'm, 't, 'n) replay_world \<Rightarrow> _)
      (st w) new evs (st w')"
proof -
  have inv: "rom_vm.world_inv c (ram w) (vec_items (reads_buffer (snap w))) w"
    using assms(1) by (simp add: world_inv_self)
  have "ruint (vm_ruint (rom_machine c ND U))" using assms(3) by (simp add: rom_machine_def)
  from rom_recording.run_reproduced [OF inv assms(2) this assms(4,5), where rom_limit = rom_limit] show ?thesis
    by (simp add: vec_log.taken_log_def rom_machine_def)
qed

text \<open>The initial log of a replay is one slice, or none; the final one is empty.\<close>

lemma one_slice_empty: "one_slice m \<Longrightarrow> concat m = [] \<Longrightarrow> m = []"
  by (cases m rule: one_slice.cases) auto

text \<open>The decoder never returns a write with a destination.\<close>

lemma decoded_replayable:
  assumes "preprocess_bytecode c opt program = Inr tape" and "\<forall>i \<in> set tape. name i \<noteq> ZicsrMarkerCsr"
  shows "list_all replayable tape"
proof -
  have "\<forall>ins \<in> set tape. instr_ok opt ins"
    using preprocess_loop_ok [OF assms(1) [unfolded preprocess_bytecode_def]] by simp
  then show ?thesis using assms(2) unfolding list_all_iff replayable_def instr_ok_def by blast
qed

lemma power_on_log:
  assumes "power_on c program ram_bytes limit source = Inr w"
  shows "vec_items (reads_buffer (snap w)) = []" "vec_capacity (reads_buffer (snap w)) = limit"
  using assms by (auto simp: power_on_def new_with_cycle_limit_def vec_buffer_ops_def Let_def res_simps)

section \<open>The capacity of the log\<close>

text \<open>
  The vector of the log never grows: it keeps the capacity it was made with and never holds
  more. A machine whose log is known to fit is again one that records.
\<close>

definition fits :: "nat \<Rightarrow> ('c, log_entry vec) simple_snapshotter \<Rightarrow> bool" where
  "fits cap sn \<longleftrightarrow> vec_log.partitioned sn \<and> vec_capacity (reads_buffer sn) = cap \<and>
     length (vec_items (reads_buffer sn)) \<le> cap"

interpretation fitting: snapshotter "simple_snapshotter_ops c vec_buffer_ops" vec_log.taken_log "fits cap" for c cap
proof unfold_locales
  let ?S = "simple_snapshotter_ops c vec_buffer_ops :: ('b, ('b, log_entry vec) simple_snapshotter) snapshotter_ops"
  note cap = fits_def simple_snapshotter_ops_def simple_append_arbitrary_value_def simple_append_memory_read_def
    simple_take_snapshot_if_needed_def snapshot_impl_def vec_buffer_ops_def vec_push_def
  fix v s s' assume *: "append_arbitrary_value ?S v s = Inr s'" "fits cap s"
  with vec_log.snap.arbitrary_log [OF *(1)] show "fits cap s' \<and> vec_log.taken_log s' = vec_log.taken_log s @ [(v, 0, 0)]"
    by (auto simp: cap res_simps)
next
  let ?S = "simple_snapshotter_ops c vec_buffer_ops :: ('b, ('b, log_entry vec) simple_snapshotter) snapshotter_ops"
  note cap = fits_def simple_snapshotter_ops_def simple_append_arbitrary_value_def simple_append_memory_read_def
    simple_take_snapshot_if_needed_def snapshot_impl_def vec_buffer_ops_def vec_push_def
  fix a v rt wt s s' assume *: "append_memory_read ?S a v rt wt s = Inr s'" "fits cap s"
  with vec_log.snap.memory_log [OF *(1)]
  show "fits cap s' \<and> vec_log.taken_log s' = vec_log.taken_log s @ [(v, timestamp_halves rt)]"
    by (auto simp: cap res_simps)
next
  let ?S = "simple_snapshotter_ops c vec_buffer_ops :: ('b, ('b, log_entry vec) simple_snapshotter) snapshotter_ops"
  note cap = fits_def simple_snapshotter_ops_def simple_take_snapshot_if_needed_def snapshot_impl_def vec_buffer_ops_def
  fix st s b s' assume *: "take_snapshot_if_needed ?S st s = Inr (b, s')" "fits cap s"
  with vec_log.snap.needed_log [OF *(1)] show "fits cap s' \<and> vec_log.taken_log s' = vec_log.taken_log s"
    by (auto simp: cap res_simps Let_def split: if_splits)
next
  let ?S = "simple_snapshotter_ops c vec_buffer_ops :: ('b, ('b, log_entry vec) simple_snapshotter) snapshotter_ops"
  note cap = fits_def simple_snapshotter_ops_def snapshot_impl_def vec_buffer_ops_def
  fix st s s' assume *: "take_final_snapshot ?S st s = Inr s'" "fits cap s"
  with vec_log.snap.final_log [OF *(1)] show "fits cap s' \<and> vec_log.taken_log s' = vec_log.taken_log s"
    by (auto simp: cap res_simps Let_def)
qed

interpretation fit_vm: vm_parts "rom_machine c ND U" families_total rom_content rom_stamp
  "\<lambda>m. {..<backing_len m}" "\<lambda>m. {rom_bytes c div 4..}" vec_log.taken_log "fits cap"
  for c ND U cap
  unfolding vm_parts_def rom_machine_def vm_env.simps
  by (intro conjI families.counting_axioms rom.ram_contract_axioms fitting.snapshotter_axioms)

interpretation fit_recording: recording "rom_machine c ND U" families_total rom_content rom_stamp
  "\<lambda>m. {..<backing_len m}" "\<lambda>m. {rom_bytes c div 4..}" vec_log.taken_log "fits cap"
  for c ND U cap
  by unfold_locales (auto simp: rom_machine_def rom_ram_ops_def rom_defs res_simps)

section \<open>Properties\<close>





text \<open>
  C36. The size of the log. A run of \<open>n\<close> cycles from power-on adds at most \<open>62\<close> entries a cycle to
  the log, and never more than the limit the snapshotter was made with.
\<close>

theorem run_log_bound:
  assumes "power_on c program ram_bytes limit source = Inr w" and "4 + 4 * 650 * n < (2 :: nat) ^ 64"
    and "ruint U" and "list_all replayable tape"
    and "run_basic_unrolled (rom_machine c ND U) tape n w = Inr (finished, w')"
  shows "length (vec_items (reads_buffer (snap w'))) \<le> min (62 * n) limit"
proof -
  note w = power_on_inv(1,2) [OF assms(1)] and empty = power_on_log [OF assms(1)]
  have room: "unat (timestamp (st w)) + 4 * 650 * n < 2 ^ 64" "unat (timestamp (st w)) + 4 * 649 * n < 2 ^ 64"
    using assms(2) by (simp_all add: w(2))
  have "length (vec_items (reads_buffer (snap w'))) \<le> 62 * n"
    using run_followed [OF w(1) room(1) assms(3-5)] empty(1) by auto
  moreover have "fit_vm.world_inv c limit (ram w) [] w"
    using w(1) empty by (auto simp: machine_inv_def fit_vm.world_inv_def fit_vm.logged_def fits_def rom_stamp_def
        vec_log.taken_log_def)
  from ensuresD [OF fit_vm.run_basic_inv [OF this room(2)] assms(5)] have "fits limit (snap w')"
    by (simp add: fit_vm.world_inv_def fit_vm.logged_def)
  ultimately show ?thesis by (simp add: fits_def)
qed

theorem run_log_bound_witness:
  "\<exists>w'. run_basic_unrolled small_machine small_tape 5 small_world = Inr (True, w') \<and>
     length (vec_items (reads_buffer (snap w'))) \<le> 10"
proof -
  from small_cycle obtain w' where "vm_cycle small_machine small_tape small_world = Inr (Some True, w')" ..
  then have run: "run_basic_unrolled small_machine small_tape 5 small_world = Inr (True, w')"
    by (simp add: numeral_eq_Suc)
  have "list_all replayable small_tape" by (simp add: small_tape_def replayable_def from_imm_def)
  from run_log_bound [OF small_power_on _ ruint_model.ruint_axioms this run] run show ?thesis by simp
qed

text \<open>
  C37. A Keccak call needs 62 entries of the log, whatever its cycle was budgeted for: with less
  room left (a log is made with one entry per cycle) it does not return.
\<close>

theorem keccak_call_needs_room:
  assumes "machine_inv w" and "unat (timestamp (st w)) + 4 * 649 < 2 ^ 64"
    and "length (vec_items (reads_buffer (snap w))) \<le> vec_capacity (reads_buffer (snap w))"
    and "vec_capacity (reads_buffer (snap w)) < length (vec_items (reads_buffer (snap w))) + 62"
  shows "\<exists>e. keccak_special5_call (rom_machine c ND U) w = Inl e"
proof (rule ccontr)
  let ?cap = "vec_capacity (reads_buffer (snap w))"
  assume "\<nexists>e. keccak_special5_call (rom_machine c ND U) w = Inl e"
  then obtain w' where call: "keccak_special5_call (rom_machine c ND U) w = Inr w'"
    by (cases "keccak_special5_call (rom_machine c ND U) w") auto
  have inv: "fit_vm.world_inv c ?cap (ram w) (vec_items (reads_buffer (snap w))) w"
    using assms(1,3) by (auto simp: machine_inv_def fit_vm.world_inv_def fit_vm.logged_def fits_def rom_stamp_def
        vec_log.taken_log_def)
  have room: "unat (timestamp (st w)) + 4 * 648 + 4 < 2 ^ 64" using assms(2) by simp
  have fits: "fits ?cap (snap w)" using inv by (simp add: fit_vm.world_inv_def fit_vm.logged_def)
  have fresh: "fresh 0 (st w)" using inv by (auto simp: fit_vm.world_inv_def intro: between_fresh)
  note mid = fit_vm.world_inv_midst [OF inv]
  from ensuresD [OF fit_vm.keccak_call_midst [OF mid(1-4) room] call] have "fits ?cap (snap w')"
    by (auto simp: fit_vm.after_def fit_vm.logged_def)
  moreover obtain olds rts where "length olds = 62" "length rts = 62"
    "vec_log.taken_log (snap w') = vec_log.taken_log (snap w) @ segment olds rts"
    using fit_recording.keccak_call_log [OF call fits fresh room] by metis
  ultimately show False using assms(4) by (simp add: fits_def vec_log.taken_log_def length_segment)
qed

theorem keccak_call_needs_room_witness:
  "\<exists>e. keccak_special5_call small_machine small_world = Inl e"
  by (rule keccak_call_needs_room)
    (use power_on_inv(1,2) [OF small_power_on] power_on_log [OF small_power_on] in simp_all)

end
