(* ===== verification/GaloisField.thy ===== *)
theory GaloisField
  imports Mersenne_Group
begin

text \<open>
  The fields the prover computes in, as types of class \<open>field\<close>: \<open>gf\<close> with \<open>p = 2 ^ 31 - 1\<close> elements, \<open>gf2\<close>
  = \<open>gf[i] / (i * i + 1)\<close> and \<open>gf4 = gf2[u] / (u * u - (2 + i))\<close>. They are the specification of the
  crate \<open>field\<close>. That the two quotients are fields rests on \<open>-1\<close> and 5 not being squares modulo \<open>p\<close>.
\<close>

section \<open>The prime field\<close>

typedef gf = "{..<P}"
  by (rule exI [of _ 0]) simp

setup_lifting type_definition_gf

instantiation gf :: comm_ring_1
begin

lift_definition zero_gf :: gf is 0 by simp

lift_definition one_gf :: gf is 1 by simp

lift_definition plus_gf :: "gf \<Rightarrow> gf \<Rightarrow> gf" is "\<lambda>a b. (a + b) mod P" by simp

lift_definition uminus_gf :: "gf \<Rightarrow> gf" is "\<lambda>a. (P - a) mod P" by simp

lift_definition minus_gf :: "gf \<Rightarrow> gf \<Rightarrow> gf" is "\<lambda>a b. (a + (P - b)) mod P" by simp

lift_definition times_gf :: "gf \<Rightarrow> gf \<Rightarrow> gf" is "\<lambda>a b. a * b mod P" by simp

instance
proof
  fix a b c :: gf
  show "a + b + c = a + (b + c)" by transfer (simp add: mod_simps add.assoc)
  show "a + b = b + a" by transfer (simp add: add.commute)
  show "0 + a = a" by transfer simp
  show "- a + a = 0" by transfer (simp add: mod_simps)
  show "a - b = a + - b" by transfer (simp add: mod_simps)
  show "a * b * c = a * (b * c)" by transfer (simp add: mod_simps mult.assoc)
  show "a * b = b * a" by transfer (simp add: mult.commute)
  show "1 * a = a" by transfer simp
  show "(a + b) * c = a * c + b * c" by transfer (simp add: mod_simps distrib_right)
  show "(0 :: gf) \<noteq> 1" by transfer simp
qed

end

lemma Rep_of_nat: "Rep_gf (of_nat n) = n mod P"
proof (induction n)
  case (Suc n)
  then show ?case by (simp add: plus_gf.rep_eq one_gf.rep_eq mod_simps)
qed (simp add: zero_gf.rep_eq)

lemma of_nat_gf_eq: "(of_nat m :: gf) = of_nat n \<longleftrightarrow> m mod P = n mod P"
  using Rep_gf_inject [of "of_nat m" "of_nat n"] by (simp only: Rep_of_nat)

lemma gf_cases: "\<exists>n < P. a = (of_nat n :: gf)"
proof -
  have "Rep_gf a < P" using Rep_gf [of a] by simp
  moreover from this have "a = of_nat (Rep_gf a)"
    using Rep_gf_inject [of a "of_nat (Rep_gf a)"] by (simp add: Rep_of_nat)
  ultimately show ?thesis by blast
qed

lemma of_nat_P [simp]: "(2147483647 :: gf) = 0"
  using of_nat_gf_eq [of P 0] by simp

instantiation gf :: field
begin

definition inverse_gf :: "gf \<Rightarrow> gf" where "inverse_gf a = (if a = 0 then 0 else a ^ 2147483645)"

definition divide_gf :: "gf \<Rightarrow> gf \<Rightarrow> gf" where "divide_gf a b = a * inverse b"

instance
proof
  fix a b :: gf
  show "a \<noteq> 0 \<Longrightarrow> inverse a * a = 1"
  proof -
    assume a: "a \<noteq> 0"
    obtain n where n: "n < P" "a = of_nat n" using gf_cases by blast
    with a have "0 < n" by (cases n) auto
    from mersenne_inverse [OF this n(1)] have "(of_nat (n * n ^ 2147483645) :: gf) = of_nat 1"
      unfolding of_nat_gf_eq by simp
    then show ?thesis using a by (simp add: inverse_gf_def n(2) mult.commute)
  qed
  show "a div b = a * inverse b" by (simp add: divide_gf_def)
  show "inverse (0 :: gf) = 0" by (simp add: inverse_gf_def)
qed

end

lemma gf_fermat: "a \<noteq> 0 \<Longrightarrow> (a :: gf) ^ 2147483646 = 1"
proof -
  assume a: "a \<noteq> 0"
  obtain n where n: "n < P" "a = of_nat n" using gf_cases by blast
  with a have "0 < n" by (cases n) auto
  from mersenne_fermat [OF this n(1)] have "(of_nat (n ^ 2147483646) :: gf) = of_nat 1"
    unfolding of_nat_gf_eq by simp
  then show ?thesis by (simp add: n(2))
qed

text \<open>A square has the power \<open>(p - 1) / 2\<close> equal to 1; \<open>-1\<close> and 5 have not.\<close>

lemma gf_square_power: "(a :: gf) \<noteq> 0 \<Longrightarrow> (a * a) ^ 1073741823 = 1"
  using gf_fermat [of a] power_mult [of a 2 1073741823] by (simp add: power2_eq_square)

lemma one_neq_minus_one: "(1 :: gf) \<noteq> - 1"
proof
  assume "(1 :: gf) = - 1"
  then have "(of_nat 2 :: gf) = of_nat 0" by (simp add: eq_neg_iff_add_eq_0)
  then show False unfolding of_nat_gf_eq by simp
qed

lemma minus_one_no_square: "(a :: gf) * a \<noteq> - 1"
proof
  assume a: "a * a = - 1"
  then have "a \<noteq> 0" by auto
  from gf_square_power [OF this] have "(- 1 :: gf) ^ 1073741823 = 1" by (simp only: a)
  moreover have "(- 1 :: gf) ^ 1073741823 = - 1" using power_minus1_odd [of 536870911, where 'a = gf] by simp
  ultimately show False using one_neq_minus_one by simp
qed

lemma five_no_square: "(a :: gf) * a \<noteq> 5"
proof
  assume a: "a * a = 5"
  have "(5 :: gf) \<noteq> 0" using of_nat_gf_eq [of 5 0] by simp
  with a have "a \<noteq> 0" by auto
  from gf_square_power [OF this] have "(of_nat (5 ^ 1073741823) :: gf) = of_nat 1"
    by (simp only: a of_nat_power of_nat_numeral of_nat_1)
  then show False unfolding of_nat_gf_eq powm_eq by simp
qed

section \<open>The extension by \<open>i\<close>\<close>

text \<open>A sum of two squares vanishes only at zero.\<close>

lemma norm_zero: "(a :: gf) * a + b * b = 0 \<longleftrightarrow> a = 0 \<and> b = 0"
proof
  assume eq: "a * a + b * b = 0"
  show "a = 0 \<and> b = 0"
  proof (rule ccontr)
    assume "\<not> (a = 0 \<and> b = 0)"
    with eq have "b \<noteq> 0" by auto
    then have "(a / b) * (a / b) = - 1" using eq by (simp add: divide_simps eq_neg_iff_add_eq_0)
    then show False using minus_one_no_square by blast
  qed
qed simp

datatype gf2 = GF2 (re: gf) (im: gf)

instantiation gf2 :: field
begin

definition zero_gf2 :: "gf2" where "zero_gf2 = GF2 0 0"
definition one_gf2 :: "gf2" where "one_gf2 = GF2 1 0"
definition plus_gf2 :: "gf2 \<Rightarrow> gf2 \<Rightarrow> gf2" where "plus_gf2 a b = GF2 (re a + re b) (im a + im b)"
definition uminus_gf2 :: "gf2 \<Rightarrow> gf2" where "uminus_gf2 a = GF2 (- re a) (- im a)"
definition minus_gf2 :: "gf2 \<Rightarrow> gf2 \<Rightarrow> gf2" where "minus_gf2 a b = GF2 (re a - re b) (im a - im b)"
definition times_gf2 :: "gf2 \<Rightarrow> gf2 \<Rightarrow> gf2" where "times_gf2 a b = GF2 (re a * re b - im a * im b) (re a * im b + im a * re b)"
definition inverse_gf2 :: "gf2 \<Rightarrow> gf2" where "inverse_gf2 a = GF2 (re a / (re a * re a + im a * im a)) (- im a / (re a * re a + im a * im a))"
definition divide_gf2 :: "gf2 \<Rightarrow> gf2 \<Rightarrow> gf2" where "divide_gf2 a b = a * inverse b"

lemmas gf2_defs = zero_gf2_def one_gf2_def plus_gf2_def uminus_gf2_def minus_gf2_def times_gf2_def

instance
proof
  fix a b c :: gf2
  show "a + b + c = a + (b + c)" "a + b = b + a" "0 + a = a" "- a + a = 0" "a - b = a + - b"
    "a * b * c = a * (b * c)" "a * b = b * a" "1 * a = a" "(a + b) * c = a * c + b * c" "(0 :: gf2) \<noteq> 1"
    by (simp_all add: gf2_defs algebra_simps)
  show "a \<noteq> 0 \<Longrightarrow> inverse a * a = 1"
  proof -
    assume "a \<noteq> 0"
    then have "re a * re a + im a * im a \<noteq> 0" unfolding norm_zero by (cases a) (simp add: gf2_defs)
    then show ?thesis
      by (simp add: gf2_defs inverse_gf2_def add_divide_distrib [symmetric] diff_divide_distrib [symmetric])
  qed
  show "a div b = a * inverse b" by (simp add: divide_gf2_def)
  show "inverse (0 :: gf2) = 0" by (simp add: inverse_gf2_def gf2_defs)
qed

end

lemma gf2_parts [simp]:
  "re 0 = 0" "im 0 = 0" "re 1 = 1" "im 1 = 0" "re (a + b) = re a + re b" "im (a + b) = im a + im b"
  "re (- a) = - re a" "im (- a) = - im a" "re (a - b) = re a - re b" "im (a - b) = im a - im b"
  "re (a * b) = re a * re b - im a * im b" "im (a * b) = re a * im b + im a * re b"
  by (simp_all add: gf2_defs)

section \<open>The extension by \<open>u\<close>\<close>

definition nonresidue :: gf2 where "nonresidue = GF2 2 1"

text \<open>The norm of \<open>2 + i\<close> is 5, so \<open>2 + i\<close> is no square.\<close>

lemma nonresidue_no_square: "(a :: gf2) * a \<noteq> nonresidue"
proof
  let ?n = "\<lambda>a. re a * re a + im a * im a"
  assume "a * a = nonresidue"
  then have "?n (a * a) = ?n nonresidue" by (simp only:)
  moreover have "?n (a * a) = ?n a * ?n a" by (simp add: algebra_simps)
  ultimately have "?n a * ?n a = 5" by (simp add: nonresidue_def)
  then show False using five_no_square by blast
qed

lemma norm4_zero: "(a :: gf2) * a - nonresidue * (b * b) = 0 \<longleftrightarrow> a = 0 \<and> b = 0"
proof
  assume eq: "a * a - nonresidue * (b * b) = 0"
  show "a = 0 \<and> b = 0"
  proof (rule ccontr)
    assume "\<not> (a = 0 \<and> b = 0)"
    with eq have "b \<noteq> 0" by auto
    then have "(a / b) * (a / b) = nonresidue" using eq by (simp add: divide_simps)
    then show False using nonresidue_no_square by blast
  qed
qed simp

datatype gf4 = GF4 (lo: gf2) (hi: gf2)

instantiation gf4 :: field
begin

definition zero_gf4 :: "gf4" where "zero_gf4 = GF4 0 0"
definition one_gf4 :: "gf4" where "one_gf4 = GF4 1 0"
definition plus_gf4 :: "gf4 \<Rightarrow> gf4 \<Rightarrow> gf4" where "plus_gf4 a b = GF4 (lo a + lo b) (hi a + hi b)"
definition uminus_gf4 :: "gf4 \<Rightarrow> gf4" where "uminus_gf4 a = GF4 (- lo a) (- hi a)"
definition minus_gf4 :: "gf4 \<Rightarrow> gf4 \<Rightarrow> gf4" where "minus_gf4 a b = GF4 (lo a - lo b) (hi a - hi b)"
definition times_gf4 :: "gf4 \<Rightarrow> gf4 \<Rightarrow> gf4" where "times_gf4 a b = GF4 (lo a * lo b + nonresidue * (hi a * hi b)) (lo a * hi b + hi a * lo b)"
definition inverse_gf4 :: "gf4 \<Rightarrow> gf4" where "inverse_gf4 a = (let n = lo a * lo a - nonresidue * (hi a * hi a) in GF4 (lo a / n) (- hi a / n))"
definition divide_gf4 :: "gf4 \<Rightarrow> gf4 \<Rightarrow> gf4" where "divide_gf4 a b = a * inverse b"

lemmas gf4_defs = zero_gf4_def one_gf4_def plus_gf4_def uminus_gf4_def minus_gf4_def times_gf4_def

instance
proof
  fix a b c :: gf4
  show "a + b + c = a + (b + c)" "a + b = b + a" "0 + a = a" "- a + a = 0" "a - b = a + - b"
    "a * b * c = a * (b * c)" "a * b = b * a" "1 * a = a" "(a + b) * c = a * c + b * c" "(0 :: gf4) \<noteq> 1"
    by (simp_all add: gf4_defs algebra_simps del: gf2_parts)
  show "a \<noteq> 0 \<Longrightarrow> inverse a * a = 1"
  proof -
    assume "a \<noteq> 0"
    then have "lo a * lo a - nonresidue * (hi a * hi a) \<noteq> 0"
      unfolding norm4_zero by (cases a) (simp add: gf4_defs)
    then show ?thesis
      by (simp add: gf4_defs inverse_gf4_def Let_def add_divide_distrib [symmetric] diff_divide_distrib [symmetric]
          del: gf2_parts)
  qed
  show "a div b = a * inverse b" by (simp add: divide_gf4_def)
  show "inverse (0 :: gf4) = 0" by (simp add: inverse_gf4_def gf4_defs Let_def)
qed

end

lemma gf4_parts [simp]:
  "lo 0 = 0" "hi 0 = 0" "lo 1 = 1" "hi 1 = 0" "lo (a + b) = lo a + lo b" "hi (a + b) = hi a + hi b"
  "lo (- a) = - lo a" "hi (- a) = - hi a" "lo (a - b) = lo a - lo b" "hi (a - b) = hi a - hi b"
  "lo (a * b) = lo a * lo b + nonresidue * (hi a * hi b)" "hi (a * b) = lo a * hi b + hi a * lo b"
  by (simp_all add: gf4_defs)

end
