(* ===== verification/FieldTower.thy ===== *)
theory FieldTower
  imports Field_Props GaloisField
begin

text \<open>
  The tower of fields of the crate \<open>field\<close>: the trait \<open>Field\<close> (\<open>field.rs\<close>) as a record of operations, its
  three implementations \<open>Mersenne31Field\<close>, \<open>Mersenne31Complex\<close> (\<open>complex.rs\<close>) and \<open>Mersenne31Quartic\<close>
  (\<open>quartic.rs\<close>), and the contract \<open>field_impl\<close>: the elements represent those of a field, and
  every operation represents its operation.
\<close>

section \<open>The trait Field\<close>

text \<open>The required methods, and \<open>PartialEq\<close>. A method that assigns to its receiver returns the new value.\<close>

record 'f field_ops =
  f_zero :: 'f
  f_one :: 'f
  f_is_zero :: "'f \<Rightarrow> bool"
  f_is_one :: "'f \<Rightarrow> bool"
  f_inverse :: "'f \<Rightarrow> 'f option"
  f_add :: "'f \<Rightarrow> 'f \<Rightarrow> 'f"
  f_sub :: "'f \<Rightarrow> 'f \<Rightarrow> 'f"
  f_mul :: "'f \<Rightarrow> 'f \<Rightarrow> 'f"
  f_square :: "'f \<Rightarrow> 'f"
  f_negate :: "'f \<Rightarrow> 'f"
  f_double :: "'f \<Rightarrow> 'f"
  f_eq :: "'f \<Rightarrow> 'f \<Rightarrow> bool"

definition m31_ops :: "m31 field_ops" where
  "m31_ops =
     \<lparr> f_zero = 0, f_one = 1, f_is_zero = m31_is_zero, f_is_one = m31_is_one, f_inverse = m31_inverse,
       f_add = add_mod, f_sub = sub_mod, f_mul = mul_mod, f_square = m31_square, f_negate = m31_negate,
       f_double = m31_double, f_eq = m31_eq \<rparr>"

section \<open>Mersenne31Complex\<close>

record complex31 =
  cx0 :: m31
  cx1 :: m31

definition complex_new :: "m31 \<Rightarrow> m31 \<Rightarrow> complex31" where
  "complex_new real imag = \<lparr> cx0 = real, cx1 = imag \<rparr>"

definition conjugate :: "complex31 \<Rightarrow> complex31" where
  "conjugate x = x \<lparr> cx1 := m31_negate (cx1 x) \<rparr>"

definition complex_is_zero :: "complex31 \<Rightarrow> bool" where
  "complex_is_zero x \<longleftrightarrow> m31_is_zero (cx0 x) \<and> m31_is_zero (cx1 x)"

definition complex_is_one :: "complex31 \<Rightarrow> bool" where
  "complex_is_one x \<longleftrightarrow> m31_is_one (cx0 x) \<and> m31_is_zero (cx1 x)"

definition complex_add :: "complex31 \<Rightarrow> complex31 \<Rightarrow> complex31" where
  "complex_add x y = \<lparr> cx0 = add_mod (cx0 x) (cx0 y), cx1 = add_mod (cx1 x) (cx1 y) \<rparr>"

definition complex_sub :: "complex31 \<Rightarrow> complex31 \<Rightarrow> complex31" where
  "complex_sub x y = \<lparr> cx0 = sub_mod (cx0 x) (cx0 y), cx1 = sub_mod (cx1 x) (cx1 y) \<rparr>"

text \<open>
  Multiplication and squaring, for the host with three and two multiplications, and for the
  guest with modular instructions by the schoolbook.
\<close>

definition complex_mul :: "complex31 \<Rightarrow> complex31 \<Rightarrow> complex31" where
  "complex_mul x y =
     (let v0 = mul_mod (cx0 x) (cx0 y);
          v1 = mul_mod (cx1 x) (cx1 y);
          c1 = add_mod (cx1 x) (cx0 x);
          t0 = add_mod (cx0 y) (cx1 y);
          c1 = mul_mod c1 t0;
          c1 = sub_mod c1 v0;
          c1 = sub_mod c1 v1;
          c0 = sub_mod v0 v1 in
      \<lparr> cx0 = c0, cx1 = c1 \<rparr>)"

definition complex_mul_guest :: "complex31 \<Rightarrow> complex31 \<Rightarrow> complex31" where
  "complex_mul_guest x y =
     (let v0 = mul_mod (cx0 x) (cx0 y);
          v1 = mul_mod (cx1 x) (cx1 y);
          v01 = mul_mod (cx0 x) (cx1 y);
          v10 = mul_mod (cx1 x) (cx0 y) in
      \<lparr> cx0 = sub_mod v0 v1, cx1 = add_mod v01 v10 \<rparr>)"

definition complex_square :: "complex31 \<Rightarrow> complex31" where
  "complex_square x =
     (let v0 = sub_mod (cx0 x) (cx1 x);
          v3 = add_mod (cx0 x) (cx1 x);
          v2 = mul_mod (cx0 x) (cx1 x);
          v0 = mul_mod v0 v3;
          v0 = add_mod v0 v2 in
      \<lparr> cx0 = sub_mod v0 v2, cx1 = m31_double v2 \<rparr>)"

definition complex_square_guest :: "complex31 \<Rightarrow> complex31" where
  "complex_square_guest x =
     (let v0 = mul_mod (cx0 x) (cx0 x);
          v1 = mul_mod (cx1 x) (cx1 x);
          cross = mul_mod (cx0 x) (cx1 x) in
      \<lparr> cx0 = sub_mod v0 v1, cx1 = m31_double cross \<rparr>)"

definition complex_negate :: "complex31 \<Rightarrow> complex31" where
  "complex_negate x = \<lparr> cx0 = m31_negate (cx0 x), cx1 = m31_negate (cx1 x) \<rparr>"

definition complex_double :: "complex31 \<Rightarrow> complex31" where
  "complex_double x = \<lparr> cx0 = m31_double (cx0 x), cx1 = m31_double (cx1 x) \<rparr>"

text \<open>\<open>Mersenne31Field::mul_by_non_residue_impl\<close> multiplies by \<open>-1\<close>.\<close>

definition m31_mul_by_non_residue :: "m31 \<Rightarrow> m31" where
  "m31_mul_by_non_residue x = m31_negate x"

definition complex_inverse :: "complex31 \<Rightarrow> complex31 option" where
  "complex_inverse x =
     (let v0 = m31_square (cx0 x);
          v1 = m31_square (cx1 x);
          v1_by_nonresidue = m31_mul_by_non_residue v1;
          v0 = sub_mod v0 v1_by_nonresidue in
      case m31_inverse v0 of
        None \<Rightarrow> None
      | Some inversed \<Rightarrow>
          Some \<lparr> cx0 = mul_mod (cx0 x) inversed, cx1 = m31_negate (mul_mod (cx1 x) inversed) \<rparr>)"

definition complex_eq :: "complex31 \<Rightarrow> complex31 \<Rightarrow> bool" where
  "complex_eq x y \<longleftrightarrow> m31_eq (cx0 x) (cx0 y) \<and> m31_eq (cx1 x) (cx1 y)"

definition complex_mul_by_base :: "complex31 \<Rightarrow> m31 \<Rightarrow> complex31" where
  "complex_mul_by_base x e = \<lparr> cx0 = mul_mod (cx0 x) e, cx1 = mul_mod (cx1 x) e \<rparr>"

definition complex_add_base :: "complex31 \<Rightarrow> m31 \<Rightarrow> complex31" where
  "complex_add_base x e = x \<lparr> cx0 := add_mod (cx0 x) e \<rparr>"

definition complex_sub_base :: "complex31 \<Rightarrow> m31 \<Rightarrow> complex31" where
  "complex_sub_base x e = x \<lparr> cx0 := sub_mod (cx0 x) e \<rparr>"

definition complex_from_base :: "m31 \<Rightarrow> complex31" where
  "complex_from_base e = \<lparr> cx0 = e, cx1 = 0 \<rparr>"

definition complex_ops :: "complex31 field_ops" where
  "complex_ops =
     \<lparr> f_zero = \<lparr> cx0 = 0, cx1 = 0 \<rparr>, f_one = \<lparr> cx0 = 1, cx1 = 0 \<rparr>, f_is_zero = complex_is_zero,
       f_is_one = complex_is_one, f_inverse = complex_inverse, f_add = complex_add, f_sub = complex_sub,
       f_mul = complex_mul, f_square = complex_square, f_negate = complex_negate, f_double = complex_double,
       f_eq = complex_eq \<rparr>"

definition complex_ops_guest :: "complex31 field_ops" where
  "complex_ops_guest = complex_ops \<lparr> f_mul := complex_mul_guest, f_square := complex_square_guest \<rparr>"

text \<open>\<open>2 + i\<close> is the non-residue of the next extension.\<close>

definition complex_mul_by_non_residue :: "complex31 \<Rightarrow> complex31" where
  "complex_mul_by_non_residue elem =
     (let a = cx0 elem; b = cx1 elem;
          real = m31_double a;
          real = sub_mod real b;
          imag = m31_double b;
          imag = add_mod imag a in
      \<lparr> cx0 = real, cx1 = imag \<rparr>)"

section \<open>Mersenne31Quartic\<close>

record quartic31 =
  qx0 :: complex31
  qx1 :: complex31

definition from_array_of_base :: "m31 \<times> m31 \<times> m31 \<times> m31 \<Rightarrow> quartic31" where
  "from_array_of_base els =
     (case els of (e0, e1, e2, e3) \<Rightarrow> \<lparr> qx0 = \<lparr> cx0 = e0, cx1 = e1 \<rparr>, qx1 = \<lparr> cx0 = e2, cx1 = e3 \<rparr> \<rparr>)"

definition into_coeffs_in_base :: "quartic31 \<Rightarrow> m31 \<times> m31 \<times> m31 \<times> m31" where
  "into_coeffs_in_base x = (cx0 (qx0 x), cx1 (qx0 x), cx0 (qx1 x), cx1 (qx1 x))"

definition quartic_is_zero :: "quartic31 \<Rightarrow> bool" where
  "quartic_is_zero x \<longleftrightarrow> complex_is_zero (qx0 x) \<and> complex_is_zero (qx1 x)"

definition quartic_is_one :: "quartic31 \<Rightarrow> bool" where
  "quartic_is_one x \<longleftrightarrow> complex_is_one (qx0 x) \<and> complex_is_zero (qx1 x)"

definition quartic_eq :: "quartic31 \<Rightarrow> quartic31 \<Rightarrow> bool" where
  "quartic_eq x y \<longleftrightarrow> complex_eq (qx0 x) (qx0 y) \<and> complex_eq (qx1 x) (qx1 y)"

definition quartic_add :: "quartic31 \<Rightarrow> quartic31 \<Rightarrow> quartic31" where
  "quartic_add x y = \<lparr> qx0 = complex_add (qx0 x) (qx0 y), qx1 = complex_add (qx1 x) (qx1 y) \<rparr>"

definition quartic_sub :: "quartic31 \<Rightarrow> quartic31 \<Rightarrow> quartic31" where
  "quartic_sub x y = \<lparr> qx0 = complex_sub (qx0 x) (qx0 y), qx1 = complex_sub (qx1 x) (qx1 y) \<rparr>"

text \<open>The operations on the halves are those of the build: \<open>K\<close> is the host's or the guest's.\<close>

definition quartic_mul :: "complex31 field_ops \<Rightarrow> quartic31 \<Rightarrow> quartic31 \<Rightarrow> quartic31" where
  "quartic_mul K x y =
     (let v0 = f_mul K (qx0 x) (qx0 y);
          v1 = f_mul K (qx1 x) (qx1 y);
          c1 = complex_add (qx1 x) (qx0 x);
          t0 = complex_add (qx0 y) (qx1 y);
          c1 = f_mul K c1 t0;
          c1 = complex_sub c1 v0;
          c1 = complex_sub c1 v1;
          v1 = complex_mul_by_non_residue v1;
          c0 = complex_add v0 v1 in
      \<lparr> qx0 = c0, qx1 = c1 \<rparr>)"

definition quartic_square :: "complex31 field_ops \<Rightarrow> quartic31 \<Rightarrow> quartic31" where
  "quartic_square K x =
     (let v0 = complex_sub (qx0 x) (qx1 x);
          t0 = complex_mul_by_non_residue (qx1 x);
          v3 = complex_sub (qx0 x) t0;
          v2 = f_mul K (qx0 x) (qx1 x);
          v0 = f_mul K v0 v3;
          v0 = complex_add v0 v2;
          c1 = complex_double v2;
          v2 = complex_mul_by_non_residue v2 in
      \<lparr> qx0 = complex_add v0 v2, qx1 = c1 \<rparr>)"

definition quartic_negate :: "quartic31 \<Rightarrow> quartic31" where
  "quartic_negate x = \<lparr> qx0 = complex_negate (qx0 x), qx1 = complex_negate (qx1 x) \<rparr>"

definition quartic_double :: "quartic31 \<Rightarrow> quartic31" where
  "quartic_double x = \<lparr> qx0 = complex_double (qx0 x), qx1 = complex_double (qx1 x) \<rparr>"

definition quartic_inverse :: "complex31 field_ops \<Rightarrow> quartic31 \<Rightarrow> quartic31 option" where
  "quartic_inverse K x =
     (let v0 = f_square K (qx0 x);
          v1 = f_square K (qx1 x);
          v1_by_nonresidue = complex_mul_by_non_residue v1;
          v0 = complex_sub v0 v1_by_nonresidue in
      case complex_inverse v0 of
        None \<Rightarrow> None
      | Some inversed \<Rightarrow>
          Some \<lparr> qx0 = f_mul K (qx0 x) inversed, qx1 = complex_negate (f_mul K (qx1 x) inversed) \<rparr>)"

text \<open>\<open>fma_implementation\<close>: a multiplication and an addition.\<close>

definition quartic_fused_mul_add :: "complex31 field_ops \<Rightarrow> quartic31 \<Rightarrow> quartic31 \<Rightarrow> quartic31 \<Rightarrow> quartic31" where
  "quartic_fused_mul_add K dst a b = quartic_add (quartic_mul K dst a) b"

definition quartic_mul_by_complex :: "complex31 field_ops \<Rightarrow> quartic31 \<Rightarrow> complex31 \<Rightarrow> quartic31" where
  "quartic_mul_by_complex K x e = \<lparr> qx0 = f_mul K (qx0 x) e, qx1 = f_mul K (qx1 x) e \<rparr>"

definition quartic_mul_by_base :: "quartic31 \<Rightarrow> m31 \<Rightarrow> quartic31" where
  "quartic_mul_by_base x e = \<lparr> qx0 = complex_mul_by_base (qx0 x) e, qx1 = complex_mul_by_base (qx1 x) e \<rparr>"

definition quartic_add_base :: "quartic31 \<Rightarrow> m31 \<Rightarrow> quartic31" where
  "quartic_add_base x e = x \<lparr> qx0 := complex_add_base (qx0 x) e \<rparr>"

definition quartic_sub_base :: "quartic31 \<Rightarrow> m31 \<Rightarrow> quartic31" where
  "quartic_sub_base x e = x \<lparr> qx0 := complex_sub_base (qx0 x) e \<rparr>"

definition quartic_from_base :: "m31 \<Rightarrow> quartic31" where
  "quartic_from_base e = \<lparr> qx0 = complex_from_base e, qx1 = \<lparr> cx0 = 0, cx1 = 0 \<rparr> \<rparr>"

definition quartic_ops :: "complex31 field_ops \<Rightarrow> quartic31 field_ops" where
  "quartic_ops K =
     \<lparr> f_zero = \<lparr> qx0 = f_zero K, qx1 = f_zero K \<rparr>, f_one = \<lparr> qx0 = f_one K, qx1 = f_zero K \<rparr>,
       f_is_zero = quartic_is_zero, f_is_one = quartic_is_one, f_inverse = quartic_inverse K,
       f_add = quartic_add, f_sub = quartic_sub, f_mul = quartic_mul K, f_square = quartic_square K,
       f_negate = quartic_negate, f_double = quartic_double, f_eq = quartic_eq \<rparr>"

end
