(* ===== verification/FieldContract.thy ===== *)
theory FieldContract
  imports FieldTower
begin

text \<open>
  The contract of the trait \<open>Field\<close> and its three implementations: \<open>val\<close> maps the valid
  representations to the elements of a field of class \<open>field\<close>, and every operation is that of the field.
\<close>

section \<open>The contract\<close>

locale field_impl =
  fixes F :: "'f field_ops" and ok :: "'f \<Rightarrow> bool" and val :: "'f \<Rightarrow> 'a::field"
  assumes zero: "ok (f_zero F)" "val (f_zero F) = 0"
    and one: "ok (f_one F)" "val (f_one F) = 1"
    and add: "ok x \<Longrightarrow> ok y \<Longrightarrow> ok (f_add F x y)" "ok x \<Longrightarrow> ok y \<Longrightarrow> val (f_add F x y) = val x + val y"
    and sub: "ok x \<Longrightarrow> ok y \<Longrightarrow> ok (f_sub F x y)" "ok x \<Longrightarrow> ok y \<Longrightarrow> val (f_sub F x y) = val x - val y"
    and mul: "ok x \<Longrightarrow> ok y \<Longrightarrow> ok (f_mul F x y)" "ok x \<Longrightarrow> ok y \<Longrightarrow> val (f_mul F x y) = val x * val y"
    and square: "ok x \<Longrightarrow> ok (f_square F x)" "ok x \<Longrightarrow> val (f_square F x) = val x * val x"
    and negate: "ok x \<Longrightarrow> ok (f_negate F x)" "ok x \<Longrightarrow> val (f_negate F x) = - val x"
    and double: "ok x \<Longrightarrow> ok (f_double F x)" "ok x \<Longrightarrow> val (f_double F x) = val x + val x"
    and inverse_none: "ok x \<Longrightarrow> f_inverse F x = None \<longleftrightarrow> val x = 0"
    and inverse_some: "ok x \<Longrightarrow> f_inverse F x = Some y \<Longrightarrow> ok y \<and> val y = inverse (val x)"
    and is_zero: "ok x \<Longrightarrow> f_is_zero F x \<longleftrightarrow> val x = 0"
    and is_one: "ok x \<Longrightarrow> f_is_one F x \<longleftrightarrow> val x = 1"
    and eq: "ok x \<Longrightarrow> ok y \<Longrightarrow> f_eq F x y \<longleftrightarrow> val x = val y"
begin

lemmas ops = zero one add sub mul square negate double

lemma inverse_cases:
  assumes "ok x"
  obtains "val x = 0" "f_inverse F x = None"
    | y where "val x \<noteq> 0" "f_inverse F x = Some y" "ok y" "val y = inverse (val x)"
proof (cases "f_inverse F x")
  case None
  with that(1) inverse_none [OF assms] show thesis by blast
next
  case (Some y)
  with that(2) inverse_none [OF assms] inverse_some [OF assms Some] show thesis by simp
qed

end

section \<open>The base field\<close>

definition val31 :: "m31 \<Rightarrow> gf" where
  "val31 x = of_nat (fv x)"

lemma val31_mod: "fv x = n mod P \<Longrightarrow> val31 x = of_nat n"
  unfolding val31_def of_nat_gf_eq by simp

lemma val31_eq: "val31 x = val31 y \<longleftrightarrow> fv x = fv y"
  unfolding val31_def of_nat_gf_eq by (simp add: fv_def)

lemma of_nat_complement: "n \<le> P \<Longrightarrow> (of_nat (P - n) :: gf) = - of_nat n"
  by (simp add: of_nat_diff)

lemma m31_inverse_zero: "m31_is_zero x \<Longrightarrow> m31_inverse x = None"
  unfolding m31_inverse_def by (simp only: if_True)

interpretation base: field_impl m31_ops valid val31
proof unfold_locales
  fix x y :: m31 assume x: "valid x"
  note ops = m31_ops_def field_ops.simps
  have le: "fv z \<le> P" for z using fv_less [of z] by simp
  show "f_is_zero m31_ops x \<longleftrightarrow> val31 x = 0" "f_is_one m31_ops x \<longleftrightarrow> val31 x = 1"
  proof -
    show "f_is_zero m31_ops x \<longleftrightarrow> val31 x = 0"
      using is_zero_iff [OF x] val31_eq [of x 0] by (simp add: ops) (simp add: val31_def)
    have "fv x = 1 \<longleftrightarrow> x = 1"
      using x by (auto simp: fv_def valid_def le_less word_unat_eq_iff)
    then show "f_is_one m31_ops x \<longleftrightarrow> val31 x = 1"
      using val31_eq [of x 1] by (simp add: ops m31_is_one_def) (simp add: val31_def)
  qed
  show "valid (f_square m31_ops x)" "val31 (f_square m31_ops x) = val31 x * val31 x"
    using mul_mod_residue [OF x x] val31_mod [of "mul_mod x x"] by (simp_all add: ops m31_square_def val31_def)
  show "valid (f_negate m31_ops x)" "val31 (f_negate m31_ops x) = - val31 x"
    using negate_residue [OF x] val31_mod [of "m31_negate x"] of_nat_complement [OF le [of x]] by (simp_all add: ops val31_def)
  show "valid (f_double m31_ops x)" "val31 (f_double m31_ops x) = val31 x + val31 x"
    using double_residue [OF x] val31_mod [of "m31_double x"] by (simp_all add: ops val31_def)
  show "f_inverse m31_ops x = None \<longleftrightarrow> val31 x = 0"
  proof (cases "fv x = 0")
    case True
    then show ?thesis using is_zero_iff [OF x] m31_inverse_zero [of x] by (simp add: ops val31_def)
  next
    case False
    then obtain y where "m31_inverse x = Some y" using inverse_residue [OF x False] by blast
    moreover have "val31 x \<noteq> 0" using False val31_eq [of x 0] by (simp add: val31_def)
    ultimately show ?thesis by (simp add: ops)
  qed
  show "valid y \<and> val31 y = inverse (val31 x)" if "f_inverse m31_ops x = Some y"
  proof -
    from that have "fv x \<noteq> 0" using is_zero_iff [OF x] m31_inverse_zero [of x] by (auto simp: ops)
    from inverse_residue [OF x this] that have y: "valid y" "fv x * fv y mod P = 1" by (auto simp: ops)
    then have "(of_nat (fv x * fv y) :: gf) = of_nat 1" unfolding of_nat_gf_eq by simp
    then have "val31 x * val31 y = 1" by (simp add: val31_def)
    with y(1) show ?thesis using inverse_unique [of "val31 x" "val31 y"] by simp
  qed
  assume y: "valid y"
  show "valid (f_add m31_ops x y)" "val31 (f_add m31_ops x y) = val31 x + val31 y"
    using add_mod_residue [OF x y] val31_mod [of "add_mod x y"] by (simp_all add: ops val31_def)
  show "valid (f_sub m31_ops x y)" "val31 (f_sub m31_ops x y) = val31 x - val31 y"
    using sub_mod_residue [OF x y] val31_mod [of "sub_mod x y"] of_nat_complement [OF le [of y]]
    by (simp_all add: ops val31_def)
  show "valid (f_mul m31_ops x y)" "val31 (f_mul m31_ops x y) = val31 x * val31 y"
    using mul_mod_residue [OF x y] val31_mod [of "mul_mod x y"] by (simp_all add: ops val31_def)
  show "f_eq m31_ops x y \<longleftrightarrow> val31 x = val31 y"
    using m31_eq_iff [OF x y] by (simp add: ops val31_eq)
qed (simp_all add: m31_ops_def val31_def)

lemmas base_ops = base.ops [unfolded m31_ops_def field_ops.simps]
lemmas base_tests = base.is_zero [unfolded m31_ops_def field_ops.simps] base.is_one [unfolded m31_ops_def field_ops.simps]
  base.eq [unfolded m31_ops_def field_ops.simps]

section \<open>The complex extension\<close>

definition complex_ok :: "complex31 \<Rightarrow> bool" where
  "complex_ok x \<longleftrightarrow> valid (cx0 x) \<and> valid (cx1 x)"

definition complex_val :: "complex31 \<Rightarrow> gf2" where
  "complex_val x = GF2 (val31 (cx0 x)) (val31 (cx1 x))"

lemma complex_val_parts [simp]: "re (complex_val x) = val31 (cx0 x)" "im (complex_val x) = val31 (cx1 x)"
  by (simp_all add: complex_val_def)

lemma gf2_eqI: "re a = re b \<Longrightarrow> im a = im b \<Longrightarrow> a = b"
  by (rule gf2.expand) simp

lemma gf2_two [simp]: "re 2 = 2" "im 2 = 0"
  using gf2_parts(5,6) [of 1 1] by (simp_all del: gf2_parts(5,6))

lemmas complex_defs = complex_add_def complex_sub_def complex_mul_def complex_mul_guest_def complex_square_def
  complex_square_guest_def complex_negate_def complex_double_def complex_is_zero_def complex_is_one_def complex_eq_def

lemma complex_linear:
  assumes "complex_ok x" and "complex_ok y"
  shows "complex_ok (complex_add x y) \<and> complex_val (complex_add x y) = complex_val x + complex_val y"
    "complex_ok (complex_sub x y) \<and> complex_val (complex_sub x y) = complex_val x - complex_val y"
    "complex_eq x y \<longleftrightarrow> complex_val x = complex_val y"
  using assms by (auto simp: complex_ok_def complex_defs base_ops base_tests intro!: gf2_eqI dest: arg_cong [of _ _ re] arg_cong [of _ _ im])

lemma complex_unary:
  assumes "complex_ok x"
  shows "complex_ok (complex_negate x) \<and> complex_val (complex_negate x) = - complex_val x"
    "complex_ok (complex_double x) \<and> complex_val (complex_double x) = complex_val x + complex_val x"
    "complex_ok (conjugate x) \<and> complex_val (conjugate x) = GF2 (re (complex_val x)) (- im (complex_val x))"
    "complex_ok (complex_mul_by_non_residue x) \<and> complex_val (complex_mul_by_non_residue x) = nonresidue * complex_val x"
    "complex_is_zero x \<longleftrightarrow> complex_val x = 0" "complex_is_one x \<longleftrightarrow> complex_val x = 1"
  using assms by (auto simp: complex_ok_def complex_defs conjugate_def complex_mul_by_non_residue_def nonresidue_def
      Let_def base_ops base_tests intro!: gf2_eqI dest: arg_cong [of _ _ re] arg_cong [of _ _ im])

lemma complex_products:
  assumes "complex_ok x" and "complex_ok y"
  shows "complex_ok (complex_mul x y) \<and> complex_val (complex_mul x y) = complex_val x * complex_val y"
    "complex_ok (complex_mul_guest x y) \<and> complex_val (complex_mul_guest x y) = complex_val x * complex_val y"
    "complex_ok (complex_square x) \<and> complex_val (complex_square x) = complex_val x * complex_val x"
    "complex_ok (complex_square_guest x) \<and> complex_val (complex_square_guest x) = complex_val x * complex_val x"
  using assms by (simp_all add: complex_ok_def complex_defs Let_def base_ops)
    (auto intro!: gf2_eqI simp: base_ops algebra_simps)

lemma complex_inverse:
  assumes x: "complex_ok x"
  shows "complex_inverse x = None \<longleftrightarrow> complex_val x = 0"
    "complex_inverse x = Some y \<Longrightarrow> complex_ok y \<and> complex_val y = inverse (complex_val x)"
proof -
  define n where "n = sub_mod (m31_square (cx0 x)) (m31_mul_by_non_residue (m31_square (cx1 x)))"
  let ?a = "val31 (cx0 x)" and ?b = "val31 (cx1 x)"
  have n: "valid n" "val31 n = ?a * ?a + ?b * ?b"
    using x by (simp_all add: n_def complex_ok_def m31_mul_by_non_residue_def base_ops)
  have zero: "val31 n = 0 \<longleftrightarrow> complex_val x = 0"
    unfolding n(2) norm_zero by (auto intro: gf2_eqI dest: arg_cong [of _ _ re] arg_cong [of _ _ im])
  have inv: "m31_inverse n = None \<longleftrightarrow> val31 n = 0" "m31_inverse n = Some z \<Longrightarrow> valid z \<and> val31 z = inverse (val31 n)" for z
    using base.inverse_none [OF n(1)] base.inverse_some [OF n(1), of z] by (simp_all add: m31_ops_def)
  have eq: "complex_inverse x = (case m31_inverse n of None \<Rightarrow> None
      | Some i \<Rightarrow> Some \<lparr> cx0 = mul_mod (cx0 x) i, cx1 = m31_negate (mul_mod (cx1 x) i) \<rparr>)"
    by (simp add: complex_inverse_def n_def Let_def)
  show "complex_inverse x = None \<longleftrightarrow> complex_val x = 0"
    using inv(1) zero by (cases "m31_inverse n") (simp_all add: eq)
  show "complex_ok y \<and> complex_val y = inverse (complex_val x)" if "complex_inverse x = Some y"
  proof -
    from that obtain i where i: "m31_inverse n = Some i"
      and y: "y = \<lparr> cx0 = mul_mod (cx0 x) i, cx1 = m31_negate (mul_mod (cx1 x) i) \<rparr>"
      by (auto simp: eq split: option.splits)
    with inv(2) [OF i] x show ?thesis
      by (auto simp: complex_ok_def base_ops inverse_gf2_def n(2) divide_inverse intro!: gf2_eqI)
  qed
qed

lemmas complex_facts = complex_linear complex_unary complex_products complex_inverse

lemma complex_consts: "complex_ok \<lparr> cx0 = 0, cx1 = 0 \<rparr>" "complex_val \<lparr> cx0 = 0, cx1 = 0 \<rparr> = 0"
  "complex_ok \<lparr> cx0 = 1, cx1 = 0 \<rparr>" "complex_val \<lparr> cx0 = 1, cx1 = 0 \<rparr> = 1"
  by (auto simp: complex_ok_def val31_def intro!: gf2_eqI)

interpretation complex: field_impl complex_ops complex_ok complex_val
  by unfold_locales (simp_all add: complex_ops_def complex_facts complex_consts)

interpretation complex_guest: field_impl complex_ops_guest complex_ok complex_val
  by unfold_locales (simp_all add: complex_ops_def complex_ops_guest_def complex_facts complex_consts)

section \<open>The quartic extension\<close>

definition quartic_ok :: "quartic31 \<Rightarrow> bool" where
  "quartic_ok x \<longleftrightarrow> complex_ok (qx0 x) \<and> complex_ok (qx1 x)"

definition quartic_val :: "quartic31 \<Rightarrow> gf4" where
  "quartic_val x = GF4 (complex_val (qx0 x)) (complex_val (qx1 x))"

lemma quartic_val_parts [simp]: "lo (quartic_val x) = complex_val (qx0 x)" "hi (quartic_val x) = complex_val (qx1 x)"
  by (simp_all add: quartic_val_def)

lemma gf4_eqI: "lo a = lo b \<Longrightarrow> hi a = hi b \<Longrightarrow> a = b"
  by (rule gf4.expand) simp

lemma gf4_two [simp]: "lo 2 = 2" "hi 2 = 0"
  using gf4_parts(5,6) [of 1 1] by (simp_all del: gf4_parts(5,6))

text \<open>The halves are those of the host or of the guest: any implementation of the complex extension.\<close>

locale quartic_halves = half: field_impl K complex_ok complex_val for K +
  assumes units: "f_zero K = \<lparr> cx0 = 0, cx1 = 0 \<rparr>" "f_one K = \<lparr> cx0 = 1, cx1 = 0 \<rparr>"
begin

lemmas quartic_defs = quartic_add_def quartic_sub_def quartic_mul_def quartic_square_def quartic_negate_def
  quartic_double_def quartic_is_zero_def quartic_is_one_def quartic_eq_def

lemma quartic_linear:
  assumes "quartic_ok x" and "quartic_ok y"
  shows "quartic_ok (quartic_add x y) \<and> quartic_val (quartic_add x y) = quartic_val x + quartic_val y"
    "quartic_ok (quartic_sub x y) \<and> quartic_val (quartic_sub x y) = quartic_val x - quartic_val y"
    "quartic_ok (quartic_mul K x y) \<and> quartic_val (quartic_mul K x y) = quartic_val x * quartic_val y"
    "quartic_eq x y \<longleftrightarrow> quartic_val x = quartic_val y"
  using assms
  by (auto simp: quartic_ok_def quartic_defs Let_def half.ops complex_facts algebra_simps simp del: gf2_parts
      intro!: gf4_eqI dest: arg_cong [of _ _ lo] arg_cong [of _ _ hi])

lemma quartic_unary:
  assumes "quartic_ok x"
  shows "quartic_ok (quartic_square K x) \<and> quartic_val (quartic_square K x) = quartic_val x * quartic_val x"
    "quartic_ok (quartic_negate x) \<and> quartic_val (quartic_negate x) = - quartic_val x"
    "quartic_ok (quartic_double x) \<and> quartic_val (quartic_double x) = quartic_val x + quartic_val x"
    "quartic_is_zero x \<longleftrightarrow> quartic_val x = 0" "quartic_is_one x \<longleftrightarrow> quartic_val x = 1"
  using assms
  by (auto simp: quartic_ok_def quartic_defs Let_def half.ops complex_facts algebra_simps simp del: gf2_parts
      intro!: gf4_eqI dest: arg_cong [of _ _ lo] arg_cong [of _ _ hi])

lemma quartic_inverse:
  assumes x: "quartic_ok x"
  shows "quartic_inverse K x = None \<longleftrightarrow> quartic_val x = 0"
    "quartic_inverse K x = Some y \<Longrightarrow> quartic_ok y \<and> quartic_val y = inverse (quartic_val x)"
proof -
  define n where "n = complex_sub (f_square K (qx0 x)) (complex_mul_by_non_residue (f_square K (qx1 x)))"
  let ?a = "complex_val (qx0 x)" and ?b = "complex_val (qx1 x)"
  have n: "complex_ok n" "complex_val n = ?a * ?a - nonresidue * (?b * ?b)"
    using x by (simp_all add: n_def quartic_ok_def half.ops complex_facts)
  have zero: "complex_val n = 0 \<longleftrightarrow> quartic_val x = 0"
    unfolding n(2) norm4_zero by (auto intro: gf4_eqI dest: arg_cong [of _ _ lo] arg_cong [of _ _ hi])
  have eq: "quartic_inverse K x = (case complex_inverse n of None \<Rightarrow> None
      | Some i \<Rightarrow> Some \<lparr> qx0 = f_mul K (qx0 x) i, qx1 = complex_negate (f_mul K (qx1 x) i) \<rparr>)"
    by (simp add: quartic_inverse_def n_def Let_def)
  show "quartic_inverse K x = None \<longleftrightarrow> quartic_val x = 0"
    using complex_inverse(1) [OF n(1)] zero by (cases "complex_inverse n") (simp_all add: eq)
  show "quartic_ok y \<and> quartic_val y = inverse (quartic_val x)" if "quartic_inverse K x = Some y"
  proof -
    from that obtain i where i: "complex_inverse n = Some i"
      and y: "y = \<lparr> qx0 = f_mul K (qx0 x) i, qx1 = complex_negate (f_mul K (qx1 x) i) \<rparr>"
      by (auto simp: eq split: option.splits)
    with complex_inverse(2) [OF n(1) i] x show ?thesis
      by (auto simp: quartic_ok_def half.ops complex_facts inverse_gf4_def Let_def n(2) divide_inverse
          simp del: gf2_parts intro!: gf4_eqI)
  qed
qed

lemma quartic_consts:
  "quartic_ok (f_zero (quartic_ops K))" "quartic_val (f_zero (quartic_ops K)) = 0"
  "quartic_ok (f_one (quartic_ops K))" "quartic_val (f_one (quartic_ops K)) = 1"
  by (auto simp: quartic_ops_def units quartic_ok_def complex_consts intro!: gf4_eqI)

end

sublocale quartic_halves \<subseteq> quartic: field_impl "quartic_ops K" quartic_ok quartic_val
  by unfold_locales
    ((rule quartic_consts | simp add: quartic_ops_def quartic_linear quartic_unary quartic_inverse)+)

interpretation host: quartic_halves complex_ops
  by unfold_locales (simp_all add: complex_ops_def)

interpretation guest: quartic_halves complex_ops_guest
  by unfold_locales (simp_all add: complex_ops_def complex_ops_guest_def)

section \<open>Mixed operations\<close>

text \<open>Elements of a smaller field are elements of the larger ones.\<close>

lemma complex_mixed:
  assumes "complex_ok x" and "valid e"
  shows "complex_ok (complex_from_base e) \<and> complex_val (complex_from_base e) = GF2 (val31 e) 0"
    "complex_ok (complex_mul_by_base x e) \<and> complex_val (complex_mul_by_base x e) = complex_val x * GF2 (val31 e) 0"
    "complex_ok (complex_add_base x e) \<and> complex_val (complex_add_base x e) = complex_val x + GF2 (val31 e) 0"
    "complex_ok (complex_sub_base x e) \<and> complex_val (complex_sub_base x e) = complex_val x - GF2 (val31 e) 0"
  using assms
  by (auto simp: complex_ok_def complex_from_base_def complex_mul_by_base_def complex_add_base_def complex_sub_base_def
      base_ops base_ops(1,2)[simplified] intro!: gf2_eqI)

context quartic_halves
begin

lemma quartic_mixed:
  assumes "quartic_ok x" and "valid e"
  shows "quartic_ok (quartic_from_base e) \<and> quartic_val (quartic_from_base e) = GF4 (GF2 (val31 e) 0) 0"
    "quartic_ok (quartic_mul_by_base x e) \<and> quartic_val (quartic_mul_by_base x e) = quartic_val x * GF4 (GF2 (val31 e) 0) 0"
    "quartic_ok (quartic_add_base x e) \<and> quartic_val (quartic_add_base x e) = quartic_val x + GF4 (GF2 (val31 e) 0) 0"
    "quartic_ok (quartic_sub_base x e) \<and> quartic_val (quartic_sub_base x e) = quartic_val x - GF4 (GF2 (val31 e) 0) 0"
  using assms
  by (auto simp: quartic_ok_def quartic_from_base_def quartic_mul_by_base_def quartic_add_base_def quartic_sub_base_def
      complex_mixed complex_consts simp del: gf2_parts intro!: gf4_eqI)

lemma quartic_by_complex:
  assumes "quartic_ok x" and "complex_ok e"
  shows "quartic_ok (quartic_mul_by_complex K x e) \<and> quartic_val (quartic_mul_by_complex K x e) = quartic_val x * GF4 (complex_val e) 0"
  using assms
  by (auto simp: quartic_ok_def quartic_mul_by_complex_def half.ops simp del: gf2_parts intro!: gf4_eqI)

end

section \<open>Properties\<close>




end
