(* ===== verification/Worker.thy ===== *)
theory Worker
  imports Ram "HOL-Library.Log_Nat"
begin

text \<open>
  The division of work among threads (\<open>worker/src/lib.rs\<close>): how many chunks and of which size, and
  the iterators that cut a slice into these chunks. The pool that runs the threads is not modelled: a
  parallel loop is the loop over the chunks, whose parts are disjoint. Sizes are lengths of slices,
  far below \<open>2 ^ 63\<close>, so \<open>usize\<close> does not overflow.
\<close>

section \<open>Geometry\<close>

record WorkerGeometry =
  num_chunks :: nat
  ordinary_chunk_size :: nat
  remainder :: nat

definition chunk_size :: "WorkerGeometry \<Rightarrow> nat \<Rightarrow> nat" where
  "chunk_size g chunk_idx =
     (if remainder g = 0 then ordinary_chunk_size g
      else if chunk_idx = num_chunks g - 1 then remainder g
      else ordinary_chunk_size g)"

definition get_chunk_size :: "WorkerGeometry \<Rightarrow> nat \<Rightarrow> nat res" where
  "get_chunk_size g chunk_idx = guardR (chunk_idx < num_chunks g) AssertFailed (Inr (chunk_size g chunk_idx))"

definition get_chunk_start_pos :: "WorkerGeometry \<Rightarrow> nat \<Rightarrow> nat res" where
  "get_chunk_start_pos g chunk_idx =
     guardR (chunk_idx < num_chunks g) AssertFailed (Inr (ordinary_chunk_size g * chunk_idx))"

text \<open>The indices of a chunk, in the loops that compute them from the start position and the size.\<close>

definition chunk_range :: "WorkerGeometry \<Rightarrow> nat \<Rightarrow> nat list res" where
  "chunk_range g chunk_idx =
     bindR (get_chunk_start_pos g chunk_idx) (\<lambda>chunk_start.
     bindR (get_chunk_size g chunk_idx) (\<lambda>sz.
     Inr [chunk_start..<chunk_start + sz]))"

definition next_power_of_two :: "nat \<Rightarrow> nat" where
  "next_power_of_two n = (if n \<le> 1 then 1 else 2 ^ floorlog 2 (n - 1))"

text \<open>A geometry whose last chunk takes what the others leave.\<close>

definition with_last :: "nat \<Rightarrow> nat \<Rightarrow> nat \<Rightarrow> WorkerGeometry res" where
  "with_last work_size chunks ordinary =
     (let main_part = (chunks - 1) * ordinary in
      guardR (main_part < work_size) AssertFailed
        (Inr \<lparr> num_chunks = chunks, ordinary_chunk_size = ordinary, remainder = work_size - main_part \<rparr>))"

definition rounded_chunk_size :: "nat \<Rightarrow> nat" where
  "rounded_chunk_size ordinary =
     (if \<not> is_power_of_two ordinary \<and> next_power_of_two ordinary - ordinary < 32
      then next_power_of_two ordinary else ordinary)"

definition uneven_geometry :: "nat \<Rightarrow> nat \<Rightarrow> WorkerGeometry res" where
  "uneven_geometry work_size chunks =
     guardR (1 < chunks) AssertFailed
     (let ordinary = rounded_chunk_size (work_size div chunks) in
      if (chunks - 1) * ordinary < work_size then with_last work_size chunks ordinary
      else if work_size mod (chunks - 1) \<noteq> 0 then with_last work_size chunks (work_size div (chunks - 1))
      else with_last work_size chunks (work_size div chunks))"

text \<open>The last chunk is made the smallest one if possible.\<close>

definition balance :: "nat \<Rightarrow> WorkerGeometry \<Rightarrow> WorkerGeometry res" where
  "balance num_cores g =
     (if ordinary_chunk_size g < remainder g \<and> num_cores - 1 < remainder g then
        (let g = g \<lparr> remainder := remainder g - (num_cores - 1), ordinary_chunk_size := ordinary_chunk_size g + 1 \<rparr> in
         guardR (remainder g < ordinary_chunk_size g) AssertFailed (Inr g))
      else Inr g)"

definition get_geometry_for_num_cores :: "nat \<Rightarrow> nat \<Rightarrow> WorkerGeometry res" where
  "get_geometry_for_num_cores num_cores work_size =
     guardR (num_cores \<noteq> 0) AssertFailed
     (guardR (work_size \<noteq> 0) AssertFailed
      (if num_cores = 1 then Inr \<lparr> num_chunks = 1, ordinary_chunk_size = work_size, remainder = 0 \<rparr>
       else
         (let chunks = min num_cores work_size;
              ordinary = work_size div chunks;
              rest = work_size mod chunks in
          bindR (if rest = 0 then Inr \<lparr> num_chunks = chunks, ordinary_chunk_size = ordinary, remainder = rest \<rparr>
                 else uneven_geometry work_size chunks)
            (balance num_cores))))"

section \<open>Chunks of a slice\<close>

text \<open>
  \<open>GeometryAwareChunks\<close> and its mutable form: each step cuts the next chunk off what is left. \<open>scale\<close> is
  the number of elements of the slice per unit of work.
\<close>

function geometry_chunks :: "WorkerGeometry \<Rightarrow> nat \<Rightarrow> nat \<Rightarrow> 'a list \<Rightarrow> 'a list list res" where
  "geometry_chunks g scale cur_idx v =
     (if v = [] then Inr []
      else if num_chunks g \<le> cur_idx then Inl AssertFailed
      else
        (let chunksz = chunk_size g cur_idx * scale in
         if length v < chunksz then Inl IndexOutOfBounds
         else bindR (geometry_chunks g scale (cur_idx + 1) (drop chunksz v)) (\<lambda>rest. Inr (take chunksz v # rest))))"
  by pat_completeness auto
termination by (relation "measure (\<lambda>(g, _, i, _). num_chunks g - i)") auto

declare geometry_chunks.simps [simp del]

definition chunks_for_geometry :: "WorkerGeometry \<Rightarrow> 'a list \<Rightarrow> 'a list list res" where
  "chunks_for_geometry g v = geometry_chunks g 1 0 v"

definition chunks_for_geometry_with_scale :: "WorkerGeometry \<Rightarrow> nat \<Rightarrow> 'a list \<Rightarrow> 'a list list res" where
  "chunks_for_geometry_with_scale g scale v = geometry_chunks g scale 0 v"

text \<open>
  \<open>GeometryAwareChunksCyclicWindow\<close>: each chunk comes with the element after it, the last one with the first
  element of the slice (whose access panics when there is none).
\<close>

function cyclic_windows :: "WorkerGeometry \<Rightarrow> 'a \<Rightarrow> nat \<Rightarrow> 'a list \<Rightarrow> ('a list \<times> 'a) list res" where
  "cyclic_windows g first_elem cur_idx v =
     (if v = [] then Inr []
      else if num_chunks g \<le> cur_idx then Inl AssertFailed
      else
        (let chunksz = chunk_size g cur_idx in
         if length v < chunksz then Inl IndexOutOfBounds
         else
           (let snd = drop chunksz v in
            bindR (cyclic_windows g first_elem (cur_idx + 1) snd)
              (\<lambda>rest. Inr ((take chunksz v, if snd = [] then first_elem else hd snd) # rest)))))"
  by pat_completeness auto
termination by (relation "measure (\<lambda>(g, _, i, _). num_chunks g - i)") auto

declare cyclic_windows.simps [simp del]

definition chunks_for_geometry_windows :: "WorkerGeometry \<Rightarrow> 'a list \<Rightarrow> ('a list \<times> 'a) list res" where
  "chunks_for_geometry_windows g v =
     (case v of [] \<Rightarrow> Inl IndexOutOfBounds | first_elem # _ \<Rightarrow> cyclic_windows g first_elem 0 v)"

text \<open>
  \<open>GeometryAwareChunksRev\<close> cuts from the end. It starts at the index of the last element of the slice
  (not of the last chunk) and counts up.
\<close>

function rev_chunks :: "WorkerGeometry \<Rightarrow> nat \<Rightarrow> nat \<Rightarrow> 'a list \<Rightarrow> 'a list list res" where
  "rev_chunks g scale cur_idx v =
     (if v = [] then Inr []
      else if num_chunks g \<le> cur_idx then Inl AssertFailed
      else
        (let chunksz = chunk_size g cur_idx * scale in
         if length v < chunksz then Inl ArithOverflow
         else bindR (rev_chunks g scale (cur_idx + 1) (take (length v - chunksz) v))
           (\<lambda>rest. Inr (drop (length v - chunksz) v # rest))))"
  by pat_completeness auto
termination by (relation "measure (\<lambda>(g, _, i, _). num_chunks g - i)") auto

declare rev_chunks.simps [simp del]

definition chunks_for_geometry_rev :: "cfg \<Rightarrow> WorkerGeometry \<Rightarrow> 'a list \<Rightarrow> 'a list list res" where
  "chunks_for_geometry_rev c g v =
     (if v = [] then (if debug_assertions c then Inl ArithOverflow else Inr [])
      else rev_chunks g 1 (length v - 1) v)"

section \<open>The chunks cover the work\<close>

text \<open>The sizes of the chunks add up to the work.\<close>

definition divides_work :: "WorkerGeometry \<Rightarrow> nat \<Rightarrow> bool" where
  "divides_work g n \<longleftrightarrow> 0 < num_chunks g \<and> 0 < ordinary_chunk_size g \<and>
     n = (num_chunks g - 1) * ordinary_chunk_size g + chunk_size g (num_chunks g - 1)"

lemma next_power_of_two_ge: "n \<le> next_power_of_two n"
proof (cases "n \<le> 1")
  case False
  then have "n - 1 < 2 ^ floorlog 2 (n - 1)" using floorlog_bounds [of "n - 1" 2] by simp
  with False show ?thesis by (simp add: next_power_of_two_def)
qed (simp add: next_power_of_two_def)

lemma rounded_ge: "n \<le> rounded_chunk_size n"
  using next_power_of_two_ge by (simp add: rounded_chunk_size_def)

lemma with_last_divides:
  assumes "with_last w n ordinary = Inr g" and "0 < n" and "0 < ordinary"
  shows "divides_work g w \<and> num_chunks g = n \<and> remainder g = w - (n - 1) * ordinary \<and> ordinary_chunk_size g = ordinary"
  using assms by (auto simp: with_last_def Let_def res_simps divides_work_def chunk_size_def)

lemma balance_divides:
  assumes "divides_work g w" and "num_chunks g = n" and "remainder g \<le> ordinary_chunk_size g + (n - 1)"
  shows "\<exists>g'. balance n g = Inr g' \<and> divides_work g' w \<and> num_chunks g' = n"
proof (cases "ordinary_chunk_size g < remainder g \<and> n - 1 < remainder g")
  case True
  obtain m where n: "n = Suc m" using assms(1,2) by (cases n) (auto simp: divides_work_def)
  show ?thesis
    using assms True by (auto simp: n balance_def Let_def divides_work_def chunk_size_def guardR_def)
next
  case False
  then have "balance n g = Inr g" unfolding balance_def by (rule if_not_P)
  with assms show ?thesis by blast
qed

lemma uneven_divides:
  assumes n: "1 < n" and w: "n < w" and rest: "w mod n \<noteq> 0"
  shows "\<exists>g. uneven_geometry w n = Inr g \<and> divides_work g w \<and> num_chunks g = n \<and>
    remainder g \<le> ordinary_chunk_size g + (n - 1)"
proof -
  let ?o = "w div n"
  have o: "0 < ?o" using w n by (simp add: div_greater_zero_iff)
  have split: "w = n * ?o + w mod n" "w mod n \<le> n - 1" using n by (simp_all add: less_Suc_eq_le [symmetric])
  have main: "n * ?o = (n - 1) * ?o + ?o" using n by (cases n) simp_all
  have small: "(n - 1) * ?o < w" using split main o by linarith
  have given: ?thesis if "with_last w n r = Inr g" "uneven_geometry w n = with_last w n r" "0 < r" "w \<le> n * r + (n - 1)" for r g
  proof -
    have "n * r = (n - 1) * r + r" using n by (cases n) simp_all
    with that with_last_divides [OF that(1) _ that(3)] n show ?thesis by auto
  qed
  let ?r = "rounded_chunk_size ?o"
  have r: "?o \<le> ?r" by (rule rounded_ge)
  consider (rounded) "(n - 1) * ?r < w" | (fewer) "\<not> (n - 1) * ?r < w" "w mod (n - 1) \<noteq> 0"
    | (plain) "\<not> (n - 1) * ?r < w" "w mod (n - 1) = 0" by blast
  then show ?thesis
  proof cases
    case rounded
    have "w \<le> n * ?o + (n - 1)" using split by linarith
    also have "\<dots> \<le> n * ?r + (n - 1)" using r by simp
    finally show ?thesis using rounded o r n
      by (intro given [of ?r]) (auto simp: with_last_def uneven_geometry_def Let_def)
  next
    case fewer
    let ?q = "w div (n - 1)"
    have q: "w = (n - 1) * ?q + w mod (n - 1)" "w mod (n - 1) < n - 1" using n by simp_all
    have "0 < ?q" using w n by (simp add: div_greater_zero_iff)
    moreover have "w \<le> n * ?q + (n - 1)"
    proof -
      have "(n - 1) * ?q \<le> n * ?q" by simp
      with q show ?thesis by linarith
    qed
    moreover have "(n - 1) * ?q < w" using q fewer(2) by linarith
    ultimately show ?thesis using fewer n
      by (intro given [of ?q]) (auto simp: with_last_def uneven_geometry_def Let_def)
  next
    case plain
    have "w \<le> n * ?o + (n - 1)" using split by linarith
    then show ?thesis using plain small o n
      by (intro given [of ?o]) (auto simp: with_last_def uneven_geometry_def Let_def)
  qed
qed

lemma geometry_divides:
  assumes "num_cores \<noteq> 0" and "work_size \<noteq> 0"
  obtains g where "get_geometry_for_num_cores num_cores work_size = Inr g" "divides_work g work_size"
    "num_chunks g \<le> num_cores"
proof (cases "num_cores = 1")
  case True
  with assms show thesis
    by (intro that [of "\<lparr> num_chunks = 1, ordinary_chunk_size = work_size, remainder = 0 \<rparr>"])
      (simp_all add: get_geometry_for_num_cores_def divides_work_def chunk_size_def)
next
  case False
  let ?n = "min num_cores work_size"
  show thesis
  proof (cases "work_size mod ?n = 0")
    case True
    then have eq: "work_size = ?n * (work_size div ?n)" by (metis mult_div_mod_eq add_0_right)
    let ?g = "\<lparr> num_chunks = ?n, ordinary_chunk_size = work_size div ?n, remainder = 0 \<rparr>"
    have "0 < work_size div ?n" using eq assms by (metis gr0I mult_0_right)
    then have "divides_work ?g work_size"
      using eq assms by (cases ?n) (auto simp: divides_work_def chunk_size_def)
    then show thesis
      using True assms False by (intro that [of ?g]) (simp_all add: get_geometry_for_num_cores_def balance_def Let_def)
  next
    case rest: False
    then have n: "?n = num_cores" "num_cores < work_size" by (auto simp: min_def split: if_splits intro: le_neq_implies_less)
    obtain g where g: "uneven_geometry work_size num_cores = Inr g" "divides_work g work_size" "num_chunks g = num_cores"
      "remainder g \<le> ordinary_chunk_size g + (num_cores - 1)"
      using uneven_divides [of num_cores work_size] False assms n rest by auto
    from balance_divides [OF g(2-4)] obtain g' where "balance num_cores g = Inr g'" "divides_work g' work_size"
      "num_chunks g' = num_cores" by blast
    then show thesis
      using g(1) assms False rest n by (intro that [of g']) (simp_all add: get_geometry_for_num_cores_def Let_def)
  qed
qed

text \<open>
  The iterator cuts a slice into chunks of these sizes, from chunk \<open>i\<close> on, if the rest of the slice is
  the rest of the work.
\<close>

definition rest_of_work :: "WorkerGeometry \<Rightarrow> nat \<Rightarrow> nat" where
  "rest_of_work g i = (\<Sum>j \<in> {i..<num_chunks g}. chunk_size g j)"

lemma chunk_size_pos: "divides_work g n \<Longrightarrow> i < num_chunks g \<Longrightarrow> 0 < chunk_size g i"
  by (auto simp: divides_work_def chunk_size_def)

lemma chunk_size_ordinary: "i < num_chunks g - 1 \<Longrightarrow> chunk_size g i = ordinary_chunk_size g"
  by (simp add: chunk_size_def)

lemma rest_of_work_step: "i < num_chunks g \<Longrightarrow> rest_of_work g i = chunk_size g i + rest_of_work g (Suc i)"
  by (simp add: rest_of_work_def sum.atLeast_Suc_lessThan)

lemma rest_of_work_eq:
  assumes "divides_work g n" and "i < num_chunks g"
  shows "rest_of_work g i + i * ordinary_chunk_size g = n"
  using assms(2)
proof (induction "num_chunks g - 1 - i" arbitrary: i)
  case 0
  then have "i = num_chunks g - 1" by simp
  moreover have "rest_of_work g i = chunk_size g i"
    using 0 by (simp add: rest_of_work_step) (simp add: rest_of_work_def)
  ultimately show ?case using assms(1) by (simp add: divides_work_def)
next
  case (Suc d)
  then have i: "Suc i < num_chunks g" "i < num_chunks g - 1" and d: "d = num_chunks g - 1 - Suc i" by simp_all
  from Suc.hyps(1) [OF d i(1)] have "rest_of_work g (Suc i) + Suc i * ordinary_chunk_size g = n" .
  then show ?case using Suc.prems i(2) by (simp add: rest_of_work_step chunk_size_ordinary)
qed

lemma rest_of_work_all: "divides_work g n \<Longrightarrow> rest_of_work g 0 = n"
  using rest_of_work_eq [of g n 0] by (simp add: divides_work_def)

lemma geometry_chunks_cover:
  assumes g: "divides_work g n" and "i \<le> num_chunks g" and "length v = rest_of_work g i * scale" and "0 < scale"
  shows "\<exists>cs. geometry_chunks g scale i v = Inr cs \<and> concat cs = v \<and>
    map length cs = map (\<lambda>j. chunk_size g j * scale) [i..<num_chunks g]"
  using assms(2,3)
proof (induction "num_chunks g - i" arbitrary: i v)
  case 0
  then show ?case by (simp add: rest_of_work_def geometry_chunks.simps)
next
  case (Suc d)
  then have i: "i < num_chunks g" by simp
  let ?sz = "chunk_size g i * scale"
  have len: "length v = ?sz + rest_of_work g (Suc i) * scale"
    using Suc.prems(2) by (simp add: rest_of_work_step [OF i] distrib_right)
  have "v \<noteq> []" using len chunk_size_pos [OF g i] assms(4) by auto
  moreover obtain cs where cs: "geometry_chunks g scale (Suc i) (drop ?sz v) = Inr cs" "concat cs = drop ?sz v"
    "map length cs = map (\<lambda>j. chunk_size g j * scale) [Suc i..<num_chunks g]"
  proof -
    have "d = num_chunks g - Suc i" "Suc i \<le> num_chunks g" "length (drop ?sz v) = rest_of_work g (Suc i) * scale"
      using Suc.hyps(2) i len by simp_all
    from Suc.hyps(1) [OF this] that show thesis by blast
  qed
  ultimately show ?case
    using i len by (simp add: geometry_chunks.simps [of g scale i v] Let_def upt_conv_Cons)
qed

lemma chunks_concat: "geometry_chunks g scale i v = Inr cs \<Longrightarrow> concat cs = v"
proof (induction g scale i v arbitrary: cs rule: geometry_chunks.induct)
  case (1 g scale i v)
  then show ?case
    by (auto simp: geometry_chunks.simps [of g scale i v] Let_def res_simps split: if_splits)
qed

lemma chunks_start:
  assumes "map length cs = map f [0..<n]" and "j < n" and "\<And>i. i < j \<Longrightarrow> f i = (k :: nat)"
  shows "length (concat (take j cs)) = k * j"
proof -
  have "length (concat (take j cs)) = sum_list (map length (take j cs))" by (simp add: length_concat)
  also have "map length (take j cs) = map f [0..<j]"
    by (simp only: take_map [symmetric] assms(1)) (use assms(2) in \<open>simp add: take_map\<close>)
  also have "\<dots> = replicate j k" using assms(3) by (intro nth_equalityI) simp_all
  finally show ?thesis by (simp add: sum_list_replicate)
qed

lemma windows_of_chunks:
  assumes "geometry_chunks g 1 i v = Inr cs"
  shows "cyclic_windows g f i v = Inr (map (\<lambda>j. (cs ! j, hd (concat (drop (Suc j) cs) @ [f]))) [0..<length cs])"
  using assms
proof (induction g "1 :: nat" i v arbitrary: cs rule: geometry_chunks.induct)
  case (1 g i v)
  show ?case
  proof (cases "v = []")
    case True
    then show ?thesis using 1(2) by (simp add: geometry_chunks.simps cyclic_windows.simps)
  next
    case False
    let ?sz = "chunk_size g i"
    from 1(2) False obtain rest where ok: "\<not> num_chunks g \<le> i" "\<not> length v < ?sz"
      and rest: "geometry_chunks g 1 (i + 1) (drop ?sz v) = Inr rest" and cs: "cs = take ?sz v # rest"
      by (auto simp: geometry_chunks.simps [of g "Suc 0" i v] Let_def res_simps split: if_splits)
    have "concat rest = drop ?sz v" using chunks_concat [OF rest] .
    moreover have "map (\<lambda>j. (cs ! j, hd (concat (drop (Suc j) cs) @ [f]))) [0..<length cs] =
        (take ?sz v, hd (concat rest @ [f])) # map (\<lambda>j. (rest ! j, hd (concat (drop (Suc j) rest) @ [f]))) [0..<length rest]"
      by (simp add: cs upt_conv_Cons map_Suc_upt [symmetric] del: upt_Suc)
    ultimately show ?thesis
      using 1(1) [OF False ok(1) mult_1_right [symmetric] ok(2) rest] ok False
      by (simp add: cyclic_windows.simps [of g f i v] Let_def hd_append)
  qed
qed

text \<open>Together: the geometry exists, and its chunks are the slice.\<close>

lemma geometry_cuts:
  assumes "num_cores \<noteq> 0" and "v \<noteq> []"
  obtains g cs where "get_geometry_for_num_cores num_cores (length v) = Inr g" "chunks_for_geometry g v = Inr cs"
    "concat cs = v" "length cs = num_chunks g" "num_chunks g \<le> num_cores" "[] \<notin> set cs"
    "\<And>j. j < length cs \<Longrightarrow> get_chunk_size g j = Inr (length (cs ! j))"
    "\<And>j. j < length cs \<Longrightarrow> get_chunk_start_pos g j = Inr (length (concat (take j cs)))"
proof -
  obtain g where g: "get_geometry_for_num_cores num_cores (length v) = Inr g" "divides_work g (length v)"
    "num_chunks g \<le> num_cores" using geometry_divides [OF assms(1), of "length v"] assms(2) by auto
  from geometry_chunks_cover [OF g(2), of 0 v 1] rest_of_work_all [OF g(2)] obtain cs where
    cs: "chunks_for_geometry g v = Inr cs" "concat cs = v" "map length cs = map (chunk_size g) [0..<num_chunks g]"
    by (auto simp: chunks_for_geometry_def)
  have len: "length cs = num_chunks g" using arg_cong [OF cs(3), of length] by simp
  have size: "length (cs ! j) = chunk_size g j" if "j < num_chunks g" for j
    using arg_cong [OF cs(3), of "\<lambda>l. l ! j"] that len by simp
  have ne: "[] \<notin> set cs"
    using size chunk_size_pos [OF g(2)] len by (force simp: in_set_conv_nth)
  have start: "length (concat (take j cs)) = ordinary_chunk_size g * j" if "j < num_chunks g" for j
    using chunks_start [OF cs(3) that, of "ordinary_chunk_size g"] chunk_size_ordinary that by simp
  show thesis
    by (rule that [OF g(1) cs(1,2) len g(3) ne])
      (use size start len in \<open>simp_all add: get_chunk_size_def get_chunk_start_pos_def\<close>)
qed

text \<open>A loop over the indices of every chunk, chunk after chunk, is the loop over all indices.\<close>

lemma foldR_concat:
  "foldR (\<lambda>i a. foldR (g i) (js i) a) is a = foldR (\<lambda>(i, j). g i j) (concat (map (\<lambda>i. map (Pair i) (js i)) is)) a"
proof -
  have "foldR (\<lambda>(i, j). g i j) (map (Pair i) js) a = foldR (g i) js a" for i js a
    by (induction js arbitrary: a) (auto intro: arg_cong [of _ _ "bindR _"])
  then show ?thesis by (induction "is" arbitrary: a) (auto simp: foldR_append intro: arg_cong [of _ _ "bindR _"])
qed

lemma foldR_map: "foldR f (map h xs) a = foldR (\<lambda>x. f (h x)) xs a"
  by (induction xs arbitrary: a) (auto intro: arg_cong [of _ _ "bindR _"])

lemma foldR_cong:
  "xs = ys \<Longrightarrow> (\<And>x a. x \<in> set ys \<Longrightarrow> f x a = g x a) \<Longrightarrow> foldR f xs a = foldR g ys a"
  by (induction ys arbitrary: xs a) (auto intro: arg_cong [of _ _ "bindR _"])

lemma ranges_of_chunks:
  "concat (map (\<lambda>j. [s + length (concat (take j cs))..<s + length (concat (take j cs)) + length (cs ! j)]) [0..<length cs]) =
   [s..<s + length (concat cs)]"
proof (induction cs arbitrary: s)
  case (Cons c cs)
  from Cons.IH [of "s + length c"] show ?case
    by (simp add: upt_conv_Cons map_Suc_upt [symmetric] add.assoc comp_def
        upt_add_eq_append [of s "s + length c" "length (concat cs)", simplified add.assoc] del: upt_Suc)
qed simp

lemma geometry_loop:
  assumes "num_cores \<noteq> 0" and "w \<noteq> 0"
  obtains g where "get_geometry_for_num_cores num_cores w = Inr g"
    "\<And>body a. foldR (\<lambda>chunk_idx a. bindR (chunk_range g chunk_idx) (\<lambda>range. foldR body range a)) [0..<num_chunks g] a =
       foldR body [0..<w] a"
proof -
  have "replicate w () \<noteq> []" using assms(2) by simp
  from geometry_cuts [OF assms(1) this] obtain g cs where
    g: "get_geometry_for_num_cores num_cores w = Inr g" "concat cs = replicate w ()" "length cs = num_chunks g"
    "\<And>j. j < length cs \<Longrightarrow> get_chunk_size g j = Inr (length (cs ! j))"
    "\<And>j. j < length cs \<Longrightarrow> get_chunk_start_pos g j = Inr (length (concat (take j cs)))"
    by (metis length_replicate)
  let ?r = "\<lambda>j. [0 + length (concat (take j cs))..<0 + length (concat (take j cs)) + length (cs ! j)]"
  have "foldR (\<lambda>chunk_idx a. bindR (chunk_range g chunk_idx) (\<lambda>range. foldR body range a)) [0..<num_chunks g] a =
      foldR body [0..<w] a" for body :: "nat \<Rightarrow> 'c \<Rightarrow> 'c res" and a
  proof -
    have "foldR (\<lambda>chunk_idx a. bindR (chunk_range g chunk_idx) (\<lambda>range. foldR body range a)) [0..<num_chunks g] a =
        foldR (\<lambda>j a. foldR body (?r j) a) [0..<num_chunks g] a"
      by (rule foldR_cong) (simp_all add: chunk_range_def g(4,5) flip: g(3))
    also have "\<dots> = foldR body (concat (map ?r [0..<length cs])) a"
    proof -
      have flat: "foldR body (concat (map r js)) a = foldR (\<lambda>j a. foldR body (r j) a) js a" for r js a
        by (induction js arbitrary: a) (auto simp: foldR_append intro: arg_cong [of _ _ "bindR _"])
      show ?thesis by (simp only: flat g(3))
    qed
    also have "concat (map ?r [0..<length cs]) = [0..<w]"
      by (simp only: ranges_of_chunks g(2)) simp
    finally show ?thesis .
  qed
  with that g(1) show thesis by blast
qed

section \<open>Properties\<close>

text \<open>
  C33. The division of work never fails and covers it exactly: for a non-empty slice and at least one
  thread there is a geometry with at most that many chunks, the iterator cuts the slice into non-empty
  chunks that follow each other and make up the slice, and the geometry's sizes and start positions are
  those of the chunks.
\<close>

theorem work_divided:
  assumes "num_cores \<noteq> 0" and "v \<noteq> []"
  shows "\<exists>g cs. get_geometry_for_num_cores num_cores (length v) = Inr g \<and> chunks_for_geometry g v = Inr cs \<and>
    concat cs = v \<and> length cs = num_chunks g \<and> num_chunks g \<le> num_cores \<and> [] \<notin> set cs \<and>
    (\<forall>j < length cs. get_chunk_size g j = Inr (length (cs ! j)) \<and>
       get_chunk_start_pos g j = Inr (length (concat (take j cs))))"
  using geometry_cuts [OF assms] by metis

theorem work_divided_witness:
  "\<exists>g cs. get_geometry_for_num_cores 4 (length (replicate 35 (0 :: nat))) = Inr g \<and>
     chunks_for_geometry g (replicate 35 (0 :: nat)) = Inr cs \<and> concat cs = replicate 35 0 \<and> length cs \<le> 4"
  using work_divided [of 4 "replicate 35 (0 :: nat)"] by auto

text \<open>
  The cyclic windows are the chunks, each with the element that follows it in the slice, the
  first element following the last chunk.
\<close>

lemma windows_are_chunks:
  assumes "chunks_for_geometry g v = Inr cs" and "v \<noteq> []"
  shows "chunks_for_geometry_windows g v =
    Inr (map (\<lambda>j. (cs ! j, hd (concat (drop (Suc j) cs) @ [hd v]))) [0..<length cs])"
  using windows_of_chunks [OF assms(1) [unfolded chunks_for_geometry_def], of "hd v"] assms(2)
  by (cases v) (simp_all add: chunks_for_geometry_windows_def)

text \<open>
  C34. The reverse iterator fails on every slice of more than one element: it starts at the index of
  the last element instead of the last chunk, and counts up.
\<close>

theorem rev_chunks_fail:
  assumes "divides_work g (length v)" and "1 < length v"
  shows "chunks_for_geometry_rev c g v = Inl AssertFailed"
proof -
  have "num_chunks g \<le> length v"
  proof -
    have "num_chunks g - 1 \<le> (num_chunks g - 1) * ordinary_chunk_size g" "0 < chunk_size g (num_chunks g - 1)"
      using assms(1) by (auto simp: divides_work_def intro: chunk_size_pos [OF assms(1)])
    with assms(1) show ?thesis unfolding divides_work_def by linarith
  qed
  show ?thesis
  proof (cases "num_chunks g = length v")
    case True
    let ?sz = "chunk_size g (length v - 1)"
    have "v \<noteq> []" "\<not> num_chunks g \<le> length v - 1" using assms(2) True by auto
    moreover have "?sz < length v"
    proof -
      have "length v = (length v - 1) * ordinary_chunk_size g + ?sz" "0 < ordinary_chunk_size g"
        using assms(1) by (simp_all add: divides_work_def True)
      moreover from this(2) have "0 < (length v - 1) * ordinary_chunk_size g" using assms(2) by simp
      ultimately show ?thesis by linarith
    qed
    moreover have "rev_chunks g 1 (length v) w = Inl AssertFailed" if "w \<noteq> []" for w :: "'a list"
      using that True by (simp add: rev_chunks.simps)
    ultimately show ?thesis
      by (simp add: chunks_for_geometry_rev_def rev_chunks.simps [of g "Suc 0" "length v - Suc 0" v] Let_def)
  next
    case False
    with \<open>num_chunks g \<le> length v\<close> have "num_chunks g \<le> length v - 1" by linarith
    moreover have "v \<noteq> []" using assms(2) by auto
    ultimately show ?thesis by (simp add: chunks_for_geometry_rev_def rev_chunks.simps)
  qed
qed

theorem rev_chunks_fail_witness:
  "chunks_for_geometry_rev \<lparr> debug_assertions = False, fuzzing_support = False, rom_bits = 0 \<rparr>
     \<lparr> num_chunks = 2, ordinary_chunk_size = 2, remainder = 1 \<rparr> [5, 6, 7 :: nat] = Inl AssertFailed"
  by (rule rev_chunks_fail) (simp_all add: divides_work_def chunk_size_def)

end
