(* ===== verification/FieldUtils.thy ===== *)
theory FieldUtils
  imports FieldContract Worker
begin

text \<open>
  What is written for any field: the provided methods of the trait \<open>Field\<close>, batch inversion
  (\<open>field/src/lib.rs\<close>, \<open>fft/src/field_utils.rs\<close>), powers of an element, and the generators of the
  domains, serial and in parallel.
\<close>

section \<open>Provided methods\<close>

function f_pow_loop :: "'f field_ops \<Rightarrow> 'f \<Rightarrow> 'f \<Rightarrow> u32 \<Rightarrow> 'f" where
  "f_pow_loop F base result e =
     (if 0 < e then
        f_pow_loop F (f_square F base) (if e mod 2 = 1 then f_mul F result base else result) (drop_bit 1 e)
      else result)"
  by pat_completeness auto
termination
  by (relation "measure (\<lambda>(_, _, _, e). unat e)") (auto simp: unat_drop_bit unat_gt_0 word_neq_0_conv)

declare f_pow_loop.simps [simp del]

definition f_pow :: "'f field_ops \<Rightarrow> 'f \<Rightarrow> u32 \<Rightarrow> 'f" where
  "f_pow F x e = f_pow_loop F x (f_one F) e"

primrec f_exp_power_of_2 :: "'f field_ops \<Rightarrow> 'f \<Rightarrow> nat \<Rightarrow> 'f" where
  "f_exp_power_of_2 F x 0 = x"
| "f_exp_power_of_2 F x (Suc n) = f_exp_power_of_2 F (f_square F x) n"

definition f_fused_mul_add :: "'f field_ops \<Rightarrow> 'f \<Rightarrow> 'f \<Rightarrow> 'f \<Rightarrow> 'f" where
  "f_fused_mul_add F x a b = f_add F (f_mul F x a) b"

definition f_add_product :: "'f field_ops \<Rightarrow> 'f \<Rightarrow> 'f \<Rightarrow> 'f \<Rightarrow> 'f" where
  "f_add_product F x a b = f_add F x (f_mul F a b)"

section \<open>Batch inversion\<close>

text \<open>
  Montgomery's trick. The first pass leaves in the buffer the product of the elements before each
  one, the second goes back from the inverse of the product of all. Two lists are zipped, so the
  shorter one decides.
\<close>

fun prefix_products :: "'f field_ops \<Rightarrow> 'f \<Rightarrow> 'f list \<Rightarrow> 'f list \<times> 'f" where
  "prefix_products F accumulator [] = ([], accumulator)"
| "prefix_products F accumulator (el # els) =
     (let (outs, last) = prefix_products F (f_mul F accumulator el) els in (accumulator # outs, last))"

fun unwind :: "'f field_ops \<Rightarrow> 'f \<Rightarrow> ('f \<times> 'f) list \<Rightarrow> 'f list" where
  "unwind F grand_inverse [] = []"
| "unwind F grand_inverse ((tmp, original) # rest) =
     f_mul F tmp grand_inverse # unwind F (f_mul F grand_inverse original) rest"

definition overwrite_back :: "'f list \<Rightarrow> 'f list \<Rightarrow> 'f list" where
  "overwrite_back new xs = rev (new @ drop (length new) (rev xs))"

definition batch_inverse_inplace :: "'f field_ops \<Rightarrow> 'f list \<Rightarrow> 'f list \<Rightarrow> ('f list \<times> 'f list) res" where
  "batch_inverse_inplace F input tmp_buffer =
     (case input of
        [] \<Rightarrow> Inr (input, tmp_buffer)
      | first # els \<Rightarrow>
          (case tmp_buffer of
             [] \<Rightarrow> Inl IndexOutOfBounds
           | _ # tmps \<Rightarrow>
               (let (outs, accumulator) = prefix_products F first (take (length tmps) els);
                    tmp_buffer = f_one F # outs @ drop (length outs) tmps in
                case f_inverse F accumulator of
                  None \<Rightarrow> Inl AssertFailed
                | Some grand_inverse \<Rightarrow>
                    Inr (overwrite_back (unwind F grand_inverse (zip (rev tmp_buffer) (rev input))) input, tmp_buffer))))"

definition batch_inverse_with_buffer :: "'f field_ops \<Rightarrow> 'f list \<Rightarrow> 'f list \<Rightarrow> ('f list \<times> 'f list) res" where
  "batch_inverse_with_buffer F input tmp_buffer =
     guardR (tmp_buffer = []) AssertFailed
     (case input of
        [] \<Rightarrow> Inr (input, tmp_buffer)
      | first # els \<Rightarrow>
          (let (outs, accumulator) = prefix_products F first els;
               tmp_buffer = f_one F # outs in
           case f_inverse F accumulator of
             None \<Rightarrow> Inl AssertFailed
           | Some grand_inverse \<Rightarrow>
               Inr (overwrite_back (unwind F grand_inverse (zip (rev tmp_buffer) (rev input))) input, [])))"

text \<open>The version that keeps zeroes, and says whether there were any.\<close>

fun prefix_products_checked :: "'f field_ops \<Rightarrow> 'f \<Rightarrow> 'f list \<Rightarrow> 'f list \<times> 'f \<times> bool" where
  "prefix_products_checked F accumulator [] = ([], accumulator, False)"
| "prefix_products_checked F accumulator (el # els) =
     (let zero = f_is_zero F el;
          (outs, last, zeroes) =
            prefix_products_checked F (if zero then accumulator else f_mul F accumulator el) els in
      (accumulator # outs, last, zero \<or> zeroes))"

fun unwind_checked :: "'f field_ops \<Rightarrow> 'f \<Rightarrow> ('f \<times> 'f) list \<Rightarrow> 'f list" where
  "unwind_checked F grand_inverse [] = []"
| "unwind_checked F grand_inverse ((tmp, original) # rest) =
     (let tmp = f_mul F tmp grand_inverse in
      if f_is_zero F original then original # unwind_checked F grand_inverse rest
      else tmp # unwind_checked F (f_mul F grand_inverse original) rest)"

definition batch_inverse_checked :: "'f field_ops \<Rightarrow> 'f list \<Rightarrow> 'f list \<Rightarrow> (('f list \<times> 'f list) \<times> bool) res" where
  "batch_inverse_checked F input tmp_buffer =
     guardR (length input = length tmp_buffer) AssertFailed
     (case input of
        [] \<Rightarrow> Inr ((input, tmp_buffer), True)
      | first # els \<Rightarrow>
          (let zero = f_is_zero F first;
               (outs, accumulator, zeroes) = prefix_products_checked F (if zero then f_one F else first) els;
               tmp_buffer = f_one F # outs in
           case f_inverse F accumulator of
             None \<Rightarrow> Inl AssertFailed
           | Some grand_inverse \<Rightarrow>
               Inr ((rev (unwind_checked F grand_inverse (zip (rev tmp_buffer) (rev input))), tmp_buffer),
                    \<not> (zero \<or> zeroes))))"

text \<open>
  Several slices as one: their elements in order. The first slice must not be empty, the
  code takes its first element.
\<close>

fun split_by :: "nat list \<Rightarrow> 'f list \<Rightarrow> 'f list list" where
  "split_by [] xs = []"
| "split_by (n # ns) xs = take n xs # split_by ns (drop n xs)"

definition batch_inverse_for_several_slices_inplace ::
  "'f field_ops \<Rightarrow> 'f list list \<Rightarrow> 'f list \<Rightarrow> ('f list list \<times> 'f list) res" where
  "batch_inverse_for_several_slices_inplace F input_slices tmp_buffer =
     guardR (sum_list (map length input_slices) = length tmp_buffer) AssertFailed
     (guardR (tmp_buffer \<noteq> []) IndexOutOfBounds
      (case input_slices of
         [] \<Rightarrow> Inl IndexOutOfBounds
       | [] # _ \<Rightarrow> Inl IndexOutOfBounds
       | (first # _) # _ \<Rightarrow>
           (let input = concat input_slices;
                (outs, accumulator) = prefix_products F first (tl input);
                tmp_buffer = f_one F # outs in
            case f_inverse F accumulator of
              None \<Rightarrow> Inl AssertFailed
            | Some grand_inverse \<Rightarrow>
                Inr (split_by (map length input_slices)
                       (overwrite_back (unwind F grand_inverse (zip (rev tmp_buffer) (rev input))) input), tmp_buffer))))"

text \<open>
  In parallel: a chunk of the input with a chunk of the buffer each. If the buffer is used up
  first, the zip ends and the rest of the input is left as it is.
\<close>

fun inverse_chunks :: "'f field_ops \<Rightarrow> 'f list list \<Rightarrow> 'f list \<Rightarrow> ('f list \<times> 'f list) res" where
  "inverse_chunks F [] tmp_buf = Inr ([], tmp_buf)"
| "inverse_chunks F (chunk # chunks) tmp_buf =
     (if tmp_buf = [] then Inr (concat (chunk # chunks), [])
      else guardR (length chunk \<le> length tmp_buf) IndexOutOfBounds
        (bindR (batch_inverse_inplace F chunk (take (length chunk) tmp_buf)) (\<lambda>(chunk, tmp).
         bindR (inverse_chunks F chunks (drop (length tmp) tmp_buf)) (\<lambda>(rest, tmps).
         Inr (chunk @ rest, tmp @ tmps)))))"

definition batch_inverse_inplace_parallel ::
  "'f field_ops \<Rightarrow> nat \<Rightarrow> 'f list \<Rightarrow> 'f list \<Rightarrow> ('f list \<times> 'f list) res" where
  "batch_inverse_inplace_parallel F num_cores input tmp_buf =
     bindR (get_geometry_for_num_cores num_cores (length input)) (\<lambda>geometry.
     bindR (chunks_for_geometry geometry input) (\<lambda>chunks.
     inverse_chunks F chunks tmp_buf))"

section \<open>What they compute\<close>

lemma prefix_products_length [simp]: "length (fst (prefix_products F a els)) = length els"
  by (induction els arbitrary: a) (simp_all add: case_prod_unfold Let_def)

context field_impl
begin

lemma pow_loop:
  assumes "ok base" and "ok result"
  shows "ok (f_pow_loop F base result e) \<and> val (f_pow_loop F base result e) = val result * val base ^ unat e"
  using assms
proof (induction "unat e" arbitrary: base result e rule: less_induct)
  case less
  show ?case
  proof (cases "0 < e")
    case True
    let ?r = "if e mod 2 = 1 then f_mul F result base else result" and ?half = "drop_bit 1 e"
    have half: "unat ?half = unat e div 2" by (simp add: unat_drop_bit)
    have odd: "e mod 2 = 1 \<longleftrightarrow> unat e mod 2 = 1"
      by (simp add: word_unat_eq_iff unat_mod)
    have "unat ?half < unat e" unfolding half using True by (simp add: word_less_nat_alt)
    from less.hyps [OF this, of "f_square F base" ?r, unfolded half] less.prems
    have IH: "ok (f_pow_loop F (f_square F base) ?r ?half)"
      "val (f_pow_loop F (f_square F base) ?r ?half) = val ?r * (val base * val base) ^ (unat e div 2)"
      by (simp_all add: ops)
    have "val ?r * (val base * val base) ^ (unat e div 2) = val result * val base ^ unat e"
    proof -
      have "(val base * val base) ^ (unat e div 2) = val base ^ (2 * (unat e div 2))"
        by (simp add: power_mult power2_eq_square)
      moreover have "val ?r = val result * val base ^ (unat e mod 2)"
        using less.prems odd by (auto simp: ops not_mod_2_eq_1_eq_0)
      ultimately show ?thesis by (simp add: mult.assoc flip: power_add)
    qed
    then show ?thesis using True IH by (simp add: f_pow_loop.simps [of F base result e])
  next
    case False
    then have "e = 0" using word_neq_0_conv [of e] by blast
    then show ?thesis using less.prems by (simp add: f_pow_loop.simps)
  qed
qed

lemma pow: "ok x \<Longrightarrow> ok (f_pow F x e) \<and> val (f_pow F x e) = val x ^ unat e"
  using pow_loop [of x "f_one F" e] by (simp add: f_pow_def one)

lemma exp_power_of_2:
  "ok x \<Longrightarrow> ok (f_exp_power_of_2 F x n) \<and> val (f_exp_power_of_2 F x n) = val x ^ 2 ^ n"
  by (induction n arbitrary: x) (simp_all add: square power_mult power2_eq_square)

lemma prefix_products_ok:
  assumes "ok a" and "list_all ok els" and "prefix_products F a els = (outs, acc)"
  shows "ok acc \<and> list_all ok outs \<and> length outs = length els \<and> val acc = val a * prod_list (map val els)"
  using assms
proof (induction els arbitrary: a outs)
  case (Cons el els)
  then obtain outs' where pre: "prefix_products F (f_mul F a el) els = (outs', acc)" "outs = a # outs'"
    by (auto split: prod.splits)
  have "ok (f_mul F a el)" "list_all ok els" using Cons.prems by (simp_all add: mul)
  from Cons.IH [OF this pre(1)] Cons.prems show ?case by (simp add: pre(2) mul mult.assoc)
qed simp

lemma prefix_products_snoc:
  "prefix_products F a (els @ [e]) =
     (case prefix_products F a els of (outs, acc) \<Rightarrow> (outs @ [acc], f_mul F acc e))"
  by (induction els arbitrary: a) (auto split: prod.split)

lemma unwind_inverses:
  assumes "list_all ok els" and "list_all (\<lambda>x. val x \<noteq> 0) (a # els)" and "ok a"
    and "prefix_products F a els = (outs, acc)" and "ok g" and "val g = inverse (val acc)"
  shows "list_all ok (unwind F g (zip (rev (f_one F # outs)) (rev (a # els)))) \<and>
    map val (unwind F g (zip (rev (f_one F # outs)) (rev (a # els)))) = rev (map (\<lambda>x. inverse (val x)) (a # els))"
  using assms
proof (induction els arbitrary: outs acc g rule: rev_induct)
  case Nil
  then show ?case by (simp add: ops)
next
  case (snoc e els)
  obtain outs' acc' where pre: "prefix_products F a els = (outs', acc')" by (metis surj_pair)
  with snoc.prems(4) have outs: "outs = outs' @ [acc']" and acc: "acc = f_mul F acc' e"
    by (simp_all add: prefix_products_snoc)
  have oks: "ok e" "list_all ok els" "list_all (\<lambda>x. val x \<noteq> 0) (a # els)" "val e \<noteq> 0" using snoc.prems by simp_all
  note acc' = prefix_products_ok [OF snoc.prems(3) oks(2) pre]
  have g: "val g = inverse (val acc') * inverse (val e)" using snoc.prems(6) acc' oks by (simp add: acc mul)
  have "val acc' \<noteq> 0" using acc' oks(3) by (auto simp: prod_list_zero_iff list_all_iff)
  then have "val acc' * val g = inverse (val e)" unfolding g by simp
  then have first: "ok (f_mul F acc' g)" "val (f_mul F acc' g) = inverse (val e)"
    using acc' snoc.prems(5) by (simp_all only: mul)
  have "ok (f_mul F g e)" "val (f_mul F g e) = inverse (val acc')"
    using snoc.prems(5) oks by (simp_all add: mul g)
  from snoc.IH [OF oks(2,3) snoc.prems(3) pre this] show ?case using first by (simp add: outs)
qed

text \<open>With a buffer of the input's size: every element becomes its inverse, or the call panics on a zero.\<close>

lemma batch_inverse_parts:
  assumes "list_all ok (a # els)" and "prefix_products F a els = (outs, acc)"
  shows "f_inverse F acc = None \<longleftrightarrow> (\<exists>x \<in> set (a # els). val x = 0)"
    "f_inverse F acc = Some g \<Longrightarrow>
       (let new = overwrite_back (unwind F g (zip (rev (f_one F # outs)) (rev (a # els)))) (a # els) in
        list_all ok new \<and> map val new = map (\<lambda>x. inverse (val x)) (a # els))"
proof -
  have a: "ok a" "list_all ok els" using assms(1) by simp_all
  note acc = prefix_products_ok [OF a assms(2)]
  then show none: "f_inverse F acc = None \<longleftrightarrow> (\<exists>x \<in> set (a # els). val x = 0)"
    by (auto simp: inverse_none prod_list_zero_iff image_iff)
  assume g: "f_inverse F acc = Some g"
  with none have nz: "list_all (\<lambda>x. val x \<noteq> 0) (a # els)" by (simp add: list_all_iff)
  from inverse_some [OF _ g] acc have "ok g" "val g = inverse (val acc)" by simp_all
  from unwind_inverses [OF a(2) nz a(1) assms(2) this]
  have u: "list_all ok (unwind F g (zip (rev (f_one F # outs)) (rev (a # els))))"
    "map val (unwind F g (zip (rev (f_one F # outs)) (rev (a # els)))) = rev (map (\<lambda>x. inverse (val x)) (a # els))"
    by simp_all
  from arg_cong [OF u(2), of length]
  have "length (unwind F g (zip (rev (f_one F # outs)) (rev (a # els)))) = length (a # els)" by simp
  with u show "let new = overwrite_back (unwind F g (zip (rev (f_one F # outs)) (rev (a # els)))) (a # els) in
      list_all ok new \<and> map val new = map (\<lambda>x. inverse (val x)) (a # els)"
    by (simp add: overwrite_back_def rev_map [symmetric])
qed

lemma batch_inverse_inplace:
  assumes "list_all ok input" and "length tmp = length input"
  shows "if \<exists>x \<in> set input. val x = 0 then batch_inverse_inplace F input tmp = Inl AssertFailed
    else \<exists>dst tmp'. batch_inverse_inplace F input tmp = Inr (dst, tmp') \<and> list_all ok dst \<and>
      map val dst = map (\<lambda>x. inverse (val x)) input \<and> length tmp' = length input"
proof (cases input)
  case (Cons a els)
  then obtain t ts where tmp: "tmp = t # ts" "length ts = length els" using assms(2) by (cases tmp) auto
  obtain outs acc where pre: "prefix_products F a els = (outs, acc)" by (metis surj_pair)
  note parts = batch_inverse_parts [OF assms(1) [unfolded Cons] pre]
  have len: "length outs = length els" using prefix_products_ok [OF _ _ pre] assms(1) by (simp add: Cons)
  show ?thesis
  proof (cases "f_inverse F acc")
    case None
    with parts(1) show ?thesis by (auto simp: Cons batch_inverse_inplace_def tmp pre)
  next
    case (Some g)
    with parts(1) parts(2) [OF Some] show ?thesis
      by (auto simp: Cons batch_inverse_inplace_def tmp pre len Let_def)
  qed
qed (use assms in \<open>simp add: batch_inverse_inplace_def\<close>)

text \<open>The other forms of it.\<close>

lemma batch_inverse_with_buffer:
  "batch_inverse_with_buffer F input [] =
     bindR (batch_inverse_inplace F input input) (\<lambda>(dst, tmp). Inr (dst, []))"
proof (cases input)
  case (Cons a els)
  then show ?thesis
    by (auto simp: Cons batch_inverse_with_buffer_def batch_inverse_inplace_def Let_def case_prod_unfold split: option.split)
qed (simp add: batch_inverse_with_buffer_def batch_inverse_inplace_def)

text \<open>Zeroes are kept: the passes are those on the other elements.\<close>

lemma prefix_products_checked_ok:
  assumes "ok a" and "list_all ok els" and "prefix_products_checked F a els = (outs, acc, zeroes)"
  shows "ok acc \<and> list_all ok outs \<and> length outs = length els \<and>
    val acc = val a * prod_list (map val (filter (\<lambda>x. val x \<noteq> 0) els)) \<and>
    (zeroes \<longleftrightarrow> (\<exists>x \<in> set els. val x = 0))"
  using assms
proof (induction els arbitrary: a outs zeroes)
  case (Cons el els)
  let ?b = "if f_is_zero F el then a else f_mul F a el"
  from Cons.prems obtain outs' zeroes' where
    pre: "prefix_products_checked F ?b els = (outs', acc, zeroes')" "outs = a # outs'" "zeroes = (f_is_zero F el \<or> zeroes')"
    by (auto simp: Let_def split: prod.splits)
  have "ok ?b" "list_all ok els" using Cons.prems by (simp_all add: mul)
  from Cons.IH [OF this pre(1)] Cons.prems show ?case by (auto simp: pre(2,3) mul mult.assoc is_zero)
qed simp

lemma prefix_products_checked_snoc:
  "prefix_products_checked F a (els @ [e]) =
     (case prefix_products_checked F a els of (outs, acc, zeroes) \<Rightarrow>
        (outs @ [acc], if f_is_zero F e then acc else f_mul F acc e, zeroes \<or> f_is_zero F e))"
  by (induction els arbitrary: a) (auto simp: Let_def split: prod.split)

lemma unwind_checked_inverses:
  assumes "list_all ok els" and "ok x" and "a = (if val x = 0 then f_one F else x)"
    and "prefix_products_checked F a els = (outs, acc, zeroes)" and "ok g" and "val g = inverse (val acc)"
  shows "list_all ok (unwind_checked F g (zip (rev (f_one F # outs)) (rev (x # els)))) \<and>
    map val (unwind_checked F g (zip (rev (f_one F # outs)) (rev (x # els)))) = rev (map (\<lambda>x. inverse (val x)) (x # els))"
  using assms(1,4-6)
proof (induction els arbitrary: outs acc zeroes g rule: rev_induct)
  case Nil
  then show ?case using assms(2,3) by (auto simp: ops is_zero Let_def)
next
  case (snoc e els)
  obtain outs' acc' zeroes' where pre: "prefix_products_checked F a els = (outs', acc', zeroes')" by (metis surj_pair)
  with snoc.prems(2) have outs: "outs = outs' @ [acc']" and acc: "acc = (if f_is_zero F e then acc' else f_mul F acc' e)"
    by (simp_all add: prefix_products_checked_snoc)
  have oks: "ok e" "list_all ok els" "ok a" using snoc.prems assms(2,3) by (simp_all add: ops)
  note acc' = prefix_products_checked_ok [OF oks(3,2) pre]
  have "val a \<noteq> 0" using assms(2,3) by (simp add: ops)
  then have nz: "val acc' \<noteq> 0" using acc' by (auto simp: prod_list_zero_iff)
  show ?case
  proof (cases "val e = 0")
    case True
    then have "val g = inverse (val acc')" using snoc.prems(4) oks by (simp add: acc is_zero)
    from snoc.IH [OF oks(2) pre snoc.prems(3) this] True show ?thesis using oks by (simp add: outs is_zero Let_def)
  next
    case False
    have g: "val g = inverse (val acc') * inverse (val e)"
      using snoc.prems(4) acc' oks False by (simp add: acc mul is_zero)
    then have "val acc' * val g = inverse (val e)" using nz by simp
    then have first: "ok (f_mul F acc' g)" "val (f_mul F acc' g) = inverse (val e)"
      using acc' snoc.prems(3) by (simp_all only: mul)
    have "ok (f_mul F g e)" "val (f_mul F g e) = inverse (val acc')"
      using snoc.prems(3) oks False by (simp_all add: mul g)
    from snoc.IH [OF oks(2) pre this] show ?thesis using first oks False by (simp add: outs is_zero Let_def)
  qed
qed

lemma batch_inverse_checked:
  assumes "list_all ok input" and "length tmp = length input"
  shows "\<exists>dst tmp'. batch_inverse_checked F input tmp = Inr ((dst, tmp'), \<forall>x \<in> set input. val x \<noteq> 0) \<and>
    list_all ok dst \<and> map val dst = map (\<lambda>x. inverse (val x)) input"
proof (cases input)
  case (Cons x els)
  define a where "a = (if f_is_zero F x then f_one F else x)"
  have x: "ok x" "list_all ok els" "ok a" "val a \<noteq> 0"
    using assms(1) by (simp_all add: Cons a_def ops is_zero)
  obtain outs acc zeroes where pre: "prefix_products_checked F a els = (outs, acc, zeroes)" by (metis surj_pair)
  note acc = prefix_products_checked_ok [OF x(3,2) pre]
  have "val acc \<noteq> 0" using acc x by (auto simp: prod_list_zero_iff)
  then obtain g where g: "f_inverse F acc = Some g" "ok g" "val g = inverse (val acc)"
    using acc inverse_cases [of acc] by auto
  let ?out = "unwind_checked F g (zip (rev (f_one F # outs)) (rev (x # els)))"
  have run: "batch_inverse_checked F input tmp =
      Inr ((rev ?out, f_one F # outs), \<not> (f_is_zero F x \<or> zeroes))"
    using assms(2) g(1) pre by (simp add: batch_inverse_checked_def Cons Let_def flip: a_def)
  have "a = (if val x = 0 then f_one F else x)" using x(1) by (simp add: a_def is_zero)
  from unwind_checked_inverses [OF x(2,1) this pre g(2,3)]
  have "list_all ok (rev ?out)" "map val (rev ?out) = map (\<lambda>x. inverse (val x)) input"
    by (simp_all add: Cons flip: rev_map)
  moreover have "(\<not> (f_is_zero F x \<or> zeroes)) = (\<forall>x \<in> set input. val x \<noteq> 0)"
    using acc x(1) by (auto simp: Cons is_zero)
  ultimately show ?thesis using run by auto
qed (use assms in \<open>simp add: batch_inverse_checked_def\<close>)

text \<open>Several slices are inverted as one, in parallel each chunk by itself.\<close>

lemma several_slices:
  assumes "hd slices \<noteq> []" and "slices \<noteq> []" and "length tmp = length (concat slices)"
  shows "batch_inverse_for_several_slices_inplace F slices tmp =
    bindR (batch_inverse_inplace F (concat slices) tmp)
      (\<lambda>(dst, tmp). Inr (split_by (map length slices) dst, tmp))"
proof -
  from assms(1,2) obtain a s rest where slices: "slices = (a # s) # rest" by (metis list.collapse)
  then obtain t ts where tmp: "tmp = t # ts" "length ts = length s + length (concat rest)"
    using assms(3) by (cases tmp) auto
  then show ?thesis
    using tmp by (simp add: slices batch_inverse_for_several_slices_inplace_def batch_inverse_inplace_def
        Let_def case_prod_unfold length_concat [symmetric] split: option.split)
qed

lemma inverse_chunks:
  assumes "list_all ok (concat chunks)" and "length tmp = length (concat chunks)" and "[] \<notin> set chunks"
  shows "if \<exists>x \<in> set (concat chunks). val x = 0 then inverse_chunks F chunks tmp = Inl AssertFailed
    else \<exists>dst tmp'. inverse_chunks F chunks tmp = Inr (dst, tmp') \<and> list_all ok dst \<and>
      map val dst = map (\<lambda>x. inverse (val x)) (concat chunks)"
  using assms
proof (induction chunks arbitrary: tmp)
  case (Cons chunk chunks)
  let ?t = "take (length chunk) tmp" and ?rest = "drop (length chunk) tmp"
  have ne: "tmp \<noteq> []" "length chunk \<le> length tmp" using Cons.prems by auto
  have one: "list_all ok chunk" "length ?t = length chunk" using Cons.prems by simp_all
  note first = batch_inverse_inplace [OF one]
  have "list_all ok (concat chunks)" "length ?rest = length (concat chunks)" "[] \<notin> set chunks"
    using Cons.prems by simp_all
  note others = Cons.IH [OF this]
  show ?case
  proof (cases "\<exists>x \<in> set chunk. val x = 0")
    case True
    then show ?thesis using first ne by auto
  next
    case False
    with first obtain dst tmp' where out: "batch_inverse_inplace F chunk ?t = Inr (dst, tmp')" "list_all ok dst"
      "map val dst = map (\<lambda>x. inverse (val x)) chunk" "length tmp' = length chunk" by auto
    show ?thesis
    proof (cases "\<exists>x \<in> set (concat chunks). val x = 0")
      case True
      then show ?thesis using others out ne by auto
    next
      case rest: False
      with others obtain dst' tmp'' where "inverse_chunks F chunks ?rest = Inr (dst', tmp'')" "list_all ok dst'"
        "map val dst' = map (\<lambda>x. inverse (val x)) (concat chunks)" by auto
      then show ?thesis using False rest out ne by auto
    qed
  qed
qed simp

lemma batch_inverse_parallel:
  assumes "list_all ok input" and "length tmp = length input" and "input \<noteq> []" and "num_cores \<noteq> 0"
  shows "if \<exists>x \<in> set input. val x = 0 then batch_inverse_inplace_parallel F num_cores input tmp = Inl AssertFailed
    else \<exists>dst tmp'. batch_inverse_inplace_parallel F num_cores input tmp = Inr (dst, tmp') \<and>
      map val dst = map (\<lambda>x. inverse (val x)) input"
proof -
  from geometry_cuts [OF assms(4,3)] obtain g cs where
    "get_geometry_for_num_cores num_cores (length input) = Inr g" "chunks_for_geometry g input = Inr cs"
    "concat cs = input" "[] \<notin> set cs" by metis
  then show ?thesis
    using inverse_chunks [of cs tmp] assms(1,2) by (auto simp: batch_inverse_inplace_parallel_def)
qed

end

section \<open>Properties\<close>

text \<open>
  C26. Batch inversion in any field of the tower, with a buffer of the input's length: if no element is
  zero, the serial form, the form with an empty vector as its buffer, the form on several slices and
  the parallel form all replace every element by its inverse.
\<close>

theorem batch_inversion:
  assumes "field_impl F ok val" and "list_all ok input" and "\<forall>x \<in> set input. val x \<noteq> 0"
    and "length tmp = length input" and "input \<noteq> []" and "num_cores \<noteq> 0"
    and "concat slices = input" and "hd slices \<noteq> []"
  shows "(\<exists>dst tmp'. batch_inverse_inplace F input tmp = Inr (dst, tmp') \<and>
      map val dst = map (\<lambda>x. inverse (val x)) input \<and>
      batch_inverse_with_buffer F input [] = Inr (dst, []) \<and>
      batch_inverse_for_several_slices_inplace F slices tmp = Inr (split_by (map length slices) dst, tmp')) \<and>
    (\<exists>dst tmp'. batch_inverse_inplace_parallel F num_cores input tmp = Inr (dst, tmp') \<and>
      map val dst = map (\<lambda>x. inverse (val x)) input)"
proof -
  note inplace = field_impl.batch_inverse_inplace [OF assms(1,2)]
  obtain dst tmp' where out: "batch_inverse_inplace F input tmp = Inr (dst, tmp')"
    "map val dst = map (\<lambda>x. inverse (val x)) input"
    using inplace [OF assms(4)] assms(3) by auto
  have same: "batch_inverse_inplace F input input = bindR (batch_inverse_inplace F input tmp) Inr"
    using assms(4) by (cases input; cases tmp) (simp_all add: batch_inverse_inplace_def Let_def case_prod_unfold split: option.split)
  have "slices \<noteq> []" using assms(5,7) by auto
  then show ?thesis
    using out assms field_impl.batch_inverse_parallel [OF assms(1,2,4-6)] same
    by (simp add: field_impl.several_slices [OF assms(1)] field_impl.batch_inverse_with_buffer [OF assms(1)])
qed

text \<open>
  C27. A zero among the elements makes batch inversion panic, serial or parallel; the checked form never
  panics, inverts the others, keeps the zeroes and returns whether there were none.
\<close>

theorem batch_inversion_of_zeroes:
  assumes "field_impl F ok val" and "list_all ok input" and "length tmp = length input"
  shows "((\<exists>x \<in> set input. val x = 0) \<longrightarrow> batch_inverse_inplace F input tmp = Inl AssertFailed \<and>
      (num_cores \<noteq> 0 \<longrightarrow> batch_inverse_inplace_parallel F num_cores input tmp = Inl AssertFailed)) \<and>
    (\<exists>dst tmp'. batch_inverse_checked F input tmp = Inr ((dst, tmp'), \<forall>x \<in> set input. val x \<noteq> 0) \<and>
      map val dst = map (\<lambda>x. if val x = 0 then 0 else inverse (val x)) input)"
proof -
  have inv: "(\<lambda>x. if val x = 0 then 0 else inverse (val x)) = (\<lambda>x. inverse (val x))" by auto
  show ?thesis
    unfolding inv
    using field_impl.batch_inverse_inplace [OF assms] field_impl.batch_inverse_checked [OF assms]
      field_impl.batch_inverse_parallel [OF assms, of num_cores]
    by (cases "input = []") auto
qed

theorem batch_inversion_witness:
  "\<exists>dst tmp'. batch_inverse_inplace_parallel m31_ops 2 [2, 3, 5] [0, 0, 0] = Inr (dst, tmp') \<and>
     map val31 dst = map (\<lambda>x. inverse (val31 x)) [2, 3, 5]"
  using batch_inversion [OF base.field_impl_axioms, of "[2, 3, 5]" "[0, 0, 0]" 2 "[[2], [3, 5]]"]
  by (simp add: valid_def val31_def fv_def of_nat_gf_eq [of _ 0, simplified])

theorem batch_inversion_of_zeroes_witness:
  "batch_inverse_inplace m31_ops [2, 0, 5] [0, 0, 0] = Inl AssertFailed"
  using batch_inversion_of_zeroes [OF base.field_impl_axioms, of "[2, 0, 5]" "[0, 0, 0]"]
  by (simp add: valid_def val31_def)

end
