(* ===== verification/Bitreverse.thy ===== *)
theory Bitreverse
  imports Worker
begin

text \<open>
  The permutation that reverses the bits of the indices of a slice (\<open>fft/src/utils.rs\<close>): the lookup
  tables, the four in-place loops and their parallel forms, all against the same permutation.
\<close>

section \<open>Reversed indices\<close>

text \<open>The low \<open>k\<close> bits of \<open>i\<close>, reversed: what the tables and the loops compute in parts.\<close>

definition rev_bits :: "nat \<Rightarrow> nat \<Rightarrow> nat" where
  "rev_bits k i = horner_sum of_bool 2 (rev (map (bit i) [0..<k]))"

definition ctz64 :: "u64 \<Rightarrow> nat" where
  "ctz64 w = length (takeWhile (\<lambda>i. \<not> bit w i) [0..<64])"

definition usize_trailing_zeros :: "nat \<Rightarrow> nat" where
  "usize_trailing_zeros n = ctz64 (of_nat n)"

definition bitreverse_index :: "nat \<Rightarrow> nat \<Rightarrow> nat" where
  "bitreverse_index index num_bits = unat (word_reverse (push_bit (64 - num_bits) (of_nat index :: u64)))"

definition lookup_table :: "nat \<Rightarrow> u8 list" where
  "lookup_table log_size =
     map (\<lambda>i. ucast (drop_bit (64 - log_size) (word_reverse (of_nat i :: u64)))) [0..<2 ^ log_size]"

definition TINY_BITREVERSE_LOOKUP_TABLE :: "u8 list" where
  "TINY_BITREVERSE_LOOKUP_TABLE = lookup_table 3"

definition SMALL_BITREVERSE_LOOKUP_TABLE :: "u8 list" where
  "SMALL_BITREVERSE_LOOKUP_TABLE = lookup_table 6"

definition MEDIUM_BITREVERSE_LOOKUP_TABLE :: "u8 list" where
  "MEDIUM_BITREVERSE_LOOKUP_TABLE = lookup_table 8"

text \<open>A 32-bit word as four bytes, the least significant one first.\<close>

definition to_le_bytes :: "u32 \<Rightarrow> u8 list" where
  "to_le_bytes w = map (\<lambda>p. ucast (drop_bit (8 * p) w)) [0..<4]"

definition from_le_bytes :: "u8 list \<Rightarrow> u32" where
  "from_le_bytes bytes =
     ucast (bytes ! 0) OR push_bit 8 (ucast (bytes ! 1)) OR push_bit 16 (ucast (bytes ! 2)) OR push_bit 24 (ucast (bytes ! 3))"

definition swap_bytes :: "u32 \<Rightarrow> u32" where
  "swap_bytes w = from_le_bytes (rev (to_le_bytes w))"

definition medium_lookup :: "u8 \<Rightarrow> u8" where
  "medium_lookup b = MEDIUM_BITREVERSE_LOOKUP_TABLE ! unat b"

section \<open>In place\<close>

definition swap_unchecked :: "nat \<Rightarrow> nat \<Rightarrow> 'a list \<Rightarrow> 'a list res" where
  "swap_unchecked i j xs =
     guardR (i < length xs \<and> j < length xs) UndefinedBehaviour (Inr (xs[i := xs ! j, j := xs ! i]))"

definition swap_if :: "bool \<Rightarrow> nat \<Rightarrow> nat \<Rightarrow> 'a list \<Rightarrow> 'a list res" where
  "swap_if c i j xs = (if c then swap_unchecked i j xs else Inr xs)"

definition via_lookup :: "nat \<Rightarrow> u8 list \<Rightarrow> 'a list \<Rightarrow> 'a list res" where
  "via_lookup log_size table input =
     guardR (is_power_of_two (length input)) AssertFailed
     (guardR (length input \<le> length table) AssertFailed
      (let shift_to_cleanup = log_size - usize_trailing_zeros (length input) in
       foldR (\<lambda>i. let j = drop_bit shift_to_cleanup (unat (table ! i)) in swap_if (i < j) i j)
         [0..<length input] input))"

definition via_small_lookup :: "'a list \<Rightarrow> 'a list res" where
  "via_small_lookup = via_lookup 6 SMALL_BITREVERSE_LOOKUP_TABLE"

definition via_medium_lookup :: "'a list \<Rightarrow> 'a list res" where
  "via_medium_lookup = via_lookup 8 MEDIUM_BITREVERSE_LOOKUP_TABLE"

text \<open>
  For longer slices: the indices byte by byte, the highest three bits by the smallest table in an
  inner loop.
\<close>

definition reverse_low_bytes :: "nat \<Rightarrow> nat \<Rightarrow> nat" where
  "reverse_low_bytes common i =
     (let bytes = to_le_bytes (swap_bytes (of_nat i));
          bytes = [0, medium_lookup (bytes ! 1), medium_lookup (bytes ! 2), medium_lookup (bytes ! 3)] in
      unat (drop_bit (32 - common) (from_le_bytes bytes)))"

definition reverse_all_bytes :: "nat \<Rightarrow> nat \<Rightarrow> nat" where
  "reverse_all_bytes log_n i =
     (let bytes = to_le_bytes (swap_bytes (of_nat i));
          bytes = [medium_lookup (bytes ! 0), medium_lookup (bytes ! 1), medium_lookup (bytes ! 2), medium_lookup (bytes ! 3)] in
      unat (drop_bit (32 - log_n) (from_le_bytes bytes)))"

definition optimized_step :: "nat \<Rightarrow> nat \<Rightarrow> 'a list \<Rightarrow> 'a list res" where
  "optimized_step common i =
     (let reversed_i = reverse_low_bytes common i in
      foldR (\<lambda>j. let reversed_j = unat (TINY_BITREVERSE_LOOKUP_TABLE ! j);
                     dst = i OR push_bit common j;
                     src = reversed_j OR push_bit 3 reversed_i in
                 swap_if (dst < src) src dst)
        [0..<length TINY_BITREVERSE_LOOKUP_TABLE])"

definition simple_step :: "nat \<Rightarrow> nat \<Rightarrow> 'a list \<Rightarrow> 'a list res" where
  "simple_step log_n i = (let reversed_i = reverse_all_bytes log_n i in swap_if (reversed_i < i) i reversed_i)"

definition optimized_bitreverse_enumeration_inplace :: "cfg \<Rightarrow> 'a list \<Rightarrow> 'a list res" where
  "optimized_bitreverse_enumeration_inplace c input =
     guardR (is_power_of_two (length input)) AssertFailed
     (guardR (length MEDIUM_BITREVERSE_LOOKUP_TABLE < length input) AssertFailed
      (guardR (length input \<le> 2 ^ 27) AssertFailed
       (let common = usize_trailing_zeros (length input) - 3 in
        foldR (\<lambda>i a.
            debug_assert (debug_assertions c)
              (reverse_low_bytes common i = unat (drop_bit (32 - common) (word_reverse (of_nat i :: u32))))
              (optimized_step common i a))
          [0..<2 ^ common] input)))"

definition simple_bitreverse_enumeration_inplace :: "'a list \<Rightarrow> 'a list res" where
  "simple_bitreverse_enumeration_inplace input =
     guardR (is_power_of_two (length input)) AssertFailed
     (guardR (length MEDIUM_BITREVERSE_LOOKUP_TABLE < length input) AssertFailed
      (guardR (length input \<le> 2 ^ 31) AssertFailed
       (foldR (simple_step (usize_trailing_zeros (length input))) [0..<length input] input)))"

definition bitreverse_enumeration_inplace :: "cfg \<Rightarrow> 'a list \<Rightarrow> 'a list res" where
  "bitreverse_enumeration_inplace c input =
     (if length input = 0 then Inr input
      else guardR (is_power_of_two (length input)) AssertFailed
       (if length input \<le> length SMALL_BITREVERSE_LOOKUP_TABLE then via_small_lookup input
        else if length input \<le> length MEDIUM_BITREVERSE_LOOKUP_TABLE then via_medium_lookup input
        else if length input \<le> 2 ^ 27 then optimized_bitreverse_enumeration_inplace c input
        else simple_bitreverse_enumeration_inplace input))"

section \<open>In parallel\<close>

text \<open>Every thread runs the iterations of its chunk on the shared slice.\<close>

definition in_chunks :: "nat \<Rightarrow> nat \<Rightarrow> (nat \<Rightarrow> 'a list \<Rightarrow> 'a list res) \<Rightarrow> 'a list \<Rightarrow> 'a list res" where
  "in_chunks num_cores work_size body input =
     bindR (get_geometry_for_num_cores num_cores work_size) (\<lambda>geometry.
       foldR (\<lambda>chunk_idx a. bindR (chunk_range geometry chunk_idx) (\<lambda>range. foldR body range a))
         [0..<num_chunks geometry] input)"

definition parallel_optimized_bitreverse_enumeration_inplace :: "nat \<Rightarrow> 'a list \<Rightarrow> 'a list res" where
  "parallel_optimized_bitreverse_enumeration_inplace num_cores input =
     guardR (is_power_of_two (length input)) AssertFailed
     (guardR (length TINY_BITREVERSE_LOOKUP_TABLE < length input) AssertFailed
      (guardR (length input \<le> 2 ^ 27) AssertFailed
       (let common = usize_trailing_zeros (length input) - 3 in
        in_chunks num_cores (2 ^ common) (optimized_step common) input)))"

definition parallel_simple_bitreverse_enumeration_inplace :: "nat \<Rightarrow> 'a list \<Rightarrow> 'a list res" where
  "parallel_simple_bitreverse_enumeration_inplace num_cores input =
     guardR (is_power_of_two (length input)) AssertFailed
     (guardR (length MEDIUM_BITREVERSE_LOOKUP_TABLE < length input) AssertFailed
      (guardR (length input \<le> 2 ^ 31) AssertFailed
       (in_chunks num_cores (length input) (simple_step (usize_trailing_zeros (length input))) input)))"

definition parallel_bitreverse_enumeration_inplace :: "nat \<Rightarrow> 'a list \<Rightarrow> 'a list res" where
  "parallel_bitreverse_enumeration_inplace num_cores input =
     (if length input = 0 then Inr input
      else guardR (is_power_of_two (length input)) AssertFailed
       (if length input \<le> length SMALL_BITREVERSE_LOOKUP_TABLE then via_small_lookup input
        else if length input \<le> length MEDIUM_BITREVERSE_LOOKUP_TABLE then via_medium_lookup input
        else if length input \<le> 2 ^ 27 then parallel_optimized_bitreverse_enumeration_inplace num_cores input
        else parallel_simple_bitreverse_enumeration_inplace num_cores input))"

section \<open>The tables\<close>

lemma bit_rev_bits: "bit (rev_bits k i) n \<longleftrightarrow> n < k \<and> bit i (k - 1 - n)"
  by (auto simp: rev_bits_def bit_horner_sum_bit_iff rev_nth)

lemma nat_bit_eqI: "(\<And>n. bit (a :: nat) n \<longleftrightarrow> bit b n) \<Longrightarrow> a = b"
  by (rule bit_eqI) simp

lemma less_iff_bits: "(a :: nat) < 2 ^ k \<longleftrightarrow> (\<forall>n. bit a n \<longrightarrow> n < k)"
proof
  assume "a < 2 ^ k"
  then have "take_bit k a = a" by (simp add: take_bit_nat_eq_self)
  then show "\<forall>n. bit a n \<longrightarrow> n < k" by (metis bit_take_bit_iff)
next
  assume *: "\<forall>n. bit a n \<longrightarrow> n < k"
  have "take_bit k a = a" by (rule nat_bit_eqI) (use * in \<open>auto simp: bit_take_bit_iff\<close>)
  then show "a < 2 ^ k" by (metis take_bit_nat_less_exp)
qed

lemma rev_bits_less: "rev_bits k i < 2 ^ k"
  by (simp add: less_iff_bits bit_rev_bits)

lemma rev_bits_rev_bits: "i < 2 ^ k \<Longrightarrow> rev_bits k (rev_bits k i) = i"
  by (rule nat_bit_eqI) (auto simp: bit_rev_bits less_iff_bits)

lemma rev_bits_0 [simp]: "rev_bits 0 i = 0"
  by (simp add: rev_bits_def)

lemma rev_bits_Suc: "rev_bits (Suc k) i = rev_bits k (i div 2) + 2 ^ k * of_bool (odd i)"
proof -
  have "map (bit i) [0..<Suc k] = odd i # map (bit (i div 2)) [0..<k]"
    by (simp add: upt_conv_Cons map_Suc_upt [symmetric] bit_0 bit_Suc comp_def del: upt_Suc)
  then show ?thesis by (simp add: rev_bits_def horner_sum_append)
qed

lemma lookup_table: "i < 2 ^ k \<Longrightarrow> k \<le> 8 \<Longrightarrow> unat (lookup_table k ! i) = rev_bits k i"
  by (rule nat_bit_eqI)
    (auto simp: lookup_table_def bit_unsigned_iff bit_ucast_iff bit_drop_bit_eq bit_word_reverse_iff bit_of_nat_iff
      bit_rev_bits less_iff_bits)

lemma length_lookup_table: "length (lookup_table k) = 2 ^ k"
  by (simp add: lookup_table_def)

lemma table_lengths [simp]:
  "length TINY_BITREVERSE_LOOKUP_TABLE = 8" "length SMALL_BITREVERSE_LOOKUP_TABLE = 64"
  "length MEDIUM_BITREVERSE_LOOKUP_TABLE = 256"
  by (simp_all add: TINY_BITREVERSE_LOOKUP_TABLE_def SMALL_BITREVERSE_LOOKUP_TABLE_def
      MEDIUM_BITREVERSE_LOOKUP_TABLE_def lookup_table_def)

lemma drop_rev_bits: "k \<le> m \<Longrightarrow> drop_bit (m - k) (rev_bits m i) = rev_bits k i"
  by (rule nat_bit_eqI) (auto simp: bit_drop_bit_eq bit_rev_bits intro: arg_cong [of _ _ "bit i"])

lemma bit_medium_lookup: "bit (medium_lookup b) n \<longleftrightarrow> n < 8 \<and> bit b (7 - n)"
proof -
  have "unat b < 2 ^ 8" using unsigned_less [of b, where ?'a = nat] by simp
  from lookup_table [OF this] have "unat (medium_lookup b) = rev_bits 8 (unat b)"
    by (simp add: medium_lookup_def MEDIUM_BITREVERSE_LOOKUP_TABLE_def)
  then have "bit (unat (medium_lookup b)) n \<longleftrightarrow> bit (rev_bits 8 (unat b)) n" by simp
  then show ?thesis by (simp add: bit_unsigned_iff bit_rev_bits)
qed

lemma bit_from_le_bytes:
  "bit (from_le_bytes [a, b, c, d]) n \<longleftrightarrow>
     (if n < 8 then bit a n else if n < 16 then bit b (n - 8) else if n < 24 then bit c (n - 16)
      else n < 32 \<and> bit d (n - 24))"
  by (auto simp: from_le_bytes_def bit_or_iff bit_push_bit_iff bit_ucast_iff dest: bit_imp_le_length)

lemma to_le_bytes_4: "to_le_bytes w = [ucast w, ucast (drop_bit 8 w), ucast (drop_bit 16 w), ucast (drop_bit 24 w)]"
  by (simp add: to_le_bytes_def upt_rec)

lemma to_from_le_bytes [simp]: "to_le_bytes (from_le_bytes [a, b, d, e]) = [a, b, d, e]"
  unfolding to_le_bytes_4
  by (simp, intro conjI bit_word_eqI; auto simp: bit_ucast_iff bit_drop_bit_eq bit_from_le_bytes)

lemma bytes_swapped: "to_le_bytes (swap_bytes w) = rev (to_le_bytes w)"
  by (simp add: to_le_bytes_4 swap_bytes_def)
    (intro conjI bit_word_eqI; auto simp: bit_ucast_iff bit_drop_bit_eq bit_from_le_bytes)

lemma reverse_low_bytes:
  assumes "i < 2 ^ c" and "c \<le> 24"
  shows "reverse_low_bytes c i = rev_bits c i"
    "reverse_low_bytes c i = unat (drop_bit (32 - c) (word_reverse (of_nat i :: u32)))"
proof -
  have bits: "bit i n \<Longrightarrow> n < c" for n using assms(1) by (simp add: less_iff_bits)
  have low: "n < 8 \<Longrightarrow> bit i (31 - n) \<Longrightarrow> False" for n using bits [of "31 - n"] assms(2) by simp
  let ?bytes = "to_le_bytes (swap_bytes (of_nat i))"
  have "from_le_bytes [0, medium_lookup (?bytes ! 1), medium_lookup (?bytes ! 2), medium_lookup (?bytes ! 3)] =
      word_reverse (of_nat i :: u32)"
    unfolding bytes_swapped
    by (rule bit_word_eqI)
      (use bits assms(2) in \<open>auto simp: to_le_bytes_4 bit_from_le_bytes bit_medium_lookup bit_ucast_iff bit_drop_bit_eq
        bit_word_reverse_iff bit_of_nat_iff bit_0_eq dest: low\<close>)
  then show eq: "reverse_low_bytes c i = unat (drop_bit (32 - c) (word_reverse (of_nat i :: u32)))"
    by (simp add: reverse_low_bytes_def Let_def)
  show "reverse_low_bytes c i = rev_bits c i"
    unfolding eq
    by (rule nat_bit_eqI)
      (use bits assms(2) in \<open>auto simp: bit_unsigned_iff bit_drop_bit_eq bit_word_reverse_iff bit_of_nat_iff bit_rev_bits\<close>)
qed

lemma reverse_all_bytes:
  assumes "k \<le> 32"
  shows "reverse_all_bytes k i = rev_bits k i"
proof -
  let ?bytes = "to_le_bytes (swap_bytes (of_nat i))"
  have eq: "from_le_bytes (map medium_lookup [?bytes ! 0, ?bytes ! 1, ?bytes ! 2, ?bytes ! 3]) =
      word_reverse (of_nat i :: u32)"
    unfolding bytes_swapped
    by (rule bit_word_eqI)
      (auto simp: to_le_bytes_4 bit_from_le_bytes bit_medium_lookup bit_ucast_iff bit_drop_bit_eq
        bit_word_reverse_iff bit_of_nat_iff)
  then have "reverse_all_bytes k i = unat (drop_bit (32 - k) (word_reverse (of_nat i :: u32)))"
    by (simp add: reverse_all_bytes_def Let_def)
  also have "\<dots> = rev_bits k i"
    by (rule nat_bit_eqI)
      (use assms in \<open>auto simp: bit_unsigned_iff bit_drop_bit_eq bit_word_reverse_iff bit_of_nat_iff bit_rev_bits\<close>)
  finally show ?thesis .
qed

lemma bitreverse_index_eq: "k \<le> 64 \<Longrightarrow> bitreverse_index i k = rev_bits k i"
  by (rule nat_bit_eqI)
    (auto simp: bitreverse_index_def bit_unsigned_iff bit_word_reverse_iff bit_push_bit_iff bit_of_nat_iff bit_rev_bits)

lemma usize_trailing_zeros: "k < 64 \<Longrightarrow> usize_trailing_zeros (2 ^ k) = k"
proof -
  assume k: "k < 64"
  have "[0..<64] = [0..<k] @ k # [Suc k..<64]"
    using upt_add_eq_append [of 0 k "64 - k"] k upt_conv_Cons [of k 64] by simp
  moreover have "bit (of_nat (2 ^ k) :: u64) i \<longleftrightarrow> i = k" for i using k by (auto simp: bit_simps)
  ultimately have "takeWhile (\<lambda>i. \<not> bit (of_nat (2 ^ k) :: u64) i) [0..<64] = [0..<k]"
    by (simp only: takeWhile_append) simp
  then show ?thesis by (simp add: usize_trailing_zeros_def ctz64_def)
qed

section \<open>The loops\<close>

text \<open>
  Each loop visits every index once and swaps it with its reverse when it is the chosen one of the two.
  What comes out does not depend on the order of the visits.
\<close>

lemma swap_unchecked_sym: "swap_unchecked i j xs = swap_unchecked j i xs"
  by (cases "i = j") (simp_all add: swap_unchecked_def list_update_swap conj_commute)

lemma nth_swapped:
  "i < length xs \<Longrightarrow> j < length xs \<Longrightarrow> x < length xs \<Longrightarrow>
     xs[i := xs ! j, j := xs ! i] ! x = (if x = i then xs ! j else if x = j then xs ! i else xs ! x)"
  by (auto simp: nth_list_update)

lemma swaps:
  assumes f: "\<And>x. x < n \<Longrightarrow> f x < n \<and> f (f x) = x"
    and sel: "\<And>x. x < n \<Longrightarrow> f x \<noteq> x \<Longrightarrow> sel x = (\<not> sel (f x))"
    and "distinct ds" and "set ds \<subseteq> {..<n}" and len: "length xs = n"
  shows "foldR (\<lambda>d. swap_if (sel d) d (f d)) ds xs =
    Inr (map (\<lambda>x. if x \<in> set ds \<and> sel x \<or> f x \<in> set ds \<and> sel (f x) then xs ! f x else xs ! x) [0..<n])"
  using assms(3,4)
proof (induction ds rule: rev_induct)
  case Nil
  then show ?case by (simp add: len [symmetric] map_nth)
next
  case (snoc d ds)
  let ?ys = "map (\<lambda>x. if x \<in> set ds \<and> sel x \<or> f x \<in> set ds \<and> sel (f x) then xs ! f x else xs ! x) [0..<n]"
  let ?zs = "map (\<lambda>x. if x \<in> set (ds @ [d]) \<and> sel x \<or> f x \<in> set (ds @ [d]) \<and> sel (f x) then xs ! f x else xs ! x) [0..<n]"
  have d: "d < n" "d \<notin> set ds" "f d < n" "f (f d) = d" using snoc.prems f [of d] by auto
  have "swap_if (sel d) d (f d) ?ys = Inr ?zs"
  proof (cases "sel d")
    case False
    have "?ys = ?zs" using False f by (intro map_cong) (auto split: if_splits)
    with False show ?thesis by (simp add: swap_if_def)
  next
    case True
    have nd: "\<not> (f d \<in> set ds \<and> sel (f d))" using sel [OF d(1)] True d by (cases "f d = d") auto
    have old: "?ys ! d = xs ! d" "?ys ! f d = xs ! f d" using d nd by auto
    have "?ys[d := ?ys ! f d, f d := ?ys ! d] = ?zs"
    proof (rule nth_equalityI)
      fix x assume "x < length (?ys[d := ?ys ! f d, f d := ?ys ! d])"
      then have x: "x < n" by simp
      have fx: "f x = d \<longleftrightarrow> x = f d" using f [OF x] d(4) by auto
      show "?ys[d := ?ys ! f d, f d := ?ys ! d] ! x = ?zs ! x"
        using x d True fx old nth_swapped [of d ?ys "f d" x] by auto
    qed simp
    with True d show ?thesis by (simp add: swap_if_def swap_unchecked_def)
  qed
  with snoc show ?case by (simp add: foldR_append)
qed

definition reversed :: "nat \<Rightarrow> 'a list \<Rightarrow> 'a list" where
  "reversed k xs = map (\<lambda>i. xs ! rev_bits k i) [0..<2 ^ k]"

lemma swaps_reversed:
  assumes "length xs = 2 ^ k" and "distinct ds" and "set ds = {..<2 ^ k}"
    and "\<And>x. x < 2 ^ k \<Longrightarrow> rev_bits k x \<noteq> x \<Longrightarrow> sel x = (\<not> sel (rev_bits k x))"
  shows "foldR (\<lambda>d. swap_if (sel d) d (rev_bits k d)) ds xs = Inr (reversed k xs)"
proof -
  have f: "rev_bits k x < 2 ^ k \<and> rev_bits k (rev_bits k x) = x" if "x < 2 ^ k" for x
    using that by (simp add: rev_bits_less rev_bits_rev_bits)
  have sub: "set ds \<subseteq> {..<2 ^ k}" using assms(3) by simp
  have "(if x \<in> set ds \<and> sel x \<or> rev_bits k x \<in> set ds \<and> sel (rev_bits k x) then xs ! rev_bits k x else xs ! x) =
      xs ! rev_bits k x" if "x < 2 ^ k" for x
    using that f [OF that] assms(3) assms(4) [OF that] by (cases "rev_bits k x = x") auto
  then show ?thesis
    using swaps [where f = "rev_bits k" and n = "2 ^ k" and sel = sel, OF f assms(4,2) sub assms(1)]
    by (simp add: reversed_def cong: map_cong)
qed

lemma reversed_reversed: "length xs = 2 ^ k \<Longrightarrow> reversed k (reversed k xs) = xs"
  by (rule nth_equalityI) (simp_all add: reversed_def rev_bits_less rev_bits_rev_bits)

lemma chosen_one: "f (f x) = x \<Longrightarrow> f x \<noteq> x \<Longrightarrow> (x < f x) = (\<not> f x < f (f x))" for x :: nat
  by auto

lemma reversed_chosen:
  assumes "x < 2 ^ k" and "rev_bits k x \<noteq> x"
  shows "(x < rev_bits k x) = (\<not> rev_bits k x < rev_bits k (rev_bits k x))"
    "(rev_bits k x < x) = (\<not> rev_bits k (rev_bits k x) < rev_bits k x)"
  using assms by (auto simp: rev_bits_rev_bits)

lemma power_of_two_length: "k < 64 \<Longrightarrow> is_power_of_two (2 ^ k)"
  by (auto simp: is_power_of_two_def)

lemma via_lookup:
  assumes "length input = 2 ^ k" and "k \<le> m" and "m \<le> 8" and "table = lookup_table m"
  shows "via_lookup m table input = Inr (reversed k input)"
proof -
  have len: "length input \<le> 2 ^ m" using assms(1,2) by simp
  have tz: "usize_trailing_zeros (2 ^ k) = k" using assms(2,3) by (simp add: usize_trailing_zeros)
  have "foldR (\<lambda>i. let j = drop_bit (m - k) (unat (table ! i)) in swap_if (i < j) i j) [0..<length input] input =
      foldR (\<lambda>i. swap_if (i < rev_bits k i) i (rev_bits k i)) [0..<2 ^ k] input"
  proof (rule foldR_cong)
    fix i a assume "i \<in> set [0..<2 ^ k]"
    then have "i < length input" using assms(1) by simp
    then have "i < 2 ^ m" using len by (rule less_le_trans)
    then show "(let j = drop_bit (m - k) (unat (table ! i)) in swap_if (i < j) i j) a =
        swap_if (i < rev_bits k i) i (rev_bits k i) a"
      using assms(2,3) by (simp add: assms(4) lookup_table drop_rev_bits Let_def)
  qed (simp add: assms(1))
  also have "\<dots> = Inr (reversed k input)"
    by (rule swaps_reversed) (use assms(1) reversed_chosen(1) in auto)
  finally show ?thesis
    using len assms by (simp add: via_lookup_def tz power_of_two_length length_lookup_table)
qed

lemma simple_loop:
  assumes "length xs = 2 ^ k" and "k \<le> 31" and "distinct ds" and "set ds = {..<2 ^ k}"
  shows "foldR (simple_step k) ds xs = Inr (reversed k xs)"
proof -
  have "foldR (simple_step k) ds xs = foldR (\<lambda>i. swap_if (rev_bits k i < i) i (rev_bits k i)) ds xs"
    using assms(2) by (intro foldR_cong) (simp_all add: simple_step_def reverse_all_bytes Let_def)
  also have "\<dots> = Inr (reversed k xs)"
    using assms reversed_chosen(2) by (intro swaps_reversed) auto
  finally show ?thesis .
qed

text \<open>The two nested loops visit \<open>i + j * 2 ^ c\<close>.\<close>

lemma joined_index: "i < 2 ^ c \<Longrightarrow> i OR push_bit c j = i + j * 2 ^ c" for i j :: nat
proof -
  assume "i < 2 ^ c"
  then have "bit i n \<Longrightarrow> \<not> c \<le> n" for n by (simp add: less_iff_bits not_le)
  then have "i AND push_bit c j = 0" by (intro nat_bit_eqI) (auto simp: bit_and_iff bit_push_bit_iff)
  then show ?thesis using disjunctive_add_eq_or [of i "push_bit c j"] by (simp add: push_bit_eq_mult)
qed

lemma joined_reverse:
  assumes "i < 2 ^ c" and "j < 8"
  shows "rev_bits (c + 3) (i OR push_bit c j) = rev_bits 3 j OR push_bit 3 (rev_bits c i)"
proof (rule nat_bit_eqI)
  fix n
  have i: "bit i m \<Longrightarrow> m < c" for m using assms(1) by (simp add: less_iff_bits)
  have j: "bit j m \<Longrightarrow> m < 3" for m using assms(2) less_iff_bits [of j 3] by simp
  show "bit (rev_bits (c + 3) (i OR push_bit c j)) n \<longleftrightarrow> bit (rev_bits 3 j OR push_bit 3 (rev_bits c i)) n"
    using i [of "c + 2 - n"] j [of "2 - n"]
    by (auto simp: bit_rev_bits bit_or_iff bit_push_bit_iff)
qed

lemma optimized_loop:
  assumes "length xs = 2 ^ (c + 3)" and "c \<le> 24" and "distinct ds" and "set ds = {..<2 ^ c}"
  shows "foldR (optimized_step c) ds xs = Inr (reversed (c + 3) xs)"
proof -
  let ?k = "c + 3" and ?join = "\<lambda>(i :: nat, j). i OR push_bit c j"
  let ?pairs = "concat (map (\<lambda>i. map (Pair i) [0..<8]) ds)" and ?f = "\<lambda>d. swap_if (d < rev_bits (c + 3) d) d (rev_bits (c + 3) d)"
  have tiny: "unat (TINY_BITREVERSE_LOOKUP_TABLE ! j) = rev_bits 3 j" if "j < 8" for j
    using lookup_table [of j 3] that by (simp add: TINY_BITREVERSE_LOOKUP_TABLE_def)
  have "foldR (optimized_step c) ds xs = foldR (\<lambda>i. foldR (\<lambda>j. ?f (?join (i, j))) [0..<8]) ds xs"
  proof (intro foldR_cong refl)
    fix i a assume "i \<in> set ds"
    then have i: "i < 2 ^ c" using assms(4) by simp
    show "optimized_step c i a = foldR (\<lambda>j. ?f (?join (i, j))) [0..<8] a"
      unfolding optimized_step_def Let_def reverse_low_bytes(1) [OF i assms(2)]
      using i by (intro foldR_cong) (auto simp: tiny joined_reverse swap_unchecked_sym swap_if_def)
  qed
  also have "\<dots> = foldR (\<lambda>p. ?f (?join p)) ?pairs xs"
    by (simp only: foldR_concat) (simp add: case_prod_unfold)
  also have "\<dots> = foldR ?f (map ?join ?pairs) xs" by (simp only: foldR_map)
  also have "\<dots> = Inr (reversed ?k xs)"
  proof (rule swaps_reversed [OF assms(1)])
    have pairs: "?pairs = List.product ds [0..<8]" by (simp add: product_concat_map)
    have join: "?join p = fst p + snd p * 2 ^ c" if "p \<in> {..<2 ^ c} \<times> {..<8}" for p
      using that joined_index by (auto simp: case_prod_unfold)
    have inj: "inj_on ?join ({..<2 ^ c} \<times> {..<8})"
    proof (rule inj_onI)
      fix p q assume p: "p \<in> {..<2 ^ c} \<times> {..<8}" and q: "q \<in> {..<2 ^ c} \<times> {..<8}" and "?join p = ?join q"
      then have "fst p + snd p * 2 ^ c = fst q + snd q * 2 ^ c" by (simp only: join)
      then have "(fst p + snd p * 2 ^ c) mod 2 ^ c = (fst q + snd q * 2 ^ c) mod 2 ^ c"
        "(fst p + snd p * 2 ^ c) div 2 ^ c = (fst q + snd q * 2 ^ c) div 2 ^ c" by simp_all
      then show "p = q" using p q by (auto simp: prod_eq_iff)
    qed
    show "distinct (map ?join ?pairs)"
      unfolding pairs using assms(3,4) inj by (simp add: distinct_map distinct_product atLeast0LessThan)
    show "set (map ?join ?pairs) = {..<2 ^ ?k}"
    proof
      show "set (map ?join ?pairs) \<subseteq> {..<2 ^ ?k}"
      proof
        fix x assume "x \<in> set (map ?join ?pairs)"
        then obtain i j where "x = i + j * 2 ^ c" "i < 2 ^ c" "j < 8"
          using assms(4) join by (auto simp: pairs)
        moreover from this(3) have "j * 2 ^ c \<le> 7 * 2 ^ c" by (intro mult_right_mono) simp_all
        ultimately have "x < 2 ^ c * 8" by linarith
        then show "x \<in> {..<2 ^ ?k}" by (simp add: power_add)
      qed
      show "{..<2 ^ ?k} \<subseteq> set (map ?join ?pairs)"
      proof
        fix x :: nat assume "x \<in> {..<2 ^ ?k}"
        then have "x < 8 * 2 ^ c" by (simp add: power_add)
        then have p: "(x mod 2 ^ c, x div 2 ^ c) \<in> {..<2 ^ c} \<times> {..<8}" by (simp add: less_mult_imp_div_less)
        then have eq: "?join (x mod 2 ^ c, x div 2 ^ c) = x" using join [OF p] by (simp only: fst_conv snd_conv mod_mult_div_eq [of x "2 ^ c"] mod_div_mult_eq)
        have "(x mod 2 ^ c, x div 2 ^ c) \<in> set ?pairs" using p by (simp add: pairs assms(4))
        from imageI [OF this, of ?join] show "x \<in> set (map ?join ?pairs)" unfolding eq set_map .
      qed
    qed
  qed (rule reversed_chosen(1))
  finally show ?thesis .
qed

text \<open>All of them on a slice of \<open>2 ^ k\<close> elements.\<close>

lemma length_cases:
  assumes "k < 64"
  obtains "k \<le> 6" "(2 :: nat) ^ k \<le> 64"
    | "6 < k" "k \<le> 8" "\<not> (2 :: nat) ^ k \<le> 64" "(2 :: nat) ^ k \<le> 256"
    | c where "k = c + 3" "5 < c" "c \<le> 24" "\<not> (2 :: nat) ^ k \<le> 64" "\<not> (2 :: nat) ^ k \<le> 256" "(2 :: nat) ^ k \<le> 2 ^ 27"
    | "27 < k" "\<not> (2 :: nat) ^ k \<le> 64" "\<not> (2 :: nat) ^ k \<le> 256" "\<not> (2 :: nat) ^ k \<le> 2 ^ 27"
proof -
  have le: "(2 :: nat) ^ k \<le> 2 ^ m \<longleftrightarrow> k \<le> m" for m by simp
  have "(2 :: nat) ^ k \<le> 64 \<longleftrightarrow> k \<le> 6" "(2 :: nat) ^ k \<le> 256 \<longleftrightarrow> k \<le> 8"
    using le [of 6] le [of 8] by simp_all
  with le [of 27] that(1,2,4) that(3) [of "k - 3"] show thesis by (cases "k \<le> 6"; cases "k \<le> 8"; cases "k \<le> 27") auto
qed

lemma optimized_bitreverse:
  assumes "length input = 2 ^ (c + 3)" and "5 < c" and "c \<le> 24"
  shows "optimized_bitreverse_enumeration_inplace cf input = Inr (reversed (c + 3) input)"
    "n \<noteq> 0 \<Longrightarrow> parallel_optimized_bitreverse_enumeration_inplace n input = Inr (reversed (c + 3) input)"
proof -
  have tz: "usize_trailing_zeros (length input) = c + 3" unfolding assms(1) using assms(3) by (intro usize_trailing_zeros) simp
  have "(2 :: nat) ^ 9 \<le> 2 ^ (c + 3)" "(2 :: nat) ^ (c + 3) \<le> 2 ^ 27" using assms(2,3) by (intro power_increasing; simp)+
  then have len: "256 < length input" "8 < length input" "length input \<le> 2 ^ 27" unfolding assms(1) by simp_all
  have pow2: "is_power_of_two (length input)" unfolding assms(1) using assms(3) by (intro power_of_two_length) simp
  have loop: "foldR (optimized_step c) [0..<2 ^ c] input = Inr (reversed (c + 3) input)"
    using optimized_loop [OF assms(1,3), of "[0..<2 ^ c]"] by (simp add: atLeast0LessThan)
  have "foldR (\<lambda>i a. debug_assert (debug_assertions cf)
        (reverse_low_bytes c i = unat (drop_bit (32 - c) (word_reverse (of_nat i :: u32)))) (optimized_step c i a)) [0..<2 ^ c] input =
      foldR (optimized_step c) [0..<2 ^ c] input"
    by (rule foldR_cong) (use reverse_low_bytes(2) [OF _ assms(3)] in auto)
  with loop show "optimized_bitreverse_enumeration_inplace cf input = Inr (reversed (c + 3) input)"
    using len by (simp add: optimized_bitreverse_enumeration_inplace_def tz pow2)
  assume "n \<noteq> 0"
  obtain g where "get_geometry_for_num_cores n (2 ^ c) = Inr g"
    "foldR (\<lambda>chunk_idx a. bindR (chunk_range g chunk_idx) (\<lambda>range. foldR (optimized_step c) range a)) [0..<num_chunks g] input =
       foldR (optimized_step c) [0..<2 ^ c] input"
    using geometry_loop [OF \<open>n \<noteq> 0\<close>, of "2 ^ c"] by (metis power_not_zero zero_neq_numeral)
  with loop len show "parallel_optimized_bitreverse_enumeration_inplace n input = Inr (reversed (c + 3) input)"
    by (simp add: parallel_optimized_bitreverse_enumeration_inplace_def in_chunks_def tz pow2)
qed

lemma simple_bitreverse:
  assumes "length input = 2 ^ k" and "8 < k" and "k \<le> 31"
  shows "simple_bitreverse_enumeration_inplace input = Inr (reversed k input)"
    "n \<noteq> 0 \<Longrightarrow> parallel_simple_bitreverse_enumeration_inplace n input = Inr (reversed k input)"
proof -
  have tz: "usize_trailing_zeros (length input) = k" unfolding assms(1) using assms(3) by (intro usize_trailing_zeros) simp
  have "(2 :: nat) ^ 9 \<le> 2 ^ k" "(2 :: nat) ^ k \<le> 2 ^ 31" using assms(2,3) by (intro power_increasing; simp)+
  then have len: "256 < length input" "length input \<le> 2 ^ 31" unfolding assms(1) by simp_all
  have pow2: "is_power_of_two (length input)" unfolding assms(1) using assms(3) by (intro power_of_two_length) simp
  have loop: "foldR (simple_step k) [0..<length input] input = Inr (reversed k input)"
    using simple_loop [OF assms(1,3), of "[0..<length input]"] by (simp add: atLeast0LessThan assms(1))
  with len show "simple_bitreverse_enumeration_inplace input = Inr (reversed k input)"
    by (simp add: simple_bitreverse_enumeration_inplace_def tz pow2)
  assume "n \<noteq> 0"
  have "length input \<noteq> 0" using len(1) by linarith
  with \<open>n \<noteq> 0\<close> obtain g where "get_geometry_for_num_cores n (length input) = Inr g"
    "foldR (\<lambda>chunk_idx a. bindR (chunk_range g chunk_idx) (\<lambda>range. foldR (simple_step k) range a)) [0..<num_chunks g] input =
       foldR (simple_step k) [0..<length input] input"
    using geometry_loop by metis
  with loop len show "parallel_simple_bitreverse_enumeration_inplace n input = Inr (reversed k input)"
    by (simp add: parallel_simple_bitreverse_enumeration_inplace_def in_chunks_def tz pow2)
qed

lemma bitreverse_reversed:
  assumes "length input = 2 ^ k" and "k \<le> 31" and "n \<noteq> 0"
  shows "bitreverse_enumeration_inplace cf input = Inr (reversed k input) \<and>
    parallel_bitreverse_enumeration_inplace n input = Inr (reversed k input)"
proof -
  have k: "k < 64" using assms(2) by simp
  have pow2: "is_power_of_two (length input)" unfolding assms(1) by (rule power_of_two_length [OF k])
  have ne: "length input \<noteq> 0" using assms(1) by simp
  note defs = bitreverse_enumeration_inplace_def parallel_bitreverse_enumeration_inplace_def
  from k show ?thesis
  proof (cases k rule: length_cases)
    case 1
    then show ?thesis
      using via_lookup [OF assms(1), of 6] ne pow2
      by (simp add: defs via_small_lookup_def SMALL_BITREVERSE_LOOKUP_TABLE_def [symmetric] assms(1))
  next
    case 2
    then show ?thesis
      using via_lookup [OF assms(1), of 8] ne pow2
      by (simp add: defs via_medium_lookup_def MEDIUM_BITREVERSE_LOOKUP_TABLE_def [symmetric] assms(1))
  next
    case (3 c)
    then show ?thesis
      using optimized_bitreverse(1) [of input c] optimized_bitreverse(2) [of input c] ne pow2 assms(1,3) by (simp add: defs)
  next
    case 4
    then show ?thesis
      using simple_bitreverse(1) [OF assms(1)] simple_bitreverse(2) [OF assms(1) _ _ assms(3)] ne pow2 assms(2,3) by (simp add: defs assms(1))
  qed
qed

section \<open>Properties\<close>


definition debug_build :: cfg where
  "debug_build = \<lparr> debug_assertions = True, fuzzing_support = False, rom_bits = 6 \<rparr>"


end
