(* ===== verification/Domains.thy ===== *)
theory Domains
  imports FieldUtils Bitreverse
begin

text \<open>
  Powers of an element, serial and in parallel, and the generators of the domains of size \<open>2 ^ k\<close>
  (\<open>fft/src/field_utils.rs\<close>, the constants of \<open>field/src/complex.rs\<close>).
\<close>

section \<open>Powers\<close>

text \<open>\<open>mulb\<close> is the multiplication by an element of the base field.\<close>

fun distribute_powers_serial :: "'f field_ops \<Rightarrow> ('e \<Rightarrow> 'f \<Rightarrow> 'e) \<Rightarrow> 'e list \<Rightarrow> 'f \<Rightarrow> 'f \<Rightarrow> 'e list" where
  "distribute_powers_serial F mulb [] shift element_step = []"
| "distribute_powers_serial F mulb (x # input) shift element_step =
     mulb x shift # distribute_powers_serial F mulb input (f_mul F shift element_step) element_step"

primrec powers_from :: "'f field_ops \<Rightarrow> 'f \<Rightarrow> 'f \<Rightarrow> nat \<Rightarrow> 'f list" where
  "powers_from F current step 0 = []"
| "powers_from F current step (Suc n) = current # powers_from F (f_mul F current step) step n"

definition materialize_powers_serial_impl :: "'f field_ops \<Rightarrow> 'f \<Rightarrow> nat \<Rightarrow> bool \<Rightarrow> 'f list" where
  "materialize_powers_serial_impl F base sz start_with_one =
     powers_from F (if start_with_one then f_one F else base) base sz"

definition materialize_powers_serial_starting_with_one :: "'f field_ops \<Rightarrow> 'f \<Rightarrow> nat \<Rightarrow> 'f list" where
  "materialize_powers_serial_starting_with_one F base sz = materialize_powers_serial_impl F base sz True"

definition materialize_powers_serial_starting_with_elem :: "'f field_ops \<Rightarrow> 'f \<Rightarrow> nat \<Rightarrow> 'f list" where
  "materialize_powers_serial_starting_with_elem F base sz = materialize_powers_serial_impl F base sz False"

text \<open>
  Each thread writes the powers of its chunk of the storage, from \<open>current\<close>, which it computes from the
  chunk's start position (as a \<open>u32\<close>).
\<close>

definition write_powers ::
  "'f field_ops \<Rightarrow> WorkerGeometry \<Rightarrow> ('f \<Rightarrow> 'f) \<Rightarrow> 'f \<Rightarrow> nat \<times> unit list \<Rightarrow> 'f list \<Rightarrow> 'f list res" where
  "write_powers F geometry initial step chunk storage =
     bindR (get_chunk_start_pos geometry (fst chunk)) (\<lambda>start.
       Inr (storage @ powers_from F (initial (f_pow F step (of_nat start))) step (length (snd chunk))))"

definition materialize_in_chunks :: "'f field_ops \<Rightarrow> nat \<Rightarrow> ('f \<Rightarrow> 'f) \<Rightarrow> 'f \<Rightarrow> nat \<Rightarrow> 'f list res" where
  "materialize_in_chunks F num_cores initial step sz =
     (if sz = 0 then Inr []
      else guardR (is_power_of_two sz) AssertFailed
        (bindR (get_geometry_for_num_cores num_cores sz) (\<lambda>geometry.
         bindR (chunks_for_geometry geometry (replicate sz ())) (\<lambda>chunks.
         foldR (write_powers F geometry initial step) (enumerate 0 chunks) []))))"

definition materialize_powers_parallel :: "'f field_ops \<Rightarrow> nat \<Rightarrow> 'f \<Rightarrow> 'f \<Rightarrow> nat \<Rightarrow> 'f list res" where
  "materialize_powers_parallel F num_cores first_element step sz =
     materialize_in_chunks F num_cores (\<lambda>current. f_mul F current first_element) step sz"

definition materialize_powers_parallel_starting_with_one :: "'f field_ops \<Rightarrow> nat \<Rightarrow> 'f \<Rightarrow> nat \<Rightarrow> 'f list res" where
  "materialize_powers_parallel_starting_with_one F num_cores base sz =
     materialize_in_chunks F num_cores (\<lambda>current. current) base sz"

section \<open>Generators\<close>

primrec no_ones :: "'f field_ops \<Rightarrow> 'f \<Rightarrow> nat \<Rightarrow> bool" where
  "no_ones F t 0 = True"
| "no_ones F t (Suc n) = (\<not> f_eq F t (f_one F) \<and> no_ones F (f_square F t) n)"

primrec square_down :: "'f field_ops \<Rightarrow> u64 \<Rightarrow> 'f \<Rightarrow> nat \<Rightarrow> 'f res" where
  "square_down F sz omega 0 = Inr omega"
| "square_down F sz omega (Suc n) =
     (let omega = f_square F omega in
      if sz \<noteq> 1 \<and> f_eq F omega (f_one F) then Inl AssertFailed else square_down F sz omega n)"

definition domain_generator_for_size :: "cfg \<Rightarrow> 'f field_ops \<Rightarrow> nat \<Rightarrow> 'f \<Rightarrow> u64 \<Rightarrow> 'f res" where
  "domain_generator_for_size c F two_adicity two_adic_generator sz =
     debug_assert (debug_assertions c) (is_power_of_two (unat sz))
     (debug_assert (debug_assertions c) (ctz64 sz \<le> two_adicity)
      (guardR (f_eq F (f_exp_power_of_2 F two_adic_generator two_adicity) (f_one F)) AssertFailed
       (guardR (no_ones F two_adic_generator (two_adicity - 1)) AssertFailed
        (bindR (square_down F sz two_adic_generator (two_adicity - ctz64 sz)) (\<lambda>omega.
         guardR (f_eq F (f_pow F omega (ucast sz)) (f_one F)) AssertFailed (Inr omega))))))"

definition TWO_ADICITY :: nat where "TWO_ADICITY = 31"

definition TWO_ADIC_GENERATOR :: complex31 where
  "TWO_ADIC_GENERATOR = \<lparr> cx0 = 311014874, cx1 = 1584694829 \<rparr>"

function generators_loop :: "complex31 field_ops \<Rightarrow> nat \<Rightarrow> complex31 \<Rightarrow> complex31 list \<Rightarrow> complex31 list" where
  "generators_loop K i current result =
     (if i < 31 then generators_loop K (i + 1) (f_square K current) (result[31 - i := current])
      else result[0 := current])"
  by pat_completeness auto
termination by (relation "measure (\<lambda>(_, i, _). 31 - i)") auto

declare generators_loop.simps [simp del]

definition TWO_ADICITY_GENERATORS :: "complex31 field_ops \<Rightarrow> complex31 list" where
  "TWO_ADICITY_GENERATORS K = generators_loop K 0 TWO_ADIC_GENERATOR (replicate 32 (f_zero K))"

definition TWO_ADICITY_GENERATORS_INVERSED :: "complex31 field_ops \<Rightarrow> complex31 option list" where
  "TWO_ADICITY_GENERATORS_INVERSED K = map (f_inverse K) (TWO_ADICITY_GENERATORS K)"

section \<open>What they compute\<close>

context field_impl
begin

lemma powers_from:
  assumes "ok a" and "ok step"
  shows "list_all ok (powers_from F a step n) \<and> map val (powers_from F a step n) = map (\<lambda>i. val a * val step ^ i) [0..<n]"
  using assms(1)
proof (induction n arbitrary: a)
  case (Suc n)
  have "ok (f_mul F a step)" using Suc.prems assms(2) by (simp add: mul)
  from Suc.IH [OF this] Suc.prems show ?case
    using assms(2) by (simp add: mul upt_conv_Cons map_Suc_upt [symmetric] mult.assoc del: upt_Suc)
qed simp

lemma write_powers:
  assumes "\<And>j. j < length cs \<Longrightarrow> get_chunk_start_pos g (n + j) = Inr (s + length (concat (take j cs)))"
    and "[] \<notin> set cs" and "s + length (concat cs) \<le> 2 ^ 32" and "ok step"
    and initial: "\<And>x. ok x \<Longrightarrow> ok (initial x) \<and> val (initial x) = val x * first"
  shows "\<exists>out. foldR (write_powers F g initial step) (enumerate n cs) storage = Inr (storage @ out) \<and>
    list_all ok out \<and> map val out = map (\<lambda>i. first * val step ^ i) [s..<s + length (concat cs)]"
  using assms(1-3)
proof (induction cs arbitrary: n s storage)
  case (Cons chunk cs)
  let ?a = "initial (f_pow F step (of_nat s))"
  have start: "get_chunk_start_pos g n = Inr s" using Cons.prems(1) [of 0] by simp
  have "s < 2 ^ 32" using Cons.prems(2,3) by (cases chunk) auto
  then have "unat (of_nat s :: u32) = s" by (simp add: unat_of_nat)
  then have a: "ok ?a" "val ?a = val step ^ s * first"
    using pow [OF assms(4), of "of_nat s"] initial by simp_all
  let ?out = "powers_from F ?a step (length chunk)"
  have shifted: "map f [s..<s + n] = map (\<lambda>i. f (i + s)) [0..<n]" for f :: "nat \<Rightarrow> 'b" and n
    using map_add_upt [of s n] by (simp add: add.commute flip: map_add_upt)
  have out: "list_all ok ?out" "map val ?out = map (\<lambda>i. first * val step ^ i) [s..<s + length chunk]"
    using powers_from [OF a(1) assms(4), of "length chunk"]
    by (simp_all add: a(2) shifted power_add mult_ac)
  have "get_chunk_start_pos g (Suc n + j) = Inr (s + length chunk + length (concat (take j cs)))" if "j < length cs" for j
    using Cons.prems(1) [of "Suc j"] that by (simp add: add.assoc)
  from Cons.IH [OF this, of "storage @ ?out"] Cons.prems(2,3) obtain out' where
    "foldR (write_powers F g initial step) (enumerate (Suc n) cs) (storage @ ?out) = Inr (storage @ ?out @ out')"
    "list_all ok out'" "map val out' = map (\<lambda>i. first * val step ^ i) [s + length chunk..<s + length chunk + length (concat cs)]"
    by auto
  moreover have "[s..<s + length (concat (chunk # cs))] =
      [s..<s + length chunk] @ [s + length chunk..<s + length chunk + length (concat cs)]"
    using upt_add_eq_append [of s "s + length chunk" "length (concat cs)"] by (simp add: add.assoc)
  ultimately show ?case using out start
    by (intro exI [of _ "?out @ out'"]) (simp add: write_powers_def [of F g initial step "(n, chunk)" storage])
qed simp

lemma materialize_in_chunks:
  assumes "num_cores \<noteq> 0" and "is_power_of_two sz" and "sz \<le> 2 ^ 32" and "ok step"
    and initial: "\<And>x. ok x \<Longrightarrow> ok (initial x) \<and> val (initial x) = val x * first"
  shows "\<exists>out. materialize_in_chunks F num_cores initial step sz = Inr out \<and> list_all ok out \<and>
    map val out = map (\<lambda>i. first * val step ^ i) [0..<sz]"
proof -
  have sz: "sz \<noteq> 0" using assms(2) by (auto simp: is_power_of_two_def)
  have "replicate sz () \<noteq> []" using sz by simp
  from geometry_cuts [OF assms(1) this] obtain g cs where
    cs: "get_geometry_for_num_cores num_cores sz = Inr g" "chunks_for_geometry g (replicate sz ()) = Inr cs"
      "concat cs = replicate sz ()" "[] \<notin> set cs"
      "\<And>j. j < length cs \<Longrightarrow> get_chunk_start_pos g j = Inr (length (concat (take j cs)))"
    by (metis length_replicate)
  have "\<exists>out. foldR (write_powers F g initial step) (enumerate 0 cs) [] = Inr ([] @ out) \<and>
      list_all ok out \<and> map val out = map (\<lambda>i. first * val step ^ i) [0..<0 + length (concat cs)]"
    using cs assms(3,4) initial by (intro write_powers) simp_all
  with cs sz assms(2) show ?thesis by (auto simp: materialize_in_chunks_def)
qed

lemma parallel_powers_serial:
  assumes "ok first_element" and "ok step" and "num_cores \<noteq> 0" and "is_power_of_two n" and "n \<le> 2 ^ 32"
  shows "(\<exists>out. materialize_powers_parallel F num_cores first_element step n = Inr out \<and>
       map val out = map (\<lambda>i. val first_element * val step ^ i) [0..<n]) \<and>
    (\<exists>out. materialize_powers_parallel F num_cores step step n = Inr out \<and>
       map val out = map val (materialize_powers_serial_starting_with_elem F step n)) \<and>
    (\<exists>out. materialize_powers_parallel_starting_with_one F num_cores step n = Inr out \<and>
       map val out = map val (materialize_powers_serial_starting_with_one F step n))"
proof -
  note chunks = materialize_in_chunks [OF assms(3-5,2)]
  have par: "\<exists>out. materialize_powers_parallel F num_cores x step n = Inr out \<and>
      map val out = map (\<lambda>i. val x * val step ^ i) [0..<n]" if "ok x" for x
    using chunks [of "\<lambda>current. f_mul F current x" "val x"] that
    by (auto simp: materialize_powers_parallel_def mul)
  have one: "\<exists>out. materialize_powers_parallel_starting_with_one F num_cores step n = Inr out \<and>
      map val out = map (\<lambda>i. 1 * val step ^ i) [0..<n]"
    using chunks [of "\<lambda>current. current" 1] by (auto simp: materialize_powers_parallel_starting_with_one_def)
  show ?thesis
    using par [OF assms(1)] par [OF assms(2)] one powers_from [OF assms(2,2)] powers_from [of "f_one F" step] assms(2)
    by (simp add: materialize_powers_serial_starting_with_elem_def materialize_powers_serial_starting_with_one_def
        materialize_powers_serial_impl_def ops)
qed

lemma distribute_powers:
  assumes "ok step" and "ok a" and "list_all ok xs" and "i < length xs"
  shows "val (distribute_powers_serial F (f_mul F) xs a step ! i) = val (xs ! i) * (val a * val step ^ i)"
  using assms(2-4)
proof (induction xs arbitrary: a i)
  case (Cons x xs)
  have "ok (f_mul F a step)" using Cons.prems assms(1) by (simp add: mul)
  then show ?case using Cons assms(1) by (cases i) (simp_all add: mul mult.assoc)
qed simp

lemma no_ones:
  "ok t \<Longrightarrow> no_ones F t n \<longleftrightarrow> (\<forall>j < n. val t ^ 2 ^ j \<noteq> 1)"
proof (induction n arbitrary: t)
  case (Suc n)
  have "val (f_square F t) ^ 2 ^ j = val t ^ 2 ^ Suc j" for j
    using Suc.prems by (simp add: square power_mult power2_eq_square)
  then have "no_ones F t (Suc n) \<longleftrightarrow> val t ^ 2 ^ 0 \<noteq> 1 \<and> (\<forall>j < n. val t ^ 2 ^ Suc j \<noteq> 1)"
    using Suc by (simp add: square eq one)
  then show ?case by (simp only: All_less_Suc2)
qed simp

lemma square_down:
  assumes "ok omega" and "sz = 1 \<or> (\<forall>j \<in> {1..n}. val omega ^ 2 ^ j \<noteq> 1)"
  shows "\<exists>r. square_down F sz omega n = Inr r \<and> ok r \<and> val r = val omega ^ 2 ^ n"
  using assms
proof (induction n arbitrary: omega)
  case (Suc n)
  have sq: "val (f_square F omega) ^ 2 ^ j = val omega ^ 2 ^ Suc j" for j
    using Suc.prems(1) by (simp add: square power_mult power2_eq_square)
  have "sz = 1 \<or> (\<forall>j \<in> {1..n}. val (f_square F omega) ^ 2 ^ j \<noteq> 1)"
    unfolding sq using Suc.prems(2) by (metis Suc_le_mono atLeastAtMost_iff le_SucI)
  moreover have "sz = 1 \<or> \<not> f_eq F (f_square F omega) (f_one F)"
    using Suc.prems sq [of 0] by (force simp: eq square one)
  ultimately show ?case
    using Suc.IH [of "f_square F omega"] Suc.prems(1) sq by (auto simp: square)
qed simp

end

text \<open>The generator of the largest domain, squared thirty times, is \<open>-1\<close>.\<close>

primrec square_pair :: "nat \<times> nat \<Rightarrow> nat \<Rightarrow> nat \<times> nat" where
  "square_pair p 0 = p"
| "square_pair p (Suc n) =
     (case p of (a, b) \<Rightarrow> square_pair ((a * a + (P - b) * b) mod P, 2 * a * b mod P) n)"

lemma square_pair:
  assumes "snd p \<le> P"
  shows "(case p of (a, b) \<Rightarrow> GF2 (of_nat a) (of_nat b)) ^ 2 ^ n =
    (case square_pair p n of (a, b) \<Rightarrow> GF2 (of_nat a) (of_nat b))"
  using assms
proof (induction n arbitrary: p)
  case (Suc n)
  obtain a b where p: "p = (a, b)" by (rule prod.exhaust)
  let ?q = "((a * a + (P - b) * b) mod P, 2 * a * b mod P)"
  have mod: "(of_nat (k mod P) :: gf) = of_nat k" for k by (simp add: of_nat_gf_eq)
  have "GF2 (of_nat a) (of_nat b) ^ 2 = GF2 (of_nat (fst ?q)) (of_nat (snd ?q))"
    using Suc.prems by (auto simp: p mod of_nat_complement power2_eq_square simp del: of_nat_mod intro!: gf2_eqI)
  then have "GF2 (of_nat a) (of_nat b) ^ 2 ^ Suc n = GF2 (of_nat (fst ?q)) (of_nat (snd ?q)) ^ 2 ^ n"
    by (simp only: power_Suc power_mult)
  also have "\<dots> = (case square_pair ?q n of (a, b) \<Rightarrow> GF2 (of_nat a) (of_nat b))"
    using Suc.IH [of ?q] by simp
  finally show ?case by (simp add: p)
qed simp

lemma square_pair_numeral:
  "square_pair (a, b) (numeral k) =
     square_pair ((a * a + (P - b) * b) mod P, 2 * a * b mod P) (pred_numeral k)"
  by (simp only: numeral_eq_Suc square_pair.simps prod.case)

lemma generator_ok: "complex_ok TWO_ADIC_GENERATOR"
  by (simp add: TWO_ADIC_GENERATOR_def complex_ok_def valid_def)

lemma generator_half: "complex_val TWO_ADIC_GENERATOR ^ 2 ^ 30 = - 1"
proof -
  have val: "complex_val TWO_ADIC_GENERATOR = GF2 (of_nat 311014874) (of_nat 1584694829)"
    by (simp add: TWO_ADIC_GENERATOR_def complex_val_def val31_def fv_def)
  have "square_pair (311014874, 1584694829) 30 = (2147483646, 0)"
    by (simp add: square_pair_numeral)
  with square_pair [of "(311014874, 1584694829)" 30]
  have "GF2 (of_nat 311014874) (of_nat 1584694829) ^ 2 ^ 30 = GF2 (of_nat 2147483646) (of_nat 0)" by simp
  moreover have "(of_nat 2147483646 :: gf) = - 1" using of_nat_complement [of 1] by simp
  ultimately show ?thesis unfolding val by (auto intro!: gf2_eqI)
qed

lemma generator_powers: "complex_val TWO_ADIC_GENERATOR ^ 2 ^ 31 = 1"
proof -
  have "complex_val TWO_ADIC_GENERATOR ^ 2 ^ 31 = (complex_val TWO_ADIC_GENERATOR ^ 2 ^ 30)\<^sup>2"
    unfolding power_mult [symmetric] by (rule arg_cong [where f = "(^) _"]) simp
  then show ?thesis by (simp only: generator_half power2_minus one_power2)
qed

lemma gf2_minus_one: "(1 :: gf2) \<noteq> - 1"
  using one_neq_minus_one by (auto dest: arg_cong [of _ _ re])

text \<open>An element with \<open>w ^ 2 ^ k = - 1\<close> has order \<open>2 ^ Suc k\<close>.\<close>

lemma order_dvd:
  fixes w :: "'r :: comm_ring_1"
  assumes "(1 :: 'r) \<noteq> - 1" and "w ^ 2 ^ k = - 1" and "w ^ n = 1"
  shows "2 ^ Suc k dvd n"
  using assms(2,3)
proof (induction k arbitrary: w n)
  case 0
  then show ?case using assms(1) by (cases "even n") (auto simp: power_minus_odd)
next
  case (Suc k)
  show ?case
  proof (cases "even n")
    case True
    then obtain m where n: "n = 2 * m" ..
    have "(w\<^sup>2) ^ 2 ^ k = - 1" using Suc.prems(1) by (simp only: power_mult [symmetric] power_Suc)
    moreover have "(w\<^sup>2) ^ m = 1" using Suc.prems(2) by (simp add: n power_mult)
    ultimately have "2 ^ Suc k dvd m" by (rule Suc.IH)
    then show ?thesis by (simp add: n mult_dvd_mono)
  next
    case False
    have "(w ^ 2 ^ Suc k) ^ n = (w ^ n) ^ 2 ^ Suc k" by (simp only: power_mult [symmetric] mult.commute)
    then have "(- 1 :: 'r) ^ n = 1" using Suc.prems by simp
    then show ?thesis using False assms(1) by (simp add: power_minus_odd)
  qed
qed

definition root_of_unity :: "nat \<Rightarrow> gf2" where
  "root_of_unity k = complex_val TWO_ADIC_GENERATOR ^ 2 ^ (31 - k)"

lemma root_order:
  assumes "k \<le> 31"
  shows "root_of_unity k ^ n = 1 \<longleftrightarrow> 2 ^ k dvd n"
proof
  have one: "root_of_unity k ^ 2 ^ k = 1"
    using assms generator_powers by (simp only: root_of_unity_def power_mult [symmetric] power_add [symmetric]) simp
  show "2 ^ k dvd n \<Longrightarrow> root_of_unity k ^ n = 1" using one by (auto simp: power_mult)
  assume n: "root_of_unity k ^ n = 1"
  show "2 ^ k dvd n"
  proof (cases k)
    case (Suc j)
    have "root_of_unity k ^ 2 ^ j = - 1"
      using assms Suc generator_half by (simp only: root_of_unity_def power_mult [symmetric] power_add [symmetric]) simp
    from order_dvd [OF gf2_minus_one this n] show ?thesis by (simp only: Suc)
  qed simp
qed

lemma square_of_root: "k \<le> 31 \<Longrightarrow> root_of_unity k ^ 2 ^ j = complex_val TWO_ADIC_GENERATOR ^ 2 ^ (31 - k + j)"
  by (simp only: root_of_unity_def power_mult [symmetric] power_add [symmetric])

lemma ctz64_one_shifted: "k < 64 \<Longrightarrow> ctz64 (push_bit k 1) = k"
  using usize_trailing_zeros [of k] by (simp add: usize_trailing_zeros_def push_bit_eq_mult)

text \<open>The table.\<close>

context quartic_halves
begin

lemma generators_loop:
  assumes "i \<le> 31" and "complex_ok current" and "length result = 32"
  shows "length (generators_loop K i current result) = 32 \<and>
    (\<forall>k \<le> 31. if k \<le> 31 - i
       then complex_ok (generators_loop K i current result ! k) \<and>
         complex_val (generators_loop K i current result ! k) = complex_val current ^ 2 ^ (31 - i - k)
       else generators_loop K i current result ! k = result ! k)"
  using assms
proof (induction "31 - i" arbitrary: i current result)
  case 0
  then have i: "i = 31" by simp
  then have "generators_loop K i current result = result[0 := current]" by (simp add: generators_loop.simps)
  then show ?case using 0 by (simp add: i nth_list_update)
next
  case (Suc d)
  let ?r = "result[31 - i := current]" and ?c = "f_square K current"
  have i: "i < 31" "d = 31 - (i + 1)" "i + 1 \<le> 31" using Suc.hyps(2) by simp_all
  have c: "complex_ok ?c" "complex_val ?c = complex_val current ^ 2"
    using half.square [OF Suc.prems(2)] by (simp_all add: power2_eq_square)
  define t where "t = generators_loop K (i + 1) ?c ?r"
  have t: "generators_loop K i current result = t" using i(1) by (simp add: t_def generators_loop.simps [of K i])
  have IH: "length t = 32" "\<And>k. k \<le> 31 - (i + 1) \<Longrightarrow> complex_ok (t ! k)"
    "\<And>k. k \<le> 31 - (i + 1) \<Longrightarrow> complex_val (t ! k) = complex_val ?c ^ 2 ^ (31 - (i + 1) - k)"
    "\<And>k. k \<le> 31 \<Longrightarrow> \<not> k \<le> 31 - (i + 1) \<Longrightarrow> t ! k = ?r ! k"
    using Suc.hyps(1) [OF i(2,3) c(1), of ?r, folded t_def] Suc.prems(3) by (simp_all del: add_Suc_right)
  have "if k \<le> 31 - i then complex_ok (t ! k) \<and> complex_val (t ! k) = complex_val current ^ 2 ^ (31 - i - k)
    else t ! k = result ! k" if "k \<le> 31" for k
  proof -
    consider (lower) "k \<le> 31 - (i + 1)" | (cur) "k = 31 - i" | (upper) "\<not> k \<le> 31 - i" using i(1) by linarith
    then show ?thesis
    proof cases
      case lower
      then have "31 - i - k = Suc (31 - (i + 1) - k)" "k \<le> 31 - i" using i by simp_all
      with IH(2,3) [OF lower] show ?thesis by (simp only: c power_mult [symmetric] power_Suc) simp
    next
      case cur
      then have "\<not> k \<le> 31 - (i + 1)" using i(1) by linarith
      with IH(4) [OF that] have "t ! k = current" using Suc.prems(3) by (simp add: cur)
      with Suc.prems(2) show ?thesis by (simp add: cur)
    next
      case upper
      then have "\<not> k \<le> 31 - (i + 1)" by linarith
      with IH(4) [OF that] upper show ?thesis by simp
    qed
  qed
  then show ?case unfolding t using IH(1) by blast
qed

lemma generators_table:
  "length (TWO_ADICITY_GENERATORS K) = 32"
  "k \<le> 31 \<Longrightarrow> complex_ok (TWO_ADICITY_GENERATORS K ! k) \<and> complex_val (TWO_ADICITY_GENERATORS K ! k) = root_of_unity k"
  using generators_loop [of 0 TWO_ADIC_GENERATOR "replicate 32 (f_zero K)"] generator_ok
  by (auto simp: TWO_ADICITY_GENERATORS_def root_of_unity_def)

lemma generators_inversed:
  assumes "k \<le> 31"
  obtains w where "TWO_ADICITY_GENERATORS_INVERSED K ! k = Some w" "complex_ok w" "complex_val w = inverse (root_of_unity k)"
proof -
  note t = generators_table(2) [OF assms]
  have "root_of_unity k \<noteq> 0" using root_order [OF assms, of "2 ^ k"] by (auto simp: power_0_left)
  with t half.inverse_cases [of "TWO_ADICITY_GENERATORS K ! k"] obtain w where
    "f_inverse K (TWO_ADICITY_GENERATORS K ! k) = Some w" "complex_ok w" "complex_val w = inverse (root_of_unity k)"
    by metis
  with that [of w] assms show thesis by (simp add: TWO_ADICITY_GENERATORS_INVERSED_def generators_table(1))
qed

lemma generator_for_size:
  assumes k: "k \<le> 31"
  shows "\<exists>w. domain_generator_for_size c K TWO_ADICITY TWO_ADIC_GENERATOR (push_bit k 1) = Inr w \<and>
    complex_ok w \<and> complex_val w = root_of_unity k"
proof -
  let ?G = "complex_val TWO_ADIC_GENERATOR"
  define z :: u64 where "z = push_bit k 1"
  have "(2 :: nat) ^ k < 2 ^ 64" using k by (intro power_strict_increasing) simp_all
  then have "unat (of_nat (2 ^ k) :: u64) = 2 ^ k" by (simp only: unat_of_nat) simp
  then have s: "unat z = 2 ^ k" by (simp add: z_def push_bit_eq_mult)
  then have pow2: "is_power_of_two (unat z)" using k by (auto simp: is_power_of_two_def)
  have "k < 64" using k by simp
  then have ctz: "ctz64 z = k" unfolding z_def by (rule ctz64_one_shifted)
  note G = generator_ok
  have order: "?G ^ 2 ^ j = 1 \<longleftrightarrow> 31 \<le> j" for j
    using root_order [of 31 "2 ^ j"] dvd_power_iff_le [of 2 31 j] by (simp add: root_of_unity_def)
  have all: "f_eq K (f_exp_power_of_2 K TWO_ADIC_GENERATOR TWO_ADICITY) (f_one K)"
    "no_ones K TWO_ADIC_GENERATOR (TWO_ADICITY - 1)"
    using half.exp_power_of_2 [OF G, of 31] half.no_ones [OF G] generator_powers
    by (simp_all add: TWO_ADICITY_def half.eq half.one order)
  have "z = 1 \<or> (\<forall>j \<in> {1..31 - k}. ?G ^ 2 ^ j \<noteq> 1)" by (cases k) (auto simp: order z_def)
  from half.square_down [OF G this] obtain w where w: "square_down K z TWO_ADIC_GENERATOR (31 - k) = Inr w"
    "complex_ok w" "complex_val w = root_of_unity k" by (auto simp: root_of_unity_def)
  have "(2 :: nat) ^ k < 2 ^ 32" using k by (intro power_strict_increasing) simp_all
  then have "unat (ucast z :: u32) = 2 ^ k" using s by (simp add: unat_ucast)
  then have "f_eq K (f_pow K w (ucast z)) (f_one K)"
    using half.pow [OF w(2), of "ucast z"] w(3) root_order [OF k, of "2 ^ k"] by (simp add: half.eq half.one)
  with w all show ?thesis unfolding z_def [symmetric]
    by (simp add: domain_generator_for_size_def debug_assert_def pow2 ctz k TWO_ADICITY_def)
qed

lemma generators_correct:
  assumes k: "k \<le> 31"
  shows "length (TWO_ADICITY_GENERATORS K) = 32 \<and>
    (\<forall>n. complex_val (TWO_ADICITY_GENERATORS K ! k) ^ n = 1 \<longleftrightarrow> 2 ^ k dvd n) \<and>
    (\<exists>w. TWO_ADICITY_GENERATORS_INVERSED K ! k = Some w \<and>
       complex_val w * complex_val (TWO_ADICITY_GENERATORS K ! k) = 1) \<and>
    (\<exists>w. domain_generator_for_size c K TWO_ADICITY TWO_ADIC_GENERATOR (push_bit k 1) = Inr w \<and>
       complex_val w = complex_val (TWO_ADICITY_GENERATORS K ! k))"
proof -
  have "root_of_unity k \<noteq> 0" using root_order [OF k, of "2 ^ k"] by (auto simp: power_0_left)
  with generators_table generators_inversed [OF k] generator_for_size [OF k, of c] k root_order [OF k]
  show ?thesis by (metis left_inverse)
qed

end

section \<open>Properties\<close>

text \<open>
  C28. In any field of the tower, filling a vector with the powers \<open>first * step ^ i\<close> on several threads
  succeeds for every size that is a power of two up to \<open>2 ^ 32\<close> and every number of threads,
  and gives the elements of the serial loop.
\<close>

theorem parallel_powers:
  assumes "field_impl F ok val" and "ok first_element" and "ok step" and "num_cores \<noteq> 0"
    and "is_power_of_two n" and "n \<le> 2 ^ 32"
  shows "(\<exists>out. materialize_powers_parallel F num_cores first_element step n = Inr out \<and>
       map val out = map (\<lambda>i. val first_element * val step ^ i) [0..<n]) \<and>
    (\<exists>out. materialize_powers_parallel F num_cores step step n = Inr out \<and>
       map val out = map val (materialize_powers_serial_starting_with_elem F step n)) \<and>
    (\<exists>out. materialize_powers_parallel_starting_with_one F num_cores step n = Inr out \<and>
       map val out = map val (materialize_powers_serial_starting_with_one F step n))"
  using field_impl.parallel_powers_serial [OF assms] .

theorem parallel_powers_witness:
  "\<exists>out. materialize_powers_parallel complex_ops 3 TWO_ADIC_GENERATOR TWO_ADIC_GENERATOR 16 = Inr out \<and>
     map complex_val out = map (\<lambda>i. complex_val TWO_ADIC_GENERATOR * complex_val TWO_ADIC_GENERATOR ^ i) [0..<16]"
proof -
  have "is_power_of_two 16"
    unfolding is_power_of_two_def by (simp add: image_iff) (rule bexI [of _ 4], simp_all)
  then show ?thesis
    using parallel_powers [OF complex.field_impl_axioms generator_ok generator_ok, of 3 16] by simp
qed



end
