(* ===== verification/Ntt.thy ===== *)
theory Ntt
  imports Domains
begin

text \<open>
  The number-theoretic transforms of \<open>fft/src/column_major/naive.rs\<close>: the in-place loops from natural to
  bit-reversed order, level by level and by blocks that fit the cache, against a recursive
  transform, and the recursive transform against the values of a polynomial.
\<close>

section \<open>The loops\<close>

text \<open>
  A butterfly on the elements \<open>j\<close> and \<open>j + distance\<close>. \<open>scale\<close> is the multiplication by the twiddle of the
  group, the identity in the first round. The second assignment reads \<open>a[j]\<close> again.
\<close>

definition butterfly :: "'e field_ops \<Rightarrow> ('e \<Rightarrow> 'e) \<Rightarrow> nat \<Rightarrow> nat \<Rightarrow> 'e list \<Rightarrow> 'e list res" where
  "butterfly E scale distance j a =
     guardR (j < length a \<and> j + distance < length a) IndexOutOfBounds
     (let u = a ! j;
          v = scale (a ! (j + distance));
          a = a[j + distance := f_sub E u v] in
      Inr (a[j := f_add E (a ! j) v]))"

definition group_loop :: "'e field_ops \<Rightarrow> ('e \<Rightarrow> 'e) \<Rightarrow> nat \<Rightarrow> nat \<Rightarrow> nat \<Rightarrow> 'e list \<Rightarrow> 'e list res" where
  "group_loop E scale distance idx_1 idx_2 = foldR (butterfly E scale distance) [idx_1..<idx_2]"

definition twiddled_group ::
  "'e field_ops \<Rightarrow> ('e \<Rightarrow> 'f \<Rightarrow> 'e) \<Rightarrow> 'f list \<Rightarrow> nat \<Rightarrow> nat \<Rightarrow> nat \<Rightarrow> nat \<Rightarrow> nat \<Rightarrow> 'e list \<Rightarrow> 'e list res" where
  "twiddled_group E mulb omegas start first pairs distance k a =
     (let idx_1 = start + k * pairs * 2;
          idx_2 = idx_1 + pairs in
      guardR (first + k < length omegas) IndexOutOfBounds
        (group_loop E (\<lambda>v. mulb v (omegas ! (first + k))) distance idx_1 idx_2 a))"

record rounds_state =
  num_groups :: nat
  pairs_per_group :: nat
  group_distance :: nat

definition next_round :: "rounds_state \<Rightarrow> rounds_state" where
  "next_round s =
     s \<lparr> pairs_per_group := pairs_per_group s div 2, num_groups := num_groups s * 2,
        group_distance := group_distance s div 2 \<rparr>"

lemma next_round_groups [simp]: "num_groups (next_round s) = num_groups s * 2"
  by (simp add: next_round_def)

text \<open>
  Some rounds over all groups, the twiddle of group \<open>k\<close> at \<open>bunch * num_groups + k\<close>, the elements from
  \<open>start\<close> on.
\<close>

primrec ntt_rounds ::
  "'e field_ops \<Rightarrow> ('e \<Rightarrow> 'f \<Rightarrow> 'e) \<Rightarrow> 'f list \<Rightarrow> nat \<Rightarrow> nat \<Rightarrow> nat \<Rightarrow> rounds_state \<Rightarrow> 'e list \<Rightarrow> (rounds_state \<times> 'e list) res" where
  "ntt_rounds E mulb omegas start bunch 0 s a = Inr (s, a)"
| "ntt_rounds E mulb omegas start bunch (Suc rounds) s a =
     bindR (foldR (twiddled_group E mulb omegas start (bunch * num_groups s) (pairs_per_group s) (group_distance s))
              [0..<num_groups s] a)
       (ntt_rounds E mulb omegas start bunch rounds (next_round s))"

definition first_round :: "'e field_ops \<Rightarrow> 'e list \<Rightarrow> (rounds_state \<times> 'e list) res" where
  "first_round E a =
     (let n = length a in
      bindR (group_loop E (\<lambda>v. v) (n div 2) 0 (n div 2) a) (\<lambda>a.
      Inr (next_round \<lparr> num_groups = 1, pairs_per_group = n div 2, group_distance = n div 2 \<rparr>, a)))"

text \<open>
  \<open>while num_groups < n\<close>. The number of groups starts at 2 and doubles; the first branch is never taken,
  it makes the recursion terminate.
\<close>

function serial_rounds ::
  "'e field_ops \<Rightarrow> ('e \<Rightarrow> 'f \<Rightarrow> 'e) \<Rightarrow> 'f list \<Rightarrow> nat \<Rightarrow> rounds_state \<Rightarrow> 'e list \<Rightarrow> 'e list res" where
  "serial_rounds E mulb omegas n s a =
     (if num_groups s = 0 then Inl DebugAssertFailed
      else if num_groups s < n then
        bindR (foldR (twiddled_group E mulb omegas 0 0 (pairs_per_group s) (group_distance s)) [0..<num_groups s] a)
          (serial_rounds E mulb omegas n (next_round s))
      else Inr a)"
  by pat_completeness auto
termination
  by (relation "measure (\<lambda>(_, _, _, n, s, _). n - num_groups s)") (auto simp: next_round_def)

declare serial_rounds.simps [simp del]

definition serial_ct_ntt_natural_to_bitreversed ::
  "cfg \<Rightarrow> 'e field_ops \<Rightarrow> ('e \<Rightarrow> 'f \<Rightarrow> 'e) \<Rightarrow> 'e list \<Rightarrow> nat \<Rightarrow> 'f list \<Rightarrow> 'e list res" where
  "serial_ct_ntt_natural_to_bitreversed c E mulb a log_n omegas =
     (let n = length a in
      if n = 1 then Inr a
      else debug_assert (debug_assertions c) (16 < n \<longrightarrow> n = length omegas * 2)
        (debug_assert (debug_assertions c) (n = 2 ^ log_n)
          (bindR (first_round E a) (\<lambda>(s, a). serial_rounds E mulb omegas n s a))))"

text \<open>From some round on, all remaining rounds of a bunch of elements before the next bunch.\<close>

definition cache_bunches ::
  "'e field_ops \<Rightarrow> ('e \<Rightarrow> 'f \<Rightarrow> 'e) \<Rightarrow> 'f list \<Rightarrow> nat \<Rightarrow> rounds_state \<Rightarrow> 'e list \<Rightarrow> 'e list res" where
  "cache_bunches E mulb omegas rounds_in_cache s =
     foldR (\<lambda>cache_bunch a.
         bindR (ntt_rounds E mulb omegas (cache_bunch * pairs_per_group s * 2) cache_bunch rounds_in_cache
                  \<lparr> num_groups = 1, pairs_per_group = pairs_per_group s, group_distance = group_distance s \<rparr> a)
           (\<lambda>(_, a). Inr a))
       [0..<num_groups s]"

definition CACHE_BUNCH_LOG :: nat where "CACHE_BUNCH_LOG = 20 - 3"

definition cache_friendly_ntt_natural_to_bitreversed ::
  "cfg \<Rightarrow> 'e field_ops \<Rightarrow> ('e \<Rightarrow> 'f \<Rightarrow> 'e) \<Rightarrow> 'e list \<Rightarrow> nat \<Rightarrow> 'f list \<Rightarrow> 'e list res" where
  "cache_friendly_ntt_natural_to_bitreversed c E mulb a log_n omegas =
     (let n = length a in
      if n = 1 then Inr a
      else
        (let cache_friendly_round = log_n - CACHE_BUNCH_LOG in
         debug_assert (debug_assertions c) (16 < n \<longrightarrow> n = length omegas * 2)
           (debug_assert (debug_assertions c) (n = 2 ^ log_n)
             (bindR (first_round E a) (\<lambda>(s, a).
              bindR (ntt_rounds E mulb omegas 0 0 (cache_friendly_round - 1) s a) (\<lambda>(s, a).
              cache_bunches E mulb omegas (log_n - max 1 cache_friendly_round) s a))))))"

section \<open>Blocks\<close>

text \<open>What the butterflies of a group do to its block: two blocks of half the length.\<close>

definition lower :: "'e field_ops \<Rightarrow> ('e \<Rightarrow> 'e) \<Rightarrow> 'e list \<Rightarrow> 'e list" where
  "lower E scale xs = map2 (\<lambda>u v. f_add E u (scale v)) (take (length xs div 2) xs) (drop (length xs div 2) xs)"

definition upper :: "'e field_ops \<Rightarrow> ('e \<Rightarrow> 'e) \<Rightarrow> 'e list \<Rightarrow> 'e list" where
  "upper E scale xs = map2 (\<lambda>u v. f_sub E u (scale v)) (take (length xs div 2) xs) (drop (length xs div 2) xs)"

lemma half_lengths:
  assumes "length xs = 2 * d"
  shows "length (lower E scale xs) = d" "length (upper E scale xs) = d"
  using assms by (simp_all add: lower_def upper_def)

lemma butterfly_at:
  assumes "j = length p" and "d = length (x # q)"
  shows "butterfly E scale d j (p @ (x # q) @ y # r) = Inr (p @ (f_add E x (scale y) # q) @ f_sub E x (scale y) # r)"
proof -
  have "(p @ (x # q) @ y # r) ! j = x" "(p @ (x # q) @ y # r) ! (j + d) = y"
    using assms by (simp_all add: nth_append)
  then show ?thesis
    using assms by (simp add: butterfly_def Let_def list_update_append nth_append)
qed

lemma group_partial:
  assumes "length u = length v" and "length p' = length q'" and "d = length p' + length u"
  shows "foldR (butterfly E scale d) [length (p @ p')..<length (p @ p') + length u] (p @ p' @ u @ q' @ v @ r) =
    Inr (p @ p' @ map2 (\<lambda>u v. f_add E u (scale v)) u v @ q' @ map2 (\<lambda>u v. f_sub E u (scale v)) u v @ r)"
  using assms
proof (induction u v arbitrary: p' q' rule: list_induct2)
  case (Cons x u y v)
  have "foldR (butterfly E scale d) [length (p @ p')..<length (p @ p') + length (x # u)] (p @ p' @ (x # u) @ q' @ (y # v) @ r) =
      bindR (butterfly E scale d (length (p @ p')) ((p @ p') @ (x # (u @ q')) @ y # (v @ r)))
        (foldR (butterfly E scale d) [Suc (length (p @ p'))..<length (p @ p') + length (x # u)])"
    by (simp add: upt_conv_Cons del: upt_Suc)
  also have "\<dots> = foldR (butterfly E scale d) [Suc (length (p @ p'))..<length (p @ p') + length (x # u)]
      ((p @ p') @ (f_add E x (scale y) # (u @ q')) @ f_sub E x (scale y) # (v @ r))"
    using Cons.prems Cons.hyps by (simp only: butterfly_at bindR_Inr) (subst butterfly_at, auto)
  also have "\<dots> = foldR (butterfly E scale d)
      [length (p @ p' @ [f_add E x (scale y)])..<length (p @ p' @ [f_add E x (scale y)]) + length u]
      (p @ (p' @ [f_add E x (scale y)]) @ u @ (q' @ [f_sub E x (scale y)]) @ v @ r)"
    by simp
  also have "\<dots> = Inr (p @ (p' @ [f_add E x (scale y)]) @ map2 (\<lambda>u v. f_add E u (scale v)) u v @
      (q' @ [f_sub E x (scale y)]) @ map2 (\<lambda>u v. f_sub E u (scale v)) u v @ r)"
    using Cons.prems by (intro Cons.IH) simp_all
  finally show ?case by simp
qed simp

lemma group_loop_block:
  assumes "length b = 2 * d" and "idx_1 = length p" and "idx_2 = idx_1 + d"
  shows "group_loop E scale d idx_1 idx_2 (p @ b @ r) = Inr (p @ (lower E scale b @ upper E scale b) @ r)"
proof -
  obtain u v where b: "b = u @ v" "length u = d" "length v = d"
    using assms(1) by (intro that [of "take d b" "drop d b"]) simp_all
  have "length u = length v" "d = length ([] :: 'a list) + length u" using b(2,3) by simp_all
  from group_partial [OF this(1) refl this(2), of E scale p r]
  show ?thesis by (simp add: b assms(2,3) group_loop_def lower_def upper_def)
qed

text \<open>All levels of a block, the multiplications given by the number of the block at its level.\<close>

primrec split_levels :: "'e field_ops \<Rightarrow> (nat \<Rightarrow> 'e \<Rightarrow> 'e) \<Rightarrow> nat \<Rightarrow> nat \<Rightarrow> 'e list \<Rightarrow> 'e list list" where
  "split_levels E scale 0 k xs = [xs]"
| "split_levels E scale (Suc r) k xs =
     split_levels E scale r (2 * k) (lower E (scale k) xs) @ split_levels E scale r (2 * k + 1) (upper E (scale k) xs)"

definition level_blocks :: "'e field_ops \<Rightarrow> (nat \<Rightarrow> 'e \<Rightarrow> 'e) \<Rightarrow> nat \<Rightarrow> nat \<Rightarrow> 'e list list \<Rightarrow> 'e list list" where
  "level_blocks E scale r k bs = concat (map (\<lambda>(j, b). split_levels E scale r j b) (enumerate k bs))"

lemma length_split_levels: "length (split_levels E scale r k xs) = 2 ^ r"
  by (induction r arbitrary: k xs) simp_all

lemma split_levels_sizes: "length xs = 2 ^ r * d \<Longrightarrow> \<forall>b \<in> set (split_levels E scale r k xs). length b = d"
proof (induction r arbitrary: k xs)
  case (Suc r)
  then have "length xs = 2 * (2 ^ r * d)" by simp
  from Suc.IH [OF half_lengths(1) [OF this]] Suc.IH [OF half_lengths(2) [OF this]]
  show ?case by (auto simp: ball_Un)
qed simp

lemma level_blocks_0 [simp]: "level_blocks E scale 0 k bs = bs"
  by (induction bs arbitrary: k) (auto simp: level_blocks_def)

lemma level_blocks_Cons: "level_blocks E scale r k (b # bs) = split_levels E scale r k b @ level_blocks E scale r (Suc k) bs"
  by (simp add: level_blocks_def)

lemma level_blocks_Nil [simp]: "level_blocks E scale r k [] = []"
  by (simp add: level_blocks_def)

lemma level_blocks_append:
  "level_blocks E scale r k (bs @ cs) = level_blocks E scale r k bs @ level_blocks E scale r (k + length bs) cs"
  by (simp add: level_blocks_def enumerate_append_eq)

lemma split_levels_level_blocks:
  "split_levels E scale (q + r) k xs = level_blocks E scale r (k * 2 ^ q) (split_levels E scale q k xs)"
proof (induction q arbitrary: k xs)
  case 0
  then show ?case by (simp add: level_blocks_Cons)
next
  case (Suc q)
  have "k * 2 ^ Suc q = 2 * k * 2 ^ q" "k * 2 ^ Suc q + 2 ^ q = (2 * k + 1) * 2 ^ q" by (simp_all add: algebra_simps)
  then show ?case
    by (simp only: add_Suc split_levels.simps Suc.IH level_blocks_append length_split_levels)
qed

lemma level_blocks_level_blocks:
  "level_blocks E scale (q + r) k bs = level_blocks E scale r (k * 2 ^ q) (level_blocks E scale q k bs)"
proof (induction bs arbitrary: k)
  case (Cons b bs)
  have "Suc k * 2 ^ q = k * 2 ^ q + 2 ^ q" by (simp add: add.commute)
  then show ?case
    by (simp only: level_blocks_Cons level_blocks_append split_levels_level_blocks length_split_levels Cons.IH)
qed simp

lemma level_blocks_sizes:
  "\<forall>b \<in> set bs. length b = 2 ^ r * d \<Longrightarrow> \<forall>b \<in> set (level_blocks E scale r k bs). length b = d"
  by (induction bs arbitrary: k) (auto simp: level_blocks_Cons dest: split_levels_sizes)

lemma length_level_blocks: "length (level_blocks E scale r k bs) = 2 ^ r * length bs"
  by (induction bs arbitrary: k) (simp_all add: level_blocks_Cons length_split_levels)

section \<open>The loops are the levels\<close>

definition by_twiddle :: "('e \<Rightarrow> 'f \<Rightarrow> 'e) \<Rightarrow> 'f list \<Rightarrow> nat \<Rightarrow> 'e \<Rightarrow> 'e" where
  "by_twiddle mulb omegas k v = mulb v (omegas ! k)"

lemma twiddled_groups:
  assumes "\<forall>b \<in> set bs. length b = 2 * d" and "length p = start + k * d * 2" and "first + k + length bs \<le> length omegas"
  shows "foldR (twiddled_group E mulb omegas start first d d) [k..<k + length bs] (p @ concat bs @ q) =
    Inr (p @ concat (level_blocks E (by_twiddle mulb omegas) 1 (first + k) bs) @ q)"
  using assms
proof (induction bs arbitrary: p k)
  case (Cons b bs)
  let ?scale = "\<lambda>v. mulb v (omegas ! (first + k))"
  have b: "length b = 2 * d" using Cons.prems by simp
  have group: "twiddled_group E mulb omegas start first d d k (p @ concat (b # bs) @ q) =
      Inr (p @ (lower E ?scale b @ upper E ?scale b) @ concat bs @ q)"
    using Cons.prems group_loop_block [OF b, of "start + k * d * 2" p _ E ?scale "concat bs @ q"]
    by (simp add: twiddled_group_def Let_def)
  have "length (p @ lower E ?scale b @ upper E ?scale b) = start + Suc k * d * 2"
    using Cons.prems(2) half_lengths [OF b] by simp
  from Cons.IH [OF _ this] Cons.prems group show ?case
    by (simp add: upt_conv_Cons level_blocks_Cons by_twiddle_def [abs_def] del: upt_Suc)
qed simp

lemma next_round_halves:
  "0 < r \<Longrightarrow> pairs_per_group s = 2 ^ r * e \<Longrightarrow> pairs_per_group (next_round s) = 2 ^ (r - 1) * e"
  "0 < r \<Longrightarrow> group_distance s = 2 ^ r * e \<Longrightarrow> group_distance (next_round s) = 2 ^ (r - 1) * e"
  by (cases r; simp add: next_round_def)+

lemma halved_bound: "m * 2 ^ r \<le> (n :: nat) \<Longrightarrow> 0 < r \<Longrightarrow> 2 * m * 2 ^ (r - 1) \<le> n"
  by (cases r) (simp_all add: mult_ac)

lemma ntt_rounds:
  assumes "\<forall>b \<in> set bs. length b = 2 ^ r * e" and "length p = start" and "num_groups s = length bs"
    and "0 < r \<longrightarrow> pairs_per_group s = 2 ^ (r - 1) * e \<and> group_distance s = 2 ^ (r - 1) * e \<and>
      (bunch + 1) * length bs * 2 ^ (r - 1) \<le> length omegas"
  shows "ntt_rounds E mulb omegas start bunch r s (p @ concat bs @ q) =
    Inr ((next_round ^^ r) s, p @ concat (level_blocks E (by_twiddle mulb omegas) r (bunch * length bs) bs) @ q)"
  using assms(1,3,4)
proof (induction r arbitrary: bs s)
  case (Suc r)
  let ?d = "2 ^ r * e" and ?B = "level_blocks E (by_twiddle mulb omegas)"
  have s: "pairs_per_group s = ?d" "group_distance s = ?d" "(bunch + 1) * length bs * 2 ^ r \<le> length omegas"
    using Suc.prems(3) by simp_all
  have "(bunch + 1) * length bs * 1 \<le> (bunch + 1) * length bs * 2 ^ r" by (rule mult_left_mono) simp_all
  also note s(3)
  finally have enough: "bunch * length bs + 0 + length bs \<le> length omegas" by simp
  have "\<forall>b \<in> set bs. length b = 2 * ?d" using Suc.prems(1) by simp
  from twiddled_groups [OF this _ enough, of p start E mulb q] assms(2)
  have stage: "foldR (twiddled_group E mulb omegas start (bunch * num_groups s) (pairs_per_group s) (group_distance s))
      [0..<num_groups s] (p @ concat bs @ q) = Inr (p @ concat (?B 1 (bunch * length bs) bs) @ q)"
    by (simp add: s Suc.prems(2))
  let ?bs = "?B (Suc 0) (bunch * length bs) bs"
  have len: "length ?bs = 2 * length bs" by (simp add: length_level_blocks)
  have "\<forall>b \<in> set bs. length b = 2 ^ Suc 0 * ?d" using Suc.prems(1) by simp
  then have sizes: "\<forall>b \<in> set ?bs. length b = ?d" by (rule level_blocks_sizes)
  have "0 < r \<longrightarrow> pairs_per_group (next_round s) = 2 ^ (r - 1) * e \<and> group_distance (next_round s) = 2 ^ (r - 1) * e \<and>
      (bunch + 1) * length ?bs * 2 ^ (r - 1) \<le> length omegas"
  proof (intro impI conjI)
    assume "0 < r"
    from next_round_halves [OF this] s(1,2) show "pairs_per_group (next_round s) = 2 ^ (r - 1) * e"
      "group_distance (next_round s) = 2 ^ (r - 1) * e" by simp_all
    from halved_bound [OF s(3) \<open>0 < r\<close>] show "(bunch + 1) * length ?bs * 2 ^ (r - 1) \<le> length omegas"
      by (simp only: len mult.left_commute [of "bunch + 1" 2])
  qed
  from Suc.IH [OF sizes _ this] have rest: "ntt_rounds E mulb omegas start bunch r (next_round s) (p @ concat ?bs @ q) =
      Inr ((next_round ^^ r) (next_round s), p @ concat (?B r (bunch * length ?bs) ?bs) @ q)"
    by (simp add: len Suc.prems(2))
  have "?B r (bunch * length ?bs) ?bs = ?B (1 + r) (bunch * length bs) bs"
    unfolding level_blocks_level_blocks [of E _ 1 r] by (simp add: len mult_ac)
  with stage rest show ?case by (simp add: funpow_swap1)
qed simp

lemma cache_bunches_partial:
  assumes "\<forall>b \<in> set bs. length b = 2 ^ r * e" and "length p = k * (2 ^ r * e)"
    and "0 < r \<longrightarrow> pairs_per_group s = 2 ^ (r - 1) * e \<and> group_distance s = 2 ^ (r - 1) * e \<and>
      (k + length bs) * 2 ^ (r - 1) \<le> length omegas"
  shows "foldR (\<lambda>cache_bunch a.
        bindR (ntt_rounds E mulb omegas (cache_bunch * pairs_per_group s * 2) cache_bunch r
                 \<lparr> num_groups = 1, pairs_per_group = pairs_per_group s, group_distance = group_distance s \<rparr> a)
          (\<lambda>(_, a). Inr a)) [k..<k + length bs] (p @ concat bs @ q) =
    Inr (p @ concat (level_blocks E (by_twiddle mulb omegas) r k bs) @ q)"
  using assms
proof (induction bs arbitrary: p k)
  case (Cons b bs)
  let ?s = "\<lparr> num_groups = 1, pairs_per_group = pairs_per_group s, group_distance = group_distance s \<rparr>"
  let ?b = "split_levels E (by_twiddle mulb omegas) r k b"
  have "ntt_rounds E mulb omegas (k * pairs_per_group s * 2) k r ?s (p @ concat (b # bs) @ q) =
      Inr ((next_round ^^ r) ?s, p @ concat ?b @ concat bs @ q)"
  proof (cases r)
    case (Suc r')
    have "length p = k * pairs_per_group s * 2" using Cons.prems(2,3) Suc by simp
    moreover have "(k + 1) * 2 ^ r' \<le> length omegas"
      using Cons.prems(3) Suc by (simp add: algebra_simps)
    ultimately show ?thesis
      using ntt_rounds [of "[b]" r e p "k * pairs_per_group s * 2" ?s k omegas E mulb "concat bs @ q"] Cons.prems(1,3) Suc
      by (simp add: level_blocks_Cons del: split_levels.simps ntt_rounds.simps funpow.simps)
  qed simp
  moreover have "length (p @ concat ?b) = Suc k * (2 ^ r * e)"
  proof -
    have "length (concat ?b) = 2 ^ r * e"
      using split_levels_sizes [of b r e E "by_twiddle mulb omegas" k] Cons.prems(1) length_split_levels [of E "by_twiddle mulb omegas" r k b]
      by (simp add: length_concat sum_list_triv cong: map_cong)
    then show ?thesis using Cons.prems(2) by simp
  qed
  from Cons.IH [OF _ this] Cons.prems have "foldR (\<lambda>cache_bunch a.
        bindR (ntt_rounds E mulb omegas (cache_bunch * pairs_per_group s * 2) cache_bunch r ?s a)
          (\<lambda>(_, a). Inr a)) [Suc k..<Suc k + length bs] ((p @ concat ?b) @ concat bs @ q) =
      Inr ((p @ concat ?b) @ concat (level_blocks E (by_twiddle mulb omegas) r (Suc k) bs) @ q)"
    by (simp add: add.commute)
  ultimately show ?case
    by (simp add: upt_conv_Cons level_blocks_Cons del: upt_Suc)
qed simp

lemma cache_bunches:
  assumes "\<forall>b \<in> set bs. length b = 2 ^ r * e" and "num_groups s = length bs"
    and "0 < r \<longrightarrow> pairs_per_group s = 2 ^ (r - 1) * e \<and> group_distance s = 2 ^ (r - 1) * e \<and>
      length bs * 2 ^ (r - 1) \<le> length omegas"
  shows "cache_bunches E mulb omegas r s (concat bs) = Inr (concat (level_blocks E (by_twiddle mulb omegas) r 0 bs))"
  using cache_bunches_partial [of bs r e "[]" 0 s omegas E mulb "[]"] assms by (simp add: cache_bunches_def)

lemma serial_rounds:
  assumes "\<forall>b \<in> set bs. length b = 2 ^ r" and "num_groups s = length bs" and "bs \<noteq> []" and "n = length bs * 2 ^ r"
    and "0 < r \<longrightarrow> pairs_per_group s = 2 ^ (r - 1) \<and> group_distance s = 2 ^ (r - 1) \<and>
      length bs * 2 ^ (r - 1) \<le> length omegas"
  shows "serial_rounds E mulb omegas n s (concat bs) = Inr (concat (level_blocks E (by_twiddle mulb omegas) r 0 bs))"
  using assms
proof (induction r arbitrary: bs s)
  case 0
  then show ?case by (simp add: serial_rounds.simps [of E mulb omegas "length bs" s])
next
  case (Suc r)
  let ?B = "level_blocks E (by_twiddle mulb omegas)"
  let ?bs = "?B (Suc 0) 0 bs"
  have s: "pairs_per_group s = 2 ^ r" "group_distance s = 2 ^ r" "length bs * 2 ^ r \<le> length omegas"
    using Suc.prems(5) by simp_all
  have "length bs * 1 \<le> length bs * 2 ^ r" by (rule mult_left_mono) simp_all
  also note s(3)
  finally have enough: "0 + 0 + length bs \<le> length omegas" by simp
  have "\<forall>b \<in> set bs. length b = 2 * 2 ^ r" using Suc.prems(1) by simp
  from twiddled_groups [OF this _ enough, of "[]" 0 E mulb "[]"]
  have stage: "foldR (twiddled_group E mulb omegas 0 0 (pairs_per_group s) (group_distance s)) [0..<num_groups s] (concat bs) =
      Inr (concat ?bs)"
    by (simp add: s Suc.prems(2))
  have len: "length ?bs = 2 * length bs" by (simp add: length_level_blocks)
  have "\<forall>b \<in> set bs. length b = 2 ^ Suc 0 * 2 ^ r" using Suc.prems(1) by simp
  then have sizes: "\<forall>b \<in> set ?bs. length b = 2 ^ r" by (rule level_blocks_sizes)
  have ne: "?bs \<noteq> []"
  proof
    assume "?bs = []"
    with len have "length bs = 0" by simp
    with Suc.prems(3) show False by simp
  qed
  have "0 < r \<longrightarrow> pairs_per_group (next_round s) = 2 ^ (r - 1) \<and> group_distance (next_round s) = 2 ^ (r - 1) \<and>
      length ?bs * 2 ^ (r - 1) \<le> length omegas"
  proof (intro impI conjI)
    assume "0 < r"
    from next_round_halves [OF this, of s 1] s(1,2) show "pairs_per_group (next_round s) = 2 ^ (r - 1)"
      "group_distance (next_round s) = 2 ^ (r - 1)" by simp_all
    from halved_bound [OF s(3) \<open>0 < r\<close>] show "length ?bs * 2 ^ (r - 1) \<le> length omegas" by (simp only: len)
  qed
  from Suc.IH [OF sizes _ ne _ this] have rest: "serial_rounds E mulb omegas n (next_round s) (concat ?bs) = Inr (concat (?B r 0 ?bs))"
    using Suc.prems(2,4) by (simp add: len)
  have "(1 :: nat) < 2 ^ Suc r" by (rule one_less_power) simp_all
  then have "length bs * 1 < length bs * 2 ^ Suc r" using Suc.prems(3) by (intro mult_strict_left_mono) simp_all
  then have "num_groups s < n" "num_groups s \<noteq> 0" using Suc.prems(2-4) by simp_all
  moreover have "?B r 0 ?bs = ?B (1 + r) 0 bs"
    unfolding level_blocks_level_blocks [of E _ 1 r] by simp
  ultimately show ?case using stage rest by (simp add: serial_rounds.simps [of E mulb omegas n s])
qed

lemma first_round:
  assumes "length a = 2 ^ Suc l"
  shows "first_round E a =
    Inr (\<lparr> num_groups = 2, pairs_per_group = 2 ^ l div 2, group_distance = 2 ^ l div 2 \<rparr>,
      concat [lower E (\<lambda>v. v) a, upper E (\<lambda>v. v) a])"
  using group_loop_block [of a "2 ^ l" 0 "[]" "2 ^ l" E "\<lambda>v. v" "[]"] assms
  by (simp add: first_round_def Let_def next_round_def)

text \<open>Both transforms of a slice of \<open>2 ^ Suc l\<close> elements.\<close>

definition ntt_result :: "'e field_ops \<Rightarrow> ('e \<Rightarrow> 'f \<Rightarrow> 'e) \<Rightarrow> 'f list \<Rightarrow> nat \<Rightarrow> 'e list \<Rightarrow> 'e list" where
  "ntt_result E mulb omegas l a =
     concat (level_blocks E (by_twiddle mulb omegas) l 0 [lower E (\<lambda>v. v) a, upper E (\<lambda>v. v) a])"

lemma serial_ct_ntt:
  assumes "length a = 2 ^ Suc l" and "length omegas = 2 ^ l"
  shows "serial_ct_ntt_natural_to_bitreversed c E mulb a (Suc l) omegas = Inr (ntt_result E mulb omegas l a)"
proof -
  have "length a = 2 * 2 ^ l" using assms(1) by simp
  note sizes = half_lengths [OF this]
  let ?s = "\<lparr> num_groups = 2, pairs_per_group = 2 ^ l div 2, group_distance = 2 ^ l div 2 \<rparr>"
  have "serial_rounds E mulb omegas (length a) ?s (concat [lower E (\<lambda>v. v) a, upper E (\<lambda>v. v) a]) =
      Inr (ntt_result E mulb omegas l a)"
    unfolding ntt_result_def using assms sizes by (intro serial_rounds) (cases l; simp)+
  moreover have "length a \<noteq> 1" using assms(1) by simp
  ultimately show ?thesis
    using assms by (simp add: serial_ct_ntt_natural_to_bitreversed_def Let_def first_round [OF assms(1)] del: concat.simps)
qed

lemma cache_friendly_ntt:
  assumes "length a = 2 ^ Suc l" and "length omegas = 2 ^ l"
  shows "cache_friendly_ntt_natural_to_bitreversed c E mulb a (Suc l) omegas = Inr (ntt_result E mulb omegas l a)"
proof -
  have "length a = 2 * 2 ^ l" using assms(1) by simp
  note sizes = half_lengths [OF this]
  let ?s = "\<lparr> num_groups = 2, pairs_per_group = 2 ^ l div 2, group_distance = 2 ^ l div 2 \<rparr>"
  let ?bs = "[lower E (\<lambda>v. v) a, upper E (\<lambda>v. v) a]" and ?B = "level_blocks E (by_twiddle mulb omegas)"
  define q where "q = Suc l - CACHE_BUNCH_LOG - 1"
  define r where "r = Suc l - max 1 (Suc l - CACHE_BUNCH_LOG)"
  have l: "l = q + r" by (auto simp: q_def r_def CACHE_BUNCH_LOG_def max_def)
  have r: "r = 0 \<longrightarrow> l = 0" by (auto simp: r_def CACHE_BUNCH_LOG_def max_def)
  have state: "(next_round ^^ q) \<lparr> num_groups = m, pairs_per_group = d, group_distance = d \<rparr> =
      \<lparr> num_groups = m * 2 ^ q, pairs_per_group = d div 2 ^ q, group_distance = d div 2 ^ q \<rparr>" for m d q
    by (induction q arbitrary: m d) (simp_all add: next_round_def funpow_swap1 mult.commute flip: div_mult2_eq)
  have fold: "l - CACHE_BUNCH_LOG = q" "Suc l - max (Suc 0) (Suc l - CACHE_BUNCH_LOG) = r"
    by (simp_all add: q_def r_def)
  have outer: "ntt_rounds E mulb omegas 0 0 q ?s (concat ?bs) = Inr ((next_round ^^ q) ?s, concat (?B q 0 ?bs))"
  proof -
    have "0 < q \<longrightarrow> 2 ^ l div 2 = 2 ^ (q - 1) * (2 ^ r :: nat) \<and> 2 ^ (q - 1) + 2 ^ (q - 1) \<le> (2 :: nat) ^ l"
      by (cases q) (simp_all add: l power_add flip: mult_2)
    then show ?thesis
      using ntt_rounds [of ?bs q "2 ^ r" "[]" 0 ?s 0 omegas E mulb "[]"] sizes assms(2) by (simp add: l power_add)
  qed
  have inner: "cache_bunches E mulb omegas r ((next_round ^^ q) ?s) (concat (?B q 0 ?bs)) =
      Inr (concat (?B r 0 (?B q 0 ?bs)))"
  proof (rule cache_bunches)
    show "\<forall>b \<in> set (?B q 0 ?bs). length b = 2 ^ r * 1"
      using sizes by (intro level_blocks_sizes) (simp add: l power_add)
    show "num_groups ((next_round ^^ q) ?s) = length (?B q 0 ?bs)" by (simp add: state length_level_blocks)
    show "0 < r \<longrightarrow> pairs_per_group ((next_round ^^ q) ?s) = 2 ^ (r - 1) * 1 \<and>
        group_distance ((next_round ^^ q) ?s) = 2 ^ (r - 1) * 1 \<and> length (?B q 0 ?bs) * 2 ^ (r - 1) \<le> length omegas"
      using assms(2) by (cases r) (simp_all add: state length_level_blocks l power_add)
  qed
  have "?B r 0 (?B q 0 ?bs) = ?B l 0 ?bs" unfolding l level_blocks_level_blocks by simp
  moreover have "length a \<noteq> 1" using assms(1) by simp
  ultimately show ?thesis
    using assms outer inner
    by (simp add: cache_friendly_ntt_natural_to_bitreversed_def Let_def first_round [OF assms(1)] ntt_result_def
        fold del: concat.simps)
qed

section \<open>The levels evaluate a polynomial\<close>

text \<open>
  The levels on the field elements. With twiddles \<open>t k\<close>, a block of \<open>2 ^ r\<close> coefficients at position
  \<open>k\<close> becomes the values of its polynomial at \<open>2 ^ r\<close> points.
\<close>

primrec transform :: "(nat \<Rightarrow> 'g::field) \<Rightarrow> nat \<Rightarrow> nat \<Rightarrow> 'g list \<Rightarrow> 'g list" where
  "transform t 0 k xs = xs"
| "transform t (Suc r) k xs =
     (let u = take (2 ^ r) xs; v = drop (2 ^ r) xs in
      transform t r (2 * k) (map2 (\<lambda>a b. a + b * t k) u v) @
      transform t r (2 * k + 1) (map2 (\<lambda>a b. a - b * t k) u v))"

text \<open>\<open>points g k\<close>, \<open>k < 2 ^ g\<close>, for \<open>n\<close> levels: each splits into the two square roots.\<close>

definition splits :: "nat \<Rightarrow> (nat \<Rightarrow> nat \<Rightarrow> 'g::field) \<Rightarrow> bool" where
  "splits n points \<longleftrightarrow>
     (\<forall>g < n. \<forall>k < 2 ^ g. (points (Suc g) (2 * k))\<^sup>2 = points g k \<and> points (Suc g) (2 * k + 1) = - points (Suc g) (2 * k))"

lemma splits_power:
  assumes "splits n points" and "k < 2 ^ g" and "g + r \<le> n" and "j < 2 ^ r"
  shows "points (g + r) (k * 2 ^ r + j) ^ 2 ^ r = points g k"
  using assms(2-4)
proof (induction r arbitrary: g k j)
  case (Suc r)
  have step: "points (Suc g) (2 * k) ^ 2 = points g k" "points (Suc g) (2 * k + 1) ^ 2 = points g k"
    using assms(1) Suc.prems by (auto simp: splits_def)
  have "points (g + Suc r) (k * 2 ^ Suc r + j) ^ 2 ^ Suc r = (points (Suc g + r) (k * 2 ^ Suc r + j) ^ 2 ^ r) ^ 2"
    by (simp only: power_mult [symmetric] power_Suc2) simp
  also have "\<dots> = points g k"
  proof (cases "j < 2 ^ r")
    case True
    have idx: "k * 2 ^ Suc r + j = 2 * k * 2 ^ r + j" by simp
    show ?thesis unfolding idx using Suc.IH [of "2 * k" "Suc g" j] True Suc.prems step(1) by simp
  next
    case False
    then have idx: "k * 2 ^ Suc r + j = (2 * k + 1) * 2 ^ r + (j - 2 ^ r)" by (simp add: algebra_simps)
    show ?thesis
      unfolding idx using Suc.IH [of "2 * k + 1" "Suc g" "j - 2 ^ r"] False Suc.prems step(2) by simp
  qed
  finally show ?case .
qed simp

lemma sum_halves: "(\<Sum>i<n + m. f i) = (\<Sum>i<n. f i) + (\<Sum>i<m. f (n + i) :: 'g::comm_monoid_add)" for n m :: nat
  by (induction m) (simp_all add: add.assoc)

lemma length_transform: "length xs = 2 ^ r \<Longrightarrow> length (transform t r k xs) = 2 ^ r"
  by (induction r arbitrary: k xs) (simp_all add: Let_def)

lemma transform_values:
  assumes "splits n points" and twiddles: "\<And>g k. Suc g \<le> n \<Longrightarrow> k < 2 ^ g \<Longrightarrow> t k = points (Suc g) (2 * k)"
    and "length xs = 2 ^ r" and "k < 2 ^ g" and "g + r \<le> n" and "j < 2 ^ r"
  shows "transform t r k xs ! j = (\<Sum>i<2 ^ r. xs ! i * points (g + r) (k * 2 ^ r + j) ^ i)"
  using assms(3-6)
proof (induction r arbitrary: g k xs j)
  case 0
  then show ?case by simp
next
  case (Suc r)
  let ?u = "take (2 ^ r) xs" and ?v = "drop (2 ^ r) xs"
  let ?lo = "map2 (\<lambda>a b. a + b * t k) ?u ?v" and ?hi = "map2 (\<lambda>a b. a - b * t k) ?u ?v"
  have len: "length ?lo = 2 ^ r" "length ?hi = 2 ^ r" using Suc.prems(1) by simp_all
  have g: "Suc g + r \<le> n" "2 * k < 2 ^ Suc g" "2 * k + 1 < 2 ^ Suc g" using Suc.prems by simp_all
  have t: "t k = points (Suc g) (2 * k)" using twiddles [of g k] Suc.prems by simp
  have nth: "?lo ! i = xs ! i + xs ! (2 ^ r + i) * t k" "?hi ! i = xs ! i - xs ! (2 ^ r + i) * t k" if "i < 2 ^ r" for i
    using that Suc.prems(1) by simp_all
  have whole: "(\<Sum>i<2 ^ Suc r. xs ! i * z ^ i) = (\<Sum>i<2 ^ r. (xs ! i + xs ! (2 ^ r + i) * z ^ 2 ^ r) * z ^ i)" for z
    using sum_halves [of "\<lambda>i. xs ! i * z ^ i" "2 ^ r" "2 ^ r"]
    by (simp add: mult_2 power_add algebra_simps sum.distrib)
  show ?case
  proof (cases "j < 2 ^ r")
    case True
    let ?z = "points (Suc g + r) (2 * k * 2 ^ r + j)"
    have "transform t (Suc r) k xs ! j = transform t r (2 * k) ?lo ! j"
      using True len by (simp add: Let_def nth_append length_transform)
    also have "\<dots> = (\<Sum>i<2 ^ r. ?lo ! i * ?z ^ i)" by (rule Suc.IH [OF len(1) g(2,1) True])
    also have "\<dots> = (\<Sum>i<2 ^ r. (xs ! i + xs ! (2 ^ r + i) * ?z ^ 2 ^ r) * ?z ^ i)"
    proof (rule sum.cong [OF refl])
      fix i assume i: "i \<in> {..<(2 :: nat) ^ r}"
      have "?z ^ 2 ^ r = t k"
        using splits_power [OF assms(1) g(2,1) True] by (simp only: t)
      then show "?lo ! i * ?z ^ i = (xs ! i + xs ! (2 ^ r + i) * ?z ^ 2 ^ r) * ?z ^ i" using nth(1) i by simp
    qed
    also have "\<dots> = (\<Sum>i<2 ^ Suc r. xs ! i * ?z ^ i)" by (rule whole [symmetric])
    also have "2 * k * 2 ^ r + j = k * 2 ^ Suc r + j" by simp
    finally show ?thesis by (simp only: add_Suc add_Suc_right)
  next
    case False
    let ?j = "j - 2 ^ r"
    have j: "?j < 2 ^ r" "k * 2 ^ Suc r + j = (2 * k + 1) * 2 ^ r + ?j"
      using False Suc.prems(4) by (simp_all add: algebra_simps)
    let ?z = "points (Suc g + r) ((2 * k + 1) * 2 ^ r + ?j)"
    have neg: "?z ^ 2 ^ r = - t k"
      using splits_power [OF assms(1) g(3,1) j(1)] assms(1) Suc.prems by (simp add: t splits_def)
    have "transform t (Suc r) k xs ! j = transform t r (2 * k + 1) ?hi ! ?j"
      using False len by (simp add: Let_def nth_append length_transform)
    also have "\<dots> = (\<Sum>i<2 ^ r. ?hi ! i * ?z ^ i)" by (rule Suc.IH [OF len(2) g(3,1) j(1)])
    also have "\<dots> = (\<Sum>i<2 ^ r. (xs ! i + xs ! (2 ^ r + i) * ?z ^ 2 ^ r) * ?z ^ i)"
    proof (rule sum.cong [OF refl])
      fix i assume i: "i \<in> {..<(2 :: nat) ^ r}"
      show "?hi ! i * ?z ^ i = (xs ! i + xs ! (2 ^ r + i) * ?z ^ 2 ^ r) * ?z ^ i" unfolding neg using nth(2) i by simp
    qed
    also have "\<dots> = (\<Sum>i<2 ^ Suc r. xs ! i * ?z ^ i)" by (rule whole [symmetric])
    finally show ?thesis by (simp only: j(2) add_Suc add_Suc_right)
  qed
qed

text \<open>The points: a primitive root of unity to the power of the reversed index.\<close>

definition root_points :: "'g::field \<Rightarrow> nat \<Rightarrow> nat \<Rightarrow> nat \<Rightarrow> 'g" where
  "root_points w n g k = (w ^ 2 ^ (n - g)) ^ rev_bits g k"

lemma double_power: "(x ^ 2 ^ a) ^ 2 = (x ^ 2 ^ Suc a :: 'g::monoid_mult)"
  by (simp only: power_mult [symmetric] power_Suc2)

lemma splits_root_points:
  assumes "w ^ 2 ^ (n - 1) = - 1"
  shows "splits n (root_points w n)"
  unfolding splits_def
proof (intro allI impI conjI)
  fix g k :: nat assume "g < n" "k < 2 ^ g"
  have suc: "n - g = Suc (n - Suc g)" using \<open>g < n\<close> by simp
  have even: "rev_bits (Suc g) (2 * k) = rev_bits g k" "rev_bits (Suc g) (2 * k + 1) = rev_bits g k + 2 ^ g"
    by (simp_all add: rev_bits_Suc)
  show "(root_points w n (Suc g) (2 * k))\<^sup>2 = root_points w n g k"
    unfolding root_points_def even suc power_mult [symmetric] by (rule arg_cong [of _ _ "(^) w"]) simp
  have "(w ^ 2 ^ (n - Suc g)) ^ 2 ^ g = w ^ 2 ^ (n - 1)"
    unfolding power_mult [symmetric] power_add [symmetric] using \<open>g < n\<close> by simp
  then show "root_points w n (Suc g) (2 * k + 1) = - root_points w n (Suc g) (2 * k)"
    unfolding root_points_def even power_add using assms by simp
qed

lemma root_twiddle:
  assumes "Suc g \<le> n" and "k < 2 ^ g"
  shows "w ^ rev_bits (n - 1) k = root_points w n (Suc g) (2 * k)"
proof -
  have "rev_bits (n - 1) k = 2 ^ (n - Suc g) * rev_bits g k"
  proof (rule nat_bit_eqI)
    fix i
    have k: "bit k m \<Longrightarrow> m < g" for m using assms(2) by (simp add: less_iff_bits)
    show "bit (rev_bits (n - 1) k) i \<longleftrightarrow> bit (2 ^ (n - Suc g) * rev_bits g k) i"
      using k [of "n - 2 - i"] k [of "n - Suc (Suc i)"] assms(1)
      by (auto simp: bit_rev_bits bit_push_bit_iff mult.commute [of "2 ^ _"] simp flip: push_bit_eq_mult
          intro: arg_cong [of _ _ "bit k"])
  qed
  then show ?thesis by (simp add: root_points_def rev_bits_Suc power_mult)
qed

text \<open>So the transform of \<open>2 ^ n\<close> coefficients: its value \<open>j\<close> is the polynomial's at \<open>w ^ rev j\<close>.\<close>

lemma transform_evaluates:
  assumes "w ^ 2 ^ (n - 1) = - 1" and "\<And>k. k < 2 ^ (n - 1) \<Longrightarrow> t k = w ^ rev_bits (n - 1) k"
    and "length xs = 2 ^ n" and "j < 2 ^ n"
  shows "transform t n 0 xs ! j = (\<Sum>i<2 ^ n. xs ! i * (w ^ rev_bits n j) ^ i)"
proof -
  have "t k = root_points w n (Suc g) (2 * k)" if "Suc g \<le> n" "k < 2 ^ g" for g k
  proof -
    have "(2 :: nat) ^ g \<le> 2 ^ (n - 1)" using that(1) by (intro power_increasing) simp_all
    with that(2) have "k < 2 ^ (n - 1)" by (rule less_le_trans)
    from assms(2) [OF this] root_twiddle [OF that] show ?thesis by (rule trans)
  qed
  from transform_values [OF splits_root_points [OF assms(1)] this assms(3), of 0 0 j] assms(4)
  show ?thesis by (simp add: root_points_def)
qed

section \<open>What the loops compute\<close>

text \<open>
  The elements that are transformed: a field over the complex extension, with the
  multiplications by its elements and by those of the base field.
\<close>

locale transformable = field_impl E okE valE for E :: "'e field_ops" and okE and valE :: "'e \<Rightarrow> 'g::field" +
  fixes mulb :: "'e \<Rightarrow> complex31 \<Rightarrow> 'e" and emb :: "gf2 \<Rightarrow> 'g" and mulp :: "'e \<Rightarrow> m31 \<Rightarrow> 'e"
  assumes mulb: "okE x \<Longrightarrow> complex_ok s \<Longrightarrow> okE (mulb x s) \<and> valE (mulb x s) = valE x * emb (complex_val s)"
    and mulp: "okE x \<Longrightarrow> valid p \<Longrightarrow> okE (mulp x p) \<and> valE (mulp x p) = valE x * emb (GF2 (val31 p) 0)"
    and emb_one: "emb 1 = 1" and emb_mult: "emb (a * b) = emb a * emb b" and emb_add: "emb (a + b) = emb a + emb b"
begin

lemma emb_zero: "emb 0 = 0"
  using emb_add [of 0 0] by (metis add.right_neutral add_left_cancel)

lemma emb_minus: "emb (- a) = - emb a"
  using emb_add [of a "- a"] by (simp add: emb_zero eq_neg_iff_add_eq_0 add.commute)

lemma emb_power: "emb (a ^ n) = emb a ^ n"
  by (induction n) (simp_all add: emb_one emb_mult)

lemma emb_of_nat: "emb (of_nat n) = of_nat n"
  by (induction n) (simp_all add: emb_zero emb_one emb_add)

lemma emb_inj: "emb a = emb b \<longleftrightarrow> a = b"
proof
  assume eq: "emb a = emb b"
  have zero: "emb (a - b) = 0" using emb_add [of a "- b"] eq by (simp add: emb_minus)
  show "a = b"
  proof (rule ccontr)
    assume "a \<noteq> b"
    then have "emb ((a - b) * inverse (a - b)) = 1" by (simp add: emb_one)
    with zero show False by (simp only: emb_mult) simp
  qed
qed simp

definition scales :: "('e \<Rightarrow> 'e) \<Rightarrow> 'g \<Rightarrow> bool" where
  "scales scale s \<longleftrightarrow> (\<forall>x. okE x \<longrightarrow> okE (scale x) \<and> valE (scale x) = valE x * s)"

lemma scaled_blocks:
  assumes "scales scale s" and "list_all okE xs" and "length xs = 2 * d"
  shows "list_all okE (lower E scale xs)" "list_all okE (upper E scale xs)"
    "map valE (lower E scale xs) = map2 (\<lambda>a b. a + b * s) (take d (map valE xs)) (drop d (map valE xs))"
    "map valE (upper E scale xs) = map2 (\<lambda>a b. a - b * s) (take d (map valE xs)) (drop d (map valE xs))"
proof -
  have half: "okE (take d xs ! i)" "okE (drop d xs ! i)" if "i < d" for i
    using that assms(2,3) by (simp_all add: list_all_length)
  have v: "okE (scale (drop d xs ! i))" "valE (scale (drop d xs ! i)) = valE (drop d xs ! i) * s" if "i < d" for i
    using assms(1) half(2) [OF that] by (auto simp: scales_def)
  show "list_all okE (lower E scale xs)" "list_all okE (upper E scale xs)"
    using assms(3) by (auto simp: lower_def upper_def list_all_length add sub half v simp del: nth_drop nth_take)
  show "map valE (lower E scale xs) = map2 (\<lambda>a b. a + b * s) (take d (map valE xs)) (drop d (map valE xs))"
    "map valE (upper E scale xs) = map2 (\<lambda>a b. a - b * s) (take d (map valE xs)) (drop d (map valE xs))"
    using assms(3)
    by (auto intro!: nth_equalityI simp: lower_def upper_def take_map drop_map add sub half v simp del: nth_drop nth_take)
qed

lemma split_levels_values:
  assumes "list_all complex_ok omegas" and "list_all okE xs" and "length xs = 2 ^ r"
    and "0 < r \<longrightarrow> (k + 1) * 2 ^ (r - 1) \<le> length omegas"
  shows "list_all okE (concat (split_levels E (by_twiddle mulb omegas) r k xs)) \<and>
    map valE (concat (split_levels E (by_twiddle mulb omegas) r k xs)) =
    transform (\<lambda>k. emb (complex_val (omegas ! k))) r k (map valE xs)"
  using assms(2-4)
proof (induction r arbitrary: k xs)
  case (Suc r)
  let ?s = "by_twiddle mulb omegas k"
  have len: "length xs = 2 * 2 ^ r" using Suc.prems(2) by simp
  have "(k + 1) * 1 \<le> (k + 1) * 2 ^ r" by (rule mult_left_mono) simp_all
  also have "(k + 1) * 2 ^ r \<le> length omegas" using Suc.prems(3) by simp
  finally have "complex_ok (omegas ! k)" using assms(1) by (simp add: list_all_length)
  then have "scales ?s (emb (complex_val (omegas ! k)))" by (simp add: scales_def by_twiddle_def mulb)
  note blocks = scaled_blocks [OF this Suc.prems(1) len]
  have enough: "0 < r \<longrightarrow> (2 * k + 1) * 2 ^ (r - 1) \<le> length omegas" "0 < r \<longrightarrow> (2 * k + 1 + 1) * 2 ^ (r - 1) \<le> length omegas"
    using Suc.prems(3) by (cases r; simp add: algebra_simps)+
  from Suc.IH [OF blocks(1) half_lengths(1) [OF len] enough(1)] Suc.IH [OF blocks(2) half_lengths(2) [OF len] enough(2)]
  show ?case by (simp add: blocks(3,4) Let_def)
qed simp

lemma ntt_result_values:
  assumes "list_all complex_ok omegas" and "list_all okE a" and "length a = 2 ^ Suc l" and "length omegas = 2 ^ l"
    and "complex_val (omegas ! 0) = 1"
  shows "list_all okE (ntt_result E mulb omegas l a) \<and>
    map valE (ntt_result E mulb omegas l a) = transform (\<lambda>k. emb (complex_val (omegas ! k))) (Suc l) 0 (map valE a)"
proof -
  have len: "length a = 2 * 2 ^ l" using assms(3) by simp
  have "scales (\<lambda>v. v) 1" by (simp add: scales_def)
  note blocks = scaled_blocks [OF this assms(2) len]
  have enough: "0 < l \<longrightarrow> (0 + 1) * 2 ^ (l - 1) \<le> length omegas" "0 < l \<longrightarrow> (1 + 1) * 2 ^ (l - 1) \<le> length omegas"
    using assms(4) by (cases l; simp)+
  note vals = split_levels_values [OF assms(1) blocks(1) half_lengths(1) [OF len] enough(1)]
    split_levels_values [OF assms(1) blocks(2) half_lengths(2) [OF len] enough(2)]
  show ?thesis
    using vals by (simp add: ntt_result_def level_blocks_Cons blocks(3,4) assms(5) emb_one Let_def)
qed

end

text \<open>With the twiddles of a root of unity \<open>w\<close>, in bit-reversed order.\<close>

definition twiddle_list :: "gf2 \<Rightarrow> nat \<Rightarrow> complex31 list \<Rightarrow> bool" where
  "twiddle_list w l omegas \<longleftrightarrow> length omegas = 2 ^ l \<and> list_all complex_ok omegas \<and>
     (\<forall>k < 2 ^ l. complex_val (omegas ! k) = w ^ rev_bits l k)"

context transformable
begin

lemma ntt_result_evaluates:
  assumes "twiddle_list w l omegas" and "w ^ 2 ^ l = - 1" and "list_all okE a" and "length a = 2 ^ Suc l" and "j < 2 ^ Suc l"
  shows "valE (ntt_result E mulb omegas l a ! j) = (\<Sum>i<2 ^ Suc l. valE (a ! i) * (emb w ^ rev_bits (Suc l) j) ^ i)"
proof -
  have first: "complex_val (omegas ! 0) = 1"
  proof -
    have "rev_bits l 0 = 0" by (rule nat_bit_eqI) (simp add: bit_rev_bits)
    with assms(1) show ?thesis by (simp add: twiddle_list_def)
  qed
  note omegas = assms(1) [unfolded twiddle_list_def]
  have vals: "map valE (ntt_result E mulb omegas l a) =
      transform (\<lambda>k. emb (complex_val (omegas ! k))) (Suc l) 0 (map valE a)"
    using ntt_result_values [of omegas a l] omegas assms(3,4) first by blast
  have len: "length (ntt_result E mulb omegas l a) = 2 ^ Suc l"
    using arg_cong [OF vals, of length] length_transform [of "map valE a" "Suc l"] assms(4) by (simp del: transform.simps)
  have "valE (ntt_result E mulb omegas l a ! j) = map valE (ntt_result E mulb omegas l a) ! j" using len assms(5) by simp
  also have "\<dots> = transform (\<lambda>k. emb (complex_val (omegas ! k))) (Suc l) 0 (map valE a) ! j" by (simp only: vals)
  also have "\<dots> = (\<Sum>i<2 ^ Suc l. map valE a ! i * (emb w ^ rev_bits (Suc l) j) ^ i)"
  proof (rule transform_evaluates)
    show "emb w ^ 2 ^ (Suc l - 1) = - 1" using assms(2) by (simp add: emb_power [symmetric] emb_minus emb_one)
    show "emb (complex_val (omegas ! k)) = emb w ^ rev_bits (Suc l - 1) k" if "k < 2 ^ (Suc l - 1)" for k
      using omegas that by (simp add: emb_power)
  qed (use assms(4,5) in simp_all)
  also have "\<dots> = (\<Sum>i<2 ^ Suc l. valE (a ! i) * (emb w ^ rev_bits (Suc l) j) ^ i)"
    using assms(4) by (intro sum.cong) simp_all
  finally show ?thesis .
qed

end

end
