(* ===== verification/Fft.thy ===== *)
theory Fft
  imports Ntt
begin

text \<open>
  The entry points of \<open>fft/src/column_major/naive.rs\<close> with the twiddles of
  \<open>fft/src/row_major/precomputes.rs\<close>: values of a polynomial on a coset, and back.
\<close>

section \<open>Twiddles\<close>

definition domain_omega :: "cfg \<Rightarrow> bool \<Rightarrow> nat \<Rightarrow> complex31 res" where
  "domain_omega c inversed fft_size =
     bindR (domain_generator_for_size c complex_ops TWO_ADICITY TWO_ADIC_GENERATOR (of_nat fft_size)) (\<lambda>omega.
       if inversed then (case complex_inverse omega of None \<Rightarrow> Inl AssertFailed | Some omega_inv \<Rightarrow> Inr omega_inv)
       else Inr omega)"

definition precompute_twiddles_for_fft :: "cfg \<Rightarrow> bool \<Rightarrow> nat \<Rightarrow> nat \<Rightarrow> complex31 list res" where
  "precompute_twiddles_for_fft c inversed num_cores fft_size =
     debug_assert (debug_assertions c) (is_power_of_two fft_size)
     (bindR (domain_omega c inversed fft_size) (\<lambda>omega.
      bindR (materialize_powers_parallel_starting_with_one complex_ops num_cores omega (fft_size div 2)) (\<lambda>powers.
      bitreverse_enumeration_inplace c powers)))"

definition precompute_all_twiddles_for_fft_serial :: "cfg \<Rightarrow> bool \<Rightarrow> nat \<Rightarrow> complex31 list res" where
  "precompute_all_twiddles_for_fft_serial c inversed fft_size =
     debug_assert (debug_assertions c) (is_power_of_two fft_size)
     (bindR (domain_omega c inversed fft_size) (\<lambda>omega.
      guardR (complex_eq (f_pow complex_ops omega (of_nat fft_size)) (f_one complex_ops)) AssertFailed
        (bitreverse_enumeration_inplace c
          (materialize_powers_serial_starting_with_one complex_ops omega (fft_size div 2)))))"

definition precompute_forward_twiddles_for_fft :: "cfg \<Rightarrow> nat \<Rightarrow> nat \<Rightarrow> complex31 list res" where
  "precompute_forward_twiddles_for_fft c num_cores domain_size = precompute_twiddles_for_fft c False num_cores domain_size"

definition precompute_inverse_twiddles_for_fft :: "cfg \<Rightarrow> nat \<Rightarrow> nat \<Rightarrow> complex31 list res" where
  "precompute_inverse_twiddles_for_fft c num_cores domain_size = precompute_twiddles_for_fft c True num_cores domain_size"

section \<open>Transforms\<close>

text \<open>\<open>E\<close> are the operations on the elements, \<open>mulb\<close> and \<open>mulp\<close> their products with the twiddles' field and the base field.\<close>

definition on_coset ::
  "('e \<Rightarrow> complex31 \<Rightarrow> 'e) \<Rightarrow> 'e list \<Rightarrow> complex31 \<Rightarrow> complex31 \<Rightarrow> 'e list" where
  "on_coset mulb input coset_initial coset_step =
     (if \<not> complex_eq coset_initial (f_one complex_ops) \<or> \<not> complex_eq coset_step (f_one complex_ops)
      then distribute_powers_serial complex_ops mulb input coset_initial coset_step
      else input)"

definition fft_natural_to_bitreversed ::
  "cfg \<Rightarrow> 'e field_ops \<Rightarrow> ('e \<Rightarrow> complex31 \<Rightarrow> 'e) \<Rightarrow> 'e list \<Rightarrow> complex31 \<Rightarrow> complex31 \<Rightarrow> complex31 list \<Rightarrow> 'e list res" where
  "fft_natural_to_bitreversed c E mulb input coset_initial coset_step twiddles =
     debug_assert (debug_assertions c) (is_power_of_two (length input))
     (debug_assert (debug_assertions c) (length input = length twiddles * 2)
      (let input = on_coset mulb input coset_initial coset_step in
       cache_friendly_ntt_natural_to_bitreversed c E mulb input (usize_trailing_zeros (length input)) twiddles))"

definition fft_natural_to_natural ::
  "cfg \<Rightarrow> 'e field_ops \<Rightarrow> ('e \<Rightarrow> complex31 \<Rightarrow> 'e) \<Rightarrow> 'e list \<Rightarrow> complex31 \<Rightarrow> complex31 \<Rightarrow> complex31 list \<Rightarrow> 'e list res" where
  "fft_natural_to_natural c E mulb input coset_initial coset_step twiddles =
     debug_assert (debug_assertions c) (is_power_of_two (length input))
     (debug_assert (debug_assertions c) (length input = length twiddles * 2)
      (let input = on_coset mulb input coset_initial coset_step in
       bindR (cache_friendly_ntt_natural_to_bitreversed c E mulb input (usize_trailing_zeros (length input)) twiddles)
         (bitreverse_enumeration_inplace c)))"

definition partial_ifft_natural_to_natural ::
  "cfg \<Rightarrow> 'e field_ops \<Rightarrow> ('e \<Rightarrow> complex31 \<Rightarrow> 'e) \<Rightarrow> 'e list \<Rightarrow> complex31 \<Rightarrow> complex31 list \<Rightarrow> 'e list res" where
  "partial_ifft_natural_to_natural c E mulb input coset twiddles =
     debug_assert (debug_assertions c) (is_power_of_two (length input))
     (debug_assert (debug_assertions c) (length input = length twiddles * 2)
      (bindR (serial_ct_ntt_natural_to_bitreversed c E mulb input (usize_trailing_zeros (length input)) twiddles) (\<lambda>a.
       bindR (bitreverse_enumeration_inplace c a) (\<lambda>a.
       if \<not> complex_eq coset (f_one complex_ops)
       then (case complex_inverse coset of
               None \<Rightarrow> Inl AssertFailed
             | Some coset \<Rightarrow> Inr (distribute_powers_serial complex_ops mulb a (f_one complex_ops) coset))
       else Inr a))))"

definition ifft_natural_to_natural ::
  "cfg \<Rightarrow> 'e field_ops \<Rightarrow> ('e \<Rightarrow> complex31 \<Rightarrow> 'e) \<Rightarrow> ('e \<Rightarrow> m31 \<Rightarrow> 'e) \<Rightarrow> 'e list \<Rightarrow> complex31 \<Rightarrow> complex31 list \<Rightarrow> 'e list res" where
  "ifft_natural_to_natural c E mulb mulp input coset twiddles =
     bindR (partial_ifft_natural_to_natural c E mulb input coset twiddles) (\<lambda>a.
       if 1 < length a
       then (case m31_inverse (m31_from_u64_with_reduction (of_nat (length a))) of
               None \<Rightarrow> Inl AssertFailed
             | Some n_inv \<Rightarrow> Inr (map (\<lambda>x. mulp x n_inv) a))
       else Inr a)"

section \<open>The twiddles are powers of a root of unity\<close>


lemma half_power: "(2 :: nat) ^ Suc l div 2 = 2 ^ l"
  by simp

definition omega_val :: "bool \<Rightarrow> nat \<Rightarrow> gf2" where
  "omega_val inversed k = (if inversed then inverse (root_of_unity k) else root_of_unity k)"

lemma omega_order:
  assumes "k \<le> 31"
  shows "omega_val inversed k ^ n = 1 \<longleftrightarrow> 2 ^ k dvd n"
  using root_order [OF assms, of n] by (auto simp: omega_val_def power_inverse)

lemma omega_half:
  assumes "Suc l \<le> 31"
  shows "omega_val inversed (Suc l) ^ 2 ^ l = - 1"
proof -
  have "root_of_unity (Suc l) ^ 2 ^ l = - 1"
    using assms generator_half by (simp only: square_of_root) simp
  then show ?thesis by (simp add: omega_val_def power_inverse)
qed

lemma domain_omega:
  assumes "k \<le> 31"
  obtains w where "domain_omega c inversed (2 ^ k) = Inr w" "complex_ok w" "complex_val w = omega_val inversed k"
proof -
  from host.generator_for_size [OF assms, of c] obtain w where
    w: "domain_generator_for_size c complex_ops TWO_ADICITY TWO_ADIC_GENERATOR (push_bit k 1) = Inr w" "complex_ok w"
      "complex_val w = root_of_unity k" by blast
  have size: "(of_nat (2 ^ k) :: u64) = push_bit k 1" by (simp add: push_bit_eq_mult)
  have "root_of_unity k \<noteq> 0" using root_order [OF assms, of "2 ^ k"] by (auto simp: power_0_left)
  with FieldContract.complex_inverse [OF w(2)] w(3) obtain v where "complex_inverse w = Some v" "complex_ok v" "complex_val v = inverse (root_of_unity k)"
    by (cases "complex_inverse w") auto
  with w that show thesis by (cases inversed) (auto simp: domain_omega_def size omega_val_def)
qed

lemma reversed_powers:
  assumes "list_all complex_ok powers" and "map complex_val powers = map (\<lambda>i. w ^ i) [0..<2 ^ l]"
  shows "twiddle_list w l (reversed l powers)"
proof -
  have len: "length powers = 2 ^ l" using arg_cong [OF assms(2), of length] by simp
  have "complex_val (powers ! i) = w ^ i" if "i < 2 ^ l" for i
    using arg_cong [OF assms(2), of "\<lambda>l. l ! i"] that len by simp
  then show ?thesis
    using assms(1) len by (auto simp: twiddle_list_def reversed_def list_all_length rev_bits_less)
qed

lemma twiddles:
  assumes "Suc l \<le> 31" and "num_cores \<noteq> 0"
  obtains tw tw' where "precompute_twiddles_for_fft c inversed num_cores (2 ^ Suc l) = Inr tw"
      "twiddle_list (omega_val inversed (Suc l)) l tw"
      "precompute_all_twiddles_for_fft_serial c inversed (2 ^ Suc l) = Inr tw'"
      "twiddle_list (omega_val inversed (Suc l)) l tw'"
proof -
  from domain_omega [OF assms(1), of c inversed] obtain w where
    w: "domain_omega c inversed (2 ^ Suc l) = Inr w" "complex_ok w" "complex_val w = omega_val inversed (Suc l)" by blast
  have l: "l \<le> 31" "l < 64" using assms(1) by simp_all
  have pow2: "is_power_of_two (2 ^ Suc l)" "is_power_of_two (2 ^ l)" using assms(1) by (intro power_of_two_length; simp)+
  have "(2 :: nat) ^ l \<le> 2 ^ 32" using l by (intro power_increasing) simp_all
  from complex.materialize_in_chunks [OF assms(2) pow2(2) this w(2), of "\<lambda>x. x" 1] obtain ps where
    ps: "materialize_powers_parallel_starting_with_one complex_ops num_cores w (2 ^ l) = Inr ps" "list_all complex_ok ps"
      "map complex_val ps = map (\<lambda>i. omega_val inversed (Suc l) ^ i) [0..<2 ^ l]"
    by (auto simp: materialize_powers_parallel_starting_with_one_def w(3))
  let ?qs = "materialize_powers_serial_starting_with_one complex_ops w (2 ^ l)"
  have qs: "list_all complex_ok ?qs" "map complex_val ?qs = map (\<lambda>i. omega_val inversed (Suc l) ^ i) [0..<2 ^ l]"
    using complex.powers_from [of "f_one complex_ops" w "2 ^ l"] w(2)
    by (simp_all add: materialize_powers_serial_starting_with_one_def materialize_powers_serial_impl_def complex.one w(3))
  have len: "length ps = 2 ^ l" "length ?qs = 2 ^ l"
    using arg_cong [OF ps(3), of length] arg_cong [OF qs(2), of length] by simp_all
  have "unat (of_nat (2 ^ Suc l) :: u32) = 2 ^ Suc l"
  proof -
    have "(2 :: nat) ^ Suc l < 2 ^ 32" using assms(1) by (intro power_strict_increasing) simp_all
    then show ?thesis by (simp only: unat_of_nat) simp
  qed
  with complex.pow [OF w(2), of "of_nat (2 ^ Suc l)"] w(3) omega_order [OF assms(1), of inversed "2 ^ Suc l"]
  have "complex_ok (f_pow complex_ops w (of_nat (2 ^ Suc l)))" "complex_val (f_pow complex_ops w (of_nat (2 ^ Suc l))) = 1"
    by (simp_all only: dvd_refl)
  with complex_linear(3) [OF _ complex.one(1)]
  have check: "complex_eq (f_pow complex_ops w (of_nat (2 ^ Suc l))) (f_one complex_ops)"
    by (simp only: complex.one(2))
  show thesis
  proof
    show "precompute_twiddles_for_fft c inversed num_cores (2 ^ Suc l) = Inr (reversed l ps)"
      using w(1) ps(1) bitreverse_reversed [OF len(1) l(1), of 1 c] pow2(1)
      by (simp add: precompute_twiddles_for_fft_def half_power del: power_Suc)
    show "precompute_all_twiddles_for_fft_serial c inversed (2 ^ Suc l) = Inr (reversed l ?qs)"
      using w(1) check bitreverse_reversed [OF len(2) l(1), of 1 c] pow2(1)
      by (simp add: precompute_all_twiddles_for_fft_serial_def half_power del: power_Suc)
  qed (use reversed_powers ps(2,3) qs in auto)
qed

section \<open>Forward and back\<close>

lemma geometric_zero:
  fixes x :: "'g::field"
  assumes "x ^ n = 1" and "x \<noteq> 1"
  shows "(\<Sum>j<n. x ^ j) = 0"
  using assms by (simp add: geometric_sum)

text \<open>Orthogonality: transforming with \<open>w\<close> and then with its inverse multiplies by \<open>n\<close>.\<close>

lemma transform_back:
  fixes w :: "'g::field"
  assumes order: "\<And>i. w ^ i = 1 \<longleftrightarrow> n dvd i" and "m < n"
  shows "(\<Sum>j<n. (\<Sum>i<n. b i * (w ^ j) ^ i) * (inverse w ^ m) ^ j) = of_nat n * b m"
proof -
  have w: "w \<noteq> 0" using order [of n] assms(2) by (auto simp: power_0_left)
  have "(\<Sum>j<n. (\<Sum>i<n. b i * (w ^ j) ^ i) * (inverse w ^ m) ^ j) =
      (\<Sum>j<n. \<Sum>i<n. b i * (w ^ i * inverse w ^ m) ^ j)"
    by (simp add: sum_distrib_right power_mult_distrib mult.assoc power_mult [symmetric] mult.commute [of _ "_ :: nat"])
  also have "\<dots> = (\<Sum>i<n. b i * (\<Sum>j<n. (w ^ i * inverse w ^ m) ^ j))"
    by (subst sum.swap) (simp add: sum_distrib_left)
  also have "\<dots> = (\<Sum>i<n. if i = m then of_nat n * b m else 0)"
  proof (rule sum.cong [OF refl])
    fix i assume "i \<in> {..<n}"
    then have i: "i < n" by simp
    show "b i * (\<Sum>j<n. (w ^ i * inverse w ^ m) ^ j) = (if i = m then of_nat n * b m else 0)"
    proof (cases "i = m")
      case True
      then have "w ^ i * inverse w ^ m = 1" using w by (simp flip: power_mult_distrib)
      then show ?thesis by (simp add: True)
    next
      case False
      have "w ^ i * inverse w ^ m \<noteq> 1"
      proof
        assume "w ^ i * inverse w ^ m = 1"
        then have eq: "w ^ i = w ^ m" using w by (simp add: power_inverse field_simps)
        have shift: "w ^ d = 1" if "w ^ a = w ^ (a + d)" for a d using that w by (simp add: power_add)
        have none: "w ^ d \<noteq> 1" if "0 < d" "d < n" for d using order [of d] that by (auto dest: dvd_imp_le)
        from False consider "i < m" | "m < i" by linarith
        then show False
        proof cases
          case 1
          with shift [of i "m - i"] none [of "m - i"] eq assms(2) show False by simp
        next
          case 2
          with shift [of m "i - m"] none [of "i - m"] eq i show False by simp
        qed
      qed
      moreover have "(w ^ i * inverse w ^ m) ^ n = 1"
      proof -
        have "w ^ n = 1" using order [of n] by simp
        then have "(w ^ i) ^ n = 1" "(inverse w ^ m) ^ n = 1"
          by (simp_all add: power_mult [symmetric] mult.commute [of _ n]) (simp_all add: power_mult power_inverse)
        then show ?thesis by (simp add: power_mult_distrib)
      qed
      ultimately show ?thesis using False by (simp add: geometric_zero)
    qed
  qed
  finally show ?thesis using assms(2) by simp
qed

lemma gf2_of_nat: "of_nat n = GF2 (of_nat n) 0"
  by (induction n) (auto intro!: gf2_eqI)

lemma gf2_mult_real: "GF2 a 0 * GF2 b 0 = GF2 (a * b) 0"
  by (auto intro!: gf2_eqI)

lemma length_in_field:
  assumes "l < 31"
  shows "valid (m31_from_u64_with_reduction (of_nat (2 ^ Suc l)))"
    "val31 (m31_from_u64_with_reduction (of_nat (2 ^ Suc l))) = of_nat (2 ^ Suc l)"
    "val31 (m31_from_u64_with_reduction (of_nat (2 ^ Suc l))) \<noteq> 0"
proof -
  let ?x = "m31_from_u64_with_reduction (of_nat (2 ^ Suc l))"
  have "(2 :: nat) ^ Suc l < 2 ^ 64" using assms by (intro power_strict_increasing) simp_all
  then have "unat (of_nat (2 ^ Suc l) :: u64) = 2 ^ Suc l" by (simp only: unat_of_nat) simp
  then have x: "unat ?x = 2 ^ Suc l mod P"
    unfolding m31_from_u64_with_reduction_def by (simp add: unat_ucast unat_mod ORDER_def del: power_Suc)
  then show "valid ?x" by (simp add: valid_def del: power_Suc)
  have "fv ?x = 2 ^ Suc l mod P" unfolding fv_def x by simp
  then show val: "val31 ?x = of_nat (2 ^ Suc l)" by (rule val31_mod)
  have "(2 :: nat) ^ Suc l mod P \<noteq> 0"
  proof -
    have "Suc l \<le> 30 \<or> Suc l = 31" using assms by linarith
    then show ?thesis
    proof
      assume "Suc l \<le> 30"
      then have "(2 :: nat) ^ Suc l \<le> 2 ^ 30" by (intro power_increasing) simp_all
      then have "(2 :: nat) ^ Suc l < P" by simp
      then have "(2 :: nat) ^ Suc l mod P = 2 ^ Suc l" by (rule mod_less)
      then show ?thesis by (simp only:) simp
    next
      assume "Suc l = 31"
      then show ?thesis by (simp only:) simp
    qed
  qed
  then show "val31 ?x \<noteq> 0" unfolding val using of_nat_gf_eq [of "2 ^ Suc l" 0] by (simp del: power_Suc)
qed

context transformable
begin

lemma distribute_powers_values:
  assumes "complex_ok step" and "complex_ok a" and "list_all okE xs"
  shows "length (distribute_powers_serial complex_ops mulb xs a step) = length xs \<and>
    list_all okE (distribute_powers_serial complex_ops mulb xs a step) \<and>
    (\<forall>i < length xs. valE (distribute_powers_serial complex_ops mulb xs a step ! i) =
       valE (xs ! i) * emb (complex_val a * complex_val step ^ i))"
  using assms(2,3)
proof (induction xs arbitrary: a)
  case (Cons x xs)
  have "complex_ok (f_mul complex_ops a step)" "complex_val (f_mul complex_ops a step) = complex_val a * complex_val step"
    using complex.mul [OF Cons.prems(1) assms(1)] by simp_all
  with Cons.IH [of "f_mul complex_ops a step"] Cons.prems show ?case
    by (auto simp: mulb nth_Cons mult.assoc split: nat.splits)
qed simp

lemma on_coset:
  assumes "complex_ok coset_initial" and "complex_ok coset_step" and "list_all okE xs"
  shows "length (on_coset mulb xs coset_initial coset_step) = length xs \<and>
    list_all okE (on_coset mulb xs coset_initial coset_step) \<and>
    (\<forall>i < length xs. valE (on_coset mulb xs coset_initial coset_step ! i) =
       valE (xs ! i) * emb (complex_val coset_initial * complex_val coset_step ^ i))"
proof (cases "complex_eq coset_initial (f_one complex_ops) \<and> complex_eq coset_step (f_one complex_ops)")
  case True
  then have "complex_val coset_initial = 1" "complex_val coset_step = 1"
    using complex_linear(3) [OF _ complex.one(1)] assms(1,2) complex.one(2) by auto
  then show ?thesis using True assms(3) by (simp add: on_coset_def emb_one)
next
  case False
  then show ?thesis using distribute_powers_values [OF assms(2,1,3)] by (auto simp: on_coset_def)
qed

lemma natural_order:
  assumes "length out = 2 ^ n" and "j < 2 ^ n"
  shows "reversed n out ! j = out ! rev_bits n j" "length (reversed n out) = 2 ^ n"
  using assms by (simp_all add: reversed_def)

text \<open>The result of the in-place loops, and its reversal.\<close>

lemma ntt_evaluates:
  assumes "twiddle_list w l tw" and "w ^ 2 ^ l = - 1" and "list_all okE a" and "length a = 2 ^ Suc l" and "l < 31"
  shows "\<exists>out. cache_friendly_ntt_natural_to_bitreversed c E mulb a (usize_trailing_zeros (length a)) tw = Inr out \<and>
    serial_ct_ntt_natural_to_bitreversed c E mulb a (usize_trailing_zeros (length a)) tw = Inr out \<and>
    length out = 2 ^ Suc l \<and> list_all okE out \<and>
    bitreverse_enumeration_inplace c out = Inr (reversed (Suc l) out) \<and> list_all okE (reversed (Suc l) out) \<and>
    (\<forall>j < 2 ^ Suc l. valE (reversed (Suc l) out ! j) = (\<Sum>i<2 ^ Suc l. valE (a ! i) * (emb w ^ j) ^ i))"
proof (intro exI conjI allI impI)
  have tz: "usize_trailing_zeros (length a) = Suc l"
    unfolding assms(4) using assms(5) by (intro usize_trailing_zeros) simp
  have lens: "length tw = 2 ^ l" "list_all complex_ok tw" using assms(1) by (simp_all add: twiddle_list_def)
  let ?out = "ntt_result E mulb tw l a"
  show "cache_friendly_ntt_natural_to_bitreversed c E mulb a (usize_trailing_zeros (length a)) tw = Inr ?out"
    "serial_ct_ntt_natural_to_bitreversed c E mulb a (usize_trailing_zeros (length a)) tw = Inr ?out"
    unfolding tz using cache_friendly_ntt serial_ct_ntt assms(4) lens(1) by blast+
  have first: "complex_val (tw ! 0) = 1"
  proof -
    have "rev_bits l 0 = 0" by (rule nat_bit_eqI) (simp add: bit_rev_bits)
    with assms(1) show ?thesis by (simp add: twiddle_list_def)
  qed
  note vals = ntt_result_values [OF lens(2) assms(3,4) lens(1) first]
  show ok: "list_all okE ?out" using vals by blast
  show len: "length ?out = 2 ^ Suc l"
    using arg_cong [OF conjunct2 [OF vals], of length] length_transform [of "map valE a" "Suc l"] assms(4)
    by (simp del: transform.simps)
  show "bitreverse_enumeration_inplace c ?out = Inr (reversed (Suc l) ?out)"
    using bitreverse_reversed [OF len, of 1 c] assms(5) by simp
  show "list_all okE (reversed (Suc l) ?out)"
    using ok len rev_bits_less [of "Suc l"] by (simp add: reversed_def list_all_length del: power_Suc)
  fix j :: nat assume j: "j < 2 ^ Suc l"
  have "rev_bits (Suc l) (rev_bits (Suc l) j) = j" using j by (rule rev_bits_rev_bits)
  then show "valE (reversed (Suc l) ?out ! j) = (\<Sum>i<2 ^ Suc l. valE (a ! i) * (emb w ^ j) ^ i)"
    unfolding natural_order(1) [OF len j] ntt_result_evaluates [OF assms(1-4) rev_bits_less] by (simp only:)
qed

lemma fft_values:
  assumes "twiddle_list w l tw" and "w ^ 2 ^ l = - 1" and "l < 31" and "length input = 2 ^ Suc l" and "list_all okE input"
    and "complex_ok coset_initial" and "complex_ok coset_step"
  shows "\<exists>out. fft_natural_to_bitreversed c E mulb input coset_initial coset_step tw = Inr out \<and>
    fft_natural_to_natural c E mulb input coset_initial coset_step tw = Inr (reversed (Suc l) out) \<and>
    length out = 2 ^ Suc l \<and> list_all okE (reversed (Suc l) out) \<and>
    (\<forall>j < 2 ^ Suc l. valE (reversed (Suc l) out ! j) =
      (\<Sum>i<2 ^ Suc l. valE (input ! i) * emb (complex_val coset_initial * (complex_val coset_step * w ^ j) ^ i)))"
proof -
  let ?a = "on_coset mulb input coset_initial coset_step"
  note a = on_coset [OF assms(6,7,5)]
  have len: "length ?a = 2 ^ Suc l" using a assms(4) by simp
  from ntt_evaluates [OF assms(1,2) _ len assms(3), of c] a obtain out where
    out: "cache_friendly_ntt_natural_to_bitreversed c E mulb ?a (usize_trailing_zeros (length ?a)) tw = Inr out"
      "length out = 2 ^ Suc l" "bitreverse_enumeration_inplace c out = Inr (reversed (Suc l) out)"
      "list_all okE (reversed (Suc l) out)"
      "\<And>j. j < 2 ^ Suc l \<Longrightarrow> valE (reversed (Suc l) out ! j) = (\<Sum>i<2 ^ Suc l. valE (?a ! i) * (emb w ^ j) ^ i)"
    by blast
  have pow2: "is_power_of_two (length input)" unfolding assms(4) using assms(3) by (intro power_of_two_length) simp
  have "length input = length tw * 2" using assms(1,4) by (simp add: twiddle_list_def)
  moreover have "(\<Sum>i<2 ^ Suc l. valE (?a ! i) * (emb w ^ j) ^ i) =
      (\<Sum>i<2 ^ Suc l. valE (input ! i) * emb (complex_val coset_initial * (complex_val coset_step * w ^ j) ^ i))" for j
    using a assms(4) by (intro sum.cong) (simp_all add: emb_mult emb_power power_mult_distrib mult.assoc)
  ultimately show ?thesis
    using out pow2 by (intro exI [of _ out]) (simp add: fft_natural_to_bitreversed_def fft_natural_to_natural_def Let_def)
qed

lemma round_trip_value:
  assumes "Suc l \<le> 31" and "m < 2 ^ Suc l" and "g \<noteq> 0"
  shows "(\<Sum>j<2 ^ Suc l. (\<Sum>i<2 ^ Suc l. b i * emb ((g * omega_val False (Suc l) ^ j) ^ i)) *
      (emb (omega_val True (Suc l)) ^ m) ^ j) * emb (inverse g ^ m) * inverse (of_nat (2 ^ Suc l)) = b m"
proof -
  let ?w = "omega_val False (Suc l)" and ?n = "2 ^ Suc l :: nat"
  have order: "emb ?w ^ i = 1 \<longleftrightarrow> ?n dvd i" for i
    using omega_order [OF assms(1), of False i] emb_inj [of "?w ^ i" 1] by (simp only: emb_power emb_one)
  have inv: "emb (omega_val True (Suc l)) = inverse (emb ?w)"
  proof -
    have "?w \<noteq> 0" using omega_order [OF assms(1), of False ?n] by (auto simp: power_0_left)
    then have "emb ?w * emb (omega_val True (Suc l)) = 1"
      by (simp add: omega_val_def emb_mult [symmetric] emb_one)
    then show ?thesis using inverse_unique by metis
  qed
  have split: "b i * emb ((g * ?w ^ j) ^ i) = (b i * emb (g ^ i)) * (emb ?w ^ j) ^ i" for i j
    by (simp add: power_mult_distrib emb_mult emb_power mult.assoc)
  have "(\<Sum>j<?n. (\<Sum>i<?n. b i * emb ((g * ?w ^ j) ^ i)) * (emb (omega_val True (Suc l)) ^ m) ^ j) = of_nat ?n * (b m * emb (g ^ m))"
    unfolding split inv by (rule transform_back [OF order assms(2)])
  moreover have "emb (g ^ m) * emb (inverse g ^ m) = 1"
    using assms(3) by (simp add: emb_mult [symmetric] power_mult_distrib [symmetric] emb_one)
  moreover have "(of_nat ?n :: 'g) \<noteq> 0"
  proof -
    have "(of_nat ?n :: gf) \<noteq> 0" using length_in_field(2,3) [of l] assms(1) by simp
    then have "(of_nat ?n :: gf2) \<noteq> 0" unfolding gf2_of_nat by (auto dest: arg_cong [of _ _ re])
    then show ?thesis using emb_inj [of "of_nat ?n" 0] by (simp only: emb_of_nat emb_zero) simp
  qed
  ultimately show ?thesis by (simp add: mult_ac del: power_Suc of_nat_power)
qed

lemma ifft_values:
  assumes "twiddle_list w l tw" and "w ^ 2 ^ l = - 1" and "l < 31" and "length input = 2 ^ Suc l" and "list_all okE input"
    and "complex_ok coset" and "complex_val coset \<noteq> 0"
  shows "\<exists>out. ifft_natural_to_natural c E mulb mulp input coset tw = Inr out \<and> length out = 2 ^ Suc l \<and>
    (\<forall>m < 2 ^ Suc l. valE (out ! m) =
      (\<Sum>j<2 ^ Suc l. valE (input ! j) * (emb w ^ m) ^ j) * emb (inverse (complex_val coset) ^ m) * inverse (of_nat (2 ^ Suc l)))"
proof -
  from ntt_evaluates [OF assms(1,2,5,4,3), of c] obtain a where
    a: "serial_ct_ntt_natural_to_bitreversed c E mulb input (usize_trailing_zeros (length input)) tw = Inr a"
      "bitreverse_enumeration_inplace c a = Inr (reversed (Suc l) a)" "length a = 2 ^ Suc l" "list_all okE (reversed (Suc l) a)"
      "\<And>m. m < 2 ^ Suc l \<Longrightarrow> valE (reversed (Suc l) a ! m) = (\<Sum>j<2 ^ Suc l. valE (input ! j) * (emb w ^ m) ^ j)"
    by blast
  let ?r = "reversed (Suc l) a"
  have pow2: "is_power_of_two (length input)" unfolding assms(4) using assms(3) by (intro power_of_two_length) simp
  have tw: "length input = length tw * 2" using assms(1,4) by (simp add: twiddle_list_def)
  have r: "length ?r = 2 ^ Suc l" by (simp add: reversed_def)
  have "\<exists>b. partial_ifft_natural_to_natural c E mulb input coset tw = Inr b \<and> length b = 2 ^ Suc l \<and> list_all okE b \<and>
      (\<forall>m < 2 ^ Suc l. valE (b ! m) = valE (?r ! m) * emb (inverse (complex_val coset) ^ m))"
  proof (cases "complex_eq coset (f_one complex_ops)")
    case True
    then have "complex_val coset = 1" using complex_linear(3) [OF assms(6) complex.one(1)] complex.one(2) by simp
    then show ?thesis using True a(1,2,4) pow2 tw r by (simp add: partial_ifft_natural_to_natural_def emb_one del: power_Suc)
  next
    case False
    obtain v where v: "complex_inverse coset = Some v" "complex_ok v" "complex_val v = inverse (complex_val coset)"
    proof (rule complex.inverse_cases [OF assms(6)])
      fix y assume "f_inverse complex_ops coset = Some y" "complex_ok y" "complex_val y = inverse (complex_val coset)"
      then show thesis using that [of y] by (simp add: complex_ops_def)
    qed (use assms(7) in simp)
    from distribute_powers_values [OF v(2) complex.one(1) a(4)] show ?thesis
      using False a(1,2) pow2 tw r v(1,3)
      by (intro exI [of _ "distribute_powers_serial complex_ops mulb ?r (f_one complex_ops) v"])
        (simp add: partial_ifft_natural_to_natural_def complex.one(2))
  qed
  then obtain b where b: "partial_ifft_natural_to_natural c E mulb input coset tw = Inr b" "length b = 2 ^ Suc l" "list_all okE b"
    "\<And>m. m < 2 ^ Suc l \<Longrightarrow> valE (b ! m) = valE (?r ! m) * emb (inverse (complex_val coset) ^ m)" by blast
  define p where "p = m31_from_u64_with_reduction (of_nat (length b))"
  have p: "valid p" "val31 p = of_nat (2 ^ Suc l)" "val31 p \<noteq> 0"
    unfolding p_def b(2) by (rule length_in_field [OF assms(3)])+
  then obtain n_inv where n: "m31_inverse p = Some n_inv" "valid n_inv" "val31 n_inv = inverse (val31 p)"
    using base.inverse_cases [OF p(1)] by (auto simp: m31_ops_def)
  have n_val: "emb (GF2 (val31 n_inv) 0) = inverse (of_nat (2 ^ Suc l))"
  proof -
    have "GF2 (val31 n_inv) 0 * of_nat (2 ^ Suc l) = 1"
      unfolding n(3) p(2) using p(2,3) by (simp add: gf2_of_nat gf2_mult_real one_gf2_def del: of_nat_power of_nat_mult power_Suc)
    then have "emb (GF2 (val31 n_inv) 0) * of_nat (2 ^ Suc l) = 1"
      by (metis emb_mult emb_of_nat emb_one)
    then show ?thesis using inverse_unique [of "of_nat (2 ^ Suc l)" "emb (GF2 (val31 n_inv) 0)"] by (simp only: mult.commute)
  qed
  have "(1 :: nat) < 2 ^ Suc l" by (rule one_less_power) simp_all
  then have "ifft_natural_to_natural c E mulb mulp input coset tw = Inr (map (\<lambda>x. mulp x n_inv) b)"
    using b(1,2) n(1) by (simp add: ifft_natural_to_natural_def p_def)
  moreover have "valE (map (\<lambda>x. mulp x n_inv) b ! m) =
      (\<Sum>j<2 ^ Suc l. valE (input ! j) * (emb w ^ m) ^ j) * emb (inverse (complex_val coset) ^ m) * inverse (of_nat (2 ^ Suc l))"
    if "m < 2 ^ Suc l" for m
  proof -
    have "okE (b ! m)" using b(2,3) that by (simp add: list_all_length)
    with mulp [OF this n(2)] that b(2) have "valE (map (\<lambda>x. mulp x n_inv) b ! m) = valE (b ! m) * emb (GF2 (val31 n_inv) 0)"
      by simp
    then show ?thesis unfolding n_val b(4) [OF that] a(5) [OF that] .
  qed
  ultimately show ?thesis using b(2) by (intro exI [of _ "map (\<lambda>x. mulp x n_inv) b"]) (simp del: power_Suc)
qed

end

interpretation complex_transform: transformable complex_ops complex_ok complex_val complex_mul "\<lambda>a. a" complex_mul_by_base
  by unfold_locales (simp_all add: complex_products complex_mixed)

interpretation quartic_transform: transformable "quartic_ops complex_ops" quartic_ok quartic_val
    "quartic_mul_by_complex complex_ops" "\<lambda>a. GF4 a 0" quartic_mul_by_base
  by unfold_locales
    (simp_all add: host.quartic_by_complex host.quartic_mixed, auto intro!: gf4_eqI simp del: gf2_parts)

section \<open>Properties\<close>





end
