(* ===== verification/Hashers.thy ===== *)
theory Hashers
  imports Blake2
begin

text \<open>
  The two hashers a transcript can be driven with: \<open>Blake2sState\<close> of \<open>blake2s_u32/src/baseline.rs\<close> and
  \<open>Blake2RoundFunctionEvaluator\<close> of \<open>state_with_extended_control.rs\<close>, which on the host runs the rounds
  itself and in the guest triggers the delegation of the machine. The locale \<open>hasher\<close> is the contract
  both keep; the digest they compute is stated apart from them.
\<close>

section \<open>The evaluator\<close>

record Evaluator =
  ev_state :: "u32 list"
  ev_extended_state :: "u32 list"
  ev_input_buffer :: "u32 list"
  ev_t :: u32

definition ev_reset :: "Evaluator \<Rightarrow> Evaluator" where
  "ev_reset e = e \<lparr> ev_state := CONFIGURED_IV, ev_t := 0 \<rparr>"

text \<open>\<open>new\<close> leaves the scratch space and the buffer as the memory has them.\<close>

definition Evaluator_new :: "Evaluator \<Rightarrow> Evaluator" where
  "Evaluator_new uninit = ev_reset (uninit \<lparr> ev_t := 0 \<rparr>)"

definition BLAKE2S_NORMAL_MODE_FULL_ROUNDS_INITIAL_CONTROL_REGISTER :: u32 where
  [code_consts]: "BLAKE2S_NORMAL_MODE_FULL_ROUNDS_INITIAL_CONTROL_REGISTER = 0x80000"
definition BLAKE2S_NORMAL_MODE_REDUCED_ROUNDS_INITIAL_CONTROL_REGISTER :: u32 where
  [code_consts]: "BLAKE2S_NORMAL_MODE_REDUCED_ROUNDS_INITIAL_CONTROL_REGISTER = 0x90000"
definition BLAKE2S_COMPRESSION_MODE_IS_RIGHT_EXTRA_BITS :: u32 where
  [code_consts]: "BLAKE2S_COMPRESSION_MODE_IS_RIGHT_EXTRA_BITS = 0x20000"
definition BLAKE2S_COMPRESSION_MODE_EXTRA_BITS :: u32 where
  [code_consts]: "BLAKE2S_COMPRESSION_MODE_EXTRA_BITS = 0x40000"

text \<open>
  The sequences of \<open>csrrw\<close> instructions: every one runs the delegation on the words of the state, the
  input and the control register, which the next one finds updated.
\<close>

definition csr_calls :: "nat \<Rightarrow> Evaluator \<Rightarrow> u32 list \<Rightarrow> u32 \<Rightarrow> Evaluator res" where
  "csr_calls n e input control =
     bindR (foldR (\<lambda>_ (s, x12). blake2_round_function_impl s input x12) [0..<n] (ev_state e @ ev_extended_state e, control))
       (\<lambda>(s, _). Inr (e \<lparr> ev_state := take 8 s, ev_extended_state := drop 8 s \<rparr>))"

definition blake_csr_trigger_delegation_reduced_rounds :: "Evaluator \<Rightarrow> u32 list \<Rightarrow> u32 \<Rightarrow> Evaluator res" where
  "blake_csr_trigger_delegation_reduced_rounds = csr_calls 7"

definition blake_csr_trigger_delegation_full_rounds :: "Evaluator \<Rightarrow> u32 list \<Rightarrow> u32 \<Rightarrow> Evaluator res" where
  "blake_csr_trigger_delegation_full_rounds = csr_calls 10"

definition trigger_normal :: "bool \<Rightarrow> Evaluator \<Rightarrow> u32 list \<Rightarrow> u32 \<Rightarrow> Evaluator res" where
  "trigger_normal reduced e input extra_bits =
     (if reduced then
        blake_csr_trigger_delegation_reduced_rounds e input
          (BLAKE2S_NORMAL_MODE_REDUCED_ROUNDS_INITIAL_CONTROL_REGISTER OR extra_bits)
      else
        blake_csr_trigger_delegation_full_rounds e input
          (BLAKE2S_NORMAL_MODE_FULL_ROUNDS_INITIAL_CONTROL_REGISTER OR extra_bits))"

definition ev_run_with_input_and_byte_len_guest ::
  "cfg \<Rightarrow> bool \<Rightarrow> Evaluator \<Rightarrow> u32 list \<Rightarrow> nat \<Rightarrow> bool \<Rightarrow> Evaluator res" where
  "ev_run_with_input_and_byte_len_guest c reduced e buffer input_size_bytes last_round =
     bindR (checked_add (debug_assertions c) (ev_t e) (word_of_nat input_size_bytes)) (\<lambda>t.
       let ext = (ev_extended_state e)[12 := t XOR IV ! 4];
           ext = ext[14 := (0xffffffff * of_bool last_round) XOR IV ! 6] in
       trigger_normal reduced (e \<lparr> ev_t := t, ev_extended_state := ext \<rparr>) buffer 0)"

definition ev_run_with_input_and_byte_len_host ::
  "cfg \<Rightarrow> bool \<Rightarrow> Evaluator \<Rightarrow> u32 list \<Rightarrow> nat \<Rightarrow> bool \<Rightarrow> Evaluator res" where
  "ev_run_with_input_and_byte_len_host c reduced e buffer input_size_bytes last_round =
     bindR (checked_add (debug_assertions c) (ev_t e) (word_of_nat input_size_bytes)) (\<lambda>t.
       let v = run_rounds reduced (extended_state (ev_state e) t (0xffffffff * of_bool last_round)) buffer in
       Inr (e \<lparr> ev_t := t, ev_state := xor_halves (ev_state e) v \<rparr>))"

definition ev_run_round_function_with_byte_len ::
  "cfg \<Rightarrow> bool \<Rightarrow> bool \<Rightarrow> Evaluator \<Rightarrow> nat \<Rightarrow> bool \<Rightarrow> Evaluator res" where
  "ev_run_round_function_with_byte_len c guest reduced e input_size_bytes last_round =
     (if guest then ev_run_with_input_and_byte_len_guest c reduced e (ev_input_buffer e) input_size_bytes last_round
      else ev_run_with_input_and_byte_len_host c reduced e (ev_input_buffer e) input_size_bytes last_round)"

definition ev_run_round_function :: "cfg \<Rightarrow> bool \<Rightarrow> bool \<Rightarrow> Evaluator \<Rightarrow> nat \<Rightarrow> bool \<Rightarrow> Evaluator res" where
  "ev_run_round_function c guest reduced e input_size_words last_round =
     ev_run_round_function_with_byte_len c guest reduced e (input_size_words * 4) last_round"

text \<open>A node of a Merkle path: the state is one child, the first half of the buffer the other.\<close>

definition compress_node_guest :: "bool \<Rightarrow> Evaluator \<Rightarrow> bool \<Rightarrow> Evaluator res" where
  "compress_node_guest reduced e is_right =
     trigger_normal reduced e (ev_input_buffer e)
       (BLAKE2S_COMPRESSION_MODE_EXTRA_BITS OR BLAKE2S_COMPRESSION_MODE_IS_RIGHT_EXTRA_BITS * of_bool is_right)"

definition compress_node_host :: "bool \<Rightarrow> Evaluator \<Rightarrow> bool \<Rightarrow> Evaluator res" where
  "compress_node_host reduced e is_right =
     (let ext = extended_state CONFIGURED_IV (word_of_nat BLAKE2S_BLOCK_SIZE_BYTES) 0xffffffff;
          input = compression_buffer is_right (ev_state e) (ev_input_buffer e);
          v = run_rounds reduced ext input in
      Inr (e \<lparr> ev_state := xor_halves CONFIGURED_IV v \<rparr>))"

section \<open>Guest and host\<close>

definition as_baseline :: "Evaluator \<Rightarrow> Blake2sState" where
  "as_baseline e = \<lparr> b2_state = ev_state e, input_buffer = ev_input_buffer e, b2_t = ev_t e \<rparr>"

definition ev_ok :: "Evaluator \<Rightarrow> bool" where
  "ev_ok e \<longleftrightarrow> length (ev_state e) = 8 \<and> length (ev_extended_state e) = 16 \<and> length (ev_input_buffer e) = 16"

lemma as_baseline_simps [simp]:
  "b2_state (as_baseline e) = ev_state e" "input_buffer (as_baseline e) = ev_input_buffer e" "b2_t (as_baseline e) = ev_t e"
  by (simp_all add: as_baseline_def)

lemma xor_halves_length [simp]: "length (xor_halves h v) = 8"
  by (simp add: xor_halves_def)

lemma CONFIGURED_IV_length [simp]: "length CONFIGURED_IV = 8"
  by (simp add: CONFIGURED_IV_def IV_def)

lemma let_length: "length x = n \<Longrightarrow> (\<And>v. length v = n \<Longrightarrow> length (f v) = n) \<Longrightarrow> length (let v = x in f v) = n"
  by simp

lemma g_function_length [simp]: "length (g_function v a b c d x y) = length v"
  unfolding g_function_def by (rule let_length, simp)+ simp

lemma mixing_function_length [simp]: "length (mixing_function v m sigma) = length v"
  unfolding mixing_function_def Let_def [of "\<lambda>i. m ! (sigma ! i)"] by (rule let_length, simp)+ simp

lemma start_extended_length: "length bs = 8 \<Longrightarrow> length ext = 16 \<Longrightarrow> length (start_extended compression bs ext) = 16"
  by (simp add: start_extended_def IV_def Let_def)

lemma one_rounds_length:
  assumes "length (fst p) = 8" and "length (snd p) = 16"
  shows "length (fst (foldl (\<lambda>p i. one_round x input i (fin i) p) p rounds)) = 8 \<and>
    length (snd (foldl (\<lambda>p i. one_round x input i (fin i) p) p rounds)) = 16"
  using assms
proof (induction rounds arbitrary: p)
  case (Cons i rest)
  have "length (fst (one_round x input i (fin i) p)) = 8 \<and> length (snd (one_round x input i (fin i) p)) = 16"
    using Cons.prems by (cases p) (simp add: one_round_def Let_def)
  then show ?case using Cons.IH by simp
qed simp

lemma all_rounds_length: "length st = 24 \<Longrightarrow> length (blake2_all_rounds st input x) = 24"
  using one_rounds_length [where p = "(take 8 st, start_extended (mode_compression x) (take 8 st) (drop 8 st))"
      and x = x and input = input and fin = "\<lambda>i. i = num_rounds x - 1" and rounds = "[0..<num_rounds x]"]
  by (simp add: blake2_all_rounds_def Let_def code_consts start_extended_length split: prod.split) auto

text \<open>The control registers the evaluator passes.\<close>

lemma initial_control:
  "permutation_bitmask 0x80000 = 1" "permutation_bitmask 0x90000 = 1" "permutation_bitmask 0xC0000 = 1"
  "permutation_bitmask 0xD0000 = 1" "permutation_bitmask 0xE0000 = 1" "permutation_bitmask 0xF0000 = 1"
  by (simp_all add: permutation_bitmask_def code_consts)

lemma initial_modes:
  "\<not> mode_compression 0x80000" "\<not> mode_compression 0x90000" "mode_compression 0xC0000"
  "mode_compression 0xD0000" "mode_compression 0xE0000" "mode_compression 0xF0000"
  "\<not> reduced_rounds 0x80000" "reduced_rounds 0x90000" "\<not> reduced_rounds 0xC0000"
  "reduced_rounds 0xD0000" "\<not> reduced_rounds 0xE0000" "reduced_rounds 0xF0000"
  "\<not> compression_mode_node_is_right 0xC0000" "\<not> compression_mode_node_is_right 0xD0000"
  "compression_mode_node_is_right 0xE0000" "compression_mode_node_is_right 0xF0000"
  by (simp_all add: mode_compression_def reduced_rounds_def compression_mode_node_is_right_def control_bitmask_def code_consts)

lemma csr_calls_all_rounds:
  fixes input :: "u32 list"
  assumes "ev_ok e" and "permutation_bitmask x12 = 1" and "n = num_rounds x12"
  defines "st \<equiv> blake2_all_rounds (ev_state e @ ev_extended_state e) input x12"
  shows "csr_calls n e input x12 = Inr (e \<lparr> ev_state := take 8 st, ev_extended_state := drop 8 st \<rparr>)"
  using one_round_calls [where state_accesses = "ev_state e @ ev_extended_state e" and ?x12.0 = x12 and input = input] assms
  by (simp add: csr_calls_def ev_ok_def)

text \<open>What a sequence of calls does to the state, and to the rest, whatever the control register.\<close>

lemma csr_calls_state:
  assumes "ev_ok e" and "permutation_bitmask x12 = 1" and "n = num_rounds x12"
    and "m = (if mode_compression x12 then compression_buffer (compression_mode_node_is_right x12) (ev_state e) input else input)"
    and "h = (if mode_compression x12 then CONFIGURED_IV else ev_state e)"
  shows "\<exists>ext. csr_calls n e input x12 = Inr (e \<lparr> ev_extended_state := ext,
      ev_state := xor_halves h (run_rounds (reduced_rounds x12)
        (start_extended (mode_compression x12) (ev_state e) (ev_extended_state e)) m) \<rparr>) \<and> length ext = 16"
proof -
  let ?st = "blake2_all_rounds (ev_state e @ ev_extended_state e) input x12"
  have len: "length (ev_state e @ ev_extended_state e) = 24" using assms(1) by (simp add: ev_ok_def)
  have "take 8 ?st = xor_halves h (run_rounds (reduced_rounds x12)
        (start_extended (mode_compression x12) (ev_state e) (ev_extended_state e)) m)"
    using all_rounds_state [OF len, where x = x12 and input = input] assms(1,4,5) by (simp add: ev_ok_def)
  moreover have "length (drop 8 ?st) = 16" using all_rounds_length [OF len, of input x12] by simp
  ultimately show ?thesis
    unfolding csr_calls_all_rounds [OF assms(1-3)] by (intro exI [of _ "drop 8 ?st"]) simp
qed

lemma guest_run:
  assumes "ev_ok e"
  shows "\<exists>ext. length ext = 16 \<and> ev_run_with_input_and_byte_len_guest c reduced e buffer n last_round =
    map_sum id (ev_extended_state_update (\<lambda>_. ext)) (ev_run_with_input_and_byte_len_host c reduced e buffer n last_round)"
proof (cases "checked_add (debug_assertions c) (ev_t e) (word_of_nat n)")
  case (Inl f)
  then show ?thesis
    using assms by (auto simp: ev_run_with_input_and_byte_len_guest_def ev_run_with_input_and_byte_len_host_def ev_ok_def)
next
  case (Inr t)
  define f where "f = (0xffffffff * of_bool last_round :: u32)"
  define e' where "e' = e \<lparr> ev_t := t, ev_extended_state := (ev_extended_state e)[12 := t XOR IV ! 4, 14 := f XOR IV ! 6] \<rparr>"
  define x :: u32 where "x = (if reduced then 0x90000 else 0x80000)"
  have ok: "ev_ok e'" using assms by (simp add: e'_def ev_ok_def)
  have x: "permutation_bitmask x = 1" "\<not> mode_compression x" "reduced_rounds x = reduced"
    by (simp_all add: x_def initial_control initial_modes)
  have "start_extended False (ev_state e') (ev_extended_state e') = extended_state (ev_state e) t f"
    using assms by (subst start_extended_plain [where t = t and f = f]) (simp_all add: e'_def ev_ok_def)
  moreover have "trigger_normal reduced e' buffer 0 = csr_calls (num_rounds x) e' buffer x"
    by (simp add: trigger_normal_def x_def blake_csr_trigger_delegation_reduced_rounds_def
        blake_csr_trigger_delegation_full_rounds_def num_rounds_def initial_modes code_consts)
  moreover obtain ext where "length ext = 16" "csr_calls (num_rounds x) e' buffer x = Inr (e' \<lparr> ev_extended_state := ext,
      ev_state := xor_halves (ev_state e') (run_rounds reduced (start_extended False (ev_state e') (ev_extended_state e')) buffer) \<rparr>)"
    using csr_calls_state [OF ok x(1) refl, of buffer buffer "ev_state e'"] x(2,3) by auto
  ultimately show ?thesis
    using Inr by (intro exI [of _ ext])
      (simp add: ev_run_with_input_and_byte_len_guest_def ev_run_with_input_and_byte_len_host_def Let_def f_def e'_def)
qed

lemma guest_node:
  assumes "ev_ok e"
  shows "\<exists>ext. length ext = 16 \<and> compress_node_guest reduced e is_right =
    map_sum id (ev_extended_state_update (\<lambda>_. ext)) (compress_node_host reduced e is_right)"
proof -
  define x :: u32 where "x = (if reduced then if is_right then 0xF0000 else 0xD0000 else if is_right then 0xE0000 else 0xC0000)"
  have x: "permutation_bitmask x = 1" "mode_compression x" "reduced_rounds x = reduced" "compression_mode_node_is_right x = is_right"
    by (simp_all add: x_def initial_control initial_modes)
  have "compress_node_guest reduced e is_right = csr_calls (num_rounds x) e (ev_input_buffer e) x"
    by (simp add: compress_node_guest_def trigger_normal_def x_def blake_csr_trigger_delegation_reduced_rounds_def
        blake_csr_trigger_delegation_full_rounds_def num_rounds_def initial_modes code_consts)
  then show ?thesis
    using csr_calls_state [OF assms x(1) refl, of "compression_buffer is_right (ev_state e) (ev_input_buffer e)" "ev_input_buffer e" CONFIGURED_IV]
    by (auto simp: x compress_node_host_def Let_def start_extended_compression)
qed

lemma host_run:
  "map_sum id as_baseline (ev_run_with_input_and_byte_len_host c reduced e (ev_input_buffer e) n last_round) =
   run_round_function_with_byte_len c reduced (as_baseline e) n last_round"
  by (cases "checked_add (debug_assertions c) (ev_t e) (word_of_nat n)")
    (simp_all add: ev_run_with_input_and_byte_len_host_def run_round_function_with_byte_len_def as_baseline_def Let_def)

lemma host_run_ok:
  "ev_ok e \<Longrightarrow> ev_run_with_input_and_byte_len_host c reduced e buffer n last_round = Inr e' \<Longrightarrow> ev_ok e'"
  by (auto simp: ev_run_with_input_and_byte_len_host_def ev_ok_def Let_def res_simps)

section \<open>The contract of a hasher\<close>

record 'h hasher_ops =
  h_new :: 'h
  h_reset :: "'h \<Rightarrow> 'h"
  h_buffer :: "'h \<Rightarrow> u32 list"
  h_fill :: "u32 list \<Rightarrow> 'h \<Rightarrow> 'h"
  h_run :: "nat \<Rightarrow> bool \<Rightarrow> 'h \<Rightarrow> 'h res"
  h_output :: "'h \<Rightarrow> u32 list"

text \<open>\<open>view\<close> is the hasher as a baseline state; every operation does to the view what the baseline does.\<close>

locale hasher =
  fixes H :: "'h hasher_ops" and c :: cfg and ok :: "'h \<Rightarrow> bool" and view :: "'h \<Rightarrow> Blake2sState"
  assumes new: "ok (h_new H)" "b2_state (view (h_new H)) = CONFIGURED_IV" "b2_t (view (h_new H)) = 0"
    and reset: "ok s \<Longrightarrow> ok (h_reset H s)" "ok s \<Longrightarrow> view (h_reset H s) = b2_reset (view s)"
    and buffer: "ok s \<Longrightarrow> h_buffer H s = input_buffer (view s)" "ok s \<Longrightarrow> length (input_buffer (view s)) = 16"
    and fill: "ok s \<Longrightarrow> length b = 16 \<Longrightarrow> ok (h_fill H b s)"
      "ok s \<Longrightarrow> length b = 16 \<Longrightarrow> view (h_fill H b s) = (view s) \<lparr> input_buffer := b \<rparr>"
    and run: "ok s \<Longrightarrow> map_sum id view (h_run H n last_round s) = run_round_function c True (view s) n last_round"
      "ok s \<Longrightarrow> h_run H n last_round s = Inr s' \<Longrightarrow> ok s'"
    and result: "ok s \<Longrightarrow> h_output H s = b2_state (view s)"

definition baseline_hasher :: "cfg \<Rightarrow> Blake2sState hasher_ops" where
  "baseline_hasher c = \<lparr> h_new = Blake2sState_new, h_reset = b2_reset, h_buffer = input_buffer,
     h_fill = (\<lambda>b s. s \<lparr> input_buffer := b \<rparr>),
     h_run = (\<lambda>n last_round s. run_round_function c True s n last_round), h_output = b2_state \<rparr>"

definition evaluator_hasher :: "cfg \<Rightarrow> bool \<Rightarrow> Evaluator \<Rightarrow> Evaluator hasher_ops" where
  "evaluator_hasher c guest uninit = \<lparr> h_new = Evaluator_new uninit, h_reset = ev_reset, h_buffer = ev_input_buffer,
     h_fill = (\<lambda>b s. s \<lparr> ev_input_buffer := b \<rparr>),
     h_run = (\<lambda>n last_round s. ev_run_round_function c guest True s n last_round), h_output = ev_state \<rparr>"

lemma as_baseline_extended [simp]: "as_baseline (e \<lparr> ev_extended_state := ext \<rparr>) = as_baseline e"
  by (simp add: as_baseline_def)

lemma map_sum_same: "map_sum id (\<lambda>s. s) m = m"
  by (cases m) simp_all

lemma ev_run_view:
  assumes "ev_ok e"
  shows "map_sum id as_baseline (ev_run_round_function c guest reduced e n last_round) =
    run_round_function c reduced (as_baseline e) n last_round"
proof -
  let ?host = "ev_run_with_input_and_byte_len_host c reduced e (ev_input_buffer e) (n * 4) last_round"
  have *: "map_sum id as_baseline ?host = run_round_function c reduced (as_baseline e) n last_round"
    unfolding run_round_function_def by (rule host_run)
  obtain ext where "length ext = 16 \<and> ev_run_with_input_and_byte_len_guest c reduced e (ev_input_buffer e) (n * 4) last_round =
      map_sum id (ev_extended_state_update (\<lambda>_. ext)) ?host"
    using guest_run [OF assms] by blast
  then show ?thesis
    by (cases ?host) (use * in \<open>simp_all add: ev_run_round_function_def ev_run_round_function_with_byte_len_def\<close>)
qed

lemma ev_run_ok:
  assumes "ev_ok e" and "ev_run_round_function c guest reduced e n last_round = Inr e'"
  shows "ev_ok e'"
proof -
  let ?host = "ev_run_with_input_and_byte_len_host c reduced e (ev_input_buffer e) (n * 4) last_round"
  obtain ext where "length ext = 16" "ev_run_with_input_and_byte_len_guest c reduced e (ev_input_buffer e) (n * 4) last_round =
      map_sum id (ev_extended_state_update (\<lambda>_. ext)) ?host"
    using guest_run [OF assms(1)] by blast
  moreover have "ev_ok e''" if "?host = Inr e''" for e''
    using host_run_ok [OF assms(1) that] .
  ultimately show ?thesis
    using assms(2) by (cases ?host) (auto simp: ev_run_round_function_def ev_run_round_function_with_byte_len_def ev_ok_def split: if_splits)
qed

lemma baseline_run_ok:
  "run_round_function c reduced s n last_round = Inr s' \<Longrightarrow>
     length (b2_state s) = 8 \<Longrightarrow> length (input_buffer s) = 16 \<Longrightarrow> length (b2_state s') = 8 \<and> length (input_buffer s') = 16"
  by (auto simp: run_round_function_def run_round_function_with_byte_len_def Let_def res_simps)

interpretation baseline: hasher "baseline_hasher c" c
  "\<lambda>s. length (b2_state s) = 8 \<and> length (input_buffer s) = 16" "\<lambda>s. s" for c
  by unfold_locales
    (auto simp: baseline_hasher_def Blake2sState_new_def b2_reset_def map_sum_same dest: baseline_run_ok)

lemma evaluator_contract:
  assumes "ev_ok uninit"
  shows "hasher (evaluator_hasher c guest uninit) c ev_ok as_baseline"
proof unfold_locales
  show "ev_ok (h_new (evaluator_hasher c guest uninit))"
    using assms by (simp add: evaluator_hasher_def Evaluator_new_def ev_reset_def ev_ok_def)
  fix s s' :: Evaluator and n last_round assume s: "ev_ok s"
  then show "map_sum id as_baseline (h_run (evaluator_hasher c guest uninit) n last_round s) =
      run_round_function c True (as_baseline s) n last_round"
    by (simp add: evaluator_hasher_def ev_run_view)
  show "ev_ok s'" if "h_run (evaluator_hasher c guest uninit) n last_round s = Inr s'"
    using ev_run_ok [OF s, of c guest True n last_round s'] that by (simp add: evaluator_hasher_def)
qed (simp_all add: evaluator_hasher_def Evaluator_new_def ev_reset_def b2_reset_def as_baseline_def ev_ok_def)

text \<open>The guest's memory is zero where the machine has not written.\<close>

definition zeroed :: Evaluator where
  "zeroed = \<lparr> ev_state = replicate 8 0, ev_extended_state = replicate 16 0, ev_input_buffer = replicate 16 0, ev_t = 0 \<rparr>"

interpretation evaluator: hasher "evaluator_hasher c guest zeroed" c ev_ok as_baseline for c guest
  by (rule evaluator_contract) (simp add: zeroed_def ev_ok_def)

section \<open>The digest\<close>

text \<open>
  Blake2s on a message of words, with the reduced number of rounds: all blocks but the last are
  compressed with the number of bytes so far, the last one, padded with zeroes, with the length of the
  message and the finalisation flag. An empty message is one block.
\<close>

definition compress :: "u32 list \<Rightarrow> nat \<Rightarrow> bool \<Rightarrow> u32 list \<Rightarrow> u32 list" where
  "compress h bytes fin block =
     xor_halves h (run_rounds True (extended_state h (word_of_nat bytes) (if fin then 0xffffffff else 0)) block)"

primrec chain :: "nat \<Rightarrow> u32 list \<Rightarrow> u32 list" where
  "chain 0 msg = CONFIGURED_IV"
| "chain (Suc k) msg = compress (chain k msg) (64 * Suc k) False (take 16 (drop (16 * k) msg))"

definition blake2s_digest :: "u32 list \<Rightarrow> u32 list" where
  "blake2s_digest msg =
     (let k = (length msg - 1) div 16; rest = drop (16 * k) msg in
      compress (chain k msg) (4 * length msg) True (rest @ replicate (16 - length rest) 0))"

lemma chain_append: "16 * k \<le> length msg \<Longrightarrow> chain k (msg @ w) = chain k msg"
proof (induction k)
  case (Suc k)
  then have "take 16 (drop (16 * k) (msg @ w)) = take 16 (drop (16 * k) msg)" by simp
  then show ?case using Suc by (simp del: drop_append)
qed simp

lemma run_round_function_compress:
  assumes "b2_t v = word_of_nat n" and "n + 4 * w < 2 ^ 32"
  shows "run_round_function c True v w fin =
    Inr (v \<lparr> b2_t := word_of_nat (n + 4 * w), b2_state := compress (b2_state v) (n + 4 * w) fin (input_buffer v) \<rparr>)"
proof -
  have "unat (word_of_nat m :: u32) = m" if "m < 2 ^ 32" for m
    using that by (simp add: unat_of_nat)
  then have "unat (word_of_nat n :: u32) = n" "unat (word_of_nat (w * 4) :: u32) = w * 4"
    using assms(2) by (simp_all del: of_nat_mult)
  then show ?thesis
    using assms by (simp add: run_round_function_def run_round_function_with_byte_len_def checked_add_def compress_def
        Let_def mult.commute)
qed

section \<open>Properties\<close>

text \<open>
  C16. The evaluator in the guest, where it drives the circuit by a sequence of delegation calls, and on
  the host, where it runs the rounds itself, does to the chaining value, the buffer and the byte
  counter what the plain hasher does, with either number of rounds; and a node of a Merkle path is
  \<open>compress_two_to_one\<close> of the two children in the order of the path.
\<close>

theorem guest_and_host_hash:
  assumes "ev_ok e"
  shows "map_sum id as_baseline (ev_run_round_function c True reduced e n last_round) =
      run_round_function c reduced (as_baseline e) n last_round \<and>
    map_sum id as_baseline (ev_run_round_function c False reduced e n last_round) =
      run_round_function c reduced (as_baseline e) n last_round \<and>
    map_sum id ev_state (compress_node_guest reduced e is_right) =
      Inr (compress_two_to_one reduced (compression_buffer is_right (ev_state e) (ev_input_buffer e))) \<and>
    map_sum id ev_state (compress_node_host reduced e is_right) =
      Inr (compress_two_to_one reduced (compression_buffer is_right (ev_state e) (ev_input_buffer e)))"
proof (intro conjI)
  show host: "map_sum id ev_state (compress_node_host reduced e is_right) =
      Inr (compress_two_to_one reduced (compression_buffer is_right (ev_state e) (ev_input_buffer e)))"
    by (simp add: compress_node_host_def compress_two_to_one_def Let_def)
  then show "map_sum id ev_state (compress_node_guest reduced e is_right) =
      Inr (compress_two_to_one reduced (compression_buffer is_right (ev_state e) (ev_input_buffer e)))"
    using guest_node [OF assms, of reduced is_right] by (cases "compress_node_host reduced e is_right") auto
qed (rule ev_run_view [OF assms])+

theorem guest_and_host_hash_witness:
  "map_sum id ev_state (compress_node_guest True zeroed True) =
     Inr (compress_two_to_one True (compression_buffer True (replicate 8 0) (replicate 16 0)))"
  using guest_and_host_hash [of zeroed \<open>\<lparr> debug_assertions = True, fuzzing_support = False, rom_bits = 6 \<rparr>\<close> True 16 True True]
  by (simp add: zeroed_def ev_ok_def)

end
