(* ===== verification/FiatShamir.thy ===== *)
theory FiatShamir
  imports Hashers
begin

text \<open>
  The Fiat-Shamir transcripts of \<open>transcript/src/lib.rs\<close>: seeds committed to a message, randomness
  drawn from a seed, the check of a proof of work, and the transcript that absorbs a message in pieces.
  Everything is stated for any hasher that keeps the contract of \<open>Hashers\<close>.
\<close>

section \<open>Commitments\<close>

definition BLAKE2S_DIGEST_SIZE_U32_WORDS :: nat where
  [code_consts]: "BLAKE2S_DIGEST_SIZE_U32_WORDS = 8"

text \<open>Copies into a buffer from a position on, and zeroes from a position to its end.\<close>

definition copy_words :: "u32 list \<Rightarrow> nat \<Rightarrow> u32 list \<Rightarrow> u32 list" where
  "copy_words src pos dst = take pos dst @ src @ drop (pos + length src) dst"

definition zero_words :: "nat \<Rightarrow> u32 list \<Rightarrow> u32 list" where
  "zero_words pos dst = take pos dst @ replicate (length dst - pos) 0"

text \<open>One iteration of \<open>commit_inner\<close>: the words left, the offset in the buffer, the hasher.\<close>

definition commit_round ::
  "cfg \<Rightarrow> 'h hasher_ops \<Rightarrow> u32 list \<times> nat \<times> 'h \<Rightarrow> (u32 list \<times> nat \<times> 'h) res" where
  "commit_round c H = (\<lambda>(rest, buffer_offset, h).
     guardR (buffer_offset \<le> BLAKE2S_BLOCK_SIZE_U32_WORDS) UndefinedBehaviour
     (let words_to_use = min (length rest) (BLAKE2S_BLOCK_SIZE_U32_WORDS - buffer_offset);
          buffer = copy_words (take words_to_use rest) buffer_offset (h_buffer H h);
          buffer_offset = buffer_offset + words_to_use;
          h = h_fill H (zero_words buffer_offset buffer) h;
          rest = drop words_to_use rest in
      if 0 < length rest then
        debug_assert (debug_assertions c) (buffer_offset = BLAKE2S_BLOCK_SIZE_U32_WORDS)
          (bindR (h_run H BLAKE2S_BLOCK_SIZE_U32_WORDS False h) (\<lambda>h. Inr (rest, 0, h)))
      else Inr (rest, buffer_offset, h)))"

definition commit_inner :: "cfg \<Rightarrow> 'h hasher_ops \<Rightarrow> u32 list \<Rightarrow> nat \<times> 'h \<Rightarrow> (nat \<times> 'h) res" where
  "commit_inner c H input = (\<lambda>(offset, h).
     debug_assert (debug_assertions c) (0 < length input)
     (let effective_input_len = offset + length input;
          num_rounds = effective_input_len div BLAKE2S_BLOCK_SIZE_U32_WORDS;
          num_rounds = (if 0 < effective_input_len mod BLAKE2S_BLOCK_SIZE_U32_WORDS then num_rounds + 1 else num_rounds) in
      bindR (foldR (\<lambda>_. commit_round c H) [0..<num_rounds] (input, offset, h)) (\<lambda>(_, offset, h). Inr (offset, h))))"

definition flush :: "'h hasher_ops \<Rightarrow> nat \<times> 'h \<Rightarrow> 'h res" where
  "flush H = (\<lambda>(offset, h). h_run H offset True h)"

definition commit_initial :: "cfg \<Rightarrow> 'h hasher_ops \<Rightarrow> u32 list \<Rightarrow> u32 list res" where
  "commit_initial c H input =
     bindR (commit_inner c H input (0, h_new H)) (\<lambda>p.
     bindR (flush H p) (\<lambda>h. Inr (h_output H h)))"

definition commit_with_seed :: "cfg \<Rightarrow> 'h hasher_ops \<Rightarrow> u32 list \<Rightarrow> u32 list \<Rightarrow> u32 list res" where
  "commit_with_seed c H seed input =
     bindR (commit_inner c H seed (0, h_new H)) (\<lambda>p.
     bindR (commit_inner c H input p) (\<lambda>p.
     bindR (flush H p) (\<lambda>h. Inr (h_output H h))))"

definition commit_initial_using_hasher :: "cfg \<Rightarrow> 'h hasher_ops \<Rightarrow> 'h \<Rightarrow> u32 list \<Rightarrow> (u32 list \<times> 'h) res" where
  "commit_initial_using_hasher c H h input =
     bindR (commit_inner c H input (0, h_reset H h)) (\<lambda>p.
     bindR (flush H p) (\<lambda>h. Inr (h_output H h, h)))"

definition commit_with_seed_using_hasher ::
  "cfg \<Rightarrow> 'h hasher_ops \<Rightarrow> 'h \<Rightarrow> u32 list \<Rightarrow> u32 list \<Rightarrow> (u32 list \<times> 'h) res" where
  "commit_with_seed_using_hasher c H h seed input =
     bindR (commit_inner c H seed (0, h_reset H h)) (\<lambda>p.
     bindR (commit_inner c H input p) (\<lambda>p.
     bindR (flush H p) (\<lambda>h. Inr (h_output H h, h))))"

section \<open>Randomness\<close>

definition draw_randomness_inner :: "'h hasher_ops \<Rightarrow> 'h \<Rightarrow> u32 list \<Rightarrow> (u32 list \<times> 'h) res" where
  "draw_randomness_inner H h seed =
     (let h = h_reset H h;
          buffer = copy_words seed 0 (h_buffer H h);
          h = h_fill H (zero_words BLAKE2S_DIGEST_SIZE_U32_WORDS buffer) h in
      bindR (h_run H BLAKE2S_DIGEST_SIZE_U32_WORDS True h) (\<lambda>h. Inr (h_output H h, h)))"

text \<open>Eight words of the seed to the destination; the copy does not check its bounds.\<close>

definition put_seed :: "u32 list \<Rightarrow> nat \<Rightarrow> u32 list \<Rightarrow> u32 list res" where
  "put_seed seed pos dst =
     guardR (pos + BLAKE2S_DIGEST_SIZE_U32_WORDS \<le> length dst) UndefinedBehaviour (Inr (copy_words seed pos dst))"

definition draw_randomness_using_hasher ::
  "cfg \<Rightarrow> 'h hasher_ops \<Rightarrow> 'h \<Rightarrow> u32 list \<Rightarrow> u32 list \<Rightarrow> (u32 list \<times> u32 list \<times> 'h) res" where
  "draw_randomness_using_hasher c H h seed dst =
     debug_assert (debug_assertions c) (length dst mod BLAKE2S_DIGEST_SIZE_U32_WORDS = 0)
     (let num_rounds = length dst div BLAKE2S_DIGEST_SIZE_U32_WORDS in
      bindR (put_seed seed 0 dst) (\<lambda>dst.
      bindR (foldR (\<lambda>_ (seed, dst, pos, h).
            bindR (draw_randomness_inner H h seed) (\<lambda>(seed, h).
            bindR (put_seed seed pos dst) (\<lambda>dst.
            Inr (seed, dst, pos + BLAKE2S_DIGEST_SIZE_U32_WORDS, h))))
          [1..<unat (word_of_nat num_rounds :: u32)] (seed, dst, BLAKE2S_DIGEST_SIZE_U32_WORDS, h))
        (\<lambda>(seed, dst, _, h). Inr (seed, dst, h))))"

definition draw_randomness :: "cfg \<Rightarrow> 'h hasher_ops \<Rightarrow> u32 list \<Rightarrow> u32 list \<Rightarrow> (u32 list \<times> u32 list) res" where
  "draw_randomness c H seed dst =
     bindR (draw_randomness_using_hasher c H (h_new H) seed dst) (\<lambda>(seed, dst, _). Inr (seed, dst))"

section \<open>Proof of work\<close>

text \<open>Shift by a variable amount: checked where overflow checks are on, else modulo the width.\<close>

definition shr_u32 :: "cfg \<Rightarrow> u32 \<Rightarrow> u32 \<Rightarrow> u32 res" where
  "shr_u32 c a n =
     (if debug_assertions c \<and> 32 \<le> unat n then Inl ArithOverflow else Inr (drop_bit (unat (n AND 31)) a))"

definition verify_pow_using_hasher :: "cfg \<Rightarrow> 'h hasher_ops \<Rightarrow> 'h \<Rightarrow> u32 list \<Rightarrow> u64 \<Rightarrow> u32 \<Rightarrow> (u32 list \<times> 'h) res" where
  "verify_pow_using_hasher c H h seed nonce pow_bits =
     guardR (pow_bits \<le> 32) AssertFailed
     (let h = h_reset H h;
          buffer = copy_words seed 0 (h_buffer H h);
          buffer = buffer[8 := ucast nonce, 9 := ucast (drop_bit 32 nonce)];
          h = h_fill H (zero_words (BLAKE2S_DIGEST_SIZE_U32_WORDS + 2) buffer) h in
      bindR (h_run H (BLAKE2S_DIGEST_SIZE_U32_WORDS + 2) True h) (\<lambda>h.
      bindR (shr_u32 c 0xffffffff pow_bits) (\<lambda>threshold.
      guardR (h_output H h ! 0 \<le> threshold) AssertFailed (Inr (h_output H h, h)))))"

definition verify_pow :: "cfg \<Rightarrow> 'h hasher_ops \<Rightarrow> u32 list \<Rightarrow> u64 \<Rightarrow> u32 \<Rightarrow> u32 list res" where
  "verify_pow c H seed nonce pow_bits =
     bindR (verify_pow_using_hasher c H (h_new H) seed nonce pow_bits) (\<lambda>(seed, _). Inr seed)"

section \<open>A transcript in pieces\<close>

record 'h buffering =
  bt_state :: 'h
  buffer_offset :: nat

definition Blake2sBufferingTranscript_new :: "'h hasher_ops \<Rightarrow> 'h buffering" where
  "Blake2sBufferingTranscript_new H = \<lparr> bt_state = h_new H, buffer_offset = 0 \<rparr>"

definition run_absorb :: "cfg \<Rightarrow> 'h hasher_ops \<Rightarrow> 'h buffering \<Rightarrow> 'h buffering res" where
  "run_absorb c H b =
     debug_assert (debug_assertions c) (buffer_offset b = BLAKE2S_BLOCK_SIZE_U32_WORDS)
     (bindR (h_run H BLAKE2S_BLOCK_SIZE_U32_WORDS False (bt_state b)) (\<lambda>h.
      Inr (b \<lparr> bt_state := h, buffer_offset := 0 \<rparr>)))"

text \<open>A round takes a word at least, or empties a full buffer.\<close>

function bt_absorb :: "cfg \<Rightarrow> 'h hasher_ops \<Rightarrow> u32 list \<Rightarrow> 'h buffering \<Rightarrow> 'h buffering res" where
  "bt_absorb c H values b =
     (if 0 < length values then
        (if BLAKE2S_BLOCK_SIZE_U32_WORDS < buffer_offset b
         then Inl (if debug_assertions c then ArithOverflow else UndefinedBehaviour)
         else
           (let absorb_this_round = min (length values) (BLAKE2S_BLOCK_SIZE_U32_WORDS - buffer_offset b);
                buffer = copy_words (take absorb_this_round values) (buffer_offset b) (h_buffer H (bt_state b));
                b' = b \<lparr> bt_state := h_fill H buffer (bt_state b), buffer_offset := buffer_offset b + absorb_this_round \<rparr>;
                rest = drop absorb_this_round values in
            bindR (if 0 < length rest then run_absorb c H b' else Inr b') (bt_absorb c H rest)))
      else Inr b)"
  by pat_completeness auto
termination
proof (relation "measure (\<lambda>(_, _, values, b). 2 * length values + of_bool (buffer_offset b \<noteq> 0))", goal_cases)
  case (2 c H vals b n buffer b' rest b'')
  show ?case
  proof (cases "0 < length rest")
    case True
    then have "buffer_offset b'' = 0" using 2(7) by (auto simp: run_absorb_def res_simps)
    moreover have "n = 0 \<Longrightarrow> buffer_offset b \<noteq> 0" using 2(1-3) by (auto simp: code_consts min_def split: if_splits)
    moreover have "length rest = length vals - n" using 2(6) by simp
    ultimately show ?thesis using 2(1) by (cases "n = 0") (simp_all, linarith)
  qed (use 2(1) in \<open>cases vals; simp\<close>)
qed simp

declare bt_absorb.simps [simp del]

definition zero_tail :: "'h hasher_ops \<Rightarrow> 'h buffering \<Rightarrow> 'h" where
  "zero_tail H b = h_fill H (zero_words (buffer_offset b) (h_buffer H (bt_state b))) (bt_state b)"

definition bt_pad :: "'h hasher_ops \<Rightarrow> 'h buffering \<Rightarrow> 'h buffering" where
  "bt_pad H b = b \<lparr> bt_state := zero_tail H b, buffer_offset := BLAKE2S_BLOCK_SIZE_U32_WORDS \<rparr>"

definition bt_finalize :: "'h hasher_ops \<Rightarrow> 'h buffering \<Rightarrow> u32 list res" where
  "bt_finalize H b = bindR (h_run H (buffer_offset b) True (zero_tail H b)) (\<lambda>h. Inr (h_output H h))"

definition bt_finalize_reset :: "'h hasher_ops \<Rightarrow> 'h buffering \<Rightarrow> (u32 list \<times> 'h buffering) res" where
  "bt_finalize_reset H b =
     bindR (h_run H (buffer_offset b) True (zero_tail H b)) (\<lambda>h.
     Inr (h_output H h, b \<lparr> bt_state := h_reset H h, buffer_offset := 0 \<rparr>))"

section \<open>What a hasher has absorbed\<close>

text \<open>
  \<open>absorbed v n k msg\<close>: \<open>k\<close> blocks of \<open>msg\<close> have been compressed, and its last \<open>n\<close> words are in the buffer.
\<close>

definition absorbed :: "Blake2sState \<Rightarrow> nat \<Rightarrow> nat \<Rightarrow> u32 list \<Rightarrow> bool" where
  "absorbed v n k msg \<longleftrightarrow> n \<le> 16 \<and> length msg = 16 * k + n \<and> b2_state v = chain k msg \<and>
     b2_t v = word_of_nat (64 * k) \<and> length (input_buffer v) = 16 \<and> take n (input_buffer v) = drop (16 * k) msg"

lemma absorbed_copy:
  assumes "absorbed v n k msg" and "n + length w \<le> 16"
  shows "absorbed (v \<lparr> input_buffer := copy_words w n (input_buffer v) \<rparr>) (n + length w) k (msg @ w)"
  using assms by (simp add: absorbed_def copy_words_def chain_append)

lemma absorbed_zero:
  assumes "absorbed v n k msg"
  shows "absorbed (v \<lparr> input_buffer := zero_words n (input_buffer v) \<rparr>) n k msg"
  using assms by (simp add: absorbed_def zero_words_def)

lemma absorbed_block:
  assumes "absorbed v 16 k msg" and "4 * length msg < 2 ^ 32"
  shows "\<exists>v'. run_round_function c True v 16 False = Inr v' \<and> absorbed v' 0 (Suc k) msg"
proof -
  have "64 * k + 4 * 16 < 2 ^ 32" "16 * k + 16 = length msg" using assms by (simp_all add: absorbed_def)
  moreover have "input_buffer v = drop (16 * k) msg" using assms(1) by (auto simp: absorbed_def)
  ultimately show ?thesis
    using run_round_function_compress [of v "64 * k" 16 c False] assms(1)
    by (simp add: absorbed_def add.commute)
qed

lemma absorbed_final:
  assumes "absorbed v n k msg" and "0 < k \<longrightarrow> 0 < n" and "4 * length msg < 2 ^ 32"
  shows "\<exists>v'. run_round_function c True (v \<lparr> input_buffer := zero_words n (input_buffer v) \<rparr>) n True = Inr v' \<and>
    b2_state v' = blake2s_digest msg"
proof -
  let ?v = "v \<lparr> input_buffer := zero_words n (input_buffer v) \<rparr>"
  have len: "length msg = 16 * k + n" "n \<le> 16" using assms(1) by (simp_all add: absorbed_def)
  then have k: "(length msg - 1) div 16 = k" using assms(2) by (cases n) auto
  have "64 * k + 4 * n = 4 * length msg" using len by simp
  moreover have "zero_words n (input_buffer v) = drop (16 * k) msg @ replicate (16 - n) 0"
    using assms(1) by (simp add: absorbed_def zero_words_def)
  moreover have "blake2s_digest msg = compress (chain k msg) (4 * length msg) True (drop (16 * k) msg @ replicate (16 - n) 0)"
    unfolding blake2s_digest_def Let_def k by (simp add: len(1))
  ultimately show ?thesis
    using run_round_function_compress [of ?v "64 * k" n c True] assms(1,3) len
    by (simp add: absorbed_def)
qed

lemma absorbed_start: "b2_state v = CONFIGURED_IV \<Longrightarrow> b2_t v = 0 \<Longrightarrow> length (input_buffer v) = 16 \<Longrightarrow> absorbed v 0 0 []"
  by (simp add: absorbed_def)

section \<open>Commitments are digests\<close>

definition tail_zero :: "Blake2sState \<Rightarrow> nat \<Rightarrow> bool" where
  "tail_zero v n \<longleftrightarrow> zero_words n (input_buffer v) = input_buffer v"

lemma zero_words_idem [simp]: "zero_words n (zero_words n b) = zero_words n b"
  by (simp add: zero_words_def min_def)

lemma copy_words_length: "n + length w \<le> length b \<Longrightarrow> length (copy_words w n b) = length b"
  by (simp add: copy_words_def)

lemma zero_words_length: "n \<le> length b \<Longrightarrow> length (zero_words n b) = length b"
  by (simp add: zero_words_def)

context hasher begin

text \<open>What one round of \<open>commit_inner\<close> does to the words left and the words absorbed.\<close>

lemma commit_round_words:
  assumes "ok s" and "absorbed (view s) n k msg" and "4 * length (msg @ rest) < 2 ^ 32" and "rest \<noteq> []"
  shows "\<exists>w rest' n' k' s'. commit_round c H (rest, n, s) = Inr (rest', n', s') \<and> ok s' \<and> rest = w @ rest' \<and>
    absorbed (view s') n' k' (msg @ w) \<and>
    (if rest' = [] then 0 < n' \<and> tail_zero (view s') n' else n' = 0 \<and> n + length rest = 16 + length rest')"
proof -
  define m where "m = min (length rest) (16 - n)"
  define w where "w = take m rest"
  define b where "b = zero_words (n + m) (copy_words w n (input_buffer (view s)))"
  have n: "n \<le> 16" using assms(2) by (simp add: absorbed_def)
  have m: "length w = m" "n + m \<le> 16" "m \<le> length rest" using n by (auto simp: w_def m_def)
  have b: "length b = 16" using assms(1,2) m by (simp add: b_def copy_words_length zero_words_length absorbed_def)
  let ?s = "h_fill H b s"
  have s: "ok ?s" "view ?s = (view s) \<lparr> input_buffer := b \<rparr>" using fill [OF assms(1) b] by simp_all
  have a: "absorbed (view ?s) (n + m) k (msg @ w)"
    using absorbed_zero [OF absorbed_copy [OF assms(2), of w]] m unfolding s(2) unfolding b_def by simp
  have step: "commit_round c H (rest, n, s) =
      (if drop m rest \<noteq> [] then bindR (h_run H 16 False ?s) (\<lambda>h. Inr (drop m rest, 0, h)) else Inr ([], n + m, ?s))"
    using n m(3) by (auto simp: commit_round_def code_consts Let_def b_def w_def m_def buffer(1) [OF assms(1)] min_def)
  show ?thesis
  proof (cases "drop m rest = []")
    case True
    then have "w = rest" by (simp add: w_def)
    moreover have "m \<noteq> 0" using assms(4) True by (cases m) auto
    moreover have "tail_zero (view ?s) (n + m)" unfolding tail_zero_def s(2) unfolding b_def by simp
    ultimately show ?thesis
      using True step s(1) a by (intro exI [of _ w] exI [of _ "[]"] exI [of _ "n + m"] exI [of _ k] exI [of _ ?s]) simp
  next
    case False
    then have full: "n + m = 16" using n by (auto simp: m_def min_def split: if_splits)
    have rest: "rest = w @ drop m rest" by (simp add: w_def)
    have "4 * length (msg @ w) < 2 ^ 32" using assms(3) m by simp
    then obtain v' where v': "run_round_function c True (view ?s) 16 False = Inr v'" "absorbed v' 0 (Suc k) (msg @ w)"
      using absorbed_block a full by metis
    then obtain s' where s': "h_run H 16 False ?s = Inr s'" "view s' = v'"
      using run(1) [OF s(1), of 16 False] by (cases "h_run H 16 False ?s") auto
    then have "ok s'" using run(2) [OF s(1)] by blast
    then show ?thesis
      using False step s' v'(2) rest full m(3)
      by (intro exI [of _ w] exI [of _ "drop m rest"] exI [of _ 0] exI [of _ "Suc k"] exI [of _ s']) auto
  qed
qed

lemma commit_round_idle:
  assumes "ok s" and "absorbed (view s) n k msg" and "tail_zero (view s) n"
  shows "\<exists>s'. commit_round c H ([], n, s) = Inr ([], n, s') \<and> ok s' \<and> view s' = view s"
proof -
  have n: "n \<le> 16" and b: "length (input_buffer (view s)) = 16" using assms(2) by (simp_all add: absorbed_def)
  have "copy_words [] n (h_buffer H s) = h_buffer H s" by (simp add: copy_words_def)
  then have "commit_round c H ([], n, s) = Inr ([], n, h_fill H (input_buffer (view s)) s)"
    using n assms(3) by (simp add: commit_round_def code_consts Let_def buffer(1) [OF assms(1)] tail_zero_def)
  then show ?thesis using fill [OF assms(1) b] by simp
qed

lemma commit_rounds:
  assumes "ok s" and "absorbed (view s) n k msg" and "4 * length (msg @ rest) < 2 ^ 32"
    and "if rest = [] then 0 < n \<and> tail_zero (view s) n else n + length rest \<le> 16 * length rs"
  shows "\<exists>n' k' s'. foldR (\<lambda>_. commit_round c H) rs (rest, n, s) = Inr ([], n', s') \<and> ok s' \<and>
    absorbed (view s') n' k' (msg @ rest) \<and> 0 < n' \<and> tail_zero (view s') n'"
  using assms
proof (induction rs arbitrary: rest n k msg s)
  case Nil
  then show ?case by (cases "rest = []") auto
next
  case (Cons r rs)
  show ?case
  proof (cases "rest = []")
    case True
    obtain s' where "commit_round c H ([], n, s) = Inr ([], n, s')" "ok s'" "view s' = view s"
      using commit_round_idle [OF Cons.prems(1,2)] Cons.prems(4) True by auto
    then show ?thesis using Cons.IH [of s' n k msg "[]"] Cons.prems True by simp
  next
    case False
    obtain w rest' n' k' s' where step: "commit_round c H (rest, n, s) = Inr (rest', n', s')" "ok s'" "rest = w @ rest'"
      "absorbed (view s') n' k' (msg @ w)"
      "if rest' = [] then 0 < n' \<and> tail_zero (view s') n' else n' = 0 \<and> n + length rest = 16 + length rest'"
      using commit_round_words [OF Cons.prems(1-3) False] by metis
    have "4 * length ((msg @ w) @ rest') < 2 ^ 32" using Cons.prems(3) step(3) by simp
    moreover have "if rest' = [] then 0 < n' \<and> tail_zero (view s') n' else n' + length rest' \<le> 16 * length rs"
      using step(5) Cons.prems(4) False by (auto split: if_splits)
    ultimately show ?thesis using Cons.IH [OF step(2,4)] step(1,3) by simp
  qed
qed

lemma commit_inner_absorbs:
  assumes "ok s" and "absorbed (view s) n k msg" and "4 * length (msg @ input) < 2 ^ 32" and "input \<noteq> []"
  shows "\<exists>n' k' s'. commit_inner c H input (n, s) = Inr (n', s') \<and> ok s' \<and> absorbed (view s') n' k' (msg @ input) \<and>
    0 < n' \<and> tail_zero (view s') n'"
proof -
  let ?l = "n + length input"
  define r where "r = (if 0 < ?l mod 16 then ?l div 16 + 1 else ?l div 16)"
  have "?l \<le> 16 * r" using mult_div_mod_eq [of 16 ?l] by (auto simp: r_def intro: order.trans)
  then have "if input = [] then 0 < n \<and> tail_zero (view s) n else ?l \<le> 16 * length [0..<r]" using assms(4) by simp
  from commit_rounds [OF assms(1-3) this] obtain n' k' s' where
    "foldR (\<lambda>_. commit_round c H) [0..<r] (input, n, s) = Inr ([], n', s')" "ok s'"
    "absorbed (view s') n' k' (msg @ input)" "0 < n'" "tail_zero (view s') n'" by blast
  then show ?thesis using assms(4) by (auto simp: commit_inner_def code_consts Let_def r_def)
qed

lemma flush_digest:
  assumes "ok s" and "absorbed (view s) n k msg" and "0 < n" and "tail_zero (view s) n" and "4 * length msg < 2 ^ 32"
  shows "\<exists>s'. flush H (n, s) = Inr s' \<and> ok s' \<and> h_output H s' = blake2s_digest msg"
proof -
  have "(view s) \<lparr> input_buffer := zero_words n (input_buffer (view s)) \<rparr> = view s"
    using assms(4) by (simp add: tail_zero_def)
  with absorbed_final [OF assms(2) _ assms(5), of c] assms(3)
  obtain v' where "run_round_function c True (view s) n True = Inr v'" "b2_state v' = blake2s_digest msg" by auto
  then obtain s' where s': "h_run H n True s = Inr s'" "b2_state (view s') = blake2s_digest msg"
    using run(1) [OF assms(1), of n True] by (cases "h_run H n True s") auto
  moreover from this have "ok s'" using run(2) [OF assms(1)] by blast
  ultimately show ?thesis using result by (simp add: flush_def)
qed

lemma committed:
  assumes "ok s" and "absorbed (view s) 0 0 []" and "input \<noteq> []" and "4 * length input < 2 ^ 32"
  shows "\<exists>s'. bindR (commit_inner c H input (0, s)) (flush H) = Inr s' \<and> ok s' \<and> h_output H s' = blake2s_digest input"
proof -
  obtain n k s' where "commit_inner c H input (0, s) = Inr (n, s')" "ok s'" "absorbed (view s') n k input" "0 < n" "tail_zero (view s') n"
    using commit_inner_absorbs [OF assms(1,2), of input] assms(3,4) by auto
  then show ?thesis using flush_digest assms(4) by simp
qed

lemma committed_with_seed:
  assumes "ok s" and "absorbed (view s) 0 0 []" and "seed \<noteq> []" and "input \<noteq> []" and "4 * length (seed @ input) < 2 ^ 32"
  shows "\<exists>s'. bindR (commit_inner c H seed (0, s)) (\<lambda>p. bindR (commit_inner c H input p) (flush H)) = Inr s' \<and> ok s' \<and>
    h_output H s' = blake2s_digest (seed @ input)"
proof -
  obtain n k s' where s': "commit_inner c H seed (0, s) = Inr (n, s')" "ok s'" "absorbed (view s') n k seed"
    using commit_inner_absorbs [OF assms(1,2), of seed] assms(3,5) by auto
  obtain n' k' s'' where "commit_inner c H input (n, s') = Inr (n', s'')" "ok s''" "absorbed (view s'') n' k' (seed @ input)"
      "0 < n'" "tail_zero (view s'') n'"
    using commit_inner_absorbs [OF s'(2,3) assms(5,4)] by auto
  then show ?thesis using flush_digest [of s'' n' k' "seed @ input"] assms(5) s'(1) by simp
qed

lemma absorbed_new: "absorbed (view (h_new H)) 0 0 []"
  using new buffer(2) by (intro absorbed_start) simp_all

lemma absorbed_reset: "ok s \<Longrightarrow> absorbed (view (h_reset H s)) 0 0 []"
  using reset buffer(2) by (intro absorbed_start) (simp_all add: b2_reset_def)

lemma commit_initial_digest:
  "input \<noteq> [] \<Longrightarrow> 4 * length input < 2 ^ 32 \<Longrightarrow> commit_initial c H input = Inr (blake2s_digest input)"
  using committed [OF new(1) absorbed_new, of input] by (auto simp: commit_initial_def bindR_assoc [symmetric])

lemma commit_with_seed_digest:
  "seed \<noteq> [] \<Longrightarrow> input \<noteq> [] \<Longrightarrow> 4 * length (seed @ input) < 2 ^ 32 \<Longrightarrow>
     commit_with_seed c H seed input = Inr (blake2s_digest (seed @ input))"
  using committed_with_seed [OF new(1) absorbed_new, of seed input] by (auto simp: commit_with_seed_def res_simps)

lemma using_hasher_digest:
  assumes "ok h" and "seed \<noteq> []" and "input \<noteq> []" and "4 * length (seed @ input) < 2 ^ 32"
  shows "\<exists>h'. commit_initial_using_hasher c H h input = Inr (blake2s_digest input, h') \<and> ok h'"
    "\<exists>h'. commit_with_seed_using_hasher c H h seed input = Inr (blake2s_digest (seed @ input), h') \<and> ok h'"
  using committed [OF reset(1) absorbed_reset, OF assms(1,1,3)] assms(4)
    committed_with_seed [OF reset(1) absorbed_reset, OF assms(1,1-4)]
  by (auto simp: commit_initial_using_hasher_def commit_with_seed_using_hasher_def res_simps)

text \<open>The transcript in pieces.\<close>

lemma bt_absorb_absorbs:
  assumes "ok (bt_state b)" and "absorbed (view (bt_state b)) (buffer_offset b) k msg"
    and "0 < k \<and> vals = [] \<longrightarrow> 0 < buffer_offset b" and "4 * length (msg @ vals) < 2 ^ 32"
  shows "\<exists>b' k'. bt_absorb c H vals b = Inr b' \<and> ok (bt_state b') \<and>
    absorbed (view (bt_state b')) (buffer_offset b') k' (msg @ vals) \<and> (0 < k' \<longrightarrow> 0 < buffer_offset b')"
  using assms
proof (induction "2 * length vals + of_bool (buffer_offset b \<noteq> 0)" arbitrary: vals b k msg rule: less_induct)
  case less
  let ?s = "bt_state b" and ?n = "buffer_offset b"
  show ?case
  proof (cases "vals = []")
    case True
    then show ?thesis using less.prems by (subst bt_absorb.simps) auto
  next
    case False
    define m where "m = min (length vals) (16 - ?n)"
    define w where "w = take m vals"
    define s where "s = h_fill H (copy_words w ?n (h_buffer H ?s)) ?s"
    define b' where "b' = b \<lparr> bt_state := s, buffer_offset := ?n + m \<rparr>"
    have n: "?n \<le> 16" using less.prems(2) by (simp add: absorbed_def)
    have m: "length w = m" "?n + m \<le> 16" "m \<le> length vals" "vals = w @ drop m vals" using n by (auto simp: w_def m_def)
    have len: "length (copy_words w ?n (h_buffer H ?s)) = 16"
      using less.prems(1,2) m buffer by (simp add: copy_words_length absorbed_def)
    have s: "ok s" "view s = (view ?s) \<lparr> input_buffer := copy_words w ?n (input_buffer (view ?s)) \<rparr>"
      using fill [OF less.prems(1) len] buffer(1) [OF less.prems(1)] by (simp_all add: s_def)
    have a: "absorbed (view s) (?n + m) k (msg @ w)"
      using absorbed_copy [OF less.prems(2), of w] m by (simp add: s(2))
    have step: "bt_absorb c H vals b = bindR (if drop m vals \<noteq> [] then run_absorb c H b' else Inr b') (bt_absorb c H (drop m vals))"
      using False n by (subst bt_absorb.simps) (simp add: code_consts Let_def b'_def s_def w_def m_def not_less)
    show ?thesis
    proof (cases "drop m vals = []")
      case True
      then have "w = vals" using m(4) by simp
      moreover have "bt_absorb c H [] b' = Inr b'" by (subst bt_absorb.simps) simp
      moreover have "0 < m" using True False by (cases m) auto
      ultimately show ?thesis using True step s(1) a by (auto simp: b'_def)
    next
      case rest: False
      then have full: "?n + m = 16" using n by (auto simp: m_def min_def split: if_splits)
      have "4 * length (msg @ w) < 2 ^ 32" using less.prems(4) m by simp
      then obtain v' where v': "run_round_function c True (view s) 16 False = Inr v'" "absorbed v' 0 (Suc k) (msg @ w)"
        using absorbed_block a full by metis
      then obtain s' where s': "h_run H 16 False s = Inr s'" "view s' = v'"
        using run(1) [OF s(1), of 16 False] by (cases "h_run H 16 False s") auto
      have ok': "ok s'" using run(2) [OF s(1) s'(1)] .
      let ?b = "b' \<lparr> bt_state := s', buffer_offset := 0 \<rparr>"
      have "run_absorb c H b' = Inr ?b" using full s'(1) by (simp add: run_absorb_def code_consts b'_def)
      moreover have "2 * length (drop m vals) + of_bool (buffer_offset ?b \<noteq> 0) < 2 * length vals + of_bool (?n \<noteq> 0)"
        using full m(3) False by (cases "m = 0") auto
      from less.hyps [OF this, of "Suc k" "msg @ w"] have "\<exists>b'' k'. bt_absorb c H (drop m vals) ?b = Inr b'' \<and> ok (bt_state b'') \<and>
          absorbed (view (bt_state b'')) (buffer_offset b'') k' ((msg @ w) @ drop m vals) \<and> (0 < k' \<longrightarrow> 0 < buffer_offset b'')"
        using ok' s'(2) v'(2) rest less.prems(4) m(4) by simp
      ultimately show ?thesis using step rest m(4) by simp
    qed
  qed
qed

lemma bt_absorb_pieces:
  assumes "ok (bt_state b)" and "absorbed (view (bt_state b)) (buffer_offset b) k msg" and "0 < k \<longrightarrow> 0 < buffer_offset b"
    and "4 * length (msg @ concat pieces) < 2 ^ 32"
  shows "\<exists>b' k'. foldR (bt_absorb c H) pieces b = Inr b' \<and> ok (bt_state b') \<and>
    absorbed (view (bt_state b')) (buffer_offset b') k' (msg @ concat pieces) \<and> (0 < k' \<longrightarrow> 0 < buffer_offset b')"
  using assms
proof (induction pieces arbitrary: b k msg)
  case (Cons piece pieces)
  obtain b' k' where b': "bt_absorb c H piece b = Inr b'" "ok (bt_state b')"
      "absorbed (view (bt_state b')) (buffer_offset b') k' (msg @ piece)" "0 < k' \<longrightarrow> 0 < buffer_offset b'"
    using bt_absorb_absorbs [OF Cons.prems(1,2), of piece] Cons.prems(3,4) by auto
  show ?case using Cons.IH [OF b'(2-4)] Cons.prems(4) b'(1) by simp
qed auto

text \<open>Padding works as if the zeroes had been absorbed.\<close>

lemma bt_pad_absorbs:
  assumes "ok (bt_state b)" and "absorbed (view (bt_state b)) (buffer_offset b) k msg"
  shows "absorbed (view (bt_state (bt_pad H b))) (buffer_offset (bt_pad H b)) k (msg @ replicate (16 - buffer_offset b) 0)"
proof -
  let ?n = "buffer_offset b"
  have n: "?n \<le> 16" "length (input_buffer (view (bt_state b))) = 16" using assms(2) by (simp_all add: absorbed_def)
  then have "zero_words ?n (input_buffer (view (bt_state b))) = copy_words (replicate (16 - ?n) 0) ?n (input_buffer (view (bt_state b)))"
    by (simp add: zero_words_def copy_words_def)
  then show ?thesis
    using absorbed_copy [OF assms(2), of "replicate (16 - ?n) 0"] n fill(2) [OF assms(1)]
    by (simp add: bt_pad_def zero_tail_def buffer(1) [OF assms(1)] copy_words_length code_consts)
qed

lemma bt_finalize_digest:
  assumes "ok (bt_state b)" and "absorbed (view (bt_state b)) (buffer_offset b) k msg" and "0 < k \<longrightarrow> 0 < buffer_offset b"
    and "4 * length msg < 2 ^ 32"
  shows "\<exists>s. h_run H (buffer_offset b) True (zero_tail H b) = Inr s \<and> ok s \<and> h_output H s = blake2s_digest msg"
proof -
  let ?z = "zero_words (buffer_offset b) (input_buffer (view (bt_state b)))"
  have "length ?z = 16" using assms(2) by (simp add: absorbed_def zero_words_length)
  from fill [OF assms(1) this] have z: "ok (zero_tail H b)" "view (zero_tail H b) = (view (bt_state b)) \<lparr> input_buffer := ?z \<rparr>"
    by (simp_all add: zero_tail_def buffer(1) [OF assms(1)])
  obtain v where v: "run_round_function c True (view (zero_tail H b)) (buffer_offset b) True = Inr v" "b2_state v = blake2s_digest msg"
    using absorbed_final [OF assms(2-4), of c] z(2) by auto
  then obtain s where "h_run H (buffer_offset b) True (zero_tail H b) = Inr s" "view s = v"
    using run(1) [OF z(1), of "buffer_offset b" True] by (cases "h_run H (buffer_offset b) True (zero_tail H b)") auto
  then show ?thesis using run(2) [OF z(1)] result v(2) by metis
qed

text \<open>One block made of a seed and some words.\<close>

lemma one_block:
  assumes "ok h" and "length w \<le> 16" and "w \<noteq> []"
    and "b = zero_words (length w) (copy_words w 0 (h_buffer H (h_reset H h)))"
  shows "\<exists>h'. h_run H (length w) True (h_fill H b (h_reset H h)) = Inr h' \<and> ok h' \<and> h_output H h' = blake2s_digest w"
proof -
  let ?s = "h_reset H h" and ?v = "view (h_reset H h)"
  have ok: "ok ?s" using reset(1) [OF assms(1)] .
  have a: "absorbed (?v \<lparr> input_buffer := copy_words w 0 (input_buffer ?v) \<rparr>) (length w) 0 w"
    using absorbed_copy [OF absorbed_reset [OF assms(1)], of w] assms(2) by simp
  have b: "length b = 16" using assms(2,4) buffer [OF ok] by (simp add: copy_words_length zero_words_length)
  have s: "ok (h_fill H b ?s)" "view (h_fill H b ?s) = ?v \<lparr> input_buffer := b \<rparr>" using fill [OF ok b] by simp_all
  from absorbed_zero [OF a] have "absorbed (view (h_fill H b ?s)) (length w) 0 w"
    using s(2) assms(4) buffer(1) [OF ok] by simp
  moreover have "tail_zero (view (h_fill H b ?s)) (length w)" unfolding tail_zero_def s(2) by (simp add: assms(4))
  ultimately show ?thesis using flush_digest [OF s(1)] assms(2,3) by (simp add: flush_def)
qed

lemma draw_inner_digest:
  assumes "ok h" and "length seed = 8"
  shows "\<exists>h'. draw_randomness_inner H h seed = Inr (blake2s_digest seed, h') \<and> ok h'"
proof -
  have "seed \<noteq> []" using assms(2) by auto
  then show ?thesis
    using one_block [OF assms(1) _ _ refl, of seed] assms(2) by (auto simp: draw_randomness_inner_def code_consts Let_def)
qed

lemma pow_block:
  assumes "length seed = 8" and "length b = 16"
  shows "(copy_words seed 0 b)[8 := x, 9 := y] = copy_words (seed @ [x, y]) 0 b"
proof -
  have "drop 8 b = b ! 8 # b ! 9 # drop 10 b"
    using Cons_nth_drop_Suc [of 8 b] Cons_nth_drop_Suc [of 9 b] assms(2) by simp
  then show ?thesis using assms(1) by (simp add: copy_words_def list_update_append)
qed

lemma verify_pow_digest:
  fixes nonce :: u64
  assumes "ok h" and "length seed = 8"
  defines "digest \<equiv> blake2s_digest (seed @ [ucast nonce, ucast (drop_bit 32 nonce)])"
  shows "\<exists>h'. verify_pow_using_hasher c H h seed nonce pow_bits =
      guardR (pow_bits \<le> 32) AssertFailed (bindR (shr_u32 c 0xffffffff pow_bits) (\<lambda>threshold.
        guardR (digest ! 0 \<le> threshold) AssertFailed (Inr (digest, h')))) \<and> ok h'"
proof -
  let ?w = "seed @ [ucast nonce, ucast (drop_bit 32 nonce)]" and ?b = "h_buffer H (h_reset H h)"
  have "length ?b = 16" using buffer [OF reset(1) [OF assms(1)]] by simp
  from pow_block [OF assms(2) this] have b: "(copy_words seed 0 ?b)[8 := ucast nonce, 9 := ucast (drop_bit 32 nonce)] = copy_words ?w 0 ?b" .
  obtain h' where "h_run H 10 True (h_fill H (zero_words 10 (copy_words ?w 0 ?b)) (h_reset H h)) = Inr h'" "ok h'" "h_output H h' = digest"
    using one_block [OF assms(1) _ _ refl, of ?w] assms(2) by (auto simp: digest_def)
  then show ?thesis
    by (intro exI [of _ h']) (simp add: verify_pow_using_hasher_def code_consts Let_def b del: list_update.simps)
qed

end

section \<open>Properties\<close>

lemma digest_length: "length (blake2s_digest msg) = 8"
  by (simp add: blake2s_digest_def compress_def Let_def)

lemma digests_length: "length seed = 8 \<Longrightarrow> length ((blake2s_digest ^^ i) seed) = 8"
  by (cases i) (simp_all add: digest_length)

text \<open>The words drawn in \<open>r\<close> rounds: the seed, its digest, the digest of that, and so on.\<close>

definition drawn :: "u32 list \<Rightarrow> nat \<Rightarrow> u32 list" where
  "drawn seed r = concat (map (\<lambda>i. (blake2s_digest ^^ i) seed) [0..<r])"

lemma drawn_length: "length seed = 8 \<Longrightarrow> length (drawn seed r) = 8 * r"
  by (induction r) (simp_all add: drawn_def digests_length)

context hasher begin

lemma draw_rounds:
  assumes "ok h" and "length seed = 8" and "0 < r" and "8 * r \<le> length dst"
  shows "\<exists>h'. foldR (\<lambda>_ (seed, dst, pos, h).
            bindR (draw_randomness_inner H h seed) (\<lambda>(seed, h).
            bindR (put_seed seed pos dst) (\<lambda>dst.
            Inr (seed, dst, pos + BLAKE2S_DIGEST_SIZE_U32_WORDS, h))))
          [1..<r] (seed, copy_words seed 0 dst, 8, h) =
      Inr ((blake2s_digest ^^ (r - 1)) seed, drawn seed r @ drop (8 * r) dst, 8 * r, h') \<and> ok h'"
  using assms(3,4)
proof (induction r)
  case (Suc r)
  show ?case
  proof (cases "r = 0")
    case True
    then show ?thesis using assms(1,2) by (simp add: drawn_def copy_words_def)
  next
    case False
    obtain h' where IH: "foldR (\<lambda>_ (seed, dst, pos, h).
            bindR (draw_randomness_inner H h seed) (\<lambda>(seed, h).
            bindR (put_seed seed pos dst) (\<lambda>dst.
            Inr (seed, dst, pos + BLAKE2S_DIGEST_SIZE_U32_WORDS, h))))
          [1..<r] (seed, copy_words seed 0 dst, 8, h) =
      Inr ((blake2s_digest ^^ (r - 1)) seed, drawn seed r @ drop (8 * r) dst, 8 * r, h')" "ok h'"
      using Suc False by auto
    define d where "d = (blake2s_digest ^^ (r - 1)) seed"
    obtain h'' where h'': "draw_randomness_inner H h' d = Inr (blake2s_digest d, h'')" "ok h''"
      using draw_inner_digest [OF IH(2) digests_length [OF assms(2)]] unfolding d_def by blast
    have iter: "blake2s_digest d = (blake2s_digest ^^ r) seed" using False by (cases r) (simp_all add: d_def)
    have "copy_words ((blake2s_digest ^^ r) seed) (8 * r) (drawn seed r @ drop (8 * r) dst) = drawn seed (Suc r) @ drop (8 * Suc r) dst"
      by (simp add: copy_words_def drawn_length assms(2) digests_length add.commute) (simp add: drawn_def)
    then have put: "put_seed (blake2s_digest d) (8 * r) (drawn seed r @ drop (8 * r) dst) = Inr (drawn seed (Suc r) @ drop (8 * Suc r) dst)"
      using Suc.prems(2) by (simp add: put_seed_def drawn_length assms(2) code_consts iter)
    have "[1..<Suc r] = [1..<r] @ [r]" using False by simp
    then show ?thesis
      using IH [folded d_def] h'' put by (simp add: foldR_append iter code_consts del: upt_Suc)
  qed
qed simp

end

definition release_build :: cfg where
  "release_build = \<lparr> debug_assertions = False, fuzzing_support = False, rom_bits = 6 \<rparr>"

text \<open>A transcript that has absorbed nothing, new or after a reset.\<close>

definition fresh_transcript :: "('h \<Rightarrow> bool) \<Rightarrow> ('h \<Rightarrow> Blake2sState) \<Rightarrow> 'h buffering \<Rightarrow> bool" where
  "fresh_transcript ok view b \<longleftrightarrow> ok (bt_state b) \<and> absorbed (view (bt_state b)) (buffer_offset b) 0 []"

context hasher begin

lemma fresh_new: "fresh_transcript ok view (Blake2sBufferingTranscript_new H)"
  using new(1) absorbed_new by (simp add: fresh_transcript_def Blake2sBufferingTranscript_new_def)

lemma pieces_digest:
  assumes "fresh_transcript ok view b" and "4 * length (concat pieces) < 2 ^ 32"
  shows "\<exists>b1 b2. foldR (bt_absorb c H) pieces b = Inr b1 \<and> bt_finalize H b1 = Inr (blake2s_digest (concat pieces)) \<and>
    bt_finalize_reset H b1 = Inr (blake2s_digest (concat pieces), b2) \<and> fresh_transcript ok view b2"
proof -
  obtain b1 k where b1: "foldR (bt_absorb c H) pieces b = Inr b1" "ok (bt_state b1)"
      "absorbed (view (bt_state b1)) (buffer_offset b1) k (concat pieces)" "0 < k \<longrightarrow> 0 < buffer_offset b1"
    using bt_absorb_pieces [of b 0 "[]" pieces] assms by (auto simp: fresh_transcript_def)
  obtain s where "h_run H (buffer_offset b1) True (zero_tail H b1) = Inr s" "ok s" "h_output H s = blake2s_digest (concat pieces)"
    using bt_finalize_digest [OF b1(2-4) assms(2)] by blast
  then show ?thesis
    using b1(1) reset(1) absorbed_reset by (auto simp: bt_finalize_def bt_finalize_reset_def fresh_transcript_def)
qed

end

text \<open>
  C17. Whatever the hasher (the plain one, or the evaluator on the host or through the delegation in
  the guest), every way to commit to a message returns its digest: at once, after a seed, with a
  hasher used before (its old buffer does not leak), or absorbed in pieces of any lengths, by a new
  transcript or by one reset after an earlier message.
\<close>

theorem transcripts_commit:
  assumes "hasher H c ok view" and "input \<noteq> []" and "length seed = 8" and "4 * (8 + length input) < (2 :: nat) ^ 32"
  shows "commit_initial c H input = Inr (blake2s_digest input) \<and>
    commit_with_seed c H seed input = Inr (blake2s_digest (seed @ input)) \<and>
    (\<forall>h. ok h \<longrightarrow> (\<exists>h1 h2. commit_initial_using_hasher c H h input = Inr (blake2s_digest input, h1) \<and> ok h1 \<and>
       commit_with_seed_using_hasher c H h seed input = Inr (blake2s_digest (seed @ input), h2) \<and> ok h2)) \<and>
    fresh_transcript ok view (Blake2sBufferingTranscript_new H) \<and>
    (\<forall>b pieces. fresh_transcript ok view b \<and> concat pieces = input \<longrightarrow>
       (\<exists>b1 b2. foldR (bt_absorb c H) pieces b = Inr b1 \<and> bt_finalize H b1 = Inr (blake2s_digest input) \<and>
          bt_finalize_reset H b1 = Inr (blake2s_digest input, b2) \<and> fresh_transcript ok view b2))"
proof (intro conjI allI impI)
  have seed: "seed \<noteq> []" and len: "4 * length (seed @ input) < 2 ^ 32" "4 * length input < 2 ^ 32" using assms(3,4) by auto
  show "commit_initial c H input = Inr (blake2s_digest input)"
    by (rule hasher.commit_initial_digest [OF assms(1,2) len(2)])
  show "commit_with_seed c H seed input = Inr (blake2s_digest (seed @ input))"
    by (rule hasher.commit_with_seed_digest [OF assms(1) seed assms(2) len(1)])
  show "\<exists>h1 h2. commit_initial_using_hasher c H h input = Inr (blake2s_digest input, h1) \<and> ok h1 \<and>
       commit_with_seed_using_hasher c H h seed input = Inr (blake2s_digest (seed @ input), h2) \<and> ok h2" if "ok h" for h
    using hasher.using_hasher_digest [OF assms(1) that seed assms(2) len(1)] by blast
  show "fresh_transcript ok view (Blake2sBufferingTranscript_new H)"
    by (rule hasher.fresh_new [OF assms(1)])
  show "\<exists>b1 b2. foldR (bt_absorb c H) pieces b = Inr b1 \<and> bt_finalize H b1 = Inr (blake2s_digest input) \<and>
          bt_finalize_reset H b1 = Inr (blake2s_digest input, b2) \<and> fresh_transcript ok view b2"
    if "fresh_transcript ok view b \<and> concat pieces = input" for b pieces
    using hasher.pieces_digest [OF assms(1), of b pieces] that len(2) by auto
qed

theorem transcripts_commit_witness:
  "\<exists>b. foldR (bt_absorb release_build (evaluator_hasher release_build True zeroed)) [[1, 2], [], [3]]
       (Blake2sBufferingTranscript_new (evaluator_hasher release_build True zeroed)) = Inr b \<and>
     bt_finalize (evaluator_hasher release_build True zeroed) b = commit_initial release_build (baseline_hasher release_build) [1, 2, 3]"
proof -
  have "length (replicate 8 0 :: u32 list) = 8" "4 * (8 + length [1, 2, 3 :: u32]) < (2 :: nat) ^ 32" by simp_all
  from transcripts_commit [OF evaluator.hasher_axioms _ this, of release_build True]
    transcripts_commit [OF baseline.hasher_axioms _ this, of release_build]
  have "\<forall>b pieces. fresh_transcript ev_ok as_baseline b \<and> concat pieces = [1, 2, 3] \<longrightarrow>
       (\<exists>b1 b2. foldR (bt_absorb release_build (evaluator_hasher release_build True zeroed)) pieces b = Inr b1 \<and>
          bt_finalize (evaluator_hasher release_build True zeroed) b1 = Inr (blake2s_digest [1, 2, 3]))"
    "fresh_transcript ev_ok as_baseline (Blake2sBufferingTranscript_new (evaluator_hasher release_build True zeroed))"
    "commit_initial release_build (baseline_hasher release_build) [1, 2, 3] = Inr (blake2s_digest [1, 2, 3])"
    by blast+
  moreover have "concat [[1, 2], [], [3 :: u32]] = [1, 2, 3]" by simp
  ultimately show ?thesis by metis
qed



end
