(* ===== verification/Pow.thy ===== *)
theory Pow
  imports FiatShamir
begin

text \<open>
  The search for a proof of work, \<open>transcript/src/pow.rs\<close>: one after another, or by threads that share
  the best result in an atomic variable. Every interleaving of the threads' steps is a run of the
  relation \<open>pow_step\<close>; with one shared variable, relaxed accesses are sequentially consistent.
\<close>

section \<open>One nonce after another\<close>

definition BLAKE2S_NO_RESULT :: u64 where
  [code_consts]: "BLAKE2S_NO_RESULT = 0xffffffffffffffff"
definition BLAKE2S_ROUNDS_PER_INVOCATION :: nat where
  [code_consts]: "BLAKE2S_ROUNDS_PER_INVOCATION = 65536"

definition prepare_pow_search :: "u32 list \<Rightarrow> u32 list \<times> u32 list" where
  "prepare_pow_search seed =
     (let initial_state =
            [CONFIGURED_IV ! 0, CONFIGURED_IV ! 1, CONFIGURED_IV ! 2, CONFIGURED_IV ! 3,
             CONFIGURED_IV ! 4, CONFIGURED_IV ! 5, CONFIGURED_IV ! 6, CONFIGURED_IV ! 7,
             IV ! 0, IV ! 1, IV ! 2, IV ! 3,
             IV ! 4 XOR word_of_nat ((BLAKE2S_DIGEST_SIZE_U32_WORDS + 2) * 4), IV ! 5, IV ! 6 XOR 0xffffffff, IV ! 7];
          base_input = seed @ drop BLAKE2S_DIGEST_SIZE_U32_WORDS (replicate BLAKE2S_BLOCK_SIZE_U32_WORDS 0) in
      (initial_state, base_input))"

text \<open>The verdict on a challenge, and the input with the challenge in it.\<close>

definition pow_challenge_matches :: "u32 list \<Rightarrow> u32 list \<Rightarrow> u64 \<Rightarrow> u32 \<Rightarrow> bool \<times> u32 list" where
  "pow_challenge_matches input initial_state challenge threshold =
     (let input = input[BLAKE2S_DIGEST_SIZE_U32_WORDS := ucast challenge];
          input = input[BLAKE2S_DIGEST_SIZE_U32_WORDS + 1 := ucast (drop_bit 32 challenge)];
          state = run_rounds True initial_state input;
          word_to_test = CONFIGURED_IV ! 0 XOR state ! 0 XOR state ! 8 in
      (word_to_test \<le> threshold, input))"

definition pow_threshold :: "u32 \<Rightarrow> u32" where
  "pow_threshold pow_bits = (if unat pow_bits < 32 then drop_bit (unat pow_bits) 0xffffffff else 0)"

definition finalize_pow_result :: "cfg \<Rightarrow> 'h hasher_ops \<Rightarrow> u32 list \<Rightarrow> u64 \<Rightarrow> u32 \<Rightarrow> (u32 list \<times> u64) res" where
  "finalize_pow_result c H seed challenge pow_bits =
     bindR (verify_pow c H seed challenge pow_bits) (\<lambda>new_seed. Inr (new_seed, challenge))"

text \<open>The loop over the challenges from \<open>challenge\<close> to the last but one below \<open>BLAKE2S_NO_RESULT\<close>.\<close>

function search_loop :: "u32 list \<Rightarrow> u32 list \<Rightarrow> u32 \<Rightarrow> nat \<Rightarrow> u64 option" where
  "search_loop input initial_state threshold challenge =
     (if challenge < unat (BLAKE2S_NO_RESULT - 1) then
        (let (found, input) = pow_challenge_matches input initial_state (word_of_nat challenge) threshold in
         if found then Some (word_of_nat challenge) else search_loop input initial_state threshold (challenge + 1))
      else None)"
  by pat_completeness auto
termination by (relation "measure (\<lambda>(_, _, _, challenge). unat (BLAKE2S_NO_RESULT - 1) - challenge)") auto

declare search_loop.simps [simp del]

definition search_pow_serial_from_prepared ::
  "cfg \<Rightarrow> 'h hasher_ops \<Rightarrow> u32 list \<Rightarrow> u32 \<Rightarrow> u32 list \<Rightarrow> u32 list \<Rightarrow> (u32 list \<times> u64) res" where
  "search_pow_serial_from_prepared c H seed pow_bits initial_state base_input =
     (case search_loop base_input initial_state (pow_threshold pow_bits) 0 of
        None \<Rightarrow> Inl AssertFailed
      | Some challenge \<Rightarrow> finalize_pow_result c H seed challenge pow_bits)"

section \<open>Threads\<close>

datatype phase =
    AtRound nat
  | Testing nat nat
  | Found u64
  | Finished

definition rounds_per_worker :: "nat \<Rightarrow> nat" where
  "rounds_per_worker num_workers = unat (BLAKE2S_NO_RESULT - 1) div num_workers div BLAKE2S_ROUNDS_PER_INVOCATION"

definition round_base :: "nat \<Rightarrow> nat \<Rightarrow> nat \<Rightarrow> nat" where
  "round_base num_workers worker_idx round_idx =
     (worker_idx + round_idx * num_workers) * BLAKE2S_ROUNDS_PER_INVOCATION"

text \<open>
  One step of a thread on the shared result: the load before a round, one challenge, or the update of
  the result. \<open>deterministic\<close> is the feature \<open>deterministic_pow\<close>.
\<close>

fun worker_step ::
  "bool \<Rightarrow> nat \<Rightarrow> u32 list \<Rightarrow> u32 \<Rightarrow> nat \<Rightarrow> u64 \<Rightarrow> u32 list \<times> phase \<Rightarrow> u64 \<times> u32 list \<times> phase" where
  "worker_step deterministic num_workers initial_state threshold worker_idx r (input, AtRound round_idx) =
     (if round_idx < rounds_per_worker num_workers then
        (let base = word_of_nat (round_base num_workers worker_idx round_idx) in
         if (if deterministic then r \<le> base else r \<noteq> BLAKE2S_NO_RESULT) then (r, input, Finished)
         else (r, input, Testing round_idx 0))
      else (r, input, Finished))"
| "worker_step deterministic num_workers initial_state threshold worker_idx r (input, Testing round_idx j) =
     (let base = round_base num_workers worker_idx round_idx;
          rounds_this_invocation = min BLAKE2S_ROUNDS_PER_INVOCATION (unat (BLAKE2S_NO_RESULT - 1) - base) in
      if j < rounds_this_invocation then
        (let challenge = word_of_nat (base + j);
             (found, input) = pow_challenge_matches input initial_state challenge threshold in
         (r, input, if found then Found challenge else Testing round_idx (j + 1)))
      else (r, input, AtRound (round_idx + 1)))"
| "worker_step deterministic num_workers initial_state threshold worker_idx r (input, Found challenge) =
     (if deterministic then min r challenge else if r = BLAKE2S_NO_RESULT then challenge else r, input, Finished)"
| "worker_step deterministic num_workers initial_state threshold worker_idx r (input, Finished) = (r, input, Finished)"

inductive pow_step :: "bool \<Rightarrow> nat \<Rightarrow> u32 list \<Rightarrow> u32 \<Rightarrow> u64 \<times> (u32 list \<times> phase) list \<Rightarrow> u64 \<times> (u32 list \<times> phase) list \<Rightarrow> bool"
  for deterministic num_workers initial_state threshold where
  worker: "i < length ws \<Longrightarrow> snd (ws ! i) \<noteq> Finished \<Longrightarrow>
     worker_step deterministic num_workers initial_state threshold i r (ws ! i) = (r', w) \<Longrightarrow>
     pow_step deterministic num_workers initial_state threshold (r, ws) (r', ws[i := w])"

definition pow_start :: "nat \<Rightarrow> u32 list \<Rightarrow> u64 \<times> (u32 list \<times> phase) list" where
  "pow_start num_workers base_input = (BLAKE2S_NO_RESULT, replicate num_workers (base_input, AtRound 0))"

text \<open>The values the result can have when the scope ends, that is, when all threads have finished.\<close>

definition parallel_outcome :: "bool \<Rightarrow> nat \<Rightarrow> u32 list \<Rightarrow> u32 list \<Rightarrow> u32 \<Rightarrow> u64 \<Rightarrow> bool" where
  "parallel_outcome deterministic num_workers base_input initial_state threshold r \<longleftrightarrow>
     (\<exists>ws. (pow_step deterministic num_workers initial_state threshold)\<^sup>*\<^sup>* (pow_start num_workers base_input) (r, ws) \<and>
        (\<forall>w \<in> set ws. snd w = Finished))"

text \<open>\<open>search_pow\<close>, as the relation of its argument and its possible results.\<close>

definition search_pow :: "cfg \<Rightarrow> 'h hasher_ops \<Rightarrow> bool \<Rightarrow> nat \<Rightarrow> u32 list \<Rightarrow> u32 \<Rightarrow> (u32 list \<times> u64) res \<Rightarrow> bool" where
  "search_pow c H deterministic num_workers seed pow_bits out \<longleftrightarrow>
     (if \<not> pow_bits \<le> 32 then out = Inl AssertFailed
      else
        (let (initial_state, base_input) = prepare_pow_search seed in
         if unat pow_bits \<le> trailing_zeros (word_of_nat BLAKE2S_ROUNDS_PER_INVOCATION)
         then out = search_pow_serial_from_prepared c H seed pow_bits initial_state base_input
         else (\<exists>r. parallel_outcome deterministic num_workers base_input initial_state (pow_threshold pow_bits) r \<and>
                 out = finalize_pow_result c H seed r pow_bits)))"

section \<open>Challenges and the verifier\<close>

definition challenge_digest :: "u32 list \<Rightarrow> u64 \<Rightarrow> u32 list" where
  "challenge_digest seed nonce = blake2s_digest (seed @ [ucast nonce, ucast (drop_bit 32 nonce)])"

definition pow_input :: "u32 list \<Rightarrow> u32 list \<Rightarrow> bool" where
  "pow_input seed input \<longleftrightarrow> length seed = 8 \<and> (\<exists>x y. input = seed @ [x, y] @ replicate 6 0)"

lemma prepared_state:
  "fst (prepare_pow_search seed) = extended_state CONFIGURED_IV (word_of_nat 40) 0xffffffff"
  by (simp add: prepare_pow_search_def extended_state_def code_consts xor.commute)

lemma prepared_input: "length seed = 8 \<Longrightarrow> pow_input seed (snd (prepare_pow_search seed))"
  by (auto simp: pow_input_def prepare_pow_search_def code_consts numeral_eq_Suc)

lemma challenge_matches:
  assumes "pow_input seed input"
  shows "\<exists>input'. pow_challenge_matches input (fst (prepare_pow_search seed)) nonce threshold =
      (challenge_digest seed nonce ! 0 \<le> threshold, input') \<and> pow_input seed input'"
proof -
  obtain x y where input: "input = seed @ [x, y] @ replicate 6 0" and seed: "length seed = 8"
    using assms by (auto simp: pow_input_def)
  let ?w = "seed @ [ucast nonce, ucast (drop_bit 32 nonce)]"
  have i: "input[8 := ucast nonce, 9 := ucast (drop_bit 32 nonce)] = ?w @ replicate 6 0"
    using seed by (simp add: input list_update_append)
  let ?v = "run_rounds True (extended_state CONFIGURED_IV (word_of_nat 40) 0xffffffff) (?w @ replicate 6 0)"
  have "challenge_digest seed nonce = xor_halves CONFIGURED_IV ?v"
    using seed by (simp add: challenge_digest_def blake2s_digest_def compress_def Let_def)
  then have "challenge_digest seed nonce ! 0 = CONFIGURED_IV ! 0 XOR ?v ! 0 XOR ?v ! 8"
    by (simp add: xor_halves_def xor.assoc)
  then show ?thesis
    using i seed unfolding pow_challenge_matches_def prepared_state
    by (auto simp: code_consts Let_def pow_input_def xor.assoc)
qed

lemma shr_threshold: "unat pow_bits < 32 \<Longrightarrow> shr_u32 c 0xffffffff pow_bits = Inr (pow_threshold pow_bits)"
proof -
  assume b: "unat pow_bits < 32"
  have "pow_bits AND 31 = take_bit 5 pow_bits" by (simp add: take_bit_eq_mask mask_eq_exp_minus_1)
  then have "unat (pow_bits AND 31) = unat pow_bits" using b by (simp add: take_bit_eq_mod unat_mod_distrib)
  then show ?thesis using b by (simp add: shr_u32_def pow_threshold_def)
qed

text \<open>Below 32 bits the verifier accepts the nonces the search looks for.\<close>

lemma verify_pow_iff:
  assumes "hasher H c ok view" and "length seed = 8" and "unat pow_bits < 32"
  shows "verify_pow c H seed nonce pow_bits = Inr s \<longleftrightarrow>
    challenge_digest seed nonce ! 0 \<le> pow_threshold pow_bits \<and> s = challenge_digest seed nonce"
proof -
  have "pow_bits \<le> 32" using assms(3) by (simp add: word_le_nat_alt)
  then show ?thesis
    using hasher.verify_pow_digest [OF assms(1) hasher.new(1) [OF assms(1)] assms(2), of nonce pow_bits] shr_threshold [OF assms(3), of c]
    by (auto simp: verify_pow_def challenge_digest_def guardR_def split: if_splits)
qed

section \<open>The serial search\<close>

lemma search_loop_least:
  fixes threshold :: u32
  assumes "pow_input seed input" and "n \<le> unat (BLAKE2S_NO_RESULT - 1)"
  defines "good \<equiv> \<lambda>x. x < unat (BLAKE2S_NO_RESULT - 1) \<and> challenge_digest seed (word_of_nat x) ! 0 \<le> threshold"
  shows "search_loop input (fst (prepare_pow_search seed)) threshold n =
    (if \<exists>x \<ge> n. good x then Some (word_of_nat (LEAST x. n \<le> x \<and> good x)) else None)"
  using assms(1,2)
proof (induction "unat (BLAKE2S_NO_RESULT - 1) - n" arbitrary: n input)
  case 0
  then show ?case by (subst search_loop.simps) (auto simp: good_def)
next
  case (Suc d)
  obtain input' where step: "pow_challenge_matches input (fst (prepare_pow_search seed)) (word_of_nat n) threshold =
      (challenge_digest seed (word_of_nat n) ! 0 \<le> threshold, input')" "pow_input seed input'"
    using challenge_matches [OF Suc.prems(1)] by blast
  have n: "n < unat (BLAKE2S_NO_RESULT - 1)" using Suc.hyps(2) by simp
  show ?case
  proof (cases "challenge_digest seed (word_of_nat n) ! 0 \<le> threshold")
    case True
    then have g: "good n" using n by (simp add: good_def)
    then have "(LEAST x. n \<le> x \<and> good x) = n" by (intro Least_equality) auto
    moreover have "search_loop input (fst (prepare_pow_search seed)) threshold n = Some (word_of_nat n)"
      using True n step(1) by (subst search_loop.simps) simp
    moreover have "\<exists>x \<ge> n. good x" using g by blast
    ultimately show ?thesis by simp
  next
    case False
    then have "\<not> good n" by (simp add: good_def)
    then have later: "(n \<le> x \<and> good x) = (n + 1 \<le> x \<and> good x)" for x
      by (cases "x = n") auto
    have "search_loop input (fst (prepare_pow_search seed)) threshold n =
        search_loop input' (fst (prepare_pow_search seed)) threshold (n + 1)"
      using False n step(1) by (subst search_loop.simps) simp
    also have "search_loop input' (fst (prepare_pow_search seed)) threshold (n + 1) =
        (if \<exists>x \<ge> n + 1. good x then Some (word_of_nat (LEAST x. n + 1 \<le> x \<and> good x)) else None)"
      using Suc.hyps(2) n step(2) by (intro Suc.hyps(1)) auto
    finally show ?thesis unfolding later .
  qed
qed

section \<open>Threads: every run ends\<close>

fun phase_measure :: "nat \<Rightarrow> phase \<Rightarrow> nat" where
  "phase_measure rounds (AtRound k) = (rounds - k) * (BLAKE2S_ROUNDS_PER_INVOCATION + 3) + 2"
| "phase_measure rounds (Testing k j) =
     (rounds - k - 1) * (BLAKE2S_ROUNDS_PER_INVOCATION + 3) + 3 + (BLAKE2S_ROUNDS_PER_INVOCATION - j)"
| "phase_measure rounds (Found x) = 1"
| "phase_measure rounds Finished = 0"

lemma worker_step_decreases:
  assumes "snd w \<noteq> Finished" and "worker_step det W st thr i r w = (r', w')"
  shows "phase_measure (rounds_per_worker W) (snd w') < phase_measure (rounds_per_worker W) (snd w)"
proof -
  obtain input p where w: "w = (input, p)" by (cases w)
  show ?thesis
  proof (cases p)
    case (AtRound k)
    have "(rounds_per_worker W - k) * (BLAKE2S_ROUNDS_PER_INVOCATION + 3) =
        (rounds_per_worker W - k - 1) * (BLAKE2S_ROUNDS_PER_INVOCATION + 3) + BLAKE2S_ROUNDS_PER_INVOCATION + 3"
      if "k < rounds_per_worker W"
      using that by (cases "rounds_per_worker W - k") simp_all
    then show ?thesis using assms AtRound by (auto simp: w Let_def split: if_splits)
  next
    case (Testing k j)
    then show ?thesis using assms by (auto simp: w Let_def split: if_splits prod.splits)
  qed (use assms in \<open>auto simp: w\<close>)
qed

definition run_measure :: "nat \<Rightarrow> u64 \<times> (u32 list \<times> phase) list \<Rightarrow> nat" where
  "run_measure W s = sum_list (map (phase_measure (rounds_per_worker W) \<circ> snd) (snd s))"

lemma sum_list_update_less:
  fixes f :: "'a \<Rightarrow> nat"
  assumes "i < length xs" and "f y < f (xs ! i)"
  shows "sum_list (map f (xs[i := y])) < sum_list (map f xs)"
  using assms
proof (induction xs arbitrary: i)
  case (Cons x xs)
  then show ?case by (cases i) simp_all
qed simp

lemma pow_step_decreases: "pow_step det W st thr s s' \<Longrightarrow> run_measure W s' < run_measure W s"
proof (induction rule: pow_step.induct)
  case (worker i ws r r' w)
  then show ?case using worker_step_decreases [OF worker(2,3)] by (simp add: run_measure_def sum_list_update_less)
qed

lemma runs_end:
  "\<exists>r ws. (pow_step det W st thr)\<^sup>*\<^sup>* s (r, ws) \<and> (\<forall>w \<in> set ws. snd w = Finished)"
proof (induction "run_measure W s" arbitrary: s rule: less_induct)
  case less
  obtain r ws where s: "s = (r, ws)" by (cases s)
  show ?case
  proof (cases "\<forall>w \<in> set ws. snd w = Finished")
    case True
    then show ?thesis using s by blast
  next
    case False
    then obtain i where i: "i < length ws" "snd (ws ! i) \<noteq> Finished" by (auto simp: in_set_conv_nth)
    obtain r' w where w: "worker_step det W st thr i r (ws ! i) = (r', w)" by (cases "worker_step det W st thr i r (ws ! i)")
    have step: "pow_step det W st thr s (r', ws[i := w])" using pow_step.worker [OF i w] s by simp
    from less [OF pow_step_decreases [OF step]] obtain r'' ws'' where
      "(pow_step det W st thr)\<^sup>*\<^sup>* (r', ws[i := w]) (r'', ws'')" "\<forall>w \<in> set ws''. snd w = Finished" by blast
    then show ?thesis using converse_rtranclp_into_rtranclp [of "pow_step det W st thr", OF step] by blast
  qed
qed

lemma no_infinite_run: "\<not> (\<forall>n. pow_step det W st thr (f n) (f (Suc n)))"
proof
  assume run: "\<forall>n. pow_step det W st thr (f n) (f (Suc n))"
  have "run_measure W (f n) + n \<le> run_measure W (f 0)" for n
  proof (induction n)
    case (Suc n)
    then show ?case using pow_step_decreases [of det W st thr "f n" "f (Suc n)"] run by fastforce
  qed simp
  from this [of "Suc (run_measure W (f 0))"] show False by simp
qed

section \<open>Threads: what the result is\<close>

definition covered :: "nat \<Rightarrow> nat" where
  "covered W = W * rounds_per_worker W * BLAKE2S_ROUNDS_PER_INVOCATION"

definition owner :: "nat \<Rightarrow> nat \<Rightarrow> nat" where
  "owner W x = x div BLAKE2S_ROUNDS_PER_INVOCATION mod W"

definition good :: "u32 list \<Rightarrow> u32 \<Rightarrow> nat \<Rightarrow> bool" where
  "good seed thr x \<longleftrightarrow> challenge_digest seed (word_of_nat x) ! 0 \<le> thr"

definition none_below :: "u32 list \<Rightarrow> u32 \<Rightarrow> nat \<Rightarrow> nat \<Rightarrow> nat \<Rightarrow> bool" where
  "none_below seed thr W i b \<longleftrightarrow> (\<forall>x < b. owner W x = i \<longrightarrow> \<not> good seed thr x)"

fun phase_inv :: "bool \<Rightarrow> nat \<Rightarrow> u32 list \<Rightarrow> u32 \<Rightarrow> u64 \<Rightarrow> nat \<Rightarrow> phase \<Rightarrow> bool" where
  "phase_inv det W seed thr r i (AtRound k) \<longleftrightarrow> none_below seed thr W i (round_base W i k)"
| "phase_inv det W seed thr r i (Testing k j) \<longleftrightarrow>
     k < rounds_per_worker W \<and> j \<le> BLAKE2S_ROUNDS_PER_INVOCATION \<and> none_below seed thr W i (round_base W i k + j)"
| "phase_inv det W seed thr r i (Found x) \<longleftrightarrow>
     unat x < covered W \<and> good seed thr (unat x) \<and> none_below seed thr W i (unat x)"
| "phase_inv det W seed thr r i Finished \<longleftrightarrow>
     (\<forall>x < covered W. owner W x = i \<and> good seed thr x \<longrightarrow> (if det then unat r \<le> x else r \<noteq> BLAKE2S_NO_RESULT))"

definition result_inv :: "nat \<Rightarrow> u32 list \<Rightarrow> u32 \<Rightarrow> u64 \<Rightarrow> bool" where
  "result_inv W seed thr r \<longleftrightarrow> r = BLAKE2S_NO_RESULT \<or> unat r < covered W \<and> good seed thr (unat r)"

lemma covered_bound: "covered W \<le> unat (BLAKE2S_NO_RESULT - 1)"
proof -
  let ?n = "unat (BLAKE2S_NO_RESULT - 1)" and ?b = BLAKE2S_ROUNDS_PER_INVOCATION
  have "covered W = (W * ?b) * (?n div (W * ?b))" by (simp add: covered_def rounds_per_worker_def div_mult2_eq)
  also have "\<dots> \<le> ?n" by (rule times_div_less_eq_dividend)
  finally show ?thesis .
qed

text \<open>The blocks of a thread.\<close>

lemma block_covered:
  assumes "i < W" and "k < rounds_per_worker W"
  shows "round_base W i k + BLAKE2S_ROUNDS_PER_INVOCATION \<le> covered W"
proof -
  have "i + k * W + 1 \<le> W * rounds_per_worker W"
  proof -
    have "i + k * W + 1 \<le> Suc k * W" using assms(1) by simp
    also have "\<dots> \<le> rounds_per_worker W * W" using assms(2) by (intro mult_le_mono1) simp
    finally show ?thesis by (simp add: mult.commute)
  qed
  then have "(i + k * W + 1) * BLAKE2S_ROUNDS_PER_INVOCATION \<le> covered W" unfolding covered_def by (rule mult_le_mono1)
  then show ?thesis by (simp add: round_base_def)
qed

lemma block_owner:
  assumes "i < W" and "j < BLAKE2S_ROUNDS_PER_INVOCATION"
  shows "owner W (round_base W i k + j) = i"
  using assms by (simp add: owner_def round_base_def)

lemma owner_block:
  assumes "owner W x = i" and "W \<noteq> 0"
  shows "\<exists>k j. x = round_base W i k + j \<and> j < BLAKE2S_ROUNDS_PER_INVOCATION"
proof (intro exI conjI)
  let ?b = BLAKE2S_ROUNDS_PER_INVOCATION
  have "x div ?b = i + x div ?b div W * W" using assms(1) mod_div_mult_eq [of "x div ?b" W] by (simp add: owner_def)
  then show "x = round_base W i (x div ?b div W) + x mod ?b" unfolding round_base_def by (metis div_mult_mod_eq)
  show "x mod ?b < ?b" by (simp add: code_consts)
qed

text \<open>A thread that has gone through a block has gone through all it owns up to its next one.\<close>

lemma next_block:
  assumes "none_below seed thr W i (round_base W i k + BLAKE2S_ROUNDS_PER_INVOCATION)" and "W \<noteq> 0"
  shows "none_below seed thr W i (round_base W i (k + 1))"
  unfolding none_below_def
proof (intro allI impI)
  fix x assume x: "x < round_base W i (k + 1)" "owner W x = i"
  from owner_block [OF x(2) assms(2)] obtain k' j where k': "x = round_base W i k' + j" "j < BLAKE2S_ROUNDS_PER_INVOCATION" by blast
  have "k' < k + 1"
  proof (rule ccontr)
    assume "\<not> k' < k + 1"
    then have "i + (k + 1) * W \<le> i + k' * W" by (intro add_left_mono mult_le_mono1) simp
    from mult_le_mono1 [OF this, of BLAKE2S_ROUNDS_PER_INVOCATION] show False
      using x(1) k'(1) unfolding round_base_def by linarith
  qed
  then have "i + k' * W \<le> i + k * W" by simp
  from mult_le_mono1 [OF this, of BLAKE2S_ROUNDS_PER_INVOCATION]
  have "x < round_base W i k + BLAKE2S_ROUNDS_PER_INVOCATION" using k' unfolding round_base_def by linarith
  then show "\<not> good seed thr x" using assms(1) x(2) by (simp add: none_below_def)
qed

lemma all_blocks:
  assumes "none_below seed thr W i (round_base W i k)" and "rounds_per_worker W \<le> k" and "i < W" and "x < covered W" and "owner W x = i"
  shows "\<not> good seed thr x"
proof -
  have "x div BLAKE2S_ROUNDS_PER_INVOCATION < W * rounds_per_worker W"
    using assms(4) by (simp add: covered_def less_mult_imp_div_less)
  also have "\<dots> \<le> k * W" unfolding mult.commute [of W] by (rule mult_le_mono1 [OF assms(2)])
  also have "\<dots> \<le> i + k * W" by simp
  finally have "x < round_base W i k" by (simp add: round_base_def div_less_iff_less_mult code_consts)
  then show ?thesis using assms(1,5) by (simp add: none_below_def)
qed

lemma word_of_nat_covered: "x < covered W \<Longrightarrow> unat (word_of_nat x :: u64) = x"
  using covered_bound [of W] by (simp add: unat_of_nat code_consts)

lemma worker_step_inv:
  assumes "phase_inv det W seed thr r i (snd w)" and "pow_input seed (fst w)" and "i < W" and "result_inv W seed thr r"
    and "worker_step det W (fst (prepare_pow_search seed)) thr i r w = (r', w')"
  shows "phase_inv det W seed thr r' i (snd w') \<and> pow_input seed (fst w') \<and> result_inv W seed thr r' \<and>
    (if det then r' \<le> r else r = BLAKE2S_NO_RESULT \<or> r' = r) \<and> (det \<or> snd w \<noteq> Finished \<or> r' = r)"
proof -
  obtain input p where w: "w = (input, p)" by (cases w)
  show ?thesis
  proof (cases p)
    case (AtRound k)
    show ?thesis
    proof (cases "k < rounds_per_worker W")
      case True
      let ?base = "word_of_nat (round_base W i k) :: u64"
      have "round_base W i k < covered W" using block_covered [OF assms(3) True] by (simp add: code_consts)
      then have base: "unat ?base = round_base W i k" by (rule word_of_nat_covered)
      have none: "none_below seed thr W i (round_base W i k)" using assms(1) by (simp add: w AtRound)
      have later: "round_base W i k \<le> x" if "owner W x = i" "good seed thr x" for x
        using none that by (meson leI none_below_def)
      have "unat r \<le> x" if "r \<le> ?base" "owner W x = i" "good seed thr x" for x
        using later [OF that(2,3)] that(1) by (simp add: word_le_nat_alt base)
      then have stop: "r \<le> ?base \<longrightarrow> (\<forall>x < covered W. owner W x = i \<and> good seed thr x \<longrightarrow> unat r \<le> x)" by blast
      have "r' = r" "w' = (input, if (if det then r \<le> ?base else r \<noteq> BLAKE2S_NO_RESULT) then Finished else Testing k 0)"
        using assms(5) True unfolding w AtRound worker_step.simps Let_def by (auto split: if_splits)
      then show ?thesis using assms(2,4) True none stop by (cases det) (auto simp: w AtRound)
    next
      case False
      then show ?thesis using assms all_blocks [of seed thr W i k] by (auto simp: w AtRound)
    qed
  next
    case (Testing k j)
    have k: "k < rounds_per_worker W" and j: "j \<le> BLAKE2S_ROUNDS_PER_INVOCATION"
      and none: "none_below seed thr W i (round_base W i k + j)" using assms(1) by (simp_all add: w Testing)
    have cov: "round_base W i k + BLAKE2S_ROUNDS_PER_INVOCATION \<le> covered W" by (rule block_covered [OF assms(3) k])
    then have rounds: "min BLAKE2S_ROUNDS_PER_INVOCATION (unat (BLAKE2S_NO_RESULT - 1) - round_base W i k) = BLAKE2S_ROUNDS_PER_INVOCATION"
      using covered_bound [of W] by simp
    show ?thesis
    proof (cases "j < BLAKE2S_ROUNDS_PER_INVOCATION")
      case True
      let ?x = "round_base W i k + j"
      have x: "?x < covered W" using cov True by simp
      obtain input' where m: "pow_challenge_matches input (fst (prepare_pow_search seed)) (word_of_nat ?x) thr =
          (good seed thr ?x, input')" "pow_input seed input'"
        using challenge_matches [of seed input "word_of_nat ?x" thr] assms(2) by (auto simp: w good_def)
      have step: "r' = r" "w' = (input', if good seed thr ?x then Found (word_of_nat ?x) else Testing k (j + 1))"
        using assms(5) True m(1) unfolding w Testing worker_step.simps Let_def rounds by auto
      show ?thesis
      proof (cases "good seed thr ?x")
        case True
        then show ?thesis using step m(2) assms(4) none x word_of_nat_covered [OF x] by simp
      next
        case False
        then have "none_below seed thr W i (?x + 1)" using none by (auto simp: none_below_def less_Suc_eq)
        then show ?thesis using False step m(2) assms(4) k True by simp
      qed
    next
      case False
      then have full: "j = BLAKE2S_ROUNDS_PER_INVOCATION" using j by simp
      have "none_below seed thr W i (round_base W i (k + 1))" using next_block none full assms(3) by simp
      moreover have "r' = r" "w' = (input, AtRound (k + 1))"
        using assms(5) False unfolding w Testing worker_step.simps Let_def rounds by auto
      ultimately show ?thesis using assms(2,4) by (simp add: w)
    qed
  next
    case (Found x)
    have *: "unat x \<le> y" if "owner W y = i" "good seed thr y" for y
      using assms(1) that by (auto simp: w Found none_below_def dest: leI)
    have "unat (min r x) \<le> unat x" by (simp flip: word_le_nat_alt)
    from le_trans [OF this *] have low: "unat (min r x) \<le> y" if "owner W y = i" "good seed thr y" for y
      using that .
    have x: "x \<noteq> BLAKE2S_NO_RESULT" "result_inv W seed thr x"
      using assms(1) covered_bound [of W] by (auto simp: w Found code_consts result_inv_def)
    have "r' = (if det then min r x else if r = BLAKE2S_NO_RESULT then x else r)" "w' = (input, Finished)"
      using assms(5) by (auto simp: w Found)
    then show ?thesis
      using x low assms(2,4) by (cases det) (auto simp: w Found min_def)
  next
    case Finished
    then show ?thesis using assms by (auto simp: w)
  qed
qed

fun run_inv :: "bool \<Rightarrow> nat \<Rightarrow> u32 list \<Rightarrow> u32 \<Rightarrow> u64 \<times> (u32 list \<times> phase) list \<Rightarrow> bool" where
  "run_inv det W seed thr (r, ws) \<longleftrightarrow> length ws = W \<and> result_inv W seed thr r \<and>
     (\<forall>i < W. phase_inv det W seed thr r i (snd (ws ! i)) \<and> pow_input seed (fst (ws ! i)))"

lemma phase_inv_mono:
  assumes "phase_inv det W seed thr r i p" and "if det then r' \<le> r else r = BLAKE2S_NO_RESULT \<or> r' = r"
  shows "phase_inv det W seed thr r' i p"
proof (cases p)
  case Finished
  then show ?thesis
    using assms by (cases det) (auto simp: word_le_nat_alt intro: le_trans)
qed (use assms in simp_all)

lemma pow_step_inv:
  assumes "pow_step det W (fst (prepare_pow_search seed)) thr s s'" and "run_inv det W seed thr s"
  shows "run_inv det W seed thr s'"
  using assms
proof (cases rule: pow_step.cases)
  case (worker i ws r r' w)
  from worker(1,3) assms(2) have i: "i < W" and inv: "length ws = W" "result_inv W seed thr r"
    "\<And>k. k < W \<Longrightarrow> phase_inv det W seed thr r k (snd (ws ! k)) \<and> pow_input seed (fst (ws ! k))"
    by auto
  from worker_step_inv [OF _ _ i inv(2) worker(5)] inv(3) [OF i]
  have step: "phase_inv det W seed thr r' i (snd w) \<and> pow_input seed (fst w) \<and> result_inv W seed thr r'"
    "if det then r' \<le> r else r = BLAKE2S_NO_RESULT \<or> r' = r" by blast+
  have "phase_inv det W seed thr r' k (snd (ws[i := w] ! k)) \<and> pow_input seed (fst (ws[i := w] ! k))" if "k < W" for k
    using step(1) inv(3) [OF that] phase_inv_mono [OF _ step(2)] that inv(1) by (cases "k = i") auto
  then show ?thesis using step(1) inv(1) worker(2) by simp
qed

lemma pow_start_inv: "length seed = 8 \<Longrightarrow> run_inv det W seed thr (pow_start W (snd (prepare_pow_search seed)))"
  using prepared_input by (auto simp: pow_start_def result_inv_def none_below_def round_base_def owner_def div_less code_consts)

lemma parallel_outcome_inv:
  assumes "length seed = 8" and "W \<noteq> 0"
    and "parallel_outcome det W (snd (prepare_pow_search seed)) (fst (prepare_pow_search seed)) thr r"
  shows "result_inv W seed thr r \<and>
    (\<forall>x < covered W. good seed thr x \<longrightarrow> (if det then unat r \<le> x else r \<noteq> BLAKE2S_NO_RESULT))"
proof -
  obtain ws where run: "(pow_step det W (fst (prepare_pow_search seed)) thr)\<^sup>*\<^sup>* (pow_start W (snd (prepare_pow_search seed))) (r, ws)"
    and fin: "\<forall>w \<in> set ws. snd w = Finished"
    using assms(3) by (auto simp: parallel_outcome_def)
  from run have "run_inv det W seed thr (r, ws)"
    by (induction rule: rtranclp_induct) (auto intro: pow_start_inv [OF assms(1)] pow_step_inv)
  then have inv: "result_inv W seed thr r" "length ws = W" "\<And>i. i < W \<Longrightarrow> phase_inv det W seed thr r i (snd (ws ! i))" by auto
  have "if det then unat r \<le> x else r \<noteq> BLAKE2S_NO_RESULT" if "x < covered W" "good seed thr x" for x
  proof -
    have "owner W x < W" using assms(2) by (simp add: owner_def)
    then have "snd (ws ! owner W x) = Finished" using fin inv(2) by simp
    then show ?thesis using inv(3) [OF \<open>owner W x < W\<close>] that by simp
  qed
  then show ?thesis using inv(1) by blast
qed

section \<open>Properties\<close>

lemma verify_pow_good:
  assumes "hasher H c ok view" and "length seed = 8" and "unat pow_bits < 32"
  shows "verify_pow c H seed nonce pow_bits = Inr s \<longleftrightarrow>
    good seed (pow_threshold pow_bits) (unat nonce) \<and> s = challenge_digest seed nonce"
  by (simp add: verify_pow_iff [OF assms] good_def)

lemma serial_search:
  assumes "hasher H c ok view" and "length seed = 8" and "unat pow_bits < 32"
    and "x < unat (BLAKE2S_NO_RESULT - 1)" and "good seed (pow_threshold pow_bits) x"
  shows "\<exists>n. search_pow_serial_from_prepared c H seed pow_bits (fst (prepare_pow_search seed)) (snd (prepare_pow_search seed)) =
      Inr (challenge_digest seed n, n) \<and> good seed (pow_threshold pow_bits) (unat n) \<and>
      (\<forall>y. good seed (pow_threshold pow_bits) y \<longrightarrow> unat n \<le> y)"
proof -
  let ?good = "good seed (pow_threshold pow_bits)" and ?last = "unat (BLAKE2S_NO_RESULT - 1)"
  define m where "m = (LEAST x. x < ?last \<and> ?good x)"
  have m: "m < ?last" "?good m" using LeastI [of "\<lambda>x. x < ?last \<and> ?good x" x] assms(4,5) by (simp_all add: m_def)
  have least: "m \<le> y" if "?good y" for y
  proof (cases "y < ?last")
    case True
    then show ?thesis using that Least_le [of "\<lambda>x. x < ?last \<and> ?good x" y] by (simp add: m_def)
  qed (use m(1) in simp)
  have unat: "unat (word_of_nat m :: u64) = m" using m(1) by (simp add: unat_of_nat code_consts)
  have "search_loop (snd (prepare_pow_search seed)) (fst (prepare_pow_search seed)) (pow_threshold pow_bits) 0 = Some (word_of_nat m)"
    using search_loop_least [OF prepared_input [OF assms(2)], of 0 "pow_threshold pow_bits"] assms(4,5)
    by (auto simp: m_def good_def)
  moreover have "verify_pow c H seed (word_of_nat m) pow_bits = Inr (challenge_digest seed (word_of_nat m))"
    unfolding verify_pow_good [OF assms(1-3)] using m(2) by (simp add: unat)
  ultimately show ?thesis
    using m(2) least
    by (intro exI [of _ "word_of_nat m"]) (simp add: search_pow_serial_from_prepared_def finalize_pow_result_def unat)
qed

lemma below_all_ones: "(x :: u32) \<le> 0xffffffff"
proof -
  have "unat x < 2 ^ 32" using unsigned_less [of x] by simp
  then show ?thesis by (simp add: word_le_nat_alt)
qed

lemma search_pow_result: "\<exists>out. search_pow c H deterministic num_workers seed pow_bits out"
proof -
  have "\<exists>r. parallel_outcome deterministic num_workers (snd (prepare_pow_search seed)) (fst (prepare_pow_search seed)) (pow_threshold pow_bits) r"
    using runs_end unfolding parallel_outcome_def by blast
  then show ?thesis by (auto simp: search_pow_def case_prod_unfold Let_def)
qed

text \<open>
  C18. If some nonce in the range the threads cover passes the verifier, then every result of
  \<open>search_pow\<close>, serial or parallel, in any interleaving of any number of threads, is a nonce the
  verifier accepts with the seed it returns; the serial search, and the parallel one with the feature
  \<open>deterministic_pow\<close>, always find the least one.
\<close>

theorem search_pow_verified:
  assumes "hasher H c ok view" and "length seed = 8" and "unat pow_bits < 32" and "num_workers \<noteq> 0"
    and "verify_pow c H seed nonce pow_bits = Inr s" and "unat nonce < covered num_workers"
    and "search_pow c H deterministic num_workers seed pow_bits out"
  shows "\<exists>s' nonce'. out = Inr (s', nonce') \<and> verify_pow c H seed nonce' pow_bits = Inr s' \<and>
    (deterministic \<or> unat pow_bits \<le> 16 \<longrightarrow> (\<forall>m t. verify_pow c H seed m pow_bits = Inr t \<longrightarrow> nonce' \<le> m))"
proof -
  note verify = verify_pow_good [OF assms(1-3)]
  let ?good = "good seed (pow_threshold pow_bits)"
  have nonce: "?good (unat nonce)" using assms(5) verify by blast
  have bits: "pow_bits \<le> 32" using assms(3) by (simp add: word_le_nat_alt)
  have tz: "trailing_zeros (word_of_nat BLAKE2S_ROUNDS_PER_INVOCATION) = 16"
    using trailing_zeros_one_shifted [of 16] by (simp add: code_consts)
  show ?thesis
  proof (cases "unat pow_bits \<le> 16")
    case True
    then have "out = search_pow_serial_from_prepared c H seed pow_bits (fst (prepare_pow_search seed)) (snd (prepare_pow_search seed))"
      using assms(7) bits by (simp add: search_pow_def tz case_prod_unfold Let_def)
    with serial_search [OF assms(1-3) _ nonce] assms(6) covered_bound [of num_workers]
    show ?thesis unfolding verify word_le_nat_alt by fastforce
  next
    case False
    then obtain r where r: "parallel_outcome deterministic num_workers (snd (prepare_pow_search seed))
        (fst (prepare_pow_search seed)) (pow_threshold pow_bits) r" "out = finalize_pow_result c H seed r pow_bits"
      using assms(7) bits by (auto simp: search_pow_def tz case_prod_unfold Let_def)
    from parallel_outcome_inv [OF assms(2,4) r(1)] have inv: "result_inv num_workers seed (pow_threshold pow_bits) r"
      "\<And>x. x < covered num_workers \<Longrightarrow> ?good x \<Longrightarrow> if deterministic then unat r \<le> x else r \<noteq> BLAKE2S_NO_RESULT" by blast+
    have "r \<noteq> BLAKE2S_NO_RESULT"
      using inv(2) [OF assms(6) nonce] assms(6) covered_bound [of num_workers] by (auto simp: code_consts split: if_splits)
    then have good: "?good (unat r)" "unat r < covered num_workers" using inv(1) by (auto simp: result_inv_def)
    then have "verify_pow c H seed r pow_bits = Inr (challenge_digest seed r)" unfolding verify by simp
    then have out: "out = Inr (challenge_digest seed r, r)" using r(2) by (simp add: finalize_pow_result_def)
    have "r \<le> m" if deterministic "?good (unat m)" for m
      using inv(2) [of "unat m"] that good(2) by (cases "unat m < covered num_workers") (auto simp: word_le_nat_alt)
    then show ?thesis using False good(1) unfolding out verify by auto
  qed
qed

theorem search_pow_verified_witness:
  "\<exists>s. search_pow release_build (baseline_hasher release_build) True 4 (replicate 8 7) 0 (Inr (s, 0))"
proof -
  let ?H = "baseline_hasher release_build" and ?seed = "replicate 8 7 :: u32 list"
  obtain out where out: "search_pow release_build ?H True 4 ?seed 0 out" using search_pow_result by blast
  have "verify_pow release_build ?H ?seed 0 0 = Inr (challenge_digest ?seed 0)"
    by (subst verify_pow_good [OF baseline.hasher_axioms]) (simp_all add: good_def pow_threshold_def below_all_ones)
  moreover have "unat (0 :: u64) < covered 4" by (simp add: covered_def rounds_per_worker_def code_consts)
  ultimately obtain s n where "out = Inr (s, n)" "n \<le> 0"
    using search_pow_verified [OF baseline.hasher_axioms _ _ _ _ _ out, of "0 :: u64" "challenge_digest ?seed 0"] by fastforce
  then show ?thesis using out by auto
qed

text \<open>
  C19. The search ends: no run of the threads is infinite, whatever the scheduler does, and from every
  state they reach a state where all have finished, so that the search has a result.
\<close>

theorem search_pow_ends:
  "\<not> (\<exists>f. \<forall>n. pow_step deterministic num_workers initial_state threshold (f n) (f (Suc n))) \<and>
   (\<exists>r ws. (pow_step deterministic num_workers initial_state threshold)\<^sup>*\<^sup>* s (r, ws) \<and> list_all (\<lambda>w. snd w = Finished) ws) \<and>
   (\<exists>out. search_pow c H deterministic num_workers seed pow_bits out)"
proof (intro conjI)
  show "\<not> (\<exists>f. \<forall>n. pow_step deterministic num_workers initial_state threshold (f n) (f (Suc n)))"
    using no_infinite_run by blast
  show "\<exists>r ws. (pow_step deterministic num_workers initial_state threshold)\<^sup>*\<^sup>* s (r, ws) \<and> list_all (\<lambda>w. snd w = Finished) ws"
    using runs_end unfolding list_all_iff by blast
qed (rule search_pow_result)

text \<open>
  C38. A proof of 32 bits of work, which the assertion lets pass, is not checked: with overflow checks the
  verifier panics on every nonce, without them the shift amount wraps around to zero and every nonce
  is accepted, whatever its digest, although the search looks for 32 zero bits.
\<close>

theorem pow_of_32_bits:
  assumes "hasher H c ok view" and "length seed = 8"
  shows "verify_pow c H seed nonce 32 =
      (if debug_assertions c then Inl ArithOverflow else Inr (challenge_digest seed nonce)) \<and>
    pow_threshold 32 = 0"
proof -
  obtain h' where "verify_pow_using_hasher c H (h_new H) seed nonce 32 =
      bindR (shr_u32 c 0xffffffff 32) (\<lambda>threshold.
        guardR (challenge_digest seed nonce ! 0 \<le> threshold) AssertFailed (Inr (challenge_digest seed nonce, h')))"
    using hasher.verify_pow_digest [OF assms(1) hasher.new(1) [OF assms(1)] assms(2), of nonce 32]
    unfolding challenge_digest_def by auto
  moreover have "x \<le> 0xffffffff" for x :: u32 by (rule below_all_ones)
  ultimately show ?thesis by (simp add: verify_pow_def shr_u32_def pow_threshold_def)
qed

theorem pow_of_32_bits_witness:
  "verify_pow release_build (baseline_hasher release_build) (replicate 8 7) 5 32 = Inr (challenge_digest (replicate 8 7) 5)"
  using pow_of_32_bits [OF baseline.hasher_axioms, of "replicate 8 7" release_build 5] by (simp add: release_build_def)

end
