(* ===== verification/Uart.thy ===== *)
theory Uart
  imports VmInstr Bitreverse
begin

text \<open>
  The text channel from the guest to the host: \<open>QuasiUART\<close> of \<open>riscv_common/src/lib.rs\<close> writes a message
  word by word to the non-determinism CSR, and \<open>QuasiUARTSource\<close> of
  \<open>riscv_transpiler/src/abstractions/non_determinism.rs\<close> takes the words apart again.
\<close>

section \<open>The host\<close>

datatype QuasiUARTSourceState =
    Ready
  | Buffering (remaining_words: "nat option") (remaining_len_in_bytes: "nat option") (uart_buffer: "u8 list")

definition HELLO_VALUE :: u32 where
  [code_consts]: "HELLO_VALUE = 0xffffffff"

text \<open>The second component of the result is the text printed.\<close>

fun process_write :: "cfg \<Rightarrow> u32 \<Rightarrow> QuasiUARTSourceState \<Rightarrow> (QuasiUARTSourceState \<times> u8 list list) res" where
  "process_write c v Ready = Inr (if v = HELLO_VALUE then Buffering None None [] else Ready, [])"
| "process_write c v (Buffering None len buffer) = Inr (Buffering (Some (unat v)) len [], [])"
| "process_write c v (Buffering (Some words) None buffer) =
     bindR (usize_sub (debug_assertions c) words 1) (\<lambda>words. Inr (Buffering (Some words) (Some (unat v)) buffer, []))"
| "process_write c v (Buffering (Some words) (Some len) buffer) =
     (let (words, len, buffer) =
            (if 0 < words then
               (if 4 \<le> len then (words - 1, len - 4, buffer @ to_le_bytes v)
                else (words - 1, 0, buffer @ take len (to_le_bytes v)))
             else (words, len, buffer)) in
      Inr (if words = 0 then (Ready, [buffer]) else (Buffering (Some words) (Some len) buffer, [])))"

text \<open>The source of the machine, with what it has printed.\<close>

record QuasiUARTSource =
  reads_left :: "u32 list"
  write_state :: QuasiUARTSourceState
  printed :: "u8 list list"

definition QuasiUARTSource_default :: QuasiUARTSource where
  "QuasiUARTSource_default = \<lparr> reads_left = [], write_state = Ready, printed = [] \<rparr>"

definition new_with_reads :: "u32 list \<Rightarrow> QuasiUARTSource" where
  "new_with_reads reads = \<lparr> reads_left = reads, write_state = Ready, printed = [] \<rparr>"

definition uart_read :: "QuasiUARTSource \<Rightarrow> (u32 \<times> QuasiUARTSource) res" where
  "uart_read s = (case reads_left s of [] \<Rightarrow> Inl OracleEmpty | v # rest \<Rightarrow> Inr (v, s \<lparr> reads_left := rest \<rparr>))"

definition uart_write :: "cfg \<Rightarrow> u32 \<Rightarrow> QuasiUARTSource \<Rightarrow> QuasiUARTSource res" where
  "uart_write c v s =
     bindR (process_write c v (write_state s)) (\<lambda>(st, text).
     Inr (s \<lparr> write_state := st, printed := printed s @ text \<rparr>))"

definition QuasiUARTSource_ops :: "cfg \<Rightarrow> QuasiUARTSource nd_ops" where
  "QuasiUARTSource_ops c = \<lparr> source_read = uart_read, source_write = (\<lambda>peek. uart_write c) \<rparr>"

section \<open>The guest\<close>

text \<open>The writer, with the words it has written to the CSR.\<close>

record QuasiUART =
  qu_buffer :: "u8 list"
  qu_len :: nat
  qu_csr :: "u32 list"

definition QuasiUART_new :: QuasiUART where
  "QuasiUART_new = \<lparr> qu_buffer = [0, 0, 0, 0], qu_len = 0, qu_csr = [] \<rparr>"

definition csr_write_word :: "u32 \<Rightarrow> QuasiUART \<Rightarrow> QuasiUART" where
  "csr_write_word v u = u \<lparr> qu_csr := qu_csr u @ [v] \<rparr>"

definition HELLO_MARKER :: u32 where
  [code_consts]: "HELLO_MARKER = 0xffffffff"

definition next_multiple_of_4 :: "cfg \<Rightarrow> u32 \<Rightarrow> u32 res" where
  "next_multiple_of_4 c n = (if n mod 4 = 0 then Inr n else checked_add (debug_assertions c) n (4 - n mod 4))"

definition write_entry_sequence :: "cfg \<Rightarrow> nat \<Rightarrow> QuasiUART \<Rightarrow> QuasiUART res" where
  "write_entry_sequence c message_len u =
     bindR (next_multiple_of_4 c (word_of_nat message_len)) (\<lambda>n.
     bindR (checked_add (debug_assertions c) (n div 4) 1) (\<lambda>words.
     Inr (csr_write_word (word_of_nat message_len) (csr_write_word words (csr_write_word HELLO_MARKER u)))))"

definition write_byte :: "u8 \<Rightarrow> QuasiUART \<Rightarrow> QuasiUART res" where
  "write_byte byte u =
     guardR (qu_len u < length (qu_buffer u)) IndexOutOfBounds
     (let u = u \<lparr> qu_buffer := (qu_buffer u)[qu_len u := byte], qu_len := qu_len u + 1 \<rparr> in
      Inr (if qu_len u = 4 then csr_write_word (from_le_bytes (qu_buffer u)) (u \<lparr> qu_len := 0 \<rparr>) else u))"

definition uart_flush :: "QuasiUART \<Rightarrow> QuasiUART" where
  "uart_flush u =
     (if qu_len u = 0 then u \<lparr> qu_buffer := replicate (length (qu_buffer u)) 0 \<rparr>
      else
        (let u = u \<lparr> qu_buffer := foldl (\<lambda>b i. b[i := 0]) (qu_buffer u) [qu_len u..<4], qu_len := 0 \<rparr> in
         csr_write_word (from_le_bytes (qu_buffer u)) u))"

definition write_str :: "cfg \<Rightarrow> u8 list \<Rightarrow> QuasiUART \<Rightarrow> QuasiUART res" where
  "write_str c s u =
     bindR (write_entry_sequence c (length s) u) (\<lambda>u.
     bindR (foldR write_byte s u) (\<lambda>u.
     Inr (uart_flush u)))"

section \<open>Words of a message\<close>

text \<open>The message in words, the last one padded with zeroes.\<close>

fun pack :: "u8 list \<Rightarrow> u32 list" where
  "pack [] = []"
| "pack [a] = [from_le_bytes [a, 0, 0, 0]]"
| "pack [a, b] = [from_le_bytes [a, b, 0, 0]]"
| "pack [a, b, d] = [from_le_bytes [a, b, d, 0]]"
| "pack (a # b # d # e # rest) = from_le_bytes [a, b, d, e] # pack rest"

lemma length_pack: "length (pack s) = (length s + 3) div 4"
  by (induction s rule: pack.induct) simp_all

lemma length_4: "length xs = 4 \<Longrightarrow> \<exists>w x y z. xs = [w, x, y, z]"
  by (auto simp: length_Suc_conv numeral_eq_Suc)

lemma flushed_bytes:
  assumes "length (qu_buffer u) = 4" and "qu_len u < 4"
  shows "\<exists>u'. bindR (foldR write_byte s u) (\<lambda>u. Inr (uart_flush u)) = Inr u' \<and>
    qu_csr u' = qu_csr u @ pack (take (qu_len u) (qu_buffer u) @ s) \<and> length (qu_buffer u') = 4 \<and> qu_len u' = 0"
  using assms
proof (induction s arbitrary: u)
  case Nil
  then obtain w x y z where b: "qu_buffer u = [w, x, y, z]" using length_4 by blast
  from Nil(2) have "qu_len u = 0 \<or> qu_len u = 1 \<or> qu_len u = 2 \<or> qu_len u = 3" by auto
  then show ?case by (elim disjE) (simp_all add: b uart_flush_def csr_write_word_def upt_rec)
next
  case (Cons byte s)
  then obtain w x y z where b: "qu_buffer u = [w, x, y, z]" using length_4 by blast
  from Cons(3) have "qu_len u = 0 \<or> qu_len u = 1 \<or> qu_len u = 2 \<or> qu_len u = 3" by auto
  moreover obtain u' where u': "write_byte byte u = Inr u'" by (simp add: write_byte_def Let_def Cons(2,3))
  moreover have "length (qu_buffer u') = 4" "qu_len u' < 4"
    using u' Cons(2,3) by (auto simp: write_byte_def Let_def csr_write_word_def res_simps split: if_splits)
  from Cons.IH [OF this] u' have "\<exists>u''. bindR (foldR write_byte (byte # s) u) (\<lambda>u. Inr (uart_flush u)) = Inr u'' \<and>
    qu_csr u'' = qu_csr u' @ pack (take (qu_len u') (qu_buffer u') @ s) \<and> length (qu_buffer u'') = 4 \<and> qu_len u'' = 0"
    by simp
  moreover have "qu_csr u' @ pack (take (qu_len u') (qu_buffer u') @ s) = qu_csr u @ pack (take (qu_len u) (qu_buffer u) @ byte # s)"
    using calculation(1) u' by (elim disjE) (auto simp: b write_byte_def csr_write_word_def)
  ultimately show ?case by simp
qed

text \<open>The header of a message.\<close>

lemma next_multiple:
  assumes "n < 2 ^ 32 - 4"
  shows "\<exists>m. next_multiple_of_4 c (word_of_nat n) = Inr m \<and> unat (m div 4) = (n + 3) div 4"
proof -
  have n: "unat (word_of_nat n :: u32) = n" using assms by (simp add: unat_of_nat)
  then have r: "unat (word_of_nat n mod 4 :: u32) = n mod 4" by (simp add: unat_mod_distrib)
  show ?thesis
  proof (cases "n mod 4 = 0")
    case True
    then have "word_of_nat n mod (4 :: u32) = 0" using r by (simp add: unat_eq_0)
    moreover have "n div 4 = (n + 3) div 4" using True by presburger
    ultimately show ?thesis by (simp add: next_multiple_of_4_def unat_div_distrib n)
  next
    case False
    define w d :: u32 where "w = word_of_nat n" and "d = 4 - w mod 4"
    have "w mod 4 \<noteq> 0" using r False unfolding w_def by (metis unat_0)
    then have next_eq: "next_multiple_of_4 c w = checked_add (debug_assertions c) w d" by (simp add: next_multiple_of_4_def d_def)
    have "w mod 4 \<le> 4" by (simp only: word_le_nat_alt w_def r) simp
    then have d: "unat d = 4 - n mod 4" unfolding d_def by (subst unat_sub) (simp_all only: w_def r, simp)
    have w: "unat w = n" by (simp only: w_def n)
    have fits: "unat w + unat d < 2 ^ LENGTH(32)" using assms by (simp add: w d)
    then have "checked_add (debug_assertions c) w d = Inr (w + d)" by (simp only: checked_add_eq_Inr) simp
    moreover have "unat (w + d) = unat w + unat d" using fits by (subst (asm) unat_add_lem)
    moreover have "(n + (4 - n mod 4)) div 4 = (n + 3) div 4"
    proof -
      define q k where "q = n div 4" and "k = n mod 4"
      have k: "0 < k" "k < 4" and nqk: "n = 4 * q + k" using False by (simp_all add: q_def k_def)
      have "n + (4 - k) = 4 * (q + 1)" "n + 3 = 4 * (q + 1) + (k - 1)" using nqk k by simp_all
      then show ?thesis using k unfolding k_def [symmetric] by simp
    qed
    moreover have "unat ((w + d) div 4) = unat (w + d) div unat (4 :: u32)" by (rule unat_div_distrib)
    moreover have "unat (4 :: u32) = 4" by simp
    ultimately have "next_multiple_of_4 c w = Inr (w + d) \<and> unat ((w + d) div 4) = (n + 3) div 4"
      unfolding next_eq by (simp only: w d)
    then show ?thesis unfolding w_def by blast
  qed
qed

definition transmitted :: "u8 list \<Rightarrow> u32 list" where
  "transmitted s = [HELLO_MARKER, word_of_nat (length (pack s) + 1), word_of_nat (length s)] @ pack s"

lemma write_str_transmits:
  assumes "length s < 2 ^ 32 - 4" and "length (qu_buffer u) = 4" and "qu_len u = 0"
  shows "\<exists>u'. write_str c s u = Inr u' \<and> qu_csr u' = qu_csr u @ transmitted s \<and> length (qu_buffer u') = 4 \<and> qu_len u' = 0"
proof -
  obtain m where m: "next_multiple_of_4 c (word_of_nat (length s)) = Inr m" "unat (m div 4) = (length s + 3) div 4"
    using next_multiple [OF assms(1)] by blast
  have "unat (m div 4) + 1 < 2 ^ 32" using m(2) assms(1) by simp
  then have "checked_add (debug_assertions c) (m div 4) 1 = Inr (word_of_nat (length (pack s) + 1))"
    by (simp add: checked_add_def length_pack flip: m(2))
  then obtain u1 where u1: "write_entry_sequence c (length s) u = Inr u1" "length (qu_buffer u1) = 4" "qu_len u1 = 0"
      "qu_csr u1 = qu_csr u @ [HELLO_MARKER, word_of_nat (length (pack s) + 1), word_of_nat (length s)]"
    using m(1) assms(2,3) by (simp add: write_entry_sequence_def csr_write_word_def)
  then show ?thesis using flushed_bytes [of u1 s] by (simp add: write_str_def transmitted_def)
qed

lemma host_words:
  assumes "msg \<noteq> []" and "write_state s = Buffering (Some (length (pack msg))) (Some (length msg)) buffer"
  shows "foldR (uart_write c) (pack msg) s = Inr (s \<lparr> write_state := Ready, printed := printed s @ [buffer @ msg] \<rparr>)"
  using assms
proof (induction msg arbitrary: s buffer rule: pack.induct)
  case (5 a b d e rest)
  show ?case
  proof (cases "rest = []")
    case True
    then show ?thesis using 5(3) by (simp add: uart_write_def)
  next
    case False
    then have "length (pack rest) \<noteq> 0" by (simp add: length_pack) (cases rest, simp_all)
    then have "uart_write c (from_le_bytes [a, b, d, e]) s =
        Inr (s \<lparr> write_state := Buffering (Some (length (pack rest))) (Some (length rest)) (buffer @ [a, b, d, e]) \<rparr>)"
      using 5(3) by (simp add: uart_write_def)
    then show ?thesis using 5(1) [OF False, of "s \<lparr> write_state := _ \<rparr>" "buffer @ [a, b, d, e]"] by simp
  qed
qed (simp_all add: uart_write_def)

lemma host_receives:
  assumes "msg \<noteq> []" and "length msg < 2 ^ 32 - 4" and "write_state s = Ready"
  shows "foldR (uart_write c) (transmitted msg) s = Inr (s \<lparr> printed := printed s @ [msg] \<rparr>)"
proof -
  have "length (pack msg) + 1 < 2 ^ 32" using assms(2) by (simp add: length_pack)
  then have words: "unat (word_of_nat (length (pack msg) + 1) :: u32) = length (pack msg) + 1" by (simp add: unat_of_nat del: of_nat_add of_nat_Suc)
  have len: "unat (word_of_nat (length msg) :: u32) = length msg" using assms(2) by (simp add: unat_of_nat)
  let ?s = "s \<lparr> write_state := Buffering (Some (length (pack msg))) (Some (length msg)) [] \<rparr>"
  have "foldR (uart_write c) [HELLO_MARKER, word_of_nat (length (pack msg) + 1), word_of_nat (length msg)] s = Inr ?s"
    using assms(3) words len by (simp add: uart_write_def code_consts usize_sub_def del: of_nat_add of_nat_Suc)
  then show ?thesis
    using host_words [OF assms(1), of ?s "[]" c] assms(3) unfolding transmitted_def foldR_append by simp
qed

lemma guest_transmits:
  assumes "\<forall>m \<in> set messages. length m < 2 ^ 32 - 4" and "length (qu_buffer u) = 4" and "qu_len u = 0"
  shows "\<exists>u'. foldR (write_str c) messages u = Inr u' \<and> qu_csr u' = qu_csr u @ concat (map transmitted messages)"
  using assms
proof (induction messages arbitrary: u)
  case (Cons m messages)
  then obtain u' where "write_str c m u = Inr u'" "qu_csr u' = qu_csr u @ transmitted m" "length (qu_buffer u') = 4" "qu_len u' = 0"
    using write_str_transmits [of m u c] by auto
  then show ?case using Cons.IH [of u'] Cons.prems(1) by auto
qed simp

lemma host_ignores: "HELLO_VALUE \<notin> set ws \<Longrightarrow> write_state s = Ready \<Longrightarrow> foldR (uart_write c) ws s = Inr s"
proof (induction ws)
  case (Cons v ws)
  then have "uart_write c v s = Inr s" by (cases s) (auto simp: uart_write_def)
  then show ?case using Cons by simp
qed simp

text \<open>An empty message leaves the host waiting for a word that never comes.\<close>

lemma host_receives_empty:
  "write_state s = Ready \<Longrightarrow>
     foldR (uart_write c) (transmitted []) s = Inr (s \<lparr> write_state := Buffering (Some 0) (Some 0) [] \<rparr>)"
  by (simp add: transmitted_def uart_write_def code_consts usize_sub_def)

section \<open>Properties\<close>

text \<open>
  C20. Whatever non-empty messages the guest writes, one after another, the host prints each of them,
  byte by byte the same, as soon as its last word is written, and is ready for the next.
\<close>

theorem uart_delivers:
  assumes "\<forall>m \<in> set messages. m \<noteq> [] \<and> length m < 2 ^ 32 - 4" and "write_state source = Ready"
  shows "\<exists>u source'. foldR (write_str c) messages QuasiUART_new = Inr u \<and>
    foldR (source_write (QuasiUARTSource_ops c') peek) (qu_csr u) source = Inr source' \<and>
    write_state source' = Ready \<and> printed source' = printed source @ messages"
proof -
  have host: "foldR (uart_write c') (concat (map transmitted messages)) source = Inr (source \<lparr> printed := printed source @ messages \<rparr>)"
    using assms
  proof (induction messages arbitrary: source)
    case (Cons m messages)
    then have "foldR (uart_write c') (transmitted m) source = Inr (source \<lparr> printed := printed source @ [m] \<rparr>)"
      by (intro host_receives) simp_all
    then show ?case using Cons.IH [of "source \<lparr> printed := printed source @ [m] \<rparr>"] Cons.prems by (simp add: foldR_append)
  qed simp
  show ?thesis
    using guest_transmits [of messages QuasiUART_new c] assms host by (auto simp: QuasiUART_new_def QuasiUARTSource_ops_def)
qed

theorem uart_delivers_witness:
  "\<exists>u source'. foldR (write_str debug_build) [[72, 101, 108, 108, 111], [33]] QuasiUART_new = Inr u \<and>
     foldR (source_write (QuasiUARTSource_ops debug_build) (\<lambda>a. Inr 0)) (qu_csr u) QuasiUARTSource_default = Inr source' \<and>
     write_state source' = Ready \<and> printed source' = [[72, 101, 108, 108, 111], [33]]"
  using uart_delivers [of "[[72, 101, 108, 108, 111], [33]]" QuasiUARTSource_default debug_build debug_build "\<lambda>a. Inr 0"]
  by (simp add: QuasiUARTSource_default_def)

text \<open>
  C39. An empty message is not ignored: the host keeps waiting after it, takes the greeting of the next
  message for its last word, prints an empty text, and the next message is lost (unless its
  own words contain the greeting).
\<close>

theorem empty_message_swallows_next:
  assumes "length m < 2 ^ 32 - 4" and "HELLO_VALUE \<notin> set (tl (transmitted m))" and "write_state source = Ready"
  shows "\<exists>u source'. foldR (write_str c) [[], m] QuasiUART_new = Inr u \<and>
    foldR (source_write (QuasiUARTSource_ops c') peek) (qu_csr u) source = Inr source' \<and>
    write_state source' = Ready \<and> printed source' = printed source @ [[]]"
proof -
  have m: "transmitted m = HELLO_MARKER # tl (transmitted m)" by (simp add: transmitted_def)
  let ?s = "source \<lparr> printed := printed source @ [[]] \<rparr>"
  have "uart_write c' HELLO_MARKER (source \<lparr> write_state := Buffering (Some 0) (Some 0) [] \<rparr>) = Inr ?s"
    using assms(3) by (simp add: uart_write_def)
  moreover have "foldR (uart_write c') (tl (transmitted m)) ?s = Inr ?s"
    using assms(2,3) by (intro host_ignores) simp_all
  ultimately have "foldR (uart_write c') (concat (map transmitted [[], m])) source = Inr ?s"
    using host_receives_empty [OF assms(3), of c'] by (simp add: foldR_append) (subst m, simp)
  then show ?thesis
    using guest_transmits [of "[[], m]" QuasiUART_new c] assms by (auto simp: QuasiUART_new_def QuasiUARTSource_ops_def)
qed

theorem empty_message_swallows_next_witness:
  "\<exists>u source'. foldR (write_str debug_build) [[], [104, 105]] QuasiUART_new = Inr u \<and>
     foldR (source_write (QuasiUARTSource_ops debug_build) (\<lambda>a. Inr 0)) (qu_csr u) QuasiUARTSource_default = Inr source' \<and>
     write_state source' = Ready \<and> printed source' = [[]]"
proof -
  have "HELLO_VALUE \<notin> set (tl (transmitted [104, 105]))" by (simp add: transmitted_def code_consts from_le_bytes_def)
  then show ?thesis
    using empty_message_swallows_next [of "[104, 105]" QuasiUARTSource_default debug_build debug_build "\<lambda>a. Inr 0"]
    by (simp add: QuasiUARTSource_default_def)
qed

end
