(* ===== verification/Memcpy.thy ===== *)
theory Memcpy
  imports VmDelegations Bitreverse
begin

text \<open>
  \<open>memcpy_impl\<close> of \<open>riscv_common/src/memcpy.rs\<close>, the copy routine of guest programs: through the 256-bit
  delegation, word by word where source and destination have the same alignment, and otherwise by
  words glued together from two reads. Memory is a function from addresses to bytes; an access that
  leaves the two objects, or that is not aligned to its width, is undefined behaviour.
\<close>

section \<open>Memory\<close>

type_synonym bytes = "nat \<Rightarrow> u8"

record objects =
  src_base :: nat
  dst_base :: nat
  obj_len :: nat

definition readable :: "objects \<Rightarrow> nat \<Rightarrow> nat \<Rightarrow> bool" where
  "readable B a k \<longleftrightarrow>
     src_base B \<le> a \<and> a + k \<le> src_base B + obj_len B \<or> dst_base B \<le> a \<and> a + k \<le> dst_base B + obj_len B"

definition writable :: "objects \<Rightarrow> nat \<Rightarrow> nat \<Rightarrow> bool" where
  "writable B a k \<longleftrightarrow> dst_base B \<le> a \<and> a + k \<le> dst_base B + obj_len B"

definition store_bytes :: "nat \<Rightarrow> u8 list \<Rightarrow> bytes \<Rightarrow> bytes" where
  "store_bytes a bs m = (\<lambda>x. if a \<le> x \<and> x < a + length bs then bs ! (x - a) else m x)"

text \<open>A value of width \<open>k\<close> is its bytes.\<close>

definition read_at :: "objects \<Rightarrow> nat \<Rightarrow> nat \<Rightarrow> bytes \<Rightarrow> u8 list res" where
  "read_at B k a m = guardR (readable B a k \<and> a mod k = 0) UndefinedBehaviour (Inr (map m [a..<a + k]))"

definition write_at :: "objects \<Rightarrow> nat \<Rightarrow> u8 list \<Rightarrow> bytes \<Rightarrow> bytes res" where
  "write_at B a bs m =
     guardR (writable B a (length bs) \<and> a mod length bs = 0) UndefinedBehaviour (Inr (store_bytes a bs m))"

definition read_u32 :: "objects \<Rightarrow> nat \<Rightarrow> bytes \<Rightarrow> u32 res" where
  "read_u32 B a m = bindR (read_at B 4 a m) (\<lambda>bs. Inr (from_le_bytes bs))"

definition write_u32 :: "objects \<Rightarrow> nat \<Rightarrow> u32 \<Rightarrow> bytes \<Rightarrow> bytes res" where
  "write_u32 B a v m = write_at B a (to_le_bytes v) m"

definition copy_unit :: "objects \<Rightarrow> nat \<Rightarrow> nat \<Rightarrow> nat \<Rightarrow> bytes \<Rightarrow> bytes res" where
  "copy_unit B k dest src m = bindR (read_at B k src m) (\<lambda>bs. write_at B dest bs m)"

section \<open>The routine\<close>

record memcpy_state =
  mc_mem :: bytes
  mc_src :: nat
  mc_dest :: nat
  mc_n :: nat

definition advance_ptrs :: "nat \<Rightarrow> bytes \<Rightarrow> memcpy_state \<Rightarrow> memcpy_state" where
  "advance_ptrs k m s = s \<lparr> mc_mem := m, mc_src := mc_src s + k, mc_dest := mc_dest s + k \<rparr>"

definition take_n :: "nat \<Rightarrow> memcpy_state \<Rightarrow> memcpy_state" where
  "take_n k s = s \<lparr> mc_n := mc_n s - k \<rparr>"

text \<open>\<open>count\<close> values of width \<open>k\<close>, unrolled in the source; for bytes the alignment holds whatever the pointers are, and
  the pointers are not used after the last copy.\<close>

definition copy_block :: "objects \<Rightarrow> nat \<Rightarrow> nat \<Rightarrow> memcpy_state \<Rightarrow> memcpy_state res" where
  "copy_block B k count s =
     bindR (foldR (\<lambda>i. copy_unit B k (mc_dest s + i * k) (mc_src s + i * k)) [0..<count] (mc_mem s)) (\<lambda>m.
     Inr (advance_ptrs (count * k) m s))"

definition copy_if_bit :: "cfg \<Rightarrow> objects \<Rightarrow> nat \<Rightarrow> nat \<Rightarrow> memcpy_state \<Rightarrow> memcpy_state res" where
  "copy_if_bit c B k count s =
     (if mc_n s AND (count * k) \<noteq> 0 then
        debug_assert (debug_assertions c) (mc_src s mod k = 0 \<and> mc_dest s mod k = 0) (copy_block B k count s)
      else Inr s)"

definition words_at :: "nat \<Rightarrow> bytes \<Rightarrow> u32 list" where
  "words_at a m = map (\<lambda>i. from_le_bytes (map m [a + 4 * i..<a + 4 * i + 4])) [0..<8]"

text \<open>What a call of the 256-bit delegation does to memory, with the assertions of the machine.\<close>

definition bigint_csr_trigger_delegation ::
  "ruint_ops \<Rightarrow> objects \<Rightarrow> nat \<Rightarrow> nat \<Rightarrow> u32 \<Rightarrow> bytes \<Rightarrow> bytes res" where
  "bigint_csr_trigger_delegation U B mut_ptr immut_ptr control m =
     guardR (ROM_BYTE_SIZE \<le> mut_ptr \<and> ROM_BYTE_SIZE \<le> immut_ptr) AssertFailed
     (guardR (mut_ptr \<noteq> immut_ptr) AssertFailed
      (guardR (mut_ptr mod 32 = 0 \<and> immut_ptr mod 32 = 0) AssertFailed
       (guardR (readable B mut_ptr 32 \<and> writable B mut_ptr 32 \<and> readable B immut_ptr 32) UndefinedBehaviour
        (bindR (bigint_impl U (join_words (words_at mut_ptr m)) (join_words (words_at immut_ptr m)) control) (\<lambda>(result, _).
         Inr (store_bytes mut_ptr (concat (map to_le_bytes (concat (map split_word result)))) m))))))"

function precompile_loop :: "ruint_ops \<Rightarrow> objects \<Rightarrow> memcpy_state \<Rightarrow> memcpy_state res" where
  "precompile_loop U B s =
     (if 32 \<le> mc_n s then
        bindR (bigint_csr_trigger_delegation U B (mc_dest s) (mc_src s) (push_bit MEMCOPY_BIT_IDX 1) (mc_mem s)) (\<lambda>m.
        precompile_loop U B (take_n 32 (advance_ptrs 32 m s)))
      else Inr s)"
  by pat_completeness auto
termination by (relation "measure (\<lambda>(_, _, s). mc_n s)") (auto simp: take_n_def advance_ptrs_def)

function align_src :: "objects \<Rightarrow> memcpy_state \<Rightarrow> memcpy_state res" where
  "align_src B s =
     (if 0 < mc_n s \<and> mc_src s mod 4 \<noteq> 0 then
        bindR (copy_unit B 1 (mc_dest s) (mc_src s) (mc_mem s)) (\<lambda>m. align_src B (take_n 1 (advance_ptrs 1 m s)))
      else Inr s)"
  by pat_completeness auto
termination by (relation "measure (\<lambda>(_, s). mc_n s)") (auto simp: take_n_def advance_ptrs_def)

function word_loop :: "cfg \<Rightarrow> objects \<Rightarrow> memcpy_state \<Rightarrow> memcpy_state res" where
  "word_loop c B s =
     (if 64 \<le> mc_n s then
        debug_assert (debug_assertions c) (mc_src s mod 4 = 0 \<and> mc_dest s mod 4 = 0)
        (bindR (copy_block B 4 16 s) (\<lambda>s'. word_loop c B (take_n 64 s')))
      else Inr s)"
  by pat_completeness auto
termination
  by (relation "measure (\<lambda>(_, _, s). mc_n s)") (auto simp: take_n_def advance_ptrs_def copy_block_def debug_assert_def res_simps split: if_splits)

definition aligned_copy :: "cfg \<Rightarrow> objects \<Rightarrow> memcpy_state \<Rightarrow> memcpy_state res" where
  "aligned_copy c B s =
     debug_assert (debug_assertions c) (0 < mc_n s \<longrightarrow> mc_src s mod 4 = 0 \<and> mc_dest s mod 4 = 0)
     (bindR (word_loop c B s) (\<lambda>s.
      guardR (mc_n s < 64) UndefinedBehaviour
      (bindR (copy_if_bit c B 4 8 s) (\<lambda>s.
       bindR (copy_if_bit c B 4 4 s) (\<lambda>s.
       bindR (copy_if_bit c B 4 2 s) (\<lambda>s.
       bindR (copy_if_bit c B 4 1 s) (\<lambda>s.
       bindR (copy_if_bit c B 2 1 s) (\<lambda>s.
       copy_if_bit c B 1 1 s))))))))"

text \<open>
  The three arms differ in the alignment \<open>r\<close> of the destination only: \<open>4 - r\<close> bytes are copied to align
  it, and every word written is made of the last \<open>r\<close> bytes of one word read and the first \<open>4 - r\<close> of the
  next. One half of an unrolled iteration writes two words.
\<close>

definition glue_half :: "objects \<Rightarrow> nat \<Rightarrow> nat \<Rightarrow> memcpy_state \<Rightarrow> u32 \<times> bytes \<Rightarrow> (u32 \<times> bytes) res" where
  "glue_half B r N s = (\<lambda>(word_0, m).
     bindR (read_u32 B (mc_src s + r + N * 8) m) (\<lambda>word_1.
     bindR (write_u32 B (mc_dest s + 4 * (0 + 2 * N)) (drop_bit (8 * (4 - r)) word_0 OR push_bit (8 * r) word_1) m) (\<lambda>m.
     bindR (read_u32 B (mc_src s + r + 4 + N * 8) m) (\<lambda>word_0.
     bindR (write_u32 B (mc_dest s + 4 * (1 + 2 * N)) (drop_bit (8 * (4 - r)) word_1 OR push_bit (8 * r) word_0) m) (\<lambda>m.
     Inr (word_0, m))))))"

function glue_loop :: "cfg \<Rightarrow> objects \<Rightarrow> nat \<Rightarrow> u32 \<Rightarrow> memcpy_state \<Rightarrow> memcpy_state res" where
  "glue_loop c B r word_0 s =
     (if 16 + r \<le> mc_n s then
        debug_assert (debug_assertions c) (mc_src s mod 4 = 4 - r \<and> mc_dest s mod 4 = 0)
        (bindR (foldR (\<lambda>N. glue_half B r N s) [0, 1] (word_0, mc_mem s)) (\<lambda>(word_0, m).
         glue_loop c B r word_0 (take_n 16 (advance_ptrs 16 m s))))
      else Inr s)"
  by pat_completeness auto
termination by (relation "measure (\<lambda>(_, _, _, _, s). mc_n s)") (auto simp: take_n_def advance_ptrs_def)

definition glue_arm :: "cfg \<Rightarrow> objects \<Rightarrow> nat \<Rightarrow> memcpy_state \<Rightarrow> memcpy_state res" where
  "glue_arm c B r s =
     bindR (read_u32 B (mc_src s) (mc_mem s)) (\<lambda>word_0.
     bindR (copy_block B 1 (4 - r) s) (\<lambda>s.
     let s = take_n (4 - r) s in
     debug_assert (debug_assertions c) (mc_src s mod 4 = 4 - r \<and> mc_dest s mod 4 = 0)
       (glue_loop c B r word_0 s)))"

definition unaligned_copy :: "cfg \<Rightarrow> objects \<Rightarrow> memcpy_state \<Rightarrow> memcpy_state res" where
  "unaligned_copy c B s =
     bindR
       (if 20 \<le> mc_n s then
          debug_assert (debug_assertions c) (mc_src s mod 4 = 0)
          (let r = mc_dest s mod 4 in
           if r = 1 then glue_arm c B 1 s
           else if r = 2 then glue_arm c B 2 s
           else if r = 3 then glue_arm c B 3 s
           else Inl UndefinedBehaviour)
        else Inr s) (\<lambda>s.
     guardR (mc_n s < 32) UndefinedBehaviour
     (bindR (copy_if_bit c B 1 16 s) (\<lambda>s.
      bindR (copy_if_bit c B 1 8 s) (\<lambda>s.
      bindR (copy_if_bit c B 1 4 s) (\<lambda>s.
      bindR (copy_if_bit c B 1 2 s) (\<lambda>s.
      copy_if_bit c B 1 1 s))))))"

text \<open>\<open>via_precompile\<close> is the feature \<open>memcpy_via_precompile\<close>.\<close>

definition memcpy_impl ::
  "cfg \<Rightarrow> ruint_ops \<Rightarrow> bool \<Rightarrow> objects \<Rightarrow> nat \<Rightarrow> nat \<Rightarrow> nat \<Rightarrow> bytes \<Rightarrow> bytes res" where
  "memcpy_impl c U via_precompile B dest src n m =
     (let s = \<lparr> mc_mem = m, mc_src = src, mc_dest = dest, mc_n = n \<rparr>;
          precompile = (via_precompile \<and> ROM_BYTE_SIZE \<le> src \<and> src mod 32 = 0 \<and> dest mod 32 = 0 \<and> 32 \<le> n) in
      bindR (if precompile then precompile_loop U B s else Inr s) (\<lambda>s.
      if precompile \<and> mc_n s = 0 then Inr (mc_mem s)
      else
        bindR (align_src B s) (\<lambda>s.
        bindR (if mc_dest s mod 4 = 0 then aligned_copy c B s else unaligned_copy c B s) (\<lambda>s.
        Inr (mc_mem s)))))"

text \<open>Two objects of the length of the copy.\<close>

definition apart :: "nat \<Rightarrow> nat \<Rightarrow> nat \<Rightarrow> bool" where
  "apart src dest len \<longleftrightarrow> src + len \<le> dest \<or> dest + len \<le> src"

definition whole :: "nat \<Rightarrow> nat \<Rightarrow> nat \<Rightarrow> objects" where
  "whole src dest len = \<lparr> src_base = src, dst_base = dest, obj_len = len \<rparr>"

section \<open>Loading the sections\<close>

text \<open>
  \<open>boot_sequence::init\<close> copies the sections \<open>.rodata\<close> and \<open>.data\<close> out of the ROM, between the addresses
  the linker chose. The copy of non-overlapping objects is a call of \<open>memcpy\<close>.
\<close>

record linker_symbols =
  sym_rom_size :: nat
  sym_estack :: nat
  sym_sidata :: nat
  sym_sdata :: nat
  sym_edata :: nat
  sym_sirodata :: nat
  sym_srodata :: nat
  sym_erodata :: nat

definition load_to_ram :: "cfg \<Rightarrow> ruint_ops \<Rightarrow> bool \<Rightarrow> nat \<Rightarrow> nat \<Rightarrow> nat \<Rightarrow> bytes \<Rightarrow> bytes res" where
  "load_to_ram c U via_precompile src dst_start dst_end m =
     debug_assert (debug_assertions c) (src < ROM_BYTE_SIZE)
     (debug_assert (debug_assertions c) (ROM_BYTE_SIZE \<le> dst_start)
      (debug_assert (debug_assertions c) (dst_start \<le> dst_end)
       (guardR (dst_start \<le> dst_end) UndefinedBehaviour
        (let offset = dst_end - dst_start in
         guardR (apart src dst_start offset) UndefinedBehaviour
         (memcpy_impl c U via_precompile (whole src dst_start offset) dst_start src offset m)))))"

definition init :: "cfg \<Rightarrow> ruint_ops \<Rightarrow> bool \<Rightarrow> linker_symbols \<Rightarrow> bytes \<Rightarrow> bytes res" where
  "init c U via_precompile L m =
     guardR (sym_rom_size L \<le> ROM_BYTE_SIZE) AssertFailed
     (guardR (sym_estack L = ROM_BYTE_SIZE) AssertFailed
      (bindR (load_to_ram c U via_precompile (sym_sirodata L) (sym_srodata L) (sym_erodata L) m) (\<lambda>m.
       load_to_ram c U via_precompile (sym_sidata L) (sym_sdata L) (sym_edata L) m)))"

declare precompile_loop.simps [simp del] align_src.simps [simp del] word_loop.simps [simp del] glue_loop.simps [simp del]

section \<open>Copied so far\<close>

text \<open>Memory with the first \<open>i\<close> bytes copied, and the state of the routine there with \<open>n\<close> bytes left.\<close>

definition copied :: "bytes \<Rightarrow> nat \<Rightarrow> nat \<Rightarrow> nat \<Rightarrow> bytes" where
  "copied m src dest i = (\<lambda>x. if dest \<le> x \<and> x < dest + i then m (src + (x - dest)) else m x)"

definition at_byte :: "bytes \<Rightarrow> nat \<Rightarrow> nat \<Rightarrow> nat \<Rightarrow> nat \<Rightarrow> memcpy_state" where
  "at_byte m src dest i n = \<lparr> mc_mem = copied m src dest i, mc_src = src + i, mc_dest = dest + i, mc_n = n \<rparr>"

lemma copied_none: "copied m src dest 0 = m"
  by (auto simp: copied_def fun_eq_iff)

lemma at_byte_simps [simp]:
  "mc_mem (at_byte m src dest i n) = copied m src dest i" "mc_src (at_byte m src dest i n) = src + i"
  "mc_dest (at_byte m src dest i n) = dest + i" "mc_n (at_byte m src dest i n) = n"
  "take_n k (at_byte m src dest i n) = at_byte m src dest i (n - k)"
  "advance_ptrs k (copied m src dest (i + k)) (at_byte m src dest i n) = at_byte m src dest (i + k) n"
  by (simp_all add: at_byte_def take_n_def advance_ptrs_def)

lemma advance_ptrs_one [simp]:
  "advance_ptrs (Suc 0) (copied m src dest (Suc i)) (at_byte m src dest i n) = at_byte m src dest (Suc i) n"
  using at_byte_simps(6) [of "Suc 0" m src dest i n] by simp

text \<open>The source is as it was.\<close>

lemma copied_source:
  assumes "apart src dest len" and "i \<le> len" and "src \<le> a" and "a + k \<le> src + len"
  shows "map (copied m src dest i) [a..<a + k] = map m [a..<a + k]"
  using assms by (auto simp: copied_def apart_def)

lemma store_copied:
  assumes "bs = map m [src + i..<src + i + k]"
  shows "store_bytes (dest + i) bs (copied m src dest i) = copied m src dest (i + k)"
  using assms by (auto simp: store_bytes_def copied_def fun_eq_iff)

lemma read_source:
  assumes "apart src dest len" and "i \<le> len" and "src \<le> a" and "a + k \<le> src + len" and "a mod k = 0"
  shows "read_at (whole src dest len) k a (copied m src dest i) = Inr (map m [a..<a + k])"
  using assms copied_source [OF assms(1-4), where m = m] by (simp add: read_at_def readable_def whole_def)

lemma write_next:
  assumes "i + k \<le> len" and "(dest + i) mod k = 0" and "bs = map m [src + i..<src + i + k]"
  shows "write_at (whole src dest len) (dest + i) bs (copied m src dest i) = Inr (copied m src dest (i + k))"
  using assms(1,2) store_copied [OF assms(3), of dest] by (simp add: write_at_def writable_def whole_def assms(3))

lemma copy_unit_next:
  assumes "apart src dest len" and "i + k \<le> len" and "(src + i) mod k = 0" and "(dest + i) mod k = 0"
  shows "copy_unit (whole src dest len) k (dest + i) (src + i) (copied m src dest i) = Inr (copied m src dest (i + k))"
  using read_source [OF assms(1) _ _ _ assms(3), where i = i and m = m] write_next [OF assms(2,4) refl, where m = m and src = src] assms(2)
  by (simp add: copy_unit_def)

lemma copy_units_next:
  assumes "apart src dest len" and "i + count * k \<le> len" and "(src + i) mod k = 0" and "(dest + i) mod k = 0"
  shows "foldR (\<lambda>j. copy_unit (whole src dest len) k (dest + i + j * k) (src + i + j * k)) [0..<count] (copied m src dest i) =
    Inr (copied m src dest (i + count * k))"
  using assms(2)
proof (induction count)
  case (Suc count)
  have "copy_unit (whole src dest len) k (dest + (i + count * k)) (src + (i + count * k)) (copied m src dest (i + count * k)) =
      Inr (copied m src dest (i + count * k + k))"
    using Suc.prems assms(3,4) by (intro copy_unit_next [OF assms(1)]) (simp_all add: add.assoc [symmetric])
  then show ?case using Suc by (simp add: foldR_append add.assoc add.commute [of k])
qed simp

lemma copy_block_next:
  assumes "apart src dest len" and "i + count * k \<le> len" and "(src + i) mod k = 0" and "(dest + i) mod k = 0"
  shows "copy_block (whole src dest len) k count (at_byte m src dest i n) = Inr (at_byte m src dest (i + count * k) n)"
  using copy_units_next [OF assms, where m = m] by (simp add: copy_block_def)

section \<open>Through the delegation\<close>

lemma map_4: "map m [a..<a + 4] = [m a, m (a + 1), m (a + 2), m (a + 3)]"
  by (simp add: upt_rec numeral_eq_Suc)

lemma split_join:
  "even (length ws) \<Longrightarrow> concat (map split_word (join_words ws)) = ws"
proof (induction ws rule: join_words.induct)
  case (1 low high ws)
  have "ucast (push_bit 32 (ucast high) OR ucast low :: u64) = low"
    "ucast (drop_bit 32 (push_bit 32 (ucast high) OR ucast low :: u64)) = high"
    by (rule bit_word_eqI; simp add: bit_ucast_iff bit_or_iff bit_push_bit_iff bit_drop_bit_eq bit_imp_le_length; auto dest: bit_imp_le_length)+
  then show ?case using 1 by (simp add: split_word_def)
qed simp_all

lemma copy_control_ones: "count_ones (128 :: u32) = 1"
  by code_simp

lemma copy_control: "bigint_impl U a b (push_bit MEMCOPY_BIT_IDX 1) = Inr (b, False)"
  by (simp add: bigint_impl_def MEMCOPY_BIT_IDX_def BIGINT_NUM_CONTROL_BITS_def CARRY_BIT_IDX_def ADD_OP_BIT_IDX_def SUB_OP_BIT_IDX_def
      SUB_AND_NEGATE_OP_BIT_IDX_def MUL_LOW_OP_BIT_IDX_def MUL_HIGH_OP_BIT_IDX_def EQ_OP_BIT_IDX_def copy_control_ones)

lemma concat_upt_4:
  "concat (map (\<lambda>i. map m [a + 4 * i..<a + 4 * i + 4]) [0..<n]) = map m [a..<a + 4 * n]"
proof (induction n)
  case (Suc n)
  have "a + 4 * Suc n = a + 4 * n + 4" by simp
  then have "[a..<a + 4 * Suc n] = [a..<a + 4 * n] @ [a + 4 * n..<a + 4 * n + 4]"
    by (simp only: upt_add_eq_append [of a "a + 4 * n" 4])
  then show ?case by (simp only: map_append) (simp add: Suc.IH)
qed simp

lemma words_at_bytes: "concat (map to_le_bytes (words_at a m)) = map m [a..<a + 32]"
  unfolding words_at_def map_map comp_def map_4 to_from_le_bytes
  unfolding map_4 [symmetric] concat_upt_4 by simp

text \<open>A call with the control value of the copy.\<close>

lemma delegation_copies:
  assumes ap: "apart src dest len" and "i + 32 \<le> len" and al: "(src + i) mod 32 = 0" "(dest + i) mod 32 = 0"
    and ram: "ROM_BYTE_SIZE \<le> src" "ROM_BYTE_SIZE \<le> dest"
  shows "bigint_csr_trigger_delegation U (whole src dest len) (dest + i) (src + i) (push_bit MEMCOPY_BIT_IDX 1) (copied m src dest i) =
    Inr (copied m src dest (i + 32))"
proof -
  have "concat (map split_word (join_words (words_at (src + i) (copied m src dest i)))) = words_at (src + i) (copied m src dest i)"
    by (rule split_join) (simp add: words_at_def)
  then have "concat (map to_le_bytes (concat (map split_word (join_words (words_at (src + i) (copied m src dest i)))))) =
      map m [src + i..<src + i + 32]"
    using copied_source [OF ap, where i = i and a = "src + i" and k = 32 and m = m] assms(2) by (simp only: words_at_bytes)
  moreover have "readable (whole src dest len) (dest + i) 32" "writable (whole src dest len) (dest + i) 32"
      "readable (whole src dest len) (src + i) 32" "dest + i \<noteq> src + i"
    using assms(2) ap by (auto simp: readable_def writable_def whole_def apart_def)
  ultimately show ?thesis
    using ram al store_copied [OF refl, where k = 32 and m = m and dest = dest and src = src and i = i]
    by (simp only: bigint_csr_trigger_delegation_def copy_control bindR_Inr prod.case) simp
qed

lemma precompile_loop_copies:
  assumes ap: "apart src dest len" and ram: "ROM_BYTE_SIZE \<le> src" "ROM_BYTE_SIZE \<le> dest"
    and "i \<le> len" "(src + i) mod 32 = 0" "(dest + i) mod 32 = 0"
  shows "\<exists>i'. precompile_loop U (whole src dest len) (at_byte m src dest i (len - i)) = Inr (at_byte m src dest i' (len - i')) \<and> i' \<le> len"
  using assms(4-)
proof (induction "len - i" arbitrary: i rule: less_induct)
  case less
  show ?case
  proof (cases "32 \<le> len - i")
    case False
    then show ?thesis using less.prems by (subst precompile_loop.simps) auto
  next
    case True
    then have "i + 32 \<le> len" using less.prems(1) by simp
    note step = delegation_copies [OF ap this less.prems(2,3) ram, where U = U and m = m]
    moreover have "len - i - 32 = len - (i + 32)" by simp
    ultimately have step: "precompile_loop U (whole src dest len) (at_byte m src dest i (len - i)) =
        precompile_loop U (whole src dest len) (at_byte m src dest (i + 32) (len - (i + 32)))"
      using True by (subst precompile_loop.simps) simp
    have "(src + (i + 32)) mod 32 = 0" "(dest + (i + 32)) mod 32 = 0" using less.prems(2,3) by presburger+
    then show ?thesis unfolding step using True less.prems(1) by (intro less.hyps) simp_all
  qed
qed

section \<open>By the bits of the length\<close>

lemma div_bit:
  fixes n :: nat
  shows "n div 2 ^ b * 2 ^ b = n div (2 * 2 ^ b) * (2 * 2 ^ b) + (if n AND 2 ^ b \<noteq> 0 then 2 ^ b else 0)"
proof -
  have odd: "n AND 2 ^ b \<noteq> 0 \<longleftrightarrow> odd (n div 2 ^ b)"
    by (simp add: and_exp_eq_0_iff_not_bit bit_iff_odd)
  have half: "n div (2 * 2 ^ b) = n div 2 ^ b div 2" by (simp only: div_mult2_eq [symmetric] mult.commute)
  have "q * p = q div 2 * (2 * p) + (if odd q then p else 0)" for q p :: nat
    by (cases "odd q") (auto elim!: oddE evenE)
  from this [of "n div 2 ^ b" "2 ^ b"] show ?thesis unfolding odd half .
qed

text \<open>One of the conditional copies: the bits of the length below and above.\<close>

lemma copy_if_bit_next:
  assumes "apart src dest len" and "i + n \<le> len" and "count * k = 2 ^ b"
    and "(src + i) mod k = 0" and "(dest + i) mod k = 0" and "2 * 2 ^ b mod k = 0"
  shows "copy_if_bit c (whole src dest len) k count (at_byte m src dest (i + n div (2 * 2 ^ b) * (2 * 2 ^ b)) n) =
    Inr (at_byte m src dest (i + n div 2 ^ b * 2 ^ b) n)"
proof -
  let ?hi = "n div (2 * 2 ^ b) * (2 * 2 ^ b)"
  have al: "(src + (i + ?hi)) mod k = 0" "(dest + (i + ?hi)) mod k = 0"
    using assms(4-6) by (simp_all add: add.assoc [symmetric] mod_eq_0_iff_dvd)
  show ?thesis
  proof (cases "n AND 2 ^ b = 0")
    case True
    then have "n div 2 ^ b * 2 ^ b = ?hi" unfolding div_bit [of n b] by simp
    then show ?thesis using True by (simp only: copy_if_bit_def assms(3) at_byte_simps) simp
  next
    case False
    then have sum: "n div 2 ^ b * 2 ^ b = ?hi + count * k" using div_bit [of n b] assms(3) by simp
    have "n div 2 ^ b * 2 ^ b \<le> n" by (rule div_times_less_eq_dividend)
    then have "i + ?hi + count * k \<le> len" using assms(2) sum by linarith
    from copy_block_next [OF assms(1) this al, where m = m and n = n] show ?thesis
      using False al sum by (simp add: copy_if_bit_def assms(3) add.assoc)
  qed
qed

section \<open>Source and destination aligned alike\<close>

lemma align_src_stops:
  assumes "apart src dest len" and "i \<le> len"
  shows "\<exists>i'. align_src (whole src dest len) (at_byte m src dest i (len - i)) = Inr (at_byte m src dest i' (len - i')) \<and>
    i \<le> i' \<and> i' \<le> len \<and> (i' = len \<or> (src + i') mod 4 = 0)"
  using assms(2)
proof (induction "len - i" arbitrary: i)
  case 0
  then show ?case by (subst align_src.simps) (auto intro!: exI [of _ i])
next
  case (Suc d)
  show ?case
  proof (cases "(src + i) mod 4 = 0")
    case True
    then show ?thesis using Suc.prems by (subst align_src.simps) auto
  next
    case False
    have "copy_unit (whole src dest len) 1 (dest + i) (src + i) (copied m src dest i) = Inr (copied m src dest (i + 1))"
      using Suc.hyps(2) by (intro copy_unit_next [OF assms(1)]) simp_all
    moreover have "len - i - 1 = len - (i + 1)" "i < len" using Suc.hyps(2) by simp_all
    ultimately have "align_src (whole src dest len) (at_byte m src dest i (len - i)) =
        align_src (whole src dest len) (at_byte m src dest (i + 1) (len - (i + 1)))"
      using False \<open>i < len\<close> by (subst align_src.simps) simp
    moreover have "d = len - (i + 1)" "i + 1 \<le> len" using Suc.hyps(2) by simp_all
    from Suc.hyps(1) [OF this] obtain i' where
      "align_src (whole src dest len) (at_byte m src dest (i + 1) (len - (i + 1))) = Inr (at_byte m src dest i' (len - i'))"
      "i + 1 \<le> i'" "i' \<le> len" "i' = len \<or> (src + i') mod 4 = 0"
      by (elim exE conjE) (rule that)
    ultimately show ?thesis by (intro exI [of _ i']) auto
  qed
qed

lemma word_loop_stops:
  assumes "apart src dest len" and "i \<le> len" and "(src + i) mod 4 = 0" and "(dest + i) mod 4 = 0"
  shows "\<exists>i'. word_loop c (whole src dest len) (at_byte m src dest i (len - i)) = Inr (at_byte m src dest i' (len - i')) \<and>
    i' \<le> len \<and> len - i' < 64 \<and> (src + i') mod 4 = 0 \<and> (dest + i') mod 4 = 0"
  using assms(2-4)
proof (induction "len - i" arbitrary: i rule: less_induct)
  case less
  show ?case
  proof (cases "64 \<le> len - i")
    case False
    then show ?thesis using less.prems by (subst word_loop.simps) auto
  next
    case True
    then have "copy_block (whole src dest len) 4 16 (at_byte m src dest i (len - i)) = Inr (at_byte m src dest (i + 16 * 4) (len - i))"
      using less.prems by (intro copy_block_next [OF assms(1)]) simp_all
    moreover have "len - i - 64 = len - (i + 64)" by simp
    ultimately have step: "word_loop c (whole src dest len) (at_byte m src dest i (len - i)) =
        word_loop c (whole src dest len) (at_byte m src dest (i + 64) (len - (i + 64)))"
      using True less.prems(2,3) by (subst word_loop.simps) simp
    have "(src + (i + 64)) mod 4 = 0" "(dest + (i + 64)) mod 4 = 0" using less.prems(2,3) by presburger+
    then show ?thesis unfolding step using True less.prems(1) by (intro less.hyps) simp_all
  qed
qed

lemma aligned_copy_copies:
  assumes "apart src dest len" and "i \<le> len" and "i = len \<or> (src + i) mod 4 = 0 \<and> (dest + i) mod 4 = 0"
  shows "\<exists>s. aligned_copy c (whole src dest len) (at_byte m src dest i (len - i)) = Inr s \<and> mc_mem s = copied m src dest len"
proof (cases "i = len")
  case True
  then show ?thesis by (simp add: aligned_copy_def word_loop.simps copy_if_bit_def)
next
  case False
  then have al: "(src + i) mod 4 = 0" "(dest + i) mod 4 = 0" using assms(3) by auto
  obtain i' where loop: "word_loop c (whole src dest len) (at_byte m src dest i (len - i)) = Inr (at_byte m src dest i' (len - i'))"
    and i': "i' \<le> len" "len - i' < 64" "(src + i') mod 4 = 0" "(dest + i') mod 4 = 0"
    using word_loop_stops [OF assms(1,2) al, where c = c and m = m] by (elim exE conjE) (rule that)
  define n where "n = len - i'"
  have n: "i' + n \<le> len" "n < 64" "i' + n = len" using i'(1,2) by (simp_all add: n_def)
  have al2: "(src + i') mod 2 = 0" "(dest + i') mod 2 = 0" using i'(3,4) by presburger+
  let ?B = "whole src dest len" and ?at = "\<lambda>k. at_byte m src dest (i' + k) n"
  note bit = copy_if_bit_next [OF assms(1) n(1)]
  have "copy_if_bit c ?B 4 8 (?at 0) = Inr (?at (n div 32 * 32))"
    using bit [where count = 8 and k = 4 and b = 5 and c = c and m = m] i'(3,4) n(2) by simp
  moreover have "copy_if_bit c ?B 4 4 (?at (n div 32 * 32)) = Inr (?at (n div 16 * 16))"
    using bit [where count = 4 and k = 4 and b = 4 and c = c and m = m] i'(3,4) by simp
  moreover have "copy_if_bit c ?B 4 2 (?at (n div 16 * 16)) = Inr (?at (n div 8 * 8))"
    using bit [where count = 2 and k = 4 and b = 3 and c = c and m = m] i'(3,4) by simp
  moreover have "copy_if_bit c ?B 4 1 (?at (n div 8 * 8)) = Inr (?at (n div 4 * 4))"
    using bit [where count = 1 and k = 4 and b = 2 and c = c and m = m] i'(3,4) by simp
  moreover have "copy_if_bit c ?B 2 1 (?at (n div 4 * 4)) = Inr (?at (n div 2 * 2))"
    using bit [where count = 1 and k = 2 and b = 1 and c = c and m = m] al2 by simp
  moreover have "copy_if_bit c ?B 1 1 (?at (n div 2 * 2)) = Inr (?at n)"
    using bit [where count = 1 and k = 1 and b = 0 and c = c and m = m] by simp
  ultimately have "aligned_copy c ?B (at_byte m src dest i (len - i)) = Inr (?at n)"
    using loop n(2) al by (simp only: aligned_copy_def at_byte_simps) (simp add: n_def [symmetric])
  then show ?thesis using n(3) by simp
qed

section \<open>Words glued together\<close>

definition word_at :: "bytes \<Rightarrow> nat \<Rightarrow> u32" where
  "word_at m a = from_le_bytes (map m [a..<a + 4])"

lemma bytes_eqI:
  fixes v w :: u32
  assumes "\<And>n. n < 8 \<Longrightarrow> bit v n = bit w n" and "\<And>n. n < 8 \<Longrightarrow> bit v (n + 8) = bit w (n + 8)"
    and "\<And>n. n < 8 \<Longrightarrow> bit v (n + 16) = bit w (n + 16)" and "\<And>n. n < 8 \<Longrightarrow> bit v (n + 24) = bit w (n + 24)"
  shows "v = w"
proof (rule bit_word_eqI)
  fix n assume "n < LENGTH(32)"
  then consider "n < 8" | "8 \<le> n" "n - 8 < 8" | "16 \<le> n" "n - 16 < 8" | "24 \<le> n" "n - 24 < 8" by fastforce
  then show "bit v n = bit w n"
    using assms(1) [of n] assms(2) [of "n - 8"] assms(3) [of "n - 16"] assms(4) [of "n - 24"] by cases simp_all
qed

lemma bytes_glued:
  "drop_bit 24 (from_le_bytes [a, b, c, d]) OR push_bit 8 (from_le_bytes [e, f, g, h]) = from_le_bytes [d, e, f, g]"
  "drop_bit 16 (from_le_bytes [a, b, c, d]) OR push_bit 16 (from_le_bytes [e, f, g, h]) = from_le_bytes [c, d, e, f]"
  "drop_bit 8 (from_le_bytes [a, b, c, d]) OR push_bit 24 (from_le_bytes [e, f, g, h]) = from_le_bytes [b, c, d, e]"
  by (rule bytes_eqI; simp add: bit_or_iff bit_drop_bit_eq bit_push_bit_iff bit_from_le_bytes)+

text \<open>The bytes from \<open>a + 4 - r\<close> on, out of the words at \<open>a\<close> and \<open>a + 4\<close>.\<close>

lemma glued:
  assumes "r \<in> {1, 2, 3}"
  shows "to_le_bytes (drop_bit (8 * (4 - r)) (word_at m a) OR push_bit (8 * r) (word_at m (a + 4))) =
    map m [a + (4 - r)..<a + (4 - r) + 4]"
  using assms unfolding word_at_def map_4 by (auto simp: bytes_glued) (simp_all add: numeral_eq_Suc)

lemma read_u32_source:
  assumes "apart src dest len" and "i \<le> len" and "src \<le> a" and "a + 4 \<le> src + len" and "a mod 4 = 0"
  shows "read_u32 (whole src dest len) a (copied m src dest i) = Inr (word_at m a)"
  using read_source [OF assms, where m = m] by (simp add: read_u32_def word_at_def)

lemma write_u32_next:
  assumes "i + 4 \<le> len" and "(dest + i) mod 4 = 0" and "to_le_bytes v = map m [src + i..<src + i + 4]"
  shows "write_u32 (whole src dest len) (dest + i) v (copied m src dest i) = Inr (copied m src dest (i + 4))"
  using write_next [OF assms] by (simp add: write_u32_def)

lemma write_glued:
  assumes "r \<in> {1, 2, 3}" and "i + 4 \<le> len" and "(dest + i) mod 4 = 0" and "src + i = a + (4 - r)"
  shows "write_u32 (whole src dest len) (dest + i)
      (drop_bit (8 * (4 - r)) (word_at m a) OR push_bit (8 * r) (word_at m (a + 4))) (copied m src dest i) =
    Inr (copied m src dest (i + 4))"
  by (rule write_u32_next [OF assms(2,3)]) (simp only: glued [OF assms(1)] assms(4))

text \<open>Half an iteration: \<open>a\<close> is the address of the word read last.\<close>

lemma glue_half_next:
  assumes ap: "apart src dest len" and r: "r \<in> {1, 2, 3}" and al: "a mod 4 = 0" "(dest + i) mod 4 = 0"
    and a: "src + i = a + (4 - r)" "src \<le> a" and fits: "i + N * 8 + 8 + r \<le> len"
  shows "glue_half (whole src dest len) r N (at_byte m src dest i n) (word_at m (a + N * 8), copied m src dest (i + N * 8)) =
    Inr (word_at m (a + N * 8 + 8), copied m src dest (i + N * 8 + 8))"
proof -
  let ?B = "whole src dest len"
  define b j where "b = a + N * 8" and "j = i + N * 8"
  have b: "b mod 4 = 0" "(dest + j) mod 4 = 0" "src + j = b + (4 - r)" "src \<le> b" "j + 8 + r \<le> len" "0 < r" "r < 4"
    using al a fits r by (auto simp: b_def j_def mod_simps) presburger+
  have addr: "src + i + r + N * 8 = b + 4" "src + i + r + 4 + N * 8 = b + 4 + 4" "dest + i + 4 * (0 + 2 * N) = dest + j"
    "dest + i + 4 * (1 + 2 * N) = dest + (j + 4)"
    using a(1) r by (auto simp: b_def j_def)
  have al4: "(b + 4) mod 4 = 0" "(b + 4 + 4) mod 4 = 0" "(dest + (j + 4)) mod 4 = 0" using b(1,2) by presburger+
  have r1: "read_u32 ?B (b + 4) (copied m src dest j) = Inr (word_at m (b + 4))"
    using b al4(1) by (intro read_u32_source [OF ap]) simp_all
  note w1 = write_glued [OF r _ b(2,3), where m = m and len = len]
  have r2: "read_u32 ?B (b + 4 + 4) (copied m src dest (j + 4)) = Inr (word_at m (b + 4 + 4))"
    using b al4(2) by (intro read_u32_source [OF ap]) simp_all
  have "src + (j + 4) = b + 4 + (4 - r)" using b(3) by simp
  note w2 = write_glued [OF r _ al4(3) this, where m = m and len = len]
  have room: "j + 4 \<le> len" "j + 4 + 4 \<le> len" using b(5) by simp_all
  have eight: "b + 8 = b + 4 + 4" "j + 8 = j + 4 + 4" by simp_all
  show ?thesis
    unfolding b_def [symmetric] j_def [symmetric] eight glue_half_def at_byte_simps addr prod.case r1 bindR_Inr w1 [OF room(1)] r2
      w2 [OF room(2)] ..
qed

lemma past_aligned: "a mod 4 = 0 \<Longrightarrow> t < 4 \<Longrightarrow> (a + t) mod 4 = (t :: nat)"
  by presburger

lemma glue_loop_stops:
  assumes ap: "apart src dest len" and r: "r \<in> {1, 2, 3}"
    and "i \<le> len" "a mod 4 = 0" "(dest + i) mod 4 = 0" "src + i = a + (4 - r)" "src \<le> a"
  shows "\<exists>i'. glue_loop c (whole src dest len) r (word_at m a) (at_byte m src dest i (len - i)) =
      Inr (at_byte m src dest i' (len - i')) \<and> i' \<le> len \<and> len - i' < 32"
  using assms(3-)
proof (induction "len - i" arbitrary: i a rule: less_induct)
  case less
  let ?B = "whole src dest len"
  have r4: "0 < r" "r < 4" using r by auto
  show ?case
  proof (cases "16 + r \<le> len - i")
    case False
    then show ?thesis using less.prems r4 by (subst glue_loop.simps) auto
  next
    case True
    have al: "(src + i) mod 4 = 4 - r" unfolding less.prems(4) using less.prems(2) r4 by (intro past_aligned) simp_all
    note half = glue_half_next [OF ap r less.prems(2-5), where m = m and n = "len - i"]
    have "foldR (\<lambda>N. glue_half ?B r N (at_byte m src dest i (len - i))) [0, 1] (word_at m a, copied m src dest i) =
        Inr (word_at m (a + 16), copied m src dest (i + 16))"
      using half [of 0] half [of 1] True by (simp add: add.commute [of 16])
    moreover have "len - i - 16 = len - (i + 16)" by simp
    ultimately have step: "glue_loop c ?B r (word_at m a) (at_byte m src dest i (len - i)) =
        glue_loop c ?B r (word_at m (a + 16)) (at_byte m src dest (i + 16) (len - (i + 16)))"
      using True al less.prems(3) by (subst glue_loop.simps) (simp del: foldR.simps)
    have "(a + 16) mod 4 = 0" "(dest + (i + 16)) mod 4 = 0" using less.prems(2,3) by presburger+
    then show ?thesis unfolding step using True less.prems(1,4,5) by (intro less.hyps) simp_all
  qed
qed

lemma glue_arm_stops:
  assumes ap: "apart src dest len" and r: "r \<in> {1, 2, 3}"
    and "i + 20 \<le> len" and "(src + i) mod 4 = 0" and "(dest + i) mod 4 = r"
  shows "\<exists>i'. glue_arm c (whole src dest len) r (at_byte m src dest i (len - i)) =
      Inr (at_byte m src dest i' (len - i')) \<and> i' \<le> len \<and> len - i' < 32"
proof -
  let ?B = "whole src dest len" and ?j = "i + (4 - r)"
  have r4: "0 < r" "r < 4" using r by auto
  have j: "?j \<le> len" "(dest + ?j) mod 4 = 0" "src + ?j = src + i + (4 - r)" using assms(3,5) r4 by (simp_all, presburger)
  have al: "(src + ?j) mod 4 = 4 - r" unfolding j(3) using assms(4) r4 by (intro past_aligned) simp_all
  have "read_u32 ?B (src + i) (copied m src dest i) = Inr (word_at m (src + i))"
    using assms(3,4) by (intro read_u32_source [OF ap]) simp_all
  moreover have "copy_block ?B 1 (4 - r) (at_byte m src dest i (len - i)) = Inr (at_byte m src dest ?j (len - i))"
    using copy_block_next [OF ap, where i = i and count = "4 - r" and k = 1 and n = "len - i" and m = m] assms(3) by simp
  moreover have "len - i - (4 - r) = len - ?j" by simp
  ultimately have "glue_arm c ?B r (at_byte m src dest i (len - i)) =
      glue_loop c ?B r (word_at m (src + i)) (at_byte m src dest ?j (len - ?j))"
    using al j(2) by (simp only: glue_arm_def at_byte_simps bindR_Inr Let_def) simp
  with glue_loop_stops [OF ap r j(1) assms(4) j(2,3), where c = c and m = m] show ?thesis by simp
qed

text \<open>The last bytes, and the whole of the unaligned case.\<close>

lemma unaligned_copy_copies:
  assumes ap: "apart src dest len" and "i \<le> len" and "i = len \<or> (src + i) mod 4 = 0" and "(dest + i) mod 4 \<noteq> 0"
  shows "\<exists>s. unaligned_copy c (whole src dest len) (at_byte m src dest i (len - i)) = Inr s \<and> mc_mem s = copied m src dest len"
proof -
  let ?B = "whole src dest len" and ?r = "(dest + i) mod 4"
  define arms where "arms s = (if 20 \<le> mc_n s then
      debug_assert (debug_assertions c) (mc_src s mod 4 = 0)
      (let r = mc_dest s mod 4 in
       if r = 1 then glue_arm c ?B 1 s
       else if r = 2 then glue_arm c ?B 2 s
       else if r = 3 then glue_arm c ?B 3 s
       else Inl UndefinedBehaviour)
    else Inr s)" for s
  have "\<exists>i'. arms (at_byte m src dest i (len - i)) = Inr (at_byte m src dest i' (len - i')) \<and> i' \<le> len \<and> len - i' < 32"
  proof (cases "20 \<le> len - i")
    case False
    then show ?thesis using assms(2) by (auto simp: arms_def)
  next
    case True
    then have long: "i + 20 \<le> len" "(src + i) mod 4 = 0" using assms(3) by auto
    have "?r \<in> {1, 2, 3}" using assms(4) by auto
    moreover from this have "arms (at_byte m src dest i (len - i)) = glue_arm c ?B ?r (at_byte m src dest i (len - i))"
      using True long(2) by (auto simp: arms_def Let_def)
    ultimately show ?thesis using glue_arm_stops [OF ap _ long refl] by simp
  qed
  then obtain i' where arms: "arms (at_byte m src dest i (len - i)) = Inr (at_byte m src dest i' (len - i'))"
    and i': "i' \<le> len" "len - i' < 32" by (elim exE conjE) (rule that)
  define n where "n = len - i'"
  have n: "i' + n \<le> len" "n < 32" "i' + n = len" using i' by (simp_all add: n_def)
  let ?at = "\<lambda>k. at_byte m src dest (i' + k) n"
  note bit = copy_if_bit_next [OF ap n(1), where k = 1 and c = c and m = m]
  have "copy_if_bit c ?B 1 16 (?at 0) = Inr (?at (n div 16 * 16))" using bit [where count = 16 and b = 4] n(2) by simp
  moreover have "copy_if_bit c ?B 1 8 (?at (n div 16 * 16)) = Inr (?at (n div 8 * 8))" using bit [where count = 8 and b = 3] by simp
  moreover have "copy_if_bit c ?B 1 4 (?at (n div 8 * 8)) = Inr (?at (n div 4 * 4))" using bit [where count = 4 and b = 2] by simp
  moreover have "copy_if_bit c ?B 1 2 (?at (n div 4 * 4)) = Inr (?at (n div 2 * 2))" using bit [where count = 2 and b = 1] by simp
  moreover have "copy_if_bit c ?B 1 1 (?at (n div 2 * 2)) = Inr (?at n)" using bit [where count = 1 and b = 0] by simp
  ultimately have "unaligned_copy c ?B (at_byte m src dest i (len - i)) = Inr (?at n)"
    using arms n(2) unfolding unaligned_copy_def arms_def [symmetric]
    by (simp only: bindR_Inr at_byte_simps) (simp add: n_def [symmetric])
  then show ?thesis using n(3) by simp
qed

section \<open>The routine copies\<close>

lemma memcpy_copied:
  assumes ap: "apart src dest n" and ram: "via_precompile \<Longrightarrow> ROM_BYTE_SIZE \<le> dest"
  shows "memcpy_impl c U via_precompile (whole src dest n) dest src n m = Inr (copied m src dest n)"
proof -
  let ?B = "whole src dest n"
  define pre where "pre \<longleftrightarrow> via_precompile \<and> ROM_BYTE_SIZE \<le> src \<and> src mod 32 = 0 \<and> dest mod 32 = 0 \<and> 32 \<le> n"
  have start: "\<lparr> mc_mem = m, mc_src = src, mc_dest = dest, mc_n = n \<rparr> = at_byte m src dest 0 (n - 0)"
    using copied_none by (simp add: at_byte_def)
  have "\<exists>i. (if pre then precompile_loop U ?B (at_byte m src dest 0 (n - 0)) else Inr (at_byte m src dest 0 (n - 0))) =
      Inr (at_byte m src dest i (n - i)) \<and> i \<le> n"
  proof (cases pre)
    case True
    then show ?thesis using precompile_loop_copies [OF ap, where i = 0 and U = U and m = m] ram by (simp add: pre_def)
  next
    case False
    then show ?thesis by (intro exI [of _ 0]) simp
  qed
  then obtain i where pre: "(if pre then precompile_loop U ?B (at_byte m src dest 0 (n - 0)) else Inr (at_byte m src dest 0 (n - 0))) =
      Inr (at_byte m src dest i (n - i))" and i: "i \<le> n" by (elim exE conjE) (rule that)
  obtain j where src: "align_src ?B (at_byte m src dest i (n - i)) = Inr (at_byte m src dest j (n - j))"
    and j: "j \<le> n" "j = n \<or> (src + j) mod 4 = 0"
    using align_src_stops [OF ap i, where m = m] by (elim exE conjE) (rule that)
  have "\<exists>s. (if (dest + j) mod 4 = 0 then aligned_copy c ?B (at_byte m src dest j (n - j))
      else unaligned_copy c ?B (at_byte m src dest j (n - j))) = Inr s \<and> mc_mem s = copied m src dest n"
    using aligned_copy_copies [OF ap j(1), where c = c and m = m] unaligned_copy_copies [OF ap j, where c = c and m = m] j(2) by auto
  then show ?thesis
    unfolding memcpy_impl_def Let_def start pre_def [symmetric] pre bindR_Inr using src i by (auto simp: le_antisym)
qed

text \<open>C22. Whatever the lengths and alignments, and with or without the delegation, between two objects
  that do not overlap the routine copies the bytes of the source, changes nothing else, leaves neither
  object and violates no assertion.\<close>

theorem memcpy_copies:
  assumes ap: "apart src dest n" and ram: "via_precompile \<Longrightarrow> ROM_BYTE_SIZE \<le> dest"
  shows "memcpy_impl c U via_precompile (whole src dest n) dest src n m =
    Inr (\<lambda>x. if dest \<le> x \<and> x < dest + n then m (src + (x - dest)) else m x)"
  using memcpy_copied [OF assms, where c = c and U = U and m = m] by (simp only: copied_def)

theorem memcpy_copies_witness:
  "memcpy_impl debug_build ruint_model True (whole 0x400000 0x400040 45) 0x400040 0x400000 45 word_of_nat =
    Inr (\<lambda>x. if 0x400040 \<le> x \<and> x < 0x400040 + 45 then word_of_nat (0x400000 + (x - 0x400040)) else word_of_nat x)"
proof (rule memcpy_copies)
  show "apart 0x400000 0x400040 45" by (simp add: apart_def)
  show "ROM_BYTE_SIZE \<le> 0x400040" by (simp add: ROM_BYTE_SIZE_def ROM_BYTE_SIZE_LOG2_def)
qed

text \<open>After \<open>init\<close> both sections hold what the ROM holds for them, and the ROM is as it was.\<close>

lemma load_to_ram_copied:
  assumes "src + (dst_end - dst_start) \<le> ROM_BYTE_SIZE" and "src < ROM_BYTE_SIZE" and "ROM_BYTE_SIZE \<le> dst_start" and "dst_start \<le> dst_end"
  shows "load_to_ram c U via_precompile src dst_start dst_end m = Inr (copied m src dst_start (dst_end - dst_start))"
proof -
  have ap: "apart src dst_start (dst_end - dst_start)" using assms(1,3) by (simp add: apart_def)
  then show ?thesis using assms(2-4) memcpy_copied [OF ap, where via_precompile = via_precompile and c = c and U = U and m = m]
    by (simp add: load_to_ram_def Let_def)
qed

lemma init_loads:
  assumes "sym_rom_size L \<le> ROM_BYTE_SIZE" and "sym_estack L = ROM_BYTE_SIZE"
    and ro: "sym_sirodata L + (sym_erodata L - sym_srodata L) \<le> ROM_BYTE_SIZE" "sym_sirodata L < ROM_BYTE_SIZE"
      "ROM_BYTE_SIZE \<le> sym_srodata L" "sym_srodata L \<le> sym_erodata L"
    and data: "sym_sidata L + (sym_edata L - sym_sdata L) \<le> ROM_BYTE_SIZE" "sym_sidata L < ROM_BYTE_SIZE"
      "ROM_BYTE_SIZE \<le> sym_sdata L" "sym_sdata L \<le> sym_edata L"
    and "sym_erodata L \<le> sym_sdata L \<or> sym_edata L \<le> sym_srodata L"
  obtains m' where "init c U via_precompile L m = Inr m'"
    and "\<And>i. sym_srodata L + i < sym_erodata L \<Longrightarrow> m' (sym_srodata L + i) = m (sym_sirodata L + i)"
    and "\<And>i. sym_sdata L + i < sym_edata L \<Longrightarrow> m' (sym_sdata L + i) = m (sym_sidata L + i)"
    and "\<And>a. a < ROM_BYTE_SIZE \<Longrightarrow> m' a = m a"
proof (rule that)
  let ?m1 = "copied m (sym_sirodata L) (sym_srodata L) (sym_erodata L - sym_srodata L)"
  let ?m2 = "copied ?m1 (sym_sidata L) (sym_sdata L) (sym_edata L - sym_sdata L)"
  show "init c U via_precompile L m = Inr ?m2"
    using assms(1,2) by (simp add: init_def load_to_ram_copied [OF ro] load_to_ram_copied [OF data])
  show "\<And>i. sym_srodata L + i < sym_erodata L \<Longrightarrow> ?m2 (sym_srodata L + i) = m (sym_sirodata L + i)"
    using assms(11) ro by (auto simp: copied_def)
  show "\<And>i. sym_sdata L + i < sym_edata L \<Longrightarrow> ?m2 (sym_sdata L + i) = m (sym_sidata L + i)"
    using data(1,2) ro(3) by (auto simp: copied_def)
  show "\<And>a. a < ROM_BYTE_SIZE \<Longrightarrow> ?m2 a = m a" using ro(3) data(3) by (auto simp: copied_def)
qed

end
