(* ===== verification/Teardown.thy ===== *)
theory Teardown
  imports Ram Worker
begin

text \<open>
  \<open>collect_inits_and_teardowns\<close> of \<open>vm/ram_with_rom_region.rs\<close>: the threads of a worker walk over the
  memory and list the words that were accessed, with the timestamp and the value they end with, for
  the circuit that initializes the memory and tears it down. Each thread has its own range and its own
  vector, so that the order in which they run does not matter.
\<close>

section \<open>The collection\<close>

text \<open>The loop of a thread: the address is that of the next word of its slice.\<close>

fun collect_slice :: "cfg \<Rightarrow> nat \<Rightarrow> register list \<Rightarrow> (u32 \<times> u64 \<times> u32) list" where
  "collect_slice c address [] = []"
| "collect_slice c address (word # src) =
     (if reg_timestamp word \<noteq> 0 then
        (let word_value = (if address < 2 ^ (16 + rom_bits c) then 0 else reg_value word) in
         [(word_of_nat address, reg_timestamp word, word_value)])
      else []) @ collect_slice c (address + 4) src"

text \<open>One iteration of the loop that spawns the threads; \<open>dst\<close> are the vectors not handed out yet.\<close>

definition spawn_collect ::
  "cfg \<Rightarrow> rom_ram \<Rightarrow> WorkerGeometry \<Rightarrow> nat \<Rightarrow>
   (u32 \<times> u64 \<times> u32) list list \<times> (u32 \<times> u64 \<times> u32) list list \<Rightarrow>
   ((u32 \<times> u64 \<times> u32) list list \<times> (u32 \<times> u64 \<times> u32) list list) res" where
  "spawn_collect c m geometry thread_idx = (\<lambda>(filled, dst).
     bindR (get_chunk_size geometry thread_idx) (\<lambda>sz.
     bindR (get_chunk_start_pos geometry thread_idx) (\<lambda>chunk_start.
     case dst of
       [] \<Rightarrow> Inl AssertFailed
     | el # rest \<Rightarrow>
         guardR (chunk_start + sz \<le> backing_len m) IndexOutOfBounds
         (let src = map (backing m) [chunk_start..<chunk_start + sz] in
          Inr (filled @ [el @ collect_slice c (chunk_start * 4) src], rest)))))"

definition collect_inits_and_teardowns :: "cfg \<Rightarrow> nat \<Rightarrow> rom_ram \<Rightarrow> (u32 \<times> u64 \<times> u32) list list res" where
  "collect_inits_and_teardowns c num_cores m =
     (let chunks = replicate num_cores [] in
      bindR (get_geometry_for_num_cores num_cores (backing_len m)) (\<lambda>geometry.
      bindR (foldR (spawn_collect c m geometry) [0..<num_chunks geometry] ([], chunks)) (\<lambda>(filled, dst).
      Inr (filled @ dst))))"

section \<open>What is collected\<close>

text \<open>The entry of word \<open>i\<close>, and the words accessed.\<close>

definition teardown_entry :: "cfg \<Rightarrow> rom_ram \<Rightarrow> nat \<Rightarrow> u32 \<times> u64 \<times> u32" where
  "teardown_entry c m i =
     (word_of_nat (4 * i), reg_timestamp (backing m i), if 4 * i < rom_bytes c then 0 else reg_value (backing m i))"

definition accessed :: "rom_ram \<Rightarrow> nat list" where
  "accessed m = filter (\<lambda>i. reg_timestamp (backing m i) \<noteq> 0) [0..<backing_len m]"

lemma collect_slice_append:
  "collect_slice c a (ws @ ws') = collect_slice c a ws @ collect_slice c (a + 4 * length ws) ws'"
  by (induction ws arbitrary: a) (simp_all add: add.assoc)

lemma collect_slice_entries:
  "collect_slice c (4 * s) (map (backing m) [s..<s + n]) =
    map (teardown_entry c m) (filter (\<lambda>i. reg_timestamp (backing m i) \<noteq> 0) [s..<s + n])"
  by (induction n) (simp_all add: collect_slice_append teardown_entry_def rom_bytes_def)

lemma nth_of_concat:
  assumes "j < length xss"
  shows "xss ! j = take (length (xss ! j)) (drop (length (concat (take j xss))) (concat xss))"
proof -
  have "concat xss = concat (take j xss) @ xss ! j @ concat (drop (Suc j) xss)"
    by (subst id_take_nth_drop [OF assms]) simp
  then show ?thesis by simp
qed

lemma collect_pieces:
  "concat (map (\<lambda>j. collect_slice c (length (concat (take j cs)) * 4) (cs ! j)) [0..<k]) = collect_slice c 0 (concat (take k cs))"
  if "k \<le> length cs"
  using that by (induction k) (simp_all add: collect_slice_append take_Suc_conv_app_nth mult.commute [of 4])

text \<open>The first \<open>k\<close> threads.\<close>

lemma threads_collect:
  assumes "concat cs = map (backing m) [0..<backing_len m]" and "length cs \<le> num_cores"
    and "\<And>j. j < length cs \<Longrightarrow> get_chunk_size g j = Inr (length (cs ! j))"
    and "\<And>j. j < length cs \<Longrightarrow> get_chunk_start_pos g j = Inr (length (concat (take j cs)))"
    and "k \<le> length cs"
  shows "foldR (spawn_collect c m g) [0..<k] ([], replicate num_cores []) =
    Inr (map (\<lambda>j. collect_slice c (length (concat (take j cs)) * 4) (cs ! j)) [0..<k], replicate (num_cores - k) [])"
  using assms(5)
proof (induction k)
  case (Suc k)
  then have k: "k < length cs" by simp
  let ?s = "length (concat (take k cs))" and ?l = "length (cs ! k)"
  have "concat cs = concat (take k cs) @ cs ! k @ concat (drop (Suc k) cs)"
    by (subst id_take_nth_drop [OF k]) simp
  then have fits: "?s + ?l \<le> backing_len m" using arg_cong [OF assms(1), of length] by simp
  have "cs ! k = take ?l (drop ?s (map (backing m) [0..<backing_len m]))"
    using nth_of_concat [OF k] by (simp only: assms(1))
  then have piece: "cs ! k = map (backing m) [?s..<?s + ?l]"
    using fits by (simp add: take_map drop_map drop_upt take_upt)
  have "num_cores - k = Suc (num_cores - Suc k)" using k assms(2) by simp
  then show ?case
    using Suc.IH k fits piece [symmetric] assms(3,4) [OF k] by (simp add: foldR_append spawn_collect_def Let_def)
qed simp

text \<open>
  C21. However many threads share the work, the collection succeeds, returns a vector per core, and the
  vectors one after the other list every word that was accessed exactly once, in the order of the addresses,
  with its last timestamp and its value, which is 0 for the words of the ROM.
\<close>

theorem teardown_complete:
  assumes "num_cores \<noteq> 0" and "backing_len m \<noteq> 0"
  shows "\<exists>chunks. collect_inits_and_teardowns c num_cores m = Inr chunks \<and> length chunks = num_cores \<and>
    concat chunks = map (teardown_entry c m) (accessed m)"
proof -
  have "map (backing m) [0..<backing_len m] \<noteq> []" using assms(2) by simp
  from geometry_cuts [OF assms(1) this] obtain g cs where
    g: "get_geometry_for_num_cores num_cores (backing_len m) = Inr g" "concat cs = map (backing m) [0..<backing_len m]"
    "length cs = num_chunks g" "num_chunks g \<le> num_cores"
    "\<And>j. j < length cs \<Longrightarrow> get_chunk_size g j = Inr (length (cs ! j))"
    "\<And>j. j < length cs \<Longrightarrow> get_chunk_start_pos g j = Inr (length (concat (take j cs)))"
    by (metis length_map length_upt diff_zero)
  let ?filled = "map (\<lambda>j. collect_slice c (length (concat (take j cs)) * 4) (cs ! j)) [0..<num_chunks g]"
  have "collect_inits_and_teardowns c num_cores m = Inr (?filled @ replicate (num_cores - num_chunks g) [])"
    using threads_collect [OF g(2) _ g(5,6), of num_cores "num_chunks g" c] g(1,3,4) by (simp add: collect_inits_and_teardowns_def)
  moreover have "concat ?filled = collect_slice c 0 (concat cs)"
    using collect_pieces [of "num_chunks g" cs c] g(3) by simp
  moreover have "collect_slice c 0 (concat cs) = map (teardown_entry c m) (accessed m)"
    using collect_slice_entries [of c 0 m "backing_len m"] by (simp add: g(2) accessed_def)
  ultimately show ?thesis using g(4) by auto
qed

theorem teardown_complete_witness:
  "\<exists>chunks. collect_inits_and_teardowns \<lparr> debug_assertions = True, fuzzing_support = False, rom_bits = 6 \<rparr> 3
      \<lparr> backing = (\<lambda>i. if i = 5 then \<lparr> reg_timestamp = 9, reg_value = 7 \<rparr> else \<lparr> reg_timestamp = 0, reg_value = 0 \<rparr>), backing_len = 16 \<rparr> =
      Inr chunks \<and> length chunks = 3 \<and> concat chunks = [(20, 9, 0)]"
  using teardown_complete [of 3 "\<lparr> backing = (\<lambda>i. if i = 5 then \<lparr> reg_timestamp = 9, reg_value = 7 \<rparr>
      else \<lparr> reg_timestamp = 0, reg_value = 0 \<rparr>), backing_len = 16 \<rparr>" "\<lparr> debug_assertions = True, fuzzing_support = False, rom_bits = 6 \<rparr>"]
  by (simp add: accessed_def teardown_entry_def rom_bytes_def upt_rec)

end
