(* ===== verification/Spec2Isabelle.thy ===== *)
theory Spec2Isabelle
  imports Decode_Props VmMemory Field_Props Bigint Blake2 Keccak_Equiv VmProps RvRun ReplayProps Fft Pow Uart Memcpy Teardown
begin

text \<open>
  A verification library for the front end of the ZKsync Airbender prover: the RISC-V machine
  that executes a program and records what it did, the replay that turns the record into the
  rows a circuit proves, and the arithmetic of its delegations.

  The program. A guest program is a list of 32-bit words. \<open>preprocess_bytecode\<close>
  (\<open>riscv_transpiler/src/ir\<close>) decodes it once into a tape of instructions; runs of
  delegation calls (a CSR instruction repeated 7, 10 or 649 times) become one instruction. The
  machine (\<open>riscv_transpiler/src/vm\<close>) executes the tape: a register file with the timestamp of the
  last access of every register, a memory with a ROM region and the same timestamps, a snapshotter that logs the
  old value and timestamp of every word accessed, counters per circuit family, a source
  of non-deterministic words, and three delegations (256-bit arithmetic, Blake2s rounds,
  Keccak-f[1600]). The replayer (\<open>riscv_transpiler/src/replayer\<close>) executes the tape again, with
  the log in place of the memory, and hands one row per cycle and one record per delegation call
  to a tracer (\<open>riscv_transpiler/src/witness\<close>).

  Conventions (\<open>Prelude\<close>). Machine integers are words of their width. A function that can panic,
  overflow in a debug build, or run into undefined behaviour returns a value of \<open>fault + 'a\<close>: every
  panic, assertion and unchecked access is a branch of the model. What the build fixes is in
  \<open>cfg\<close>: debug assertions (with them the overflow checks), the feature
  \<open>fuzzing-support\<close> and the size of the ROM. Traits (\<open>RAM\<close>, \<open>Snapshotter\<close>,
  \<open>Counters\<close>, \<open>NonDeterminismCSRSource\<close>, \<open>ReplayBuffer\<close>, \<open>WitnessTracer\<close>) are records of operations;
  the laws an implementation keeps are locales, interpreted on the implementations of the source.
\<close>

section \<open>Theories and sources\<close>

text \<open>
  Data and decoder.
  \<^item> \<open>Constants\<close>: \<open>common_constants\<close> (timestamps, circuit families, CSR numbers, delegations).
  \<^item> \<open>Decode\<close>: \<open>ir/instructions.rs\<close>, \<open>ir/decode.rs\<close>, \<open>ir/mod.rs\<close>. \<open>Encoding\<close> has the instruction
    formats of the ISA manual as an independent specification, \<open>Decode_Props\<close> the properties:
    decoding inverts encoding, and any result of the decoder is well formed.

  Machine.
  \<^item> \<open>Machine\<close>: the state and register accesses of \<open>vm/mod.rs\<close>, \<open>vm/instructions/mod.rs\<close>; \<open>Ram\<close>:
    \<open>vm/ram_with_rom_region.rs\<close>, whose collection of the accessed words is in \<open>Teardown\<close>; \<open>Snapshot\<close>: \<open>vm/replay_snapshotter.rs\<close> and the counters.
  \<^item> \<open>VmInstr\<close>, \<open>VmMemory\<close>: the handlers of \<open>vm/instructions/*\<close>; \<open>VmDelegations\<close>: \<open>vm/delegations/*\<close>;
    \<open>VmStep\<close>: dispatch, one cycle, the two loops of \<open>vm/mod.rs\<close>.
  \<^item> \<open>Ensures\<close>, \<open>VmInvariant\<close>, \<open>VmProps\<close>: rules for what holds whenever a computation returns, the
    invariant of every handler, and of cycles and runs. The locale \<open>vm_parts\<close> has the memory, the
    snapshotter and the counters as its parameters; \<open>VmProps\<close> interprets it on the machine with
    \<open>RamWithRomRegion\<close> and \<open>SimpleSnapshotter\<close> over a vector.
  \<^item> \<open>RvSpec\<close>, \<open>RvBytes\<close>, \<open>VmRefine\<close>, \<open>RvRefine\<close>, \<open>RvRun\<close>: a reference semantics of the supported ISA on
    plain registers and memory words, and the simulation of it by the machine.

  Delegations.
  \<^item> \<open>Mersenne31\<close>, \<open>Mersenne_Group\<close>, \<open>Field_Props\<close>: \<open>field/src/base.rs\<close>, used by the modular instructions;
    inverses, roots and powers rest on 7 being a primitive root.
  \<^item> \<open>GaloisField\<close>, \<open>FieldTower\<close>, \<open>FieldContract\<close>: the extensions of degree 2 and 4 (\<open>field/src/complex.rs\<close>,
    \<open>quartic.rs\<close>, \<open>field.rs\<close>) and the fields they implement; the locale \<open>field_impl\<close> is what the generic code relies on.
  \<^item> \<open>FieldUtils\<close>, \<open>Domains\<close>: \<open>fft/src/field_utils.rs\<close> (batch inversion, tables of powers, roots of unity); \<open>Worker\<close>:
    how \<open>worker/src/lib.rs\<close> divides work among threads; \<open>Bitreverse\<close>: the bit-reversal permutation of \<open>fft/src/utils.rs\<close>.
  \<^item> \<open>Ntt\<close>, \<open>Fft\<close>: the in-place transforms and the entry points of \<open>fft/src/column_major/naive.rs\<close> with the twiddles of
    \<open>row_major/precomputes.rs\<close>; the locale \<open>transformable\<close> (elements that can be scaled by twiddles) is interpreted
    on both extensions.
  \<^item> \<open>Bigint\<close>: \<open>vm/delegations/bigint.rs\<close>; the crate \<open>ruint\<close> is a parameter, its laws are the locale \<open>ruint\<close>.
  \<^item> \<open>Blake2\<close>: the crate \<open>blake2s_u32\<close> and \<open>vm/delegations/blake2_round_function.rs\<close>.
  \<^item> \<open>Keccak\<close>, \<open>Keccak_Equiv\<close>: \<open>keccak_special5.rs\<close> of the machine and of the replayer, and the equivalence of the 649
    calls with the plain permutation.

  Transcripts and the guest runtime.
  \<^item> \<open>Hashers\<close>: \<open>blake2s_u32/src/state_with_extended_control.rs\<close>, the hasher that drives the Blake2s delegation in the guest;
    the locale \<open>hasher\<close> is what a transcript relies on, interpreted on it (guest and host) and on the plain hasher.
  \<^item> \<open>FiatShamir\<close>: \<open>transcript/src/lib.rs\<close>; \<open>Pow\<close>: \<open>transcript/src/pow.rs\<close>, with the threads of the parallel search as a step relation.
  \<^item> \<open>Uart\<close>: the text channel, its guest side in \<open>riscv_common/src/lib.rs\<close>, its host side in
    \<open>riscv_transpiler/src/abstractions/non_determinism.rs\<close>.
  \<^item> \<open>Memcpy\<close>: \<open>memcpy_impl\<close> of \<open>riscv_common/src/memcpy.rs\<close> on a byte memory with two objects, and the loading of the
    sections by \<open>boot_sequence/mod.rs\<close>.

  Replay.
  \<^item> \<open>Witness\<close>: the rows, records and tracers (\<open>machine_mode_only_unrolled\<close>, \<open>witness/mod.rs\<close>,
    \<open>abstractions/tracer.rs\<close>); \<open>Replay\<close>, \<open>ReplayDelegations\<close>, \<open>ReplayStep\<close>: \<open>replayer/*\<close> and \<open>jit/structs.rs\<close>.
  \<^item> \<open>ReplayContract\<close>: the locales \<open>replay_ram\<close> (a memory that answers from a log) and \<open>tracing\<close> (a tracer that does
    not fail), interpreted on the two memories and on all destination holders.
  \<^item> \<open>Transcript\<close>: the events of a replay and the check \<open>certify\<close> of the memory argument on registers;
    \<open>MemoryArgument\<close>: a transcript that passes it balances as multisets.
  \<^item> \<open>ReplayHandlers\<close>, \<open>ReplayMemory\<close>, \<open>ReplayLog\<close>, \<open>ReplayCycles\<close>, \<open>ReplayBatch\<close>, \<open>ReplayBigint\<close>, \<open>ReplayBlake\<close>,
    \<open>ReplayKeccak\<close>, \<open>ReplayRun\<close>: the simulation of the machine by the replayer, handler by handler, then for
    cycles and runs; \<open>ReplayProps\<close>: what it gives for the concrete parts.
\<close>

section \<open>What is shown\<close>

text \<open>
  \<^item> The machine implements the ISA: assemble, decode, run from power-on, and the registers, program
    counter, memory and faults are those of the reference semantics.
  \<^item> Every cycle, a delegation batch included, keeps the invariant: aligned clock, \<open>x0\<close> zero, every
    recorded access before the clock, the counters equal to the cycles, the ROM unchanged, the log only extended.
  \<^item> The replay of a recorded run reaches the run's last state, consumes exactly its log, and its rows and
    records satisfy the memory argument on the registers.
  \<^item> The delegations compute what they are specified to: 256-bit arithmetic, the compression and the
    absorption of the hasher of \<open>blake2s_u32\<close>, Keccak-f[1600]; the circuit's small steps compose to the machine's fused ones.
  \<^item> The field operations are those of the field with \<open>2 ^ 31 - 1\<close> elements, on every representation;
    the extensions implement fields of degree 2 and 4, for host and guest alike.
  \<^item> Parallel and in-place algorithms give what the plain ones give: batch inversion, tables of powers,
    the bit reversal and the collection of the accessed memory under any division of the work. The transforms evaluate a polynomial on a coset, and the
    inverse transform interpolates.
  \<^item> Transcripts commit to the Blake2s digest of the message, whatever its pieces and whichever hasher runs it; the search for a
    proof of work ends under every schedule, and what it finds passes the verifier (below 32 bits).
  \<^item> A message written by the guest is printed by the host byte by byte, unless it is empty. The guest's \<open>memcpy\<close> copies,
    at every length and alignment, and stays inside the two objects.
  \<^item> Loops terminate. The cycle loops take their bound from the code; the loops over a clock bound get one
    unit of fuel per cycle, which is enough because each cycle moves the clock (by 4 to \<open>4 * 649\<close>). A theorem about
    \<open>n\<close> cycles asks for \<open>4 * 650 * n\<close> below \<open>2 ^ 64\<close>: the clock does not wrap around.
\<close>

section \<open>Not modelled\<close>

text \<open>
  The circuits, the prover, the verifiers and their generated code; the just-in-time compiler, which
  emits x86-64; the GPU prover; the guest's assembly and exit sequences; profiling (flamegraph and cycle markers, which do not
  affect the state); the log in files. A memory that answers from a log is assumed to hold it in
  one slice where a delegation skips its entries, as the source's own skip does.
\<close>

end
